(* ===== verification/Prelude.thy ===== *)
theory Prelude
  imports Main "HOL-Library.Word" "HOL-Library.Multiset"
begin

text \<open>
  Shared material of the claudeos development: the names of the machine types, the error
  numbers of \<open>kernel/src/abi.rs\<close> the modelled code returns, the alignment helpers of
  \<open>kernel/src/mm/mod.rs\<close>, byte order, and generic lemmas on lists, folds and words.

  The kernel is built with \<open>overflow-checks = true\<close> (the \<open>kernel\<close> profile of the workspace's
  \<open>Cargo.toml\<close>), so plain \<open>+\<close>, \<open>-\<close> and \<open>*\<close> never wrap: they are exact or they panic.  Sizes,
  indices and addresses are therefore \<open>nat\<close>, with every saturating, checked or wrapping
  operation of the source written out; descriptors, checksums, sequence numbers and on-disk
  fields, where the bits matter, are words.
\<close>

unbundle bit_operations_syntax

type_synonym u8 = "8 word"
type_synonym u16 = "16 word"
type_synonym u32 = "32 word"
type_synonym u64 = "64 word"
type_synonym bytes = "u8 list"

named_theorems align_simps \<open>facts about rounding to a power of two\<close>
named_theorems byte_simps \<open>facts about byte order\<close>
named_theorems wf_intros \<open>operations that keep a well-formedness invariant\<close>

section \<open>Machine limits and error numbers\<close>

definition U64_MAX :: nat where
  "U64_MAX = 2 ^ 64 - 1"

definition U32_MAX :: nat where
  "U32_MAX = 2 ^ 32 - 1"

definition U16_MAX :: nat where
  "U16_MAX = 2 ^ 16 - 1"

datatype (plugins only: code size) errno =
    EPERM | ENOENT | ESRCH | EINTR | EIO | ENXIO | E2BIG | ENOEXEC | EBADF | ECHILD | EAGAIN
  | ENOMEM | EACCES | EFAULT | EBUSY | EEXIST | EXDEV | ENODEV | ENOTDIR | EISDIR | EINVAL
  | ENFILE | EMFILE | ENOTTY | ETXTBSY | EFBIG | ENOSPC | ESPIPE | EROFS | EMLINK | EPIPE | EDOM
  | ERANGE | ENAMETOOLONG | ENOSYS | ENOTEMPTY | ELOOP | ENOTSOCK | EDESTADDRREQ | EMSGSIZE
  | EPROTOTYPE | ENOPROTOOPT | EPROTONOSUPPORT | EOPNOTSUPP | EAFNOSUPPORT | EADDRINUSE
  | EADDRNOTAVAIL | ENETDOWN | ENETUNREACH | ECONNABORTED | ECONNRESET | ENOBUFS | EISCONN
  | ENOTCONN | ESHUTDOWN | ETIMEDOUT | ECONNREFUSED | EHOSTUNREACH | EALREADY | EINPROGRESS
  | ESTALE | EUCLEAN

definition saturating_add :: "nat \<Rightarrow> nat \<Rightarrow> nat \<Rightarrow> nat" where
  "saturating_add limit a b = min limit (a + b)"

definition saturating_mul :: "nat \<Rightarrow> nat \<Rightarrow> nat \<Rightarrow> nat" where
  "saturating_mul limit a b = min limit (a * b)"

definition checked_add :: "nat \<Rightarrow> nat \<Rightarrow> nat \<Rightarrow> nat option" where
  "checked_add limit a b = (if a + b \<le> limit then Some (a + b) else None)"

section \<open>Alignment (kernel/src/mm/mod.rs)\<close>

definition PAGE_SIZE :: nat where
  "PAGE_SIZE = 4096"

text \<open>
  The source masks: \<open>value & !(align - 1)\<close> and \<open>(value + align - 1) & !(align - 1)\<close>.  On a
  power of two this is division and multiplication, which \<open>align_down_mask\<close> and
  \<open>align_up_mask\<close> below prove against the masked form on 64-bit words.
\<close>

definition align_down :: "nat \<Rightarrow> nat \<Rightarrow> nat" where
  "align_down v a = v div a * a"

definition align_up :: "nat \<Rightarrow> nat \<Rightarrow> nat" where
  "align_up v a = (v + a - 1) div a * a"

definition page_align_down :: "nat \<Rightarrow> nat" where
  "page_align_down v = align_down v PAGE_SIZE"

definition page_align_up :: "nat \<Rightarrow> nat" where
  "page_align_up v = align_up v PAGE_SIZE"

lemma unat_and_not_mask:
  fixes v :: u64
  assumes "k < 64"
  shows "unat (v AND NOT (2 ^ k - 1)) = unat v div 2 ^ k * 2 ^ k"
proof -
  have "v AND NOT (2 ^ k - 1) = push_bit k (drop_bit k v)"
    by (rule bit_word_eqI)
      (auto simp: bit_and_iff bit_not_iff bit_push_bit_iff bit_drop_bit_eq
        mask_eq_exp_minus_1 [symmetric] bit_mask_iff)
  moreover have "unat (push_bit k (drop_bit k v)) = unat v div 2 ^ k * 2 ^ k"
  proof -
    have lt: "unat v div 2 ^ k * 2 ^ k < 2 ^ 64"
      using unsigned_less [of v, where 'a = nat]
      by (auto intro: le_less_trans [OF div_times_less_eq_dividend])
    have "take_bit 64 (unat v) = unat v"
      using unsigned_less [of v, where 'a = nat] by (simp add: take_bit_nat_eq_self_iff)
    then have "unat (push_bit k (drop_bit k v)) = take_bit 64 (push_bit k (drop_bit k (unat v)))"
      by (simp add: unsigned_push_bit_eq unsigned_drop_bit_eq)
    also have "\<dots> = unat v div 2 ^ k * 2 ^ k"
      using lt by (simp add: push_bit_eq_mult drop_bit_eq_div take_bit_eq_mod)
    finally show ?thesis .
  qed
  ultimately show ?thesis by simp
qed

lemma align_down_mask:
  fixes v :: u64
  shows "k < 64 \<Longrightarrow> unat (v AND NOT (2 ^ k - 1)) = align_down (unat v) (2 ^ k)"
  by (simp add: unat_and_not_mask align_down_def)

lemma align_up_mask:
  fixes v :: u64
  assumes "k < 64" and fits: "unat v + 2 ^ k - 1 < 2 ^ 64"
  shows "unat ((v + 2 ^ k - 1) AND NOT (2 ^ k - 1)) = align_up (unat v) (2 ^ k)"
proof -
  have "v + 2 ^ k - 1 = v + (2 ^ k - 1)"
    by simp
  also have "\<dots> = word_of_nat (unat v) + word_of_nat (2 ^ k - 1)"
    by (simp add: of_nat_diff)
  also have "\<dots> = word_of_nat (unat v + (2 ^ k - 1))"
    by (rule of_nat_add [symmetric])
  finally have "v + 2 ^ k - 1 = word_of_nat (unat v + 2 ^ k - 1)"
    by simp
  then have "unat (v + 2 ^ k - 1) = unat v + 2 ^ k - 1"
    using fits by (simp add: unat_of_nat)
  then show ?thesis
    using assms(1) by (simp add: unat_and_not_mask align_up_def)
qed

lemma align_up_bounds:
  assumes "0 < a"
  shows "v \<le> align_up v a" and "align_up v a < v + a"
proof -
  have "(v + a - 1) div a * a + (v + a - 1) mod a = v + a - 1"
    by (rule div_mult_mod_eq)
  moreover have "(v + a - 1) mod a < a"
    using assms by simp
  ultimately show "v \<le> align_up v a" and "align_up v a < v + a"
    using assms unfolding align_up_def by linarith+
qed

end
