(* ===== verification/Boot.thy ===== *)
theory Boot
  imports Prelude
begin

text \<open>
  \<open>kernel/src/boot.rs\<close>: what the loader's decoders hand to the portable kernel.  The fixed
  arrays with their counts are lists whose length the operations bound.  The command line is
  carried as bytes only.
\<close>

record mem_region =
  mr_addr :: nat
  mr_len :: nat
  mr_usable :: bool

definition mr_end :: "mem_region \<Rightarrow> nat" where
  "mr_end r = mr_addr r + mr_len r"

record phys_range =
  pr_start :: nat
  pr_end :: nat

record boot_module =
  bm_start :: nat
  bm_end :: nat

definition MAX_REGIONS :: nat where "MAX_REGIONS = 32"
definition MAX_MODULES :: nat where "MAX_MODULES = 8"
definition MAX_RESERVED :: nat where "MAX_RESERVED = 64"
definition CMDLINE_MAX :: nat where "CMDLINE_MAX = 2048"

record boot_info =
  bi_regions :: "mem_region list"
  bi_modules :: "boot_module list"
  bi_reserved :: "phys_range list"
  bi_cmdline :: bytes

definition boot_new :: boot_info where
  "boot_new = \<lparr>bi_regions = [], bi_modules = [], bi_reserved = [], bi_cmdline = []\<rparr>"

definition add_region :: "nat \<Rightarrow> nat \<Rightarrow> bool \<Rightarrow> boot_info \<Rightarrow> boot_info" where
  "add_region addr len usable b =
     (let len' = min len (U64_MAX - addr) in
      if length (bi_regions b) < MAX_REGIONS
      then b\<lparr>bi_regions := bi_regions b @ [\<lparr>mr_addr = addr, mr_len = len', mr_usable = usable\<rparr>]\<rparr>
      else b)"

definition add_module :: "nat \<Rightarrow> nat \<Rightarrow> boot_info \<Rightarrow> boot_info" where
  "add_module start stop b =
     (if stop > start \<and> length (bi_modules b) < MAX_MODULES
      then b\<lparr>bi_modules := bi_modules b @ [\<lparr>bm_start = start, bm_end = stop\<rparr>]\<rparr>
      else b)"

text \<open>The first loop of \<open>reserve\<close>: widen the first range the new one touches.\<close>

fun reserve_join :: "nat \<Rightarrow> nat \<Rightarrow> phys_range list \<Rightarrow> phys_range list option" where
  "reserve_join start stop [] = None"
| "reserve_join start stop (r # rs) =
     (if start \<le> pr_end r \<and> stop \<ge> pr_start r
      then Some (\<lparr>pr_start = min (pr_start r) start, pr_end = max (pr_end r) stop\<rparr> # rs)
      else map_option (Cons r) (reserve_join start stop rs))"

definition abs_diff :: "nat \<Rightarrow> nat \<Rightarrow> nat" where
  "abs_diff a b = (if a < b then b - a else a - b)"

text \<open>The second loop: the index of the range whose start is nearest.\<close>

fun reserve_nearest :: "nat \<Rightarrow> nat \<Rightarrow> nat \<Rightarrow> nat \<Rightarrow> phys_range list \<Rightarrow> nat" where
  "reserve_nearest start i nearest distance [] = nearest"
| "reserve_nearest start i nearest distance (r # rs) =
     (let d = abs_diff start (pr_start r) in
      if d < distance then reserve_nearest start (Suc i) i d rs
      else reserve_nearest start (Suc i) nearest distance rs)"

definition reserve :: "nat \<Rightarrow> nat \<Rightarrow> boot_info \<Rightarrow> boot_info" where
  "reserve start stop b =
     (if stop \<le> start then b
      else case reserve_join start stop (bi_reserved b) of
        Some rs \<Rightarrow> b\<lparr>bi_reserved := rs\<rparr>
      | None \<Rightarrow>
          if length (bi_reserved b) < MAX_RESERVED
          then b\<lparr>bi_reserved := bi_reserved b @ [\<lparr>pr_start = start, pr_end = stop\<rparr>]\<rparr>
          else
            (let n = reserve_nearest start 0 0 U64_MAX (bi_reserved b);
                 r = bi_reserved b ! n
             in b\<lparr>bi_reserved := (bi_reserved b)
                    [n := \<lparr>pr_start = min (pr_start r) start, pr_end = max (pr_end r) stop\<rparr>]\<rparr>))"

definition set_cmdline :: "bytes \<Rightarrow> boot_info \<Rightarrow> boot_info" where
  "set_cmdline bs b = b\<lparr>bi_cmdline := take CMDLINE_MAX bs\<rparr>"

section \<open>What the table covers\<close>

definition range_set :: "phys_range \<Rightarrow> nat set" where
  "range_set r = {pr_start r..<pr_end r}"

definition reserved_set :: "boot_info \<Rightarrow> nat set" where
  "reserved_set b = (\<Union>r \<in> set (bi_reserved b). range_set r)"

definition boot_wf :: "boot_info \<Rightarrow> bool" where
  "boot_wf b \<longleftrightarrow>
     length (bi_regions b) \<le> MAX_REGIONS \<and> length (bi_modules b) \<le> MAX_MODULES
   \<and> length (bi_reserved b) \<le> MAX_RESERVED \<and> length (bi_cmdline b) \<le> CMDLINE_MAX
   \<and> (\<forall>r \<in> set (bi_regions b). mr_addr r \<le> U64_MAX \<longrightarrow> mr_end r \<le> U64_MAX)
   \<and> (\<forall>r \<in> set (bi_reserved b). pr_start r < pr_end r)
   \<and> (\<forall>m \<in> set (bi_modules b). bm_start m < bm_end m)"

lemma reserve_join_SomeD:
  assumes "reserve_join start stop rs = Some rs'" and "start < stop"
    and "\<forall>r \<in> set rs. pr_start r < pr_end r"
  shows "length rs' = length rs \<and> (\<forall>r \<in> set rs'. pr_start r < pr_end r)
    \<and> (\<Union>r \<in> set rs'. range_set r) = (\<Union>r \<in> set rs. range_set r) \<union> {start..<stop}"
  using assms
proof (induction rs arbitrary: rs')
  case Nil
  then show ?case by simp
next
  case (Cons r rs)
  show ?case
  proof (cases "start \<le> pr_end r \<and> stop \<ge> pr_start r")
    case True
    have "range_set \<lparr>pr_start = min (pr_start r) start, pr_end = max (pr_end r) stop\<rparr>
        = range_set r \<union> {start..<stop}"
      using True Cons.prems(2,3) by (auto simp: range_set_def)
    with True Cons.prems show ?thesis by auto
  next
    case False
    then obtain qs where "reserve_join start stop rs = Some qs" and "rs' = r # qs"
      using Cons.prems(1) by auto
    with Cons.IH [of qs] Cons.prems(2,3) show ?thesis by auto
  qed
qed

lemma reserve_nearest_bound:
  "nearest < i + length rs \<or> nearest = 0 \<and> i + length rs = 0 \<Longrightarrow>
    reserve_nearest start i nearest distance rs < i + length rs \<or> i + length rs = 0"
proof (induction rs arbitrary: i nearest distance)
  case Nil
  then show ?case by auto
next
  case (Cons r rs)
  then show ?case
    using Cons.IH [of i "Suc i"] Cons.IH [of nearest "Suc i"] by (auto simp: Let_def)
qed

lemma reserve_nearest_less:
  "rs \<noteq> [] \<Longrightarrow> reserve_nearest start 0 0 distance rs < length rs"
  using reserve_nearest_bound [of 0 0 rs start distance] by simp

lemma UN_list_update:
  assumes "n < length xs" and "f (xs ! n) \<subseteq> f y"
  shows "(\<Union>x \<in> set (xs[n := y]). f x) = (\<Union>x \<in> set xs. f x) \<union> f y"
proof
  show "(\<Union>x \<in> set (xs[n := y]). f x) \<subseteq> (\<Union>x \<in> set xs. f x) \<union> f y"
    using set_update_subset_insert [of xs n y] by blast
  show "(\<Union>x \<in> set xs. f x) \<union> f y \<subseteq> (\<Union>x \<in> set (xs[n := y]). f x)"
  proof -
    have "f x \<subseteq> (\<Union>x \<in> set (xs[n := y]). f x)" if "x \<in> set xs" for x
    proof -
      from that obtain i where i: "i < length xs" "x = xs ! i"
        by (auto simp: in_set_conv_nth)
      show ?thesis
      proof (cases "i = n")
        case True
        with i assms show ?thesis
          by (auto simp: set_update_memI intro!: bexI [of _ y])
      next
        case False
        with i have "xs[n := y] ! i = x" and "i < length (xs[n := y])" by simp_all
        then have "x \<in> set (xs[n := y])" by (metis nth_mem)
        then show ?thesis by blast
      qed
    qed
    moreover have "f y \<subseteq> (\<Union>x \<in> set (xs[n := y]). f x)"
      using set_update_memI [OF assms(1), of y] by blast
    ultimately show ?thesis by blast
  qed
qed

lemma reserve_full:
  assumes "boot_wf b" and "start < stop" and "reserve_join start stop (bi_reserved b) = None"
    and "\<not> length (bi_reserved b) < MAX_RESERVED"
  shows "boot_wf (reserve start stop b)"
    and "reserved_set b \<union> {start..<stop} \<subseteq> reserved_set (reserve start stop b)"
proof -
  let ?rs = "bi_reserved b"
  let ?n = "reserve_nearest start 0 0 U64_MAX ?rs"
  let ?r = "\<lparr>pr_start = min (pr_start (?rs ! ?n)) start, pr_end = max (pr_end (?rs ! ?n)) stop\<rparr>"
  have n: "?n < length ?rs"
    using assms(4) by (intro reserve_nearest_less) (auto simp: MAX_RESERVED_def)
  have eq: "reserve start stop b = b\<lparr>bi_reserved := ?rs[?n := ?r]\<rparr>"
    using assms by (simp add: reserve_def Let_def)
  have sub: "range_set (?rs ! ?n) \<subseteq> range_set ?r" and new: "{start..<stop} \<subseteq> range_set ?r"
    by (auto simp: range_set_def)
  show "reserved_set b \<union> {start..<stop} \<subseteq> reserved_set (reserve start stop b)"
    using UN_list_update [OF n sub] new by (auto simp: eq reserved_set_def)
  have "pr_start ?r < pr_end ?r"
    using assms(2) by auto
  then show "boot_wf (reserve start stop b)"
    using assms(1) set_update_subset_insert [of ?rs ?n ?r]
    by (auto simp: eq boot_wf_def)
qed

text \<open>
  C24 (\<open>reserve\<close>): the table reserves at least what was asked for and everything it reserved
  before, on every path: joined to a range it touches, added, or folded into the nearest range
  when the table is full.  The fixed sizes of the tables are kept.
\<close>

theorem reserve_sound:
  assumes "boot_wf b"
  shows "boot_wf (reserve start stop b)
    \<and> reserved_set b \<union> {start..<stop} \<subseteq> reserved_set (reserve start stop b)"
proof (cases "stop \<le> start")
  case True
  with assms show ?thesis by (simp add: reserve_def)
next
  case False
  then have lt: "start < stop" by simp
  show ?thesis
  proof (cases "reserve_join start stop (bi_reserved b)")
    case (Some rs)
    with lt assms reserve_join_SomeD [OF Some lt] show ?thesis
      by (auto simp: reserve_def reserved_set_def boot_wf_def)
  next
    case None
    show ?thesis
    proof (cases "length (bi_reserved b) < MAX_RESERVED")
      case True
      with None lt assms show ?thesis
        by (auto simp: reserve_def reserved_set_def boot_wf_def range_set_def)
    next
      case False
      with reserve_full [OF assms lt None] show ?thesis by blast
    qed
  qed
qed

theorem reserve_sound_witness:
  "boot_wf boot_new \<and> {16..<32} \<subseteq> reserved_set (reserve 16 32 boot_new)"
proof -
  have "boot_wf boot_new" by (simp add: boot_wf_def boot_new_def)
  with reserve_sound [OF this, of 16 32] show ?thesis by blast
qed

lemma boot_new_wf [wf_intros]: "boot_wf boot_new"
  by (simp add: boot_wf_def boot_new_def)

lemma add_region_wf [wf_intros]: "boot_wf b \<Longrightarrow> boot_wf (add_region addr len usable b)"
  by (auto simp: boot_wf_def add_region_def Let_def mr_end_def)

lemma add_module_wf [wf_intros]: "boot_wf b \<Longrightarrow> boot_wf (add_module start stop b)"
  by (auto simp: boot_wf_def add_module_def)

lemma set_cmdline_wf [wf_intros]: "boot_wf b \<Longrightarrow> boot_wf (set_cmdline bs b)"
  by (auto simp: boot_wf_def set_cmdline_def)

end
