(* ===== verification/Frame.thy ===== *)
theory Frame
  imports Boot
begin

text \<open>
  \<open>kernel/src/mm/frame.rs\<close>: the bitmap allocator of physical frames.  The bitmap is the list
  of its 64-bit words and the reference counts the list of their 16-bit values (as \<open>nat\<close>, with
  the saturation of \<open>saturating_add\<close> and \<open>saturating_sub\<close> written out).  A \<open>for\<close> loop over a
  range is a \<open>fold\<close> or a recursion over the list of its indices, in order.  Theorems: the
  allocator's invariant, what each operation hands out and holds, that the table \<open>build\<close> makes
  never offers memory something else owns, and where \<open>init\<close> puts the metadata.
\<close>

section \<open>The allocator\<close>

record bitmap_allocator =
  bitmap :: "u64 list"
  words :: nat
  refcounts :: "nat list"
  frames :: nat
  managed :: nat
  used :: nat
  hint :: nat
  bitmap_phys :: nat
  bitmap_bytes :: nat

definition frame_test :: "bitmap_allocator \<Rightarrow> nat \<Rightarrow> bool" where
  "frame_test a f \<longleftrightarrow> drop_bit (f mod 64) (bitmap a ! (f div 64)) AND 1 \<noteq> 0"

definition frame_set :: "nat \<Rightarrow> bitmap_allocator \<Rightarrow> bitmap_allocator" where
  "frame_set f a =
     a\<lparr>bitmap := (bitmap a)[f div 64 := bitmap a ! (f div 64) OR push_bit (f mod 64) 1]\<rparr>"

definition frame_clear :: "nat \<Rightarrow> bitmap_allocator \<Rightarrow> bitmap_allocator" where
  "frame_clear f a =
     a\<lparr>bitmap := (bitmap a)[f div 64 := bitmap a ! (f div 64) AND NOT (push_bit (f mod 64) 1)]\<rparr>"

definition frame_set_count :: "nat \<Rightarrow> nat \<Rightarrow> bitmap_allocator \<Rightarrow> bitmap_allocator" where
  "frame_set_count f v a = a\<lparr>refcounts := (refcounts a)[f := v]\<rparr>"

definition frame_count :: "bitmap_allocator \<Rightarrow> nat \<Rightarrow> nat" where
  "frame_count a f = refcounts a ! f"

definition covered :: "bitmap_allocator \<Rightarrow> nat" where
  "covered a = frames a * PAGE_SIZE"

definition mark_used_step :: "nat \<Rightarrow> bitmap_allocator \<Rightarrow> bitmap_allocator" where
  "mark_used_step f a =
     (let a1 = (if \<not> frame_test a f then a\<lparr>used := used a + 1\<rparr> else a)
      in frame_set_count f 1 (frame_set f a1))"

definition mark_range_used :: "nat \<Rightarrow> nat \<Rightarrow> bitmap_allocator \<Rightarrow> bitmap_allocator" where
  "mark_range_used start stop a =
     (let first = min start (covered a) div PAGE_SIZE;
          last = page_align_up (min stop (covered a)) div PAGE_SIZE
      in fold mark_used_step [first..<min last (frames a)] a)"

definition mark_free_step :: "nat \<Rightarrow> bitmap_allocator \<Rightarrow> bitmap_allocator" where
  "mark_free_step f a =
     (let a1 = (if frame_test a f then a\<lparr>used := used a - 1\<rparr> else a)
      in frame_clear f a1)"

definition mark_range_free :: "nat \<Rightarrow> nat \<Rightarrow> bitmap_allocator \<Rightarrow> bitmap_allocator" where
  "mark_range_free start stop a =
     (let first = page_align_up (min start (covered a)) div PAGE_SIZE;
          last = min stop (covered a) div PAGE_SIZE
      in fold mark_free_step [first..<min last (frames a)] a)"

text \<open>\<open>u64::trailing_zeros\<close>.\<close>

definition trailing_zeros :: "u64 \<Rightarrow> nat" where
  "trailing_zeros w = length (takeWhile (\<lambda>i. \<not> bit w i) [0..<64])"

text \<open>The \<open>while\<close> loop of one pass of \<open>alloc\<close>, over the words it looks at.\<close>

fun alloc_scan :: "bitmap_allocator \<Rightarrow> nat list \<Rightarrow> nat option" where
  "alloc_scan a [] = None"
| "alloc_scan a (w # ws) =
     (let word = bitmap a ! w in
      if word \<noteq> - 1 then
        (let frame = w * 64 + trailing_zeros (NOT word) in
         if frame < frames a \<and> \<not> frame_test a frame then Some frame else alloc_scan a ws)
      else alloc_scan a ws)"

definition alloc_pass :: "nat \<Rightarrow> nat \<Rightarrow> bitmap_allocator \<Rightarrow> nat option" where
  "alloc_pass start stop a = alloc_scan a [start div 64..<(stop + 63) div 64]"

definition alloc_take :: "nat \<Rightarrow> bitmap_allocator \<Rightarrow> bitmap_allocator" where
  "alloc_take f a = (frame_set_count f 1 (frame_set f a))\<lparr>used := used a + 1, hint := f + 1\<rparr>"

definition frame_alloc :: "bitmap_allocator \<Rightarrow> nat option \<times> bitmap_allocator" where
  "frame_alloc a =
     (if used a \<ge> frames a then (None, a)
      else case alloc_pass (hint a) (frames a) a of
        Some f \<Rightarrow> (Some (f * PAGE_SIZE), alloc_take f a)
      | None \<Rightarrow>
          (case alloc_pass 0 (hint a) a of
             Some f \<Rightarrow> (Some (f * PAGE_SIZE), alloc_take f a)
           | None \<Rightarrow> (None, a)))"

text \<open>The loop of \<open>alloc_contiguous\<close>: the last frame of the first run of \<open>want\<close>.\<close>

fun contiguous_scan :: "bitmap_allocator \<Rightarrow> nat \<Rightarrow> nat \<Rightarrow> nat list \<Rightarrow> nat option" where
  "contiguous_scan a want run [] = None"
| "contiguous_scan a want run (f # fs) =
     (if frame_test a f then contiguous_scan a want 0 fs
      else if run + 1 = want then Some f
      else contiguous_scan a want (run + 1) fs)"

definition contiguous_step :: "nat \<Rightarrow> bitmap_allocator \<Rightarrow> bitmap_allocator" where
  "contiguous_step x a = frame_set_count x 1 (frame_set x a)"

definition frame_alloc_contiguous :: "nat \<Rightarrow> bitmap_allocator \<Rightarrow> nat option \<times> bitmap_allocator" where
  "frame_alloc_contiguous want a =
     (if want = 0 then (None, a)
      else if want = 1 then frame_alloc a
      else case contiguous_scan a want 0 [0..<frames a] of
        None \<Rightarrow> (None, a)
      | Some f \<Rightarrow>
          (let first = f + 1 - want;
               a1 = fold contiguous_step [first..<Suc f] a
           in (Some (first * PAGE_SIZE), a1\<lparr>used := used a1 + want\<rparr>)))"

definition frame_free :: "nat \<Rightarrow> bitmap_allocator \<Rightarrow> bitmap_allocator" where
  "frame_free phys a =
     (let frame = phys div PAGE_SIZE in
      if frame \<ge> frames a \<or> \<not> frame_test a frame then a
      else
        (let remaining = frame_count a frame - 1;
             a1 = frame_set_count frame remaining a
         in if remaining > 0 then a1
            else
              (let a2 = frame_clear frame (a1\<lparr>used := used a1 - 1\<rparr>)
               in if frame < hint a2 then a2\<lparr>hint := frame\<rparr> else a2)))"

definition frame_share :: "nat \<Rightarrow> bitmap_allocator \<Rightarrow> bitmap_allocator" where
  "frame_share phys a =
     (let frame = phys div PAGE_SIZE in
      if frame < frames a \<and> frame_test a frame
      then frame_set_count frame (saturating_add U16_MAX (frame_count a frame) 1) a
      else a)"

definition frame_references :: "bitmap_allocator \<Rightarrow> nat \<Rightarrow> nat" where
  "frame_references a phys =
     (let frame = phys div PAGE_SIZE in if frame < frames a then frame_count a frame else 0)"

definition total_frames :: "bitmap_allocator \<Rightarrow> nat" where
  "total_frames a = managed a"

definition used_frames :: "bitmap_allocator \<Rightarrow> nat" where
  "used_frames a = used a - (frames a - managed a)"

definition free_frames :: "bitmap_allocator \<Rightarrow> nat" where
  "free_frames a = frames a - used a"

definition bitmap_region :: "bitmap_allocator \<Rightarrow> nat \<times> nat" where
  "bitmap_region a = (bitmap_phys a, bitmap_bytes a)"

section \<open>Bits of the bitmap\<close>

definition held_set :: "bitmap_allocator \<Rightarrow> nat set" where
  "held_set a = {f. f < frames a \<and> frame_test a f}"

definition frame_wf :: "bitmap_allocator \<Rightarrow> bool" where
  "frame_wf a \<longleftrightarrow>
     frames a \<le> 64 * length (bitmap a) \<and> frames a \<le> length (refcounts a)
   \<and> used a = card (held_set a) \<and> hint a \<le> frames a
   \<and> (\<forall>f < frames a. \<not> frame_test a f \<longrightarrow> frame_count a f = 0)
   \<and> (\<forall>f < frames a. frame_count a f \<le> U16_MAX)"

lemma frame_test_bit: "frame_test a f \<longleftrightarrow> bit (bitmap a ! (f div 64)) (f mod 64)"
  by (simp add: frame_test_def and_one_eq bit_iff_odd_drop_bit odd_iff_mod_2_eq_one)

lemma same_bit_iff: "f div 64 = g div 64 \<and> f mod 64 = g mod 64 \<longleftrightarrow> f = (g::nat)"
  by (metis div_mult_mod_eq)

lemma word_index_less: "f < 64 * n \<Longrightarrow> f div 64 < (n::nat)"
  by (simp add: less_mult_imp_div_less mult.commute)

lemma frame_test_set:
  assumes "f < 64 * length (bitmap a)"
  shows "frame_test (frame_set f a) g \<longleftrightarrow> g = f \<or> frame_test a g"
proof -
  have "f div 64 < length (bitmap a)" using assms by (rule word_index_less)
  then show ?thesis
    using same_bit_iff [of f g]
    by (auto simp: frame_test_bit frame_set_def nth_list_update bit_or_iff bit_exp_iff)
qed

lemma frame_test_clear:
  assumes "f < 64 * length (bitmap a)"
  shows "frame_test (frame_clear f a) g \<longleftrightarrow> g \<noteq> f \<and> frame_test a g"
proof -
  have "f div 64 < length (bitmap a)" using assms by (rule word_index_less)
  then show ?thesis
    using same_bit_iff [of f g]
    by (auto simp: frame_test_bit frame_clear_def nth_list_update bit_and_iff bit_not_iff
        bit_exp_iff)
qed

lemma frame_set_sel [simp]:
  "length (bitmap (frame_set f a)) = length (bitmap a)" "refcounts (frame_set f a) = refcounts a"
  "frames (frame_set f a) = frames a" "managed (frame_set f a) = managed a"
  "used (frame_set f a) = used a" "hint (frame_set f a) = hint a"
  "frame_count (frame_set f a) = frame_count a"
  by (simp_all add: frame_set_def frame_count_def fun_eq_iff)

lemma frame_clear_sel [simp]:
  "length (bitmap (frame_clear f a)) = length (bitmap a)"
  "refcounts (frame_clear f a) = refcounts a" "frames (frame_clear f a) = frames a"
  "managed (frame_clear f a) = managed a" "used (frame_clear f a) = used a"
  "hint (frame_clear f a) = hint a" "frame_count (frame_clear f a) = frame_count a"
  by (simp_all add: frame_clear_def frame_count_def fun_eq_iff)

lemma frame_set_count_sel [simp]:
  "bitmap (frame_set_count f v a) = bitmap a"
  "length (refcounts (frame_set_count f v a)) = length (refcounts a)"
  "frames (frame_set_count f v a) = frames a" "managed (frame_set_count f v a) = managed a"
  "used (frame_set_count f v a) = used a" "hint (frame_set_count f v a) = hint a"
  "frame_test (frame_set_count f v a) = frame_test a"
  by (simp_all add: frame_set_count_def frame_test_def fun_eq_iff)

lemma frame_count_set_count:
  "f < length (refcounts a) \<Longrightarrow>
    frame_count (frame_set_count f v a) g = (if g = f then v else frame_count a g)"
  by (simp add: frame_set_count_def frame_count_def nth_list_update)

lemma frame_upd_sel [simp]:
  "frame_test (a\<lparr>used := n\<rparr>) = frame_test a" "frame_test (a\<lparr>hint := n\<rparr>) = frame_test a"
  "frame_test (a\<lparr>managed := n\<rparr>) = frame_test a"
  "frame_count (a\<lparr>used := n\<rparr>) = frame_count a" "frame_count (a\<lparr>hint := n\<rparr>) = frame_count a"
  "frame_count (a\<lparr>managed := n\<rparr>) = frame_count a"
  by (simp_all add: frame_test_def frame_count_def fun_eq_iff)

lemma finite_held [simp]: "finite (held_set a)"
  by (rule finite_subset [of _ "{..<frames a}"]) (auto simp: held_set_def)

lemma held_set_le: "card (held_set a) \<le> frames a"
  using card_mono [of "{..<frames a}" "held_set a"] by (auto simp: held_set_def)

lemma trailing_zeros_props:
  assumes "w \<noteq> 0"
  shows "trailing_zeros w < 64" and "bit w (trailing_zeros w)"
    and "i < trailing_zeros w \<Longrightarrow> \<not> bit w i"
proof -
  let ?p = "\<lambda>i. \<not> bit w i"
  obtain k where k: "k < 64" "bit w k"
    using assms bit_word_eqI [of w 0] by auto
  have "length (takeWhile ?p [0..<64]) \<noteq> length [0..<64]"
  proof
    assume "length (takeWhile ?p [0..<64]) = length [0..<64]"
    then have "takeWhile ?p [0..<64] = [0..<64]"
      by (metis take_all_iff takeWhile_eq_take order_refl)
    then have "\<forall>i \<in> set [0..<64]. ?p i" by (simp add: takeWhile_eq_all_conv)
    with k show False by auto
  qed
  then have lt: "length (takeWhile ?p [0..<64]) < length [0..<64]"
    using length_takeWhile_le [of ?p "[0..<64]"] by linarith
  then show "trailing_zeros w < 64" by (simp add: trailing_zeros_def)
  show "bit w (trailing_zeros w)"
    using nth_length_takeWhile [OF lt] lt by (simp add: trailing_zeros_def)
  show "i < trailing_zeros w \<Longrightarrow> \<not> bit w i"
  proof -
    assume i: "i < trailing_zeros w"
    then have "takeWhile ?p [0..<64] ! i = i"
      using lt by (simp add: trailing_zeros_def takeWhile_nth)
    moreover have "takeWhile ?p [0..<64] ! i \<in> set (takeWhile ?p [0..<64])"
      using i by (simp add: trailing_zeros_def)
    ultimately show ?thesis using set_takeWhileD by metis
  qed
qed

section \<open>One frame taken, one frame released\<close>

lemma held_set_frame_set:
  assumes "f < frames a" "frames a \<le> 64 * length (bitmap a)"
  shows "held_set (frame_set f a) = insert f (held_set a)"
  using assms frame_test_set [of f a] by (auto simp: held_set_def)

lemma held_set_frame_clear:
  assumes "f < frames a" "frames a \<le> 64 * length (bitmap a)"
  shows "held_set (frame_clear f a) = held_set a - {f}"
  using assms frame_test_clear [of f a] by (auto simp: held_set_def)

lemma held_set_upd [simp]:
  "held_set (a\<lparr>used := n\<rparr>) = held_set a" "held_set (a\<lparr>hint := n\<rparr>) = held_set a"
  "held_set (a\<lparr>managed := n\<rparr>) = held_set a"
  "held_set (frame_set_count f v a) = held_set a"
  by (simp_all add: held_set_def)

lemma frame_wf_lenD:
  assumes "frame_wf a" "f < frames a"
  shows "f < 64 * length (bitmap a)" and "f < length (refcounts a)"
  using assms by (auto simp: frame_wf_def)

lemma alloc_take_spec:
  assumes wf: "frame_wf a" and f: "f < frames a" "\<not> frame_test a f"
  shows "frame_wf (alloc_take f a)"
    and "held_set (alloc_take f a) = insert f (held_set a)"
    and "frame_test (alloc_take f a) g \<longleftrightarrow> g = f \<or> frame_test a g"
    and "frame_count (alloc_take f a) g = (if g = f then 1 else frame_count a g)"
    and "frames (alloc_take f a) = frames a"
    and "managed (alloc_take f a) = managed a"
proof -
  note len = frame_wf_lenD [OF wf f(1)]
  have le: "frames a \<le> 64 * length (bitmap a)" using wf by (simp add: frame_wf_def)
  show held: "held_set (alloc_take f a) = insert f (held_set a)"
    using held_set_frame_set [OF f(1) le] by (simp add: alloc_take_def)
  show test: "frame_test (alloc_take f a) g \<longleftrightarrow> g = f \<or> frame_test a g" for g
    using frame_test_set [OF len(1)] by (simp add: alloc_take_def)
  show cnt: "frame_count (alloc_take f a) g = (if g = f then 1 else frame_count a g)" for g
    using len(2) by (simp add: alloc_take_def frame_count_set_count)
  show sel: "frames (alloc_take f a) = frames a" "managed (alloc_take f a) = managed a"
    by (simp_all add: alloc_take_def)
  have "f \<notin> held_set a" using f by (simp add: held_set_def)
  then have "used (alloc_take f a) = card (held_set (alloc_take f a))"
    using wf held by (simp add: alloc_take_def frame_wf_def)
  then show "frame_wf (alloc_take f a)"
    using wf f test cnt sel
    by (simp add: frame_wf_def) (simp add: alloc_take_def U16_MAX_def)
qed

lemma frame_free_spec:
  assumes wf: "frame_wf a" and f: "f = p div PAGE_SIZE" "f < frames a" "frame_test a f"
  shows "frame_wf (frame_free p a)"
    and "frame_test (frame_free p a) g \<longleftrightarrow> (if g = f then 1 < frame_count a f else frame_test a g)"
    and "frame_count (frame_free p a) g = (if g = f then frame_count a f - 1 else frame_count a g)"
    and "frames (frame_free p a) = frames a"
    and "managed (frame_free p a) = managed a"
proof -
  note len = frame_wf_lenD [OF wf f(2)]
  have le: "frames a \<le> 64 * length (bitmap a)" using wf by (simp add: frame_wf_def)
  let ?a1 = "frame_set_count f (frame_count a f - 1) a"
  have sel1: "frames ?a1 = frames a" "length (bitmap ?a1) = length (bitmap a)" by simp_all
  let ?a2 = "frame_clear f (?a1\<lparr>used := used ?a1 - 1\<rparr>)"
  let ?r = "frame_free p a"
  have eq: "?r = (if frame_count a f - 1 > 0 then ?a1
      else if f < hint ?a2 then ?a2\<lparr>hint := f\<rparr> else ?a2)"
    using f by (simp add: frame_free_def Let_def del: frame_clear_sel frame_set_count_sel)
  show test: "frame_test ?r g \<longleftrightarrow> (if g = f then 1 < frame_count a f else frame_test a g)" for g
    using len(1) f(3) unfolding eq by (simp add: frame_test_clear)
  show cnt: "frame_count ?r g = (if g = f then frame_count a f - 1 else frame_count a g)" for g
    using len(2) unfolding eq by (simp add: frame_count_set_count)
  show frm: "frames ?r = frames a" and "managed ?r = managed a"
    unfolding eq by simp_all
  have held: "held_set ?r = (if 1 < frame_count a f then held_set a else held_set a - {f})"
    using test frm f by (auto simp: held_set_def)
  have "f \<in> held_set a" using f by (simp add: held_set_def)
  then have usd: "used ?r = card (held_set ?r)"
    using wf unfolding held by (auto simp: eq frame_wf_def)
  have "length (bitmap ?r) = length (bitmap a)" "length (refcounts ?r) = length (refcounts a)"
    and "hint ?r \<le> hint a"
    unfolding eq by simp_all
  then show "frame_wf ?r"
    using wf f usd frm unfolding frame_wf_def by (auto simp: test cnt)
qed

lemma frame_free_other:
  assumes "\<not> (p div PAGE_SIZE < frames a \<and> frame_test a (p div PAGE_SIZE))"
  shows "frame_free p a = a"
  using assms by (auto simp: frame_free_def Let_def)

lemma frame_share_spec:
  assumes wf: "frame_wf a" and f: "f = p div PAGE_SIZE" "f < frames a" "frame_test a f"
  shows "frame_wf (frame_share p a)"
    and "frame_test (frame_share p a) = frame_test a"
    and "frame_count (frame_share p a) g =
      (if g = f then min U16_MAX (frame_count a f + 1) else frame_count a g)"
    and "frames (frame_share p a) = frames a"
    and "managed (frame_share p a) = managed a"
proof -
  note len = frame_wf_lenD [OF wf f(2)]
  have eq: "frame_share p a = frame_set_count f (min U16_MAX (frame_count a f + 1)) a"
    using f by (simp add: frame_share_def saturating_add_def Let_def)
  show test: "frame_test (frame_share p a) = frame_test a" by (simp add: eq)
  show cnt: "frame_count (frame_share p a) g =
      (if g = f then min U16_MAX (frame_count a f + 1) else frame_count a g)" for g
    using len(2) by (simp add: eq frame_count_set_count)
  show frm: "frames (frame_share p a) = frames a" "managed (frame_share p a) = managed a"
    by (simp_all add: eq)
  show "frame_wf (frame_share p a)"
    using wf f test cnt frm unfolding frame_wf_def by (auto simp: eq)
qed

lemma frame_share_other:
  assumes "\<not> (p div PAGE_SIZE < frames a \<and> frame_test a (p div PAGE_SIZE))"
  shows "frame_share p a = a"
  using assms by (auto simp: frame_share_def Let_def)

section \<open>The two searches\<close>

lemma NOT_neq_0: "w \<noteq> - 1 \<Longrightarrow> NOT w \<noteq> (0 :: u64)"
  by (metis bit.compl_zero bit.double_compl)

lemma alloc_scan_word:
  assumes "bitmap a ! w \<noteq> - 1" and "frame = w * 64 + trailing_zeros (NOT (bitmap a ! w))"
  shows "\<not> frame_test a frame" and "frame div 64 = w"
    and "f div 64 = w \<Longrightarrow> \<not> frame_test a f \<Longrightarrow> frame \<le> f"
proof -
  note tz = trailing_zeros_props [OF NOT_neq_0 [OF assms(1)]]
  have dm: "frame div 64 = w" "frame mod 64 = trailing_zeros (NOT (bitmap a ! w))"
    using assms(2) tz(1) by simp_all
  then show "frame div 64 = w" by simp
  show "\<not> frame_test a frame"
    using tz(2) dm by (simp add: frame_test_bit bit_not_iff)
  show "f div 64 = w \<Longrightarrow> \<not> frame_test a f \<Longrightarrow> frame \<le> f"
  proof (rule ccontr)
    assume f: "f div 64 = w" "\<not> frame_test a f" and "\<not> frame \<le> f"
    then have "f mod 64 < trailing_zeros (NOT (bitmap a ! w))"
      using assms(2) div_mult_mod_eq [of f 64] by auto
    from tz(3) [OF this] f show False
      by (simp add: frame_test_bit bit_not_iff)
  qed
qed

lemma alloc_scan_Some:
  "alloc_scan a ws = Some f \<Longrightarrow> f < frames a \<and> \<not> frame_test a f \<and> f div 64 \<in> set ws"
proof (induction ws)
  case Nil
  then show ?case by simp
next
  case (Cons w ws)
  then show ?case
    using alloc_scan_word(2) [of a w] by (auto simp: Let_def split: if_splits)
qed

lemma alloc_scan_None:
  assumes "alloc_scan a ws = None" and "f div 64 \<in> set ws" and "f < frames a"
  shows "frame_test a f"
  using assms(1,2)
proof (induction ws)
  case Nil
  then show ?case by simp
next
  case (Cons w ws)
  show ?case
  proof (cases "f div 64 = w")
    case False
    with Cons show ?thesis by (auto simp: Let_def split: if_splits)
  next
    case True
    show ?thesis
    proof (rule ccontr)
      assume nt: "\<not> frame_test a f"
      then have ne: "bitmap a ! w \<noteq> - 1"
        using True by (auto simp: frame_test_bit bit_simps)
      from alloc_scan_word [OF ne refl] True nt assms(3)
      have "w * 64 + trailing_zeros (NOT (bitmap a ! w)) < frames a"
        and "\<not> frame_test a (w * 64 + trailing_zeros (NOT (bitmap a ! w)))"
        by (auto intro: le_less_trans)
      with ne Cons.prems(1) show False by (simp add: Let_def)
    qed
  qed
qed

lemma alloc_passes_complete:
  assumes "alloc_pass (hint a) (frames a) a = None" and "alloc_pass 0 (hint a) a = None"
    and "f < frames a"
  shows "frame_test a f"
proof (cases "hint a div 64 \<le> f div 64")
  case True
  have "f div 64 < (frames a + 63) div 64" using assms(3) by linarith
  with True assms show ?thesis
    by (intro alloc_scan_None [of a "[hint a div 64..<(frames a + 63) div 64]"])
      (simp_all add: alloc_pass_def)
next
  case False
  then have "f div 64 < (hint a + 63) div 64" by linarith
  with assms show ?thesis
    by (intro alloc_scan_None [of a "[0 div 64..<(hint a + 63) div 64]"])
      (simp_all add: alloc_pass_def)
qed

lemma frame_alloc_cases:
  assumes "frame_wf a"
  obtains (Full) "frame_alloc a = (None, a)" "\<forall>f < frames a. frame_test a f"
  | (Got) f where "frame_alloc a = (Some (f * PAGE_SIZE), alloc_take f a)"
      "f < frames a" "\<not> frame_test a f"
proof (cases "used a \<ge> frames a")
  case True
  then have "card (held_set a) = frames a"
    using assms held_set_le [of a] by (simp add: frame_wf_def)
  moreover have "held_set a \<subseteq> {..<frames a}" by (auto simp: held_set_def)
  ultimately have "held_set a = {..<frames a}"
    by (intro card_subset_eq) simp_all
  then have "\<forall>f < frames a. frame_test a f" by (auto simp: held_set_def)
  with True Full show ?thesis by (simp add: frame_alloc_def)
next
  case False
  show ?thesis
  proof (cases "alloc_pass (hint a) (frames a) a")
    case (Some f)
    with False Got [of f] alloc_scan_Some show ?thesis
      by (auto simp: frame_alloc_def alloc_pass_def)
  next
    case None
    show ?thesis
    proof (cases "alloc_pass 0 (hint a) a")
      case (Some f)
      with False None Got [of f] alloc_scan_Some show ?thesis
        by (auto simp: frame_alloc_def alloc_pass_def)
    next
      case N: None
      with False None Full alloc_passes_complete [OF None N] show ?thesis
        by (auto simp: frame_alloc_def)
    qed
  qed
qed

lemma contiguous_fold:
  assumes "set xs \<subseteq> {..<frames a}" "frames a \<le> 64 * length (bitmap a)"
    "frames a \<le> length (refcounts a)"
  shows "frame_test (fold contiguous_step xs a) g \<longleftrightarrow> g \<in> set xs \<or> frame_test a g"
    and "frame_count (fold contiguous_step xs a) g = (if g \<in> set xs then 1 else frame_count a g)"
    and "frames (fold contiguous_step xs a) = frames a"
    and "used (fold contiguous_step xs a) = used a"
    and "hint (fold contiguous_step xs a) = hint a"
    and "managed (fold contiguous_step xs a) = managed a"
    and "length (bitmap (fold contiguous_step xs a)) = length (bitmap a)"
    and "length (refcounts (fold contiguous_step xs a)) = length (refcounts a)"
proof -
  have "(\<forall>g. frame_test (fold contiguous_step xs a) g \<longleftrightarrow> g \<in> set xs \<or> frame_test a g)
    \<and> (\<forall>g. frame_count (fold contiguous_step xs a) g = (if g \<in> set xs then 1 else frame_count a g))
    \<and> frames (fold contiguous_step xs a) = frames a \<and> used (fold contiguous_step xs a) = used a
    \<and> hint (fold contiguous_step xs a) = hint a \<and> managed (fold contiguous_step xs a) = managed a
    \<and> length (bitmap (fold contiguous_step xs a)) = length (bitmap a)
    \<and> length (refcounts (fold contiguous_step xs a)) = length (refcounts a)"
    using assms
  proof (induction xs arbitrary: a)
    case Nil
    then show ?case by simp
  next
    case (Cons x xs)
    let ?b = "contiguous_step x a"
    have x: "x < 64 * length (bitmap a)" "x < length (refcounts a)"
      using Cons.prems by auto
    have sel: "frames ?b = frames a" "used ?b = used a" "hint ?b = hint a" "managed ?b = managed a"
      "length (bitmap ?b) = length (bitmap a)" "length (refcounts ?b) = length (refcounts a)"
      by (simp_all add: contiguous_step_def)
    have t: "frame_test ?b g \<longleftrightarrow> g = x \<or> frame_test a g" for g
      using x by (simp add: contiguous_step_def frame_test_set)
    have c: "frame_count ?b g = (if g = x then 1 else frame_count a g)" for g
      using x by (simp add: contiguous_step_def frame_count_set_count)
    from Cons.IH [of ?b] Cons.prems show ?case
      by (simp add: sel t c) blast
  qed
  then show "frame_test (fold contiguous_step xs a) g \<longleftrightarrow> g \<in> set xs \<or> frame_test a g"
    and "frame_count (fold contiguous_step xs a) g = (if g \<in> set xs then 1 else frame_count a g)"
    and "frames (fold contiguous_step xs a) = frames a"
    and "used (fold contiguous_step xs a) = used a"
    and "hint (fold contiguous_step xs a) = hint a"
    and "managed (fold contiguous_step xs a) = managed a"
    and "length (bitmap (fold contiguous_step xs a)) = length (bitmap a)"
    and "length (refcounts (fold contiguous_step xs a)) = length (refcounts a)"
    by auto
qed

text \<open>A window of \<open>want\<close> frames from \<open>s\<close> is blocked when one of them is held.\<close>

definition window_blocked :: "bitmap_allocator \<Rightarrow> nat \<Rightarrow> nat \<Rightarrow> bool" where
  "window_blocked a want s \<longleftrightarrow> (\<exists>x \<in> {s..<s + want}. frame_test a x)"

lemma contiguous_scan_correct:
  assumes "run < want" "run \<le> f" "f \<le> n"
    and "\<forall>x \<in> {f - run..<f}. \<not> frame_test a x"
    and "run = f \<or> frame_test a (f - run - 1)"
    and "\<forall>s. s + want \<le> f \<longrightarrow> window_blocked a want s"
  shows "case contiguous_scan a want run [f..<n] of
      Some g \<Rightarrow> g < n \<and> want \<le> g + 1 \<and> \<not> window_blocked a want (g + 1 - want)
        \<and> (\<forall>s. s + want \<le> g \<longrightarrow> window_blocked a want s)
    | None \<Rightarrow> \<forall>s. s + want \<le> n \<longrightarrow> window_blocked a want s"
  using assms
proof (induction "n - f" arbitrary: f run)
  case 0
  then show ?case by simp
next
  case (Suc k)
  then have fn: "f < n" and k: "k = n - Suc f" by simp_all
  then have upt: "[f..<n] = f # [Suc f..<n]" by (simp add: upt_conv_Cons)
  show ?case
  proof (cases "frame_test a f")
    case True
    have "window_blocked a want s" if "s + want \<le> Suc f" for s
    proof (cases "s + want \<le> f")
      case False
      with that Suc.prems(1) have "f \<in> {s..<s + want}" by auto
      with True show ?thesis by (auto simp: window_blocked_def)
    qed (use Suc.prems in blast)
    with Suc.hyps(1) [OF k, of 0] Suc.prems fn True show ?thesis
      by (simp add: upt)
  next
    case free: False
    show ?thesis
    proof (cases "run + 1 = want")
      case True
      have "\<not> window_blocked a want (f + 1 - want)"
        using Suc.prems free True
        by (auto simp: window_blocked_def less_Suc_eq)
      with True free fn Suc.prems show ?thesis by (simp add: upt)
    next
      case False
      have "window_blocked a want s" if "s + want \<le> Suc f" for s
      proof (cases "s + want \<le> f")
        case nle: False
        with that have s: "s = Suc f - want" "want \<le> Suc f" by auto
        with Suc.prems(1,2,5) False have "frame_test a (f - run - 1)" "run < f" by auto
        moreover have "f - run - 1 \<in> {s..<s + want}"
          using s Suc.prems(1) False \<open>run < f\<close> by auto
        ultimately show ?thesis by (auto simp: window_blocked_def)
      qed (use Suc.prems in blast)
      moreover have "\<forall>x \<in> {Suc f - (run + 1)..<Suc f}. \<not> frame_test a x"
        using Suc.prems(4) free by (auto simp: less_Suc_eq)
      ultimately show ?thesis
        using Suc.hyps(1) [OF k, of "run + 1"] Suc.prems fn free False by (simp add: upt)
    qed
  qed
qed

lemma frame_alloc_contiguous_cases:
  assumes wf: "frame_wf a" and want: "1 < want"
  obtains (Full) "frame_alloc_contiguous want a = (None, a)"
      "\<forall>s. s + want \<le> frames a \<longrightarrow> window_blocked a want s"
  | (Got) first where "fst (frame_alloc_contiguous want a) = Some (first * PAGE_SIZE)"
      "first + want \<le> frames a" "\<not> window_blocked a want first"
      "\<forall>s < first. window_blocked a want s"
      "snd (frame_alloc_contiguous want a) =
        (fold contiguous_step [first..<first + want] a)\<lparr>used := used a + want\<rparr>"
proof (cases "contiguous_scan a want 0 [0..<frames a]")
  case None
  with want contiguous_scan_correct [of 0 want 0 "frames a" a] Full show ?thesis
    by (simp add: frame_alloc_contiguous_def)
next
  case (Some g)
  with want contiguous_scan_correct [of 0 want 0 "frames a" a]
  have g: "g < frames a" "want \<le> g + 1" "\<not> window_blocked a want (g + 1 - want)"
    "\<forall>s. s + want \<le> g \<longrightarrow> window_blocked a want s" by simp_all
  let ?first = "g + 1 - want"
  have eq: "[?first..<Suc g] = [?first..<?first + want]" using g(2) by simp
  have "frames a \<le> 64 * length (bitmap a)" "frames a \<le> length (refcounts a)"
    using wf by (simp_all add: frame_wf_def)
  then have usd: "used (fold contiguous_step [?first..<?first + want] a) = used a"
    using g by (intro contiguous_fold(4)) auto
  from Some want eq usd
  have "frame_alloc_contiguous want a = (Some (?first * PAGE_SIZE),
      (fold contiguous_step [?first..<?first + want] a)\<lparr>used := used a + want\<rparr>)"
    by (simp add: frame_alloc_contiguous_def Let_def)
  moreover have "\<forall>s < ?first. window_blocked a want s"
    using g(2,4) by auto
  ultimately show ?thesis using g Got [of ?first] by auto
qed

lemma contiguous_take_spec:
  assumes wf: "frame_wf a" and fits: "first + want \<le> frames a"
    and free: "\<not> window_blocked a want first"
  defines "r \<equiv> (fold contiguous_step [first..<first + want] a)\<lparr>used := used a + want\<rparr>"
  shows "frame_wf r"
    and "frame_test r g \<longleftrightarrow> g \<in> {first..<first + want} \<or> frame_test a g"
    and "frame_count r g = (if g \<in> {first..<first + want} then 1 else frame_count a g)"
    and "frames r = frames a"
    and "managed r = managed a"
proof -
  have sub: "set [first..<first + want] \<subseteq> {..<frames a}"
    and len: "frames a \<le> 64 * length (bitmap a)" "frames a \<le> length (refcounts a)"
    using wf fits by (auto simp: frame_wf_def)
  note cf = contiguous_fold [OF sub len]
  show test: "frame_test r g \<longleftrightarrow> g \<in> {first..<first + want} \<or> frame_test a g" for g
    by (simp add: r_def cf)
  show cnt: "frame_count r g = (if g \<in> {first..<first + want} then 1 else frame_count a g)" for g
    by (simp add: r_def cf)
  show frm: "frames r = frames a" "managed r = managed a" by (simp_all add: r_def cf)
  have "held_set r = held_set a \<union> {first..<first + want}"
    using fits by (auto simp: held_set_def test frm)
  moreover have "held_set a \<inter> {first..<first + want} = {}"
    using free by (auto simp: held_set_def window_blocked_def)
  ultimately have "card (held_set r) = card (held_set a) + want"
    by (simp add: card_Un_disjoint)
  moreover have "length (bitmap r) = length (bitmap a)" "length (refcounts r) = length (refcounts a)"
    "hint r = hint a" "used r = used a + want"
    by (simp_all add: r_def cf)
  ultimately show "frame_wf r"
    using wf unfolding frame_wf_def by (auto simp: test cnt frm U16_MAX_def)
qed

end
