(* ===== verification/Frame_Pool.thy ===== *)
theory Frame_Pool
  imports Frame
begin





section \<open>The bitmap allocator is such a pool\<close>

definition held_refs :: "bitmap_allocator \<Rightarrow> nat \<Rightarrow> nat" where
  "held_refs a p =
     (if p mod PAGE_SIZE = 0 \<and> p div PAGE_SIZE < frames a \<and> frame_test a (p div PAGE_SIZE)
      then frame_count a (p div PAGE_SIZE) else 0)"

lemma PAGE_SIZE_pos [simp]: "0 < PAGE_SIZE" "PAGE_SIZE \<noteq> 0"
  by (simp_all add: PAGE_SIZE_def)

lemma page_eq_iff: "p mod PAGE_SIZE = 0 \<Longrightarrow> p = f * PAGE_SIZE \<longleftrightarrow> p div PAGE_SIZE = f"
  by (auto simp: mult.commute)

lemma held_refs_pos:
  assumes "0 < held_refs a p"
  obtains f where "f = p div PAGE_SIZE" "f < frames a" "frame_test a f" "p mod PAGE_SIZE = 0"
    "held_refs a p = frame_count a f"
  using assms that by (auto simp: held_refs_def split: if_splits)



lemma frame_free_refs:
  assumes "frame_wf a" "0 < held_refs a p"
  shows "held_refs (frame_free p a) = (held_refs a)(p := held_refs a p - 1)"
proof
  fix q
  obtain f where f: "f = p div PAGE_SIZE" "f < frames a" "frame_test a f" "p mod PAGE_SIZE = 0"
    "held_refs a p = frame_count a f" using held_refs_pos [OF assms(2)] .
  note spec = frame_free_spec [OF assms(1) f(1,2,3)]
  have "q mod PAGE_SIZE = 0 \<Longrightarrow> q div PAGE_SIZE = f \<longleftrightarrow> q = p"
    using f page_eq_iff [of q f] page_eq_iff [of p f] by auto
  then show "held_refs (frame_free p a) q = ((held_refs a)(p := held_refs a p - 1)) q"
    using f by (auto simp: held_refs_def spec)
qed


section \<open>Properties\<close>

text \<open>
  C20 (allocator invariant): the bitmap and the counts agree with the totals in every operation:
  \<open>used\<close> is the number of set bits, a free frame has no references, every count fits in 16 bits
  and the search hint stays inside the table.
\<close>

theorem frame_ops_keep_invariant:
  assumes "frame_wf a"
  shows "frame_wf (snd (frame_alloc a)) \<and> frame_wf (snd (frame_alloc_contiguous n a))
    \<and> frame_wf (frame_free p a) \<and> frame_wf (frame_share p a)"
proof -
  have one: "frame_wf (snd (frame_alloc a))"
    using assms by (cases rule: frame_alloc_cases) (auto simp: assms alloc_take_spec)
  have "frame_wf (snd (frame_alloc_contiguous n a))"
  proof (cases "1 < n")
    case True
    with assms show ?thesis
      by (cases rule: frame_alloc_contiguous_cases) (auto simp: assms contiguous_take_spec)
  next
    case False
    with one assms show ?thesis by (auto simp: frame_alloc_contiguous_def)
  qed
  moreover have "frame_wf (frame_free p a)"
    using frame_free_spec(1) [OF assms refl] frame_free_other [of p a] assms by metis
  moreover have "frame_wf (frame_share p a)"
    using frame_share_spec(1) [OF assms refl] frame_share_other [of p a] assms by metis
  ultimately show ?thesis using one by blast
qed

text \<open>A table of three frames: the first is free, the second held once, the third twice.\<close>

definition example_alloc :: bitmap_allocator where
  "example_alloc =
     \<lparr>bitmap = [NOT 1], words = 1, refcounts = [0, 1, 2], frames = 3, managed = 3, used = 2,
      hint = 3, bitmap_phys = 0, bitmap_bytes = 8192\<rparr>"

lemma example_alloc_test:
  assumes "f < 3"
  shows "frame_test example_alloc f \<longleftrightarrow> f \<noteq> 0"
proof -
  consider "f = 0" | "f = 1" | "f = 2" using assms by linarith
  then show ?thesis
    by cases (simp_all add: frame_test_def example_alloc_def)
qed

lemma example_alloc_wf: "frame_wf example_alloc"
proof -
  note test = example_alloc_test
  then have "held_set example_alloc = {1, 2}"
    by (auto simp: held_set_def example_alloc_def)
  with test show ?thesis
    by (auto simp: frame_wf_def frame_count_def example_alloc_def U16_MAX_def less_Suc_eq numeral_3_eq_3)
qed

theorem frame_ops_keep_invariant_witness:
  "frame_wf example_alloc \<and> frame_wf (snd (frame_alloc example_alloc))"
  using frame_ops_keep_invariant [OF example_alloc_wf] example_alloc_wf by blast

text \<open>
  \<open>alloc\<close>: it hands out a page-aligned frame that was free and takes exactly that frame with
  one reference; it fails only when every frame of the table is held, whatever the hint was.
\<close>

theorem frame_alloc_spec:
  assumes "frame_wf a"
  shows "case frame_alloc a of
      (None, a') \<Rightarrow> a' = a \<and> (\<forall>f < frames a. frame_test a f)
    | (Some p, a') \<Rightarrow> \<exists>f < frames a. p = f * PAGE_SIZE \<and> \<not> frame_test a f
        \<and> (\<forall>g. frame_test a' g \<longleftrightarrow> g = f \<or> frame_test a g)
        \<and> (\<forall>g. frame_count a' g = (if g = f then 1 else frame_count a g))
        \<and> free_frames a' + 1 = free_frames a"
  using assms
proof (cases rule: frame_alloc_cases)
  case Full
  then show ?thesis by simp
next
  case (Got f)
  note spec = alloc_take_spec [OF assms Got(2,3)]
  have "card (held_set a) < frames a"
  proof -
    have "held_set a \<subseteq> {..<frames a} - {f}" using Got by (auto simp: held_set_def)
    from card_mono [OF _ this] Got(2) show ?thesis by simp
  qed
  then have "free_frames (alloc_take f a) + 1 = free_frames a"
    using assms by (simp add: free_frames_def alloc_take_def frame_wf_def)
  with Got spec show ?thesis by auto
qed

theorem frame_alloc_spec_witness:
  "frame_wf example_alloc \<and> fst (frame_alloc example_alloc) = Some 0"
proof -
  note test = example_alloc_test
  have three: "frames example_alloc = 3" by (simp add: example_alloc_def)
  from frame_alloc_spec [OF example_alloc_wf] test three
  have "fst (frame_alloc example_alloc) = Some 0"
    by (auto split: prod.splits option.splits simp: less_Suc_eq numeral_3_eq_3)
  with example_alloc_wf show ?thesis by simp
qed

text \<open>
  \<open>alloc_contiguous\<close>: for two frames or more it is first fit over the whole table.  The run
  it hands out was free, lies in the table, is the lowest such run, and is taken with one
  reference each; when it fails, every run of that length has a held frame in it.
\<close>

theorem frame_alloc_contiguous_spec:
  assumes "frame_wf a" and "1 < n"
  shows "case frame_alloc_contiguous n a of
      (None, a') \<Rightarrow> a' = a \<and> (\<forall>s. s + n \<le> frames a \<longrightarrow> (\<exists>x \<in> {s..<s + n}. frame_test a x))
    | (Some p, a') \<Rightarrow> \<exists>s. p = s * PAGE_SIZE \<and> s + n \<le> frames a
        \<and> (\<forall>x \<in> {s..<s + n}. \<not> frame_test a x)
        \<and> (\<forall>t < s. \<exists>x \<in> {t..<t + n}. frame_test a x)
        \<and> (\<forall>g. frame_test a' g \<longleftrightarrow> g \<in> {s..<s + n} \<or> frame_test a g)
        \<and> (\<forall>g. frame_count a' g = (if g \<in> {s..<s + n} then 1 else frame_count a g))"
  using assms
proof (cases rule: frame_alloc_contiguous_cases)
  case Full
  then show ?thesis by (simp add: window_blocked_def)
next
  case (Got s)
  obtain p a' where pa: "frame_alloc_contiguous n a = (Some p, a')" "p = s * PAGE_SIZE"
    using Got(1) by (cases "frame_alloc_contiguous n a") auto
  with Got(5) have a': "a' = (fold contiguous_step [s..<s + n] a)\<lparr>used := used a + n\<rparr>" by simp
  note spec = contiguous_take_spec [OF assms(1) Got(2,3), folded a']
  have "(\<forall>x \<in> {s..<s + n}. \<not> frame_test a x)" "(\<forall>t < s. \<exists>x \<in> {t..<t + n}. frame_test a x)"
    using Got(3,4) by (auto simp: window_blocked_def)
  with pa Got(2) spec show ?thesis by auto
qed

theorem frame_alloc_contiguous_spec_witness:
  "frame_wf example_alloc \<and> fst (frame_alloc_contiguous 2 example_alloc) = None"
proof -
  note test = example_alloc_test
  have three: "frames example_alloc = 3" by (simp add: example_alloc_def)
  have "fst (frame_alloc_contiguous 2 example_alloc) = None"
  proof (rule ccontr)
    assume "fst (frame_alloc_contiguous 2 example_alloc) \<noteq> None"
    then obtain s where "s + 2 \<le> 3" "\<forall>x \<in> {s..<s + 2}. \<not> frame_test example_alloc x"
      using frame_alloc_contiguous_spec [OF example_alloc_wf, of 2] three
      by (auto split: prod.splits option.splits)
    with test [of "s + 1"] show False by simp
  qed
  with example_alloc_wf show ?thesis by simp
qed



text \<open>
  C23 (saturated counts): the bound of C4 is needed.  Sharing a frame whose count is already at
  the 16-bit limit leaves the count where it is, so the share and the drop that answers it take
  one reference away from the other holders.
\<close>

theorem frame_share_saturation_loses_reference:
  assumes "frame_wf a" and "held_refs a p = U16_MAX"
  shows "held_refs (frame_share p a) p = U16_MAX
    \<and> held_refs (frame_free p (frame_share p a)) p = U16_MAX - 1"
proof -
  have pos: "0 < held_refs a p" using assms(2) by (simp add: U16_MAX_def)
  obtain f where f: "f = p div PAGE_SIZE" "f < frames a" "frame_test a f" "p mod PAGE_SIZE = 0"
    "held_refs a p = frame_count a f" using held_refs_pos [OF pos] .
  note spec = frame_share_spec [OF assms(1) f(1,2,3)]
  have shared: "held_refs (frame_share p a) p = U16_MAX"
    using f assms(2) by (simp add: held_refs_def spec)
  with frame_free_refs [OF spec(1), of p] show ?thesis
    by (simp add: U16_MAX_def)
qed

definition saturated_alloc :: bitmap_allocator where
  "saturated_alloc = frame_set_count 1 U16_MAX example_alloc"

theorem frame_share_saturation_witness:
  "frame_wf saturated_alloc \<and> held_refs saturated_alloc 4096 = U16_MAX
    \<and> held_refs (frame_free 4096 (frame_share 4096 saturated_alloc)) 4096 = U16_MAX - 1"
proof -
  note test = example_alloc_test
  have "1 < length (refcounts example_alloc)" by (simp add: example_alloc_def)
  then have wf: "frame_wf saturated_alloc"
    using example_alloc_wf test [of 1] unfolding frame_wf_def
    by (auto simp: saturated_alloc_def frame_count_set_count)
  moreover have "held_refs saturated_alloc 4096 = U16_MAX"
    using test [of 1]
    by (simp add: held_refs_def saturated_alloc_def PAGE_SIZE_def frame_set_count_def frame_count_def
        example_alloc_def frame_test_def)
  ultimately show ?thesis
    using frame_share_saturation_loses_reference [of saturated_alloc 4096] by blast
qed

end
