(* ===== verification/Frame_Build.thy ===== *)
theory Frame_Build
  imports Frame
begin

text \<open>
  The rest of \<open>kernel/src/mm/frame.rs\<close>: \<open>usable_limit\<close>, \<open>metadata_bytes\<close>, \<open>build\<close>,
  \<open>first_overlap\<close> and \<open>init\<close>.  What differs between the machines is a record, with the values
  of \<open>kernel/src/arch/x86_64/mod.rs\<close> and \<open>kernel/src/arch/aarch64/mod.rs\<close>; the end of the kernel
  image comes from the linker and is a parameter.
\<close>

record arch_memory =
  device_phys_base :: nat
  hhdm_limit :: nat
  reserved_phys :: "(nat \<times> nat) list"
  kernel_phys_start :: nat
  kernel_phys_end :: nat

definition x86_64_memory :: "nat \<Rightarrow> arch_memory" where
  "x86_64_memory kernel_end =
     \<lparr>device_phys_base = 0x100000000, hhdm_limit = 0x100000000,
      reserved_phys = [(0, 0x100000)], kernel_phys_start = 0x100000,
      kernel_phys_end = kernel_end\<rparr>"

definition aarch64_memory :: "nat \<Rightarrow> arch_memory" where
  "aarch64_memory kernel_end =
     \<lparr>device_phys_base = 0xFC000000, hhdm_limit = 0x100000000,
      reserved_phys = [(0, 0x80000)], kernel_phys_start = 0x80000,
      kernel_phys_end = kernel_end\<rparr>"


definition metadata_bytes :: "nat \<Rightarrow> nat" where
  "metadata_bytes limit =
     (let frames = limit div PAGE_SIZE
      in page_align_up ((frames + 7) div 8) + page_align_up (frames * 2))"

definition build_empty :: "nat \<Rightarrow> nat \<Rightarrow> bitmap_allocator" where
  "build_empty limit metadata_phys =
     (let frames = limit div PAGE_SIZE;
          bitmap_bytes = page_align_up ((frames + 7) div 8);
          refcount_bytes = page_align_up (frames * 2);
          metadata = bitmap_bytes + refcount_bytes;
          words = bitmap_bytes div 8
      in \<lparr>bitmap = replicate words (- 1), words = words,
          refcounts = replicate (refcount_bytes div 2) 0,
          frames = frames, managed = 0, used = frames, hint = 0,
          bitmap_phys = metadata_phys, bitmap_bytes = metadata\<rparr>)"

definition build :: "arch_memory \<Rightarrow> boot_info \<Rightarrow> nat \<Rightarrow> nat \<Rightarrow> bitmap_allocator" where
  "build m b limit metadata_phys =
     (let a0 = build_empty limit metadata_phys;
          a1 = fold (\<lambda>r a. if mr_usable r then mark_range_free (mr_addr r) (min (mr_end r) limit) a
                           else a) (bi_regions b) a0;
          a2 = fold (\<lambda>r a. if \<not> mr_usable r then mark_range_used (mr_addr r) (mr_end r) a else a)
                 (bi_regions b) a1;
          a3 = a2\<lparr>managed := frames a2 - used a2\<rparr>;
          a4 = fold (\<lambda>(start, stop). mark_range_used start stop) (reserved_phys m) a3;
          a5 = mark_range_used (kernel_phys_start m) (kernel_phys_end m) a4;
          a6 = mark_range_used metadata_phys (metadata_phys + metadata_bytes limit) a5;
          a7 = fold (\<lambda>r. mark_range_used (pr_start r) (pr_end r)) (bi_reserved b) a6
      in fold (\<lambda>x. mark_range_used (bm_start x) (bm_end x)) (bi_modules b) a7)"

text \<open>The ranges \<open>first_overlap\<close> chains together, in its order.\<close>

definition held_ranges :: "arch_memory \<Rightarrow> boot_info \<Rightarrow> (nat \<times> nat) list" where
  "held_ranges m b =
     (kernel_phys_start m, kernel_phys_end m)
     # map (\<lambda>r. (pr_start r, pr_end r)) (bi_reserved b)
     @ map (\<lambda>x. (bm_start x, bm_end x)) (bi_modules b)
     @ reserved_phys m
     @ map (\<lambda>r. (mr_addr r, mr_end r)) (filter (\<lambda>r. \<not> mr_usable r) (bi_regions b))"



lemma page_align_up_ge: "v \<le> page_align_up v"
  by (simp add: page_align_up_def align_up_bounds PAGE_SIZE_def)






section \<open>Marking ranges\<close>

lemma mark_used_step_spec:
  assumes wf: "frame_wf a" and f: "f < frames a"
  shows "frame_wf (mark_used_step f a)"
    and "frame_test (mark_used_step f a) g \<longleftrightarrow> g = f \<or> frame_test a g"
    and "frames (mark_used_step f a) = frames a"
    and "hint (mark_used_step f a) = hint a"
proof -
  note len = frame_wf_lenD [OF wf f]
  let ?r = "mark_used_step f a"
  show test: "frame_test ?r g \<longleftrightarrow> g = f \<or> frame_test a g" for g
    using len by (simp add: mark_used_step_def Let_def frame_test_set)
  show frm: "frames ?r = frames a" and hnt: "hint ?r = hint a"
    by (simp_all add: mark_used_step_def Let_def)
  have cnt: "frame_count ?r g = (if g = f then 1 else frame_count a g)" for g
    using len by (simp add: mark_used_step_def Let_def frame_count_set_count)
  have held: "held_set ?r = insert f (held_set a)"
    using f by (auto simp: held_set_def test frm)
  have "f \<in> held_set a \<longleftrightarrow> frame_test a f" using f by (simp add: held_set_def)
  then have "used ?r = card (held_set ?r)"
    using wf unfolding held
    by (auto simp: mark_used_step_def Let_def frame_wf_def insert_absorb)
  moreover have "length (bitmap ?r) = length (bitmap a)" "length (refcounts ?r) = length (refcounts a)"
    by (simp_all add: mark_used_step_def Let_def)
  ultimately show "frame_wf ?r"
    using wf frm hnt unfolding frame_wf_def by (auto simp: test cnt U16_MAX_def)
qed

lemma mark_free_step_spec:
  assumes wf: "frame_wf a" and f: "f < frames a" and zero: "\<forall>g < frames a. frame_count a g = 0"
  shows "frame_wf (mark_free_step f a)"
    and "frame_test (mark_free_step f a) g \<longleftrightarrow> g \<noteq> f \<and> frame_test a g"
    and "frames (mark_free_step f a) = frames a"
    and "hint (mark_free_step f a) = hint a"
    and "frame_count (mark_free_step f a) = frame_count a"
proof -
  note len = frame_wf_lenD [OF wf f]
  let ?r = "mark_free_step f a"
  show test: "frame_test ?r g \<longleftrightarrow> g \<noteq> f \<and> frame_test a g" for g
    using len by (simp add: mark_free_step_def Let_def frame_test_clear)
  show frm: "frames ?r = frames a" and hnt: "hint ?r = hint a" and cnt: "frame_count ?r = frame_count a"
    by (simp_all add: mark_free_step_def Let_def)
  have held: "held_set ?r = held_set a - {f}"
    by (auto simp: held_set_def test frm)
  have "f \<in> held_set a \<longleftrightarrow> frame_test a f" using f by (simp add: held_set_def)
  then have "used ?r = card (held_set ?r)"
    using wf unfolding held
    by (auto simp: mark_free_step_def Let_def frame_wf_def)
  moreover have "length (bitmap ?r) = length (bitmap a)" "length (refcounts ?r) = length (refcounts a)"
    by (simp_all add: mark_free_step_def Let_def)
  ultimately show "frame_wf ?r"
    using wf frm hnt zero unfolding frame_wf_def by (auto simp: test cnt)
qed

lemma mark_used_fold:
  assumes "frame_wf a" and "set xs \<subseteq> {..<frames a}"
  shows "frame_wf (fold mark_used_step xs a)
    \<and> (\<forall>g. frame_test (fold mark_used_step xs a) g \<longleftrightarrow> g \<in> set xs \<or> frame_test a g)
    \<and> frames (fold mark_used_step xs a) = frames a \<and> hint (fold mark_used_step xs a) = hint a"
  using assms
proof (induction xs arbitrary: a)
  case Nil
  then show ?case by simp
next
  case (Cons x xs)
  then have x: "x < frames a" by simp
  note spec = mark_used_step_spec [OF Cons.prems(1) x]
  from Cons.IH [OF spec(1)] Cons.prems(2) show ?case
    by (simp add: spec) blast
qed

lemma mark_free_fold:
  assumes "frame_wf a" and "set xs \<subseteq> {..<frames a}" and "\<forall>g < frames a. frame_count a g = 0"
  shows "frame_wf (fold mark_free_step xs a)
    \<and> (\<forall>g. frame_test (fold mark_free_step xs a) g \<longleftrightarrow> g \<notin> set xs \<and> frame_test a g)
    \<and> frames (fold mark_free_step xs a) = frames a \<and> hint (fold mark_free_step xs a) = hint a
    \<and> frame_count (fold mark_free_step xs a) = frame_count a"
  using assms
proof (induction xs arbitrary: a)
  case Nil
  then show ?case by simp
next
  case (Cons x xs)
  then have x: "x < frames a" by simp
  note spec = mark_free_step_spec [OF Cons.prems(1) x Cons.prems(3)]
  from Cons.IH [OF spec(1)] Cons.prems(2,3) show ?case
    by (simp add: spec) blast
qed

text \<open>The frames one call marks, as sets.\<close>

definition used_span :: "nat \<Rightarrow> nat \<Rightarrow> nat \<Rightarrow> nat set" where
  "used_span n start stop =
     {f. f < n \<and> min start (n * PAGE_SIZE) div PAGE_SIZE \<le> f
       \<and> f < page_align_up (min stop (n * PAGE_SIZE)) div PAGE_SIZE}"

definition free_span :: "nat \<Rightarrow> nat \<Rightarrow> nat \<Rightarrow> nat set" where
  "free_span n start stop =
     {f. f < n \<and> page_align_up (min start (n * PAGE_SIZE)) div PAGE_SIZE \<le> f
       \<and> f < min stop (n * PAGE_SIZE) div PAGE_SIZE}"

lemma mark_range_used_spec:
  assumes "frame_wf a"
  shows "frame_wf (mark_range_used start stop a)"
    and "frame_test (mark_range_used start stop a) g \<longleftrightarrow>
      g \<in> used_span (frames a) start stop \<or> frame_test a g"
    and "frames (mark_range_used start stop a) = frames a"
    and "hint (mark_range_used start stop a) = hint a"
proof -
  let ?xs = "[min start (covered a) div PAGE_SIZE..<
      min (page_align_up (min stop (covered a)) div PAGE_SIZE) (frames a)]"
  have "set ?xs \<subseteq> {..<frames a}" and xs: "set ?xs = used_span (frames a) start stop"
    by (auto simp: used_span_def covered_def)
  then show "frame_wf (mark_range_used start stop a)"
    and "frame_test (mark_range_used start stop a) g \<longleftrightarrow>
      g \<in> used_span (frames a) start stop \<or> frame_test a g"
    and "frames (mark_range_used start stop a) = frames a"
    and "hint (mark_range_used start stop a) = hint a"
    using mark_used_fold [OF assms] unfolding mark_range_used_def Let_def xs [symmetric] by blast+
qed

lemma mark_range_free_spec:
  assumes "frame_wf a" and "\<forall>g < frames a. frame_count a g = 0"
  shows "frame_wf (mark_range_free start stop a)"
    and "frame_test (mark_range_free start stop a) g \<longleftrightarrow>
      g \<notin> free_span (frames a) start stop \<and> frame_test a g"
    and "frames (mark_range_free start stop a) = frames a"
    and "hint (mark_range_free start stop a) = hint a"
    and "frame_count (mark_range_free start stop a) = frame_count a"
proof -
  let ?xs = "[page_align_up (min start (covered a)) div PAGE_SIZE..<
      min (min stop (covered a) div PAGE_SIZE) (frames a)]"
  have "set ?xs \<subseteq> {..<frames a}" and xs: "set ?xs = free_span (frames a) start stop"
    by (auto simp: free_span_def covered_def)
  then show "frame_wf (mark_range_free start stop a)"
    and "frame_test (mark_range_free start stop a) g \<longleftrightarrow>
      g \<notin> free_span (frames a) start stop \<and> frame_test a g"
    and "frames (mark_range_free start stop a) = frames a"
    and "hint (mark_range_free start stop a) = hint a"
    and "frame_count (mark_range_free start stop a) = frame_count a"
    using mark_free_fold [OF assms(1) _ assms(2)] unfolding mark_range_free_def Let_def xs [symmetric]
    by blast+
qed

text \<open>
  A list of ranges marked used one after the other: every loop of \<open>build\<close> after the first.
\<close>

lemma mark_ranges_used:
  assumes "frame_wf a"
  shows "frame_wf (fold (\<lambda>(s, e). mark_range_used s e) rs a)
    \<and> (\<forall>g. frame_test (fold (\<lambda>(s, e). mark_range_used s e) rs a) g \<longleftrightarrow>
        frame_test a g \<or> (\<exists>(s, e) \<in> set rs. g \<in> used_span (frames a) s e))
    \<and> frames (fold (\<lambda>(s, e). mark_range_used s e) rs a) = frames a
    \<and> hint (fold (\<lambda>(s, e). mark_range_used s e) rs a) = hint a"
  using assms
proof (induction rs arbitrary: a)
  case Nil
  then show ?case by simp
next
  case (Cons r rs)
  obtain s e where r: "r = (s, e)" by (cases r)
  note spec = mark_range_used_spec [OF Cons.prems, of s e]
  from Cons.IH [OF spec(1)] show ?case by (auto simp: r spec)
qed

lemma mark_regions_free:
  assumes "frame_wf a" and "\<forall>g < frames a. frame_count a g = 0"
  shows "frame_wf (fold (\<lambda>(s, e). mark_range_free s e) rs a)
    \<and> (\<forall>g. frame_test (fold (\<lambda>(s, e). mark_range_free s e) rs a) g \<longleftrightarrow>
        frame_test a g \<and> (\<forall>(s, e) \<in> set rs. g \<notin> free_span (frames a) s e))
    \<and> frames (fold (\<lambda>(s, e). mark_range_free s e) rs a) = frames a
    \<and> hint (fold (\<lambda>(s, e). mark_range_free s e) rs a) = hint a"
  using assms
proof (induction rs arbitrary: a)
  case Nil
  then show ?case by simp
next
  case (Cons r rs)
  obtain s e where r: "r = (s, e)" by (cases r)
  note spec = mark_range_free_spec [OF Cons.prems, of s e]
  from Cons.IH [OF spec(1)] Cons.prems(2) show ?case by (auto simp: r spec)
qed

lemma fold_if_map_filter:
  "fold (\<lambda>x a. if P x then g (s x) (e x) a else a) xs a
    = fold (\<lambda>(s, e). g s e) (map (\<lambda>x. (s x, e x)) (filter P xs)) a"
  by (induction xs arbitrary: a) auto

text \<open>\<open>build\<close> as three folds over lists of ranges.\<close>

definition build_usable :: "boot_info \<Rightarrow> nat \<Rightarrow> (nat \<times> nat) list" where
  "build_usable b limit =
     map (\<lambda>r. (mr_addr r, min (mr_end r) limit)) (filter mr_usable (bi_regions b))"

definition build_unusable :: "boot_info \<Rightarrow> (nat \<times> nat) list" where
  "build_unusable b =
     map (\<lambda>r. (mr_addr r, mr_end r)) (filter (\<lambda>r. \<not> mr_usable r) (bi_regions b))"

definition build_taken :: "arch_memory \<Rightarrow> boot_info \<Rightarrow> nat \<Rightarrow> nat \<Rightarrow> (nat \<times> nat) list" where
  "build_taken m b limit metadata_phys =
     reserved_phys m
     @ [(kernel_phys_start m, kernel_phys_end m),
        (metadata_phys, metadata_phys + metadata_bytes limit)]
     @ map (\<lambda>r. (pr_start r, pr_end r)) (bi_reserved b)
     @ map (\<lambda>x. (bm_start x, bm_end x)) (bi_modules b)"

lemma build_eq:
  "build m b limit p =
     (let a1 = fold (\<lambda>(s, e). mark_range_free s e) (build_usable b limit) (build_empty limit p);
          a2 = fold (\<lambda>(s, e). mark_range_used s e) (build_unusable b) a1
      in fold (\<lambda>(s, e). mark_range_used s e) (build_taken m b limit p)
           (a2\<lparr>managed := frames a2 - used a2\<rparr>))"
proof -
  have free: "fold (\<lambda>r a. if mr_usable r then mark_range_free (mr_addr r) (min (mr_end r) limit) a
        else a) (bi_regions b) a
      = fold (\<lambda>(s, e). mark_range_free s e) (build_usable b limit) a" for a
    unfolding build_usable_def by (rule fold_if_map_filter)
  have used: "fold (\<lambda>r a. if \<not> mr_usable r then mark_range_used (mr_addr r) (mr_end r) a else a)
        (bi_regions b) a
      = fold (\<lambda>(s, e). mark_range_used s e) (build_unusable b) a" for a
    unfolding build_unusable_def by (rule fold_if_map_filter)
  show ?thesis
    by (simp add: build_def Let_def free used build_taken_def fold_map comp_def)
qed

section \<open>What \<open>build\<close> leaves free\<close>

lemma build_empty_wf:
  "frame_wf (build_empty limit p)"
  "f < limit div PAGE_SIZE \<Longrightarrow> frame_test (build_empty limit p) f"
  "frames (build_empty limit p) = limit div PAGE_SIZE"
  "g < limit div PAGE_SIZE \<Longrightarrow> frame_count (build_empty limit p) g = 0"
proof -
  let ?n = "limit div PAGE_SIZE"
  let ?w = "page_align_up ((?n + 7) div 8) div 8"
  let ?c = "page_align_up (?n * 2) div 2"
  have "page_align_up ((?n + 7) div 8) = (((?n + 7) div 8 + 4096 - 1) div 4096 * 512) * 8"
    by (simp add: page_align_up_def align_up_def PAGE_SIZE_def)
  then have eight: "?w * 8 = page_align_up ((?n + 7) div 8)" by simp
  have "?n \<le> 8 * ((?n + 7) div 8)" by linarith
  also have "\<dots> \<le> 8 * (?w * 8)"
    unfolding eight by (intro mult_left_mono page_align_up_ge) simp
  finally have w: "?n \<le> 64 * ?w" by simp
  have c: "?n \<le> ?c"
    using page_align_up_ge [of "?n * 2"] by linarith
  show frm: "frames (build_empty limit p) = ?n" by (simp add: build_empty_def Let_def)
  have test: "frame_test (build_empty limit p) f" if "f < ?n" for f
  proof -
    have "f div 64 < ?w" using that w by (intro word_index_less) simp
    then show ?thesis by (simp add: frame_test_bit build_empty_def Let_def)
  qed
  show "f < ?n \<Longrightarrow> frame_test (build_empty limit p) f" by (rule test)
  have cnt: "frame_count (build_empty limit p) g = 0" if "g < ?n" for g
    using that c by (simp add: frame_count_def build_empty_def Let_def)
  show "g < ?n \<Longrightarrow> frame_count (build_empty limit p) g = 0" by (rule cnt)
  have "held_set (build_empty limit p) = {..<?n}"
    using test by (auto simp: held_set_def frm)
  then have "used (build_empty limit p) = card (held_set (build_empty limit p))"
    by (simp add: build_empty_def Let_def)
  then show "frame_wf (build_empty limit p)"
    using w c test cnt frm by (simp add: frame_wf_def) (simp add: build_empty_def Let_def)
qed

lemma build_spec:
  shows "frame_wf (build m b limit p)"
    and "frames (build m b limit p) = limit div PAGE_SIZE"
    and "f < limit div PAGE_SIZE \<Longrightarrow> frame_test (build m b limit p) f \<longleftrightarrow>
      (\<forall>(s, e) \<in> set (build_usable b limit). f \<notin> free_span (limit div PAGE_SIZE) s e)
      \<or> (\<exists>(s, e) \<in> set (build_unusable b @ build_taken m b limit p).
          f \<in> used_span (limit div PAGE_SIZE) s e)"
proof -
  let ?n = "limit div PAGE_SIZE"
  define a0 where "a0 = build_empty limit p"
  define a1 where "a1 = fold (\<lambda>(s, e). mark_range_free s e) (build_usable b limit) a0"
  define a2 where "a2 = fold (\<lambda>(s, e). mark_range_used s e) (build_unusable b) a1"
  define a3 where "a3 = a2\<lparr>managed := frames a2 - used a2\<rparr>"
  have a0: "frame_wf a0" "frames a0 = ?n" "\<forall>g < frames a0. frame_count a0 g = 0"
    "g < ?n \<Longrightarrow> frame_test a0 g" for g
    by (simp_all add: a0_def build_empty_wf)
  note a1 = mark_regions_free [OF a0(1,3), of "build_usable b limit", folded a1_def]
  note a2 = mark_ranges_used [of a1 "build_unusable b", folded a2_def]
  have a3: "frame_wf a3" "frames a3 = ?n" "frame_test a3 = frame_test a2"
    using a1 a2 a0 by (simp_all add: a3_def frame_wf_def)
  note a4 = mark_ranges_used [OF a3(1), of "build_taken m b limit p"]
  have eq: "build m b limit p = fold (\<lambda>(s, e). mark_range_used s e) (build_taken m b limit p) a3"
    by (simp add: build_eq Let_def a0_def a1_def a2_def a3_def)
  show "frame_wf (build m b limit p)" and "frames (build m b limit p) = ?n"
    using a4 a3 by (simp_all add: eq)
  show "frame_test (build m b limit p) f \<longleftrightarrow>
      (\<forall>(s, e) \<in> set (build_usable b limit). f \<notin> free_span ?n s e)
      \<or> (\<exists>(s, e) \<in> set (build_unusable b @ build_taken m b limit p). f \<in> used_span ?n s e)"
    if f: "f < ?n"
  proof -
    have t1: "frame_test a1 f \<longleftrightarrow> (\<forall>(s, e) \<in> set (build_usable b limit). f \<notin> free_span ?n s e)"
      using a1 a0(2,4) f by simp
    have t2: "frame_test a2 f \<longleftrightarrow>
        frame_test a1 f \<or> (\<exists>(s, e) \<in> set (build_unusable b). f \<in> used_span ?n s e)"
      using a1 a2 a0(2) by simp
    have "frame_test (build m b limit p) f \<longleftrightarrow>
        frame_test a2 f \<or> (\<exists>(s, e) \<in> set (build_taken m b limit p). f \<in> used_span ?n s e)"
      unfolding eq using a3 a4 by simp
    then show ?thesis unfolding t2 t1 set_append bex_Un by blast
  qed
qed

lemma free_span_inside:
  assumes "f \<in> free_span n s e"
  shows "s \<le> f * PAGE_SIZE" and "(f + 1) * PAGE_SIZE \<le> e"
proof -
  from assms have f: "f < n" "page_align_up (min s (n * PAGE_SIZE)) div PAGE_SIZE \<le> f"
    "f < min e (n * PAGE_SIZE) div PAGE_SIZE"
    by (simp_all add: free_span_def)
  have "page_align_up (min s (n * PAGE_SIZE)) = page_align_up (min s (n * PAGE_SIZE)) div PAGE_SIZE * PAGE_SIZE"
    by (simp add: page_align_up_def align_up_def PAGE_SIZE_def)
  also have "\<dots> \<le> f * PAGE_SIZE" using f(2) by simp
  finally have "min s (n * PAGE_SIZE) \<le> f * PAGE_SIZE"
    using page_align_up_ge le_trans by blast
  moreover have "f * PAGE_SIZE < n * PAGE_SIZE" using f(1) by (simp add: PAGE_SIZE_def)
  ultimately show "s \<le> f * PAGE_SIZE" by linarith
  have "(f + 1) * PAGE_SIZE \<le> min e (n * PAGE_SIZE) div PAGE_SIZE * PAGE_SIZE"
    using f(3) by (intro mult_right_mono) simp_all
  also have "\<dots> \<le> min e (n * PAGE_SIZE)" by (rule div_times_less_eq_dividend)
  also have "\<dots> \<le> e" by simp
  finally show "(f + 1) * PAGE_SIZE \<le> e" .
qed

lemma used_span_covers:
  assumes "f < n" and "f * PAGE_SIZE < e" and "s < (f + 1) * PAGE_SIZE"
  shows "f \<in> used_span n s e"
proof -
  have "min s (n * PAGE_SIZE) div PAGE_SIZE < f + 1"
    using assms(3) by (intro less_mult_imp_div_less) simp
  moreover have "f < page_align_up (min e (n * PAGE_SIZE)) div PAGE_SIZE"
  proof -
    have "f * PAGE_SIZE < min e (n * PAGE_SIZE)"
      using assms(1,2) by (simp add: PAGE_SIZE_def)
    also have "\<dots> \<le> page_align_up (min e (n * PAGE_SIZE)) div PAGE_SIZE * PAGE_SIZE"
      using page_align_up_ge [of "min e (n * PAGE_SIZE)"]
      by (simp add: page_align_up_def align_up_def PAGE_SIZE_def)
    finally show ?thesis by simp
  qed
  ultimately show ?thesis using assms(1) by (simp add: used_span_def)
qed

section \<open>Where the metadata goes\<close>



lemma page_align_up_mod [simp]: "page_align_up v mod PAGE_SIZE = 0"
  by (simp add: page_align_up_def align_up_def)






section \<open>Properties\<close>

text \<open>
  C21 (build): a frame the allocator built from a memory map can hand out lies whole inside a
  region the map calls usable and below the limit, and overlaps nothing that is held back: the
  kernel image, what the loader reserved, the modules, what the machine claims, a range the map
  calls unusable, and the allocator's own metadata.  The allocator built is well formed.
\<close>

theorem build_offers_only_free_memory:
  assumes "f < limit div PAGE_SIZE" and "\<not> frame_test (build m b limit p) f"
  shows "frame_wf (build m b limit p)
    \<and> (\<exists>r \<in> set (bi_regions b). mr_usable r \<and> mr_addr r \<le> f * PAGE_SIZE
         \<and> (f + 1) * PAGE_SIZE \<le> min (mr_end r) limit)
    \<and> (\<forall>(lo, hi) \<in> set ((p, p + metadata_bytes limit) # held_ranges m b).
         \<not> (f * PAGE_SIZE < hi \<and> lo < (f + 1) * PAGE_SIZE))"
proof (intro conjI)
  show "frame_wf (build m b limit p)" by (rule build_spec)
  from assms build_spec(3) [OF assms(1)]
  obtain s e where se: "(s, e) \<in> set (build_usable b limit)" "f \<in> free_span (limit div PAGE_SIZE) s e"
    by auto
  then show "\<exists>r \<in> set (bi_regions b). mr_usable r \<and> mr_addr r \<le> f * PAGE_SIZE
      \<and> (f + 1) * PAGE_SIZE \<le> min (mr_end r) limit"
    using free_span_inside [OF se(2)] by (auto simp: build_usable_def)
  have no_span: "\<forall>(s, e) \<in> set (build_unusable b @ build_taken m b limit p).
      f \<notin> used_span (limit div PAGE_SIZE) s e"
    using assms build_spec(3) [OF assms(1), of m b p] by auto
  have sub: "set ((p, p + metadata_bytes limit) # held_ranges m b)
      \<subseteq> set (build_unusable b @ build_taken m b limit p)"
    by (auto simp: held_ranges_def build_unusable_def build_taken_def)
  show "\<forall>(lo, hi) \<in> set ((p, p + metadata_bytes limit) # held_ranges m b).
      \<not> (f * PAGE_SIZE < hi \<and> lo < (f + 1) * PAGE_SIZE)"
  proof (intro ballI, clarify)
    fix lo hi
    assume "(lo, hi) \<in> set ((p, p + metadata_bytes limit) # held_ranges m b)"
      and "f * PAGE_SIZE < hi" "lo < (f + 1) * PAGE_SIZE"
    with no_span sub used_span_covers [OF assms(1)] show False by fast
  qed
qed

definition example_boot :: boot_info where
  "example_boot =
     reserve 0x300000 0x301000
       (add_region 0x100000 0x300000 True (add_region 0 0x9F000 True boot_new))"

lemma example_boot_eq:
  "example_boot =
     \<lparr>bi_regions = [\<lparr>mr_addr = 0, mr_len = 0x9F000, mr_usable = True\<rparr>,
                    \<lparr>mr_addr = 0x100000, mr_len = 0x300000, mr_usable = True\<rparr>],
      bi_modules = [], bi_reserved = [\<lparr>pr_start = 0x300000, pr_end = 0x301000\<rparr>],
      bi_cmdline = []\<rparr>"
  by (simp add: example_boot_def reserve_def add_region_def boot_new_def MAX_REGIONS_def
      MAX_RESERVED_def U64_MAX_def Let_def)

lemma example_metadata: "metadata_bytes 0x400000 = 0x2000"
  by (simp add: metadata_bytes_def page_align_up_def align_up_def PAGE_SIZE_def)


theorem build_offers_only_free_memory_witness:
  "\<not> frame_test (build (x86_64_memory 0x200000) example_boot 0x400000 0x200000) 0x280
    \<and> (\<exists>r \<in> set (bi_regions example_boot). mr_usable r \<and> mr_addr r \<le> 0x280 * PAGE_SIZE
         \<and> (0x280 + 1) * PAGE_SIZE \<le> min (mr_end r) 0x400000)"
proof -
  have f: "(0x280::nat) < 0x400000 div PAGE_SIZE" by (simp add: PAGE_SIZE_def)
  have nt: "\<not> frame_test (build (x86_64_memory 0x200000) example_boot 0x400000 0x200000) 0x280"
    unfolding build_spec(3) [OF f]
    by (simp add: build_usable_def build_unusable_def build_taken_def free_span_def used_span_def
        example_boot_eq x86_64_memory_def PAGE_SIZE_def page_align_up_def align_up_def
        example_metadata mr_end_def)
  from nt build_offers_only_free_memory [OF f nt] show ?thesis by blast
qed



end
