(* ===== verification/Kernel_Heap.thy ===== *)
theory Kernel_Heap
  imports Prelude
begin

text \<open>
  \<open>kernel/src/mm/heap.rs\<close>: the kernel heap, an address-ordered free list threaded through the
  free memory itself.  The model keeps the pointers: the store maps the address of a hole to its
  \<open>size\<close> and \<open>next\<close> fields, and 0 is the null pointer.  A pointer walk is a partial function,
  \<open>None\<close> being a walk that never ends; under the invariant the walks are proved to return.  The
  abstraction is the list of holes, sorted, apart and never adjacent, and the theorems say what
  each operation does to the set of free bytes.  The heap lock makes each operation one step;
  the places where \<open>LockedHeap::alloc\<close> and \<open>top_up\<close> let it go are between the operations they
  call here.  Page tables and frame counts are parameters: \<open>map_claim\<close> answers how many bytes of
  a claim got pages, \<open>spare\<close> is the free physical memory \<open>frame::stats\<close> reports.
\<close>

section \<open>Definitions\<close>

definition MIN_BLOCK :: nat where "MIN_BLOCK = 16"
definition KERNEL_HEAP_BASE :: nat where "KERNEL_HEAP_BASE = 0xFFFFC00000000000"
definition KERNEL_HEAP_MAX :: nat where "KERNEL_HEAP_MAX = 512 * 1024 * 1024"
definition KERNEL_HEAP_SIZE :: nat where "KERNEL_HEAP_SIZE = 16 * 1024 * 1024"
definition FRAME_RESERVE :: nat where "FRAME_RESERVE = 8 * 1024 * 1024"
definition HEAP_MARGIN :: nat where "HEAP_MARGIN = 4 * 1024 * 1024"
definition HEAP_CHUNK :: nat where "HEAP_CHUNK = 8 * 1024 * 1024"
definition HEAP_STEP :: nat where "HEAP_STEP = 256 * 1024"

record hole =
  h_size :: nat
  h_next :: nat

record hole_list =
  hl_store :: "nat \<Rightarrow> hole"
  hl_head :: nat
  hl_free :: nat
  hl_total :: nat
  hl_mapped :: nat
  hl_below :: bool

definition heap_new :: hole_list where
  "heap_new = \<lparr>hl_store = (\<lambda>_. \<lparr>h_size = 0, h_next = 0\<rparr>), hl_head = 0, hl_free = 0, hl_total = 0,
     hl_mapped = 0, hl_below = False\<rparr>"

definition heap_normalize :: "nat \<Rightarrow> nat \<Rightarrow> nat \<times> nat" where
  "heap_normalize sz align = (align_up (max sz MIN_BLOCK) MIN_BLOCK, max align MIN_BLOCK)"

record heap_claim =
  cl_start :: nat
  cl_bytes :: nat

definition claim :: "nat \<Rightarrow> nat \<Rightarrow> nat \<Rightarrow> hole_list \<Rightarrow> (heap_claim \<times> hole_list) option" where
  "claim spare needed least h =
     (let want = align_up (max needed least) PAGE_SIZE in
      if hl_mapped h + want > KERNEL_HEAP_MAX then None
      else if spare < want + FRAME_RESERVE then None
      else Some (\<lparr>cl_start = KERNEL_HEAP_BASE + hl_mapped h, cl_bytes = want\<rparr>,
                 h\<lparr>hl_mapped := hl_mapped h + want\<rparr>))"

text \<open>The walk of \<open>insert\<close> to the first hole at or above the block.\<close>

partial_function (option) insert_walk ::
  "(nat \<Rightarrow> hole) \<Rightarrow> nat \<Rightarrow> nat \<Rightarrow> nat \<Rightarrow> (nat \<times> nat) option" where
  "insert_walk m block prev cur =
     (if cur \<noteq> 0 \<and> cur < block then insert_walk m block cur (h_next (m cur))
      else Some (prev, cur))"

definition heap_insert :: "nat \<Rightarrow> nat \<Rightarrow> hole_list \<Rightarrow> hole_list option" where
  "heap_insert block sz h =
     (let m0 = (hl_store h)(block := \<lparr>h_size = sz, h_next = 0\<rparr>);
          h0 = h\<lparr>hl_store := m0, hl_free := hl_free h + sz\<rparr>
      in case insert_walk m0 block 0 (hl_head h) of
           None \<Rightarrow> None
         | Some (prev, cur) \<Rightarrow>
             (let m1 = m0(block := (m0 block)\<lparr>h_next := cur\<rparr>);
                  h1 = (if prev = 0 then h0\<lparr>hl_store := m1, hl_head := block\<rparr>
                        else h0\<lparr>hl_store := m1(prev := (m1 prev)\<lparr>h_next := block\<rparr>)\<rparr>);
                  m2 = hl_store h1;
                  m3 = (if cur \<noteq> 0 \<and> block + sz = cur
                        then m2(block := \<lparr>h_size = h_size (m2 block) + h_size (m2 cur),
                                         h_next = h_next (m2 cur)\<rparr>)
                        else m2);
                  m4 = (if prev \<noteq> 0 \<and> prev + h_size (m3 prev) = block
                        then m3(prev := \<lparr>h_size = h_size (m3 prev) + h_size (m3 block),
                                        h_next = h_next (m3 block)\<rparr>)
                        else m3)
              in Some (h1\<lparr>hl_store := m4\<rparr>)))"

definition heap_add_region :: "nat \<Rightarrow> nat \<Rightarrow> hole_list \<Rightarrow> hole_list option" where
  "heap_add_region start sz h =
     (if sz < MIN_BLOCK then Some h
      else heap_insert start sz (h\<lparr>hl_total := hl_total h + sz\<rparr>))"

text \<open>Any leftover must itself be a usable block, or not exist.\<close>

definition hole_fits :: "nat \<Rightarrow> nat \<Rightarrow> nat \<Rightarrow> nat \<Rightarrow> bool" where
  "hole_fits hole_addr hole_size sz align \<longleftrightarrow>
     (let front = align_up hole_addr align - hole_addr in
      hole_size \<ge> front + sz \<and> (front = 0 \<or> front \<ge> MIN_BLOCK)
      \<and> (let back = hole_size - front - sz in back = 0 \<or> back \<ge> MIN_BLOCK))"

text \<open>The walk of \<open>alloc\<close> to the first hole that fits, with the hole before it.\<close>

partial_function (option) alloc_walk ::
  "(nat \<Rightarrow> hole) \<Rightarrow> nat \<Rightarrow> nat \<Rightarrow> nat \<Rightarrow> nat \<Rightarrow> (nat \<times> nat) option option" where
  "alloc_walk m sz align prev cur =
     (if cur = 0 then Some None
      else if hole_fits cur (h_size (m cur)) sz align then Some (Some (prev, cur))
      else alloc_walk m sz align cur (h_next (m cur)))"

definition heap_insert_if :: "nat \<Rightarrow> nat \<Rightarrow> hole_list \<Rightarrow> hole_list option" where
  "heap_insert_if block sz h = (if sz > 0 then heap_insert block sz h else Some h)"

definition heap_alloc :: "nat \<Rightarrow> nat \<Rightarrow> hole_list \<Rightarrow> (nat \<times> hole_list) option" where
  "heap_alloc lsize lalign h =
     (let (sz, align) = heap_normalize lsize lalign in
      case alloc_walk (hl_store h) sz align 0 (hl_head h) of
        None \<Rightarrow> None
      | Some None \<Rightarrow> Some (0, h)
      | Some (Some (prev, cur)) \<Rightarrow>
          (let hole_size = h_size (hl_store h cur);
               alloc_start = align_up cur align;
               front = alloc_start - cur;
               back = hole_size - front - sz;
               nxt = h_next (hl_store h cur);
               h1 = (if prev = 0 then h\<lparr>hl_head := nxt\<rparr>
                     else h\<lparr>hl_store := (hl_store h)(prev := (hl_store h prev)\<lparr>h_next := nxt\<rparr>)\<rparr>);
               h2 = h1\<lparr>hl_free := hl_free h1 - hole_size\<rparr>
           in case heap_insert_if cur front h2 of
                None \<Rightarrow> None
              | Some h3 \<Rightarrow>
                  (case heap_insert_if (alloc_start + sz) back h3 of
                     None \<Rightarrow> None
                   | Some h4 \<Rightarrow> Some (alloc_start, h4))))"

definition heap_dealloc :: "nat \<Rightarrow> nat \<Rightarrow> nat \<Rightarrow> hole_list \<Rightarrow> hole_list option" where
  "heap_dealloc p lsize lalign h =
     (let (sz, _) = heap_normalize lsize lalign in heap_insert p sz h)"

definition publish_margin :: "hole_list \<Rightarrow> hole_list" where
  "publish_margin h = h\<lparr>hl_below := hl_free h < HEAP_MARGIN\<rparr>"

definition locked_alloc ::
  "nat \<Rightarrow> (heap_claim \<Rightarrow> nat) \<Rightarrow> nat \<Rightarrow> nat \<Rightarrow> hole_list \<Rightarrow> (nat \<times> hole_list) option" where
  "locked_alloc spare map_claim lsize lalign h =
     (case heap_alloc lsize lalign h of
        None \<Rightarrow> None
      | Some (p, h1) \<Rightarrow>
          if p \<noteq> 0 then Some (p, publish_margin h1)
          else
            (case claim spare lsize HEAP_CHUNK h1 of
               None \<Rightarrow> Some (0, h1)
             | Some (c, h2) \<Rightarrow>
                 (let mapped = map_claim c in
                  if mapped = 0 then Some (0, h2)
                  else case heap_add_region (cl_start c) mapped h2 of
                    None \<Rightarrow> None
                  | Some h3 \<Rightarrow> map_option (map_prod id publish_margin) (heap_alloc lsize lalign h3))))"

definition locked_dealloc :: "nat \<Rightarrow> nat \<Rightarrow> nat \<Rightarrow> hole_list \<Rightarrow> hole_list option" where
  "locked_dealloc p lsize lalign h = map_option publish_margin (heap_dealloc p lsize lalign h)"

definition top_up :: "nat \<Rightarrow> (heap_claim \<Rightarrow> nat) \<Rightarrow> hole_list \<Rightarrow> hole_list option" where
  "top_up spare map_claim h =
     (if \<not> hl_below h then Some h
      else
        (let h1 = publish_margin h; short = HEAP_MARGIN - hl_free h1 in
         if short = 0 then Some h1
         else case claim spare short HEAP_STEP h1 of
           None \<Rightarrow> Some h1
         | Some (c, h2) \<Rightarrow>
             (let mapped = map_claim c in
              if mapped = 0 then Some h2
              else map_option publish_margin (heap_add_region (cl_start c) mapped h2))))"

definition heap_init :: "hole_list option" where
  "heap_init =
     map_option publish_margin
       (heap_add_region KERNEL_HEAP_BASE KERNEL_HEAP_SIZE (heap_new\<lparr>hl_mapped := KERNEL_HEAP_SIZE\<rparr>))"


section \<open>The list of holes\<close>

type_synonym holes = "(nat \<times> nat) list"

fun hole_seg :: "(nat \<Rightarrow> hole) \<Rightarrow> nat \<Rightarrow> holes \<Rightarrow> nat \<Rightarrow> bool" where
  "hole_seg m p [] q \<longleftrightarrow> p = q"
| "hole_seg m p ((a, s) # xs) q \<longleftrightarrow>
     p = a \<and> a \<noteq> 0 \<and> h_size (m a) = s \<and> hole_seg m (h_next (m a)) xs q"

definition holes_wf :: "holes \<Rightarrow> bool" where
  "holes_wf xs \<longleftrightarrow> sorted_wrt (\<lambda>(a, s) (b, t). a + s < b) xs \<and> (\<forall>(a, s) \<in> set xs. 0 < a \<and> MIN_BLOCK \<le> s)"

definition hole_bytes :: "holes \<Rightarrow> nat set" where
  "hole_bytes xs = (\<Union>(a, s) \<in> set xs. {a..<a + s})"

definition heap_rel :: "hole_list \<Rightarrow> holes \<Rightarrow> bool" where
  "heap_rel h xs \<longleftrightarrow>
     hole_seg (hl_store h) (hl_head h) xs 0 \<and> holes_wf xs \<and> hl_free h = sum_list (map snd xs)"

lemma hole_seg_append:
  "hole_seg m p (xs @ ys) q \<longleftrightarrow> (\<exists>r. hole_seg m p xs r \<and> hole_seg m r ys q)"
  by (induction xs arbitrary: p) auto

lemma hole_seg_upd:
  "x \<notin> fst ` set xs \<Longrightarrow> hole_seg (m(x := v)) p xs q \<longleftrightarrow> hole_seg m p xs q"
proof (induction xs arbitrary: p)
  case (Cons y ys)
  then show ?case by (cases y) auto
qed simp

lemma hole_seg_0:
  "hole_seg m p xs 0 \<Longrightarrow> p = (case xs of [] \<Rightarrow> 0 | (a, s) # _ \<Rightarrow> a)"
  by (cases xs) auto

lemma holes_wf_append:
  "holes_wf (xs @ ys) \<longleftrightarrow>
     holes_wf xs \<and> holes_wf ys \<and> (\<forall>(a, s) \<in> set xs. \<forall>(b, t) \<in> set ys. a + s < b)"
  by (auto simp: holes_wf_def sorted_wrt_append)

lemma holes_wf_Cons:
  "holes_wf ((a, s) # ys) \<longleftrightarrow>
     0 < a \<and> MIN_BLOCK \<le> s \<and> holes_wf ys \<and> (\<forall>(b, t) \<in> set ys. a + s < b)"
  by (auto simp: holes_wf_def)

lemma holes_wf_Nil [simp]: "holes_wf []"
  by (simp add: holes_wf_def)

lemma hole_bytes_simps [simp]:
  "hole_bytes [] = {}" "hole_bytes ((a, s) # xs) = {a..<a + s} \<union> hole_bytes xs"
  "hole_bytes (xs @ ys) = hole_bytes xs \<union> hole_bytes ys"
  by (auto simp: hole_bytes_def)

lemma hole_bytes_iff: "x \<in> hole_bytes xs \<longleftrightarrow> (\<exists>a s. (a, s) \<in> set xs \<and> a \<le> x \<and> x < a + s)"
  by (force simp: hole_bytes_def)

text \<open>The list is determined by its bytes: holes never touch.\<close>

lemma holes_wf_first:
  assumes "holes_wf ((a, s) # xs)"
  shows "a \<in> hole_bytes ((a, s) # xs)" and "\<forall>x \<in> hole_bytes ((a, s) # xs). a \<le> x"
    and "a + s \<notin> hole_bytes ((a, s) # xs)" and "\<forall>x \<in> {a..<a + s}. x \<in> hole_bytes ((a, s) # xs)"
    and "hole_bytes xs = hole_bytes ((a, s) # xs) - {a..<a + s}"
proof -
  have s: "MIN_BLOCK \<le> s" and gap: "\<forall>(b, t) \<in> set xs. a + s < b"
    using assms by (auto simp: holes_wf_Cons)
  have above: "a + s < x" if "x \<in> hole_bytes xs" for x
    using gap that by (fastforce simp: hole_bytes_iff)
  show "a \<in> hole_bytes ((a, s) # xs)" using s by (simp add: MIN_BLOCK_def)
  show "\<forall>x \<in> hole_bytes ((a, s) # xs). a \<le> x" using above by fastforce
  show "a + s \<notin> hole_bytes ((a, s) # xs)" using above by auto
  show "\<forall>x \<in> {a..<a + s}. x \<in> hole_bytes ((a, s) # xs)" by simp
  show "hole_bytes xs = hole_bytes ((a, s) # xs) - {a..<a + s}" using above by fastforce
qed

lemma holes_unique:
  "holes_wf xs \<Longrightarrow> holes_wf ys \<Longrightarrow> hole_bytes xs = hole_bytes ys \<Longrightarrow> xs = ys"
proof (induction xs arbitrary: ys)
  case Nil
  then show ?case
  proof (cases ys)
    case (Cons y zs)
    obtain b t where "y = (b, t)" by (cases y)
    with Cons Nil holes_wf_first(1) [of b t zs] show ?thesis by auto
  qed simp
next
  case (Cons x xs)
  obtain a s where x: "x = (a, s)" by (cases x)
  note fx = holes_wf_first [OF Cons.prems(1) [unfolded x]]
  show ?case
  proof (cases ys)
    case Nil
    with fx(1) Cons.prems(3) x show ?thesis by simp
  next
    case (Cons y zs)
    obtain b t where y: "y = (b, t)" by (cases y)
    have wfy: "holes_wf ((b, t) # zs)" using Cons y \<open>holes_wf ys\<close> by simp
    note fy = holes_wf_first [OF wfy]
    have eq: "hole_bytes ((a, s) # xs) = hole_bytes ((b, t) # zs)"
      using \<open>hole_bytes (x # xs) = hole_bytes ys\<close> x y Cons by simp
    have ab: "a = b" using fx(1,2) fy(1,2) eq by (metis antisym)
    have "\<not> s < t" using fx(3) fy(4) eq ab by auto
    moreover have "\<not> t < s" using fy(3) fx(4) eq ab by auto
    ultimately have st: "s = t" by simp
    have "hole_bytes xs = hole_bytes zs" using fx(5) fy(5) eq ab st by simp
    with \<open>\<And>ys. holes_wf xs \<Longrightarrow> holes_wf ys \<Longrightarrow> hole_bytes xs = hole_bytes ys \<Longrightarrow> xs = ys\<close>
      \<open>holes_wf (x # xs)\<close> wfy x
    have "xs = zs" by (simp add: holes_wf_Cons)
    with ab st x y Cons show ?thesis by simp
  qed
qed

section \<open>Inserting a block\<close>

text \<open>What \<open>insert\<close> does to the list, split at the block.\<close>

definition holes_ahead :: "nat \<Rightarrow> nat \<Rightarrow> holes \<Rightarrow> holes" where
  "holes_ahead b n ys =
     (case ys of
        [] \<Rightarrow> [(b, n)]
      | (c, s) # zs \<Rightarrow> if b + n = c then (b, n + s) # zs else (b, n) # ys)"

definition holes_behind :: "holes \<Rightarrow> holes \<Rightarrow> holes" where
  "holes_behind xs bys =
     (if xs = [] then bys
      else case (last xs, bys) of
        ((p, s), (b, n) # ys) \<Rightarrow> if p + s = b then butlast xs @ (p, s + n) # ys else xs @ bys
      | (_, []) \<Rightarrow> xs)"

lemma holes_ahead_spec:
  assumes "holes_wf ys" "0 < b" "MIN_BLOCK \<le> n" "\<forall>(c, s) \<in> set ys. b + n \<le> c"
  obtains n' zs where "holes_ahead b n ys = (b, n') # zs" "holes_wf ((b, n') # zs)"
    "{b..<b + n'} \<union> hole_bytes zs = {b..<b + n} \<union> hole_bytes ys"
    "n' + sum_list (map snd zs) = n + sum_list (map snd ys)"
    "set zs \<subseteq> set ys"
proof (cases ys)
  case Nil
  with that [of n "[]"] assms show ?thesis
    by (simp add: holes_ahead_def holes_wf_Cons)
next
  case (Cons y zs)
  obtain c s where y: "y = (c, s)" by (cases y)
  have wf: "0 < c" "MIN_BLOCK \<le> s" "holes_wf zs" "\<forall>(d, t) \<in> set zs. c + s < d"
    using assms(1) Cons y by (auto simp: holes_wf_Cons)
  show ?thesis
  proof (cases "b + n = c")
    case True
    moreover have "\<forall>(d, t) \<in> set zs. b + (n + s) < d" using wf True by auto
    moreover have "{b..<b + (n + s)} = {b..<b + n} \<union> {c..<c + s}" using True by auto
    ultimately show ?thesis
      using that [of "n + s" zs] assms wf Cons y
      by (simp add: holes_ahead_def holes_wf_Cons Un_assoc subset_insertI)
  next
    case False
    then have "b + n < c" using assms(4) Cons y by auto
    with wf have "\<forall>(d, t) \<in> set ys. b + n < d" using Cons y by auto
    with that [of n ys] assms False Cons y show ?thesis
      by (auto simp: holes_ahead_def holes_wf_Cons)
  qed
qed

lemma holes_behind_spec:
  assumes "holes_wf xs" "holes_wf ((b, n) # ys)" "\<forall>(p, s) \<in> set xs. p + s \<le> b"
    "\<forall>(p, s) \<in> set xs. \<forall>(c, t) \<in> set ys. p + s < c"
  shows "holes_wf (holes_behind xs ((b, n) # ys))
    \<and> hole_bytes (holes_behind xs ((b, n) # ys)) = hole_bytes xs \<union> hole_bytes ((b, n) # ys)
    \<and> sum_list (map snd (holes_behind xs ((b, n) # ys)))
      = sum_list (map snd xs) + n + sum_list (map snd ys)"
proof (cases "xs = []")
  case True
  with assms show ?thesis by (simp add: holes_behind_def)
next
  case False
  then obtain us p s where xs: "xs = us @ [(p, s)]"
    by (metis append_butlast_last_id surj_pair)
  show ?thesis
  proof (cases "p + s = b")
    case True
    then have "holes_behind xs ((b, n) # ys) = us @ (p, s + n) # ys"
      by (simp add: holes_behind_def xs)
    with True assms show ?thesis
      by (auto simp: xs holes_wf_append holes_wf_Cons)
  next
    case False
    then have "holes_behind xs ((b, n) # ys) = xs @ (b, n) # ys"
      by (simp add: holes_behind_def xs)
    moreover have "\<forall>(q, t) \<in> set xs. q + t < b"
      using assms(1,3) False xs by (fastforce simp: holes_wf_append)
    ultimately show ?thesis
      using assms by (auto simp: holes_wf_append holes_wf_Cons)
  qed
qed

lemma insert_walk_seg:
  assumes "hole_seg m cur (xs @ ys) 0" and "\<forall>(a, s) \<in> set xs. a < b"
    and "\<forall>(a, s) \<in> set ys. b \<le> a"
  shows "insert_walk m b prev cur =
    Some (if xs = [] then prev else fst (last xs), if ys = [] then 0 else fst (hd ys))"
  using assms
proof (induction xs arbitrary: prev cur)
  case Nil
  then show ?case
    by (cases ys) (auto simp: insert_walk.simps [of m b prev])
next
  case (Cons x xs)
  obtain a s where x: "x = (a, s)" by (cases x)
  with Cons.prems have cur: "cur = a" "a \<noteq> 0" "a < b" "hole_seg m (h_next (m a)) (xs @ ys) 0"
    by auto
  with Cons.IH [OF cur(4), of a] Cons.prems have
    "insert_walk m b a (h_next (m a)) =
      Some (if xs = [] then a else fst (last xs), if ys = [] then 0 else fst (hd ys))" by simp
  with cur x show ?case by (simp add: insert_walk.simps [of m b prev])
qed

text \<open>
  The pointer updates of \<open>insert\<close>, in the order the code makes them, build the list
  \<open>holes_behind xs (holes_ahead b n ys)\<close>.
\<close>

lemma heap_insert_seg:
  assumes seg: "hole_seg (hl_store h) (hl_head h) (xs @ ys) 0" and b: "b \<noteq> 0"
    and below: "\<forall>(a, s) \<in> set xs. a < b" and above: "\<forall>(a, s) \<in> set ys. b < a"
    and dist: "distinct (map fst (xs @ ys))"
  shows "\<exists>h'. heap_insert b n h = Some h'
    \<and> hole_seg (hl_store h') (hl_head h') (holes_behind xs (holes_ahead b n ys)) 0
    \<and> hl_free h' = hl_free h + n \<and> hl_total h' = hl_total h \<and> hl_mapped h' = hl_mapped h"
proof -
  let ?m0 = "(hl_store h)(b := \<lparr>h_size = n, h_next = 0\<rparr>)"
  define cur where "cur = (if ys = [] then 0 else fst (hd ys))"
  have bx: "b \<notin> fst ` set xs" and by': "b \<notin> fst ` set ys"
    using below above by auto
  then have bxy: "b \<notin> fst ` set (xs @ ys)" by auto
  have seg0: "hole_seg ?m0 (hl_head h) (xs @ ys) 0" using seg hole_seg_upd [OF bxy] by blast
  have "\<forall>(a, s) \<in> set ys. b \<le> a" using above by fastforce
  from insert_walk_seg [OF seg0 below this, of 0]
  have walk: "insert_walk ?m0 b 0 (hl_head h) = Some (if xs = [] then 0 else fst (last xs), cur)"
    by (simp add: cur_def)
  have cur0: "cur = 0 \<longleftrightarrow> ys = []" and curb: "cur \<noteq> b"
  proof -
    show "cur = 0 \<longleftrightarrow> ys = []" using above by (cases ys) (auto simp: cur_def)
    show "cur \<noteq> b" using above b by (cases ys) (auto simp: cur_def)
  qed
  show ?thesis
  proof (cases "xs = []")
    case True
    with seg have "hole_seg (hl_store h) (hl_head h) ys 0" by simp
    with True walk b by' cur0 curb show ?thesis
      by (cases ys)
        (auto simp: heap_insert_def Let_def holes_behind_def holes_ahead_def cur_def hole_seg_upd)
  next
    case False
    then obtain us p s where xs: "xs = us @ [(p, s)]"
      by (metis append_butlast_last_id surj_pair)
    have p: "p \<noteq> 0" "p < b" "p \<notin> fst ` set us" "p \<notin> fst ` set ys"
      using seg below dist xs by (auto simp: hole_seg_append)
    from seg xs obtain q where sq: "hole_seg (hl_store h) (hl_head h) us p"
      "h_size (hl_store h p) = s" "h_next (hl_store h p) = q" "hole_seg (hl_store h) q ys 0"
      by (auto simp: hole_seg_append)
    have bu: "b \<notin> fst ` set us" using bx xs by simp
    from False walk have walk': "insert_walk ?m0 b 0 (hl_head h) = Some (p, cur)" by (simp add: xs)
    have pc: "p \<noteq> cur" using p(1,4) by (cases ys) (auto simp: cur_def)
    show ?thesis
    proof (cases ys)
      case Nil
      then have "cur = 0" by (simp add: cur_def)
      with Nil walk' p sq b bu show ?thesis
        by (auto simp: heap_insert_def Let_def holes_behind_def holes_ahead_def xs hole_seg_append
            hole_seg_upd)
    next
      case (Cons y zs)
      obtain c t where y: "y = (c, t)" by (cases y)
      have c: "cur = c" "c \<noteq> 0" "c \<noteq> b" "c \<noteq> p" "h_size (hl_store h c) = t"
        "hole_seg (hl_store h) (h_next (hl_store h c)) zs 0" "b \<notin> fst ` set zs" "p \<notin> fst ` set zs"
        using sq(4) Cons y by' p curb pc by (auto simp: cur_def)
      with Cons y walk' p sq b bu show ?thesis
        by (auto simp: heap_insert_def Let_def holes_behind_def holes_ahead_def xs hole_seg_append
            hole_seg_upd)
    qed
  qed
qed

lemma holes_split:
  assumes "holes_wf xs" and "{b..<b + n} \<inter> hole_bytes xs = {}" and "0 < n"
  obtains us vs where "xs = us @ vs" "\<forall>(a, s) \<in> set us. a < b \<and> a + s \<le> b"
    "\<forall>(a, s) \<in> set vs. b + n \<le> a"
proof -
  have apart: "a + s \<le> b \<or> b + n \<le> a" if "(a, s) \<in> set xs" for a s
  proof (rule ccontr)
    assume "\<not> (a + s \<le> b \<or> b + n \<le> a)"
    moreover have "0 < s" using assms(1) that by (auto simp: holes_wf_def MIN_BLOCK_def)
    ultimately have m: "max a b \<in> {b..<b + n}" "a \<le> max a b" "max a b < a + s"
      using assms(3) by auto
    have "max a b \<in> hole_bytes xs"
      unfolding hole_bytes_iff using m(2,3) that by blast
    with m(1) assms(2) show False by blast
  qed
  let ?us = "takeWhile (\<lambda>(a, s). a + s \<le> b) xs" and ?vs = "dropWhile (\<lambda>(a, s). a + s \<le> b) xs"
  have xs: "xs = ?us @ ?vs" by simp
  have us: "\<forall>(a, s) \<in> set ?us. a < b \<and> a + s \<le> b"
  proof (intro ballI, clarify)
    fix a s assume as: "(a, s) \<in> set ?us"
    then have "a + s \<le> b" using set_takeWhileD by fastforce
    moreover have "0 < s" using assms(1) set_takeWhileD [OF as]
      by (auto simp: holes_wf_def MIN_BLOCK_def)
    ultimately show "a < b \<and> a + s \<le> b" by simp
  qed
  have vs: "\<forall>(a, s) \<in> set ?vs. b + n \<le> a"
  proof (cases ?vs)
    case (Cons v ws)
    obtain c t where v: "v = (c, t)" by (cases v)
    have "\<not> c + t \<le> b" using Cons v
      by (metis (mono_tags, lifting) case_prod_conv dropWhile_eq_Cons_conv)
    moreover have "(c, t) \<in> set xs" using Cons v by (metis list.set_intros(1) set_dropWhileD)
    ultimately have c: "b + n \<le> c" using apart by blast
    have "holes_wf ((c, t) # ws)" using assms(1) xs Cons v by (metis holes_wf_append)
    with c Cons v show ?thesis by (auto simp: holes_wf_Cons)
  next
    case Nil
    show ?thesis unfolding Nil by simp
  qed
  show ?thesis using that [OF xs us vs] .
qed

lemma holes_wf_distinct: "holes_wf xs \<Longrightarrow> distinct (map fst xs)"
proof (induction xs)
  case (Cons x xs)
  then show ?case by (cases x) (fastforce simp: holes_wf_Cons)
qed simp

text \<open>\<open>insert\<close> returns, keeps the invariant and adds exactly the block's bytes.\<close>

lemma heap_insert_rel:
  assumes rel: "heap_rel h xs" and b: "0 < b" and n: "MIN_BLOCK \<le> n"
    and fresh: "{b..<b + n} \<inter> hole_bytes xs = {}"
  obtains h' ys where "heap_insert b n h = Some h'" "heap_rel h' ys"
    "hole_bytes ys = hole_bytes xs \<union> {b..<b + n}"
    "hl_total h' = hl_total h" "hl_mapped h' = hl_mapped h" "hl_free h' = hl_free h + n"
proof -
  have wf: "holes_wf xs" and seg: "hole_seg (hl_store h) (hl_head h) xs 0"
    and sum: "hl_free h = sum_list (map snd xs)"
    using rel by (auto simp: heap_rel_def)
  have "0 < n" using n by (simp add: MIN_BLOCK_def)
  from holes_split [OF wf fresh this] obtain us vs where uv: "xs = us @ vs"
    "\<forall>(a, s) \<in> set us. a < b \<and> a + s \<le> b" "\<forall>(a, s) \<in> set vs. b + n \<le> a" .
  have wfu: "holes_wf us" and wfv: "holes_wf vs"
    and uvgap: "\<forall>(a, s) \<in> set us. \<forall>(c, t) \<in> set vs. a + s < c"
    using wf uv(1) by (auto simp: holes_wf_append)
  have below: "\<forall>(a, s) \<in> set us. a < b" using uv(2) by fastforce
  have above: "\<forall>(a, s) \<in> set vs. b < a" using uv(3) \<open>0 < n\<close> by fastforce
  have "\<exists>h'. heap_insert b n h = Some h'
    \<and> hole_seg (hl_store h') (hl_head h') (holes_behind us (holes_ahead b n vs)) 0
    \<and> hl_free h' = hl_free h + n \<and> hl_total h' = hl_total h \<and> hl_mapped h' = hl_mapped h"
    using seg b below above holes_wf_distinct [OF wf] unfolding uv(1) by (intro heap_insert_seg) simp_all
  then obtain h' where h': "heap_insert b n h = Some h'"
    "hole_seg (hl_store h') (hl_head h') (holes_behind us (holes_ahead b n vs)) 0"
    "hl_free h' = hl_free h + n" "hl_total h' = hl_total h" "hl_mapped h' = hl_mapped h" by blast
  from holes_ahead_spec [OF wfv b n uv(3)] obtain n' zs where z:
    "holes_ahead b n vs = (b, n') # zs" "holes_wf ((b, n') # zs)"
    "{b..<b + n'} \<union> hole_bytes zs = {b..<b + n} \<union> hole_bytes vs"
    "n' + sum_list (map snd zs) = n + sum_list (map snd vs)" "set zs \<subseteq> set vs" .
  have "\<forall>(p, s) \<in> set us. p + s \<le> b" using uv(2) by fastforce
  moreover have "\<forall>(p, s) \<in> set us. \<forall>(c, t) \<in> set zs. p + s < c"
    using uvgap z(5) by fastforce
  ultimately have bh: "holes_wf (holes_behind us ((b, n') # zs))"
    "hole_bytes (holes_behind us ((b, n') # zs)) = hole_bytes us \<union> hole_bytes ((b, n') # zs)"
    "sum_list (map snd (holes_behind us ((b, n') # zs)))
      = sum_list (map snd us) + n' + sum_list (map snd zs)"
    using holes_behind_spec [OF wfu z(2)] by auto
  have "heap_rel h' (holes_behind us ((b, n') # zs))"
    using h' bh z sum uv(1) by (simp add: heap_rel_def)
  moreover have "hole_bytes (holes_behind us ((b, n') # zs)) = hole_bytes xs \<union> {b..<b + n}"
    using bh(2) z(3) uv(1) by auto
  ultimately show ?thesis using that h' by blast
qed

section \<open>Allocation\<close>

lemma alloc_walk_seg:
  assumes "hole_seg m cur xs 0"
  shows "(alloc_walk m sz align prev cur = Some None \<and> (\<forall>(a, s) \<in> set xs. \<not> hole_fits a s sz align))
    \<or> (\<exists>us c s vs. xs = us @ (c, s) # vs \<and> hole_fits c s sz align
        \<and> (\<forall>(a, t) \<in> set us. \<not> hole_fits a t sz align)
        \<and> alloc_walk m sz align prev cur = Some (Some (if us = [] then prev else fst (last us), c)))"
  using assms
proof (induction xs arbitrary: prev cur)
  case Nil
  then show ?case by (simp add: alloc_walk.simps [of m sz align prev])
next
  case (Cons x xs)
  obtain a s where x: "x = (a, s)" by (cases x)
  with Cons.prems have cur: "cur = a" "a \<noteq> 0" "h_size (m a) = s" "hole_seg m (h_next (m a)) xs 0"
    by auto
  show ?case
  proof (cases "hole_fits a s sz align")
    case True
    with cur x show ?thesis
      by (intro disjI2 exI [of _ "[]"] exI [of _ a] exI [of _ s] exI [of _ xs])
        (simp add: alloc_walk.simps [of m sz align prev])
  next
    case False
    then have step: "alloc_walk m sz align prev cur = alloc_walk m sz align a (h_next (m a))"
      using cur by (simp add: alloc_walk.simps [of m sz align prev])
    from Cons.IH [OF cur(4), of a] show ?thesis
    proof (elim disjE exE conjE)
      assume "alloc_walk m sz align a (h_next (m a)) = Some None"
        and "\<forall>(a, s) \<in> set xs. \<not> hole_fits a s sz align"
      with step False x show ?thesis by simp
    next
      fix us c t vs
      assume "xs = us @ (c, t) # vs" "hole_fits c t sz align"
        "\<forall>(a, t) \<in> set us. \<not> hole_fits a t sz align"
        "alloc_walk m sz align a (h_next (m a)) = Some (Some (if us = [] then a else fst (last us), c))"
      with step False x show ?thesis
        by (intro disjI2 exI [of _ "x # us"] exI [of _ c] exI [of _ t] exI [of _ vs]) auto
    qed
  qed
qed

lemma hole_unlink:
  assumes seg: "hole_seg m p (us @ (c, s) # vs) 0" and dist: "distinct (map fst (us @ (c, s) # vs))"
  shows "if us = [] then hole_seg m (h_next (m c)) (us @ vs) 0
    else fst (last us) \<noteq> 0 \<and>
      hole_seg (m(fst (last us) := (m (fst (last us)))\<lparr>h_next := h_next (m c)\<rparr>)) p (us @ vs) 0"
proof (cases "us = []")
  case True
  with seg show ?thesis by simp
next
  case False
  then obtain ws q t where us: "us = ws @ [(q, t)]"
    by (metis append_butlast_last_id surj_pair)
  with seg dist show ?thesis
    by (auto simp: hole_seg_append hole_seg_upd)
qed

lemma heap_insert_if_rel:
  assumes rel: "heap_rel h xs" and n: "n = 0 \<or> MIN_BLOCK \<le> n" and b: "0 < b"
    and fresh: "{b..<b + n} \<inter> hole_bytes xs = {}"
  obtains h' ys where "heap_insert_if b n h = Some h'" "heap_rel h' ys"
    "hole_bytes ys = hole_bytes xs \<union> {b..<b + n}"
    "hl_total h' = hl_total h" "hl_mapped h' = hl_mapped h" "hl_free h' = hl_free h + n"
proof (cases "n = 0")
  case True
  with rel that [of h xs] show ?thesis by (simp add: heap_insert_if_def)
next
  case False
  with n have "MIN_BLOCK \<le> n" by simp
  from heap_insert_rel [OF rel b this fresh] that False show ?thesis
    by (metis heap_insert_if_def neq0_conv)
qed

lemma hole_bytes_away:
  assumes "holes_wf (us @ (c, s) # vs)" and "x \<in> hole_bytes (us @ vs)"
  shows "x < c \<or> c + s < x"
proof -
  from assms(2) obtain a t where at: "(a, t) \<in> set us \<or> (a, t) \<in> set vs" "a \<le> x" "x < a + t"
    by (auto simp: hole_bytes_iff)
  have "a + t < c" if "(a, t) \<in> set us" using assms(1) that by (auto simp: holes_wf_append)
  moreover have "c + s < a" if "(a, t) \<in> set vs"
    using assms(1) that by (auto simp: holes_wf_append holes_wf_Cons)
  ultimately show ?thesis using at by auto
qed

text \<open>
  \<open>alloc\<close> returns; a block it hands out is aligned, was free, and is exactly what leaves the
  free bytes; when it hands out none, no hole fits and nothing changed.
\<close>

lemma heap_alloc_rel:
  assumes rel: "heap_rel h xs" and nrm: "heap_normalize lsize lalign = (sz, align)"
    and align: "0 < align" and sz: "MIN_BLOCK \<le> sz"
  shows "(heap_alloc lsize lalign h = Some (0, h) \<and> (\<forall>(a, s) \<in> set xs. \<not> hole_fits a s sz align))
    \<or> (\<exists>p h' ys. heap_alloc lsize lalign h = Some (p, h') \<and> heap_rel h' ys \<and> 0 < p \<and> p mod align = 0
        \<and> {p..<p + sz} \<subseteq> hole_bytes xs \<and> hole_bytes ys = hole_bytes xs - {p..<p + sz}
        \<and> hl_total h' = hl_total h \<and> hl_mapped h' = hl_mapped h \<and> hl_free h = hl_free h' + sz)"
proof -
  have wf: "holes_wf xs" and seg: "hole_seg (hl_store h) (hl_head h) xs 0"
    and sum: "hl_free h = sum_list (map snd xs)"
    using rel by (auto simp: heap_rel_def)
  from alloc_walk_seg [OF seg, of sz align 0] show ?thesis
  proof (elim disjE exE conjE)
    assume "alloc_walk (hl_store h) sz align 0 (hl_head h) = Some None"
      and "\<forall>(a, s) \<in> set xs. \<not> hole_fits a s sz align"
    then show ?thesis by (simp add: heap_alloc_def nrm)
  next
    fix us c s vs
    assume xs: "xs = us @ (c, s) # vs" and fits: "hole_fits c s sz align"
      and walk: "alloc_walk (hl_store h) sz align 0 (hl_head h)
        = Some (Some (if us = [] then 0 else fst (last us), c))"
    define prev where "prev = (if us = [] then 0 else fst (last us))"
    let ?nxt = "h_next (hl_store h c)"
    define h1 where "h1 = (if prev = 0 then h\<lparr>hl_head := ?nxt\<rparr>
      else h\<lparr>hl_store := (hl_store h)(prev := (hl_store h prev)\<lparr>h_next := ?nxt\<rparr>)\<rparr>)"
    define h2 where "h2 = h1\<lparr>hl_free := hl_free h1 - s\<rparr>"
    let ?start = "align_up c align"
    let ?front = "?start - c"
    let ?rear = "s - ?front - sz"
    have c: "h_size (hl_store h c) = s" "0 < c"
      using seg xs by (auto simp: hole_seg_append)
    have ge: "c \<le> ?start" using align_up_bounds(1) [OF align] .
    have parts: "?front + sz + ?rear = s" "?front = 0 \<or> MIN_BLOCK \<le> ?front"
      "?rear = 0 \<or> MIN_BLOCK \<le> ?rear"
      using fits by (auto simp: hole_fits_def Let_def)
    have "hole_seg (hl_store h1) (hl_head h1) (us @ vs) 0"
      using hole_unlink [OF seg [unfolded xs] holes_wf_distinct [OF wf [unfolded xs]]]
      by (auto simp: h1_def prev_def split: if_splits)
    moreover have "holes_wf (us @ vs)" using wf xs by (auto simp: holes_wf_append holes_wf_Cons)
    moreover have "hl_free h1 = sum_list (map snd xs)" using sum by (simp add: h1_def)
    ultimately have rel2: "heap_rel h2 (us @ vs)"
      by (simp add: heap_rel_def h2_def xs)
    have away: "x < c \<or> c + s < x" if "x \<in> hole_bytes (us @ vs)" for x
      using hole_bytes_away [OF wf [unfolded xs] that] .
    have f1: "{c..<c + ?front} \<inter> hole_bytes (us @ vs) = {}"
    proof -
      have "c + ?front \<le> c + s" using parts(1) by simp
      then show ?thesis using away by force
    qed
    from heap_insert_if_rel [OF rel2 parts(2) c(2) f1] obtain h3 ys3 where h3:
      "heap_insert_if c ?front h2 = Some h3" "heap_rel h3 ys3"
      "hole_bytes ys3 = hole_bytes (us @ vs) \<union> {c..<c + ?front}"
      "hl_total h3 = hl_total h2" "hl_mapped h3 = hl_mapped h2" "hl_free h3 = hl_free h2 + ?front" .
    have f2: "{?start + sz..<?start + sz + ?rear} \<inter> hole_bytes ys3 = {}"
    proof -
      have "?start + sz + ?rear = c + s" "c + ?front = ?start" using parts(1) ge by simp_all
      then show ?thesis using h3(3) away by force
    qed
    have pos: "0 < ?start + sz" using c(2) ge by simp
    from heap_insert_if_rel [OF h3(2) parts(3) pos f2] obtain h4 ys4 where h4:
      "heap_insert_if (?start + sz) ?rear h3 = Some h4" "heap_rel h4 ys4"
      "hole_bytes ys4 = hole_bytes ys3 \<union> {?start + sz..<?start + sz + ?rear}"
      "hl_total h4 = hl_total h3" "hl_mapped h4 = hl_mapped h3" "hl_free h4 = hl_free h3 + ?rear" .
    have al: "heap_alloc lsize lalign h = Some (?start, h4)"
      using walk c(1) h3(1) h4(1)
      by (simp add: heap_alloc_def nrm Let_def prev_def [symmetric] h1_def [symmetric]
          h2_def [symmetric])
    have edges: "c + ?front = ?start" "?start + sz + ?rear = c + s" using parts(1) ge by simp_all
    have sub: "{?start..<?start + sz} \<subseteq> {c..<c + s}" using edges ge by auto
    have "hole_bytes ys4 = hole_bytes xs - {?start..<?start + sz}"
    proof -
      have "hole_bytes ys4 = hole_bytes (us @ vs) \<union> ({c..<?start} \<union> {?start + sz..<c + s})"
        using h4(3) h3(3) edges by auto
      moreover have "{c..<?start} \<union> {?start + sz..<c + s} = {c..<c + s} - {?start..<?start + sz}"
        using edges ge by auto
      moreover have "hole_bytes (us @ vs) \<inter> {?start..<?start + sz} = {}" using away sub by force
      ultimately show ?thesis unfolding xs by auto
    qed
    moreover have "{?start..<?start + sz} \<subseteq> hole_bytes xs" using sub by (auto simp: xs)
    moreover have "?start mod align = 0" by (simp add: align_up_def)
    moreover have "hl_total h4 = hl_total h" "hl_mapped h4 = hl_mapped h"
      using h3(4,5) h4(4,5) by (simp_all add: h2_def h1_def)
    moreover have "hl_free h = hl_free h4 + sz"
      using h3(6) h4(6) parts(1) sum by (simp add: h2_def h1_def xs)
    ultimately show ?thesis using al h4(2) c(2) ge by (intro disjI2 exI) auto
  qed
qed

lemma heap_normalize_props:
  assumes "heap_normalize lsize lalign = (sz, align)"
  shows "MIN_BLOCK \<le> sz" and "lsize \<le> sz" and "0 < align" and "lalign \<le> align"
proof -
  have eq: "sz = align_up (max lsize MIN_BLOCK) MIN_BLOCK" "align = max lalign MIN_BLOCK"
    using assms by (simp_all add: heap_normalize_def)
  have "max lsize MIN_BLOCK \<le> sz"
    unfolding eq by (rule align_up_bounds) (simp add: MIN_BLOCK_def)
  then show "MIN_BLOCK \<le> sz" "lsize \<le> sz" by simp_all
  show "0 < align" "lalign \<le> align" by (simp_all add: eq MIN_BLOCK_def)
qed

section \<open>The heap under interleaving\<close>

text \<open>
  The heap lock makes one step of each section that runs under it.  The state adds what is out:
  the blocks that were handed out with the layout they were asked for with, and the claims whose
  pages are being mapped while no lock is held.
\<close>

record heap_state =
  hs_heap :: hole_list
  hs_live :: "(nat \<times> nat \<times> nat) list"
  hs_claims :: "heap_claim list"

inductive heap_step :: "heap_state \<Rightarrow> heap_state \<Rightarrow> bool" where
  section_alloc: "heap_alloc lsize lalign (hs_heap s) = Some (p, h') \<Longrightarrow> p \<noteq> 0 \<Longrightarrow>
    heap_step s (s\<lparr>hs_heap := publish_margin h', hs_live := (p, lsize, lalign) # hs_live s\<rparr>)"
| section_alloc_none: "heap_alloc lsize lalign (hs_heap s) = Some (0, h') \<Longrightarrow>
    heap_step s (s\<lparr>hs_heap := h'\<rparr>)"
| section_claim: "claim spare needed least (hs_heap s) = Some (c, h') \<Longrightarrow>
    heap_step s (s\<lparr>hs_heap := h', hs_claims := c # hs_claims s\<rparr>)"
| section_add: "c \<in> set (hs_claims s) \<Longrightarrow> mapped \<le> cl_bytes c \<Longrightarrow>
    heap_add_region (cl_start c) mapped (hs_heap s) = Some h' \<Longrightarrow>
    heap_step s (s\<lparr>hs_heap := h', hs_claims := remove1 c (hs_claims s)\<rparr>)"
| section_free: "(p, lsize, lalign) \<in> set (hs_live s) \<Longrightarrow>
    locked_dealloc p lsize lalign (hs_heap s) = Some h' \<Longrightarrow>
    heap_step s (s\<lparr>hs_heap := h', hs_live := remove1 (p, lsize, lalign) (hs_live s)\<rparr>)"
| section_margin: "heap_step s (s\<lparr>hs_heap := publish_margin (hs_heap s)\<rparr>)"

definition live_span :: "nat \<times> nat \<times> nat \<Rightarrow> nat \<times> nat" where
  "live_span b = (case b of (p, lsize, lalign) \<Rightarrow> (p, fst (heap_normalize lsize lalign)))"

definition claim_span :: "heap_claim \<Rightarrow> nat \<times> nat" where
  "claim_span c = (cl_start c, cl_bytes c)"

definition heap_out :: "heap_state \<Rightarrow> holes" where
  "heap_out s = map live_span (hs_live s) @ map claim_span (hs_claims s)"

fun spans_apart :: "holes \<Rightarrow> bool" where
  "spans_apart [] \<longleftrightarrow> True"
| "spans_apart ((a, n) # zs) \<longleftrightarrow> {a..<a + n} \<inter> hole_bytes zs = {} \<and> spans_apart zs"

definition heap_inv :: "heap_state \<Rightarrow> bool" where
  "heap_inv s \<longleftrightarrow>
     (\<exists>xs. heap_rel (hs_heap s) xs \<and> hole_bytes xs \<inter> hole_bytes (heap_out s) = {}
       \<and> hole_bytes xs \<union> hole_bytes (heap_out s)
           \<subseteq> {KERNEL_HEAP_BASE..<KERNEL_HEAP_BASE + hl_mapped (hs_heap s)})
     \<and> spans_apart (heap_out s) \<and> hl_mapped (hs_heap s) \<le> KERNEL_HEAP_MAX
     \<and> hl_total (hs_heap s) = hl_free (hs_heap s) + sum_list (map (snd \<circ> live_span) (hs_live s))"

lemma spans_apart_mid:
  "spans_apart (us @ (a, n) # vs) \<longleftrightarrow> {a..<a + n} \<inter> hole_bytes (us @ vs) = {} \<and> spans_apart (us @ vs)"
proof (induction us)
  case (Cons u us)
  then show ?case by (cases u) auto
qed simp

lemma heap_rel_publish [simp]: "heap_rel (publish_margin h) xs \<longleftrightarrow> heap_rel h xs"
  by (simp add: heap_rel_def publish_margin_def)

lemma publish_margin_fields [simp]:
  "hl_mapped (publish_margin h) = hl_mapped h" "hl_total (publish_margin h) = hl_total h"
  "hl_free (publish_margin h) = hl_free h"
  by (simp_all add: publish_margin_def)


lemma heap_out_split_claim:
  assumes "c \<in> set (hs_claims s)"
  obtains us vs where "heap_out s = us @ claim_span c # vs"
    "\<And>h'. heap_out (s\<lparr>hs_heap := h', hs_claims := remove1 c (hs_claims s)\<rparr>) = us @ vs"
proof -
  from split_list_first [OF assms] obtain ys zs where "hs_claims s = ys @ c # zs" "c \<notin> set ys"
    by blast
  then show ?thesis
    using that [of "map live_span (hs_live s) @ map claim_span ys" "map claim_span zs"]
    by (simp add: heap_out_def remove1_append)
qed

lemma heap_add_region_rel:
  assumes rel: "heap_rel h xs" and b: "0 < b" and fresh: "{b..<b + n} \<inter> hole_bytes xs = {}"
  obtains h' ys k where "heap_add_region b n h = Some h'" "heap_rel h' ys"
    "hole_bytes ys = hole_bytes xs \<union> {b..<b + k}" "k = (if n < MIN_BLOCK then 0 else n)"
    "hl_total h' + hl_free h = hl_total h + hl_free h'" "hl_mapped h' = hl_mapped h"
proof (cases "n < MIN_BLOCK")
  case True
  with rel that [of h xs 0] show ?thesis by (simp add: heap_add_region_def)
next
  case False
  let ?h = "h\<lparr>hl_total := hl_total h + n\<rparr>"
  have rel': "heap_rel ?h xs" using rel by (simp add: heap_rel_def)
  from False have n: "MIN_BLOCK \<le> n" by simp
  from heap_insert_rel [OF rel' b n fresh] obtain h' ys where h':
    "heap_insert b n ?h = Some h'" "heap_rel h' ys" "hole_bytes ys = hole_bytes xs \<union> {b..<b + n}"
    "hl_total h' = hl_total ?h" "hl_mapped h' = hl_mapped ?h" "hl_free h' = hl_free ?h + n" .
  with that [of h' ys n] False show ?thesis by (simp add: heap_add_region_def)
qed

lemma heap_inv_alloc:
  assumes inv: "heap_inv s" and al: "heap_alloc lsize lalign (hs_heap s) = Some (p, h')"
  shows "p \<noteq> 0 \<Longrightarrow>
      heap_inv (s\<lparr>hs_heap := publish_margin h', hs_live := (p, lsize, lalign) # hs_live s\<rparr>)"
    and "p = 0 \<Longrightarrow> h' = hs_heap s"
proof -
  obtain sz align where nrm: "heap_normalize lsize lalign = (sz, align)" by fastforce
  note b = heap_normalize_props [OF nrm]
  from inv obtain xs where rel: "heap_rel (hs_heap s) xs"
    and disj: "hole_bytes xs \<inter> hole_bytes (heap_out s) = {}"
    and range: "hole_bytes xs \<union> hole_bytes (heap_out s)
      \<subseteq> {KERNEL_HEAP_BASE..<KERNEL_HEAP_BASE + hl_mapped (hs_heap s)}"
    by (auto simp: heap_inv_def)
  have out: "heap_out (s\<lparr>hs_heap := publish_margin h', hs_live := (p, lsize, lalign) # hs_live s\<rparr>)
    = (p, sz) # heap_out s"
    by (simp add: heap_out_def live_span_def nrm)
  note spec = heap_alloc_rel [OF rel nrm b(3) b(1)]
  show "h' = hs_heap s" if "p = 0" using spec al that by auto
  assume "p \<noteq> 0"
  with spec al obtain ys where ys: "heap_rel h' ys" "{p..<p + sz} \<subseteq> hole_bytes xs"
    "hole_bytes ys = hole_bytes xs - {p..<p + sz}" "hl_total h' = hl_total (hs_heap s)"
    "hl_mapped h' = hl_mapped (hs_heap s)" "hl_free (hs_heap s) = hl_free h' + sz" by auto
  have "hole_bytes ys \<inter> hole_bytes ((p, sz) # heap_out s) = {}" using ys(3) disj by auto
  moreover have "hole_bytes ys \<union> hole_bytes ((p, sz) # heap_out s)
      \<subseteq> {KERNEL_HEAP_BASE..<KERNEL_HEAP_BASE + hl_mapped (hs_heap s)}"
    unfolding hole_bytes_simps using ys(2,3) range by blast
  moreover have "spans_apart ((p, sz) # heap_out s)" using inv ys(2) disj by (auto simp: heap_inv_def)
  ultimately show "heap_inv (s\<lparr>hs_heap := publish_margin h', hs_live := (p, lsize, lalign) # hs_live s\<rparr>)"
    using inv ys(1,4-6) by (auto simp: heap_inv_def out live_span_def nrm)
qed

lemma heap_inv_claim:
  assumes inv: "heap_inv s" and cl: "claim spare needed least (hs_heap s) = Some (c, h')"
  shows "heap_inv (s\<lparr>hs_heap := h', hs_claims := c # hs_claims s\<rparr>)"
proof -
  let ?s = "s\<lparr>hs_heap := h', hs_claims := c # hs_claims s\<rparr>"
  let ?m = "hl_mapped (hs_heap s)"
  from cl obtain want where w: "?m + want \<le> KERNEL_HEAP_MAX"
    "c = \<lparr>cl_start = KERNEL_HEAP_BASE + ?m, cl_bytes = want\<rparr>"
    "h' = (hs_heap s)\<lparr>hl_mapped := ?m + want\<rparr>"
    by (auto simp: claim_def Let_def split: if_splits)
  from inv obtain xs where rel: "heap_rel (hs_heap s) xs"
    and disj: "hole_bytes xs \<inter> hole_bytes (heap_out s) = {}"
    and range: "hole_bytes xs \<union> hole_bytes (heap_out s)
      \<subseteq> {KERNEL_HEAP_BASE..<KERNEL_HEAP_BASE + ?m}"
    by (auto simp: heap_inv_def)
  let ?b = "KERNEL_HEAP_BASE + ?m"
  have bytes: "hole_bytes (heap_out ?s) = hole_bytes (heap_out s) \<union> {?b..<?b + want}"
    by (auto simp: heap_out_def claim_span_def w(2))
  have clear: "{?b..<?b + want} \<inter> (hole_bytes xs \<union> hole_bytes (heap_out s)) = {}"
    using range by fastforce
  have "spans_apart (heap_out ?s)"
    using inv clear by (auto simp: heap_out_def claim_span_def w(2) spans_apart_mid heap_inv_def)
  moreover have "heap_rel h' xs" using rel by (simp add: w(3) heap_rel_def)
  moreover have "hole_bytes xs \<inter> hole_bytes (heap_out ?s) = {}" using bytes disj clear by auto
  moreover have "hole_bytes xs \<union> hole_bytes (heap_out ?s) \<subseteq> {KERNEL_HEAP_BASE..<KERNEL_HEAP_BASE + (?m + want)}"
    using bytes range by fastforce
  ultimately show ?thesis using inv w(1) by (auto simp: heap_inv_def w(3))
qed

lemma heap_inv_add:
  assumes inv: "heap_inv s" and c: "c \<in> set (hs_claims s)" and le: "mapped \<le> cl_bytes c"
  obtains h' where "heap_add_region (cl_start c) mapped (hs_heap s) = Some h'"
    "heap_inv (s\<lparr>hs_heap := h', hs_claims := remove1 c (hs_claims s)\<rparr>)"
proof -
  from inv obtain xs where rel: "heap_rel (hs_heap s) xs"
    and disj: "hole_bytes xs \<inter> hole_bytes (heap_out s) = {}"
    and range: "hole_bytes xs \<union> hole_bytes (heap_out s)
      \<subseteq> {KERNEL_HEAP_BASE..<KERNEL_HEAP_BASE + hl_mapped (hs_heap s)}"
    by (auto simp: heap_inv_def)
  from heap_out_split_claim [OF c] obtain us vs where out: "heap_out s = us @ claim_span c # vs"
    and rest: "\<And>h'. heap_out (s\<lparr>hs_heap := h', hs_claims := remove1 c (hs_claims s)\<rparr>) = us @ vs"
    by metis
  show ?thesis
  proof (cases "cl_bytes c = 0")
    case True
    with le have "heap_add_region (cl_start c) mapped (hs_heap s) = Some (hs_heap s)"
      by (simp add: heap_add_region_def MIN_BLOCK_def)
    moreover have "heap_inv (s\<lparr>hs_heap := hs_heap s, hs_claims := remove1 c (hs_claims s)\<rparr>)"
      using inv rel disj range True
      by (auto simp: heap_inv_def rest [of "hs_heap s", simplified] out claim_span_def spans_apart_mid)
    ultimately show ?thesis by (rule that)
  next
    case False
    have sub: "{cl_start c..<cl_start c + mapped} \<subseteq> hole_bytes (heap_out s)"
      using le by (auto simp: out claim_span_def)
    with disj have fresh: "{cl_start c..<cl_start c + mapped} \<inter> hole_bytes xs = {}" by auto
    have "cl_start c \<in> hole_bytes (heap_out s)" using False by (simp add: out claim_span_def)
    then have pos: "0 < cl_start c" using range by (auto simp: KERNEL_HEAP_BASE_def)
    from heap_add_region_rel [OF rel pos fresh] obtain h' ys k where h':
      "heap_add_region (cl_start c) mapped (hs_heap s) = Some h'" "heap_rel h' ys"
      "hole_bytes ys = hole_bytes xs \<union> {cl_start c..<cl_start c + k}" "k = (if mapped < MIN_BLOCK then 0 else mapped)"
      "hl_total h' + hl_free (hs_heap s) = hl_total (hs_heap s) + hl_free h'"
      "hl_mapped h' = hl_mapped (hs_heap s)" .
    have k: "{cl_start c..<cl_start c + k} \<subseteq> {cl_start c..<cl_start c + cl_bytes c}"
      using h'(4) le by auto
    have apart: "{cl_start c..<cl_start c + cl_bytes c} \<inter> hole_bytes (us @ vs) = {}"
      "spans_apart (us @ vs)"
      using inv by (auto simp: heap_inv_def out claim_span_def spans_apart_mid)
    have all: "hole_bytes (heap_out s)
        = hole_bytes (us @ vs) \<union> {cl_start c..<cl_start c + cl_bytes c}"
      by (auto simp: out claim_span_def)
    have "hole_bytes ys \<inter> hole_bytes (us @ vs) = {}" using h'(3) k apart(1) disj all by blast
    moreover have "hole_bytes ys \<union> hole_bytes (us @ vs)
        \<subseteq> {KERNEL_HEAP_BASE..<KERNEL_HEAP_BASE + hl_mapped h'}"
      using h'(3) k range all unfolding h'(6) by blast
    ultimately have "heap_inv (s\<lparr>hs_heap := h', hs_claims := remove1 c (hs_claims s)\<rparr>)"
      using inv h'(2,5,6) apart(2) by (auto simp: heap_inv_def rest)
    with h'(1) show ?thesis by (rule that)
  qed
qed




lemma heap_init_inv:
  obtains h where "heap_init = Some h" "heap_inv \<lparr>hs_heap = h, hs_live = [], hs_claims = []\<rparr>"
    "hl_total h = KERNEL_HEAP_SIZE" "hl_free h = KERNEL_HEAP_SIZE" "hl_mapped h = KERNEL_HEAP_SIZE"
proof -
  let ?h = "heap_new\<lparr>hl_mapped := KERNEL_HEAP_SIZE, hl_total := KERNEL_HEAP_SIZE\<rparr>"
  have rel: "heap_rel ?h []" by (simp add: heap_rel_def heap_new_def)
  have b: "0 < KERNEL_HEAP_BASE" and n: "MIN_BLOCK \<le> KERNEL_HEAP_SIZE"
    by (simp_all add: KERNEL_HEAP_BASE_def MIN_BLOCK_def KERNEL_HEAP_SIZE_def)
  have fresh: "{KERNEL_HEAP_BASE..<KERNEL_HEAP_BASE + KERNEL_HEAP_SIZE} \<inter> hole_bytes [] = {}" by simp
  from heap_insert_rel [OF rel b n fresh] obtain h ys where h:
    "heap_insert KERNEL_HEAP_BASE KERNEL_HEAP_SIZE ?h = Some h" "heap_rel h ys"
    "hole_bytes ys = hole_bytes [] \<union> {KERNEL_HEAP_BASE..<KERNEL_HEAP_BASE + KERNEL_HEAP_SIZE}"
    "hl_total h = hl_total ?h" "hl_mapped h = hl_mapped ?h" "hl_free h = hl_free ?h + KERNEL_HEAP_SIZE" .
  have "heap_new\<lparr>hl_mapped := KERNEL_HEAP_SIZE\<rparr>\<lparr>hl_total := hl_total (heap_new\<lparr>hl_mapped := KERNEL_HEAP_SIZE\<rparr>) + KERNEL_HEAP_SIZE\<rparr> = ?h"
    by (simp add: heap_new_def)
  then have "heap_init = Some (publish_margin h)"
    using h(1) n by (simp add: heap_init_def heap_add_region_def)
  moreover have "heap_inv \<lparr>hs_heap = publish_margin h, hs_live = [], hs_claims = []\<rparr>"
    using h(2-6) by (auto simp: heap_inv_def heap_out_def heap_new_def KERNEL_HEAP_SIZE_def KERNEL_HEAP_MAX_def)
  ultimately show ?thesis using that h(4-6) by (simp add: heap_new_def)
qed




section \<open>Properties\<close>


text \<open>
  Functional: \<open>HoleList::alloc\<close> always returns.  A block it hands out is aligned for the
  layout, lies in bytes that were free, and exactly its normalised size leaves the free list,
  which stays sorted, apart and coalesced; a null answer changes nothing and is given only when
  no hole fits.
\<close>

theorem heap_alloc_spec:
  assumes "heap_rel h xs" and "heap_normalize lsize (2 ^ k) = (sz, align)"
  shows "\<exists>p h'. heap_alloc lsize (2 ^ k) h = Some (p, h')
    \<and> (if p = 0 then h' = h \<and> (\<forall>(a, s) \<in> set xs. \<not> hole_fits a s sz align)
       else \<exists>ys. heap_rel h' ys \<and> p mod 2 ^ k = 0 \<and> lsize \<le> sz
         \<and> {p..<p + sz} \<subseteq> hole_bytes xs \<and> hole_bytes ys = hole_bytes xs - {p..<p + sz}
         \<and> hl_free h = hl_free h' + sz)"
proof -
  note b = heap_normalize_props [OF assms(2)]
  have "align = max (2 ^ k) (2 ^ 4)"
    using assms(2) by (simp add: heap_normalize_def MIN_BLOCK_def)
  also have "\<dots> = 2 ^ max k 4" by (simp add: max_def power_increasing_iff del: power_numeral)
  finally have dvd: "2 ^ k dvd align" by (simp add: le_imp_power_dvd)
  from heap_alloc_rel [OF assms b(3) b(1)] show ?thesis
  proof (elim disjE exE conjE)
    assume "heap_alloc lsize (2 ^ k) h = Some (0, h)" "\<forall>(a, s) \<in> set xs. \<not> hole_fits a s sz align"
    then show ?thesis by (intro exI [of _ 0] exI [of _ h]) simp
  next
    fix p h' ys
    assume *: "heap_alloc lsize (2 ^ k) h = Some (p, h')" "heap_rel h' ys" "0 < p" "p mod align = 0"
      "{p..<p + sz} \<subseteq> hole_bytes xs" "hole_bytes ys = hole_bytes xs - {p..<p + sz}"
      "hl_free h = hl_free h' + sz"
    then have "p mod 2 ^ k = 0" using dvd by (meson dvd_trans mod_0_imp_dvd mod_eq_0_iff_dvd)
    with * b(2) show ?thesis by (intro exI [of _ p] exI [of _ h']) auto
  qed
qed

text \<open>
  Giving back a block that was just allocated puts the free list back exactly as
  it was, so allocation and release never fragment the heap by themselves.
\<close>

theorem heap_alloc_dealloc_restores:
  assumes "heap_rel h xs" and "heap_alloc lsize lalign h = Some (p, h')" and "p \<noteq> 0"
  shows "\<exists>h''. heap_dealloc p lsize lalign h' = Some h'' \<and> heap_rel h'' xs"
proof -
  obtain sz align where nrm: "heap_normalize lsize lalign = (sz, align)" by fastforce
  note b = heap_normalize_props [OF nrm]
  from heap_alloc_rel [OF assms(1) nrm b(3) b(1)] assms(2,3) obtain ys where ys: "heap_rel h' ys"
    "{p..<p + sz} \<subseteq> hole_bytes xs" "hole_bytes ys = hole_bytes xs - {p..<p + sz}" by auto
  have fresh: "{p..<p + sz} \<inter> hole_bytes ys = {}" using ys(3) by blast
  have p: "0 < p" using assms(3) by simp
  from heap_insert_rel [OF ys(1) p b(1) fresh] obtain h'' zs where z:
    "heap_insert p sz h' = Some h''" "heap_rel h'' zs" "hole_bytes zs = hole_bytes ys \<union> {p..<p + sz}" .
  have "hole_bytes zs = hole_bytes xs" using z(3) ys(2,3) by blast
  then have "zs = xs" using holes_unique z(2) assms(1) unfolding heap_rel_def by blast
  with z show ?thesis by (simp add: heap_dealloc_def nrm)
qed

definition example_heap :: hole_list where
  "example_heap = \<lparr>hl_store = (\<lambda>_. \<lparr>h_size = 64, h_next = 0\<rparr>), hl_head = 4096, hl_free = 64,
     hl_total = 64, hl_mapped = 4096, hl_below = False\<rparr>"

lemma example_heap_rel: "heap_rel example_heap [(4096, 64)]"
  by (simp add: heap_rel_def example_heap_def holes_wf_Cons MIN_BLOCK_def)

lemma example_normalize: "heap_normalize 10 (2 ^ 3) = (16, 16)"
  by (simp add: heap_normalize_def MIN_BLOCK_def align_up_def)

lemma example_heap_alloc: "\<exists>h'. heap_alloc 10 (2 ^ 3) example_heap = Some (4096, h')"
proof -
  have fits: "hole_fits 4096 64 16 16"
    by (simp add: hole_fits_def align_up_def MIN_BLOCK_def)
  have "\<exists>h'. heap_alloc 10 8 example_heap = Some (4096, h')"
    using example_normalize fits
    by (simp add: heap_alloc_def alloc_walk.simps [of _ 16 16 0 4096] example_heap_def
        insert_walk.simps [of _ 4112 0 0] heap_insert_if_def heap_insert_def Let_def align_up_def)
  then show ?thesis by simp
qed

theorem heap_alloc_spec_witness:
  "heap_rel example_heap [(4096, 64)] \<and> heap_normalize 10 (2 ^ 3) = (16, 16)
   \<and> (\<exists>h' ys. heap_alloc 10 (2 ^ 3) example_heap = Some (4096, h') \<and> heap_rel h' ys
        \<and> hole_bytes ys = hole_bytes [(4096, 64)] - {4096..<4096 + 16})"
  using heap_alloc_spec [OF example_heap_rel example_normalize] example_heap_rel example_normalize
    example_heap_alloc by auto

theorem heap_alloc_dealloc_restores_witness:
  "\<exists>h' h''. heap_alloc 10 (2 ^ 3) example_heap = Some (4096, h')
     \<and> heap_dealloc 4096 10 (2 ^ 3) h' = Some h'' \<and> heap_rel h'' [(4096, 64)]"
proof -
  obtain h' where h': "heap_alloc 10 (2 ^ 3) example_heap = Some (4096, h')"
    using example_heap_alloc by blast
  from heap_alloc_dealloc_restores [OF example_heap_rel h'] h' show ?thesis
    by (metis zero_neq_numeral)
qed


text \<open>
  \<open>LockedHeap::alloc\<close> always returns, and what it does is a sequence of the
  sections above, whatever the spare memory and however little of its claim gets pages; a block
  it returns is out from then on, and no other block comes or goes.
\<close>

theorem locked_alloc_is_sections:
  assumes inv: "heap_inv s" and pages: "\<And>c. map_claim c \<le> cl_bytes c"
  shows "\<exists>p h'. locked_alloc spare map_claim lsize lalign (hs_heap s) = Some (p, h')
    \<and> heap_step\<^sup>*\<^sup>* s (s\<lparr>hs_heap := h',
        hs_live := (if p = 0 then hs_live s else (p, lsize, lalign) # hs_live s)\<rparr>)"
proof -
  have total: "\<exists>p h'. heap_alloc lsize lalign (hs_heap t) = Some (p, h')" if "heap_inv t" for t
  proof -
    obtain sz align where nrm: "heap_normalize lsize lalign = (sz, align)" by fastforce
    from that obtain xs where "heap_rel (hs_heap t) xs" by (auto simp: heap_inv_def)
    from heap_alloc_rel [OF this nrm heap_normalize_props(3,1) [OF nrm]] show ?thesis by blast
  qed
  from total [OF inv] obtain p h1 where al: "heap_alloc lsize lalign (hs_heap s) = Some (p, h1)" by blast
  show ?thesis
  proof (cases "p = 0")
    case False
    with al section_alloc [OF al] show ?thesis by (auto simp: locked_alloc_def)
  next
    case True
    with heap_inv_alloc(2) [OF inv al] have h1: "h1 = hs_heap s" by simp
    show ?thesis
    proof (cases "claim spare lsize HEAP_CHUNK (hs_heap s)")
      case None
      with al True h1 show ?thesis by (simp add: locked_alloc_def)
    next
      case (Some ch)
      obtain c h2 where cl: "claim spare lsize HEAP_CHUNK (hs_heap s) = Some (c, h2)"
        using Some by (cases ch) simp
      let ?s2 = "s\<lparr>hs_heap := h2, hs_claims := c # hs_claims s\<rparr>"
      have inv2: "heap_inv ?s2" and step2: "heap_step s ?s2"
        using heap_inv_claim [OF inv cl] section_claim [OF cl] by auto
      have c: "c \<in> set (hs_claims ?s2)" by simp
      from heap_inv_add [OF inv2 c pages] obtain h3 where h3:
        "heap_add_region (cl_start c) (map_claim c) h2 = Some h3"
        "heap_inv (s\<lparr>hs_heap := h3\<rparr>)" by auto
      have step3: "heap_step ?s2 (s\<lparr>hs_heap := h3\<rparr>)"
        using section_add [OF c pages, of h3] h3(1) by simp
      from total [OF h3(2)] obtain q h4 where q: "heap_alloc lsize lalign h3 = Some (q, h4)" by auto
      show ?thesis
      proof (cases "map_claim c = 0")
        case True
        then have "h3 = h2" using h3(1) by (simp add: heap_add_region_def MIN_BLOCK_def)
        with True al h1 cl step2 step3 \<open>p = 0\<close> show ?thesis by (auto simp: locked_alloc_def)
      next
        case False
        have res: "locked_alloc spare map_claim lsize lalign (hs_heap s) = Some (q, publish_margin h4)"
          using al h1 cl h3(1) q False \<open>p = 0\<close> by (simp add: locked_alloc_def)
        have "heap_step\<^sup>*\<^sup>* (s\<lparr>hs_heap := h3\<rparr>) (s\<lparr>hs_heap := publish_margin h4,
            hs_live := (if q = 0 then hs_live s else (q, lsize, lalign) # hs_live s)\<rparr>)"
        proof (cases "q = 0")
          case True
          have "heap_step (s\<lparr>hs_heap := h3\<rparr>) (s\<lparr>hs_heap := h4\<rparr>)"
            using section_alloc_none [of lsize lalign "s\<lparr>hs_heap := h3\<rparr>" h4] q True by simp
          moreover have "heap_step (s\<lparr>hs_heap := h4\<rparr>) (s\<lparr>hs_heap := publish_margin h4\<rparr>)"
            using section_margin [of "s\<lparr>hs_heap := h4\<rparr>"] by simp
          ultimately show ?thesis using True by simp
        next
          case False
          with section_alloc [of lsize lalign "s\<lparr>hs_heap := h3\<rparr>" q h4] q show ?thesis by auto
        qed
        with step2 step3 res show ?thesis by (meson converse_rtranclp_into_rtranclp)
      qed
    qed
  qed
qed

theorem locked_alloc_is_sections_witness:
  "\<exists>h0. heap_init = Some h0 \<and> heap_inv \<lparr>hs_heap = h0, hs_live = [], hs_claims = []\<rparr>
     \<and> (\<exists>p h'. locked_alloc 0 (\<lambda>_. 0) 10 8 h0 = Some (p, h')
         \<and> heap_step\<^sup>*\<^sup>* \<lparr>hs_heap = h0, hs_live = [], hs_claims = []\<rparr>
             \<lparr>hs_heap = h', hs_live = (if p = 0 then [] else [(p, 10, 8)]), hs_claims = []\<rparr>)"
proof -
  obtain h0 where h0: "heap_init = Some h0" "heap_inv \<lparr>hs_heap = h0, hs_live = [], hs_claims = []\<rparr>"
    by (rule heap_init_inv)
  from locked_alloc_is_sections [OF h0(2), of "\<lambda>_. 0" 0 10 8] obtain p h' where
    "locked_alloc 0 (\<lambda>_. 0) 10 8 h0 = Some (p, h')"
    "heap_step\<^sup>*\<^sup>* \<lparr>hs_heap = h0, hs_live = [], hs_claims = []\<rparr>
       \<lparr>hs_heap = h', hs_live = (if p = 0 then [] else [(p, 10, 8)]), hs_claims = []\<rparr>"
    by (auto cong: if_cong)
  with h0 show ?thesis by blast
qed

end
