(* ===== verification/Page_Walk.thy ===== *)
theory Page_Walk
  imports Prelude
begin

text \<open>
  \<open>kernel/src/mm/walk.rs\<close>: the walk of a four-level translation table and every change to one.
  Physical memory is a map from the address of a table and an index to a descriptor.  What a
  machine supplies is the record \<open>machine\<close>, the \<open>Machine\<close> trait less its effects: frames and
  reference counts are explicit state, and the flushes and releases an operation asks for are
  recorded in the order they are made.  The locale \<open>paging_machine\<close> is the contract of the trait;
  \<open>Paging\<close> discharges it for both machines.
\<close>

section \<open>Definitions\<close>

definition ENTRIES :: nat where "ENTRIES = 512"
definition DEPTH :: nat where "DEPTH = 3"
definition PAGE_BITS :: nat where "PAGE_BITS = 12"
definition LEVEL_BITS :: nat where "LEVEL_BITS = 9"
definition SPAN :: u64 where "SPAN = push_bit (PAGE_BITS + LEVEL_BITS * 4) 1"

definition index_of :: "u64 \<Rightarrow> nat \<Rightarrow> nat" where
  "index_of virt level = unat (drop_bit (PAGE_BITS + LEVEL_BITS * level) virt AND 0x1FF)"

definition level_size :: "nat \<Rightarrow> u64" where
  "level_size level = push_bit (PAGE_BITS + LEVEL_BITS * level) 1"

record machine =
  mach_leaf :: "u64 \<Rightarrow> u64 \<Rightarrow> u64"
  mach_table :: "u64 \<Rightarrow> u64 \<Rightarrow> u64"
  mach_present :: "u64 \<Rightarrow> bool"
  mach_ends_walk :: "u64 \<Rightarrow> nat \<Rightarrow> bool"
  mach_addr :: "u64 \<Rightarrow> u64"
  mach_flags :: "u64 \<Rightarrow> u64"
  mach_shared :: "u64 \<Rightarrow> u64 option"
  mach_widen :: "u64 \<Rightarrow> u64 \<Rightarrow> u64 option"

type_synonym pmem = "u64 \<Rightarrow> nat \<Rightarrow> u64"

subsection \<open>Translations left behind\<close>

datatype tlb = Clean | Page u64 | All

definition tlb_note :: "u64 \<Rightarrow> tlb \<Rightarrow> tlb" where
  "tlb_note virt t =
     (case t of
        Clean \<Rightarrow> Page virt
      | Page already \<Rightarrow> if already = virt then Page virt else All
      | All \<Rightarrow> All)"

definition tlb_note_all :: "tlb \<Rightarrow> tlb" where
  "tlb_note_all t = All"

definition tlb_is_clean :: "tlb \<Rightarrow> bool" where
  "tlb_is_clean t \<longleftrightarrow> (case t of Clean \<Rightarrow> True | _ \<Rightarrow> False)"

datatype effect = Flush_page u64 | Flush_all | Free_frame u64

definition tlb_flush :: "tlb \<Rightarrow> effect list \<times> tlb" where
  "tlb_flush t =
     (case t of
        Clean \<Rightarrow> ([], Clean)
      | Page virt \<Rightarrow> ([Flush_page virt], Clean)
      | All \<Rightarrow> ([Flush_all], Clean))"

subsection \<open>Frames for missing tables\<close>

type_synonym stock = "u64 list"

definition stock_push :: "u64 \<Rightarrow> stock \<Rightarrow> stock option" where
  "stock_push phys s = (if length s < DEPTH then Some (s @ [phys]) else None)"

definition stock_take :: "stock \<Rightarrow> (u64 \<times> stock) option" where
  "stock_take s = (if s = [] then None else Some (last s, butlast s))"

datatype refused = Occupied | ShortOfTables | Blocked

subsection \<open>Reading\<close>

definition pt_store :: "pmem \<Rightarrow> u64 \<Rightarrow> nat \<Rightarrow> u64 \<Rightarrow> pmem" where
  "pt_store m table index bits = m(table := (m table)(index := bits))"

definition pt_step :: "machine \<Rightarrow> pmem \<Rightarrow> u64 \<Rightarrow> nat \<Rightarrow> nat \<Rightarrow> u64 option" where
  "pt_step M m table index level =
     (let bits = m table index in
      if \<not> mach_present M bits \<or> mach_ends_walk M bits level then None
      else Some (mach_addr M bits))"

definition leaf_table :: "machine \<Rightarrow> pmem \<Rightarrow> u64 \<Rightarrow> u64 \<Rightarrow> u64 option" where
  "leaf_table M m root virt =
     fold (\<lambda>level t. Option.bind t (\<lambda>table. pt_step M m table (index_of virt level) level))
       [3, 2, 1] (Some root)"

fun missing_from :: "machine \<Rightarrow> pmem \<Rightarrow> u64 \<Rightarrow> nat list \<Rightarrow> u64 \<Rightarrow> nat" where
  "missing_from M m virt [] table = 0"
| "missing_from M m virt (level # levels) table =
     (case pt_step M m table (index_of virt level) level of
        Some nxt \<Rightarrow> missing_from M m virt levels nxt
      | None \<Rightarrow> level)"

definition missing_tables :: "machine \<Rightarrow> pmem \<Rightarrow> u64 \<Rightarrow> u64 \<Rightarrow> nat" where
  "missing_tables M m root virt = missing_from M m virt [3, 2, 1] root"

definition pt_leaf :: "machine \<Rightarrow> pmem \<Rightarrow> u64 \<Rightarrow> u64 \<Rightarrow> u64 option" where
  "pt_leaf M m root virt =
     (case leaf_table M m root virt of
        None \<Rightarrow> None
      | Some table \<Rightarrow>
          let bits = m table (index_of virt 0) in if mach_present M bits then Some bits else None)"

definition flags_of :: "machine \<Rightarrow> pmem \<Rightarrow> u64 \<Rightarrow> u64 \<Rightarrow> u64 option" where
  "flags_of M m root virt = map_option (mach_flags M) (pt_leaf M m root virt)"

fun translate_from :: "machine \<Rightarrow> pmem \<Rightarrow> u64 \<Rightarrow> nat list \<Rightarrow> u64 \<Rightarrow> u64 option" where
  "translate_from M m virt [] table =
     (let bits = m table (index_of virt 0) in
      if \<not> mach_present M bits then None
      else Some (mach_addr M bits OR (virt AND (level_size 0 - 1))))"
| "translate_from M m virt (level # levels) table =
     (let bits = m table (index_of virt level) in
      if \<not> mach_present M bits then None
      else if mach_ends_walk M bits level then
        let sz = level_size level in
        Some ((mach_addr M bits AND NOT (sz - 1)) OR (virt AND (sz - 1)))
      else translate_from M m virt levels (mach_addr M bits))"

definition translate :: "machine \<Rightarrow> pmem \<Rightarrow> u64 \<Rightarrow> u64 \<Rightarrow> u64 option" where
  "translate M m root virt = translate_from M m virt [3, 2, 1] root"

fun walk_of_from :: "machine \<Rightarrow> pmem \<Rightarrow> u64 \<Rightarrow> nat list \<Rightarrow> u64 \<Rightarrow> (nat \<times> nat \<times> u64) list" where
  "walk_of_from M m virt [] table = []"
| "walk_of_from M m virt (level # levels) table =
     (let index = index_of virt level; bits = m table index in
      (level, index, bits) #
        (if \<not> mach_present M bits \<or> level = 0 \<or> mach_ends_walk M bits level then []
         else walk_of_from M m virt levels (mach_addr M bits)))"

definition walk_of :: "machine \<Rightarrow> pmem \<Rightarrow> u64 \<Rightarrow> u64 \<Rightarrow> (nat \<times> nat \<times> u64) list" where
  "walk_of M m root virt = walk_of_from M m virt [3, 2, 1, 0] root"

subsection \<open>Changing\<close>

fun creating_from ::
  "machine \<Rightarrow> u64 \<Rightarrow> u64 \<Rightarrow> nat list \<Rightarrow> u64 \<Rightarrow> pmem \<Rightarrow> stock \<Rightarrow> (refused + u64) \<times> pmem \<times> stock" where
  "creating_from M virt flg [] table m stk = (Inr table, m, stk)"
| "creating_from M virt flg (level # levels) table m stk =
     (let index = index_of virt level; bits = m table index in
      if \<not> mach_present M bits then
        (case stock_take stk of
           None \<Rightarrow> (Inl ShortOfTables, m, stk)
         | Some (fresh, stk') \<Rightarrow>
             creating_from M virt flg levels fresh
               (pt_store m table index (mach_table M fresh flg)) stk')
      else if mach_ends_walk M bits level then (Inl Blocked, m, stk)
      else
        (let m' = (case mach_widen M bits flg of
                     Some wider \<Rightarrow> pt_store m table index wider
                   | None \<Rightarrow> m)
         in creating_from M virt flg levels (mach_addr M bits) m' stk))"

definition leaf_table_creating ::
  "machine \<Rightarrow> u64 \<Rightarrow> u64 \<Rightarrow> u64 \<Rightarrow> pmem \<Rightarrow> stock \<Rightarrow> (refused + u64) \<times> pmem \<times> stock" where
  "leaf_table_creating M root virt flg m stk = creating_from M virt flg [3, 2, 1] root m stk"

definition publish ::
  "machine \<Rightarrow> u64 \<Rightarrow> u64 \<Rightarrow> u64 \<Rightarrow> u64 \<Rightarrow> pmem \<Rightarrow> stock \<Rightarrow> tlb
     \<Rightarrow> (refused + unit) \<times> pmem \<times> stock \<times> tlb" where
  "publish M root virt phys flags m stk t =
     (case leaf_table_creating M root virt flags m stk of
        (Inl e, m', stk') \<Rightarrow> (Inl e, m', stk', t)
      | (Inr table, m', stk') \<Rightarrow>
          (let index = index_of virt 0 in
           if mach_present M (m' table index) then (Inl Occupied, m', stk', t)
           else (Inr (), pt_store m' table index (mach_leaf M phys flags), stk', tlb_note virt t)))"

definition replace ::
  "machine \<Rightarrow> u64 \<Rightarrow> u64 \<Rightarrow> u64 \<Rightarrow> u64 \<Rightarrow> pmem \<Rightarrow> tlb \<Rightarrow> u64 option \<times> pmem \<times> tlb" where
  "replace M root virt phys flags m t =
     (case leaf_table M m root virt of
        None \<Rightarrow> (None, m, t)
      | Some table \<Rightarrow>
          (let index = index_of virt 0; old = m table index in
           if \<not> mach_present M old then (None, m, t)
           else (Some (mach_addr M old), pt_store m table index (mach_leaf M phys flags),
                 tlb_note virt t)))"

definition protect ::
  "machine \<Rightarrow> u64 \<Rightarrow> u64 \<Rightarrow> u64 \<Rightarrow> pmem \<Rightarrow> tlb \<Rightarrow> u64 option \<times> pmem \<times> tlb" where
  "protect M root virt flags m t =
     (case leaf_table M m root virt of
        None \<Rightarrow> (None, m, t)
      | Some table \<Rightarrow>
          (let index = index_of virt 0; old = m table index in
           if \<not> mach_present M old then (None, m, t)
           else let phys = mach_addr M old in
             (Some phys, pt_store m table index (mach_leaf M phys flags), tlb_note virt t)))"

definition table_is_empty :: "machine \<Rightarrow> pmem \<Rightarrow> u64 \<Rightarrow> nat \<Rightarrow> bool" where
  "table_is_empty M m phys cleared \<longleftrightarrow>
     list_all (\<lambda>stp. \<not> mach_present M (m phys ((cleared + stp) mod ENTRIES))) [1..<ENTRIES + 1]"

text \<open>
  The walk of \<open>reclaim\<close> to the parent of the table it looks at, then one turn of its loop:
  \<open>None\<close> is the panic of a full stock, and the flag says whether the loop goes on.
\<close>

definition reclaim_parent :: "machine \<Rightarrow> u64 \<Rightarrow> u64 \<Rightarrow> nat \<Rightarrow> pmem \<Rightarrow> u64 option" where
  "reclaim_parent M root virt level m =
     fold (\<lambda>above t. Option.bind t (\<lambda>table. pt_step M m table (index_of virt above) above))
       (rev [level + 1..<4]) (Some root)"

definition reclaim_turn ::
  "machine \<Rightarrow> (u64 \<Rightarrow> nat) \<Rightarrow> u64 \<Rightarrow> u64 \<Rightarrow> nat \<Rightarrow> pmem \<times> tlb \<times> stock
     \<Rightarrow> (bool \<times> pmem \<times> tlb \<times> stock) option" where
  "reclaim_turn M refs root virt level st =
     (case st of (m, t, rec) \<Rightarrow>
      case reclaim_parent M root virt level m of
        None \<Rightarrow> Some (False, m, t, rec)
      | Some parent \<Rightarrow>
          (let index = index_of virt level; bits = m parent index in
           if \<not> mach_present M bits \<or> mach_ends_walk M bits level then Some (False, m, t, rec)
           else
             (let table = mach_addr M bits in
              if \<not> table_is_empty M m table (index_of virt (level - 1)) \<or> refs table \<noteq> 1
              then Some (False, m, t, rec)
              else
                (case stock_push table rec of
                   None \<Rightarrow> None
                 | Some rec' \<Rightarrow> Some (True, pt_store m parent index 0, tlb_note_all t, rec')))))"

fun reclaim_from ::
  "machine \<Rightarrow> (u64 \<Rightarrow> nat) \<Rightarrow> u64 \<Rightarrow> u64 \<Rightarrow> nat list \<Rightarrow> pmem \<times> tlb \<times> stock
     \<Rightarrow> (pmem \<times> tlb \<times> stock) option" where
  "reclaim_from M refs root virt [] st = Some st"
| "reclaim_from M refs root virt (level # levels) st =
     (case reclaim_turn M refs root virt level st of
        None \<Rightarrow> None
      | Some (False, st') \<Rightarrow> Some st'
      | Some (True, st') \<Rightarrow> reclaim_from M refs root virt levels st')"

definition reclaim ::
  "machine \<Rightarrow> (u64 \<Rightarrow> nat) \<Rightarrow> u64 \<Rightarrow> u64 \<Rightarrow> pmem \<times> tlb \<times> stock \<Rightarrow> (pmem \<times> tlb \<times> stock) option" where
  "reclaim M refs root virt st = reclaim_from M refs root virt [1, 2, 3] st"

definition unmap ::
  "machine \<Rightarrow> (u64 \<Rightarrow> nat) \<Rightarrow> u64 \<Rightarrow> u64 \<Rightarrow> pmem \<Rightarrow> tlb \<Rightarrow> stock
     \<Rightarrow> (u64 option \<times> pmem \<times> tlb \<times> stock) option" where
  "unmap M refs root virt m t rec =
     (case leaf_table M m root virt of
        None \<Rightarrow> Some (None, m, t, rec)
      | Some table \<Rightarrow>
          (let index = index_of virt 0; old = m table index in
           if \<not> mach_present M old then Some (None, m, t, rec)
           else map_option (\<lambda>st. (Some (mach_addr M old), st))
             (reclaim M refs root virt (pt_store m table index 0, tlb_note virt t, rec))))"

subsection \<open>Driving a walk from outside\<close>

fun descend :: "machine \<Rightarrow> pmem \<Rightarrow> u64 \<Rightarrow> nat list \<Rightarrow> u64 \<Rightarrow> nat + u64" where
  "descend M m virt [] table = Inr table"
| "descend M m virt (level # levels) table =
     (case pt_step M m table (index_of virt level) level of
        Some nxt \<Rightarrow> descend M m virt levels nxt
      | None \<Rightarrow> Inl level)"

text \<open>The loop of \<open>next_populated\<close>, over addresses as numbers: \<open>virt & !(size - 1)\<close> is
  \<open>align_down\<close>.\<close>

function next_scan :: "machine \<Rightarrow> pmem \<Rightarrow> u64 \<Rightarrow> nat \<Rightarrow> nat \<Rightarrow> nat option" where
  "next_scan M m root limit virt =
     (if \<not> virt < limit then None
      else case descend M m (word_of_nat virt) [3, 2, 1] root of
        Inr _ \<Rightarrow> Some virt
      | Inl level \<Rightarrow>
          (let sz = 2 ^ (PAGE_BITS + LEVEL_BITS * level) in
           case checked_add U64_MAX (align_down virt sz) sz of
             Some nxt \<Rightarrow> next_scan M m root limit nxt
           | None \<Rightarrow> None))"
  by pat_completeness auto

lemma align_down_next: "0 < a \<Longrightarrow> v < align_down v a + a"
  by (simp add: align_down_def) (metis div_mult_mod_eq mod_less_divisor nat_add_left_cancel_less)

termination next_scan
proof (relation "measure (\<lambda>(M, m, root, limit, virt). limit - virt)", goal_cases)
  case 1
  show ?case by simp
next
  case (2 M m root limit virt level sz nxt)
  then have "nxt = align_down virt sz + sz" by (simp add: checked_add_def split: if_splits)
  moreover have "0 < sz" using 2(3) by simp
  ultimately have "virt < nxt" using align_down_next [of sz virt] by simp
  with 2(1) show ?case by simp
qed

declare next_scan.simps [simp del]

definition next_populated :: "machine \<Rightarrow> pmem \<Rightarrow> u64 \<Rightarrow> nat \<Rightarrow> nat \<Rightarrow> nat option" where
  "next_populated M m root start limit =
     next_scan M m root (min limit (2 ^ (PAGE_BITS + LEVEL_BITS * 4)))
       (align_down start (2 ^ (PAGE_BITS + LEVEL_BITS * 1)))"

subsection \<open>Forking and tearing down\<close>

text \<open>\<open>refs\<close> are the reference counts of \<open>Machine::references\<close>; \<open>share\<close> and \<open>free\<close> move them.\<close>

definition share_from ::
  "machine \<Rightarrow> u64 \<Rightarrow> u64 \<Rightarrow> u64 \<Rightarrow> pmem \<Rightarrow> (u64 \<Rightarrow> nat) \<Rightarrow> stock \<Rightarrow> tlb
     \<Rightarrow> (refused + unit) \<times> pmem \<times> (u64 \<Rightarrow> nat) \<times> stock \<times> tlb" where
  "share_from M root parent virt m refs stk t =
     (case leaf_table M m parent virt of
        None \<Rightarrow> (Inr (), m, refs, stk, t)
      | Some table \<Rightarrow>
          (let index = index_of virt 0; bits = m table index in
           if \<not> mach_present M bits then (Inr (), m, refs, stk, t)
           else
             (let phys = mach_addr M bits;
                  refs1 = refs(phys := refs phys + 1);
                  (flags, m1, t1) =
                    (case mach_shared M (mach_flags M bits) of
                       Some shared \<Rightarrow>
                         (shared, pt_store m table index (mach_leaf M phys shared), tlb_note virt t)
                     | None \<Rightarrow> (mach_flags M bits, m, t))
              in case publish M root virt phys flags m1 stk t1 of
                   (Inr _, m2, stk2, t2) \<Rightarrow> (Inr (), m2, refs1, stk2, t2)
                 | (Inl e, m2, stk2, t2) \<Rightarrow>
                     (Inl e, m2, refs1(phys := refs1 phys - 1), stk2, t2))))"

fun share_range ::
  "machine \<Rightarrow> u64 \<Rightarrow> u64 \<Rightarrow> u64 list \<Rightarrow> pmem \<Rightarrow> (u64 \<Rightarrow> nat) \<Rightarrow> stock \<Rightarrow> tlb
     \<Rightarrow> (refused + unit) \<times> pmem \<times> (u64 \<Rightarrow> nat) \<times> stock \<times> tlb" where
  "share_range M root parent [] m refs stk t = (Inr (), m, refs, stk, t)"
| "share_range M root parent (virt # virts) m refs stk t =
     (case share_from M root parent virt m refs stk t of
        (Inl e, r) \<Rightarrow> (Inl e, r)
      | (Inr _, m', refs', stk', t') \<Rightarrow> share_range M root parent virts m' refs' stk' t')"

definition share_pages :: "u64 \<Rightarrow> nat \<Rightarrow> u64 list" where
  "share_pages start n = map (\<lambda>index. start + word_of_nat index * level_size 0) [0..<n]"

primrec free_table :: "machine \<Rightarrow> nat \<Rightarrow> u64 \<Rightarrow> pmem \<times> effect list \<Rightarrow> pmem \<times> effect list" where
  "free_table M 0 phys st = st"
| "free_table M (Suc below) phys st =
     (let (m', ev') =
        fold (\<lambda>index (m, ev).
            let bits = m phys index in
            if \<not> mach_present M bits then (m, ev)
            else
              (let (m1, ev1) =
                 (if Suc below = 1 \<or> mach_ends_walk M bits (Suc below)
                  then (m, ev @ [Free_frame (mach_addr M bits)])
                  else free_table M below (mach_addr M bits) (m, ev))
               in (pt_store m1 phys index 0, ev1)))
          [0..<ENTRIES] st
      in (m', ev' @ [Free_frame phys]))"

definition free_detach :: "machine \<Rightarrow> u64 \<Rightarrow> nat \<Rightarrow> pmem \<Rightarrow> pmem" where
  "free_detach M root n m =
     fold (\<lambda>index m. if mach_present M (m root index) then pt_store m root index 0 else m) [0..<n] m"

definition free_below :: "machine \<Rightarrow> u64 \<Rightarrow> u64 \<Rightarrow> pmem \<Rightarrow> pmem \<times> effect list" where
  "free_below M root limit m =
     (let n = min (unat (drop_bit (PAGE_BITS + LEVEL_BITS * 3) limit)) ENTRIES;
          detached = map (m root) [0..<n]
      in fold (\<lambda>bits st.
           if mach_present M bits \<and> \<not> mach_ends_walk M bits 3
           then free_table M 3 (mach_addr M bits) st else st)
         detached (free_detach M root n m, [Flush_all]))"

definition adopt_top :: "u64 \<Rightarrow> u64 \<Rightarrow> nat \<Rightarrow> nat \<Rightarrow> pmem \<Rightarrow> pmem" where
  "adopt_top root src lo hi m =
     fold (\<lambda>index m. let bits = m src index in if bits \<noteq> 0 then pt_store m root index bits else m)
       [lo..<hi] m"

section \<open>The contract of a machine\<close>

text \<open>A frame address a descriptor can hold.\<close>

definition frame_ok :: "machine \<Rightarrow> u64 \<Rightarrow> bool" where
  "frame_ok M p \<longleftrightarrow> mach_addr M p = p"

locale paging_machine =
  fixes M :: machine
  assumes zero_absent: "\<not> mach_present M 0"
    and table_present: "mach_present M (mach_table M p f)"
    and table_descends: "\<not> mach_ends_walk M (mach_table M p f) level"
    and table_addr: "frame_ok M p \<Longrightarrow> mach_addr M (mach_table M p f) = p"
    and leaf_present: "mach_present M f \<Longrightarrow> mach_present M (mach_leaf M p f)"
    and leaf_addr: "frame_ok M p \<Longrightarrow> mach_addr M (mach_leaf M p f) = p"
    and addr_ok: "frame_ok M (mach_addr M b)"
    and widen_same: "mach_present M b \<Longrightarrow> mach_widen M b f = Some b' \<Longrightarrow>
      mach_present M b' \<and> mach_addr M b' = mach_addr M b \<and> mach_ends_walk M b' level = mach_ends_walk M b level"
    and flags_present: "mach_present M (mach_flags M b) = mach_present M b"
    and shared_present: "mach_shared M f = Some f' \<Longrightarrow> mach_present M f' = mach_present M f"

section \<open>Paths through the tables\<close>

definition idx_ok :: "nat list \<Rightarrow> bool" where
  "idx_ok is \<longleftrightarrow> length is \<le> 3 \<and> list_all (\<lambda>i. i < ENTRIES) is"

text \<open>The table reached from the top through the descriptors of a path.\<close>

fun tbl_from :: "machine \<Rightarrow> pmem \<Rightarrow> u64 \<Rightarrow> nat \<Rightarrow> nat list \<Rightarrow> u64 option" where
  "tbl_from M m t level [] = Some t"
| "tbl_from M m t level (i # is) =
     (case pt_step M m t i level of None \<Rightarrow> None | Some u \<Rightarrow> tbl_from M m u (level - 1) is)"

definition tbl :: "machine \<Rightarrow> pmem \<Rightarrow> u64 \<Rightarrow> nat list \<Rightarrow> u64 option" where
  "tbl M m root is = tbl_from M m root 3 is"

definition table_path :: "u64 \<Rightarrow> nat list" where
  "table_path virt = [index_of virt 3, index_of virt 2, index_of virt 1]"

text \<open>Every table is reached by one path only.\<close>

definition walk_wf :: "machine \<Rightarrow> pmem \<Rightarrow> u64 \<Rightarrow> bool" where
  "walk_wf M m root \<longleftrightarrow>
     (\<forall>is js t. idx_ok is \<and> idx_ok js \<and> tbl M m root is = Some t \<and> tbl M m root js = Some t \<longrightarrow> is = js)"

definition unreached :: "machine \<Rightarrow> pmem \<Rightarrow> u64 \<Rightarrow> u64 \<Rightarrow> bool" where
  "unreached M m root t \<longleftrightarrow> (\<forall>is. idx_ok is \<longrightarrow> tbl M m root is \<noteq> Some t)"

text \<open>Frames that may become tables: empty, distinct, and not part of the hierarchy.\<close>

definition stock_ok :: "machine \<Rightarrow> pmem \<Rightarrow> u64 \<Rightarrow> stock \<Rightarrow> bool" where
  "stock_ok M m root stk \<longleftrightarrow>
     distinct stk \<and> (\<forall>f \<in> set stk. frame_ok M f \<and> unreached M m root f \<and> (\<forall>i. \<not> mach_present M (m f i)))"

lemma index_of_lt [simp]: "index_of virt level < ENTRIES"
proof -
  have "drop_bit (PAGE_BITS + LEVEL_BITS * level) virt AND 0x1FF \<le> (0x1FF :: u64)"
    by (rule word_and_le1)
  then have "unat (drop_bit (PAGE_BITS + LEVEL_BITS * level) virt AND (0x1FF :: u64)) \<le> unat (0x1FF :: u64)"
    by (simp add: word_le_nat_alt)
  then show ?thesis by (simp add: index_of_def ENTRIES_def)
qed

lemma table_path_ok [simp]: "idx_ok (table_path virt)"
  by (simp add: idx_ok_def table_path_def)

lemma leaf_table_tbl: "leaf_table M m root virt = tbl M m root (table_path virt)"
  by (simp add: leaf_table_def tbl_def table_path_def Option.bind_def split: option.splits)

lemma tbl_from_snoc:
  "tbl_from M m t level (is @ [i]) =
     (case tbl_from M m t level is of None \<Rightarrow> None | Some u \<Rightarrow> pt_step M m u i (level - length is))"
  by (induction "is" arbitrary: t level) (auto split: option.splits)

lemma tbl_snoc:
  "tbl M m root (is @ [i]) =
     (case tbl M m root is of None \<Rightarrow> None | Some u \<Rightarrow> pt_step M m u i (3 - length is))"
  by (simp add: tbl_def tbl_from_snoc)

lemma tbl_Nil [simp]: "tbl M m root [] = Some root"
  by (simp add: tbl_def)

lemma idx_ok_snoc: "idx_ok (is @ [i]) \<longleftrightarrow> idx_ok is \<and> length is < 3 \<and> i < ENTRIES"
  by (auto simp: idx_ok_def)

lemma pt_store_apply:
  "pt_store m t i b u j = (if u = t \<and> j = i then b else m u j)"
  by (simp add: pt_store_def)

text \<open>A store in the table of one path is seen only by the paths that go on from that descriptor.\<close>

lemma tbl_store_other:
  assumes wf: "walk_wf M m root" and p: "tbl M m root p = Some t" "idx_ok p"
    and q: "idx_ok q" "take (Suc (length p)) q \<noteq> p @ [i]"
  shows "tbl M (pt_store m t i b) root q = tbl M m root q"
  using q
proof (induction q rule: rev_induct)
  case Nil
  then show ?case by simp
next
  case (snoc j q)
  have q: "idx_ok q" using snoc.prems(1) by (simp add: idx_ok_snoc)
  have IH: "tbl M (pt_store m t i b) root q = tbl M m root q"
  proof (cases "length q < Suc (length p)")
    case True
    then have "take (Suc (length p)) q = q" by simp
    moreover have "q \<noteq> p @ [i]" using True by (auto dest: arg_cong [of _ _ length])
    ultimately show ?thesis using snoc.IH q by simp
  next
    case False
    then have "take (Suc (length p)) (q @ [j]) = take (Suc (length p)) q" by simp
    then show ?thesis using snoc.IH snoc.prems(2) q by simp
  qed
  show ?case
  proof (cases "tbl M m root q")
    case None
    with IH show ?thesis by (simp add: tbl_snoc)
  next
    case (Some u)
    have "\<not> (u = t \<and> j = i)"
    proof
      assume "u = t \<and> j = i"
      then have "q = p" using wf p q Some unfolding walk_wf_def by blast
      with \<open>u = t \<and> j = i\<close> snoc.prems(2) show False by simp
    qed
    then have "pt_store m t i b u j = m u j" by (auto simp: pt_store_apply)
    with IH Some show ?thesis by (simp add: tbl_snoc pt_step_def)
  qed
qed

lemma tbl_store_same:
  assumes wf: "walk_wf M m root" and p: "tbl M m root p = Some t" "idx_ok p"
    and same: "pt_step M (pt_store m t i b) t i (3 - length p) = pt_step M m t i (3 - length p)"
    and q: "idx_ok q"
  shows "tbl M (pt_store m t i b) root q = tbl M m root q"
  using q
proof (induction q rule: rev_induct)
  case Nil
  then show ?case by simp
next
  case (snoc j q)
  have q: "idx_ok q" using snoc.prems(1) by (simp add: idx_ok_snoc)
  show ?case
  proof (cases "tbl M m root q")
    case None
    with snoc.IH q show ?thesis by (simp add: tbl_snoc)
  next
    case (Some u)
    have "pt_step M (pt_store m t i b) u j (3 - length q) = pt_step M m u j (3 - length q)"
    proof (cases "u = t \<and> j = i")
      case True
      then have "q = p" using wf p q Some unfolding walk_wf_def by blast
      with True same show ?thesis by simp
    next
      case False
      then have "pt_store m t i b u j = m u j" by (auto simp: pt_store_apply)
      then show ?thesis by (simp add: pt_step_def)
    qed
    with snoc.IH q Some show ?thesis by (simp add: tbl_snoc)
  qed
qed

text \<open>The last-level descriptors, by path and index.\<close>

definition leaf_at :: "machine \<Rightarrow> pmem \<Rightarrow> u64 \<Rightarrow> nat list \<Rightarrow> nat \<Rightarrow> u64 option" where
  "leaf_at M m root q j =
     (case tbl M m root q of
        None \<Rightarrow> None
      | Some t \<Rightarrow> if mach_present M (m t j) then Some (m t j) else None)"

lemma pt_leaf_at: "pt_leaf M m root virt = leaf_at M m root (table_path virt) (index_of virt 0)"
  unfolding pt_leaf_def leaf_at_def leaf_table_tbl Let_def ..

definition same_leaves :: "machine \<Rightarrow> u64 \<Rightarrow> pmem \<Rightarrow> pmem \<Rightarrow> bool" where
  "same_leaves M root m m' \<longleftrightarrow>
     (\<forall>q j. idx_ok q \<and> length q = 3 \<and> j < ENTRIES \<longrightarrow> leaf_at M m' root q j = leaf_at M m root q j)"

text \<open>What a descent may do to the hierarchy: put tables of the stock in, and nothing else that shows.\<close>

definition grows :: "machine \<Rightarrow> u64 \<Rightarrow> pmem \<times> stock \<Rightarrow> pmem \<times> stock \<Rightarrow> bool" where
  "grows M root a b \<longleftrightarrow>
     (case (a, b) of ((m, stk), (m', stk')) \<Rightarrow>
        walk_wf M m' root \<and> stock_ok M m' root stk' \<and> set stk' \<subseteq> set stk
        \<and> same_leaves M root m m'
        \<and> (\<forall>q u. idx_ok q \<and> tbl M m root q = Some u \<longrightarrow> tbl M m' root q = Some u)
        \<and> (\<forall>u. unreached M m root u \<and> u \<notin> set stk \<longrightarrow> unreached M m' root u \<and> m' u = m u))"

lemma grows_refl: "walk_wf M m root \<Longrightarrow> stock_ok M m root stk \<Longrightarrow> grows M root (m, stk) (m, stk)"
  by (simp add: grows_def same_leaves_def)

lemma grows_trans:
  assumes "grows M root (m, stk) (m1, stk1)" "grows M root (m1, stk1) (m2, stk2)"
  shows "grows M root (m, stk) (m2, stk2)"
proof -
  have "unreached M m2 root u \<and> m2 u = m u" if "unreached M m root u" "u \<notin> set stk" for u
  proof -
    have "unreached M m1 root u \<and> m1 u = m u" "u \<notin> set stk1"
      using assms(1) that by (auto simp: grows_def)
    with assms(2) show ?thesis by (auto simp: grows_def)
  qed
  with assms show ?thesis unfolding grows_def same_leaves_def by auto
qed

lemma walk_wf_tbl_cong:
  assumes "\<And>q. idx_ok q \<Longrightarrow> tbl M m' root q = tbl M m root q" and "walk_wf M m root"
  shows "walk_wf M m' root"
  using assms by (auto simp: walk_wf_def)

lemma unreached_tbl_cong:
  assumes "\<And>q. idx_ok q \<Longrightarrow> tbl M m' root q = tbl M m root q"
  shows "unreached M m' root u = unreached M m root u"
  using assms by (auto simp: unreached_def)

lemma stock_ok_other:
  assumes "stock_ok M m root stk" and "\<And>u. unreached M m' root u = unreached M m root u"
    and "\<And>u. unreached M m root u \<Longrightarrow> m' u = m u"
  shows "stock_ok M m' root stk"
  using assms by (auto simp: stock_ok_def)

lemma unreachedD: "unreached M m root u \<Longrightarrow> idx_ok q \<Longrightarrow> tbl M m root q = Some t \<Longrightarrow> u \<noteq> t"
  by (auto simp: unreached_def)

lemma reached_store_other:
  "unreached M m root u \<Longrightarrow> idx_ok q \<Longrightarrow> tbl M m root q = Some t \<Longrightarrow> pt_store m t i b u = m u"
  by (auto simp: pt_store_def dest: unreachedD)

text \<open>Storing over a descriptor above the last level so that the walk goes on as before.\<close>

lemma grows_store_same:
  assumes wf: "walk_wf M m root" and stk: "stock_ok M m root stk"
    and p: "tbl M m root p = Some t" "idx_ok p" "length p < 3"
    and same: "pt_step M (pt_store m t i b) t i (3 - length p) = pt_step M m t i (3 - length p)"
  shows "grows M root (m, stk) (pt_store m t i b, stk)"
proof -
  let ?m = "pt_store m t i b"
  have eq: "tbl M ?m root q = tbl M m root q" if "idx_ok q" for q
    using tbl_store_same [OF wf p(1,2) same that] .
  have "leaf_at M ?m root q j = leaf_at M m root q j" if q: "idx_ok q" "length q = 3" for q j
  proof (cases "tbl M m root q")
    case (Some u)
    have "u \<noteq> t"
    proof
      assume "u = t"
      with wf p(1,2) q(1) Some have "q = p" by (auto simp: walk_wf_def)
      with q(2) p(3) show False by simp
    qed
    then show ?thesis by (simp add: leaf_at_def eq q Some pt_store_apply)
  qed (simp add: leaf_at_def eq q)
  moreover have "stock_ok M ?m root stk"
    using stk unreached_tbl_cong [of M ?m root m, OF eq] reached_store_other [OF _ p(2,1)]
    by (intro stock_ok_other [OF stk]) simp_all
  moreover have "pt_store m t i b u = m u" if "unreached M m root u" for u
    using reached_store_other [OF that p(2,1)] .
  ultimately show ?thesis
    using walk_wf_tbl_cong [OF eq wf] unreached_tbl_cong [OF eq]
    by (simp add: grows_def same_leaves_def eq)
qed

context paging_machine
begin

lemma empty_table_stops:
  "(\<And>i. \<not> mach_present M (m f i)) \<Longrightarrow> pt_step M m f i level = None"
  by (simp add: pt_step_def)

text \<open>What the hierarchy is once a missing table was put in.\<close>

lemma tbl_store_fresh:
  assumes wf: "walk_wf M m root" and p: "tbl M m root p = Some t" "idx_ok p" "length p < 3" "i < ENTRIES"
    and absent: "\<not> mach_present M (m t i)"
    and f: "frame_ok M f" "unreached M m root f" "\<And>j. \<not> mach_present M (m f j)"
    and q: "idx_ok q"
  shows "tbl M (pt_store m t i (mach_table M f g)) root q =
    (if q = p @ [i] then Some f else tbl M m root q)"
proof -
  let ?m = "pt_store m t i (mach_table M f g)"
  have ft: "f \<noteq> t" using unreachedD [OF f(2) p(2,1)] .
  have tp: "tbl M ?m root p = Some t"
    using tbl_store_other [OF wf p(1,2) p(2), of i] p(1) by simp
  have step: "pt_step M ?m t i level = Some f" for level
    by (simp add: pt_step_def pt_store_apply table_present table_descends table_addr f(1))
  have new: "tbl M ?m root (p @ [i]) = Some f"
    by (simp add: tbl_snoc tp step)
  have none: "tbl M m root (p @ i # r) = None" for r
  proof (induction r rule: rev_induct)
    case Nil
    show ?case by (simp add: tbl_snoc p(1) pt_step_def absent)
  next
    case (snoc x xs)
    then show ?case using tbl_snoc [of M m root "p @ i # xs" x] by simp
  qed
  have below: "tbl M ?m root (p @ i # r) = None" if "r \<noteq> []" for r
    using that
  proof (induction r rule: rev_induct)
    case (snoc x xs)
    show ?case
    proof (cases "xs = []")
      case True
      have "\<not> mach_present M (?m f x)" using ft f(3) by (simp add: pt_store_apply)
      with True new show ?thesis
        using tbl_snoc [of M ?m root "p @ [i]" x] by (simp add: pt_step_def)
    next
      case False
      with snoc.IH show ?thesis using tbl_snoc [of M ?m root "p @ i # xs" x] by simp
    qed
  qed simp
  show ?thesis
  proof (cases "take (Suc (length p)) q = p @ [i]")
    case False
    then show ?thesis using tbl_store_other [OF wf p(1,2) q False] by auto
  next
    case True
    then obtain r where "q = p @ i # r"
      by (metis append.assoc append_Cons append_Nil append_take_drop_id)
    with new none below show ?thesis by (cases r) auto
  qed
qed

lemma grows_store_fresh:
  assumes wf: "walk_wf M m root" and stk: "stock_ok M m root (stk @ [f])"
    and p: "tbl M m root p = Some t" "idx_ok p" "length p < 3" "i < ENTRIES"
    and absent: "\<not> mach_present M (m t i)"
  shows "grows M root (m, stk @ [f]) (pt_store m t i (mach_table M f g), stk)"
    and "tbl M (pt_store m t i (mach_table M f g)) root (p @ [i]) = Some f"
    and "\<And>j. \<not> mach_present M (pt_store m t i (mach_table M f g) f j)"
proof -
  let ?m = "pt_store m t i (mach_table M f g)"
  have f: "frame_ok M f" "unreached M m root f" "\<And>j. \<not> mach_present M (m f j)"
    and dist: "distinct (stk @ [f])" using stk by (auto simp: stock_ok_def)
  note fresh = tbl_store_fresh [OF wf p absent f]
  have pi: "idx_ok (p @ [i])" using p by (simp add: idx_ok_snoc)
  show "tbl M ?m root (p @ [i]) = Some f" using fresh [OF pi] by simp
  have ft: "f \<noteq> t" using unreachedD [OF f(2) p(2,1)] .
  then show fempty: "\<not> mach_present M (?m f j)" for j using f(3) by (simp add: pt_store_apply)
  have "walk_wf M ?m root"
    unfolding walk_wf_def
  proof (intro allI impI, elim conjE)
    fix xs ys u
    assume a: "idx_ok xs" "idx_ok ys" "tbl M ?m root xs = Some u" "tbl M ?m root ys = Some u"
    then show "xs = ys"
      using fresh [OF a(1)] fresh [OF a(2)] wf f(2)
      unfolding walk_wf_def unreached_def by (auto split: if_splits)
  qed
  moreover have un: "unreached M ?m root u" if "unreached M m root u" "u \<noteq> f" for u
    using that fresh by (auto simp: unreached_def)
  moreover have mu: "?m u = m u" if "unreached M m root u" for u
    using reached_store_other [OF that p(2,1)] .
  moreover have "stock_ok M ?m root stk"
    unfolding stock_ok_def
  proof (intro conjI ballI allI)
    show "distinct stk" using dist by simp
  next
    fix x assume x: "x \<in> set stk"
    then have "x \<noteq> f" "unreached M m root x" "frame_ok M x" "\<And>i. \<not> mach_present M (m x i)"
      using stk dist by (auto simp: stock_ok_def)
    then show "frame_ok M x" "unreached M ?m root x" "\<And>i. \<not> mach_present M (?m x i)"
      using un mu by simp_all
  qed
  moreover have "leaf_at M ?m root q j = leaf_at M m root q j" if q: "idx_ok q" "length q = 3" for q j
  proof (cases "q = p @ [i]")
    case True
    have "tbl M m root (p @ [i]) = None" using absent by (simp add: tbl_snoc p(1) pt_step_def)
    with True fresh [OF pi] fempty show ?thesis by (simp add: leaf_at_def)
  next
    case False
    show ?thesis
    proof (cases "tbl M m root q")
      case (Some u)
      have "u \<noteq> t"
      proof
        assume "u = t"
        with wf p(1,2) q(1) Some have "q = p" by (auto simp: walk_wf_def)
        with q(2) p(3) show False by simp
      qed
      with False fresh [OF q(1)] Some show ?thesis by (simp add: leaf_at_def pt_store_apply)
    qed (use False fresh [OF q(1)] in \<open>simp add: leaf_at_def\<close>)
  qed
  moreover have "tbl M ?m root q = Some u" if "idx_ok q" "tbl M m root q = Some u" for q u
  proof -
    have "q \<noteq> p @ [i]" using that(2) absent by (auto simp: tbl_snoc p(1) pt_step_def)
    with fresh [OF that(1)] that(2) show ?thesis by simp
  qed
  ultimately show "grows M root (m, stk @ [f]) (?m, stk)"
    by (simp add: grows_def same_leaves_def subset_iff)
qed

end

section \<open>The descent that creates\<close>

fun levels_down :: "nat \<Rightarrow> nat list" where
  "levels_down 0 = []"
| "levels_down (Suc n) = Suc n # levels_down n"

lemma levels_down_3: "levels_down 3 = [3, 2, 1]"
  by (simp add: eval_nat_numeral)

lemma table_path_levels: "table_path virt = map (index_of virt) (levels_down 3)"
  by (simp add: table_path_def levels_down_3)

text \<open>A block or large page on the way down.\<close>

fun blocked_from :: "machine \<Rightarrow> pmem \<Rightarrow> u64 \<Rightarrow> nat list \<Rightarrow> u64 \<Rightarrow> bool" where
  "blocked_from M m virt [] table \<longleftrightarrow> False"
| "blocked_from M m virt (level # levels) table \<longleftrightarrow>
     (let bits = m table (index_of virt level) in
      mach_present M bits \<and>
      (mach_ends_walk M bits level \<or> blocked_from M m virt levels (mach_addr M bits)))"

definition blocked :: "machine \<Rightarrow> pmem \<Rightarrow> u64 \<Rightarrow> u64 \<Rightarrow> bool" where
  "blocked M m root virt \<longleftrightarrow> blocked_from M m virt [3, 2, 1] root"

lemma missing_from_le: "missing_from M m virt (levels_down n) t \<le> n"
  by (induction n arbitrary: t) (auto split: option.splits intro: le_SucI)

text \<open>A store in one table is not seen by a walk that starts below it.\<close>

lemma walk_below_same:
  assumes wf: "walk_wf M m root" and p: "tbl M m root p = Some t" "idx_ok p"
  shows "tbl M m root q = Some u \<Longrightarrow> idx_ok q \<Longrightarrow> length p < length q \<Longrightarrow> length q + n = 3 \<Longrightarrow>
    missing_from M (pt_store m t i b) virt (levels_down n) u = missing_from M m virt (levels_down n) u
    \<and> blocked_from M (pt_store m t i b) virt (levels_down n) u = blocked_from M m virt (levels_down n) u"
proof (induction n arbitrary: q u)
  case (Suc n)
  let ?i = "index_of virt (Suc n)"
  have "u \<noteq> t" using wf p Suc.prems(1-3) by (auto simp: walk_wf_def)
  then have same: "pt_store m t i b u ?i = m u ?i" by (simp add: pt_store_apply)
  show ?case
  proof (cases "pt_step M m u ?i (Suc n)")
    case None
    then show ?thesis by (auto simp: same pt_step_def Let_def split: if_splits)
  next
    case (Some v)
    have lev: "3 - length q = Suc n" using Suc.prems(4) by simp
    have "tbl M m root (q @ [?i]) = Some v" using Suc.prems(1) Some by (simp add: tbl_snoc lev)
    moreover have "idx_ok (q @ [?i])" "length p < length (q @ [?i])" "length (q @ [?i]) + n = 3"
      using Suc.prems(2-4) by (simp_all add: idx_ok_snoc)
    ultimately show ?thesis
      using Suc.IH [of "q @ [?i]" v] Some
      by (auto simp: same pt_step_def Let_def split: if_splits)
  qed
qed simp

context paging_machine
begin

lemma creating_empty:
  assumes "walk_wf M m root" "stock_ok M m root stk" "tbl M m root p = Some t" "idx_ok p"
    "length p + n = 3" "\<And>j. \<not> mach_present M (m t j)"
    and "creating_from M virt f (levels_down n) t m stk = (res, m', stk')"
  shows "grows M root (m, stk) (m', stk')
    \<and> (if length stk < n then res = Inl ShortOfTables
       else (\<exists>u. res = Inr u \<and> tbl M m' root (p @ map (index_of virt) (levels_down n)) = Some u
               \<and> (\<forall>j. \<not> mach_present M (m' u j))))"
  using assms
proof (induction n arbitrary: p t m stk)
  case 0
  then show ?case using grows_refl by auto
next
  case (Suc n)
  let ?i = "index_of virt (Suc n)"
  show ?case
  proof (cases "stk = []")
    case True
    with Suc.prems show ?thesis by (auto simp: Let_def stock_take_def intro: grows_refl)
  next
    case False
    then obtain fr st where st: "stk = st @ [fr]" by (metis append_butlast_last_id)
    let ?m = "pt_store m t ?i (mach_table M fr f)"
    have p: "length p < 3" using Suc.prems(5) by simp
    note g = grows_store_fresh [OF Suc.prems(1) Suc.prems(2) [unfolded st] Suc.prems(3,4) p index_of_lt [of virt "Suc n"] Suc.prems(6),
        of f]
    have wf: "walk_wf M ?m root" and stk: "stock_ok M ?m root st"
      using g(1) by (auto simp: grows_def)
    have next_eq: "creating_from M virt f (levels_down n) fr ?m st = (res, m', stk')"
      using Suc.prems(6,7) st by (simp add: Let_def stock_take_def)
    have pi: "idx_ok (p @ [?i])" "length (p @ [?i]) + n = 3"
      using Suc.prems(4,5) p by (simp_all add: idx_ok_snoc)
    from Suc.IH [OF wf stk g(2) pi g(3) next_eq] g(1) st show ?thesis
      by (auto intro: grows_trans)
  qed
qed

text \<open>The descent ends in exactly one of three ways, which the tables and the stock decide.\<close>

lemma creating_spec:
  assumes "walk_wf M m root" "stock_ok M m root stk" "tbl M m root p = Some t" "idx_ok p"
    "length p + n = 3"
    and "creating_from M virt f (levels_down n) t m stk = (res, m', stk')"
  shows "grows M root (m, stk) (m', stk')
    \<and> (if blocked_from M m virt (levels_down n) t then res = Inl Blocked
       else if length stk < missing_from M m virt (levels_down n) t then res = Inl ShortOfTables
       else (\<exists>u. res = Inr u \<and> tbl M m' root (p @ map (index_of virt) (levels_down n)) = Some u))"
  using assms
proof (induction n arbitrary: p t m stk)
  case 0
  then show ?case using grows_refl by auto
next
  case (Suc n)
  let ?i = "index_of virt (Suc n)"
  let ?b = "m t ?i"
  have p: "length p < 3" using Suc.prems(5) by simp
  have lev: "3 - length p = Suc n" using Suc.prems(5) by simp
  have pi: "idx_ok (p @ [?i])" "length (p @ [?i]) + n = 3"
    using Suc.prems(4,5) p by (simp_all add: idx_ok_snoc)
  consider (absent) "\<not> mach_present M ?b" | (block) "mach_present M ?b" "mach_ends_walk M ?b (Suc n)"
    | (down) "mach_present M ?b" "\<not> mach_ends_walk M ?b (Suc n)" by blast
  then show ?case
  proof cases
    case block
    with Suc.prems show ?thesis by (auto simp: Let_def intro: grows_refl)
  next
    case absent
    show ?thesis
    proof (cases "stk = []")
      case True
      with absent Suc.prems show ?thesis
        by (auto simp: Let_def stock_take_def pt_step_def intro: grows_refl)
    next
      case False
      then obtain fr st where st: "stk = st @ [fr]" by (metis append_butlast_last_id)
      let ?m = "pt_store m t ?i (mach_table M fr f)"
      note g = grows_store_fresh [OF Suc.prems(1) Suc.prems(2) [unfolded st] Suc.prems(3,4) p index_of_lt [of virt "Suc n"] absent,
          of f]
      have wf: "walk_wf M ?m root" and stk: "stock_ok M ?m root st"
        using g(1) by (auto simp: grows_def)
      have next_eq: "creating_from M virt f (levels_down n) fr ?m st = (res, m', stk')"
        using absent Suc.prems(6) st by (simp add: Let_def stock_take_def)
      from creating_empty [OF wf stk g(2) pi g(3) next_eq] g(1) st absent show ?thesis
        by (auto simp: Let_def pt_step_def intro: grows_trans)
    qed
  next
    case down
    let ?m = "case mach_widen M ?b f of Some wider \<Rightarrow> pt_store m t ?i wider | None \<Rightarrow> m"
    have g: "grows M root (m, stk) (?m, stk)"
    proof (cases "mach_widen M ?b f")
      case None
      with Suc.prems show ?thesis by (simp add: grows_refl)
    next
      case (Some w)
      have "pt_step M (pt_store m t ?i w) t ?i (3 - length p) = pt_step M m t ?i (3 - length p)"
        using widen_same [OF down(1) Some] down(1) by (simp add: pt_step_def pt_store_apply Let_def)
      from grows_store_same [OF Suc.prems(1,2,3,4) p this] Some show ?thesis by simp
    qed
    have tb: "tbl M m root (p @ [?i]) = Some (mach_addr M ?b)"
      using down by (simp add: tbl_snoc Suc.prems(3) lev pt_step_def)
    have tbm: "tbl M ?m root (p @ [?i]) = Some (mach_addr M ?b)"
      using g tb pi by (auto simp: grows_def)
    have wf: "walk_wf M ?m root" and stk: "stock_ok M ?m root stk" using g by (auto simp: grows_def)
    have next_eq: "creating_from M virt f (levels_down n) (mach_addr M ?b) ?m stk = (res, m', stk')"
      using down Suc.prems(6) by (simp add: Let_def)
    have same: "blocked_from M ?m virt (levels_down n) (mach_addr M ?b)
        = blocked_from M m virt (levels_down n) (mach_addr M ?b)"
      "missing_from M ?m virt (levels_down n) (mach_addr M ?b)
        = missing_from M m virt (levels_down n) (mach_addr M ?b)"
      using walk_below_same [OF Suc.prems(1,3,4) tb pi(1) _ pi(2)] by (simp_all split: option.split)
    from Suc.IH [OF wf stk tbm pi next_eq] g down show ?thesis
      unfolding same by (auto simp: Let_def pt_step_def intro: grows_trans)
  qed
qed

end

end
