(* ===== verification/Page_Change.thy ===== *)
theory Page_Change
  imports Page_Walk
begin

text \<open>
  What the operations of \<open>kernel/src/mm/walk.rs\<close> do to the mapping a hierarchy of tables
  represents, for every machine that keeps the contract \<open>paging_machine\<close>.
\<close>

section \<open>Pages\<close>

definition same_page :: "u64 \<Rightarrow> u64 \<Rightarrow> bool" where
  "same_page v w \<longleftrightarrow> drop_bit PAGE_BITS (take_bit 48 v) = drop_bit PAGE_BITS (take_bit 48 w)"

lemma index_of_bit:
  "bit (drop_bit (PAGE_BITS + LEVEL_BITS * level) virt AND (0x1FF :: u64)) r
    \<longleftrightarrow> r < 9 \<and> bit virt (PAGE_BITS + LEVEL_BITS * level + r)"
proof -
  have "(0x1FF :: u64) = mask 9" by (simp add: mask_eq_exp_minus_1)
  then show ?thesis
    unfolding bit_and_iff bit_drop_bit_eq by (simp only: bit_mask_iff) (auto dest: bit_imp_le_length)
qed

lemma index_of_eq_iff:
  "index_of v level = index_of w level \<longleftrightarrow>
    (\<forall>r < 9. bit v (PAGE_BITS + LEVEL_BITS * level + r) = bit w (PAGE_BITS + LEVEL_BITS * level + r))"
proof -
  let ?ix = "\<lambda>x. drop_bit (PAGE_BITS + LEVEL_BITS * level) x AND (0x1FF :: u64)"
  have "index_of v level = index_of w level \<longleftrightarrow> ?ix v = ?ix w"
    unfolding index_of_def by (rule word_unat_eq_iff [symmetric])
  also have "\<dots> \<longleftrightarrow> (\<forall>n. bit (?ix v) n = bit (?ix w) n)" by (auto intro: bit_word_eqI)
  finally show ?thesis unfolding index_of_bit by blast
qed

lemma same_page_iff: "same_page v w \<longleftrightarrow> (\<forall>level < 4. index_of v level = index_of w level)"
proof -
  have "same_page v w \<longleftrightarrow> (\<forall>n < 36. bit v (12 + n) = bit w (12 + n))"
  proof
    assume "same_page v w"
    then have eq: "bit (drop_bit 12 (take_bit 48 v)) n = bit (drop_bit 12 (take_bit 48 w)) n" for n
      by (simp add: same_page_def PAGE_BITS_def)
    show "\<forall>n < 36. bit v (12 + n) = bit w (12 + n)"
      using eq by (simp add: bit_drop_bit_eq bit_take_bit_iff) blast
  next
    assume "\<forall>n < 36. bit v (12 + n) = bit w (12 + n)"
    then show "same_page v w"
      unfolding same_page_def PAGE_BITS_def
      by (intro bit_word_eqI) (auto simp: bit_drop_bit_eq bit_take_bit_iff)
  qed
  also have "\<dots> \<longleftrightarrow> (\<forall>level < 4. \<forall>r < 9. bit v (12 + 9 * level + r) = bit w (12 + 9 * level + r))"
  proof (rule iffI; intro allI impI)
    fix level r :: nat
    assume *: "\<forall>n < 36. bit v (12 + n) = bit w (12 + n)" and "level < 4" "r < 9"
    then have "9 * level + r < 36" by simp
    with * have "bit v (12 + (9 * level + r)) = bit w (12 + (9 * level + r))" by blast
    then show "bit v (12 + 9 * level + r) = bit w (12 + 9 * level + r)" by (simp only: add.assoc)
  next
    fix n :: nat
    assume *: "\<forall>level < 4. \<forall>r < 9. bit v (12 + 9 * level + r) = bit w (12 + 9 * level + r)" and "n < 36"
    then have "n div 9 < 4" "n mod 9 < 9" by auto
    with * have "bit v (12 + 9 * (n div 9) + n mod 9) = bit w (12 + 9 * (n div 9) + n mod 9)" by blast
    moreover have "12 + 9 * (n div 9) + n mod 9 = 12 + n" by simp
    ultimately show "bit v (12 + n) = bit w (12 + n)" by metis
  qed
  finally show ?thesis by (simp add: index_of_eq_iff PAGE_BITS_def LEVEL_BITS_def)
qed

lemma same_page_path:
  "same_page v w \<longleftrightarrow> table_path v = table_path w \<and> index_of v 0 = index_of w 0"
proof -
  have "(\<forall>level < (4 :: nat). P level) \<longleftrightarrow> P 0 \<and> P 1 \<and> P 2 \<and> P 3" for P
    by (auto simp: less_Suc_eq numeral_eq_Suc)
  then show ?thesis by (auto simp: same_page_iff table_path_def)
qed

section \<open>Storing a last-level descriptor\<close>

lemma length_table_path [simp]: "length (table_path v) = 3"
  by (simp add: table_path_def)

lemma tbl_store_leaf:
  assumes "walk_wf M m root" "tbl M m root p = Some t" "idx_ok p" "length p = 3" "idx_ok q"
  shows "tbl M (pt_store m t i b) root q = tbl M m root q"
proof (rule tbl_store_other [OF assms(1-3,5)])
  have "length (take (Suc (length p)) q) \<le> 3" using assms(5) by (auto simp: idx_ok_def)
  then show "take (Suc (length p)) q \<noteq> p @ [i]" using assms(4) by (metis Suc_n_not_le_n eval_nat_numeral(3) length_append_singleton)
qed

lemma leaf_at_store:
  assumes wf: "walk_wf M m root" and p: "tbl M m root p = Some t" "idx_ok p" "length p = 3"
    and q: "idx_ok q"
  shows "leaf_at M (pt_store m t i b) root q j =
    (if q = p \<and> j = i then (if mach_present M b then Some b else None) else leaf_at M m root q j)"
proof (cases "tbl M m root q")
  case None
  with p(1) have "q \<noteq> p" by auto
  then show ?thesis by (simp add: leaf_at_def tbl_store_leaf [OF wf p q] None)
next
  case (Some u)
  have "u = t \<longleftrightarrow> q = p" using wf p q Some by (auto simp: walk_wf_def)
  with p(1) Some show ?thesis
    by (auto simp: leaf_at_def tbl_store_leaf [OF wf p q] pt_store_apply)
qed

lemma store_leaf_keeps:
  assumes wf: "walk_wf M m root" and p: "tbl M m root p = Some t" "idx_ok p" "length p = 3"
  shows "walk_wf M (pt_store m t i b) root"
    and "unreached M (pt_store m t i b) root u = unreached M m root u"
    and "stock_ok M m root stk \<Longrightarrow> stock_ok M (pt_store m t i b) root stk"
proof -
  note eq = tbl_store_leaf [OF wf p]
  show "walk_wf M (pt_store m t i b) root" by (rule walk_wf_tbl_cong [OF eq wf])
  show un: "unreached M (pt_store m t i b) root u = unreached M m root u" for u
    by (rule unreached_tbl_cong [OF eq])
  show "stock_ok M (pt_store m t i b) root stk" if "stock_ok M m root stk"
    by (rule stock_ok_other [OF that un reached_store_other [OF _ p(2,1)]])
qed

lemma pt_leaf_store:
  assumes wf: "walk_wf M m root" and t: "leaf_table M m root virt = Some t"
  shows "pt_leaf M (pt_store m t (index_of virt 0) b) root w =
    (if same_page w virt then (if mach_present M b then Some b else None) else pt_leaf M m root w)"
  using leaf_at_store [OF wf t [unfolded leaf_table_tbl] table_path_ok length_table_path table_path_ok]
  by (simp add: pt_leaf_at same_page_path)

lemma pt_leaf_same: "same_leaves M root m m' \<Longrightarrow> pt_leaf M m' root w = pt_leaf M m root w"
  by (simp add: same_leaves_def pt_leaf_at)

section \<open>Replacing and protecting\<close>

lemma replace_spec:
  assumes "walk_wf M m root" and "mach_present M (mach_leaf M phys flags)"
    and "replace M root virt phys flags m t = (old, m', t')"
  shows "walk_wf M m' root \<and> old = map_option (mach_addr M) (pt_leaf M m root virt)
    \<and> t' = (if old = None then t else tlb_note virt t)
    \<and> (\<forall>w. pt_leaf M m' root w =
        (if old \<noteq> None \<and> same_page w virt then Some (mach_leaf M phys flags) else pt_leaf M m root w))"
proof (cases "leaf_table M m root virt")
  case None
  with assms show ?thesis by (auto simp: replace_def pt_leaf_def)
next
  case (Some u)
  note keep = store_leaf_keeps(1) [OF assms(1) Some [unfolded leaf_table_tbl] table_path_ok length_table_path]
  show ?thesis
    using assms(2,3) Some keep assms(1)
    by (auto simp: replace_def Let_def pt_leaf_store [OF assms(1) Some] split: if_splits)
      (auto simp: pt_leaf_def)
qed

lemma protect_is_replace:
  "protect M root virt flags m t =
     (case pt_leaf M m root virt of
        None \<Rightarrow> (None, m, t)
      | Some bits \<Rightarrow> replace M root virt (mach_addr M bits) flags m t)"
  by (auto simp: protect_def replace_def pt_leaf_def Let_def split: option.splits)

section \<open>Publishing\<close>

context paging_machine
begin

lemma publish_spec:
  assumes wf: "walk_wf M m root" and stk: "stock_ok M m root stk" and flags: "mach_present M flags"
    and pub: "publish M root virt phys flags m stk t = (res, m', stk', t')"
  shows "walk_wf M m' root \<and> stock_ok M m' root stk' \<and> set stk' \<subseteq> set stk
    \<and> res = (if blocked M m root virt then Inl Blocked
             else if length stk < missing_tables M m root virt then Inl ShortOfTables
             else if pt_leaf M m root virt \<noteq> None then Inl Occupied
             else Inr ())
    \<and> t' = (if res = Inr () then tlb_note virt t else t)
    \<and> (\<forall>w. pt_leaf M m' root w =
        (if res = Inr () \<and> same_page w virt then Some (mach_leaf M phys flags) else pt_leaf M m root w))
    \<and> (\<forall>u. unreached M m root u \<and> u \<notin> set stk \<longrightarrow> unreached M m' root u \<and> m' u = m u)"
proof -
  obtain r m1 stk1 where lt: "leaf_table_creating M root virt flags m stk = (r, m1, stk1)"
    by (metis prod_cases3)
  have cr: "creating_from M virt flags (levels_down 3) root m stk = (r, m1, stk1)"
    using lt by (simp add: leaf_table_creating_def levels_down_3)
  have root: "tbl M m root [] = Some root" "idx_ok []" "length [] + 3 = 3"
    by (simp_all add: idx_ok_def)
  from creating_spec [OF wf stk root cr] have g: "grows M root (m, stk) (m1, stk1)"
    and r: "if blocked M m root virt then r = Inl Blocked
       else if length stk < missing_tables M m root virt then r = Inl ShortOfTables
       else (\<exists>u. r = Inr u \<and> tbl M m1 root (table_path virt) = Some u)"
    by (auto simp: blocked_def missing_tables_def levels_down_3 table_path_levels split: if_splits)
  have g': "walk_wf M m1 root" "stock_ok M m1 root stk1" "set stk1 \<subseteq> set stk"
    "same_leaves M root m m1"
    "\<And>u. unreached M m root u \<Longrightarrow> u \<notin> set stk \<Longrightarrow> unreached M m1 root u \<and> m1 u = m u"
    using g by (auto simp: grows_def)
  show ?thesis
  proof (cases r)
    case (Inl e)
    with pub lt have eqs: "res = Inl e" "m' = m1" "stk' = stk1" "t' = t" by (simp_all add: publish_def)
    have "e = (if blocked M m root virt then Blocked else ShortOfTables)"
      "blocked M m root virt \<or> length stk < missing_tables M m root virt"
      using r Inl by (auto split: if_splits)
    then show ?thesis using eqs g' pt_leaf_same [OF g'(4)] by auto
  next
    case (Inr u)
    with r have ok: "\<not> blocked M m root virt" "\<not> length stk < missing_tables M m root virt"
      and tb: "leaf_table M m1 root virt = Some u"
      by (auto simp: leaf_table_tbl split: if_splits)
    note keep = store_leaf_keeps [OF g'(1) tb [unfolded leaf_table_tbl] table_path_ok length_table_path]
    have leaf1: "pt_leaf M m1 root virt = pt_leaf M m root virt" using pt_leaf_same [OF g'(4)] .
    show ?thesis
    proof (cases "mach_present M (m1 u (index_of virt 0))")
      case True
      with pub lt Inr have eqs: "res = Inl Occupied" "m' = m1" "stk' = stk1" "t' = t"
        by (simp_all add: publish_def)
      have "pt_leaf M m1 root virt \<noteq> None" using True tb by (simp add: pt_leaf_def)
      then have "pt_leaf M m root virt \<noteq> None" unfolding leaf1 .
      then show ?thesis using eqs g' ok pt_leaf_same [OF g'(4)] by auto
    next
      case False
      with pub lt Inr have eqs: "res = Inr ()" "stk' = stk1" "t' = tlb_note virt t"
        "m' = pt_store m1 u (index_of virt 0) (mach_leaf M phys flags)"
        by (simp_all add: publish_def)
      have "pt_leaf M m1 root virt = None" using False tb by (simp add: pt_leaf_def)
      then have none: "pt_leaf M m root virt = None" unfolding leaf1 .
      have "\<forall>w. pt_leaf M m' root w = (if same_page w virt then Some (mach_leaf M phys flags) else pt_leaf M m root w)"
        using pt_leaf_store [OF g'(1) tb, of "mach_leaf M phys flags"] leaf_present [OF flags]
          pt_leaf_same [OF g'(4)] by (simp add: eqs)
      moreover have "unreached M m' root x \<and> m' x = m x" if "unreached M m root x" "x \<notin> set stk" for x
        using g'(5) [OF that] keep(2) reached_store_other [of M m1 root x, OF _ table_path_ok tb [unfolded leaf_table_tbl]]
        by (simp add: eqs)
      ultimately show ?thesis using eqs ok none keep(1,3) g'(2,3) by simp
    qed
  qed
qed

end

section \<open>Taking a mapping away\<close>

lemma table_is_empty_iff:
  assumes "cleared < ENTRIES"
  shows "table_is_empty M m t cleared \<longleftrightarrow> (\<forall>j < ENTRIES. \<not> mach_present M (m t j))"
proof
  assume all: "table_is_empty M m t cleared"
  show "\<forall>j < ENTRIES. \<not> mach_present M (m t j)"
  proof (intro allI impI)
    fix j assume j: "j < ENTRIES"
    define stp where "stp = (if cleared < j then j - cleared else j + ENTRIES - cleared)"
    have "1 \<le> stp" "stp < ENTRIES + 1" using assms j by (auto simp: stp_def)
    moreover have "(cleared + stp) mod ENTRIES = j" using assms j by (auto simp: stp_def)
    moreover have "\<forall>x \<in> {1..<ENTRIES + 1}. \<not> mach_present M (m t ((cleared + x) mod ENTRIES))"
      using all by (simp add: table_is_empty_def list_all_iff del: upt_Suc)
    ultimately show "\<not> mach_present M (m t j)" by (metis atLeastLessThan_iff)
  qed
next
  assume "\<forall>j < ENTRIES. \<not> mach_present M (m t j)"
  then show "table_is_empty M m t cleared"
    by (simp add: table_is_empty_def list_all_iff ENTRIES_def)
qed

text \<open>What \<open>reclaim\<close> may do: take out tables that hold nothing.\<close>

definition shrinks :: "machine \<Rightarrow> u64 \<Rightarrow> pmem \<times> stock \<Rightarrow> pmem \<times> stock \<Rightarrow> bool" where
  "shrinks M root a b \<longleftrightarrow>
     (case (a, b) of ((m, rec), (m', rec')) \<Rightarrow>
        walk_wf M m' root \<and> same_leaves M root m m'
        \<and> (\<forall>q u. idx_ok q \<and> tbl M m' root q = Some u \<longrightarrow> tbl M m root q = Some u)
        \<and> (\<forall>u. unreached M m root u \<longrightarrow> m' u = m u)
        \<and> (\<exists>new. rec' = rec @ new \<and> distinct new \<and>
             (\<forall>u \<in> set new. \<not> unreached M m root u \<and> unreached M m' root u
               \<and> (\<forall>j < ENTRIES. \<not> mach_present M (m' u j)))))"

lemma shrinks_refl: "walk_wf M m root \<Longrightarrow> shrinks M root (m, rec) (m, rec)"
  by (simp add: shrinks_def same_leaves_def)

lemma shrinks_unreached: "shrinks M root (m, rec) (m', rec') \<Longrightarrow> unreached M m root u \<Longrightarrow> unreached M m' root u"
  by (auto simp: shrinks_def unreached_def)

lemma shrinks_trans:
  assumes a: "shrinks M root (m, rec) (m1, rec1)" and b: "shrinks M root (m1, rec1) (m2, rec2)"
  shows "shrinks M root (m, rec) (m2, rec2)"
proof -
  from a obtain n1 where n1: "rec1 = rec @ n1" "distinct n1"
    "\<forall>u \<in> set n1. \<not> unreached M m root u \<and> unreached M m1 root u \<and> (\<forall>j < ENTRIES. \<not> mach_present M (m1 u j))"
    by (auto simp: shrinks_def)
  from b obtain n2 where n2: "rec2 = rec1 @ n2" "distinct n2"
    "\<forall>u \<in> set n2. \<not> unreached M m1 root u \<and> unreached M m2 root u \<and> (\<forall>j < ENTRIES. \<not> mach_present M (m2 u j))"
    by (auto simp: shrinks_def)
  have keep: "m2 u = m1 u" if "unreached M m1 root u" for u using b that by (auto simp: shrinks_def)
  have "\<forall>u \<in> set (n1 @ n2). \<not> unreached M m root u \<and> unreached M m2 root u
      \<and> (\<forall>j < ENTRIES. \<not> mach_present M (m2 u j))"
    using n1(3) n2(3) keep shrinks_unreached [OF a] shrinks_unreached [OF b] by auto
  moreover have "distinct (n1 @ n2)" using n1 n2 by auto
  moreover have "\<forall>u. unreached M m root u \<longrightarrow> m2 u = m u"
    using a b shrinks_unreached [OF a] by (auto simp: shrinks_def)
  moreover have "rec2 = rec @ (n1 @ n2)" using n1 n2 by simp
  moreover have "walk_wf M m2 root" "same_leaves M root m m2"
    "\<forall>q u. idx_ok q \<and> tbl M m2 root q = Some u \<longrightarrow> tbl M m root q = Some u"
    using a b by (auto simp: shrinks_def same_leaves_def)
  ultimately show ?thesis unfolding shrinks_def prod.case by blast
qed

lemma reclaim_parent_tbl:
  assumes "level \<in> {1, 2, 3}"
  shows "reclaim_parent M root virt level m = tbl M m root (take (3 - level) (table_path virt))"
  using assms
  by (auto simp: reclaim_parent_def tbl_def table_path_def Option.bind_def upt_rec eval_nat_numeral
      split: option.splits)

context paging_machine
begin

text \<open>One turn of the loop takes out the empty table under the parent, or stops.\<close>

lemma detach_shrinks:
  assumes wf: "walk_wf M m root" and p: "tbl M m root p = Some t" "idx_ok p" "length p < 3" "i < ENTRIES"
    and u: "tbl M m root (p @ [i]) = Some u" and empty: "\<forall>j < ENTRIES. \<not> mach_present M (m u j)"
  shows "shrinks M root (m, rec) (pt_store m t i 0, rec @ [u])"
proof -
  let ?m = "pt_store m t i 0"
  have pi: "idx_ok (p @ [i])" using p by (simp add: idx_ok_snoc)
  have tp: "tbl M ?m root p = Some t" using tbl_store_other [OF wf p(1,2) p(2), of i] p(1) by simp
  have step: "pt_step M ?m t i level = None" for level
    by (simp add: pt_step_def pt_store_apply zero_absent)
  have gone: "tbl M ?m root (p @ i # r) = None" for r
  proof (induction r rule: rev_induct)
    case Nil
    show ?case by (simp add: tbl_snoc tp step)
  next
    case (snoc x xs)
    then show ?case using tbl_snoc [of M ?m root "p @ i # xs" x] by simp
  qed
  have beyond: "tbl M m root (p @ i # r) = None" if "r \<noteq> []" "idx_ok (p @ i # r)" for r
    using that
  proof (induction r rule: rev_induct)
    case (snoc x xs)
    have x: "idx_ok (p @ i # xs)" "x < ENTRIES"
      using snoc.prems(2) idx_ok_snoc [of "p @ i # xs" x] by simp_all
    show ?case
    proof (cases "xs = []")
      case True
      with u empty x(2) show ?thesis
        using tbl_snoc [of M m root "p @ [i]" x] by (simp add: pt_step_def)
    next
      case False
      with snoc.IH x show ?thesis using tbl_snoc [of M m root "p @ i # xs" x] by simp
    qed
  qed simp
  have split: "(\<exists>r. q = p @ i # r) \<or> tbl M ?m root q = tbl M m root q" if "idx_ok q" for q
    using tbl_store_other [OF wf p(1,2) that, of i 0]
    by (metis append.assoc append_Cons append_Nil append_take_drop_id)
  have sub: "tbl M m root q = Some v" if "idx_ok q" "tbl M ?m root q = Some v" for q v
    using split [OF that(1)] gone that(2) by auto
  have ut: "u \<noteq> t"
  proof
    assume "u = t"
    with wf p(1,2) pi u have "p = p @ [i]" unfolding walk_wf_def by blast
    then show False by simp
  qed
  have "walk_wf M ?m root" using wf sub unfolding walk_wf_def by blast
  moreover have "leaf_at M ?m root q j = leaf_at M m root q j"
    if q: "idx_ok q" "length q = 3" "j < ENTRIES" for q j
  proof (cases "\<exists>r. q = p @ i # r")
    case True
    then obtain r where r: "q = p @ i # r" by blast
    show ?thesis
    proof (cases r)
      case Nil
      with r u empty q(3) gone [of "[]"] show ?thesis by (simp add: leaf_at_def)
    next
      case (Cons x xs)
      with r q(1) beyond [of r] gone [of r] show ?thesis by (simp add: leaf_at_def)
    qed
  next
    case False
    with split [OF q(1)] have eq: "tbl M ?m root q = tbl M m root q" by blast
    show ?thesis
    proof (cases "tbl M m root q")
      case (Some v)
      have "v \<noteq> t"
      proof
        assume "v = t"
        with wf p(1,2) q(1) Some have "q = p" unfolding walk_wf_def by blast
        with q(2) p(3) show False by simp
      qed
      with eq Some show ?thesis by (simp add: leaf_at_def pt_store_apply)
    qed (simp add: leaf_at_def eq)
  qed
  moreover have "?m v = m v" if "unreached M m root v" for v
    using reached_store_other [OF that p(2,1)] .
  moreover have "unreached M ?m root u"
    unfolding unreached_def
  proof (intro allI impI notI)
    fix q assume q: "idx_ok q" "tbl M ?m root q = Some u"
    with sub have "tbl M m root q = Some u" by blast
    with wf q(1) pi u have "q = p @ [i]" unfolding walk_wf_def by blast
    with q(2) gone [of "[]"] show False by simp
  qed
  moreover have "\<not> unreached M m root u" using u pi by (auto simp: unreached_def)
  ultimately show ?thesis
    using empty ut sub by (simp add: shrinks_def same_leaves_def pt_store_apply)
qed

lemma reclaim_turn_spec:
  assumes wf: "walk_wf M m root" and lev: "level \<in> {1, 2, 3}" and room: "length rec < DEPTH"
  obtains go m' t' rec' where "reclaim_turn M refs root virt level (m, t, rec) = Some (go, m', t', rec')"
    "shrinks M root (m, rec) (m', rec')" "length rec' \<le> Suc (length rec)"
    "set rec' \<subseteq> set rec \<union> {u. refs u = 1}" "t' = t \<and> rec' = rec \<or> t' = All"
proof -
  let ?p = "take (3 - level) (table_path virt)"
  have p: "idx_ok ?p" "length ?p = 3 - level"
    using table_path_ok [of virt] by (auto simp: idx_ok_def list_all_iff dest: in_set_takeD)
  note refl = shrinks_refl [OF wf, of rec]
  show ?thesis
  proof (cases "tbl M m root ?p")
    case None
    with that [of False m t rec] refl show ?thesis
      by (simp add: reclaim_turn_def reclaim_parent_tbl [OF lev] stock_push_def)
  next
    case (Some parent)
    let ?i = "index_of virt level"
    let ?b = "m parent ?i"
    let ?u = "mach_addr M ?b"
    show ?thesis
    proof (cases "mach_present M ?b \<and> \<not> mach_ends_walk M ?b level
        \<and> table_is_empty M m ?u (index_of virt (level - 1)) \<and> refs ?u = 1")
      case False
      with Some that [of False m t rec] refl show ?thesis
        by (auto simp: reclaim_turn_def reclaim_parent_tbl [OF lev] Let_def)
    next
      case True
      have "3 - length ?p = level" using lev p(2) by auto
      with True Some have u: "tbl M m root (?p @ [?i]) = Some ?u"
        by (simp add: tbl_snoc pt_step_def Let_def)
      have "\<forall>j < ENTRIES. \<not> mach_present M (m ?u j)"
        using True table_is_empty_iff [OF index_of_lt] by blast
      from detach_shrinks [OF wf Some p(1) _ index_of_lt u this, of rec]
      have sh: "shrinks M root (m, rec) (pt_store m parent ?i 0, rec @ [?u])" using p(2) lev by auto
      have "reclaim_turn M refs root virt level (m, t, rec)
          = Some (True, pt_store m parent ?i 0, All, rec @ [?u])"
        using True Some room
        by (simp add: reclaim_turn_def reclaim_parent_tbl [OF lev] Let_def stock_push_def tlb_note_all_def)
      from that [OF this sh] True show ?thesis by simp
    qed
  qed
qed

lemma reclaim_from_spec:
  assumes "walk_wf M m root" and "set levels \<subseteq> {1, 2, 3}" and "length rec + length levels \<le> DEPTH"
  shows "\<exists>m' t' rec'. reclaim_from M refs root virt levels (m, t, rec) = Some (m', t', rec')
    \<and> shrinks M root (m, rec) (m', rec') \<and> set rec' \<subseteq> set rec \<union> {u. refs u = 1} \<and> (t' = t \<and> rec' = rec \<or> t' = All)"
  using assms
proof (induction levels arbitrary: m t rec)
  case Nil
  then show ?case by (simp add: shrinks_refl)
next
  case (Cons level levels)
  from Cons.prems have "level \<in> {1, 2, 3}" "length rec < DEPTH" by auto
  from reclaim_turn_spec [OF Cons.prems(1) this, of refs virt t] obtain go m1 t1 rec1 where
    turn: "reclaim_turn M refs root virt level (m, t, rec) = Some (go, m1, t1, rec1)"
    "shrinks M root (m, rec) (m1, rec1)" "length rec1 \<le> Suc (length rec)"
    "set rec1 \<subseteq> set rec \<union> {u. refs u = 1}" "t1 = t \<and> rec1 = rec \<or> t1 = All" .
  show ?case
  proof (cases go)
    case False
    with turn show ?thesis by auto
  next
    case True
    have wf1: "walk_wf M m1 root" using turn(2) by (simp add: shrinks_def)
    have "set levels \<subseteq> {1, 2, 3}" "length rec1 + length levels \<le> DEPTH"
      using Cons.prems turn(3) by auto
    from Cons.IH [OF wf1 this, of t1] obtain m2 t2 rec2 where rest:
      "reclaim_from M refs root virt levels (m1, t1, rec1) = Some (m2, t2, rec2)"
      "shrinks M root (m1, rec1) (m2, rec2)" "set rec2 \<subseteq> set rec1 \<union> {u. refs u = 1}"
      "t2 = t1 \<and> rec2 = rec1 \<or> t2 = All" by blast
    have "reclaim_from M refs root virt (level # levels) (m, t, rec) = Some (m2, t2, rec2)"
      using turn(1) True rest(1) by simp
    moreover have "set rec2 \<subseteq> set rec \<union> {u. refs u = 1}" using turn(4) rest(3) by blast
    ultimately show ?thesis
      using shrinks_trans [OF turn(2) rest(2)] turn(5) rest(4) by blast
  qed
qed

lemma unmap_spec:
  assumes wf: "walk_wf M m root"
  shows "\<exists>m' t' rec'. unmap M refs root virt m t [] = Some (map_option (mach_addr M) (pt_leaf M m root virt), m', t', rec')
    \<and> walk_wf M m' root
    \<and> (\<forall>w. pt_leaf M m' root w = (if same_page w virt then None else pt_leaf M m root w))
    \<and> distinct rec' \<and> (\<forall>u \<in> set rec'. refs u = 1 \<and> \<not> unreached M m root u \<and> unreached M m' root u
        \<and> (\<forall>j < ENTRIES. \<not> mach_present M (m' u j)))
    \<and> (\<forall>u. unreached M m root u \<longrightarrow> unreached M m' root u \<and> m' u = m u)
    \<and> (pt_leaf M m root virt \<noteq> None \<longrightarrow> t' = tlb_note virt t \<and> rec' = [] \<or> t' = All)"
proof (cases "pt_leaf M m root virt")
  case None
  then have "unmap M refs root virt m t [] = Some (None, m, t, [])"
    by (auto simp: unmap_def pt_leaf_def Let_def split: option.splits if_splits)
  moreover have "same_page w virt \<Longrightarrow> pt_leaf M m root w = None" for w
    using None by (simp add: pt_leaf_at same_page_path)
  ultimately show ?thesis using wf None by auto
next
  case (Some bits)
  then obtain u where u: "leaf_table M m root virt = Some u" "m u (index_of virt 0) = bits"
    "mach_present M bits"
    by (auto simp: pt_leaf_def Let_def split: option.splits if_splits)
  let ?m = "pt_store m u (index_of virt 0) 0"
  note keep = store_leaf_keeps [OF wf u(1) [unfolded leaf_table_tbl] table_path_ok length_table_path]
  have leaf: "pt_leaf M ?m root w = (if same_page w virt then None else pt_leaf M m root w)" for w
    using pt_leaf_store [OF wf u(1), of 0] zero_absent by simp
  have "set [1, 2, 3 :: nat] \<subseteq> {1, 2, 3}" "length ([] :: stock) + length [1, 2, 3 :: nat] \<le> DEPTH"
    by (simp_all add: DEPTH_def)
  from reclaim_from_spec [OF keep(1) [of "index_of virt 0" 0] this, where refs = refs and virt = virt and t = "tlb_note virt t"]
  obtain m' t' rec' where r: "reclaim M refs root virt (?m, tlb_note virt t, []) = Some (m', t', rec')"
    "shrinks M root (?m, []) (m', rec')" "set rec' \<subseteq> {u. refs u = 1}"
    "t' = tlb_note virt t \<and> rec' = [] \<or> t' = All"
    unfolding reclaim_def by (auto simp del: reclaim_from.simps)
  have "unmap M refs root virt m t [] = Some (Some (mach_addr M bits), m', t', rec')"
    using u r(1) by (simp add: unmap_def)
  moreover have "pt_leaf M m' root w = (if same_page w virt then None else pt_leaf M m root w)" for w
    using pt_leaf_same [of M root ?m m' w] r(2) leaf by (simp add: shrinks_def)
  moreover have "unreached M m' root x \<and> m' x = m x" if "unreached M m root x" for x
  proof -
    have "unreached M ?m root x" using keep(2) that by simp
    then show ?thesis
      using shrinks_unreached [OF r(2)] r(2) reached_store_other [OF that table_path_ok u(1) [unfolded leaf_table_tbl]]
      by (simp add: shrinks_def)
  qed
  moreover have "walk_wf M m' root" "distinct rec'"
    "\<forall>x \<in> set rec'. refs x = 1 \<and> \<not> unreached M m root x \<and> unreached M m' root x
        \<and> (\<forall>j < ENTRIES. \<not> mach_present M (m' x j))"
    using r(2,3) keep(2) by (auto simp: shrinks_def)
  ultimately show ?thesis using Some r(4) by simp
qed

end

section \<open>Sharing a page with another hierarchy\<close>

lemma tbl_agree:
  assumes "\<And>u. \<not> unreached M m root u \<Longrightarrow> m' u = m u" and "idx_ok q"
  shows "tbl M m' root q = tbl M m root q"
  using assms(2)
proof (induction q rule: rev_induct)
  case (snoc j q)
  then have q: "idx_ok q" by (simp add: idx_ok_snoc)
  show ?case
  proof (cases "tbl M m root q")
    case (Some u)
    then have "m' u = m u" using assms(1) q by (auto simp: unreached_def)
    then show ?thesis using snoc.IH q Some by (simp add: tbl_snoc pt_step_def)
  qed (use snoc.IH q in \<open>simp add: tbl_snoc\<close>)
qed simp

lemma walk_agree:
  assumes "\<And>u. \<not> unreached M m root u \<Longrightarrow> m' u = m u"
  shows "tbl M m root q = Some u \<Longrightarrow> idx_ok q \<Longrightarrow> length q + n = 3 \<Longrightarrow>
    missing_from M m' virt (levels_down n) u = missing_from M m virt (levels_down n) u
    \<and> blocked_from M m' virt (levels_down n) u = blocked_from M m virt (levels_down n) u"
proof (induction n arbitrary: q u)
  case (Suc n)
  let ?i = "index_of virt (Suc n)"
  have "m' u = m u" using assms Suc.prems(1,2) by (auto simp: unreached_def)
  then have same: "m' u ?i = m u ?i" by simp
  show ?case
  proof (cases "pt_step M m u ?i (Suc n)")
    case None
    then show ?thesis by (auto simp: same pt_step_def Let_def split: if_splits)
  next
    case (Some v)
    have lev: "3 - length q = Suc n" using Suc.prems(3) by simp
    have "tbl M m root (q @ [?i]) = Some v" using Suc.prems(1) Some by (simp add: tbl_snoc lev)
    moreover have "idx_ok (q @ [?i])" "length (q @ [?i]) + n = 3"
      using Suc.prems(2,3) by (simp_all add: idx_ok_snoc)
    ultimately show ?thesis
      using Suc.IH [of "q @ [?i]" v] Some
      by (auto simp: same pt_step_def Let_def split: if_splits)
  qed
qed simp

lemma tables_agree:
  assumes agree_all: "\<forall>u. \<not> unreached M m root u \<longrightarrow> m' u = m u"
  shows "walk_wf M m root \<Longrightarrow> walk_wf M m' root"
    and "unreached M m' root u = unreached M m root u"
    and "pt_leaf M m' root w = pt_leaf M m root w"
    and "missing_tables M m' root w = missing_tables M m root w"
    and "blocked M m' root w = blocked M m root w"
proof -
  have agree: "\<And>u. \<not> unreached M m root u \<Longrightarrow> m' u = m u" using agree_all by blast
  have eq: "tbl M m' root q = tbl M m root q" if "idx_ok q" for q
    by (rule tbl_agree [OF agree that])
  show "walk_wf M m' root" if "walk_wf M m root" by (rule walk_wf_tbl_cong [OF eq that])
  show "unreached M m' root u = unreached M m root u" by (rule unreached_tbl_cong [OF eq])
  show "pt_leaf M m' root w = pt_leaf M m root w"
  proof (cases "tbl M m root (table_path w)")
    case (Some t)
    then have "m' t = m t" using agree unreachedD table_path_ok by metis
    with Some show ?thesis by (simp add: pt_leaf_at leaf_at_def eq)
  qed (simp add: pt_leaf_at leaf_at_def eq)
  have "tbl M m root [] = Some root" "idx_ok []" "length [] + 3 = 3" by (simp_all add: idx_ok_def)
  from walk_agree [OF agree this, where virt = w]
  show "missing_tables M m' root w = missing_tables M m root w" "blocked M m' root w = blocked M m root w"
    by (simp_all add: missing_tables_def blocked_def levels_down_3)
qed

text \<open>Two hierarchies that have no table in common, and a stock that belongs to neither.\<close>

definition tables_apart :: "machine \<Rightarrow> pmem \<Rightarrow> u64 \<Rightarrow> u64 \<Rightarrow> stock \<Rightarrow> bool" where
  "tables_apart M m root parent stk \<longleftrightarrow>
     walk_wf M m root \<and> walk_wf M m parent \<and> stock_ok M m root stk
     \<and> (\<forall>u. unreached M m root u \<and> u \<notin> set stk \<or> unreached M m parent u)"

text \<open>The flags both sides get, and the descriptor the parent is left with.\<close>

definition shared_flags :: "machine \<Rightarrow> u64 \<Rightarrow> u64" where
  "shared_flags M bits = (case mach_shared M (mach_flags M bits) of Some f \<Rightarrow> f | None \<Rightarrow> mach_flags M bits)"

definition shared_parent :: "machine \<Rightarrow> u64 \<Rightarrow> u64" where
  "shared_parent M bits =
     (case mach_shared M (mach_flags M bits) of
        Some f \<Rightarrow> mach_leaf M (mach_addr M bits) f
      | None \<Rightarrow> bits)"

context paging_machine
begin

lemma share_from_spec:
  assumes ap: "tables_apart M m root parent stk"
    and sh: "share_from M root parent virt m refs stk t = (res, m', refs', stk', t')"
  shows "case pt_leaf M m parent virt of
      None \<Rightarrow> res = Inr () \<and> m' = m \<and> refs' = refs \<and> stk' = stk \<and> t' = t
    | Some bits \<Rightarrow>
        tables_apart M m' root parent stk'
        \<and> res = (if blocked M m root virt then Inl Blocked
             else if length stk < missing_tables M m root virt then Inl ShortOfTables
             else if pt_leaf M m root virt \<noteq> None then Inl Occupied
             else Inr ())
        \<and> refs' = (if res = Inr () then refs(mach_addr M bits := refs (mach_addr M bits) + 1) else refs)
        \<and> (\<forall>w. pt_leaf M m' parent w =
             (if same_page w virt then Some (shared_parent M bits) else pt_leaf M m parent w))
        \<and> (\<forall>w. pt_leaf M m' root w =
             (if res = Inr () \<and> same_page w virt
              then Some (mach_leaf M (mach_addr M bits) (shared_flags M bits)) else pt_leaf M m root w))"
proof (cases "pt_leaf M m parent virt")
  case None
  with sh show ?thesis
    by (auto simp: share_from_def pt_leaf_def Let_def split: option.splits if_splits)
next
  case (Some bits)
  then obtain tb where tb: "leaf_table M m parent virt = Some tb" "m tb (index_of virt 0) = bits"
    "mach_present M bits"
    by (auto simp: pt_leaf_def Let_def split: option.splits if_splits)
  have wfp: "walk_wf M m parent" and wfr: "walk_wf M m root" and stk: "stock_ok M m root stk"
    and apart: "\<And>u. unreached M m root u \<and> u \<notin> set stk \<or> unreached M m parent u"
    using ap by (auto simp: tables_apart_def)
  let ?phys = "mach_addr M bits"
  define m1 where "m1 = (case mach_shared M (mach_flags M bits) of
    Some f \<Rightarrow> pt_store m tb (index_of virt 0) (mach_leaf M ?phys f) | None \<Rightarrow> m)"
  define t1 where "t1 = (case mach_shared M (mach_flags M bits) of Some _ \<Rightarrow> tlb_note virt t | None \<Rightarrow> t)"
  obtain r m2 stk2 t2 where pub: "publish M root virt ?phys (shared_flags M bits) m1 stk t1 = (r, m2, stk2, t2)"
    by (metis prod_cases4)
  have out: "res = map_sum id (\<lambda>_. ()) r" "m' = m2" "stk' = stk2"
    "refs' = (if res = Inr () then refs(?phys := refs ?phys + 1) else refs)"
    using sh tb pub
    by (auto simp: share_from_def Let_def m1_def t1_def shared_flags_def split: option.splits sum.splits)
  note tp = tb(1) [unfolded leaf_table_tbl]
  have ptb: "\<not> unreached M m parent tb" using tp unreachedD table_path_ok by metis
  have m1_other: "m1 u = m u" if "u \<noteq> tb" for u
    using that by (simp add: m1_def pt_store_def split: option.split)
  have agree: "m1 u = m u" if "\<not> unreached M m root u" for u
    using apart [of u] ptb that by (cases "u = tb") (auto simp: m1_other)
  have "\<forall>u. \<not> unreached M m root u \<longrightarrow> m1 u = m u" using agree by blast
  note root1 = tables_agree [OF this]
  have un1: "unreached M m1 root u = unreached M m root u" for u by (rule root1(2))
  have wfr1: "walk_wf M m1 root" by (rule root1(1) [OF wfr])
  have stk1: "stock_ok M m1 root stk"
    unfolding stock_ok_def
  proof (intro conjI ballI allI)
    show "distinct stk" using stk by (simp add: stock_ok_def)
  next
    fix f assume f: "f \<in> set stk"
    then have "f \<noteq> tb" using apart [of f] ptb by auto
    with f stk m1_other un1 show "frame_ok M f" "unreached M m1 root f" "\<And>i. \<not> mach_present M (m1 f i)"
      by (auto simp: stock_ok_def)
  qed
  have fl: "mach_present M (shared_flags M bits)"
    using tb(3) flags_present [of bits] shared_present by (auto simp: shared_flags_def split: option.split)
  have keep: "walk_wf M m1 parent" "unreached M m1 parent u = unreached M m parent u" for u
    using store_leaf_keeps(1,2) [OF wfp tp table_path_ok length_table_path] wfp
    by (auto simp: m1_def split: option.split)
  have leafp: "pt_leaf M m1 parent w =
      (if same_page w virt then Some (shared_parent M bits) else pt_leaf M m parent w)" for w
  proof (cases "mach_shared M (mach_flags M bits)")
    case None
    have "same_page w virt \<Longrightarrow> pt_leaf M m parent w = Some bits"
      using Some by (simp add: pt_leaf_at same_page_path)
    with None show ?thesis by (simp add: m1_def shared_parent_def)
  next
    case (Some f)
    have "mach_present M (mach_leaf M ?phys f)"
      using Some fl by (intro leaf_present) (simp add: shared_flags_def)
    with Some show ?thesis
      using pt_leaf_store [OF wfp tb(1), of "mach_leaf M ?phys f" w] by (simp add: m1_def shared_parent_def)
  qed
  note ps = publish_spec [OF wfr1 stk1 fl pub]
  have agree2: "m2 u = m1 u" if "\<not> unreached M m1 parent u" for u
    using ps apart [of u] keep(2) un1 that by auto
  have "\<forall>u. \<not> unreached M m1 parent u \<longrightarrow> m2 u = m1 u" using agree2 by blast
  note par2 = tables_agree [OF this]
  have apart2: "unreached M m2 root u \<and> u \<notin> set stk2 \<or> unreached M m2 parent u" for u
    using ps apart [of u] keep(2) un1 par2(2) by auto
  have wf2: "walk_wf M m2 root" "stock_ok M m2 root stk2" using ps by auto
  have "tables_apart M m2 root parent stk2"
    unfolding tables_apart_def
    by (intro conjI allI wf2 par2(1) keep(1) apart2)
  moreover have "res = r" using out(1) by (cases r) auto
  ultimately show ?thesis
    using Some out(2-4) ps root1(3-5) leafp par2(3) by simp
qed

end

section \<open>Finding the next table\<close>

lemma index_of_nat:
  assumes "v < 2 ^ 64"
  shows "index_of (word_of_nat v) level = v div 2 ^ (PAGE_BITS + LEVEL_BITS * level) mod 512"
proof -
  let ?n = "PAGE_BITS + LEVEL_BITS * level"
  have m: "(0x1FF :: u64) = mask 9" by (simp add: mask_eq_exp_minus_1)
  have "index_of (word_of_nat v) level = unat (take_bit 9 (drop_bit ?n (word_of_nat v :: u64)))"
    unfolding index_of_def m take_bit_eq_mask ..
  also have "\<dots> = take_bit 9 (drop_bit ?n (unat (word_of_nat v :: u64)))"
    using unsigned_less [of "word_of_nat v :: u64", where 'a = nat]
    by (simp only: unsigned_take_bit_eq unsigned_drop_bit_eq) (simp add: take_bit_nat_eq_self)
  also have "unat (word_of_nat v :: u64) = v" using assms by (simp add: unat_of_nat)
  finally show ?thesis by (simp add: take_bit_eq_mod drop_bit_eq_div)
qed

definition table_of :: "machine \<Rightarrow> pmem \<Rightarrow> u64 \<Rightarrow> nat \<Rightarrow> u64 option" where
  "table_of M m root v = leaf_table M m root (word_of_nat v)"

lemma descend_Inr: "descend M m virt [3, 2, 1] root = Inr t \<longleftrightarrow> leaf_table M m root virt = Some t"
  by (auto simp: leaf_table_def Option.bind_def split: option.splits)

lemma descend_Inl:
  assumes "descend M m v [3, 2, 1] root = Inl level"
    and "\<And>l. level \<le> l \<Longrightarrow> l \<le> 3 \<Longrightarrow> index_of w l = index_of v l"
  shows "level \<in> {1, 2, 3}" and "leaf_table M m root w = None"
  using assms by (auto simp: leaf_table_def Option.bind_def split: option.splits)

lemma div_power_le:
  fixes v w :: nat
  assumes "v div 2 ^ a = w div 2 ^ a" and "a \<le> b"
  shows "v div 2 ^ b = w div 2 ^ b"
proof -
  have "x div 2 ^ b = x div 2 ^ a div 2 ^ (b - a)" for x :: nat
    using assms(2) by (simp add: div_exp_eq)
  with assms(1) show ?thesis by simp
qed

text \<open>A descriptor that stops the walk stops it for everything it covers.\<close>

lemma descend_skips:
  assumes "descend M m (word_of_nat v) [3, 2, 1] root = Inl level"
    and "align_down v (2 ^ (PAGE_BITS + LEVEL_BITS * level)) \<le> w"
    and "w < align_down v (2 ^ (PAGE_BITS + LEVEL_BITS * level)) + 2 ^ (PAGE_BITS + LEVEL_BITS * level)"
    and "v < 2 ^ 64" "w < 2 ^ 64"
  shows "table_of M m root w = None"
proof -
  let ?n = "\<lambda>l. PAGE_BITS + LEVEL_BITS * l"
  have "w div 2 ^ ?n level = v div 2 ^ ?n level"
    using assms(2,3) by (simp add: align_down_def div_nat_eqI mult.commute)
  then have "index_of (word_of_nat w) l = index_of (word_of_nat v) l" if "level \<le> l" for l
    using div_power_le [of w "?n level" v "?n l"] that assms(4,5) by (simp add: index_of_nat)
  with descend_Inl(2) [OF assms(1)] show ?thesis by (simp add: table_of_def)
qed

lemma next_scan_spec:
  assumes "limit \<le> 2 ^ 48" and "2 ^ 21 dvd virt"
  shows "case next_scan M m root limit virt of
      Some v \<Rightarrow> virt \<le> v \<and> v < limit \<and> 2 ^ 21 dvd v \<and> table_of M m root v \<noteq> None
        \<and> (\<forall>w. virt \<le> w \<and> w < v \<longrightarrow> table_of M m root w = None)
    | None \<Rightarrow> \<forall>w. virt \<le> w \<and> w < limit \<longrightarrow> table_of M m root w = None"
  using assms
proof (induction M m root limit virt rule: next_scan.induct)
  case (1 M m root limit virt)
  show ?case
  proof (cases "virt < limit")
    case False
    then show ?thesis by (auto simp: next_scan.simps [of M m root limit virt])
  next
    case True
    with 1(2) have v48: "virt < 2 ^ 48" by simp
    show ?thesis
    proof (cases "descend M m (word_of_nat virt) [3, 2, 1] root")
      case (Inr t)
      then have "next_scan M m root limit virt = Some virt" using True
        by (simp add: next_scan.simps [of M m root limit virt] del: descend.simps)
      moreover have "table_of M m root virt = Some t" using Inr descend_Inr unfolding table_of_def by blast
      ultimately show ?thesis using True 1(3) by auto
    next
      case (Inl level)
      let ?sz = "2 ^ (PAGE_BITS + LEVEL_BITS * level) :: nat"
      let ?nxt = "align_down virt ?sz + ?sz"
      have level: "level \<in> {1, 2, 3}" using descend_Inl(1) [OF Inl] by blast
      then have sz: "?sz \<le> 2 ^ 39" "2 ^ 21 dvd ?sz" by (auto simp: PAGE_BITS_def LEVEL_BITS_def)
      have ad: "align_down virt ?sz \<le> virt" by (simp add: align_down_def)
      have "?nxt \<le> U64_MAX" using ad sz(1) v48 by (simp add: U64_MAX_def)
      then have ca: "checked_add U64_MAX (align_down virt ?sz) ?sz = Some ?nxt"
        by (simp add: checked_add_def)
      have eq: "next_scan M m root limit virt = next_scan M m root limit ?nxt"
        using True Inl ca
        by (simp add: next_scan.simps [of M m root limit virt] Let_def del: descend.simps)
      have "?sz dvd ?nxt" by (simp add: align_down_def)
      with sz(2) have "2 ^ 21 dvd ?nxt" by (rule dvd_trans)
      from 1(1) [OF _ Inl refl ca 1(2) this] have IH: "case next_scan M m root limit ?nxt of
          Some v \<Rightarrow> ?nxt \<le> v \<and> v < limit \<and> 2 ^ 21 dvd v \<and> table_of M m root v \<noteq> None
            \<and> (\<forall>w. ?nxt \<le> w \<and> w < v \<longrightarrow> table_of M m root w = None)
        | None \<Rightarrow> \<forall>w. ?nxt \<le> w \<and> w < limit \<longrightarrow> table_of M m root w = None"
        using True by blast
      have skip: "table_of M m root w = None" if "virt \<le> w" "w < ?nxt" for w
        using descend_skips [OF Inl _ that(2)] ad that \<open>?nxt \<le> U64_MAX\<close> v48 by (simp add: U64_MAX_def)
      have "virt < ?nxt" using align_down_next [of ?sz virt] by simp
      then show ?thesis
        unfolding eq using IH skip by (auto split: option.splits simp: not_less) (metis not_less)+
    qed
  qed
qed

lemma next_populated_spec:
  "case next_populated M m root start limit of
      Some v \<Rightarrow> align_down start (2 ^ 21) \<le> v \<and> v < limit \<and> v < 2 ^ 48 \<and> 2 ^ 21 dvd v
        \<and> table_of M m root v \<noteq> None
        \<and> (\<forall>w. align_down start (2 ^ 21) \<le> w \<and> w < v \<longrightarrow> table_of M m root w = None)
    | None \<Rightarrow> \<forall>w. align_down start (2 ^ 21) \<le> w \<and> w < limit \<and> w < 2 ^ 48 \<longrightarrow> table_of M m root w = None"
proof -
  have n: "PAGE_BITS + LEVEL_BITS * 1 = 21" "PAGE_BITS + LEVEL_BITS * 4 = 48"
    by (simp_all add: PAGE_BITS_def LEVEL_BITS_def)
  have "min limit (2 ^ 48) \<le> (2 ^ 48 :: nat)" "2 ^ 21 dvd align_down start (2 ^ 21)"
    by (simp_all add: align_down_def)
  from next_scan_spec [OF this, of M m root] show ?thesis
    unfolding next_populated_def n by (auto split: option.splits)
qed

end
