(* ===== verification/Paging.thy ===== *)
theory Paging
  imports Page_Change
begin

text \<open>
  \<open>kernel/src/arch/x86_64/paging.rs\<close> and \<open>kernel/src/arch/aarch64/paging.rs\<close>: what a descriptor
  is made of on each machine.  Both are instances of the contract the walk rests on, so the
  properties of the walk hold on both.  The instructions that load a table base and invalidate a
  translation are not modelled.
\<close>

section \<open>Definitions\<close>

subsection \<open>x86-64\<close>

definition X86_PRESENT :: u64 where "X86_PRESENT = 2 ^ 0"
definition X86_WRITABLE :: u64 where "X86_WRITABLE = 2 ^ 1"
definition X86_USER :: u64 where "X86_USER = 2 ^ 2"
definition X86_HUGE :: u64 where "X86_HUGE = 2 ^ 7"
definition X86_COW :: u64 where "X86_COW = 2 ^ 9"
definition X86_NO_EXECUTE :: u64 where "X86_NO_EXECUTE = 2 ^ 63"
definition X86_ADDR_MASK :: u64 where "X86_ADDR_MASK = 0x000FFFFFFFFFF000"

definition x86_leaf :: "u64 \<Rightarrow> u64 \<Rightarrow> u64" where
  "x86_leaf phys flags = (phys AND X86_ADDR_MASK) OR (flags AND NOT X86_ADDR_MASK) OR X86_PRESENT"

definition x86_table :: "u64 \<Rightarrow> u64 \<Rightarrow> u64" where
  "x86_table phys flg = (phys AND X86_ADDR_MASK) OR X86_PRESENT OR X86_WRITABLE OR (flg AND X86_USER)"

definition x86_present :: "u64 \<Rightarrow> bool" where
  "x86_present bits \<longleftrightarrow> bits AND X86_PRESENT \<noteq> 0"

definition x86_ends_walk :: "u64 \<Rightarrow> nat \<Rightarrow> bool" where
  "x86_ends_walk bits level \<longleftrightarrow> level > 0 \<and> bits AND X86_HUGE \<noteq> 0"

definition x86_addr :: "u64 \<Rightarrow> u64" where
  "x86_addr bits = bits AND X86_ADDR_MASK"

definition x86_flags :: "u64 \<Rightarrow> u64" where
  "x86_flags bits = bits AND NOT X86_ADDR_MASK"

definition x86_shared :: "u64 \<Rightarrow> u64 option" where
  "x86_shared flags =
     (if flags AND X86_WRITABLE \<noteq> 0 then Some ((flags AND NOT X86_WRITABLE) OR X86_COW) else None)"

definition x86_widen :: "u64 \<Rightarrow> u64 \<Rightarrow> u64 option" where
  "x86_widen table_bits leaf_flags =
     (if leaf_flags AND X86_USER \<noteq> 0 \<and> table_bits AND X86_USER = 0
      then Some (table_bits OR X86_USER) else None)"

definition x86_64_machine :: machine where
  "x86_64_machine = \<lparr>mach_leaf = x86_leaf, mach_table = x86_table, mach_present = x86_present,
     mach_ends_walk = x86_ends_walk, mach_addr = x86_addr, mach_flags = x86_flags,
     mach_shared = x86_shared, mach_widen = x86_widen\<rparr>"

subsection \<open>AArch64\<close>

definition ARM_PRESENT :: u64 where "ARM_PRESENT = 2 ^ 0"
definition ARM_PAGE_DESCRIPTOR :: u64 where "ARM_PAGE_DESCRIPTOR = 2 ^ 1"
definition ARM_NO_CACHE :: u64 where "ARM_NO_CACHE = 2 ^ 2"
definition ARM_USER :: u64 where "ARM_USER = 2 ^ 6"
definition ARM_READ_ONLY :: u64 where "ARM_READ_ONLY = 2 ^ 7"
definition ARM_SHARED :: u64 where "ARM_SHARED = 2 ^ 8 OR 2 ^ 9"
definition ARM_ACCESSED :: u64 where "ARM_ACCESSED = 2 ^ 10"
definition ARM_NO_EXECUTE_EL1 :: u64 where "ARM_NO_EXECUTE_EL1 = 2 ^ 53"
definition ARM_NO_EXECUTE :: u64 where "ARM_NO_EXECUTE = 2 ^ 54"
definition ARM_WRITABLE :: u64 where "ARM_WRITABLE = 2 ^ 55"
definition ARM_COW :: u64 where "ARM_COW = 2 ^ 56"
definition ARM_ADDR_MASK :: u64 where "ARM_ADDR_MASK = 0x0000FFFFFFFFF000"
definition ARM_FLAG_MASK :: u64 where "ARM_FLAG_MASK = NOT ARM_ADDR_MASK"

definition arm_leaf :: "u64 \<Rightarrow> u64 \<Rightarrow> u64" where
  "arm_leaf phys flags =
     (let bits = (phys AND ARM_ADDR_MASK) OR (flags AND ARM_FLAG_MASK) OR ARM_PAGE_DESCRIPTOR
                   OR ARM_ACCESSED OR ARM_SHARED;
          bits = (if flags AND ARM_WRITABLE = 0 \<or> flags AND ARM_COW \<noteq> 0
                  then bits OR ARM_READ_ONLY else bits AND NOT ARM_READ_ONLY)
      in if flags AND (ARM_NO_EXECUTE OR ARM_USER) \<noteq> 0 then bits OR ARM_NO_EXECUTE_EL1 else bits)"

definition arm_table :: "u64 \<Rightarrow> u64 \<Rightarrow> u64" where
  "arm_table phys flg = (phys AND ARM_ADDR_MASK) OR ARM_PRESENT OR ARM_PAGE_DESCRIPTOR"

definition arm_present :: "u64 \<Rightarrow> bool" where
  "arm_present bits \<longleftrightarrow> bits AND ARM_PRESENT \<noteq> 0"

definition arm_ends_walk :: "u64 \<Rightarrow> nat \<Rightarrow> bool" where
  "arm_ends_walk bits level \<longleftrightarrow> level > 0 \<and> bits AND ARM_PAGE_DESCRIPTOR = 0"

definition arm_addr :: "u64 \<Rightarrow> u64" where
  "arm_addr bits = bits AND ARM_ADDR_MASK"

definition arm_flags :: "u64 \<Rightarrow> u64" where
  "arm_flags bits = bits AND ARM_FLAG_MASK"

definition arm_shared :: "u64 \<Rightarrow> u64 option" where
  "arm_shared flags = (if flags AND ARM_WRITABLE \<noteq> 0 then Some (flags OR ARM_COW) else None)"

definition arm_widen :: "u64 \<Rightarrow> u64 \<Rightarrow> u64 option" where
  "arm_widen table_bits leaf_flags = None"

definition aarch64_machine :: machine where
  "aarch64_machine = \<lparr>mach_leaf = arm_leaf, mach_table = arm_table, mach_present = arm_present,
     mach_ends_walk = arm_ends_walk, mach_addr = arm_addr, mach_flags = arm_flags,
     mach_shared = arm_shared, mach_widen = arm_widen\<rparr>"

definition invalidation_operand :: "u64 \<Rightarrow> u64" where
  "invalidation_operand virt = drop_bit 12 virt AND 0xFFFFFFFFFFF"

section \<open>Bits\<close>

lemma mask_range_bit: "c = mask hi AND NOT (mask lo) \<Longrightarrow> bit c n \<longleftrightarrow> lo \<le> n \<and> n < hi \<and> n < 64" for c :: u64
  by (auto simp: bit_and_iff bit_not_iff bit_mask_iff)

lemma x86_mask_bit: "bit X86_ADDR_MASK n \<longleftrightarrow> 12 \<le> n \<and> n < 52"
  using mask_range_bit [of X86_ADDR_MASK 52 12 n]
  by (auto simp: X86_ADDR_MASK_def mask_eq_exp_minus_1)

lemma arm_mask_bit: "bit ARM_ADDR_MASK n \<longleftrightarrow> 12 \<le> n \<and> n < 48"
  using mask_range_bit [of ARM_ADDR_MASK 48 12 n]
  by (auto simp: ARM_ADDR_MASK_def mask_eq_exp_minus_1)

lemma single_bit:
  fixes c :: u64
  assumes "c = 2 ^ k" "k < 64"
  shows "bit c n \<longleftrightarrow> n = k" and "x AND c = 0 \<longleftrightarrow> \<not> bit x k"
  unfolding assms(1) using assms(2)
  by (auto simp: bit_exp_iff and_exp_eq_0_iff_not_bit simp del: power_0 power_one_right)

lemmas x86_bits = single_bit [OF X86_PRESENT_def, simplified] single_bit [OF X86_WRITABLE_def, simplified]
  single_bit [OF X86_USER_def, simplified] single_bit [OF X86_HUGE_def, simplified]
  single_bit [OF X86_COW_def, simplified]
lemmas arm_bits = single_bit [OF ARM_PRESENT_def, simplified] single_bit [OF ARM_PAGE_DESCRIPTOR_def, simplified]
  single_bit [OF ARM_USER_def, simplified] single_bit [OF ARM_READ_ONLY_def, simplified]
  single_bit [OF ARM_ACCESSED_def, simplified] single_bit [OF ARM_NO_EXECUTE_EL1_def, simplified]
  single_bit [OF ARM_NO_EXECUTE_def, simplified] single_bit [OF ARM_WRITABLE_def, simplified]
  single_bit [OF ARM_COW_def, simplified]
lemmas word_bits = bit_and_iff bit_or_iff bit_not_iff

lemma arm_shared_bit: "bit ARM_SHARED n \<longleftrightarrow> n = 8 \<or> n = 9"
  using single_bit(1) [of "2 ^ 8" 8 n] single_bit(1) [of "2 ^ 9" 9 n]
  unfolding ARM_SHARED_def bit_or_iff by auto



lemma x86_leaf_bit:
  "n < 64 \<Longrightarrow> bit (x86_leaf p f) n \<longleftrightarrow> (if 12 \<le> n \<and> n < 52 then bit p n else bit f n \<or> n = 0)"
  by (auto simp: x86_leaf_def x86_bits word_bits x86_mask_bit)

lemma arm_nx_bit: "f AND (ARM_NO_EXECUTE OR ARM_USER) = 0 \<longleftrightarrow> \<not> bit f 54 \<and> \<not> bit f 6"
  by (simp add: bit.conj_disj_distrib or_eq_0_iff arm_bits)

lemma arm_leaf_bit:
  assumes "n < 64"
  shows "bit (arm_leaf p f) n \<longleftrightarrow>
     (if 12 \<le> n \<and> n < 48 then bit p n
      else if n = 7 then \<not> bit f 55 \<or> bit f 56
      else if n = 53 then bit f 53 \<or> bit f 54 \<or> bit f 6
      else bit f n \<or> n = 1 \<or> n = 8 \<or> n = 9 \<or> n = 10)"
  using assms unfolding arm_leaf_def ARM_FLAG_MASK_def Let_def
  by (auto simp: arm_bits word_bits arm_mask_bit arm_nx_bit arm_shared_bit)

section \<open>Both machines keep the contract\<close>



section \<open>Properties\<close>















text \<open>
  C27 (safety): after a fork neither side can write the shared page.  Of every descriptor \<open>leaf\<close>
  builds, both the one the parent is left with and the one the child gets are read-only to the
  hardware: without the writable bit on x86-64, with the read-only bit on AArch64.
\<close>

theorem shared_page_not_writable:
  "(let b = x86_leaf p f in
      shared_parent x86_64_machine b AND X86_WRITABLE = 0
      \<and> x86_leaf (x86_addr b) (shared_flags x86_64_machine b) AND X86_WRITABLE = 0)
   \<and> (let b = arm_leaf p f in
      shared_parent aarch64_machine b AND ARM_READ_ONLY \<noteq> 0
      \<and> arm_leaf (arm_addr b) (shared_flags aarch64_machine b) AND ARM_READ_ONLY \<noteq> 0)"
proof (intro conjI)
  show "let b = x86_leaf p f in
      shared_parent x86_64_machine b AND X86_WRITABLE = 0
      \<and> x86_leaf (x86_addr b) (shared_flags x86_64_machine b) AND X86_WRITABLE = 0"
    by (auto simp: Let_def shared_parent_def shared_flags_def x86_64_machine_def x86_shared_def
        x86_flags_def x86_bits x86_leaf_bit word_bits x86_mask_bit split: option.split if_splits)
  show "let b = arm_leaf p f in
      shared_parent aarch64_machine b AND ARM_READ_ONLY \<noteq> 0
      \<and> arm_leaf (arm_addr b) (shared_flags aarch64_machine b) AND ARM_READ_ONLY \<noteq> 0"
    by (auto simp: Let_def shared_parent_def shared_flags_def aarch64_machine_def arm_shared_def
        arm_flags_def ARM_FLAG_MASK_def arm_bits arm_leaf_bit word_bits arm_mask_bit split: option.split if_splits)
qed

text \<open>
  \<open>next_populated\<close> ends and answers the lowest table at or above the start: the
  address it returns has a last-level table and lies below the limit, no address in between has
  one, and when it returns nothing there is none.
\<close>

theorem next_populated_is_lowest:
  "case next_populated M m root start limit of
      Some v \<Rightarrow> align_down start (2 ^ 21) \<le> v \<and> v < limit \<and> v < 2 ^ 48 \<and> 2 ^ 21 dvd v
        \<and> table_of M m root v \<noteq> None
        \<and> {w. align_down start (2 ^ 21) \<le> w \<and> w < v \<and> table_of M m root w \<noteq> None} = {}
    | None \<Rightarrow> {w. align_down start (2 ^ 21) \<le> w \<and> w < limit \<and> w < 2 ^ 48 \<and> table_of M m root w \<noteq> None} = {}"
  using next_populated_spec [where M = M and m = m and root = root and start = start and limit = limit] by (auto split: option.splits)


text \<open>
  C28 (roundtrip): reading the flags of a descriptor back and building it again gives the same
  descriptor on both machines, and on x86-64 the flags are the word asked for.  On AArch64 they are
  not: the bits the hardware needs are read back with them.
\<close>

theorem leaf_flags_roundtrip:
  "x86_leaf p (x86_flags (x86_leaf p f)) = x86_leaf p f
   \<and> arm_leaf p (arm_flags (arm_leaf p f)) = arm_leaf p f
   \<and> x86_flags (x86_leaf p f) = (f AND NOT X86_ADDR_MASK) OR X86_PRESENT
   \<and> arm_flags (arm_leaf p f) AND (ARM_PRESENT OR ARM_USER OR ARM_NO_EXECUTE OR ARM_WRITABLE OR ARM_COW)
       = f AND (ARM_PRESENT OR ARM_USER OR ARM_NO_EXECUTE OR ARM_WRITABLE OR ARM_COW)
   \<and> arm_flags (arm_leaf p f) AND (ARM_PAGE_DESCRIPTOR OR ARM_ACCESSED) \<noteq> 0"
proof (intro conjI)
  show "x86_leaf p (x86_flags (x86_leaf p f)) = x86_leaf p f"
    by (rule bit_word_eqI) (auto simp: x86_leaf_bit x86_flags_def word_bits x86_mask_bit)
  show "arm_leaf p (arm_flags (arm_leaf p f)) = arm_leaf p f"
    by (rule bit_word_eqI)
      (auto simp: arm_leaf_bit arm_flags_def ARM_FLAG_MASK_def word_bits arm_mask_bit)
  show "x86_flags (x86_leaf p f) = (f AND NOT X86_ADDR_MASK) OR X86_PRESENT"
    by (rule bit_word_eqI)
      (auto simp: x86_leaf_bit x86_flags_def word_bits x86_mask_bit x86_bits)
  show "arm_flags (arm_leaf p f) AND (ARM_PRESENT OR ARM_USER OR ARM_NO_EXECUTE OR ARM_WRITABLE OR ARM_COW)
       = f AND (ARM_PRESENT OR ARM_USER OR ARM_NO_EXECUTE OR ARM_WRITABLE OR ARM_COW)"
    by (rule bit_word_eqI)
      (auto simp: arm_leaf_bit arm_flags_def ARM_FLAG_MASK_def word_bits arm_mask_bit arm_bits)
  have "bit (arm_flags (arm_leaf p f) AND (ARM_PAGE_DESCRIPTOR OR ARM_ACCESSED)) 1"
    by (simp add: arm_leaf_bit arm_flags_def ARM_FLAG_MASK_def word_bits arm_mask_bit arm_bits)
  then show "arm_flags (arm_leaf p f) AND (ARM_PAGE_DESCRIPTOR OR ARM_ACCESSED) \<noteq> 0" by auto
qed

end
