(* ===== verification/Fat_Time.thy ===== *)
theory Fat_Time
  imports Prelude
begin

text \<open>
  \<open>kernel/src/storage/fat/time.rs\<close>: FAT timestamps.  Seconds and days are integers, the stored
  fields 16-bit words.  The theorem is the round trip: a stamp read back is the moment it was made
  from, to the two seconds a FAT stamp has.
\<close>

section \<open>Definitions\<close>

definition FAT_EPOCH :: int where "FAT_EPOCH = 315532800"
definition FAT_END :: int where "FAT_END = 4354819198"

record stamp =
  st_date :: u16
  st_time :: u16
  st_hundredths :: u8

text \<open>Division in the source truncates; on the non-negative operands here that is \<open>div\<close>, and the
  branches make the operand of the one signed division carry the sign the source gives it.\<close>

definition civil_from_days :: "int \<Rightarrow> int \<times> int \<times> int" where
  "civil_from_days days =
     (let z = days + 719468;
          era = (if z \<ge> 0 then z div 146097 else - ((146096 - z) div 146097));
          doe = z - era * 146097;
          yoe = (doe - doe div 1460 + doe div 36524 - doe div 146096) div 365;
          doy = doe - (365 * yoe + yoe div 4 - yoe div 100);
          mp = (5 * doy + 2) div 153;
          day = doy - (153 * mp + 2) div 5 + 1;
          month = (if mp < 10 then mp + 3 else mp - 9);
          year = yoe + era * 400 + (if month \<le> 2 then 1 else 0)
      in (year, month, day))"

definition days_from_civil :: "int \<Rightarrow> int \<Rightarrow> int \<Rightarrow> int" where
  "days_from_civil year0 month day =
     (let year = (if month \<le> 2 then year0 - 1 else year0);
          era = (if year \<ge> 0 then year div 400 else - ((399 - year) div 400));
          yoe = year - era * 400;
          mp = (if month > 2 then month - 3 else month + 9);
          doy = (153 * mp + 2) div 5 + day - 1;
          doe = yoe * 365 + yoe div 4 - yoe div 100 + doy
      in era * 146097 + doe - 719468)"

definition clamp :: "int \<Rightarrow> int \<Rightarrow> int \<Rightarrow> int" where
  "clamp lo hi v = max lo (min hi v)"

definition stamp_encode :: "int \<Rightarrow> stamp" where
  "stamp_encode unix0 =
     (let unix = clamp FAT_EPOCH FAT_END unix0;
          (year, month, day) = civil_from_days (unix div 86400);
          seconds = unix mod 86400
      in \<lparr>st_date = push_bit 9 (word_of_int (year - 1980)) OR push_bit 5 (word_of_int month) OR word_of_int day,
          st_time = push_bit 11 (word_of_int (seconds div 3600))
            OR push_bit 5 (word_of_int (seconds div 60 mod 60)) OR word_of_int (seconds mod 60 div 2),
          st_hundredths = (if seconds mod 2 = 1 then 100 else 0)\<rparr>)"

definition stamp_decode :: "u16 \<Rightarrow> u16 \<Rightarrow> int" where
  "stamp_decode date tm =
     (let year = 1980 + uint (drop_bit 9 date);
          month = uint (drop_bit 5 date AND 0x0F);
          day = uint (date AND 0x1F);
          hour = uint (drop_bit 11 tm);
          minute = uint (drop_bit 5 tm AND 0x3F);
          second = uint ((tm AND 0x1F) * 2)
      in if \<not> (1 \<le> month \<and> month \<le> 12) \<or> day = 0 \<or> hour > 23 \<or> minute > 59 \<or> second > 59
         then FAT_EPOCH
         else days_from_civil year month day * 86400 + hour * 3600 + minute * 60 + second)"

section \<open>The calendar\<close>

text \<open>The day of a 400-year era, by century, leap cycle, year of the cycle and day of the year.\<close>

lemma era_day_split:
  fixes doe :: int
  assumes "0 \<le> doe" "doe < 146097"
  obtains c q r k where "doe = 36524 * c + 1461 * q + 365 * r + k" "0 \<le> c" "c \<le> 3" "0 \<le> q" "q \<le> 24"
    "0 \<le> r" "r \<le> 3" "0 \<le> k" "k \<le> 365" "k = 365 \<longrightarrow> r = 3" "q = 24 \<and> r = 3 \<and> k = 365 \<longrightarrow> c = 3"
proof -
  define c where "c = min (doe div 36524) 3"
  define d where "d = doe - 36524 * c"
  define q where "q = d div 1461"
  define s where "s = d - 1461 * q"
  define r where "r = min (s div 365) 3"
  define k where "k = s - 365 * r"
  have c: "0 \<le> c" "c \<le> 3" "0 \<le> d" "d \<le> 36524" "d = 36524 \<longrightarrow> c = 3"
    using div_mult_mod_eq [of doe 36524] pos_mod_bound [of 36524 doe] pos_mod_sign [of 36524 doe] assms
    unfolding c_def d_def min_def by (auto split: if_splits)
  have q: "0 \<le> q" "q \<le> 24" "0 \<le> s" "s < 1461"
    using div_mult_mod_eq [of d 1461] pos_mod_bound [of 1461 d] pos_mod_sign [of 1461 d] c
    unfolding q_def s_def by auto
  have r: "0 \<le> r" "r \<le> 3" "0 \<le> k" "k \<le> 365" "k = 365 \<longrightarrow> r = 3"
    using div_mult_mod_eq [of s 365] pos_mod_bound [of 365 s] pos_mod_sign [of 365 s] q
    unfolding r_def k_def min_def by (auto split: if_splits)
  have sum: "doe = 36524 * c + 1461 * q + 365 * r + k" by (simp add: d_def s_def k_def)
  moreover have "q = 24 \<and> r = 3 \<and> k = 365 \<longrightarrow> c = 3"
    using c(5) by (auto simp: d_def s_def k_def)
  ultimately show ?thesis using that c q r by blast
qed

lemma year_of_era:
  fixes doe :: int
  assumes "0 \<le> doe" "doe < 146097"
  defines "yoe \<equiv> (doe - doe div 1460 + doe div 36524 - doe div 146096) div 365"
  shows "0 \<le> yoe" "yoe \<le> 399" "365 * yoe + yoe div 4 - yoe div 100 \<le> doe"
    "doe \<le> 365 * yoe + yoe div 4 - yoe div 100 + 365"
proof -
  from era_day_split [OF assms(1,2)] obtain c q r k where
    doe: "doe = 36524 * c + 1461 * q + 365 * r + k" and b: "0 \<le> c" "c \<le> 3" "0 \<le> q" "q \<le> 24"
    "0 \<le> r" "r \<le> 3" "0 \<le> k" "k \<le> 365" "k = 365 \<longrightarrow> r = 3" "q = 24 \<and> r = 3 \<and> k = 365 \<longrightarrow> c = 3" .
  define y where "y = 100 * c + 4 * q + r"
  have y4: "y div 4 = 25 * c + q" and y100: "y div 100 = c" using b by (simp_all add: y_def)
  define w where "w = 24 * c + q + 365 * r + k"
  define dl where "dl = (if w \<ge> 1460 then 1 else 0 :: int)"
  have w: "0 \<le> w" "w < 2920" using b by (simp_all add: w_def)
  have d1460: "doe div 1460 = 25 * c + q + dl"
  proof (rule int_div_pos_eq)
    show "doe = 1460 * (25 * c + q + dl) + (w - 1460 * dl)" by (simp add: doe w_def)
  qed (use w in \<open>auto simp: dl_def\<close>)
  have e: "doe div 36524 - doe div 146096 = c"
  proof (cases "q = 24 \<and> r = 3 \<and> k = 365")
    case True
    with b(10) have "doe = 146096" "c = 3" by (simp_all add: doe)
    then show ?thesis by simp
  next
    case False
    with b have m: "1461 * q + 365 * r + k < 36524" by linarith
    have "doe div 36524 = c"
      by (rule int_div_pos_eq [where r = "1461 * q + 365 * r + k"]) (use doe b m in auto)
    moreover have "doe div 146096 = 0" using doe b m by (simp add: div_pos_pos_trivial)
    ultimately show ?thesis by simp
  qed
  have "doe - doe div 1460 + doe div 36524 - doe div 146096 = 365 * y + (k - dl)"
    using d1460 e doe by (simp add: y_def algebra_simps)
  moreover have "0 \<le> k - dl" "k - dl < 365" using b by (auto simp: dl_def w_def)
  ultimately have yoe: "yoe = y" unfolding yoe_def by simp
  have start: "365 * y + y div 4 - y div 100 = doe - k" unfolding y4 y100 by (simp add: doe y_def)
  show "0 \<le> yoe" "yoe \<le> 399" using b by (simp_all add: yoe y_def)
  show "365 * yoe + yoe div 4 - yoe div 100 \<le> doe" "doe \<le> 365 * yoe + yoe div 4 - yoe div 100 + 365"
    using b start by (simp_all add: yoe)
qed

lemma civil_fields:
  assumes "civil_from_days days = (year, month, day)" and "0 \<le> days"
  shows "days_from_civil year month day = days" "1 \<le> month" "month \<le> 12" "1 \<le> day" "day \<le> 31"
    and "3652 \<le> days \<Longrightarrow> 1980 \<le> year" and "days \<le> 50402 \<Longrightarrow> year \<le> 2107"
proof -
  define z where "z = days + 719468"
  define era where "era = z div 146097"
  define doe where "doe = z - era * 146097"
  define yoe where "yoe = (doe - doe div 1460 + doe div 36524 - doe div 146096) div 365"
  define doy where "doy = doe - (365 * yoe + yoe div 4 - yoe div 100)"
  define mp where "mp = (5 * doy + 2) div 153"
  have z: "0 \<le> z" using assms(2) by (simp add: z_def)
  have doe: "0 \<le> doe" "doe < 146097"
    using div_mult_mod_eq [of z 146097] pos_mod_bound [of 146097 z] pos_mod_sign [of 146097 z]
    by (auto simp: doe_def era_def)
  note y = year_of_era [OF doe, folded yoe_def]
  have doy: "0 \<le> doy" "doy \<le> 365" using y(3,4) by (simp_all add: doy_def)
  have mp: "0 \<le> mp" "mp \<le> 11" "153 * mp \<le> 5 * doy + 2" "5 * doy + 2 < 153 * mp + 153"
    using div_mult_mod_eq [of "5 * doy + 2" 153] pos_mod_bound [of 153 "5 * doy + 2"]
      pos_mod_sign [of 153 "5 * doy + 2"] doy
    by (auto simp: mp_def)
  have fields: "month = (if mp < 10 then mp + 3 else mp - 9)" "day = doy - (153 * mp + 2) div 5 + 1"
    "year = yoe + era * 400 + (if month \<le> 2 then 1 else 0)"
    using assms(1)
    unfolding civil_from_days_def Let_def z_def [symmetric] if_P [OF z] era_def [symmetric]
      doe_def [symmetric] yoe_def [symmetric] doy_def [symmetric] mp_def [symmetric]
    by auto
  have low: "month \<le> 2 \<longleftrightarrow> 10 \<le> mp" using fields(1) mp by auto
  show "1 \<le> month" "month \<le> 12" using fields(1) mp by auto
  have five: "5 * ((153 * mp + 2) div 5) \<le> 153 * mp + 2" "153 * mp + 2 < 5 * ((153 * mp + 2) div 5) + 5"
    using div_mult_mod_eq [of "153 * mp + 2" 5] pos_mod_bound [of 5 "153 * mp + 2"]
      pos_mod_sign [of 5 "153 * mp + 2"] by auto
  show "1 \<le> day" "day \<le> 31" using fields(2) mp(3,4) five by linarith+
  have era0: "0 \<le> era" using z by (simp add: era_def pos_imp_zdiv_nonneg_iff)
  have ybk: "(if month \<le> 2 then year - 1 else year) = yoe + era * 400" using fields(3) by simp
  have mpb: "(if month > 2 then month - 3 else month + 9) = mp" using fields(1) mp low by auto
  have e4: "(yoe + era * 400) div 400 = era" using y(1,2) by simp
  have "days_from_civil year month day =
      (let yr = yoe + era * 400; er = (if yr \<ge> 0 then yr div 400 else - ((399 - yr) div 400));
           yo = yr - er * 400; dd = yo * 365 + yo div 4 - yo div 100 + ((153 * mp + 2) div 5 + day - 1)
       in er * 146097 + dd - 719468)"
    unfolding days_from_civil_def Let_def ybk mpb ..
  also have "\<dots> = era * 146097 + (yoe * 365 + yoe div 4 - yoe div 100 + doy) - 719468"
    using y(1) era0 fields(2) by (simp add: Let_def e4)
  also have "\<dots> = days" by (simp add: doy_def doe_def z_def)
  finally show "days_from_civil year month day = days" .
  have start: "doe = 365 * yoe + yoe div 4 - yoe div 100 + doy" by (simp add: doy_def)
  have four: "4 * (yoe div 4) \<le> yoe" "yoe < 4 * (yoe div 4) + 4" "100 * (yoe div 100) \<le> yoe"
    "yoe < 100 * (yoe div 100) + 100"
    using div_mult_mod_eq [of yoe 4] pos_mod_bound [of 4 yoe] pos_mod_sign [of 4 yoe]
      div_mult_mod_eq [of yoe 100] pos_mod_bound [of 100 yoe] pos_mod_sign [of 100 yoe] by auto
  show "1980 \<le> year" if "3652 \<le> days"
  proof (cases "era \<le> 4")
    case True
    have "z < 5 * 146097" using True doe by (simp add: doe_def)
    have "4 * 146097 \<le> z" using that by (simp add: z_def)
    then have "era = 4" using True doe by (simp add: doe_def)
    then have "138732 \<le> doe" using that by (simp add: doe_def z_def)
    then have "yoe > 379 \<or> yoe = 379 \<and> 306 \<le> doy"
    proof (cases "yoe \<ge> 380")
      case False
      have "yoe = 379"
      proof (rule ccontr)
        assume "yoe \<noteq> 379"
        with False have "yoe \<le> 378" by simp
        with start doy four \<open>138732 \<le> doe\<close> show False by linarith
      qed
      with start \<open>138732 \<le> doe\<close> show ?thesis by simp
    qed simp
    then show ?thesis using fields(3) \<open>era = 4\<close> low mp by auto
  next
    case False
    then show ?thesis using fields(3) y(1) by auto
  qed
  show "year \<le> 2107" if "days \<le> 50402"
  proof (cases "era \<ge> 5")
    case True
    then have "era = 5" "doe \<le> 39385" using that doe by (simp_all add: doe_def z_def)
    then have "yoe < 107 \<or> yoe = 107 \<and> doy \<le> 305"
    proof (cases "yoe \<le> 106")
      case False
      have "yoe = 107"
      proof (rule ccontr)
        assume "yoe \<noteq> 107"
        with False have "108 \<le> yoe" by simp
        with start doy four \<open>doe \<le> 39385\<close> show False by linarith
      qed
      with start \<open>doe \<le> 39385\<close> show ?thesis by simp
    qed simp
    then show ?thesis using fields(3) \<open>era = 5\<close> low mp by auto
  next
    case False
    then show ?thesis using fields(3) y(2) by auto
  qed
qed

section \<open>The packed fields\<close>

lemma pack_fields:
  fixes a b c :: int
  assumes "0 \<le> a" "a < 2 ^ (16 - i)" "0 \<le> b" "b < 2 ^ (i - 5)" "0 \<le> c" "c < 32" "5 \<le> i" "i < 16"
  defines "w \<equiv> push_bit i (word_of_int a :: u16) OR push_bit 5 (word_of_int b) OR word_of_int c"
  shows "uint (drop_bit i w) = a" "uint (drop_bit 5 w AND mask (i - 5)) = b" "uint (w AND 0x1F) = c"
proof -
  have bits: "n < k" if "0 \<le> v" "v < 2 ^ k" "bit v n" for v :: int and k n
    using that by (metis bit_take_bit_iff take_bit_int_eq_self)
  have wb: "bit w n \<longleftrightarrow> n < 16 \<and> (if i \<le> n then bit a (n - i) else if 5 \<le> n then bit b (n - 5) else bit c n)" for n
    using bits [OF assms(1,2), of "n - i"] bits [OF assms(3,4), of "n - 5"] bits [OF assms(5), of 5 n] assms(6-8)
    by (auto simp: w_def bit_simps)
  have a: "drop_bit i w = word_of_int a"
  proof (rule bit_word_eqI)
    fix n assume "n < LENGTH(16)"
    then show "bit (drop_bit i w) n = bit (word_of_int a :: u16) n"
      using bits [OF assms(1,2), of n] assms(8) by (auto simp: bit_drop_bit_eq wb bit_simps)
  qed
  have "(2 :: int) ^ (16 - i) \<le> 2 ^ 16" by (rule power_increasing) auto
  with a assms(1,2) show "uint (drop_bit i w) = a" by (simp add: uint_word_of_int_eq take_bit_int_eq_self)
  have b: "drop_bit 5 w AND mask (i - 5) = word_of_int b"
  proof (rule bit_word_eqI)
    fix n assume "n < LENGTH(16)"
    then show "bit (drop_bit 5 w AND mask (i - 5)) n = bit (word_of_int b :: u16) n"
      using bits [OF assms(3,4), of n] assms(7,8)
      by (auto simp: bit_drop_bit_eq wb bit_simps)
  qed
  have "(2 :: int) ^ (i - 5) \<le> 2 ^ 16" using assms(8) by (intro power_increasing) auto
  with b assms(3,4) show "uint (drop_bit 5 w AND mask (i - 5)) = b"
    by (simp add: uint_word_of_int_eq take_bit_int_eq_self)
  have m: "(0x1F :: u16) = mask 5" by (simp add: mask_eq_exp_minus_1)
  have c: "w AND 0x1F = word_of_int c"
    unfolding m
  proof (rule bit_word_eqI)
    fix n assume "n < LENGTH(16)"
    then show "bit (w AND mask 5) n = bit (word_of_int c :: u16) n"
      using bits [OF assms(5), of 5 n] assms(6,7) by (auto simp: wb bit_simps)
  qed
  then show "uint (w AND 0x1F) = c" using assms(5,6) by (simp add: uint_word_of_int_eq take_bit_int_eq_self)
qed

lemma time_bounds:
  fixes a b c :: int
  assumes "a \<le> 23" "b < 60" "c < 30"
  shows "a < 2 ^ (16 - 11)" "b < 2 ^ (11 - 5)" "c < 32" "5 \<le> (11 :: nat)" "(11 :: nat) < 16"
  using assms by simp_all

lemma uint_double: "uint (x :: u16) = c \<Longrightarrow> 0 \<le> c \<Longrightarrow> c < 32 \<Longrightarrow> uint (x * 2) = c * 2"
  by (simp add: uint_word_ariths)

section \<open>Properties\<close>

text \<open>
  C30 (roundtrip): the stamp of a moment, read back, is that moment held to the range FAT has and
  rounded down to an even second, and the hundredths carry the odd second the time field drops.
\<close>

theorem stamp_roundtrip:
  "(let u = clamp FAT_EPOCH FAT_END unix; s = stamp_encode unix in
      stamp_decode (st_date s) (st_time s) = u - u mod 2
      \<and> stamp_decode (st_date s) (st_time s) + uint (st_hundredths s) div 100 = u)"
proof -
  define u where "u = clamp FAT_EPOCH FAT_END unix"
  define days where "days = u div 86400"
  define secs where "secs = u mod 86400"
  obtain year month day where civ: "civil_from_days days = (year, month, day)" by (metis prod_cases3)
  have ub: "FAT_EPOCH \<le> u" "u \<le> FAT_END"
    by (auto simp: u_def clamp_def FAT_EPOCH_def FAT_END_def)
  have db: "3652 \<le> days" "days \<le> 50402"
    using ub zdiv_mono1 [of FAT_EPOCH u 86400] zdiv_mono1 [of u FAT_END 86400]
    by (simp_all add: days_def FAT_EPOCH_def FAT_END_def)
  then have d0: "0 \<le> days" by simp
  note c = civil_fields [OF civ d0]
  have yb: "1980 \<le> year" "year \<le> 2107" using c(6,7) db by auto
  have sb: "0 \<le> secs" "secs < 86400" by (simp_all add: secs_def)
  have h: "0 \<le> secs div 3600" "secs div 3600 \<le> 23" "0 \<le> secs div 60 mod 60" "secs div 60 mod 60 < 60"
    "0 \<le> secs mod 60 div 2" "secs mod 60 div 2 < 30"
  proof -
    have "secs div 3600 < 24" using sb(2) by (simp add: div_less_iff_less_mult)
    then show "secs div 3600 \<le> 23" by simp
    show "0 \<le> secs div 3600" using sb(1) by (simp add: pos_imp_zdiv_nonneg_iff)
    show "0 \<le> secs div 60 mod 60" "secs div 60 mod 60 < 60" by simp_all
    have "0 \<le> secs mod 60" "secs mod 60 < 60" by simp_all
    then show "0 \<le> secs mod 60 div 2" "secs mod 60 div 2 < 30" by linarith+
  qed
  let ?date = "push_bit 9 (word_of_int (year - 1980)) OR push_bit 5 (word_of_int month) OR word_of_int day :: u16"
  let ?time = "push_bit 11 (word_of_int (secs div 3600)) OR push_bit 5 (word_of_int (secs div 60 mod 60))
    OR word_of_int (secs mod 60 div 2) :: u16"
  have enc: "stamp_encode unix = \<lparr>st_date = ?date, st_time = ?time,
      st_hundredths = (if secs mod 2 = 1 then 100 else 0)\<rparr>"
    by (simp add: stamp_encode_def u_def [symmetric] days_def [symmetric] secs_def [symmetric] civ)
  have m4: "(0x0F :: u16) = mask (9 - 5)" and m6: "(0x3F :: u16) = mask (11 - 5)"
    by (simp_all add: mask_eq_exp_minus_1)
  have dpre: "0 \<le> year - 1980" "year - 1980 < 2 ^ (16 - 9)" "0 \<le> month" "month < 2 ^ (9 - 5)"
    "0 \<le> day" "day < 32" "5 \<le> (9 :: nat)" "(9 :: nat) < 16" using c(2-5) yb by simp_all
  note date = pack_fields [OF dpre, folded m4]
  note tpre = time_bounds [OF h(2,4,6)]
  note tm = pack_fields [OF h(1) tpre(1) h(3) tpre(2) h(5) tpre(3-5), folded m6]
  have sec: "uint ((?time AND 0x1F) * 2) = secs mod 60 div 2 * 2"
    by (rule uint_double [OF tm(3) h(5) tpre(3)])
  have "stamp_decode ?date ?time = days * 86400 + secs div 3600 * 3600 + secs div 60 mod 60 * 60 + secs mod 60 div 2 * 2"
  proof -
    have ok: "\<not> (\<not> (1 \<le> month \<and> month \<le> 12) \<or> day = 0 \<or> 23 < secs div 3600 \<or> 59 < secs div 60 mod 60
        \<or> 59 < secs mod 60 div 2 * 2)" using c(2-5) h(2,4,6) by linarith
    show ?thesis unfolding stamp_decode_def Let_def date tm sec if_not_P [OF ok] using c(1) by simp
  qed
  also have "\<dots> = u - u mod 2"
  proof -
    have "secs = secs div 60 * 60 + secs mod 60" by simp
    moreover have "secs div 60 = secs div 3600 * 60 + secs div 60 mod 60"
      using div_mult_mod_eq [of "secs div 60" 60] by (simp add: zdiv_zmult2_eq [symmetric])
    moreover have "secs mod 60 = secs mod 60 div 2 * 2 + secs mod 2"
      using div_mult_mod_eq [of "secs mod 60" 2] by (simp add: mod_mod_cancel)
    moreover have "u = days * 86400 + secs" by (simp add: days_def secs_def)
    moreover have "u mod 2 = secs mod 2" by (simp add: secs_def mod_mod_cancel)
    ultimately show ?thesis by linarith
  qed
  finally have dec: "stamp_decode (st_date (stamp_encode unix)) (st_time (stamp_encode unix)) = u - u mod 2"
    unfolding enc stamp.simps .
  have odd: "uint (st_hundredths (stamp_encode unix)) div 100 = u mod 2"
  proof -
    have "u mod 2 = secs mod 2" by (simp add: secs_def mod_mod_cancel)
    moreover have "st_hundredths (stamp_encode unix) = (if secs mod 2 = 1 then 100 else 0)"
      unfolding enc stamp.simps ..
    moreover have "secs mod 2 = 0 \<or> secs mod 2 = 1" by auto
    ultimately show ?thesis by (elim disjE) simp_all
  qed
  show ?thesis unfolding Let_def u_def [symmetric] dec odd by simp
qed

end
