(* ===== verification/Fat_Bytes.thy ===== *)
theory Fat_Bytes
  imports Prelude
begin

text \<open>
  \<open>kernel/src/storage/fat/mod.rs\<close>: the errors of the FAT code and the little-endian fields of an
  on-card structure.  A field that does not fit reads as zero and is not written.
\<close>

section \<open>Definitions\<close>

datatype fs_error =
    NotFound | Exists | NotDir | IsDir | NotEmpty | NoSpace | NameTooLong | BadName | TooBig
  | Invalid | Io | Corrupt | ReadOnly

text \<open>A string is the list of its code points.\<close>

type_synonym ustring = "nat list"

definition fat_join :: "ustring \<Rightarrow> ustring \<Rightarrow> ustring" where
  "fat_join path name = (if path = [] then name else path @ 47 # name)"

definition slice :: "'a list \<Rightarrow> nat \<Rightarrow> nat \<Rightarrow> 'a list option" where
  "slice xs at n = (if at + n \<le> length xs then Some (take n (drop at xs)) else None)"

definition u16_of_bytes :: "u8 \<Rightarrow> u8 \<Rightarrow> u16" where
  "u16_of_bytes a b = ucast a OR push_bit 8 (ucast b)"

definition u32_of_bytes :: "u8 \<Rightarrow> u8 \<Rightarrow> u8 \<Rightarrow> u8 \<Rightarrow> u32" where
  "u32_of_bytes a b c d =
     ucast a OR push_bit 8 (ucast b) OR push_bit 16 (ucast c) OR push_bit 24 (ucast d)"

definition le16 :: "bytes \<Rightarrow> nat \<Rightarrow> u16" where
  "le16 bs at = (case slice bs at 2 of Some [a, b] \<Rightarrow> u16_of_bytes a b | _ \<Rightarrow> 0)"

definition le32 :: "bytes \<Rightarrow> nat \<Rightarrow> u32" where
  "le32 bs at = (case slice bs at 4 of Some [a, b, c, d] \<Rightarrow> u32_of_bytes a b c d | _ \<Rightarrow> 0)"

definition put8 :: "bytes \<Rightarrow> nat \<Rightarrow> u8 \<Rightarrow> bytes" where
  "put8 bs at v = (if at < length bs then bs[at := v] else bs)"

definition le_bytes16 :: "u16 \<Rightarrow> bytes" where
  "le_bytes16 v = [ucast v, ucast (drop_bit 8 v)]"

definition le_bytes32 :: "u32 \<Rightarrow> bytes" where
  "le_bytes32 v = [ucast v, ucast (drop_bit 8 v), ucast (drop_bit 16 v), ucast (drop_bit 24 v)]"

definition put_bytes :: "bytes \<Rightarrow> nat \<Rightarrow> bytes \<Rightarrow> bytes" where
  "put_bytes bs at vs =
     fold (\<lambda>(i, byte) bs. put8 bs (saturating_add U64_MAX at i) byte) (zip [0..<length vs] vs) bs"

definition put16 :: "bytes \<Rightarrow> nat \<Rightarrow> u16 \<Rightarrow> bytes" where
  "put16 bs at v = put_bytes bs at (le_bytes16 v)"

definition put32 :: "bytes \<Rightarrow> nat \<Rightarrow> u32 \<Rightarrow> bytes" where
  "put32 bs at v = put_bytes bs at (le_bytes32 v)"

section \<open>Fields\<close>

lemma le16_eq: "at + 2 \<le> length bs \<Longrightarrow> le16 bs at = u16_of_bytes (bs ! at) (bs ! (at + 1))"
proof -
  assume "at + 2 \<le> length bs"
  then have "take 2 (drop at bs) = [bs ! at, bs ! (at + 1)]"
    by (simp add: take_Suc_conv_app_nth numeral_2_eq_2)
  then show ?thesis using \<open>at + 2 \<le> length bs\<close> by (simp add: le16_def slice_def)
qed

lemma le32_eq:
  "at + 4 \<le> length bs \<Longrightarrow>
     le32 bs at = u32_of_bytes (bs ! at) (bs ! (at + 1)) (bs ! (at + 2)) (bs ! (at + 3))"
proof -
  assume "at + 4 \<le> length bs"
  then have "take 4 (drop at bs) = [bs ! at, bs ! (at + 1), bs ! (at + 2), bs ! (at + 3)]"
    by (simp add: take_Suc_conv_app_nth eval_nat_numeral)
  then show ?thesis using \<open>at + 4 \<le> length bs\<close> by (simp add: le32_def slice_def)
qed

lemma u16_bytes: "u16_of_bytes (ucast v) (ucast (drop_bit 8 v)) = v"
  by (rule bit_word_eqI) (auto simp: u16_of_bytes_def bit_simps)

lemma u32_bytes:
  "u32_of_bytes (ucast v) (ucast (drop_bit 8 v)) (ucast (drop_bit 16 v)) (ucast (drop_bit 24 v)) = v"
proof (rule bit_word_eqI)
  fix n assume "n < LENGTH(32)"
  then show "bit (u32_of_bytes (ucast v) (ucast (drop_bit 8 v)) (ucast (drop_bit 16 v)) (ucast (drop_bit 24 v))) n
      = bit v n"
    by (cases "n < 8"; cases "n < 16"; cases "n < 24") (auto simp: u32_of_bytes_def bit_simps)
qed

lemma length_put8 [simp]: "length (put8 bs at v) = length bs"
  by (simp add: put8_def)

lemma put16_eq:
  assumes "at + 2 \<le> length bs" "length bs \<le> U64_MAX"
  shows "put16 bs at v = bs[at := ucast v, at + 1 := ucast (drop_bit 8 v)]"
  using assms by (simp add: put16_def put_bytes_def le_bytes16_def put8_def saturating_add_def upt_rec)

lemma put32_eq:
  assumes "at + 4 \<le> length bs" "length bs \<le> U64_MAX"
  shows "put32 bs at v = bs[at := ucast v, at + 1 := ucast (drop_bit 8 v),
    at + 2 := ucast (drop_bit 16 v), at + 3 := ucast (drop_bit 24 v)]"
  using assms by (simp add: put32_def put_bytes_def le_bytes32_def put8_def saturating_add_def upt_rec eval_nat_numeral)

lemma length_put_bytes [simp]: "length (put_bytes bs at vs) = length bs"
proof -
  have "length (fold (\<lambda>(i, byte) bs. put8 bs (saturating_add U64_MAX at i) byte) xs bs) = length bs" for xs
    by (induction xs arbitrary: bs) auto
  then show ?thesis by (simp add: put_bytes_def)
qed

lemma length_put16 [simp]: "length (put16 bs at v) = length bs"
  by (simp add: put16_def)

lemma length_put32 [simp]: "length (put32 bs at v) = length bs"
  by (simp add: put32_def)

lemma le16_put16 [byte_simps]:
  "at + 2 \<le> length bs \<Longrightarrow> length bs \<le> U64_MAX \<Longrightarrow> le16 (put16 bs at v) at = v"
  by (simp add: le16_eq put16_eq u16_bytes)

lemma le32_put32 [byte_simps]:
  "at + 4 \<le> length bs \<Longrightarrow> length bs \<le> U64_MAX \<Longrightarrow> le32 (put32 bs at v) at = v"
  by (simp add: le32_eq put32_eq u32_bytes)

end
