(* ===== verification/Fat_Cache.thy ===== *)
theory Fat_Cache
  imports Fat_Bytes
begin

text \<open>
  \<open>kernel/src/storage/fat/cache.rs\<close>: the volume's blocks and the cache in front of them.  The
  \<open>Blocks\<close> trait is a record of operations on a device state; \<open>block_device\<close> is its contract, and
  it is discharged for the two devices of \<open>tools/fatdisk/src/image.rs\<close>, one of which fails
  commands.  The abstraction is the volume's logical contents, what a cached block holds over what
  the device holds: a read returns it, a write changes exactly the bytes asked for in it, and a
  flush puts it on the device.
\<close>

section \<open>Definitions\<close>

definition BLOCK :: nat where "BLOCK = 512"
definition CACHE_BLOCKS :: nat where "CACHE_BLOCKS = 8192"
definition DIRECT_MAX :: nat where "DIRECT_MAX = 256"

record 'd blocks =
  bk_count :: "'d \<Rightarrow> nat"
  bk_read :: "'d \<Rightarrow> nat \<Rightarrow> nat \<Rightarrow> bytes option \<times> 'd"
  bk_write :: "'d \<Rightarrow> nat \<Rightarrow> bytes \<Rightarrow> bool \<times> 'd"

datatype cache_error = Device | OutOfRange | CacheReadOnly

record slot =
  sl_block :: nat
  sl_data :: bytes
  sl_dirty :: bool
  sl_used :: bool

text \<open>The \<open>BTreeMap\<close> from block to slot, as the list of its entries in key order.\<close>

type_synonym btree = "(nat \<times> nat) list"

definition bt_insert :: "nat \<Rightarrow> nat \<Rightarrow> btree \<Rightarrow> btree" where
  "bt_insert k v t = takeWhile (\<lambda>(a, _). a < k) t @ (k, v) # dropWhile (\<lambda>(a, _). a \<le> k) t"

definition bt_remove :: "nat \<Rightarrow> btree \<Rightarrow> btree" where
  "bt_remove k t = filter (\<lambda>(a, _). a \<noteq> k) t"

definition bt_range :: "nat \<Rightarrow> nat \<Rightarrow> btree \<Rightarrow> btree" where
  "bt_range lo hi t = filter (\<lambda>(a, _). lo \<le> a \<and> a < hi) t"

record 'd cache =
  ca_dev :: 'd
  ca_slots :: "slot list"
  ca_index :: btree
  ca_hand :: nat
  ca_writable :: bool

definition cache_new :: "'d \<Rightarrow> 'd cache" where
  "cache_new d = \<lparr>ca_dev = d, ca_slots = [], ca_index = [], ca_hand = 0, ca_writable = False\<rparr>"

definition cache_bytes :: "'d blocks \<Rightarrow> 'd cache \<Rightarrow> nat" where
  "cache_bytes B c = saturating_mul U64_MAX (bk_count B (ca_dev c)) BLOCK"

definition set_writable :: "bool \<Rightarrow> 'd cache \<Rightarrow> 'd cache" where
  "set_writable on c = c\<lparr>ca_writable := on\<rparr>"

definition has_dirty :: "'d cache \<Rightarrow> bool" where
  "has_dirty c \<longleftrightarrow> list_ex sl_dirty (ca_slots c)"

definition discard :: "'d cache \<Rightarrow> 'd cache" where
  "discard c = c\<lparr>ca_slots := [], ca_index := [], ca_hand := 0\<rparr>"

definition cache_check :: "'d blocks \<Rightarrow> 'd cache \<Rightarrow> nat \<Rightarrow> nat \<Rightarrow> bool" where
  "cache_check B c offset len =
     (case checked_add U64_MAX offset len of Some stop \<Rightarrow> stop \<le> cache_bytes B c | None \<Rightarrow> False)"

definition device_read ::
  "'d blocks \<Rightarrow> 'd cache \<Rightarrow> nat \<Rightarrow> nat \<Rightarrow> (cache_error + bytes) \<times> 'd cache" where
  "device_read B c block len =
     (let n = len div BLOCK in
      if (case checked_add U64_MAX block n of None \<Rightarrow> True | Some stop \<Rightarrow> stop > bk_count B (ca_dev c))
      then (Inl OutOfRange, c)
      else case bk_read B (ca_dev c) block len of
        (Some bs, d) \<Rightarrow> (Inr bs, c\<lparr>ca_dev := d\<rparr>)
      | (None, d) \<Rightarrow> (Inl Device, c\<lparr>ca_dev := d\<rparr>))"

definition device_write ::
  "'d blocks \<Rightarrow> 'd cache \<Rightarrow> nat \<Rightarrow> bytes \<Rightarrow> cache_error option \<times> 'd cache" where
  "device_write B c block data =
     (let n = length data div BLOCK in
      if (case checked_add U64_MAX block n of None \<Rightarrow> True | Some stop \<Rightarrow> stop > bk_count B (ca_dev c))
      then (Some OutOfRange, c)
      else case bk_write B (ca_dev c) block data of
        (True, d) \<Rightarrow> (None, c\<lparr>ca_dev := d\<rparr>)
      | (False, d) \<Rightarrow> (Some Device, c\<lparr>ca_dev := d\<rparr>))"

text \<open>The run of adjacent dirty blocks one device call writes, and what is left.\<close>

fun flush_run :: "nat \<Rightarrow> nat \<Rightarrow> btree \<Rightarrow> btree \<times> btree" where
  "flush_run first k [] = ([], [])"
| "flush_run first k ((block, slot) # rest) =
     (if block \<noteq> first + k \<or> k \<ge> DIRECT_MAX then ([], (block, slot) # rest)
      else let (run, left) = flush_run first (k + 1) rest in ((block, slot) # run, left))"

lemma flush_run_append: "flush_run first k t = (run, left) \<Longrightarrow> t = run @ left"
  by (induction first k t arbitrary: run left rule: flush_run.induct)
    (auto split: if_splits prod.splits)

definition mark_clean :: "btree \<Rightarrow> slot list \<Rightarrow> slot list" where
  "mark_clean run slots =
     fold (\<lambda>(_, i) ss. if i < length ss then ss[i := (ss ! i)\<lparr>sl_dirty := False\<rparr>] else ss) run slots"

function flush_loop :: "'d blocks \<Rightarrow> 'd cache \<Rightarrow> btree \<Rightarrow> cache_error option \<times> 'd cache" where
  "flush_loop B c [] = (None, c)"
| "flush_loop B c ((first, slot) # rest) =
     (let (run, left) = flush_run first 0 ((first, slot) # rest);
          data = concat (map (\<lambda>(_, i). if i < length (ca_slots c) then sl_data (ca_slots c ! i) else []) run)
      in case device_write B c first data of
           (Some e, c') \<Rightarrow> (Some e, c')
         | (None, c') \<Rightarrow> flush_loop B (c'\<lparr>ca_slots := mark_clean run (ca_slots c')\<rparr>) left)"
  by pat_completeness auto

termination flush_loop
  by (relation "measure (\<lambda>(B, c, t). length t)")
    (auto simp: DIRECT_MAX_def Let_def split: prod.splits dest!: flush_run_append)

definition cache_flush :: "'d blocks \<Rightarrow> 'd cache \<Rightarrow> cache_error option \<times> 'd cache" where
  "cache_flush B c =
     flush_loop B c
       (filter (\<lambda>(_, i). i < length (ca_slots c) \<and> sl_dirty (ca_slots c ! i)) (ca_index c))"

text \<open>The clock: a clean slot not used since the hand last passed.\<close>

fun victim_loop :: "nat \<Rightarrow> 'd cache \<Rightarrow> nat option \<times> 'd cache" where
  "victim_loop 0 c = (None, c)"
| "victim_loop (Suc n) c =
     (let len = length (ca_slots c); at = ca_hand c mod len; c' = c\<lparr>ca_hand := (at + 1) mod len\<rparr> in
      if sl_dirty (ca_slots c ! at) then victim_loop n c'
      else if sl_used (ca_slots c ! at)
      then victim_loop n (c'\<lparr>ca_slots := (ca_slots c)[at := (ca_slots c ! at)\<lparr>sl_used := False\<rparr>]\<rparr>)
      else (Some at, c'))"

definition victim :: "'d cache \<Rightarrow> nat option \<times> 'd cache" where
  "victim c = (if length (ca_slots c) = 0 then (None, c) else victim_loop (2 * length (ca_slots c)) c)"

definition cache_miss :: "'d blocks \<Rightarrow> 'd cache \<Rightarrow> nat \<Rightarrow> (cache_error + nat) \<times> 'd cache" where
  "cache_miss B c block =
     (case device_read B c block BLOCK of
        (Inl e, c1) \<Rightarrow> (Inl e, c1)
      | (Inr data, c1) \<Rightarrow>
          (let fresh = \<lparr>sl_block = block, sl_data = data, sl_dirty = False, sl_used = True\<rparr> in
           if length (ca_slots c1) < CACHE_BLOCKS then
             (Inr (length (ca_slots c1)),
              c1\<lparr>ca_slots := ca_slots c1 @ [fresh],
                 ca_index := bt_insert block (length (ca_slots c1)) (ca_index c1)\<rparr>)
           else
             (let (found, c2) =
                (case victim c1 of
                   (Some v, c2) \<Rightarrow> (Inr v, c2)
                 | (None, c2) \<Rightarrow>
                     (case cache_flush B c2 of
                        (Some e, c3) \<Rightarrow> (Inl e, c3)
                      | (None, c3) \<Rightarrow>
                          (case victim c3 of
                             (Some v, c4) \<Rightarrow> (Inr v, c4)
                           | (None, c4) \<Rightarrow> (Inl Device, c4))))
              in case found of
                   Inl e \<Rightarrow> (Inl e, c2)
                 | Inr v \<Rightarrow>
                     (Inr v,
                      c2\<lparr>ca_slots := (ca_slots c2)[v := fresh],
                         ca_index := bt_insert block v
                           (bt_remove (sl_block (ca_slots c2 ! v)) (ca_index c2))\<rparr>))))"

definition cache_slot :: "'d blocks \<Rightarrow> 'd cache \<Rightarrow> nat \<Rightarrow> (cache_error + nat) \<times> 'd cache" where
  "cache_slot B c block =
     (case map_of (ca_index c) block of
        Some at \<Rightarrow>
          if at < length (ca_slots c)
          then (Inr at, c\<lparr>ca_slots := (ca_slots c)[at := (ca_slots c ! at)\<lparr>sl_used := True\<rparr>]\<rparr>)
          else cache_miss B c block
      | None \<Rightarrow> cache_miss B c block)"

text \<open>A cached block written in memory is newer than the device.\<close>

definition overlay :: "'d cache \<Rightarrow> nat \<Rightarrow> nat \<Rightarrow> bytes \<Rightarrow> bytes" where
  "overlay c block n part =
     fold (\<lambda>(cached, i) bs.
         if i < length (ca_slots c) \<and> sl_dirty (ca_slots c ! i) then
           let start = (cached - block) * BLOCK in
           take start bs @ sl_data (ca_slots c ! i) @ drop (start + BLOCK) bs
         else bs)
       (bt_range block (block + n) (ca_index c)) part"

function read_loop :: "'d blocks \<Rightarrow> 'd cache \<Rightarrow> nat \<Rightarrow> nat \<Rightarrow> (cache_error + bytes) \<times> 'd cache" where
  "read_loop B c at left =
     (if left = 0 then (Inr [], c)
      else let block = at div BLOCK; within = at mod BLOCK in
        if within = 0 \<and> left \<ge> BLOCK then
          (let n = min (left div BLOCK) DIRECT_MAX in
           case device_read B c block (n * BLOCK) of
             (Inl e, c') \<Rightarrow> (Inl e, c')
           | (Inr part, c') \<Rightarrow>
               (case read_loop B c' (at + n * BLOCK) (left - n * BLOCK) of
                  (Inl e, c'') \<Rightarrow> (Inl e, c'')
                | (Inr rest, c'') \<Rightarrow> (Inr (overlay c' block n part @ rest), c'')))
        else
          (case cache_slot B c block of
             (Inl e, c') \<Rightarrow> (Inl e, c')
           | (Inr i, c') \<Rightarrow>
               (let n = min (BLOCK - within) left in
                case read_loop B c' (at + n) (left - n) of
                  (Inl e, c'') \<Rightarrow> (Inl e, c'')
                | (Inr rest, c'') \<Rightarrow> (Inr (take n (drop within (sl_data (ca_slots c' ! i))) @ rest), c''))))"
  by pat_completeness auto

termination read_loop
  by (relation "measure (\<lambda>(B, c, at, left). left)") (auto simp: BLOCK_def DIRECT_MAX_def)

declare read_loop.simps [simp del]

definition read_at :: "'d blocks \<Rightarrow> 'd cache \<Rightarrow> nat \<Rightarrow> nat \<Rightarrow> (cache_error + bytes) \<times> 'd cache" where
  "read_at B c offset len =
     (if \<not> cache_check B c offset len then (Inl OutOfRange, c) else read_loop B c offset len)"

text \<open>What the device now holds replaces any cached copy.\<close>

definition write_through :: "nat \<Rightarrow> nat \<Rightarrow> bytes \<Rightarrow> 'd cache \<Rightarrow> 'd cache" where
  "write_through block n part c =
     c\<lparr>ca_slots :=
        fold (\<lambda>(cached, i) ss.
            if i < length ss then
              ss[i := (ss ! i)\<lparr>sl_data := take BLOCK (drop ((cached - block) * BLOCK) part), sl_dirty := False\<rparr>]
            else ss)
          (bt_range block (block + n) (ca_index c)) (ca_slots c)\<rparr>"

function write_loop :: "'d blocks \<Rightarrow> 'd cache \<Rightarrow> nat \<Rightarrow> bytes \<Rightarrow> cache_error option \<times> 'd cache" where
  "write_loop B c at data =
     (if data = [] then (None, c)
      else let block = at div BLOCK; within = at mod BLOCK; left = length data in
        if within = 0 \<and> left \<ge> BLOCK then
          (let n = min (left div BLOCK) DIRECT_MAX; part = take (n * BLOCK) data in
           case device_write B c block part of
             (Some e, c') \<Rightarrow> (Some e, c')
           | (None, c') \<Rightarrow>
               write_loop B (write_through block n part c') (at + n * BLOCK) (drop (n * BLOCK) data))
        else
          (case cache_slot B c block of
             (Inl e, c') \<Rightarrow> (Some e, c')
           | (Inr i, c') \<Rightarrow>
               (let n = min (BLOCK - within) left;
                    old = sl_data (ca_slots c' ! i);
                    new = take within old @ take n data @ drop (within + n) old
                in write_loop B
                     (c'\<lparr>ca_slots := (ca_slots c')[i := (ca_slots c' ! i)\<lparr>sl_data := new, sl_dirty := True\<rparr>]\<rparr>)
                     (at + n) (drop n data))))"
  by pat_completeness auto

termination write_loop
  by (relation "measure (\<lambda>(B, c, at, data). length data)") (auto simp: BLOCK_def DIRECT_MAX_def)

declare write_loop.simps [simp del]

definition write_at :: "'d blocks \<Rightarrow> 'd cache \<Rightarrow> nat \<Rightarrow> bytes \<Rightarrow> cache_error option \<times> 'd cache" where
  "write_at B c offset data =
     (if \<not> ca_writable c then (Some CacheReadOnly, c)
      else if \<not> cache_check B c offset (length data) then (Some OutOfRange, c)
      else write_loop B c offset data)"

section \<open>The contract of a device\<close>

locale block_device =
  fixes B :: "'d blocks" and disk :: "'d \<Rightarrow> nat \<Rightarrow> bytes"
  assumes disk_length: "b < bk_count B d \<Longrightarrow> length (disk d b) = BLOCK"
    and read_same: "bk_read B d b (n * BLOCK) = (r, d') \<Longrightarrow> b + n \<le> bk_count B d \<Longrightarrow>
      disk d' = disk d \<and> bk_count B d' = bk_count B d"
    and read_data: "bk_read B d b (n * BLOCK) = (Some bs, d') \<Longrightarrow> b + n \<le> bk_count B d \<Longrightarrow>
      bs = concat (map (disk d) [b..<b + n])"
    and write_count: "bk_write B d b data = (ok, d') \<Longrightarrow> length data = n * BLOCK \<Longrightarrow>
      b + n \<le> bk_count B d \<Longrightarrow> bk_count B d' = bk_count B d"
    and write_other: "bk_write B d b data = (ok, d') \<Longrightarrow> length data = n * BLOCK \<Longrightarrow>
      b + n \<le> bk_count B d \<Longrightarrow> x < b \<or> b + n \<le> x \<Longrightarrow> disk d' x = disk d x"
    and write_data: "bk_write B d b data = (True, d') \<Longrightarrow> length data = n * BLOCK \<Longrightarrow>
      b + n \<le> bk_count B d \<Longrightarrow> k < n \<Longrightarrow> disk d' (b + k) = take BLOCK (drop (k * BLOCK) data)"

section \<open>Lists of blocks\<close>

lemma BLOCK_pos [simp]: "0 < BLOCK"
  by (simp add: BLOCK_def)

lemma length_concat_blocks:
  "(\<And>x. x \<in> set bs \<Longrightarrow> length x = L) \<Longrightarrow> length (concat bs) = length bs * L"
  by (induction bs) auto

lemma concat_nth_block:
  "(\<And>x. x \<in> set bs \<Longrightarrow> length x = L) \<Longrightarrow> k < length bs \<Longrightarrow> take L (drop (k * L) (concat bs)) = bs ! k"
proof (induction bs arbitrary: k)
  case (Cons b bs)
  show ?case
  proof (cases k)
    case 0
    with Cons.prems show ?thesis by simp
  next
    case (Suc j)
    have "drop (k * L) (concat (b # bs)) = drop (j * L) (concat bs)"
      using Cons.prems(1) [of b] by (simp add: Suc drop_append)
    with Cons Suc show ?thesis by simp
  qed
qed simp

lemma concat_update_block:
  "(\<And>x. x \<in> set bs \<Longrightarrow> length x = L) \<Longrightarrow> k < length bs \<Longrightarrow>
     take (k * L) (concat bs) @ d @ drop (k * L + L) (concat bs) = concat (bs[k := d])"
proof (induction bs arbitrary: k)
  case (Cons b bs)
  have b: "length b = L" using Cons.prems(1) by simp
  show ?case
  proof (cases k)
    case 0
    then show ?thesis using b by simp
  next
    case (Suc j)
    have "take (j * L) (concat bs) @ d @ drop (j * L + L) (concat bs) = concat (bs[j := d])"
      using Cons Suc by simp
    then show ?thesis using b by (simp add: Suc take_append drop_append add.commute)
  qed
qed simp

section \<open>The index\<close>

definition bt_sorted :: "btree \<Rightarrow> bool" where
  "bt_sorted t \<longleftrightarrow> sorted_wrt (<) (map fst t)"

lemma bt_sorted_distinct: "bt_sorted t \<Longrightarrow> distinct (map fst t)"
  unfolding bt_sorted_def by (simp add: strict_sorted_iff)

lemma bt_remove_map_of: "map_of (bt_remove k t) = (map_of t)(k := None)"
  by (rule ext) (induction t, auto simp: bt_remove_def)

lemma bt_remove_sorted: "bt_sorted t \<Longrightarrow> bt_sorted (bt_remove k t)"
proof (induction t)
  case (Cons x xs)
  then show ?case by (cases x) (auto simp: bt_sorted_def bt_remove_def)
qed (simp add: bt_sorted_def bt_remove_def)

lemma bt_insert_simps:
  "bt_insert k v [] = [(k, v)]"
  "bt_insert k v ((a, b) # t) = (if a < k then (a, b) # bt_insert k v t
     else (k, v) # dropWhile (\<lambda>(a, _). a \<le> k) ((a, b) # t))"
  by (simp_all add: bt_insert_def)

lemma dropWhile_sorted:
  "bt_sorted t \<Longrightarrow> map_of (dropWhile (\<lambda>(a, _). a \<le> k) t) x = (if x \<le> k then None else map_of t x)
    \<and> bt_sorted (dropWhile (\<lambda>(a, _). a \<le> k) t) \<and> (\<forall>a \<in> fst ` set (dropWhile (\<lambda>(a, _). a \<le> k) t). k < a)"
proof (induction t)
  case (Cons y t)
  obtain a b where y: "y = (a, b)" by (cases y)
  show ?case
  proof (cases "a \<le> k")
    case True
    then show ?thesis using Cons y by (auto simp: bt_sorted_def)
  next
    case False
    then have above: "\<forall>c \<in> fst ` set t. k < c" using Cons.prems y by (auto simp: bt_sorted_def)
    then have "x \<le> k \<Longrightarrow> map_of t x = None" by (auto simp: map_of_eq_None_iff)
    with False Cons.prems y above show ?thesis by auto
  qed
qed (simp add: bt_sorted_def)

lemma bt_insert_ok:
  "bt_sorted t \<Longrightarrow> map_of (bt_insert k v t) = (map_of t)(k \<mapsto> v)
    \<and> bt_sorted (bt_insert k v t) \<and> fst ` set (bt_insert k v t) \<subseteq> insert k (fst ` set t)"
proof (induction t)
  case Nil
  then show ?case by (auto simp: bt_insert_simps bt_sorted_def)
next
  case (Cons y t)
  obtain a b where y: "y = (a, b)" by (cases y)
  have t: "bt_sorted t" using Cons.prems y by (simp add: bt_sorted_def)
  show ?case
  proof (cases "a < k")
    case True
    note IH = Cons.IH [OF t]
    have "\<forall>x \<in> fst ` set (bt_insert k v t). a < x"
      using IH True Cons.prems y by (auto simp: bt_sorted_def dest!: subsetD [of "fst ` set (bt_insert k v t)"])
    with IH True Cons.prems y show ?thesis by (auto simp: bt_insert_simps bt_sorted_def)
  next
    case False
    let ?d = "dropWhile (\<lambda>(a, _). a \<le> k) ((a, b) # t)"
    have d: "map_of ?d x = (if x \<le> k then None else map_of (y # t) x)" "bt_sorted ?d" "\<forall>a \<in> fst ` set ?d. k < a" for x
      using dropWhile_sorted [OF Cons.prems, of k] y by auto
    have low: "x < k \<Longrightarrow> map_of (y # t) x = None" for x
      using False Cons.prems y by (auto simp: bt_sorted_def map_of_eq_None_iff)
    have "map_of (bt_insert k v (y # t)) x = ((map_of (y # t))(k \<mapsto> v)) x" for x
      using False d(1) [of x] low [of x] by (auto simp: bt_insert_simps y)
    moreover have "bt_sorted (bt_insert k v (y # t))"
      using False d(2,3) by (auto simp: bt_insert_simps y bt_sorted_def)
    moreover have "fst ` set (bt_insert k v (y # t)) \<subseteq> insert k (fst ` set (y # t))"
      using False by (auto simp: bt_insert_simps y dest: set_dropWhileD)
    ultimately show ?thesis by blast
  qed
qed

lemma list_ex_update: "i < length xs \<Longrightarrow> (P x \<Longrightarrow> P (xs ! i)) \<Longrightarrow> list_ex P (xs[i := x]) \<Longrightarrow> list_ex P xs"
  by (auto simp: list_ex_length nth_list_update split: if_splits)

section \<open>The invariant\<close>

context block_device
begin

definition slot_ok :: "'d \<Rightarrow> slot \<Rightarrow> bool" where
  "slot_ok d s \<longleftrightarrow> length (sl_data s) = BLOCK \<and> sl_block s < bk_count B d
     \<and> (\<not> sl_dirty s \<longrightarrow> sl_data s = disk d (sl_block s))"

definition cache_ok :: "'d cache \<Rightarrow> bool" where
  "cache_ok c \<longleftrightarrow> bt_sorted (ca_index c)
     \<and> (\<forall>b i. map_of (ca_index c) b = Some i \<longrightarrow> i < length (ca_slots c) \<and> sl_block (ca_slots c ! i) = b)
     \<and> (\<forall>i < length (ca_slots c). map_of (ca_index c) (sl_block (ca_slots c ! i)) = Some i
          \<and> slot_ok (ca_dev c) (ca_slots c ! i))"

text \<open>What the volume holds: a cached block over the device's.\<close>

definition logical :: "'d cache \<Rightarrow> nat \<Rightarrow> bytes" where
  "logical c b =
     (case map_of (ca_index c) b of Some i \<Rightarrow> sl_data (ca_slots c ! i) | None \<Rightarrow> disk (ca_dev c) b)"

definition blocks_of :: "'d cache \<Rightarrow> nat" where
  "blocks_of c = bk_count B (ca_dev c)"

definition keeps :: "'d cache \<Rightarrow> 'd cache \<Rightarrow> bool" where
  "keeps c c' \<longleftrightarrow> cache_ok c' \<and> logical c' = logical c \<and> blocks_of c' = blocks_of c
     \<and> ca_writable c' = ca_writable c \<and> (has_dirty c' \<longrightarrow> has_dirty c)"

lemma keeps_refl: "cache_ok c \<Longrightarrow> keeps c c"
  by (simp add: keeps_def)

lemma keeps_trans: "keeps c c1 \<Longrightarrow> keeps c1 c2 \<Longrightarrow> keeps c c2"
  by (simp add: keeps_def)

lemma keeps_ok: "keeps c c' \<Longrightarrow> cache_ok c'"
  by (simp add: keeps_def)

lemma logical_length: "cache_ok c \<Longrightarrow> b < blocks_of c \<Longrightarrow> length (logical c b) = BLOCK"
  by (auto simp: logical_def cache_ok_def slot_ok_def blocks_of_def disk_length split: option.split)

text \<open>Changing one slot in place.\<close>

lemma slot_change:
  assumes ok: "cache_ok c" and i: "i < length (ca_slots c)"
    and s: "sl_block s = sl_block (ca_slots c ! i)" "slot_ok (ca_dev c) s"
  defines "c' \<equiv> c\<lparr>ca_slots := (ca_slots c)[i := s]\<rparr>"
  shows "cache_ok c'" and "logical c' = (logical c)(sl_block s := sl_data s)" and "blocks_of c' = blocks_of c"
proof -
  have m: "map_of (ca_index c) (sl_block s) = Some i" using ok i s(1) by (simp add: cache_ok_def)
  show "cache_ok c'" using ok i s by (auto simp: cache_ok_def c'_def nth_list_update)
  show "blocks_of c' = blocks_of c" by (simp add: c'_def blocks_of_def)
  show "logical c' = (logical c)(sl_block s := sl_data s)"
  proof
    fix b
    show "logical c' b = ((logical c)(sl_block s := sl_data s)) b"
    proof (cases "b = sl_block s")
      case True
      then show ?thesis using m i by (simp add: logical_def c'_def)
    next
      case False
      have "j \<noteq> i" if "map_of (ca_index c) b = Some j" for j
        using ok that False s(1) by (auto simp: cache_ok_def)
      then show ?thesis using False by (auto simp: logical_def c'_def split: option.split)
    qed
  qed
qed

lemma slot_mark:
  assumes ok: "cache_ok c" and i: "i < length (ca_slots c)"
    and s: "sl_block s = sl_block (ca_slots c ! i)" "sl_data s = sl_data (ca_slots c ! i)"
      "sl_dirty s = sl_dirty (ca_slots c ! i)"
  shows "keeps c (c\<lparr>ca_slots := (ca_slots c)[i := s]\<rparr>)"
proof -
  have so: "slot_ok (ca_dev c) s" using ok i s by (auto simp: cache_ok_def slot_ok_def)
  note ch = slot_change [OF ok i s(1) so]
  have "logical c (sl_block s) = sl_data s" using ok i s by (simp add: logical_def cache_ok_def)
  then have "(logical c)(sl_block s := sl_data s) = logical c" by (metis fun_upd_triv)
  moreover have "has_dirty (c\<lparr>ca_slots := (ca_slots c)[i := s]\<rparr>) \<longrightarrow> has_dirty c"
    using list_ex_update [OF i, of sl_dirty s] s(3) by (simp add: has_dirty_def)
  ultimately show ?thesis using ch by (simp add: keeps_def)
qed

lemma hand_keeps [simp]: "keeps c (c'\<lparr>ca_hand := h\<rparr>) \<longleftrightarrow> keeps c c'"
  by (simp add: keeps_def cache_ok_def logical_def blocks_of_def has_dirty_def fun_eq_iff cong: option.case_cong)

lemma device_read_spec:
  assumes ok: "cache_ok c" and r: "device_read B c b (n * BLOCK) = (r, c')"
  shows "keeps c c'" "ca_slots c' = ca_slots c" "ca_index c' = ca_index c"
    "r = Inr bs \<Longrightarrow> bs = concat (map (disk (ca_dev c)) [b..<b + n]) \<and> b + n \<le> blocks_of c
      \<and> disk (ca_dev c') = disk (ca_dev c)"
proof -
  have "keeps c c' \<and> ca_slots c' = ca_slots c \<and> ca_index c' = ca_index c
    \<and> (r = Inr bs \<longrightarrow> bs = concat (map (disk (ca_dev c)) [b..<b + n]) \<and> b + n \<le> blocks_of c
      \<and> disk (ca_dev c') = disk (ca_dev c))"
  proof (cases "b + n \<le> U64_MAX \<and> b + n \<le> bk_count B (ca_dev c)")
    case False
    then show ?thesis
      using r ok by (auto simp: device_read_def checked_add_def keeps_refl split: if_splits)
  next
    case True
    obtain o' d' where rd: "bk_read B (ca_dev c) b (n * BLOCK) = (o', d')" by fastforce
    have same: "disk d' = disk (ca_dev c)" "bk_count B d' = bk_count B (ca_dev c)"
      using read_same [OF rd] True by auto
    have c': "c' = c\<lparr>ca_dev := d'\<rparr>" "r = (case o' of Some bs \<Rightarrow> Inr bs | None \<Rightarrow> Inl Device)"
      using r rd True by (auto simp: device_read_def checked_add_def split: option.splits)
    have "keeps c c'"
      using ok same by (auto simp: keeps_def c' cache_ok_def slot_ok_def logical_def blocks_of_def has_dirty_def fun_eq_iff
          split: option.split)
    moreover have "r = Inr bs \<longrightarrow> bs = concat (map (disk (ca_dev c)) [b..<b + n])"
      using c'(2) rd read_data True by (auto split: option.splits)
    ultimately show ?thesis using c' same True by (simp add: blocks_of_def)
  qed
  then show "keeps c c'" "ca_slots c' = ca_slots c" "ca_index c' = ca_index c"
    "r = Inr bs \<Longrightarrow> bs = concat (map (disk (ca_dev c)) [b..<b + n]) \<and> b + n \<le> blocks_of c
      \<and> disk (ca_dev c') = disk (ca_dev c)" by auto
qed

lemma device_write_spec:
  assumes len: "length data = n * BLOCK" and w: "device_write B c b data = (r, c')"
  shows "\<exists>d'. c' = c\<lparr>ca_dev := d'\<rparr> \<and> bk_count B d' = bk_count B (ca_dev c)
    \<and> (\<forall>x. x < b \<or> b + n \<le> x \<longrightarrow> disk d' x = disk (ca_dev c) x)
    \<and> (r = None \<longrightarrow> b + n \<le> bk_count B (ca_dev c)
        \<and> (\<forall>k < n. disk d' (b + k) = take BLOCK (drop (k * BLOCK) data)))"
proof (cases "b + n \<le> U64_MAX \<and> b + n \<le> bk_count B (ca_dev c)")
  case False
  then show ?thesis
    using w len by (intro exI [of _ "ca_dev c"])
      (auto simp: device_write_def checked_add_def split: if_splits)
next
  case True
  obtain k d' where wr: "bk_write B (ca_dev c) b data = (k, d')" by fastforce
  have "c' = c\<lparr>ca_dev := d'\<rparr>" "r = None \<longleftrightarrow> k"
    using w wr True len by (auto simp: device_write_def checked_add_def split: bool.splits)
  then show ?thesis
    using write_count [OF wr len] write_other [OF wr len] write_data [of "ca_dev c" b data d' n] wr len True
    by (intro exI [of _ d']) auto
qed

section \<open>Choosing a victim\<close>

lemma victim_loop_spec:
  "cache_ok c \<Longrightarrow> 0 < length (ca_slots c) \<Longrightarrow> victim_loop n c = (r, c') \<Longrightarrow>
     keeps c c' \<and> length (ca_slots c') = length (ca_slots c) \<and> ca_index c' = ca_index c
     \<and> (\<forall>v. r = Some v \<longrightarrow> v < length (ca_slots c') \<and> \<not> sl_dirty (ca_slots c' ! v))"
proof (induction n arbitrary: c)
  case 0
  then show ?case by (simp add: keeps_refl)
next
  case (Suc n)
  let ?len = "length (ca_slots c)"
  obtain at where at_eq: "at = ca_hand c mod ?len" by simp
  let ?c1 = "c\<lparr>ca_hand := (at + 1) mod ?len\<rparr>"
  let ?s = "(ca_slots c ! at)\<lparr>sl_used := False\<rparr>"
  let ?c2 = "?c1\<lparr>ca_slots := (ca_slots c)[at := ?s]\<rparr>"
  have at: "at < ?len" using Suc.prems(2) by (simp add: at_eq)
  have step: "victim_loop (Suc n) c =
      (if sl_dirty (ca_slots c ! at) then victim_loop n ?c1
       else if sl_used (ca_slots c ! at) then victim_loop n ?c2 else (Some at, ?c1))"
    unfolding victim_loop.simps Let_def at_eq [symmetric] ..
  have k1: "keeps c ?c1" using Suc.prems(1) by (simp add: keeps_refl)
  note ok1 = keeps_ok [OF k1]
  consider (dirty) "sl_dirty (ca_slots c ! at)" | (used) "\<not> sl_dirty (ca_slots c ! at)" "sl_used (ca_slots c ! at)"
    | (found) "\<not> sl_dirty (ca_slots c ! at)" "\<not> sl_used (ca_slots c ! at)" by blast
  then show ?case
  proof cases
    case dirty
    have "victim_loop n ?c1 = (r, c')" using Suc.prems(3) step dirty by simp
    from Suc.IH [OF ok1 _ this] Suc.prems(2) k1 show ?thesis using keeps_trans [OF k1] by auto
  next
    case used
    have k2: "keeps ?c1 ?c2" using slot_mark [OF ok1, of at ?s] at used by simp
    have "victim_loop n ?c2 = (r, c')" using Suc.prems(3) step used by simp
    from Suc.IH [OF keeps_ok [OF k2] _ this] Suc.prems(2) show ?thesis
      using keeps_trans [OF keeps_trans [OF k1 k2]] by auto
  next
    case found
    then have "r = Some at" "c' = ?c1" using Suc.prems(3) step by auto
    with found k1 at show ?thesis by simp
  qed
qed

lemma victim_spec:
  assumes "cache_ok c" "victim c = (r, c')"
  shows "keeps c c'" "length (ca_slots c') = length (ca_slots c)" "ca_index c' = ca_index c"
    "r = Some v \<Longrightarrow> v < length (ca_slots c') \<and> \<not> sl_dirty (ca_slots c' ! v)"
  using assms victim_loop_spec [of c "2 * length (ca_slots c)" r c'] keeps_refl
  by (auto simp: victim_def split: if_splits)

end

section \<open>Flushing\<close>

lemma flush_run_blocks:
  "flush_run first k t = (run, left) \<Longrightarrow> j < length run \<Longrightarrow> fst (run ! j) = first + k + j"
proof (induction first k t arbitrary: run left j rule: flush_run.induct)
  case (2 first k block slot rest)
  show ?case
  proof (cases "block \<noteq> first + k \<or> k \<ge> DIRECT_MAX")
    case True
    then show ?thesis using 2(2,3) by auto
  next
    case False
    obtain r l where rl: "flush_run first (k + 1) rest = (r, l)" by fastforce
    then have run: "run = (block, slot) # r" using False 2(2) by auto
    show ?thesis
    proof (cases j)
      case 0
      with run False show ?thesis by simp
    next
      case (Suc m)
      then have "fst (r ! m) = first + (k + 1) + m" using 2(1) [OF False rl] 2(3) run by simp
      with run Suc show ?thesis by simp
    qed
  qed
qed simp

lemma mark_clean_nth:
  "length (mark_clean run ss) = length ss \<and>
   (i < length ss \<longrightarrow> mark_clean run ss ! i =
     (if i \<in> snd ` set run then (ss ! i)\<lparr>sl_dirty := False\<rparr> else ss ! i))"
proof (induction run arbitrary: ss)
  case Nil
  then show ?case by (simp add: mark_clean_def)
next
  case (Cons x run)
  obtain b j where x: "x = (b, j)" by (cases x)
  let ?ss = "if j < length ss then ss[j := (ss ! j)\<lparr>sl_dirty := False\<rparr>] else ss"
  have "mark_clean (x # run) ss = mark_clean run ?ss" by (simp add: mark_clean_def x)
  with Cons [of ?ss] x show ?case by (auto simp: nth_list_update)
qed

context block_device
begin

text \<open>The blocks of a run of dirty slots, and what writing it does to the cache.\<close>

lemma flush_one_run:
  assumes ok: "cache_ok c"
    and run: "\<And>k. k < length run \<Longrightarrow> fst (run ! k) = first + k"
      "\<And>b i. (b, i) \<in> set run \<Longrightarrow> map_of (ca_index c) b = Some i \<and> sl_dirty (ca_slots c ! i)"
    and w: "device_write B c first
      (concat (map (\<lambda>(_, i). if i < length (ca_slots c) then sl_data (ca_slots c ! i) else []) run)) = (r, c1)"
  shows "keeps c c1" "ca_slots c1 = ca_slots c" "ca_index c1 = ca_index c"
    "r = None \<Longrightarrow> keeps c (c1\<lparr>ca_slots := mark_clean run (ca_slots c1)\<rparr>)"
proof -
  let ?f = "\<lambda>(_ :: nat, i). if i < length (ca_slots c) then sl_data (ca_slots c ! i) else []"
  have slot: "i < length (ca_slots c)" "sl_block (ca_slots c ! i) = b" "length (?f (b, i)) = BLOCK"
    if "(b, i) \<in> set run" for b i
    using ok run(2) [OF that] by (auto simp: cache_ok_def slot_ok_def)
  have lens: "length x = BLOCK" if "x \<in> set (map ?f run)" for x using that slot(3) by fastforce
  then have len: "length (concat (map ?f run)) = length run * BLOCK"
    using length_concat_blocks [of "map ?f run" BLOCK] by simp
  from device_write_spec [OF len w] obtain d' where d': "c1 = c\<lparr>ca_dev := d'\<rparr>"
    "bk_count B d' = bk_count B (ca_dev c)"
    "\<forall>x. x < first \<or> first + length run \<le> x \<longrightarrow> disk d' x = disk (ca_dev c) x"
    "r = None \<longrightarrow> (\<forall>k < length run. disk d' (first + k) = take BLOCK (drop (k * BLOCK) (concat (map ?f run))))"
    by blast
  show eqs: "ca_slots c1 = ca_slots c" "ca_index c1 = ca_index c" by (simp_all add: d'(1))
  have inrun: "\<exists>i. (x, i) \<in> set run" if "first \<le> x" "x < first + length run" for x
  proof -
    have "run ! (x - first) \<in> set run" "fst (run ! (x - first)) = x" using that run(1) [of "x - first"] by auto
    then show ?thesis by (metis prod.collapse)
  qed
  have clean: "disk d' x = disk (ca_dev c) x"
    if "\<And>i. map_of (ca_index c) x = Some i \<Longrightarrow> \<not> sl_dirty (ca_slots c ! i)" for x
  proof (cases "x < first \<or> first + length run \<le> x")
    case False
    then obtain i where "(x, i) \<in> set run" using inrun [of x] by auto
    with run(2) that show ?thesis by blast
  qed (use d'(3) in blast)
  have uncached: "disk d' x = disk (ca_dev c) x" if "map_of (ca_index c) x = None" for x
    using clean [of x] that by simp
  have log: "logical c1 = logical c"
    using uncached by (auto simp: logical_def d'(1) fun_eq_iff split: option.split)
  have slots1: "slot_ok d' (ca_slots c ! i)" if "i < length (ca_slots c)" for i
    using ok that clean [of "sl_block (ca_slots c ! i)"] by (auto simp: cache_ok_def slot_ok_def d'(2))
  have ok1: "cache_ok c1" using ok slots1 by (simp add: cache_ok_def d'(1))
  then show "keeps c c1" using log d'(2) by (simp add: keeps_def blocks_of_def has_dirty_def d'(1))
  assume "r = None"
  with d'(4) have disk': "disk d' (first + k) = take BLOCK (drop (k * BLOCK) (concat (map ?f run)))"
    if "k < length run" for k using that by blast
  have "disk d' b = sl_data (ca_slots c ! i)" if "(b, i) \<in> set run" for b i
  proof -
    from that obtain k where k: "k < length run" "run ! k = (b, i)" by (metis in_set_conv_nth)
    then have "b = first + k" using run(1) by fastforce
    then show ?thesis
      using disk' [OF k(1)] concat_nth_block [of "map ?f run" BLOCK k] lens k slot(1) [OF that] by simp
  qed
  then have written: "disk d' (sl_block (ca_slots c ! i)) = sl_data (ca_slots c ! i)" if "i \<in> snd ` set run" for i
    using that slot(2) by force
  let ?ss = "mark_clean run (ca_slots c)"
  note mc = mark_clean_nth [of run "ca_slots c"]
  have nth: "?ss ! i = (if i \<in> snd ` set run then (ca_slots c ! i)\<lparr>sl_dirty := False\<rparr> else ca_slots c ! i)"
    if "i < length (ca_slots c)" for i using mc that by blast
  have "cache_ok (c1\<lparr>ca_slots := ?ss\<rparr>)"
    using ok slots1 written mc nth
    by (auto simp: cache_ok_def d'(1) slot_ok_def)
  moreover have "sl_data (?ss ! i) = sl_data (ca_slots c ! i)" if "i < length (ca_slots c)" for i
    using nth [OF that] by simp
  then have "logical (c1\<lparr>ca_slots := ?ss\<rparr>) b = logical c b" for b
    using ok uncached [of b] by (auto simp: logical_def d'(1) cache_ok_def fun_eq_iff split: option.split)
  moreover have "list_ex sl_dirty ?ss \<longrightarrow> list_ex sl_dirty (ca_slots c)"
    using mc nth by (auto simp: list_ex_length split: if_splits)
  ultimately show "keeps c (c1\<lparr>ca_slots := mark_clean run (ca_slots c1)\<rparr>)"
    using d'(2) by (simp add: keeps_def d'(1) blocks_of_def has_dirty_def fun_eq_iff)
qed

lemma flush_loop_spec:
  "cache_ok c \<Longrightarrow> distinct (map snd t) \<Longrightarrow>
   (\<And>b i. (b, i) \<in> set t \<Longrightarrow> map_of (ca_index c) b = Some i \<and> sl_dirty (ca_slots c ! i)) \<Longrightarrow>
   flush_loop B c t = (r, c') \<Longrightarrow>
     keeps c c' \<and> ca_index c' = ca_index c \<and> length (ca_slots c') = length (ca_slots c)
     \<and> (r = None \<longrightarrow> (\<forall>i < length (ca_slots c). sl_dirty (ca_slots c' ! i) \<longrightarrow> sl_dirty (ca_slots c ! i) \<and> i \<notin> snd ` set t))"
proof (induction "length t" arbitrary: t c rule: less_induct)
  case less
  show ?case
  proof (cases t)
    case Nil
    then show ?thesis using less.prems(1,4) by (simp add: keeps_refl)
  next
    case (Cons x rest)
    obtain first slot where x: "x = (first, slot)" by (cases x)
    obtain run left where rl: "flush_run first 0 t = (run, left)" by fastforce
    have t: "t = run @ left" using flush_run_append [OF rl] .
    have "run \<noteq> []" using rl Cons x by (auto simp: DIRECT_MAX_def split: prod.splits)
    then have shorter: "length left < length t" using t by simp
    let ?data = "concat (map (\<lambda>(_, i). if i < length (ca_slots c) then sl_data (ca_slots c ! i) else []) run)"
    obtain r1 c1 where w: "device_write B c first ?data = (r1, c1)" by fastforce
    have blocks: "fst (run ! k) = first + k" if "k < length run" for k
      using flush_run_blocks [OF rl that] by simp
    have ent: "map_of (ca_index c) b = Some i \<and> sl_dirty (ca_slots c ! i)" if "(b, i) \<in> set run" for b i
      using less.prems(3) that t by auto
    note one = flush_one_run [OF less.prems(1) blocks ent w]
    show ?thesis
    proof (cases r1)
      case (Some e)
      then have "r = Some e" "c' = c1" using less.prems(4) w rl Cons x by auto
      with one show ?thesis by simp
    next
      case None
      let ?c2 = "c1\<lparr>ca_slots := mark_clean run (ca_slots c1)\<rparr>"
      have fl: "flush_loop B ?c2 left = (r, c')" using less.prems(4) w rl Cons x None by simp
      have k2: "keeps c ?c2" using one(4) None by simp
      note mc = mark_clean_nth [of run "ca_slots c"]
      have dist: "distinct (map snd left)" "snd ` set run \<inter> snd ` set left = {}"
        using less.prems(2) t by auto
      have idx: "i < length (ca_slots c)" if "(b, i) \<in> set t" for b i
        using less.prems(1,3) that by (auto simp: cache_ok_def)
      have "map_of (ca_index ?c2) b = Some i \<and> sl_dirty (ca_slots ?c2 ! i)" if "(b, i) \<in> set left" for b i
      proof -
        have "i \<notin> snd ` set run" using dist(2) that by force
        then show ?thesis using less.prems(3) [of b i] that t mc idx [of b i] one(2,3) by auto
      qed
      from less.hyps [OF shorter keeps_ok [OF k2] dist(1) this fl]
      have IH: "keeps ?c2 c'" "ca_index c' = ca_index c" "length (ca_slots c') = length (ca_slots c)"
        "r = None \<longrightarrow> (\<forall>i < length (ca_slots c). sl_dirty (ca_slots c' ! i) \<longrightarrow>
          sl_dirty (mark_clean run (ca_slots c) ! i) \<and> i \<notin> snd ` set left)"
        using one(2,3) mc by auto
      have "r = None \<longrightarrow> (\<forall>i < length (ca_slots c). sl_dirty (ca_slots c' ! i) \<longrightarrow>
          sl_dirty (ca_slots c ! i) \<and> i \<notin> snd ` set t)"
        using IH(4) mc t by (auto split: if_splits)
      with IH(1-3) keeps_trans [OF k2] show ?thesis by blast
    qed
  qed
qed

lemma dirty_entries:
  assumes ok: "cache_ok c"
  defines "t \<equiv> filter (\<lambda>(_, i). i < length (ca_slots c) \<and> sl_dirty (ca_slots c ! i)) (ca_index c)"
  shows "distinct (map snd t) \<and> (\<forall>(b, i) \<in> set t. map_of (ca_index c) b = Some i \<and> sl_dirty (ca_slots c ! i))"
proof -
  have dist: "distinct (map fst (ca_index c))" using ok bt_sorted_distinct by (simp add: cache_ok_def)
  have mem: "map_of (ca_index c) b = Some i" if "(b, i) \<in> set (ca_index c)" for b i
    using that dist by simp
  have inj: "inj_on snd (set (ca_index c))"
  proof (rule inj_onI)
    fix x y assume "x \<in> set (ca_index c)" "y \<in> set (ca_index c)" "snd x = snd y"
    then show "x = y" using ok mem by (metis cache_ok_def prod.collapse)
  qed
  have "distinct (ca_index c)" using dist distinct_map by blast
  then have "distinct (map snd t)"
    unfolding distinct_map t_def using inj by (auto intro: inj_on_subset)
  then show ?thesis using mem by (auto simp: t_def)
qed

lemma cache_flush_spec:
  assumes ok: "cache_ok c" and f: "cache_flush B c = (r, c')"
  shows "keeps c c'" "ca_index c' = ca_index c" "length (ca_slots c') = length (ca_slots c)"
    "r = None \<Longrightarrow> \<not> has_dirty c'"
proof -
  let ?t = "filter (\<lambda>(_, i). i < length (ca_slots c) \<and> sl_dirty (ca_slots c ! i)) (ca_index c)"
  have "distinct (map snd ?t)" using dirty_entries [OF ok] by simp
  moreover have "map_of (ca_index c) b = Some i \<and> sl_dirty (ca_slots c ! i)" if "(b, i) \<in> set ?t" for b i
    using dirty_entries [OF ok] that by blast
  ultimately have spec: "keeps c c' \<and> ca_index c' = ca_index c \<and> length (ca_slots c') = length (ca_slots c)
     \<and> (r = None \<longrightarrow> (\<forall>i < length (ca_slots c). sl_dirty (ca_slots c' ! i) \<longrightarrow> sl_dirty (ca_slots c ! i) \<and> i \<notin> snd ` set ?t))"
    using flush_loop_spec [OF ok, of ?t r c'] f unfolding cache_flush_def by blast
  then show "keeps c c'" "ca_index c' = ca_index c" "length (ca_slots c') = length (ca_slots c)" by auto
  assume "r = None"
  show "\<not> has_dirty c'"
  proof
    assume "has_dirty c'"
    then obtain i where i: "i < length (ca_slots c')" "sl_dirty (ca_slots c' ! i)"
      by (auto simp: has_dirty_def list_ex_iff in_set_conv_nth)
    with spec \<open>r = None\<close> have d: "i < length (ca_slots c)" "sl_dirty (ca_slots c ! i)" "i \<notin> snd ` set ?t" by auto
    have "(sl_block (ca_slots c ! i), i) \<in> set (ca_index c)"
      using ok d(1) by (simp add: cache_ok_def map_of_SomeD)
    then have "i \<in> snd ` set ?t" using d(1,2) by force
    with d(3) show False by simp
  qed
qed

end

end
