(* ===== verification/Fat_Cache_Correct.thy ===== *)
theory Fat_Cache_Correct
  imports Fat_Cache
begin

text \<open>
  The cache of \<open>kernel/src/storage/fat/cache.rs\<close> is transparent: reads, writes and flushes act on
  the volume's logical contents as if there were no cache, for every device that keeps the
  contract \<open>block_device\<close>.
\<close>

context block_device
begin

section \<open>Bringing a block in\<close>

lemma cache_okD:
  assumes "cache_ok c"
  shows "map_of (ca_index c) b = Some i \<Longrightarrow> i < length (ca_slots c) \<and> sl_block (ca_slots c ! i) = b"
    and "i < length (ca_slots c) \<Longrightarrow>
      map_of (ca_index c) (sl_block (ca_slots c ! i)) = Some i \<and> slot_ok (ca_dev c) (ca_slots c ! i)"
  using assms unfolding cache_ok_def by blast+

lemma slot_pushed:
  assumes ok: "cache_ok c" and none: "map_of (ca_index c) b = None" and b: "b < blocks_of c"
    and f: "fresh = \<lparr>sl_block = b, sl_data = disk (ca_dev c) b, sl_dirty = False, sl_used = True\<rparr>"
  shows "keeps c (c\<lparr>ca_slots := ca_slots c @ [fresh],
    ca_index := bt_insert b (length (ca_slots c)) (ca_index c)\<rparr>)"
proof -
  let ?n = "length (ca_slots c)"
  have s: "bt_sorted (ca_index c)" using ok by (simp add: cache_ok_def)
  note ins = bt_insert_ok [OF s, of b ?n]
  have fo: "slot_ok (ca_dev c) fresh" using b by (simp add: slot_ok_def f disk_length blocks_of_def)
  have old: "sl_block (ca_slots c ! i) \<noteq> b" if "i < ?n" for i using ok that none by (auto simp: cache_ok_def)
  have "cache_ok (c\<lparr>ca_slots := ca_slots c @ [fresh], ca_index := bt_insert b ?n (ca_index c)\<rparr>)"
    using ok ins fo old f by (auto simp: cache_ok_def nth_append less_Suc_eq)
  moreover have "logical (c\<lparr>ca_slots := ca_slots c @ [fresh], ca_index := bt_insert b ?n (ca_index c)\<rparr>) x = logical c x" for x
    using ok ins none f by (auto simp: logical_def cache_ok_def nth_append split: option.split)
  ultimately show ?thesis using f by (simp add: keeps_def blocks_of_def has_dirty_def fun_eq_iff)
qed

lemma slot_replaced:
  assumes ok: "cache_ok c" and none: "map_of (ca_index c) b = None" and b: "b < blocks_of c"
    and f: "fresh = \<lparr>sl_block = b, sl_data = disk (ca_dev c) b, sl_dirty = False, sl_used = True\<rparr>"
    and v: "v < length (ca_slots c)" "\<not> sl_dirty (ca_slots c ! v)"
  shows "keeps c (c\<lparr>ca_slots := (ca_slots c)[v := fresh],
    ca_index := bt_insert b v (bt_remove (sl_block (ca_slots c ! v)) (ca_index c))\<rparr>)"
proof -
  let ?old = "sl_block (ca_slots c ! v)"
  let ?rem = "bt_remove ?old (ca_index c)"
  let ?c' = "c\<lparr>ca_slots := (ca_slots c)[v := fresh], ca_index := bt_insert b v ?rem\<rparr>"
  have s: "bt_sorted ?rem" using ok bt_remove_sorted by (simp add: cache_ok_def)
  have ins: "map_of (bt_insert b v ?rem) = (map_of (ca_index c))(?old := None, b \<mapsto> v)"
    "bt_sorted (bt_insert b v ?rem)"
    using bt_insert_ok [OF s, of b v] by (simp_all add: bt_remove_map_of)
  have fo: "slot_ok (ca_dev c) fresh" using b by (simp add: slot_ok_def f disk_length blocks_of_def)
  have vo: "map_of (ca_index c) ?old = Some v" "sl_data (ca_slots c ! v) = disk (ca_dev c) ?old"
    using ok v by (auto simp: cache_ok_def slot_ok_def)
  have inj: "sl_block (ca_slots c ! i) \<noteq> ?old" if "i < length (ca_slots c)" "i \<noteq> v" for i
  proof
    assume "sl_block (ca_slots c ! i) = ?old"
    then have "map_of (ca_index c) ?old = Some i" using ok that(1) unfolding cache_ok_def by metis
    with vo(1) that(2) show False by simp
  qed
  have other: "sl_block (ca_slots c ! i) \<noteq> b" if "i < length (ca_slots c)" for i
    using ok that none unfolding cache_ok_def by (metis option.distinct(1))
  have "i < length (ca_slots ?c') \<and> sl_block (ca_slots ?c' ! i) = x" if "map_of (ca_index ?c') x = Some i" for x i
  proof (cases "x = b")
    case True
    with that ins(1) v(1) f show ?thesis by simp
  next
    case False
    with that ins(1) have m: "map_of (ca_index c) x = Some i" "x \<noteq> ?old" by (auto split: if_splits)
    have "i < length (ca_slots c)" "sl_block (ca_slots c ! i) = x" using cache_okD(1) [OF ok m(1)] by auto
    moreover from this(2) m(2) have "i \<noteq> v" by auto
    ultimately show ?thesis by simp
  qed
  moreover have "map_of (ca_index ?c') (sl_block (ca_slots ?c' ! i)) = Some i \<and> slot_ok (ca_dev ?c') (ca_slots ?c' ! i)"
    if "i < length (ca_slots ?c')" for i
  proof (cases "i = v")
    case True
    then show ?thesis using ins(1) v(1) f fo by simp
  next
    case False
    then show ?thesis using that ins(1) inj [of i] other [of i] cache_okD(2) [OF ok, of i] by simp
  qed
  ultimately have "cache_ok ?c'" using ins(2) by (simp add: cache_ok_def)
  moreover have "logical ?c' x = logical c x" for x
  proof (cases "x = b \<or> x = ?old")
    case True
    then show ?thesis using ins(1) vo none v(1) f other [OF v(1)]
      by (auto simp: logical_def nth_list_update)
  next
    case False
    have "i \<noteq> v" if "map_of (ca_index c) x = Some i" for i
      using cache_okD(1) [OF ok that] False by auto
    then show ?thesis using False ins(1) by (auto simp: logical_def split: option.split)
  qed
  ultimately show ?thesis
    using f list_ex_update [OF v(1), of sl_dirty fresh] by (simp add: keeps_def blocks_of_def has_dirty_def fun_eq_iff)
qed

lemma cache_miss_spec:
  assumes ok: "cache_ok c" and none: "map_of (ca_index c) b = None" and m: "cache_miss B c b = (r, c')"
  shows "keeps c c' \<and> (\<forall>i. r = Inr i \<longrightarrow> i < length (ca_slots c') \<and> sl_block (ca_slots c' ! i) = b)"
proof -
  obtain r1 c1 where rd: "device_read B c b (1 * BLOCK) = (r1, c1)" by fastforce
  note dr = device_read_spec [OF ok rd]
  show ?thesis
  proof (cases r1)
    case (Inl e)
    then show ?thesis using m rd dr(1) by (auto simp: cache_miss_def)
  next
    case (Inr bs)
    have bs: "bs = disk (ca_dev c) b" "b < blocks_of c" using dr(4) [OF Inr] by auto
    let ?fresh = "\<lparr>sl_block = b, sl_data = bs, sl_dirty = False, sl_used = True\<rparr>"
    have cached: "bs = disk (ca_dev x) b \<and> map_of (ca_index x) b = None \<and> b < blocks_of x \<and> cache_ok x"
      if "keeps c x" "ca_index x = ca_index c" for x
    proof -
      have "logical x b = logical c b" "cache_ok x" "blocks_of x = blocks_of c"
        using that(1) by (simp_all add: keeps_def)
      with that(2) none bs show ?thesis by (simp add: logical_def)
    qed
    show ?thesis
    proof (cases "length (ca_slots c1) < CACHE_BLOCKS")
      case True
      have c': "r = Inr (length (ca_slots c1))"
        "c' = c1\<lparr>ca_slots := ca_slots c1 @ [?fresh], ca_index := bt_insert b (length (ca_slots c1)) (ca_index c1)\<rparr>"
        using m rd Inr True by (auto simp: cache_miss_def Let_def)
      have "keeps c1 c'"
        using slot_pushed [of c1 b ?fresh] cached [OF dr(1,3)] c' by simp
      with c' dr(1) keeps_trans show ?thesis by (auto simp: nth_append)
    next
      case False
      have put: "keeps c x \<and> ca_index x = ca_index c \<and> v < length (ca_slots x) \<and> \<not> sl_dirty (ca_slots x ! v) \<Longrightarrow>
        keeps c (x\<lparr>ca_slots := (ca_slots x)[v := ?fresh],
          ca_index := bt_insert b v (bt_remove (sl_block (ca_slots x ! v)) (ca_index x))\<rparr>)" for x v
        using slot_replaced [of x b ?fresh v] cached [of x] keeps_trans by auto
      obtain o1 c2 where v1: "victim c1 = (o1, c2)" by fastforce
      note vs = victim_spec [OF keeps_ok [OF dr(1)] v1]
      have k2: "keeps c c2" "ca_index c2 = ca_index c" using keeps_trans [OF dr(1) vs(1)] vs(3) dr(3) by simp_all
      show ?thesis
      proof (cases o1)
        case (Some v)
        then have "r = Inr v" "c' = c2\<lparr>ca_slots := (ca_slots c2)[v := ?fresh],
            ca_index := bt_insert b v (bt_remove (sl_block (ca_slots c2 ! v)) (ca_index c2))\<rparr>"
          using m rd Inr False v1 by (auto simp: cache_miss_def Let_def)
        with put [of c2 v] k2 vs(4) [OF Some] show ?thesis by simp
      next
        case None
        obtain o3 c3 where fl: "cache_flush B c2 = (o3, c3)" by fastforce
        note fs = cache_flush_spec [OF keeps_ok [OF k2(1)] fl]
        have k3: "keeps c c3" "ca_index c3 = ca_index c" using keeps_trans [OF k2(1) fs(1)] fs(2) k2(2) by simp_all
        obtain o4 c4 where v4: "victim c3 = (o4, c4)" by fastforce
        note vs4 = victim_spec [OF keeps_ok [OF k3(1)] v4]
        have k4: "keeps c c4" "ca_index c4 = ca_index c" using keeps_trans [OF k3(1) vs4(1)] vs4(3) k3(2) by simp_all
        show ?thesis
        proof (cases o3)
          case (Some e)
          then show ?thesis using m rd Inr False v1 None fl k3(1) by (auto simp: cache_miss_def Let_def)
        next
          case none3: None
          show ?thesis
          proof (cases o4)
            case (Some v)
            then have "r = Inr v" "c' = c4\<lparr>ca_slots := (ca_slots c4)[v := ?fresh],
                ca_index := bt_insert b v (bt_remove (sl_block (ca_slots c4 ! v)) (ca_index c4))\<rparr>"
              using m rd Inr False v1 None fl none3 v4 by (auto simp: cache_miss_def Let_def)
            with put [of c4 v] k4 vs4(4) [OF Some] show ?thesis by simp
          next
            case none4: None
            then show ?thesis
              using m rd Inr False v1 None fl none3 v4 k4(1) by (auto simp: cache_miss_def Let_def)
          qed
        qed
      qed
    qed
  qed
qed

lemma cache_slot_spec:
  assumes ok: "cache_ok c" and s: "cache_slot B c b = (r, c')"
  shows "keeps c c'" and "r = Inr i \<Longrightarrow> i < length (ca_slots c') \<and> sl_block (ca_slots c' ! i) = b
    \<and> sl_data (ca_slots c' ! i) = logical c b \<and> b < blocks_of c"
proof -
  have main: "keeps c c' \<and> (\<forall>i. r = Inr i \<longrightarrow> i < length (ca_slots c') \<and> sl_block (ca_slots c' ! i) = b)"
  proof (cases "map_of (ca_index c) b")
    case None
    then show ?thesis using cache_miss_spec [OF ok None] s by (simp add: cache_slot_def)
  next
    case (Some at)
    then have at: "at < length (ca_slots c)" "sl_block (ca_slots c ! at) = b" using ok by (auto simp: cache_ok_def)
    then have "r = Inr at" "c' = c\<lparr>ca_slots := (ca_slots c)[at := (ca_slots c ! at)\<lparr>sl_used := True\<rparr>]\<rparr>"
      using s Some by (auto simp: cache_slot_def)
    with at show ?thesis using slot_mark [OF ok at(1), of "(ca_slots c ! at)\<lparr>sl_used := True\<rparr>"] by auto
  qed
  then show k: "keeps c c'" by simp
  assume "r = Inr i"
  with main have i: "i < length (ca_slots c')" "sl_block (ca_slots c' ! i) = b" by auto
  with keeps_ok [OF k] have "map_of (ca_index c') b = Some i" "b < blocks_of c'"
    by (auto simp: cache_ok_def slot_ok_def blocks_of_def)
  then have "logical c' b = sl_data (ca_slots c' ! i)" "b < blocks_of c'" by (simp_all add: logical_def)
  with i k show "i < length (ca_slots c') \<and> sl_block (ca_slots c' ! i) = b
    \<and> sl_data (ca_slots c' ! i) = logical c b \<and> b < blocks_of c" by (simp add: keeps_def)
qed

end

section \<open>Reading\<close>

lemma map_of_range:
  "lo \<le> b \<Longrightarrow> b < hi \<Longrightarrow> map_of (bt_range lo hi t) b = map_of t b"
  by (induction t) (auto simp: bt_range_def)

context block_device
begin

definition logical_byte :: "'d cache \<Rightarrow> nat \<Rightarrow> u8" where
  "logical_byte c p = logical c (p div BLOCK) ! (p mod BLOCK)"

lemma logical_block_bytes:
  assumes "cache_ok c" "b < blocks_of c" "w + n \<le> BLOCK"
  shows "take n (drop w (logical c b)) = map (logical_byte c) [b * BLOCK + w..<b * BLOCK + w + n]"
proof (rule nth_equalityI)
  have len: "length (logical c b) = BLOCK" using logical_length [OF assms(1,2)] .
  then show "length (take n (drop w (logical c b))) = length (map (logical_byte c) [b * BLOCK + w..<b * BLOCK + w + n])"
    using assms(3) by simp
  fix i assume "i < length (take n (drop w (logical c b)))"
  then have i: "i < n" "w + i < BLOCK" using len assms(3) by simp_all
  then have "(b * BLOCK + (w + i)) div BLOCK = b" "(b * BLOCK + (w + i)) mod BLOCK = w + i"
    by (simp_all add: div_nat_eqI)
  with i len show "take n (drop w (logical c b)) ! i = map (logical_byte c) [b * BLOCK + w..<b * BLOCK + w + n] ! i"
    by (simp add: logical_byte_def add.assoc)
qed

lemma logical_blocks_bytes:
  assumes "cache_ok c"
  shows "b + n \<le> blocks_of c \<Longrightarrow>
    concat (map (logical c) [b..<b + n]) = map (logical_byte c) [b * BLOCK..<(b + n) * BLOCK]"
proof (induction n)
  case (Suc n)
  have blk: "logical c (b + n) = map (logical_byte c) [(b + n) * BLOCK..<(b + n) * BLOCK + BLOCK]"
    using logical_block_bytes [OF assms, of "b + n" 0 BLOCK] Suc.prems logical_length [OF assms, of "b + n"] by simp
  have "[b * BLOCK..<(b + Suc n) * BLOCK] = [b * BLOCK..<(b + n) * BLOCK] @ [(b + n) * BLOCK..<(b + n) * BLOCK + BLOCK]"
    using upt_add_eq_append [of "b * BLOCK" "(b + n) * BLOCK" BLOCK] by (simp add: algebra_simps)
  then show ?case using Suc blk by simp
qed simp

text \<open>The newer blocks put over what the device holds.\<close>

definition over_step :: "'d cache \<Rightarrow> nat \<Rightarrow> nat \<times> nat \<Rightarrow> bytes list \<Rightarrow> bytes list" where
  "over_step c block e bs =
     (case e of (b, i) \<Rightarrow>
        if i < length (ca_slots c) \<and> sl_dirty (ca_slots c ! i) then bs[b - block := sl_data (ca_slots c ! i)] else bs)"

definition over_bytes :: "'d cache \<Rightarrow> nat \<Rightarrow> nat \<times> nat \<Rightarrow> bytes \<Rightarrow> bytes" where
  "over_bytes c block = (\<lambda>(cached, i) bs.
     if i < length (ca_slots c) \<and> sl_dirty (ca_slots c ! i) then
       let start = (cached - block) * BLOCK in
       take start bs @ sl_data (ca_slots c ! i) @ drop (start + BLOCK) bs
     else bs)"

lemma over_fold_concat:
  "\<forall>(b, i) \<in> set es. block \<le> b \<and> b < block + n \<and> length (sl_data (ca_slots c ! i)) = BLOCK \<Longrightarrow>
   length bs = n \<Longrightarrow> \<forall>x \<in> set bs. length x = BLOCK \<Longrightarrow>
   fold (over_bytes c block) es (concat bs) = concat (fold (over_step c block) es bs)"
proof (induction es arbitrary: bs)
  case (Cons e es)
  obtain b i where e: "e = (b, i)" by (cases e)
  have b: "b - block < length bs" "length (sl_data (ca_slots c ! i)) = BLOCK"
    using Cons.prems(1,2) e by auto
  have next_len: "length (over_step c block e bs) = n" "\<forall>x \<in> set (over_step c block e bs). length x = BLOCK"
    using Cons.prems(2,3) b
    by (auto simp: over_step_def e split: if_splits dest!: set_update_subset_insert [THEN subsetD])
  have "take ((b - block) * BLOCK) (concat bs) @ sl_data (ca_slots c ! i) @ drop ((b - block) * BLOCK + BLOCK) (concat bs)
      = concat (bs[b - block := sl_data (ca_slots c ! i)])"
    using concat_update_block [OF _ b(1)] Cons.prems(3) by blast
  then have step: "over_bytes c block e (concat bs) = concat (over_step c block e bs)"
    by (simp add: e over_bytes_def over_step_def Let_def)
  have "\<forall>(b, i) \<in> set es. block \<le> b \<and> b < block + n \<and> length (sl_data (ca_slots c ! i)) = BLOCK"
    using Cons.prems(1) by simp
  from Cons.IH [OF this next_len] step show ?case by simp
qed simp

lemma over_fold_nth:
  "distinct (map fst es) \<Longrightarrow> (\<forall>(b, i) \<in> set es. block \<le> b \<and> i < length (ca_slots c)) \<Longrightarrow>
   length (fold (over_step c block) es bs) = length bs \<and>
   (k < length bs \<longrightarrow> fold (over_step c block) es bs ! k =
     (case map_of es (block + k) of
        Some i \<Rightarrow> if sl_dirty (ca_slots c ! i) then sl_data (ca_slots c ! i) else bs ! k
      | None \<Rightarrow> bs ! k))"
proof (induction es arbitrary: bs)
  case (Cons e es)
  obtain b i where e: "e = (b, i)" by (cases e)
  have IH: "length (fold (over_step c block) es bs') = length bs' \<and>
   (k < length bs' \<longrightarrow> fold (over_step c block) es bs' ! k =
     (case map_of es (block + k) of
        Some i \<Rightarrow> if sl_dirty (ca_slots c ! i) then sl_data (ca_slots c ! i) else bs' ! k
      | None \<Rightarrow> bs' ! k))" for bs'
    using Cons.IH [of bs'] Cons.prems by auto
  have len: "length (over_step c block e bs) = length bs" by (simp add: over_step_def e)
  have i: "i < length (ca_slots c)" "block \<le> b" using Cons.prems e by auto
  have none: "map_of es b = None" using Cons.prems(1) e by (auto simp: map_of_eq_None_iff image_iff)
  have at: "over_step c block e bs ! k = (if b = block + k \<and> sl_dirty (ca_slots c ! i)
      then sl_data (ca_slots c ! i) else bs ! k)" if "k < length bs"
    using i that by (auto simp: over_step_def e nth_list_update)
  show ?case using IH [of "over_step c block e bs"] len at none e by (auto split: option.splits)
qed simp

lemma overlay_spec:
  assumes ok: "cache_ok c" and n: "block + n \<le> blocks_of c"
    and part: "part = concat (map (disk (ca_dev c)) [block..<block + n])"
  shows "overlay c block n part = concat (map (logical c) [block..<block + n])"
proof -
  let ?es = "bt_range block (block + n) (ca_index c)"
  let ?bs = "map (disk (ca_dev c)) [block..<block + n]"
  have dist: "distinct (map fst (ca_index c))" using ok bt_sorted_distinct by (simp add: cache_ok_def)
  then have dist': "distinct (map fst ?es)" by (auto simp: bt_range_def distinct_map_filter)
  have ent: "block \<le> b \<and> b < block + n \<and> map_of (ca_index c) b = Some i" if "(b, i) \<in> set ?es" for b i
    using that dist by (auto simp: bt_range_def)
  have idx: "i < length (ca_slots c) \<and> length (sl_data (ca_slots c ! i)) = BLOCK" if "(b, i) \<in> set ?es" for b i
    using ent [OF that] cache_okD [OF ok] by (auto simp: slot_ok_def)
  have lens: "length x = BLOCK" if "x \<in> set ?bs" for x
    using that n disk_length by (auto simp: blocks_of_def)
  have "overlay c block n part = concat (fold (over_step c block) ?es ?bs)"
    using over_fold_concat [of ?es block n c ?bs] ent idx lens
    unfolding overlay_def part over_bytes_def by auto
  also have "fold (over_step c block) ?es ?bs = map (logical c) [block..<block + n]"
  proof (rule nth_equalityI)
    have "\<forall>(b, i) \<in> set ?es. block \<le> b \<and> i < length (ca_slots c)" using ent idx by auto
    note nth = over_fold_nth [OF dist' this, where bs = ?bs]
    show "length (fold (over_step c block) ?es ?bs) = length (map (logical c) [block..<block + n])"
      using nth by simp
    fix k assume "k < length (fold (over_step c block) ?es ?bs)"
    then have k: "k < n" using nth by simp
    have range: "map_of ?es (block + k) = map_of (ca_index c) (block + k)" using k by (simp add: map_of_range)
    have clean: "sl_data (ca_slots c ! i) = disk (ca_dev c) (block + k)"
      if "map_of (ca_index c) (block + k) = Some i" "\<not> sl_dirty (ca_slots c ! i)" for i
      using cache_okD(1) [OF ok that(1)] cache_okD(2) [OF ok, of i] that(2) by (auto simp: slot_ok_def)
    show "fold (over_step c block) ?es ?bs ! k = map (logical c) [block..<block + n] ! k"
      using nth k range clean by (auto simp: logical_def split: option.split)
  qed
  finally show ?thesis .
qed

lemma read_loop_spec:
  "cache_ok c \<Longrightarrow> at + left \<le> blocks_of c * BLOCK \<Longrightarrow> read_loop B c at left = (r, c') \<Longrightarrow>
     keeps c c' \<and> (\<forall>bs. r = Inr bs \<longrightarrow> bs = map (logical_byte c) [at..<at + left])"
proof (induction left arbitrary: c at r c' rule: less_induct)
  case (less left)
  note rl = less.prems(3) [unfolded read_loop.simps [of B c at left]]
  let ?block = "at div BLOCK" and ?within = "at mod BLOCK"
  have at_eq: "?block * BLOCK + ?within = at" by simp
  consider (nothing) "left = 0" | (whole) "left \<noteq> 0" "?within = 0 \<and> BLOCK \<le> left"
    | (part) "left \<noteq> 0" "\<not> (?within = 0 \<and> BLOCK \<le> left)" by blast
  then show ?case
  proof cases
    case nothing
    then show ?thesis using rl less.prems(1) by (auto simp: keeps_refl)
  next
    case whole
    let ?n = "min (left div BLOCK) DIRECT_MAX"
    have n: "0 < ?n" "?n * BLOCK \<le> left"
      using whole by (auto simp: BLOCK_def DIRECT_MAX_def)
    obtain r1 c1 where rd: "device_read B c ?block (?n * BLOCK) = (r1, c1)" by fastforce
    note dr = device_read_spec [OF less.prems(1) rd]
    note ok1 = keeps_ok [OF dr(1)]
    show ?thesis
    proof (cases r1)
      case (Inl e)
      then show ?thesis using rl whole rd dr(1) by (auto simp: Let_def)
    next
      case (Inr bs)
      note data = dr(4) [OF Inr]
      have keep: "logical c1 = logical c" "blocks_of c1 = blocks_of c" using dr(1) by (simp_all add: keeps_def)
      have ov: "overlay c1 ?block ?n bs = map (logical_byte c) [at..<at + ?n * BLOCK]"
        using overlay_spec [OF ok1, of ?block ?n bs] logical_blocks_bytes [OF less.prems(1), of ?block ?n] data keep whole at_eq
        by (simp add: algebra_simps)
      obtain r2 c2 where rec: "read_loop B c1 (at + ?n * BLOCK) (left - ?n * BLOCK) = (r2, c2)" by fastforce
      have "left - ?n * BLOCK < left" using n whole by (simp add: BLOCK_def)
      from less.IH [OF this ok1 _ rec] less.prems(2) keep(2) n(2)
      have IH: "keeps c1 c2" "\<forall>bs. r2 = Inr bs \<longrightarrow> bs = map (logical_byte c1) [at + ?n * BLOCK..<at + left]" by auto
      have lb: "logical_byte c1 = logical_byte c" using keep(1) by (simp add: logical_byte_def fun_eq_iff)
      have app: "[at..<at + left] = [at..<at + ?n * BLOCK] @ [at + ?n * BLOCK..<at + left]"
        using upt_add_eq_append [of at "at + ?n * BLOCK" "left - ?n * BLOCK"] n(2) by simp
      show ?thesis
      proof (cases r2)
        case (Inl e)
        then show ?thesis using rl whole rd Inr rec keeps_trans [OF dr(1) IH(1)] by (auto simp: Let_def)
      next
        case (Inr rest)
        then have "r = Inr (overlay c1 ?block ?n bs @ rest)" "c' = c2"
          using rl whole rd \<open>r1 = Inr bs\<close> rec by (auto simp: Let_def)
        then show ?thesis using keeps_trans [OF dr(1) IH(1)] IH(2) Inr ov lb app by simp
      qed
    qed
  next
    case part
    let ?n = "min (BLOCK - ?within) left"
    have within: "?within < BLOCK" by simp
    have n: "0 < ?n" "?n \<le> left" "?within + ?n \<le> BLOCK" using part(1) within by (auto simp: min_def)
    obtain r1 c1 where sl: "cache_slot B c ?block = (r1, c1)" by fastforce
    note cs = cache_slot_spec [OF less.prems(1) sl]
    note ok1 = keeps_ok [OF cs(1)]
    show ?thesis
    proof (cases r1)
      case (Inl e)
      then show ?thesis using rl part sl cs(1) by (auto simp: Let_def)
    next
      case (Inr i)
      note data = cs(2) [OF Inr]
      have keep: "logical c1 = logical c" "blocks_of c1 = blocks_of c" using cs(1) by (simp_all add: keeps_def)
      have ov: "take ?n (drop ?within (sl_data (ca_slots c1 ! i))) = map (logical_byte c) [at..<at + ?n]"
        using logical_block_bytes [OF less.prems(1) _ n(3), of ?block] data at_eq by simp
      obtain r2 c2 where rec: "read_loop B c1 (at + ?n) (left - ?n) = (r2, c2)" by fastforce
      have "left - ?n < left" using n by simp
      from less.IH [OF this ok1 _ rec] less.prems(2) keep(2) n(2)
      have IH: "keeps c1 c2" "\<forall>bs. r2 = Inr bs \<longrightarrow> bs = map (logical_byte c1) [at + ?n..<at + left]" by auto
      have lb: "logical_byte c1 = logical_byte c" using keep(1) by (simp add: logical_byte_def fun_eq_iff)
      have app: "[at..<at + left] = [at..<at + ?n] @ [at + ?n..<at + left]"
        using upt_add_eq_append [of at "at + ?n" "left - ?n"] n(2) by simp
      show ?thesis
      proof (cases r2)
        case (Inl e)
        then show ?thesis using rl part sl Inr rec keeps_trans [OF cs(1) IH(1)] by (auto simp: Let_def)
      next
        case (Inr rest)
        then have "r = Inr (take ?n (drop ?within (sl_data (ca_slots c1 ! i))) @ rest)" "c' = c2"
          using rl part sl \<open>r1 = Inr i\<close> rec by (auto simp: Let_def)
        then show ?thesis using keeps_trans [OF cs(1) IH(1)] IH(2) Inr ov lb app by simp
      qed
    qed
  qed
qed

end

section \<open>Writing\<close>

lemma blocks_range:
  "blk \<le> p div BLOCK \<and> p div BLOCK < blk + n \<longleftrightarrow> blk * BLOCK \<le> p \<and> p < blk * BLOCK + n * BLOCK"
  "blk * BLOCK \<le> p \<Longrightarrow> (p div BLOCK - blk) * BLOCK + p mod BLOCK = p - blk * BLOCK"
proof -
  show "blk \<le> p div BLOCK \<and> p div BLOCK < blk + n \<longleftrightarrow> blk * BLOCK \<le> p \<and> p < blk * BLOCK + n * BLOCK"
    by (simp add: less_eq_div_iff_mult_less_eq div_less_iff_less_mult distrib_right)
  assume "blk * BLOCK \<le> p"
  then have "blk * BLOCK \<le> p div BLOCK * BLOCK"
    by (simp add: less_eq_div_iff_mult_less_eq)
  then show "(p div BLOCK - blk) * BLOCK + p mod BLOCK = p - blk * BLOCK"
    using div_mult_mod_eq [of p BLOCK] by (simp add: diff_mult_distrib)
qed

lemma take_drop_nth: "k + j < length xs \<Longrightarrow> j < n \<Longrightarrow> take n (drop k xs) ! j = xs ! (k + j)"
  by simp

lemma splice_nth:
  assumes "w + n \<le> length old" "length new = n" "i < length old"
  shows "(take w old @ new @ drop (w + n) old) ! i = (if w \<le> i \<and> i < w + n then new ! (i - w) else old ! i)"
  using assms by (auto simp: nth_append)

context block_device
begin

lemma through_nth:
  "\<forall>(b, i) \<in> set es. i < length ss \<and> sl_block (ss ! i) = b \<Longrightarrow>
   length (fold (\<lambda>(cached, i) ss. if i < length ss then ss[i := (ss ! i)\<lparr>sl_data := f cached, sl_dirty := False\<rparr>] else ss) es ss)
     = length ss \<and>
   (i < length ss \<longrightarrow>
     fold (\<lambda>(cached, i) ss. if i < length ss then ss[i := (ss ! i)\<lparr>sl_data := f cached, sl_dirty := False\<rparr>] else ss) es ss ! i
     = (if i \<in> snd ` set es then (ss ! i)\<lparr>sl_data := f (sl_block (ss ! i)), sl_dirty := False\<rparr> else ss ! i))"
proof (induction es arbitrary: ss)
  case (Cons e es)
  obtain b j where e: "e = (b, j)" by (cases e)
  have j: "j < length ss" "sl_block (ss ! j) = b" using Cons.prems e by auto
  let ?ss = "ss[j := (ss ! j)\<lparr>sl_data := f b, sl_dirty := False\<rparr>]"
  have "\<forall>(b, i) \<in> set es. i < length ?ss \<and> sl_block (?ss ! i) = b"
    using Cons.prems j by (auto simp: nth_list_update)
  from Cons.IH [OF this] j e show ?case by (auto simp: nth_list_update)
qed simp

lemma write_through_spec:
  assumes ok: "cache_ok c" and len: "length part = n * BLOCK"
    and w: "device_write B c block part = (None, c1)"
  defines "c2 \<equiv> write_through block n part c1"
  shows "cache_ok c2" "blocks_of c2 = blocks_of c" "ca_writable c2 = ca_writable c"
    "logical c2 b = (if block \<le> b \<and> b < block + n then take BLOCK (drop ((b - block) * BLOCK) part) else logical c b)"
proof -
  let ?f = "\<lambda>b. take BLOCK (drop ((b - block) * BLOCK) part)"
  let ?es = "bt_range block (block + n) (ca_index c)"
  from device_write_spec [OF len w] obtain d' where d': "c1 = c\<lparr>ca_dev := d'\<rparr>"
    "bk_count B d' = bk_count B (ca_dev c)"
    "\<forall>x. x < block \<or> block + n \<le> x \<longrightarrow> disk d' x = disk (ca_dev c) x"
    "block + n \<le> bk_count B (ca_dev c)"
    "\<forall>k < n. disk d' (block + k) = take BLOCK (drop (k * BLOCK) part)" by auto
  have disk': "disk d' b = (if block \<le> b \<and> b < block + n then ?f b else disk (ca_dev c) b)" for b
  proof (cases "block \<le> b \<and> b < block + n")
    case True
    then have "b - block < n" by linarith
    with True d'(5) [rule_format, of "b - block"] show ?thesis by simp
  next
    case False
    with d'(3) [rule_format, of b] show ?thesis by auto
  qed
  have dist: "distinct (map fst (ca_index c))" using ok bt_sorted_distinct by (simp add: cache_ok_def)
  have ent: "block \<le> b \<and> b < block + n \<and> map_of (ca_index c) b = Some i" if "(b, i) \<in> set ?es" for b i
    using that dist by (auto simp: bt_range_def)
  have "\<forall>(b, i) \<in> set ?es. i < length (ca_slots c) \<and> sl_block (ca_slots c ! i) = b"
    using ent cache_okD(1) [OF ok] by fastforce
  note tn = through_nth [OF this, where f = ?f]
  have mem: "i \<in> snd ` set ?es \<longleftrightarrow> block \<le> sl_block (ca_slots c ! i) \<and> sl_block (ca_slots c ! i) < block + n"
    if "i < length (ca_slots c)" for i
  proof
    assume "i \<in> snd ` set ?es"
    then obtain b where "(b, i) \<in> set ?es" by auto
    then show "block \<le> sl_block (ca_slots c ! i) \<and> sl_block (ca_slots c ! i) < block + n"
      using ent [of b i] cache_okD(1) [OF ok, of b i] by auto
  next
    assume r: "block \<le> sl_block (ca_slots c ! i) \<and> sl_block (ca_slots c ! i) < block + n"
    have "(sl_block (ca_slots c ! i), i) \<in> set (ca_index c)"
      using cache_okD(2) [OF ok that] by (simp add: map_of_SomeD)
    with r show "i \<in> snd ` set ?es" by (force simp: bt_range_def)
  qed
  have eqs: "ca_index c2 = ca_index c" "ca_dev c2 = d'" "ca_writable c2 = ca_writable c"
    "length (ca_slots c2) = length (ca_slots c)"
    using tn by (simp_all add: c2_def write_through_def d'(1))
  have slot: "ca_slots c2 ! i = (if block \<le> sl_block (ca_slots c ! i) \<and> sl_block (ca_slots c ! i) < block + n
      then (ca_slots c ! i)\<lparr>sl_data := ?f (sl_block (ca_slots c ! i)), sl_dirty := False\<rparr> else ca_slots c ! i)"
    if "i < length (ca_slots c)" for i
    using tn that mem [OF that] by (simp add: c2_def write_through_def d'(1))
  have chunk: "length (?f b) = BLOCK" if "block \<le> b" "b < block + n" for b
  proof -
    have "Suc (b - block) * BLOCK \<le> n * BLOCK" using that by (intro mult_le_mono1) linarith
    then show ?thesis using len by simp
  qed
  have "slot_ok d' (ca_slots c2 ! i)" "sl_block (ca_slots c2 ! i) = sl_block (ca_slots c ! i)"
    if "i < length (ca_slots c)" for i
    using slot [OF that] cache_okD(2) [OF ok that] disk' chunk d'(2) by (auto simp: slot_ok_def)
  then show "cache_ok c2" using ok by (auto simp: cache_ok_def eqs)
  show "blocks_of c2 = blocks_of c" "ca_writable c2 = ca_writable c"
    by (simp_all add: blocks_of_def eqs d'(2))
  show "logical c2 b = (if block \<le> b \<and> b < block + n then ?f b else logical c b)"
  proof (cases "map_of (ca_index c) b")
    case None
    then show ?thesis by (simp add: logical_def eqs disk')
  next
    case (Some i)
    with cache_okD(1) [OF ok Some] slot [of i] show ?thesis by (simp add: logical_def eqs)
  qed
qed

definition bytes_put :: "'d cache \<Rightarrow> nat \<Rightarrow> bytes \<Rightarrow> 'd cache \<Rightarrow> bool" where
  "bytes_put c at data c' \<longleftrightarrow>
     cache_ok c' \<and> blocks_of c' = blocks_of c \<and> ca_writable c' = ca_writable c
     \<and> (\<forall>p < blocks_of c * BLOCK.
          logical_byte c' p = (if at \<le> p \<and> p < at + length data then data ! (p - at) else logical_byte c p))"

lemma bytes_put_trans:
  assumes "bytes_put c at (take n data) c1" "bytes_put c1 (at + n) (drop n data) c2" "n \<le> length data"
  shows "bytes_put c at data c2"
proof -
  have "logical_byte c2 p = (if at \<le> p \<and> p < at + length data then data ! (p - at) else logical_byte c p)"
    if p: "p < blocks_of c * BLOCK" for p
  proof -
    have a: "logical_byte c1 p = (if at \<le> p \<and> p < at + n then take n data ! (p - at) else logical_byte c p)"
      using assms(1,3) p by (simp add: bytes_put_def)
    have b: "logical_byte c2 p = (if at + n \<le> p \<and> p < at + length data then drop n data ! (p - (at + n)) else logical_byte c1 p)"
      using assms p by (simp add: bytes_put_def)
    have "data ! (n + (p - (at + n))) = data ! (p - at)" if "at + n \<le> p" using that by (simp add: algebra_simps)
    with a b assms(3) show ?thesis by auto
  qed
  with assms show ?thesis by (simp add: bytes_put_def)
qed

lemma block_of_byte: "p div BLOCK = b \<longleftrightarrow> b * BLOCK \<le> p \<and> p < b * BLOCK + BLOCK"
  by (auto simp: BLOCK_def)

lemma write_loop_spec:
  "cache_ok c \<Longrightarrow> at + length data \<le> blocks_of c * BLOCK \<Longrightarrow> write_loop B c at data = (None, c') \<Longrightarrow>
     bytes_put c at data c'"
proof (induction "length data" arbitrary: c at data rule: less_induct)
  case less
  note wl = less.prems(3) [unfolded write_loop.simps [of B c at data]]
  let ?block = "at div BLOCK" and ?within = "at mod BLOCK"
  have at_eq: "?block * BLOCK + ?within = at" by simp
  consider (nothing) "data = []" | (whole) "data \<noteq> []" "?within = 0 \<and> BLOCK \<le> length data"
    | (part) "data \<noteq> []" "\<not> (?within = 0 \<and> BLOCK \<le> length data)" by blast
  then show ?case
  proof cases
    case nothing
    then show ?thesis using wl less.prems(1) by (auto simp: bytes_put_def)
  next
    case whole
    let ?n = "min (length data div BLOCK) DIRECT_MAX"
    let ?part = "take (?n * BLOCK) data"
    have n: "0 < ?n" "?n * BLOCK \<le> length data" using whole by (auto simp: BLOCK_def DIRECT_MAX_def)
    have len: "length ?part = ?n * BLOCK" using n(2) by simp
    obtain r1 c1 where dw: "device_write B c ?block ?part = (r1, c1)" by fastforce
    have r1: "r1 = None" using wl whole dw by (auto simp: Let_def split: option.splits)
    let ?c2 = "write_through ?block ?n ?part c1"
    note wt = write_through_spec [OF less.prems(1) len dw [unfolded r1]]
    have rec: "write_loop B ?c2 (at + ?n * BLOCK) (drop (?n * BLOCK) data) = (None, c')"
      using wl whole dw r1 by (auto simp: Let_def split: option.splits)
    have at0: "at = ?block * BLOCK" using at_eq whole by simp
    have put: "bytes_put c at ?part ?c2"
      unfolding bytes_put_def
    proof (intro conjI allI impI)
      fix p assume "p < blocks_of c * BLOCK"
      let ?b = "p div BLOCK"
      have iff: "?block \<le> ?b \<and> ?b < ?block + ?n \<longleftrightarrow> at \<le> p \<and> p < at + ?n * BLOCK"
        using blocks_range(1) [of ?block p ?n] at0 by simp
      have chunk: "take BLOCK (drop ((?b - ?block) * BLOCK) ?part) ! (p mod BLOCK) = ?part ! (p - at)"
        if "at \<le> p \<and> p < at + ?n * BLOCK"
      proof -
        have eq: "(?b - ?block) * BLOCK + p mod BLOCK = p - at"
          using blocks_range(2) [of ?block p] that at0 by simp
        have "(?b - ?block) * BLOCK + p mod BLOCK < length ?part" unfolding eq len using that by linarith
        from take_drop_nth [OF this, of BLOCK] show ?thesis unfolding eq by simp
      qed
      show "logical_byte ?c2 p = (if at \<le> p \<and> p < at + length ?part then ?part ! (p - at) else logical_byte c p)"
        unfolding logical_byte_def wt(4) iff len
        by (cases "at \<le> p \<and> p < at + ?n * BLOCK") (simp_all only: chunk if_True if_False simp_thms)
    qed (use wt in auto)
    have "length (drop (?n * BLOCK) data) < length data" using n whole by (simp add: BLOCK_def)
    from less.hyps [OF this wt(1) _ rec] less.prems(2) wt(2) n(2)
    have "bytes_put ?c2 (at + ?n * BLOCK) (drop (?n * BLOCK) data) c'" by simp
    from bytes_put_trans [OF put this n(2)] show ?thesis .
  next
    case part
    let ?n = "min (BLOCK - ?within) (length data)"
    have within: "?within < BLOCK" by simp
    have n: "0 < ?n" "?n \<le> length data" "?within + ?n \<le> BLOCK" using part(1) within by (auto simp: min_def)
    obtain r1 c1 where sl: "cache_slot B c ?block = (r1, c1)" by fastforce
    note cs = cache_slot_spec [OF less.prems(1) sl]
    note ok1 = keeps_ok [OF cs(1)]
    obtain i where r1: "r1 = Inr i" using wl part sl by (cases r1) (auto simp: Let_def)
    note data1 = cs(2) [OF r1]
    let ?old = "sl_data (ca_slots c1 ! i)"
    let ?new = "take ?within ?old @ take ?n data @ drop (?within + ?n) ?old"
    let ?s = "(ca_slots c1 ! i)\<lparr>sl_data := ?new, sl_dirty := True\<rparr>"
    let ?c2 = "c1\<lparr>ca_slots := (ca_slots c1)[i := ?s]\<rparr>"
    have old: "length ?old = BLOCK" using data1 logical_length [OF less.prems(1)] by simp
    have newlen: "length ?new = BLOCK" using old n by simp
    have so: "slot_ok (ca_dev c1) ?s"
      using cache_okD(2) [OF ok1, of i] data1 newlen by (simp add: slot_ok_def)
    note ch = slot_change [OF ok1 _ _ so, of i]
    have c2: "cache_ok ?c2" "blocks_of ?c2 = blocks_of c" "logical ?c2 = (logical c)(?block := ?new)"
      using ch data1 cs(1) by (auto simp: keeps_def)
    have rec: "write_loop B ?c2 (at + ?n) (drop ?n data) = (None, c')"
      using wl part sl r1 by (simp add: Let_def)
    have put: "bytes_put c at (take ?n data) ?c2"
      unfolding bytes_put_def
    proof (intro conjI allI impI)
      fix p assume "p < blocks_of c * BLOCK"
      show "logical_byte ?c2 p = (if at \<le> p \<and> p < at + length (take ?n data) then take ?n data ! (p - at) else logical_byte c p)"
      proof (cases "p div BLOCK = ?block")
        case True
        have pe: "p = ?block * BLOCK + p mod BLOCK" using True div_mult_mod_eq [of p BLOCK] by simp
        have iff: "?within \<le> p mod BLOCK \<and> p mod BLOCK < ?within + ?n \<longleftrightarrow> at \<le> p \<and> p < at + ?n"
          and sub: "p mod BLOCK - ?within = p - at"
          using pe at_eq by linarith+
        have "?new ! (p mod BLOCK) = (if ?within \<le> p mod BLOCK \<and> p mod BLOCK < ?within + ?n
            then take ?n data ! (p mod BLOCK - ?within) else ?old ! (p mod BLOCK))"
          using splice_nth [of ?within ?n ?old "take ?n data" "p mod BLOCK"] old n by simp
        with iff sub True c2(3) data1 n(2) show ?thesis by (simp add: logical_byte_def)
      next
        case False
        then have "\<not> (at \<le> p \<and> p < at + ?n)" using at_eq n(3) block_of_byte [of p ?block] by linarith
        then have "\<not> (at \<le> p \<and> p < at + length (take ?n data))" by simp
        then show ?thesis unfolding logical_byte_def c2(3) using False by (simp only: if_False fun_upd_apply)
      qed
    qed (use c2 cs(1) in \<open>auto simp: keeps_def\<close>)
    have "length (drop ?n data) < length data" using n by simp
    from less.hyps [OF this c2(1) _ rec] less.prems(2) c2(2) n(2)
    have "bytes_put ?c2 (at + ?n) (drop ?n data) c'" by simp
    from bytes_put_trans [OF put this n(2)] show ?thesis .
  qed
qed

end

context block_device
begin

lemma cache_new_ok: "cache_ok (cache_new d)"
  by (simp add: cache_new_def cache_ok_def bt_sorted_def)

lemma set_writable_ok:
  "cache_ok (set_writable on c) = cache_ok c" "logical (set_writable on c) = logical c"
  "blocks_of (set_writable on c) = blocks_of c" "ca_writable (set_writable on c) = on"
  by (auto simp: set_writable_def cache_ok_def logical_def blocks_of_def fun_eq_iff split: option.split)

lemma discard_ok: "cache_ok (discard c) \<and> logical (discard c) = disk (ca_dev c)"
  by (simp add: discard_def cache_ok_def bt_sorted_def logical_def fun_eq_iff)

lemma cache_check_iff: "cache_check B c off n \<longleftrightarrow> off + n \<le> U64_MAX \<and> off + n \<le> blocks_of c * BLOCK"
  by (auto simp: cache_check_def checked_add_def cache_bytes_def saturating_mul_def blocks_of_def)

lemma read_at_spec:
  assumes "cache_ok c" "read_at B c off n = (r, c')"
  shows "keeps c c' \<and> (\<forall>bs. r = Inr bs \<longrightarrow> bs = map (logical_byte c) [off..<off + n])
    \<and> (blocks_of c * BLOCK < off + n \<longrightarrow> r = Inl OutOfRange)"
proof (cases "cache_check B c off n")
  case True
  then have "off + n \<le> blocks_of c * BLOCK" by (simp add: cache_check_iff)
  then show ?thesis using read_loop_spec [OF assms(1) _ , of off n r c'] assms(2) True by (simp add: read_at_def)
next
  case False
  then show ?thesis using assms by (auto simp: read_at_def keeps_refl)
qed

lemma write_at_spec:
  assumes "cache_ok c" "write_at B c off data = (r, c')"
  shows "(r = None \<longrightarrow> ca_writable c \<and> bytes_put c off data c')
    \<and> (\<not> ca_writable c \<longrightarrow> r = Some CacheReadOnly \<and> c' = c)
    \<and> (ca_writable c \<and> blocks_of c * BLOCK < off + length data \<longrightarrow> r = Some OutOfRange \<and> c' = c)"
  using write_loop_spec [OF assms(1), of off data c'] assms(2)
  by (auto simp: write_at_def cache_check_iff split: if_splits)

lemma flush_spec:
  assumes "cache_ok c" "cache_flush B c = (r, c')"
  shows "keeps c c' \<and> (r = None \<longrightarrow> \<not> has_dirty c' \<and> (\<forall>b. disk (ca_dev c') b = logical c b))"
proof -
  note fs = cache_flush_spec [OF assms]
  have "disk (ca_dev c') b = logical c b" if "r = None" for b
  proof -
    have clean: "\<not> sl_dirty (ca_slots c' ! i)" if "i < length (ca_slots c')" for i
      using fs(4) [OF \<open>r = None\<close>] nth_mem [OF that] by (auto simp: has_dirty_def list_ex_iff)
    have "logical c' b = disk (ca_dev c') b"
    proof (cases "map_of (ca_index c') b")
      case (Some i)
      with cache_okD(1) [OF keeps_ok [OF fs(1)] Some] cache_okD(2) [OF keeps_ok [OF fs(1)], of i] clean [of i]
      show ?thesis by (simp add: logical_def slot_ok_def)
    qed (simp add: logical_def)
    with fs(1) show ?thesis by (simp add: keeps_def)
  qed
  with fs show ?thesis by blast
qed

end

section \<open>Devices\<close>

text \<open>The volume in memory of \<open>tools/fatdisk/src/image.rs\<close>.\<close>

definition SECTOR :: nat where "SECTOR = 512"

definition image_range :: "nat \<Rightarrow> nat \<Rightarrow> (nat \<times> nat) option" where
  "image_range block len =
     (if block * SECTOR \<le> U64_MAX \<and> block * SECTOR + len \<le> U64_MAX
      then Some (block * SECTOR, block * SECTOR + len) else None)"

definition memory_blocks :: "bytes blocks" where
  "memory_blocks =
     \<lparr>bk_count = (\<lambda>data. length data div SECTOR),
      bk_read = (\<lambda>data block len.
        case image_range block len of
          Some (lo, hi) \<Rightarrow> if hi \<le> length data then (Some (take (hi - lo) (drop lo data)), data) else (None, data)
        | None \<Rightarrow> (None, data)),
      bk_write = (\<lambda>data block new.
        case image_range block (length new) of
          Some (lo, hi) \<Rightarrow>
            if hi \<le> length data then (True, take lo data @ new @ drop hi data) else (False, data)
        | None \<Rightarrow> (False, data))\<rparr>"

text \<open>The volume that records its writes and fails when it is told to.\<close>

record recorder =
  rc_data :: bytes
  rc_writes :: "(nat \<times> bytes) list"
  rc_fail_after :: "nat option"
  rc_fail_reads :: bool

fun sector_chunks :: "nat \<Rightarrow> nat \<Rightarrow> bytes \<Rightarrow> (nat \<times> bytes) list" where
  "sector_chunks 0 block data = []"
| "sector_chunks (Suc n) block data =
     (if data = [] then [] else (block, take SECTOR data) # sector_chunks n (block + 1) (drop SECTOR data))"

definition recorder_blocks :: "recorder blocks" where
  "recorder_blocks =
     \<lparr>bk_count = (\<lambda>r. length (rc_data r) div SECTOR),
      bk_read = (\<lambda>r block len.
        if rc_fail_reads r then (None, r)
        else (fst (bk_read memory_blocks (rc_data r) block len), r)),
      bk_write = (\<lambda>r block new.
        if (case rc_fail_after r of Some limit \<Rightarrow> length (rc_writes r) \<ge> limit | None \<Rightarrow> False) then (False, r)
        else (case bk_write memory_blocks (rc_data r) block new of
          (True, data) \<Rightarrow>
            (True, r\<lparr>rc_data := data, rc_writes := rc_writes r @ sector_chunks (length new) block new\<rparr>)
        | (False, _) \<Rightarrow> (False, r)))\<rparr>"

definition data_disk :: "bytes \<Rightarrow> nat \<Rightarrow> bytes" where
  "data_disk data b = take SECTOR (drop (b * SECTOR) data)"

lemma BLOCK_SECTOR: "BLOCK = SECTOR"
  by (simp add: BLOCK_def SECTOR_def)

lemma data_disk_concat:
  "(b + n) * SECTOR \<le> length data \<Longrightarrow>
     concat (map (data_disk data) [b..<b + n]) = take (n * SECTOR) (drop (b * SECTOR) data)"
proof (induction n)
  case (Suc n)
  then have "concat (map (data_disk data) [b..<b + n]) = take (n * SECTOR) (drop (b * SECTOR) data)"
    by (simp add: algebra_simps)
  moreover have "take (n * SECTOR + SECTOR) (drop (b * SECTOR) data)
      = take (n * SECTOR) (drop (b * SECTOR) data) @ take SECTOR (drop (n * SECTOR) (drop (b * SECTOR) data))"
    by (rule take_add)
  moreover have "data_disk data (b + n) = take SECTOR (drop (n * SECTOR) (drop (b * SECTOR) data))"
    by (simp add: data_disk_def algebra_simps)
  ultimately show ?case by (simp add: add.commute [of SECTOR])
qed simp

lemma data_disk_put:
  assumes "b * SECTOR + n * SECTOR \<le> length data" "length new = n * SECTOR"
  defines "data' \<equiv> take (b * SECTOR) data @ new @ drop (b * SECTOR + n * SECTOR) data"
  shows "length data' = length data"
    and "x < b \<or> b + n \<le> x \<Longrightarrow> data_disk data' x = data_disk data x"
    and "k < n \<Longrightarrow> data_disk data' (b + k) = take SECTOR (drop (k * SECTOR) new)"
proof -
  show "length data' = length data" using assms by (simp add: data'_def)
  show "data_disk data' (b + k) = take SECTOR (drop (k * SECTOR) new)" if "k < n"
  proof -
    have "Suc k * SECTOR \<le> n * SECTOR" using that by (intro mult_le_mono1) simp
    moreover have "k * SECTOR - n * SECTOR = 0" using that by simp
    ultimately have "drop ((b + k) * SECTOR) data' = drop (k * SECTOR) new @ drop (b * SECTOR + n * SECTOR) data"
      "SECTOR \<le> length (drop (k * SECTOR) new)"
      using assms(1,2) by (simp_all add: data'_def distrib_right)
    then show ?thesis by (simp add: data_disk_def)
  qed
  assume "x < b \<or> b + n \<le> x"
  then show "data_disk data' x = data_disk data x"
  proof
    assume "x < b"
    then have "Suc x * SECTOR \<le> b * SECTOR" by (intro mult_le_mono1) simp
    then show ?thesis
      using assms(1) by (simp add: data_disk_def data'_def drop_append take_append take_drop min_absorb1)
  next
    assume "b + n \<le> x"
    moreover from this have "(b + n) * SECTOR \<le> x * SECTOR" by (rule mult_le_mono1)
    ultimately have "drop (x * SECTOR) data' = drop (x * SECTOR) data"
      using assms(1,2) by (simp add: data'_def distrib_right)
    then show ?thesis by (simp add: data_disk_def)
  qed
qed

lemma blocks_fit: "b + n \<le> length data div SECTOR \<Longrightarrow> b * SECTOR + n * SECTOR \<le> length data"
proof -
  assume "b + n \<le> length data div SECTOR"
  then have "(b + n) * SECTOR \<le> length data div SECTOR * SECTOR" by (rule mult_le_mono1)
  then show ?thesis using div_times_less_eq_dividend [of "length data" SECTOR]
    unfolding distrib_right by linarith
qed

interpretation memory: block_device memory_blocks data_disk
proof unfold_locales
  fix d :: bytes and b n :: nat
  show "length (data_disk d b) = BLOCK" if "b < bk_count memory_blocks d"
    using blocks_fit [of b 1 d] that by (simp add: data_disk_def memory_blocks_def BLOCK_SECTOR)
  show "data_disk d' = data_disk d \<and> bk_count memory_blocks d' = bk_count memory_blocks d"
    if "bk_read memory_blocks d b (n * BLOCK) = (r, d')" "b + n \<le> bk_count memory_blocks d" for r d'
    using that by (auto simp: memory_blocks_def split: option.splits if_splits)
  show "bs = concat (map (data_disk d) [b..<b + n])"
    if "bk_read memory_blocks d b (n * BLOCK) = (Some bs, d')" "b + n \<le> bk_count memory_blocks d" for bs d'
    using that blocks_fit [of b n d] data_disk_concat [of b n d]
    by (auto simp: memory_blocks_def image_range_def BLOCK_SECTOR distrib_right split: option.splits if_splits)
next
  fix d d' data :: bytes and b n :: nat and ok
  assume w: "bk_write memory_blocks d b data = (ok, d')" and len: "length data = n * BLOCK"
    and fit: "b + n \<le> bk_count memory_blocks d"
  have fit': "b * SECTOR + n * SECTOR \<le> length d" using fit blocks_fit by (simp add: memory_blocks_def)
  note put = data_disk_put [OF fit' len [unfolded BLOCK_SECTOR]]
  have d': "d' = (if ok then take (b * SECTOR) d @ data @ drop (b * SECTOR + n * SECTOR) d else d)"
    using w len fit' by (auto simp: memory_blocks_def image_range_def BLOCK_SECTOR split: if_splits)
  show "bk_count memory_blocks d' = bk_count memory_blocks d"
    using put(1) d' by (simp add: memory_blocks_def)
  show "data_disk d' x = data_disk d x" if "x < b \<or> b + n \<le> x" for x
    using put(2) [OF that] d' by simp
next
  fix d d' data :: bytes and b n k :: nat
  assume w: "bk_write memory_blocks d b data = (True, d')" and len: "length data = n * BLOCK"
    and fit: "b + n \<le> bk_count memory_blocks d" and k: "k < n"
  have fit': "b * SECTOR + n * SECTOR \<le> length d" using fit blocks_fit by (simp add: memory_blocks_def)
  have "d' = take (b * SECTOR) d @ data @ drop (b * SECTOR + n * SECTOR) d"
    using w len fit' by (auto simp: memory_blocks_def image_range_def BLOCK_SECTOR split: if_splits)
  then show "data_disk d' (b + k) = take BLOCK (drop (k * BLOCK) data)"
    using data_disk_put(3) [OF fit' len [unfolded BLOCK_SECTOR] k] by (simp add: BLOCK_SECTOR)
qed

interpretation recorder: block_device recorder_blocks "\<lambda>r. data_disk (rc_data r)"
proof unfold_locales
  fix d :: recorder and b n :: nat
  show "length (data_disk (rc_data d) b) = BLOCK" if "b < bk_count recorder_blocks d"
    using memory.disk_length [of b "rc_data d"] that by (simp add: recorder_blocks_def memory_blocks_def)
  show "data_disk (rc_data d') = data_disk (rc_data d) \<and> bk_count recorder_blocks d' = bk_count recorder_blocks d"
    if "bk_read recorder_blocks d b (n * BLOCK) = (r, d')" "b + n \<le> bk_count recorder_blocks d" for r d'
    using that by (auto simp: recorder_blocks_def split: if_splits)
  show "bs = concat (map (data_disk (rc_data d)) [b..<b + n])"
    if "bk_read recorder_blocks d b (n * BLOCK) = (Some bs, d')" "b + n \<le> bk_count recorder_blocks d" for bs d'
  proof (rule memory.read_data)
    show "bk_read memory_blocks (rc_data d) b (n * BLOCK)
        = (Some bs, snd (bk_read memory_blocks (rc_data d) b (n * BLOCK)))"
      using that by (auto simp: recorder_blocks_def split: if_splits intro: prod_eqI)
    show "b + n \<le> bk_count memory_blocks (rc_data d)"
      using that by (simp add: recorder_blocks_def memory_blocks_def)
  qed
next
  fix d d' :: recorder and data :: bytes and b n :: nat and ok
  assume w: "bk_write recorder_blocks d b data = (ok, d')" and len: "length data = n * BLOCK"
    and fit: "b + n \<le> bk_count recorder_blocks d"
  obtain k m where mw: "bk_write memory_blocks (rc_data d) b data = (k, m)" by fastforce
  have fit': "b + n \<le> bk_count memory_blocks (rc_data d)" using fit by (simp add: recorder_blocks_def memory_blocks_def)
  have d': "rc_data d' = rc_data d \<or> rc_data d' = m"
    using w mw by (auto simp: recorder_blocks_def split: if_splits bool.splits)
  show "bk_count recorder_blocks d' = bk_count recorder_blocks d"
    using memory.write_count [OF mw len fit'] d' by (auto simp: recorder_blocks_def memory_blocks_def)
  show "data_disk (rc_data d') x = data_disk (rc_data d) x" if "x < b \<or> b + n \<le> x" for x
    using memory.write_other [OF mw len fit' that] d' by auto
next
  fix d d' :: recorder and data :: bytes and b n k :: nat
  assume w: "bk_write recorder_blocks d b data = (True, d')" and len: "length data = n * BLOCK"
    and fit: "b + n \<le> bk_count recorder_blocks d" and k: "k < n"
  have fit': "b + n \<le> bk_count memory_blocks (rc_data d)" using fit by (simp add: recorder_blocks_def memory_blocks_def)
  have "bk_write memory_blocks (rc_data d) b data = (True, rc_data d')"
    using w by (auto simp: recorder_blocks_def split: if_splits prod.splits bool.splits)
  from memory.write_data [OF this len fit' k] show "data_disk (rc_data d') (b + k) = take BLOCK (drop (k * BLOCK) data)" .
qed

end
