(* ===== verification/Fat_Cache_Live.thy ===== *)
theory Fat_Cache_Live
  imports Fat_Cache_Correct
begin

text \<open>
  On a device that answers every command in range, the cache answers too: the clock finds a victim
  whenever no slot is dirty, so a block always finds a slot, and a read, a write and a flush inside
  the volume succeed.  The last section states what the cache promises over the two devices of
  \<open>tools/fatdisk/src/image.rs\<close>.
\<close>

section \<open>The clock finds a clean slot\<close>

definition used_slots :: "slot list \<Rightarrow> nat" where
  "used_slots ss = length (filter sl_used ss)"

lemma used_slots_clear:
  "i < length ss \<Longrightarrow> sl_used (ss ! i) \<Longrightarrow> Suc (used_slots (ss[i := (ss ! i)\<lparr>sl_used := False\<rparr>])) = used_slots ss"
  by (induction ss arbitrary: i) (auto simp: used_slots_def nth_Cons' split: nat.split)

lemma victim_loop_finds:
  "\<forall>i < length (ca_slots c). \<not> sl_dirty (ca_slots c ! i) \<Longrightarrow> ca_slots c \<noteq> [] \<Longrightarrow>
     victim_loop n c = (None, c') \<Longrightarrow> n \<le> used_slots (ca_slots c)"
proof (induction n arbitrary: c)
  case (Suc n)
  let ?at = "ca_hand c mod length (ca_slots c)"
  have at: "?at < length (ca_slots c)" using Suc.prems(2) by simp
  let ?ss = "(ca_slots c)[?at := (ca_slots c ! ?at)\<lparr>sl_used := False\<rparr>]"
  let ?c1 = "c\<lparr>ca_hand := (?at + 1) mod length (ca_slots c), ca_slots := ?ss\<rparr>"
  have used: "sl_used (ca_slots c ! ?at)" and rec: "victim_loop n ?c1 = (None, c')"
    using Suc.prems(1,3) at by (auto simp: Let_def split: if_splits)
  have "\<forall>i < length (ca_slots ?c1). \<not> sl_dirty (ca_slots ?c1 ! i)"
    using Suc.prems(1) at by (auto simp: nth_list_update)
  from Suc.IH [OF this _ rec] Suc.prems(2) have "n \<le> used_slots ?ss" by simp
  with used_slots_clear [OF at used] show ?case by simp
qed simp

lemma victim_finds:
  assumes "\<not> has_dirty c" "ca_slots c \<noteq> []"
  shows "\<exists>v c'. victim c = (Some v, c')"
proof -
  obtain r c' where v: "victim c = (r, c')" by fastforce
  have clean: "\<forall>i < length (ca_slots c). \<not> sl_dirty (ca_slots c ! i)"
    using assms(1) by (auto simp: has_dirty_def list_ex_iff)
  have "r \<noteq> None"
  proof
    assume "r = None"
    then have "victim_loop (2 * length (ca_slots c)) c = (None, c')" using v assms(2) by (simp add: victim_def)
    then have "2 * length (ca_slots c) \<le> used_slots (ca_slots c)" by (rule victim_loop_finds [OF clean assms(2)])
    moreover have "used_slots (ca_slots c) \<le> length (ca_slots c)" by (simp add: used_slots_def)
    moreover have "0 < length (ca_slots c)" using assms(2) by simp
    ultimately show False by linarith
  qed
  with v show ?thesis by auto
qed

section \<open>A device that answers\<close>

locale answering_device = block_device +
  assumes read_ok: "bk_count B d * BLOCK \<le> U64_MAX \<Longrightarrow> b + n \<le> bk_count B d \<Longrightarrow>
      \<exists>bs d'. bk_read B d b (n * BLOCK) = (Some bs, d')"
    and write_ok: "bk_count B d * BLOCK \<le> U64_MAX \<Longrightarrow> length data = n * BLOCK \<Longrightarrow> b + n \<le> bk_count B d \<Longrightarrow>
      \<exists>d'. bk_write B d b data = (True, d')"
begin

definition in_u64 :: "'a cache \<Rightarrow> bool" where
  "in_u64 c \<longleftrightarrow> blocks_of c * BLOCK \<le> U64_MAX"

lemma in_u64_keeps: "keeps c c' \<Longrightarrow> in_u64 c' = in_u64 c"
  by (simp add: keeps_def in_u64_def)

lemma in_u64_blocks: "in_u64 c \<Longrightarrow> b \<le> blocks_of c \<Longrightarrow> b \<le> U64_MAX"
  unfolding in_u64_def BLOCK_def by linarith

lemma device_read_ok:
  assumes "in_u64 c" "b + n \<le> blocks_of c"
  shows "\<exists>bs c'. device_read B c b (n * BLOCK) = (Inr bs, c')"
  using read_ok [of "ca_dev c" b n] assms in_u64_blocks [OF assms]
  by (auto simp: device_read_def in_u64_def blocks_of_def checked_add_def)

lemma device_write_ok:
  assumes "in_u64 c" "b + n \<le> blocks_of c" "length data = n * BLOCK"
  shows "\<exists>c'. device_write B c b data = (None, c')"
  using write_ok [of "ca_dev c" data n b] assms in_u64_blocks [OF assms(1,2)]
  by (auto simp: device_write_def in_u64_def blocks_of_def checked_add_def)

lemma run_fits:
  assumes ok: "cache_ok c" and ne: "run \<noteq> []"
    and blocks: "\<forall>k < length run. fst (run ! k) = first + k"
    and ent: "\<forall>(b, i) \<in> set run. map_of (ca_index c) b = Some i"
  shows "first + length run \<le> blocks_of c"
    and "length (concat (map (\<lambda>(_, i). if i < length (ca_slots c) then sl_data (ca_slots c ! i) else []) run))
      = length run * BLOCK"
proof -
  have slot: "i < length (ca_slots c)" "b < blocks_of c" "length (sl_data (ca_slots c ! i)) = BLOCK"
    if "(b, i) \<in> set run" for b i
  proof -
    have m: "map_of (ca_index c) b = Some i" using ent that by auto
    show "i < length (ca_slots c)" using cache_okD(1) [OF ok m] by simp
    with cache_okD(1) [OF ok m] cache_okD(2) [OF ok, of i]
    show "b < blocks_of c" "length (sl_data (ca_slots c ! i)) = BLOCK" by (auto simp: slot_ok_def blocks_of_def)
  qed
  let ?last = "run ! (length run - 1)"
  have "?last \<in> set run" "fst ?last = first + (length run - 1)" using ne blocks by auto
  with slot(2) [of "fst ?last" "snd ?last"] ne show "first + length run \<le> blocks_of c"
    by (cases run) auto
  let ?f = "\<lambda>(_ :: nat, i). if i < length (ca_slots c) then sl_data (ca_slots c ! i) else []"
  have "length x = BLOCK" if "x \<in> set (map ?f run)" for x using that slot(1,3) by fastforce
  then show "length (concat (map ?f run)) = length run * BLOCK"
    using length_concat_blocks [of "map ?f run" BLOCK] by simp
qed

lemma flush_loop_ok:
  "cache_ok c \<Longrightarrow> in_u64 c \<Longrightarrow> distinct (map snd t) \<Longrightarrow>
   \<forall>(b, i) \<in> set t. map_of (ca_index c) b = Some i \<and> sl_dirty (ca_slots c ! i) \<Longrightarrow>
     \<exists>c'. flush_loop B c t = (None, c')"
proof (induction "length t" arbitrary: t c rule: less_induct)
  case less
  show ?case
  proof (cases t)
    case (Cons x rest)
    obtain first slot where x: "x = (first, slot)" by (cases x)
    obtain run left where rl: "flush_run first 0 t = (run, left)" by fastforce
    have t: "t = run @ left" using flush_run_append [OF rl] .
    have ne: "run \<noteq> []" using rl Cons x by (auto simp: DIRECT_MAX_def split: prod.splits)
    let ?data = "concat (map (\<lambda>(_, i). if i < length (ca_slots c) then sl_data (ca_slots c ! i) else []) run)"
    have blocks: "fst (run ! k) = first + k" if "k < length run" for k
      using flush_run_blocks [OF rl that] by simp
    have ent: "map_of (ca_index c) b = Some i \<and> sl_dirty (ca_slots c ! i)" if "(b, i) \<in> set run" for b i
      using less.prems(4) that t by auto
    have "\<forall>k < length run. fst (run ! k) = first + k" "\<forall>(b, i) \<in> set run. map_of (ca_index c) b = Some i"
      using blocks ent by auto
    note fits = run_fits [OF less.prems(1) ne this]
    obtain c1 where w: "device_write B c first ?data = (None, c1)"
      using device_write_ok [OF less.prems(2) fits(1), of ?data] fits(2) by blast
    note one = flush_one_run [OF less.prems(1) blocks ent w]
    let ?c2 = "c1\<lparr>ca_slots := mark_clean run (ca_slots c1)\<rparr>"
    have k2: "keeps c ?c2" using one(4) by simp
    have dist: "distinct (map snd left)" "snd ` set run \<inter> snd ` set left = {}" using less.prems(3) t by auto
    have "map_of (ca_index ?c2) b = Some i \<and> sl_dirty (ca_slots ?c2 ! i)" if "(b, i) \<in> set left" for b i
    proof -
      have "i \<notin> snd ` set run" using dist(2) that by force
      moreover have m: "map_of (ca_index c) b = Some i" "sl_dirty (ca_slots c ! i)" using less.prems(4) that t by auto
      moreover have "i < length (ca_slots c)" using cache_okD(1) [OF less.prems(1) m(1)] by simp
      ultimately show ?thesis using mark_clean_nth [of run "ca_slots c" i] one(2,3) by simp
    qed
    then have "\<forall>(b, i) \<in> set left. map_of (ca_index ?c2) b = Some i \<and> sl_dirty (ca_slots ?c2 ! i)" by blast
    moreover have "length left < length t" using t ne by simp
    ultimately obtain c' where "flush_loop B ?c2 left = (None, c')"
      using less.hyps [of left ?c2] keeps_ok [OF k2] in_u64_keeps [OF k2] less.prems(2) dist(1) by blast
    then show ?thesis using rl w Cons x by simp
  qed simp
qed

lemma flush_ok:
  assumes "cache_ok c" "in_u64 c"
  shows "\<exists>c'. cache_flush B c = (None, c')"
  unfolding cache_flush_def using dirty_entries [OF assms(1)] flush_loop_ok [OF assms] by blast

lemma cache_miss_ok:
  assumes ok: "cache_ok c" and u: "in_u64 c" and b: "b < blocks_of c"
  shows "\<exists>i c'. cache_miss B c b = (Inr i, c')"
proof -
  obtain bs c1 where rd: "device_read B c b BLOCK = (Inr bs, c1)"
    using device_read_ok [OF u, of b 1] b by auto
  have k1: "keeps c c1" using device_read_spec [OF ok, of b 1] rd by simp
  show ?thesis
  proof (cases "length (ca_slots c1) < CACHE_BLOCKS")
    case False
    obtain o1 c2 where v1: "victim c1 = (o1, c2)" by fastforce
    note vs = victim_spec [OF keeps_ok [OF k1] v1]
    obtain c3 where fl: "cache_flush B c2 = (None, c3)"
      using flush_ok [OF keeps_ok [OF vs(1)]] in_u64_keeps [OF keeps_trans [OF k1 vs(1)]] u by blast
    note fs = cache_flush_spec [OF keeps_ok [OF vs(1)] fl]
    have "ca_slots c3 \<noteq> []" using False vs(2) fs(3) by (auto simp: CACHE_BLOCKS_def)
    then obtain v c4 where "victim c3 = (Some v, c4)" using victim_finds [of c3] fs(4) by blast
    then show ?thesis using rd False v1 fl by (cases o1) (auto simp: cache_miss_def Let_def)
  qed (use rd in \<open>auto simp: cache_miss_def Let_def\<close>)
qed

lemma cache_slot_ok:
  assumes "cache_ok c" "in_u64 c" "b < blocks_of c"
  shows "\<exists>i c'. cache_slot B c b = (Inr i, c')"
  using cache_miss_ok [OF assms] by (auto simp: cache_slot_def split: option.split)

lemma in_volume:
  "0 < left \<Longrightarrow> at + left \<le> blocks_of c * BLOCK \<Longrightarrow> at div BLOCK < blocks_of c"
  by (intro less_mult_imp_div_less) simp

lemma whole_blocks:
  assumes "at mod BLOCK = 0" "n * BLOCK \<le> left" "at + left \<le> blocks_of c * BLOCK"
  shows "at div BLOCK + n \<le> blocks_of c"
proof -
  have "(at div BLOCK + n) * BLOCK \<le> blocks_of c * BLOCK"
    using assms div_mult_mod_eq [of at BLOCK] unfolding distrib_right by linarith
  then show ?thesis by simp
qed

lemma read_loop_ok:
  "cache_ok c \<Longrightarrow> in_u64 c \<Longrightarrow> at + left \<le> blocks_of c * BLOCK \<Longrightarrow> \<exists>bs c'. read_loop B c at left = (Inr bs, c')"
proof (induction left arbitrary: c at rule: less_induct)
  case (less left)
  let ?block = "at div BLOCK" and ?within = "at mod BLOCK"
  consider (nothing) "left = 0" | (whole) "left \<noteq> 0" "?within = 0 \<and> BLOCK \<le> left"
    | (part) "left \<noteq> 0" "\<not> (?within = 0 \<and> BLOCK \<le> left)" by blast
  then show ?case
  proof cases
    case nothing
    then show ?thesis by (simp add: read_loop.simps)
  next
    case whole
    let ?n = "min (left div BLOCK) DIRECT_MAX"
    have n: "0 < ?n" "?n * BLOCK \<le> left" using whole by (auto simp: BLOCK_def DIRECT_MAX_def)
    obtain bs c1 where rd: "device_read B c ?block (?n * BLOCK) = (Inr bs, c1)"
      using device_read_ok [OF less.prems(2) whole_blocks [OF conjunct1 [OF whole(2)] n(2) less.prems(3)]] by auto
    note k = device_read_spec(1) [OF less.prems(1) rd]
    have "left - ?n * BLOCK < left" using n whole by (simp add: BLOCK_def)
    with less.IH [of "left - ?n * BLOCK" c1 "at + ?n * BLOCK"] keeps_ok [OF k] in_u64_keeps [OF k] less.prems n(2) k
    obtain bs' c' where "read_loop B c1 (at + ?n * BLOCK) (left - ?n * BLOCK) = (Inr bs', c')"
      by (auto simp: keeps_def)
    then show ?thesis using whole rd by (subst read_loop.simps) (simp add: Let_def)
  next
    case part
    let ?n = "min (BLOCK - ?within) left"
    have n: "0 < ?n" "?n \<le> left" using part(1) mod_less_divisor [OF BLOCK_pos, of at] by (auto simp: min_def)
    obtain i c1 where sl: "cache_slot B c ?block = (Inr i, c1)"
      using cache_slot_ok [OF less.prems(1,2) in_volume] part(1) less.prems(3) by blast
    note k = cache_slot_spec(1) [OF less.prems(1) sl]
    have "left - ?n < left" using n by simp
    with less.IH [of "left - ?n" c1 "at + ?n"] keeps_ok [OF k] in_u64_keeps [OF k] less.prems n(2) k
    obtain bs' c' where "read_loop B c1 (at + ?n) (left - ?n) = (Inr bs', c')"
      by (auto simp: keeps_def)
    then show ?thesis using part sl by (subst read_loop.simps) (auto simp: Let_def)
  qed
qed

lemma part_written:
  assumes ok: "cache_ok c" and sl: "cache_slot B c b = (Inr i, c1)" and fit: "w + n \<le> BLOCK" "length part = n"
  defines "old \<equiv> sl_data (ca_slots c1 ! i)"
  defines "c2 \<equiv> c1\<lparr>ca_slots := (ca_slots c1)[i := (ca_slots c1 ! i)\<lparr>sl_data := take w old @ part @ drop (w + n) old, sl_dirty := True\<rparr>]\<rparr>"
  shows "cache_ok c2" "blocks_of c2 = blocks_of c"
    "logical c2 = (logical c)(b := take w old @ part @ drop (w + n) old)" "ca_writable c2 = ca_writable c"
proof -
  note cs = cache_slot_spec [OF ok sl]
  note ok1 = keeps_ok [OF cs(1)]
  note data1 = cs(2) [OF refl]
  let ?s = "(ca_slots c1 ! i)\<lparr>sl_data := take w old @ part @ drop (w + n) old, sl_dirty := True\<rparr>"
  have "length old = BLOCK" using data1 logical_length [OF ok] by (simp add: old_def)
  then have so: "slot_ok (ca_dev c1) ?s"
    using cache_okD(2) [OF ok1, of i] data1 fit by (simp add: slot_ok_def)
  note ch = slot_change [OF ok1 _ _ so, of i]
  show "cache_ok c2" "blocks_of c2 = blocks_of c" "ca_writable c2 = ca_writable c"
    "logical c2 = (logical c)(b := take w old @ part @ drop (w + n) old)"
    using ch data1 cs(1) by (auto simp: keeps_def c2_def)
qed

lemma write_loop_ok:
  "cache_ok c \<Longrightarrow> in_u64 c \<Longrightarrow> at + length data \<le> blocks_of c * BLOCK \<Longrightarrow> \<exists>c'. write_loop B c at data = (None, c')"
proof (induction "length data" arbitrary: c at data rule: less_induct)
  case less
  let ?block = "at div BLOCK" and ?within = "at mod BLOCK"
  consider (nothing) "data = []" | (whole) "data \<noteq> []" "?within = 0 \<and> BLOCK \<le> length data"
    | (part) "data \<noteq> []" "\<not> (?within = 0 \<and> BLOCK \<le> length data)" by blast
  then show ?case
  proof cases
    case nothing
    then show ?thesis by (simp add: write_loop.simps)
  next
    case whole
    let ?n = "min (length data div BLOCK) DIRECT_MAX"
    let ?part = "take (?n * BLOCK) data"
    have n: "0 < ?n" "?n * BLOCK \<le> length data" using whole by (auto simp: BLOCK_def DIRECT_MAX_def)
    have len: "length ?part = ?n * BLOCK" using n(2) by simp
    obtain c1 where dw: "device_write B c ?block ?part = (None, c1)"
      using device_write_ok [OF less.prems(2) whole_blocks [OF conjunct1 [OF whole(2)] n(2) less.prems(3)] len] by auto
    note wt = write_through_spec [OF less.prems(1) len dw]
    let ?c2 = "write_through ?block ?n ?part c1" and ?rest = "drop (?n * BLOCK) data"
    have "length ?rest < length data" using n whole by (simp add: BLOCK_def)
    moreover have "in_u64 ?c2" "at + ?n * BLOCK + length ?rest \<le> blocks_of ?c2 * BLOCK"
      using wt(2) less.prems(2,3) n(2) by (simp_all add: in_u64_def)
    ultimately obtain c' where "write_loop B ?c2 (at + ?n * BLOCK) ?rest = (None, c')"
      using less.hyps [of ?rest ?c2 "at + ?n * BLOCK"] wt(1) by blast
    then show ?thesis using whole dw by (subst write_loop.simps) (simp add: Let_def)
  next
    case part
    let ?n = "min (BLOCK - ?within) (length data)"
    have n: "0 < ?n" "?n \<le> length data" "?within + ?n \<le> BLOCK"
      using part(1) mod_less_divisor [OF BLOCK_pos, of at] by (auto simp: min_def)
    obtain i c1 where sl: "cache_slot B c ?block = (Inr i, c1)"
      using cache_slot_ok [OF less.prems(1,2) in_volume [of "length data" at]] part(1) less.prems(3) by auto
    note pw = part_written [OF less.prems(1) sl n(3), of "take ?n data"]
    let ?old = "sl_data (ca_slots c1 ! i)"
    let ?c2 = "c1\<lparr>ca_slots := (ca_slots c1)[i := (ca_slots c1 ! i)
      \<lparr>sl_data := take ?within ?old @ take ?n data @ drop (?within + ?n) ?old, sl_dirty := True\<rparr>]\<rparr>"
    have c2: "cache_ok ?c2" "blocks_of ?c2 = blocks_of c" using pw(1,2) n(2) by simp_all
    have "length (drop ?n data) < length data" using n by simp
    moreover have "in_u64 ?c2" "at + ?n + length (drop ?n data) \<le> blocks_of ?c2 * BLOCK"
      using c2(2) less.prems(2,3) n(2) by (simp_all add: in_u64_def)
    ultimately obtain c' where "write_loop B ?c2 (at + ?n) (drop ?n data) = (None, c')"
      using less.hyps [of "drop ?n data" ?c2 "at + ?n"] c2(1) by blast
    then show ?thesis using part sl by (subst write_loop.simps) (auto simp: Let_def)
  qed
qed

lemma read_at_ok:
  assumes "cache_ok c" "in_u64 c" "off + n \<le> blocks_of c * BLOCK"
  shows "\<exists>bs c'. read_at B c off n = (Inr bs, c')"
  using read_loop_ok [OF assms] assms(2,3) by (auto simp: read_at_def cache_check_iff in_u64_def)

lemma write_at_ok:
  assumes "cache_ok c" "in_u64 c" "off + length data \<le> blocks_of c * BLOCK" "ca_writable c"
  shows "\<exists>c'. write_at B c off data = (None, c')"
  using write_loop_ok [OF assms(1-3)] assms(2-4) by (auto simp: write_at_def cache_check_iff in_u64_def)

end

interpretation memory: answering_device memory_blocks data_disk
proof unfold_locales
  fix d :: bytes and b n :: nat
  assume "bk_count memory_blocks d * BLOCK \<le> U64_MAX" "b + n \<le> bk_count memory_blocks d"
  then have fit: "b * SECTOR + n * SECTOR \<le> length d" "b * SECTOR + n * SECTOR \<le> U64_MAX"
    using blocks_fit [of b n d] mult_le_mono1 [of "b + n" "length d div SECTOR" SECTOR]
    by (simp_all add: memory_blocks_def BLOCK_SECTOR distrib_right)
  then show "\<exists>bs d'. bk_read memory_blocks d b (n * BLOCK) = (Some bs, d')"
    by (simp add: memory_blocks_def image_range_def BLOCK_SECTOR)
  show "\<exists>d'. bk_write memory_blocks d b data = (True, d')" if "length data = n * BLOCK" for data
    using fit that by (simp add: memory_blocks_def image_range_def BLOCK_SECTOR)
qed

section \<open>What the cache promises\<close>

lemma recorder_blocks_of: "recorder.blocks_of c = length (rc_data (ca_dev c)) div SECTOR"
  by (simp add: recorder.blocks_of_def) (simp add: recorder_blocks_def)

lemma memory_blocks_of: "memory.blocks_of c = length (ca_dev c) div SECTOR"
  by (simp add: memory.blocks_of_def) (simp add: memory_blocks_def)

text \<open>Reads: a read through the cache returns the volume's contents, cached blocks over the
  device's, whatever the cache holds and evicts on the way and whether or not the device fails some
  of its commands; it changes neither the contents nor the invariant, and a read past the end of
  the volume is refused.\<close>

theorem cache_read_contents:
  assumes "recorder.cache_ok c" "read_at recorder_blocks c off n = (r, c')"
  shows "(\<forall>bs. r = Inr bs \<longrightarrow> bs = map (recorder.logical_byte c) [off..<off + n])
    \<and> recorder.logical c' = recorder.logical c \<and> recorder.cache_ok c'
    \<and> (length (rc_data (ca_dev c)) div SECTOR * BLOCK < off + n \<longrightarrow> r = Inl OutOfRange)"
  using recorder.read_at_spec [OF assms]
  by (simp add: recorder.keeps_def recorder_blocks_of)

definition sample_recorder :: recorder where
  "sample_recorder =
     \<lparr>rc_data = replicate 1024 7, rc_writes = [], rc_fail_after = Some 1, rc_fail_reads = False\<rparr>"

lemmas sample_simps =
  read_at_def write_at_def cache_check_def cache_bytes_def checked_add_def saturating_mul_def U64_MAX_def
  BLOCK_def SECTOR_def DIRECT_MAX_def device_read_def device_write_def recorder_blocks_def memory_blocks_def
  image_range_def cache_new_def sample_recorder_def overlay_def write_through_def bt_range_def set_writable_def

lemma sample_recorder_read: "read_at recorder_blocks (cache_new sample_recorder) 512 512
    = (Inr (replicate 512 7), cache_new sample_recorder)"
  by (simp add: sample_simps read_loop.simps)

theorem cache_read_contents_witness:
  "replicate 512 7 = map (recorder.logical_byte (cache_new sample_recorder)) [512..<1024]"
  using cache_read_contents [OF recorder.cache_new_ok sample_recorder_read] by simp

text \<open>Writes: a write through the cache that succeeds changes exactly the bytes it was given and
  nothing else of the volume; on a cache that is not writable it is refused, and so it is past the
  end of the volume, and then nothing changes.\<close>

theorem cache_write_contents:
  assumes "recorder.cache_ok c" "write_at recorder_blocks c off data = (r, c')"
  shows "(r = None \<longrightarrow> ca_writable c \<and> recorder.cache_ok c'
      \<and> (\<forall>p < recorder.blocks_of c * BLOCK. recorder.logical_byte c' p =
           (if off \<le> p \<and> p < off + length data then data ! (p - off) else recorder.logical_byte c p)))
    \<and> (\<not> ca_writable c \<longrightarrow> r = Some CacheReadOnly \<and> c' = c)
    \<and> (ca_writable c \<and> recorder.blocks_of c * BLOCK < off + length data \<longrightarrow> r = Some OutOfRange \<and> c' = c)"
  using recorder.write_at_spec [OF assms] unfolding recorder.bytes_put_def by blast

lemma sample_recorder_write: "\<exists>c'. write_at recorder_blocks (set_writable True (cache_new sample_recorder))
    512 (replicate 512 9) = (None, c')"
  by (simp add: sample_simps write_loop.simps Let_def)

theorem cache_write_contents_witness:
  "\<exists>c'. write_at recorder_blocks (set_writable True (cache_new sample_recorder)) 512 (replicate 512 9) = (None, c')
    \<and> recorder.logical_byte c' 600 = 9
    \<and> recorder.logical_byte c' 5 = recorder.logical_byte (set_writable True (cache_new sample_recorder)) 5"
proof -
  let ?c = "set_writable True (cache_new sample_recorder)"
  obtain c' where w: "write_at recorder_blocks ?c 512 (replicate 512 9) = (None, c')"
    using sample_recorder_write by blast
  have ok: "recorder.cache_ok ?c" by (simp add: recorder.set_writable_ok recorder.cache_new_ok)
  have blocks: "recorder.blocks_of ?c * BLOCK = 1024"
    by (simp add: recorder_blocks_of recorder.set_writable_ok) (simp add: sample_simps)
  from cache_write_contents [OF ok w] have
    "\<forall>p < recorder.blocks_of ?c * BLOCK. recorder.logical_byte c' p =
      (if 512 \<le> p \<and> p < 512 + length (replicate 512 (9::u8)) then replicate 512 9 ! (p - 512) else recorder.logical_byte ?c p)"
    by blast
  then have "recorder.logical_byte c' 600 = 9" "recorder.logical_byte c' 5 = recorder.logical_byte ?c 5"
    unfolding blocks by simp_all
  with w show ?thesis by blast
qed

text \<open>C15 (flush): a flush never changes the volume's contents, even when the device fails in the
  middle of it; one that succeeds leaves no block dirty and the contents on the device.\<close>

theorem cache_flush_persists:
  assumes "recorder.cache_ok c" "cache_flush recorder_blocks c = (r, c')"
  shows "recorder.cache_ok c' \<and> recorder.logical c' = recorder.logical c
    \<and> (r = None \<longrightarrow> \<not> has_dirty c' \<and> (\<forall>b. data_disk (rc_data (ca_dev c')) b = recorder.logical c b))"
  using recorder.flush_spec [OF assms] by (simp add: recorder.keeps_def)

theorem cache_flush_persists_witness:
  "data_disk (rc_data (ca_dev (snd (cache_flush recorder_blocks (cache_new sample_recorder))))) 1
     = recorder.logical (cache_new sample_recorder) 1"
proof -
  have "cache_flush recorder_blocks (cache_new sample_recorder) = (None, cache_new sample_recorder)"
    by (simp add: cache_flush_def cache_new_def)
  from cache_flush_persists [OF recorder.cache_new_ok this] this show ?thesis by simp
qed

text \<open>Write, flush, read: on a device that answers, a write inside a writable volume succeeds and
  a read of the same bytes returns what was written; after a flush, which succeeds, so does a read
  through a new cache on the same device.\<close>

theorem cache_write_read:
  assumes "memory.cache_ok c" "ca_writable c" "memory.blocks_of c * BLOCK \<le> U64_MAX"
    and "off + length data \<le> memory.blocks_of c * BLOCK"
  shows "\<exists>c1 c2 c3 c4. write_at memory_blocks c off data = (None, c1)
    \<and> read_at memory_blocks c1 off (length data) = (Inr data, c2)
    \<and> cache_flush memory_blocks c2 = (None, c3)
    \<and> read_at memory_blocks (cache_new (ca_dev c3)) off (length data) = (Inr data, c4)"
proof -
  have u: "memory.in_u64 c" using assms(3) by (simp add: memory.in_u64_def)
  obtain c1 where w: "write_at memory_blocks c off data = (None, c1)"
    using memory.write_at_ok [OF assms(1) u assms(4,2)] by blast
  have put: "memory.bytes_put c off data c1" using memory.write_at_spec [OF assms(1) w] by simp
  then have c1: "memory.cache_ok c1" "memory.blocks_of c1 = memory.blocks_of c" by (simp_all add: memory.bytes_put_def)
  have bytes: "map (memory.logical_byte c1) [off..<off + length data] = data"
    using put assms(4) by (intro nth_equalityI) (auto simp: memory.bytes_put_def)
  have u1: "memory.in_u64 c1" using u c1(2) by (simp add: memory.in_u64_def)
  have fit1: "off + length data \<le> memory.blocks_of c1 * BLOCK" using assms(4) c1(2) by simp
  obtain bs c2 where r: "read_at memory_blocks c1 off (length data) = (Inr bs, c2)"
    using memory.read_at_ok [OF c1(1) u1 fit1] by blast
  have k2: "memory.keeps c1 c2" "bs = data" using memory.read_at_spec [OF c1(1) r] bytes by simp_all
  obtain c3 where f: "cache_flush memory_blocks c2 = (None, c3)"
    using memory.flush_ok [OF memory.keeps_ok [OF k2(1)]] memory.in_u64_keeps [OF k2(1)] u1 by blast
  note fs = memory.flush_spec [OF memory.keeps_ok [OF k2(1)] f]
  let ?c4 = "cache_new (ca_dev c3)"
  have c4: "memory.cache_ok ?c4" by (rule memory.cache_new_ok)
  have blocks4: "memory.blocks_of ?c4 = memory.blocks_of c1"
    using fs k2(1) by (simp add: memory.keeps_def memory.blocks_of_def cache_new_def)
  have log4: "memory.logical ?c4 = memory.logical c1"
    using fs k2(1) by (simp add: memory.logical_def memory.keeps_def cache_new_def fun_eq_iff)
  have u4: "memory.in_u64 ?c4" using u1 blocks4 by (simp add: memory.in_u64_def)
  obtain bs4 c5 where r4: "read_at memory_blocks ?c4 off (length data) = (Inr bs4, c5)"
    using memory.read_at_ok [OF c4 u4] fit1 blocks4 by fastforce
  have "memory.logical_byte ?c4 = memory.logical_byte c1" using log4 by (simp add: memory.logical_byte_def fun_eq_iff)
  then have "bs4 = data" using memory.read_at_spec [OF c4 r4] bytes by simp
  with w r k2(2) f r4 show ?thesis by blast
qed

theorem cache_write_read_witness:
  "\<exists>c1 c2 c3 c4. write_at memory_blocks (set_writable True (cache_new (replicate 1024 0))) 510 [1, 2, 3] = (None, c1)
    \<and> read_at memory_blocks c1 510 3 = (Inr [1, 2, 3], c2) \<and> cache_flush memory_blocks c2 = (None, c3)
    \<and> read_at memory_blocks (cache_new (ca_dev c3)) 510 3 = (Inr [1, 2, 3], c4)"
proof -
  let ?c = "set_writable True (cache_new (replicate 1024 (0::u8)))"
  have blocks: "memory.blocks_of ?c * BLOCK = 1024"
    by (simp add: memory_blocks_of set_writable_def cache_new_def BLOCK_def SECTOR_def)
  have ok: "memory.cache_ok ?c" "ca_writable ?c"
    by (simp_all add: memory.set_writable_ok memory.cache_new_ok)
  have three: "length [1, 2, 3 :: u8] = 3" by simp
  have "1024 \<le> U64_MAX" "510 + length [1, 2, 3 :: u8] \<le> 1024" by (simp_all add: U64_MAX_def)
  then show ?thesis using cache_write_read [OF ok, of 510 "[1, 2, 3]", unfolded blocks three] by simp
qed

end
