(* ===== verification/Fat_Boot.thy ===== *)
theory Fat_Boot
  imports Fat_Cache_Live
begin

text \<open>
  \<open>kernel/src/storage/fat/boot.rs\<close>: the boot sector, its parameter block and FSInfo.  \<open>parse\<close>
  computes in 64-bit numbers that the fields of a sector cannot overflow, so they are \<open>nat\<close>, and
  narrows its results to 32 bits, which is written out as a remainder.  The section on layouts shows
  what the checks of \<open>parse\<close> buy: every cluster and every FAT entry the layout can name lies inside
  the volume, in its own region.
\<close>

section \<open>Definitions\<close>

definition MIN_CLUSTERS :: nat where "MIN_CLUSTERS = 65525"
definition MAX_CLUSTERS :: nat where "MAX_CLUSTERS = 0x0FFFFFF5"
definition EXTENDED_BOOT_SIGNATURE :: u8 where "EXTENDED_BOOT_SIGNATURE = 0x29"
definition FSI_LEAD_SIG :: u32 where "FSI_LEAD_SIG = 0x41615252"
definition FSI_STRUC_SIG :: u32 where "FSI_STRUC_SIG = 0x61417272"
definition FSI_TRAIL_SIG :: u32 where "FSI_TRAIL_SIG = 0xAA550000"
definition FSI_FREE_COUNT :: nat where "FSI_FREE_COUNT = 488"
definition FSI_NXT_FREE :: nat where "FSI_NXT_FREE = 492"

record layout =
  ly_sectors :: nat
  ly_cluster_blocks :: nat
  ly_cluster_bytes :: nat
  ly_fat_start :: nat
  ly_fat_blocks :: nat
  ly_fats :: nat
  ly_data_start :: nat
  ly_clusters :: nat
  ly_root_cluster :: nat
  ly_fsinfo :: "nat option"
  ly_active_fat :: "nat option"

definition is_cluster :: "layout \<Rightarrow> nat \<Rightarrow> bool" where
  "is_cluster l cluster \<longleftrightarrow> cluster \<ge> 2 \<and> cluster - 2 < ly_clusters l"

definition cluster_offset :: "layout \<Rightarrow> nat \<Rightarrow> nat option" where
  "cluster_offset l cluster =
     (if \<not> is_cluster l cluster then None
      else Some ((ly_data_start l + (cluster - 2) * ly_cluster_blocks l) * BLOCK))"

definition fat_offset :: "layout \<Rightarrow> nat \<Rightarrow> nat \<Rightarrow> nat" where
  "fat_offset l copy entry = (ly_fat_start l + copy * ly_fat_blocks l) * BLOCK + entry * 4"

definition written_copies :: "layout \<Rightarrow> nat list" where
  "written_copies l = (case ly_active_fat l of Some copy \<Rightarrow> [copy..<copy + 1] | None \<Rightarrow> [0..<ly_fats l])"

definition read_copy :: "layout \<Rightarrow> nat" where
  "read_copy l = (case ly_active_fat l of Some copy \<Rightarrow> copy | None \<Rightarrow> 0)"

definition label_text :: "bytes \<Rightarrow> string option" where
  "label_text raw =
     (let kept = rev (dropWhile (\<lambda>b. b = 0x20 \<or> b = 0) (rev raw)) in
      if kept = [] then None
      else Some (map (\<lambda>b. if 0x20 \<le> b \<and> b < 0x7F then char_of (unat b) else CHR ''?'') kept))"

definition bytes_at :: "nat \<Rightarrow> bytes \<Rightarrow> nat \<Rightarrow> bytes option" where
  "bytes_at n sector at = (case checked_add U64_MAX at n of Some _ \<Rightarrow> slice sector at n | None \<Rightarrow> None)"

definition ascii :: "string \<Rightarrow> bytes" where
  "ascii s = map (\<lambda>c. word_of_nat (of_char c)) s"

definition starts_with :: "bytes \<Rightarrow> bytes \<Rightarrow> bool" where
  "starts_with t prefix \<longleftrightarrow> take (length prefix) t = prefix"

definition looks_like_boot_sector :: "bytes \<Rightarrow> bool" where
  "looks_like_boot_sector sector =
     (let signature = bytes_at 2 sector 510 = Some [0x55, 0xAA];
          jump = (case sector of b # _ \<Rightarrow> b = 0xEB \<or> b = 0xE9 | [] \<Rightarrow> False);
          fat32 = bytes_at 8 sector 82 = Some (ascii ''FAT32   '');
          fat16 = (case bytes_at 8 sector 54 of
            Some t \<Rightarrow> starts_with t (ascii ''FAT12'') \<or> starts_with t (ascii ''FAT16'') \<or> starts_with t (ascii ''FAT  '')
          | None \<Rightarrow> False);
          exfat = bytes_at 8 sector 3 = Some (ascii ''EXFAT   '')
      in signature \<and> jump \<and> (fat32 \<or> fat16 \<or> exfat))"

text \<open>Why a volume is not mounted, one constructor per message of \<open>parse\<close> and \<open>probe\<close>.\<close>

datatype fat_kind = FAT12 | FAT16 | FAT12_or_FAT16_in_fields

datatype boot_error =
    NoSignature | ExFat | SectorSize nat | PerCluster nat | NoReserved | FatCopies nat
  | NotFat32 fat_kind nat | Media u8 | Version u16 | NoFat | PastPartition nat nat | FatsTooBig
  | TooManyClusters nat | FatTooSmall nat nat | RootCluster nat | ActiveFat nat nat
  | BootReadFailed | RootReadFailed

definition is_power_of_two :: "nat \<Rightarrow> bool" where
  "is_power_of_two n \<longleftrightarrow> list_ex (\<lambda>k. n = 2 ^ k) [0..<64]"

definition as_u32 :: "nat \<Rightarrow> nat" where
  "as_u32 n = n mod 2 ^ 32"

definition div_ceil :: "nat \<Rightarrow> nat \<Rightarrow> nat" where
  "div_ceil a b = a div b + (if a mod b = 0 then 0 else 1)"

definition boot_byte :: "bytes \<Rightarrow> nat \<Rightarrow> u8" where
  "boot_byte sector at = (case bytes_at 1 sector at of Some [b] \<Rightarrow> b | _ \<Rightarrow> 0)"

definition boot_parse :: "bytes \<Rightarrow> nat \<Rightarrow> boot_error + layout" where
  "boot_parse sector blocks =
    (if bytes_at 2 sector 510 \<noteq> Some [0x55, 0xAA] then Inl NoSignature
     else if bytes_at 8 sector 3 = Some (ascii ''EXFAT   '') then Inl ExFat
     else
      let sector_size = unat (le16 sector 11);
          per_cluster = unat (boot_byte sector 13);
          reserved = unat (le16 sector 14);
          fats = unat (boot_byte sector 16);
          root_entries = unat (le16 sector 17);
          sectors_16 = unat (le16 sector 19);
          media = boot_byte sector 21;
          fat_16 = unat (le16 sector 22);
          sectors_32 = unat (le32 sector 32);
          fat_32 = unat (le32 sector 36);
          ext_flags = le16 sector 40;
          version = le16 sector 42;
          root_cluster = unat (le32 sector 44);
          fsinfo = unat (le16 sector 48)
      in
      if sector_size \<noteq> BLOCK then Inl (SectorSize sector_size)
      else if per_cluster = 0 \<or> \<not> is_power_of_two per_cluster then Inl (PerCluster per_cluster)
      else if reserved = 0 then Inl NoReserved
      else if \<not> (1 \<le> fats \<and> fats \<le> 2) then Inl (FatCopies fats)
      else
      let fat_size = (if fat_16 \<noteq> 0 then fat_16 else fat_32);
          total = (if sectors_16 \<noteq> 0 then sectors_16 else sectors_32);
          root_sectors = div_ceil (root_entries * 32) BLOCK;
          data_start = reserved + fats * fat_size + root_sectors;
          clusters = (total - data_start) div per_cluster
      in
      if root_entries \<noteq> 0 \<or> fat_16 \<noteq> 0 \<or> sectors_16 \<noteq> 0 \<or> clusters < MIN_CLUSTERS then
        Inl (NotFat32 (if clusters < 4085 then FAT12
          else if clusters < MIN_CLUSTERS then FAT16 else FAT12_or_FAT16_in_fields) clusters)
      else if media \<noteq> 0xF0 \<and> media < 0xF8 then Inl (Media media)
      else if version \<noteq> 0 then Inl (Version version)
      else if fat_32 = 0 then Inl NoFat
      else if total > blocks then Inl (PastPartition total blocks)
      else if data_start \<ge> total then Inl FatsTooBig
      else if clusters > MAX_CLUSTERS then Inl (TooManyClusters clusters)
      else if fat_32 * (BLOCK div 4) < clusters + 2 then Inl (FatTooSmall fat_32 clusters)
      else if root_cluster < 2 \<or> root_cluster \<ge> clusters + 2 then Inl (RootCluster root_cluster)
      else
      let active_fat = (if ext_flags AND 0x80 \<noteq> 0 then Some (unat (ext_flags AND 0x0F)) else None)
      in
      if (case active_fat of Some copy \<Rightarrow> copy \<ge> fats | None \<Rightarrow> False) then
        Inl (ActiveFat (the active_fat) fats)
      else Inr
        \<lparr>ly_sectors = as_u32 total,
         ly_cluster_blocks = as_u32 per_cluster,
         ly_cluster_bytes = as_u32 (per_cluster * BLOCK),
         ly_fat_start = as_u32 reserved,
         ly_fat_blocks = as_u32 fat_32,
         ly_fats = as_u32 fats,
         ly_data_start = as_u32 data_start,
         ly_clusters = as_u32 clusters,
         ly_root_cluster = root_cluster,
         ly_fsinfo = (if fsinfo \<ge> 1 \<and> fsinfo < reserved then Some (as_u32 fsinfo) else None),
         ly_active_fat = map_option as_u32 active_fat\<rparr>)"

record probe_result =
  pr_layout :: layout
  pr_boot_label :: "string option"
  pr_root_label :: "string option"

definition ascii_lower :: "char \<Rightarrow> char" where
  "ascii_lower c = (let n = of_char c :: nat in if 65 \<le> n \<and> n \<le> 90 then char_of (n + 32) else c)"

definition eq_ignore_ascii_case :: "string \<Rightarrow> string \<Rightarrow> bool" where
  "eq_ignore_ascii_case a b \<longleftrightarrow> map ascii_lower a = map ascii_lower b"

definition labelled :: "probe_result \<Rightarrow> string \<Rightarrow> bool" where
  "labelled p label =
     list_ex (\<lambda>found. case found of Some f \<Rightarrow> eq_ignore_ascii_case f label | None \<Rightarrow> False)
       [pr_boot_label p, pr_root_label p]"

definition probe_label :: "probe_result \<Rightarrow> string" where
  "probe_label p =
     (case pr_root_label p of Some l \<Rightarrow> l
      | None \<Rightarrow> (case pr_boot_label p of Some l \<Rightarrow> l | None \<Rightarrow> ''(no label)''))"

fun chunks_exact :: "nat \<Rightarrow> nat \<Rightarrow> bytes \<Rightarrow> bytes list" where
  "chunks_exact k 0 bs = []"
| "chunks_exact k (Suc n) bs =
     (if k = 0 \<or> length bs < k then [] else take k bs # chunks_exact k n (drop k bs))"

fun root_label :: "bytes list \<Rightarrow> string option" where
  "root_label [] = None"
| "root_label (raw # rest) =
     (let name = (if raw = [] then 0 else raw ! 0);
          attributes = (if 11 < length raw then raw ! 11 else 0)
      in if name = 0 then None
         else if name \<noteq> 0xE5 \<and> attributes AND 0x3F \<noteq> 0x0F \<and> attributes AND 0x08 \<noteq> 0
         then (case slice raw 0 11 of Some bs \<Rightarrow> label_text bs | None \<Rightarrow> None)
         else root_label rest)"

definition probe :: "'d blocks \<Rightarrow> 'd \<Rightarrow> (boot_error + probe_result) \<times> 'd" where
  "probe B d =
     (case bk_read B d 0 BLOCK of
        (None, d1) \<Rightarrow> (Inl BootReadFailed, d1)
      | (Some sector, d1) \<Rightarrow>
          (case boot_parse sector (bk_count B d1) of
             Inl e \<Rightarrow> (Inl e, d1)
           | Inr l \<Rightarrow>
               (let boot_label = (if bytes_at 1 sector 66 = Some [EXTENDED_BOOT_SIGNATURE]
                      then (case slice sector 71 11 of Some raw \<Rightarrow> label_text raw | None \<Rightarrow> None) else None);
                    first = (case cluster_offset l (ly_root_cluster l) of Some off \<Rightarrow> off | None \<Rightarrow> 0) div BLOCK
                in case bk_read B d1 first (ly_cluster_bytes l) of
                     (None, d2) \<Rightarrow> (Inl RootReadFailed, d2)
                   | (Some root, d2) \<Rightarrow>
                       (Inr \<lparr>pr_layout = l, pr_boot_label = boot_label,
                             pr_root_label = root_label (chunks_exact 32 (length root) root)\<rparr>, d2))))"

definition fsinfo_hints :: "bytes \<Rightarrow> (u32 \<times> u32) option" where
  "fsinfo_hints sector =
     (if le32 sector 0 \<noteq> FSI_LEAD_SIG \<or> le32 sector 484 \<noteq> FSI_STRUC_SIG \<or> le32 sector 508 \<noteq> FSI_TRAIL_SIG
      then None else Some (le32 sector FSI_FREE_COUNT, le32 sector FSI_NXT_FREE))"

definition set_fsinfo_hints :: "bytes \<Rightarrow> u32 \<Rightarrow> u32 \<Rightarrow> bytes" where
  "set_fsinfo_hints sector free next = put32 (put32 sector FSI_FREE_COUNT free) FSI_NXT_FREE next"

section \<open>Layouts\<close>

text \<open>What the checks establish, over the numbers the record holds.\<close>

definition layout_ok :: "layout \<Rightarrow> bool" where
  "layout_ok l \<longleftrightarrow>
     ly_sectors l < 2 ^ 32 \<and> is_power_of_two (ly_cluster_blocks l) \<and> ly_cluster_blocks l \<le> 128
     \<and> ly_cluster_bytes l = ly_cluster_blocks l * BLOCK
     \<and> 0 < ly_fat_start l \<and> 1 \<le> ly_fats l \<and> ly_fats l \<le> 2
     \<and> ly_data_start l = ly_fat_start l + ly_fats l * ly_fat_blocks l
     \<and> ly_data_start l + ly_clusters l * ly_cluster_blocks l \<le> ly_sectors l
     \<and> ly_clusters l + 2 \<le> ly_fat_blocks l * (BLOCK div 4)
     \<and> MIN_CLUSTERS \<le> ly_clusters l \<and> ly_clusters l \<le> MAX_CLUSTERS
     \<and> is_cluster l (ly_root_cluster l)
     \<and> (\<forall>s. ly_fsinfo l = Some s \<longrightarrow> 1 \<le> s \<and> s < ly_fat_start l)
     \<and> (\<forall>c. ly_active_fat l = Some c \<longrightarrow> c < ly_fats l)"

lemma power_of_two_le_128: "is_power_of_two n \<Longrightarrow> n \<le> 255 \<Longrightarrow> n \<le> 128"
proof -
  assume p: "is_power_of_two n" and le: "n \<le> 255"
  then obtain k where n: "n = 2 ^ k" by (auto simp: is_power_of_two_def list_ex_iff)
  have "k < 8"
  proof (rule ccontr)
    assume "\<not> k < 8"
    then have "(2::nat) ^ 8 \<le> 2 ^ k" by (intro power_increasing) simp_all
    with n le show False by simp
  qed
  then have "(2::nat) ^ k \<le> 2 ^ 7" by (intro power_increasing) simp_all
  with n show ?thesis by simp
qed

lemma unat_bounds: "unat (b :: u8) \<le> 255" "unat (h :: u16) < 2 ^ 16" "unat (w :: u32) < 2 ^ 32"
  using unsigned_less [of b, where 'a = nat] unsigned_less [of h, where 'a = nat] unsigned_less [of w, where 'a = nat]
  by simp_all

lemma refusal_iff: "(if b then Inl e else x) = Inr y \<longleftrightarrow> \<not> b \<and> x = Inr y"
  by simp

lemma boot_parse_ok:
  assumes p: "boot_parse sector blocks = Inr l"
  shows "layout_ok l \<and> ly_sectors l \<le> blocks"
proof -
  define per where "per = unat (boot_byte sector 13)"
  define res where "res = unat (le16 sector 14)"
  define fats where "fats = unat (boot_byte sector 16)"
  define total where "total = unat (le32 sector 32)"
  define fsz where "fsz = unat (le32 sector 36)"
  define root where "root = unat (le32 sector 44)"
  define fsi where "fsi = unat (le16 sector 48)"
  define act where "act = (if le16 sector 40 AND 0x80 \<noteq> 0 then Some (unat (le16 sector 40 AND 0x0F)) else None)"
  define ds where "ds = res + fats * fsz"
  define cl where "cl = (total - ds) div per"
  note q = p [unfolded boot_parse_def Let_def refusal_iff, folded per_def res_def fats_def total_def fsz_def root_def fsi_def act_def]
  have zero: "unat (le16 sector 17) = 0" "unat (le16 sector 19) = 0" "unat (le16 sector 22) = 0" using q by blast+
  have fold: "div_ceil (0 * 32) BLOCK = 0" "(if (0 :: nat) \<noteq> 0 then 0 else n) = n" "res + fats * fsz + 0 = ds" for n
    by (simp_all add: div_ceil_def ds_def)
  note q' = q [unfolded zero fold, folded cl_def]
  have checks: "per \<noteq> 0" "is_power_of_two per" "res \<noteq> 0" "1 \<le> fats" "fats \<le> 2" "MIN_CLUSTERS \<le> cl"
      "total \<le> blocks" "ds < total" "cl \<le> MAX_CLUSTERS" "cl + 2 \<le> fsz * (BLOCK div 4)"
      "2 \<le> root" "root < cl + 2" "\<forall>c. act = Some c \<longrightarrow> c < fats"
    and l: "l = \<lparr>ly_sectors = as_u32 total, ly_cluster_blocks = as_u32 per, ly_cluster_bytes = as_u32 (per * BLOCK),
      ly_fat_start = as_u32 res, ly_fat_blocks = as_u32 fsz, ly_fats = as_u32 fats, ly_data_start = as_u32 ds,
      ly_clusters = as_u32 cl, ly_root_cluster = root,
      ly_fsinfo = (if fsi \<ge> 1 \<and> fsi < res then Some (as_u32 fsi) else None), ly_active_fat = map_option as_u32 act\<rparr>"
    using q' by (simp_all add: not_less not_le split: option.splits)
  have b: "per \<le> 128" "res < 2 ^ 16" "total < 2 ^ 32" "fsz < 2 ^ 32" "fsi < 2 ^ 16"
    using unat_bounds power_of_two_le_128 [OF checks(2)] by (simp_all add: per_def res_def total_def fsz_def fsi_def)
  have clp: "cl * per \<le> total - ds" by (simp add: cl_def)
  have cl: "cl \<le> total - ds" by (simp add: cl_def)
  have same: "as_u32 n = n" if "n < 2 ^ 32" for n using that by (simp add: as_u32_def)
  have eqs: "as_u32 total = total" "as_u32 per = per" "as_u32 (per * BLOCK) = per * BLOCK" "as_u32 res = res"
      "as_u32 fsz = fsz" "as_u32 fats = fats" "as_u32 ds = ds" "as_u32 cl = cl" "as_u32 fsi = fsi"
    using b checks(5,8) cl by (simp_all add: same BLOCK_def)
  have act: "map_option as_u32 act = act" using checks(5,13) by (cases act) (auto simp: same)
  show ?thesis
    unfolding layout_ok_def is_cluster_def l layout.simps eqs act
    using checks b clp by (auto simp: ds_def)
qed

lemma cluster_offset_in:
  assumes "layout_ok l" "is_cluster l c"
  shows "\<exists>off. cluster_offset l c = Some off \<and> ly_data_start l * BLOCK \<le> off
    \<and> off + ly_cluster_bytes l \<le> ly_sectors l * BLOCK"
proof -
  have "Suc (c - 2) * ly_cluster_blocks l \<le> ly_clusters l * ly_cluster_blocks l"
    using assms(2) by (intro mult_le_mono1) (simp add: is_cluster_def)
  then have "ly_data_start l + (c - 2) * ly_cluster_blocks l + ly_cluster_blocks l \<le> ly_sectors l"
    using assms(1) by (simp add: layout_ok_def)
  then have "(ly_data_start l + (c - 2) * ly_cluster_blocks l + ly_cluster_blocks l) * BLOCK \<le> ly_sectors l * BLOCK"
    by (rule mult_le_mono1)
  then show ?thesis using assms by (simp add: cluster_offset_def layout_ok_def distrib_right)
qed

lemma cluster_offset_apart:
  assumes "layout_ok l" "cluster_offset l c = Some off" "cluster_offset l c' = Some off'" "c < c'"
  shows "off + ly_cluster_bytes l \<le> off'"
proof -
  have c: "is_cluster l c" "is_cluster l c'" using assms(2,3) by (auto simp: cluster_offset_def split: if_splits)
  have "Suc (c - 2) * ly_cluster_blocks l \<le> (c' - 2) * ly_cluster_blocks l"
    using c assms(4) by (intro mult_le_mono1) (auto simp: is_cluster_def)
  then have "(ly_data_start l + (c - 2) * ly_cluster_blocks l + ly_cluster_blocks l) * BLOCK
      \<le> (ly_data_start l + (c' - 2) * ly_cluster_blocks l) * BLOCK"
    by (intro mult_le_mono1) simp
  then show ?thesis using assms c by (simp add: cluster_offset_def layout_ok_def distrib_right)
qed

lemma fat_entries_fit: "entry < n * (BLOCK div 4) \<Longrightarrow> entry * 4 + 4 \<le> n * BLOCK"
  by (simp add: BLOCK_def)

lemma fat_offset_in:
  assumes "layout_ok l" "copy < ly_fats l" "entry < ly_clusters l + 2"
  shows "ly_fat_start l * BLOCK \<le> fat_offset l copy entry"
    and "fat_offset l copy entry + 4 \<le> ly_data_start l * BLOCK"
    and "copy < copy' \<Longrightarrow> fat_offset l copy entry + 4 \<le> fat_offset l copy' entry'"
proof -
  have e: "entry * 4 + 4 \<le> ly_fat_blocks l * BLOCK"
    using assms by (intro fat_entries_fit) (simp add: layout_ok_def)
  have step: "fat_offset l copy entry + 4 \<le> (ly_fat_start l + Suc copy * ly_fat_blocks l) * BLOCK"
    using e by (simp add: fat_offset_def distrib_right)
  show "ly_fat_start l * BLOCK \<le> fat_offset l copy entry" by (simp add: fat_offset_def distrib_right)
  have "(ly_fat_start l + Suc copy * ly_fat_blocks l) * BLOCK \<le> (ly_fat_start l + ly_fats l * ly_fat_blocks l) * BLOCK"
    using assms(2) by (intro mult_le_mono1 add_left_mono) simp
  with step have "fat_offset l copy entry + 4 \<le> (ly_fat_start l + ly_fats l * ly_fat_blocks l) * BLOCK"
    by (rule le_trans)
  then show "fat_offset l copy entry + 4 \<le> ly_data_start l * BLOCK" using assms(1) by (simp add: layout_ok_def)
  assume "copy < copy'"
  then have "(ly_fat_start l + Suc copy * ly_fat_blocks l) * BLOCK \<le> (ly_fat_start l + copy' * ly_fat_blocks l) * BLOCK"
    by (intro mult_le_mono1 add_left_mono) simp
  with step have "fat_offset l copy entry + 4 \<le> (ly_fat_start l + copy' * ly_fat_blocks l) * BLOCK" by (rule le_trans)
  then show "fat_offset l copy entry + 4 \<le> fat_offset l copy' entry'" by (simp add: fat_offset_def)
qed

lemma data_start_in: "layout_ok l \<Longrightarrow> ly_data_start l * BLOCK \<le> ly_sectors l * BLOCK"
  by (rule mult_le_mono1) (simp add: layout_ok_def)

lemma copies_in:
  assumes "layout_ok l"
  shows "read_copy l \<in> set (written_copies l)" "set (written_copies l) \<subseteq> {..<ly_fats l}" "distinct (written_copies l)"
  using assms by (auto simp: read_copy_def written_copies_def layout_ok_def split: option.splits)

section \<open>Properties\<close>

text \<open>C16 (the checks suffice): once \<open>parse\<close> has accepted a boot sector, every cluster number the layout
  allows gives bytes inside the partition and after the FATs, different clusters give disjoint
  bytes, every entry of every FAT copy lies in the FAT region of its own copy, the copy that is
  read is one that is written, and the root cluster and the FSInfo sector are where they must be.\<close>

theorem parse_layout_safe:
  assumes "boot_parse sector blocks = Inr l"
  shows "(\<forall>c. is_cluster l c \<longrightarrow> (\<exists>off. cluster_offset l c = Some off \<and> ly_data_start l * BLOCK \<le> off
      \<and> off + ly_cluster_bytes l \<le> blocks * BLOCK))
    \<and> (\<forall>c c' off off'. cluster_offset l c = Some off \<and> cluster_offset l c' = Some off' \<and> c < c' \<longrightarrow>
      off + ly_cluster_bytes l \<le> off')
    \<and> (\<forall>copy entry. copy < ly_fats l \<and> entry < ly_clusters l + 2 \<longrightarrow>
      ly_fat_start l * BLOCK \<le> fat_offset l copy entry \<and> fat_offset l copy entry + 4 \<le> ly_data_start l * BLOCK
      \<and> (\<forall>copy' > copy. \<forall>entry'. fat_offset l copy entry + 4 \<le> fat_offset l copy' entry'))
    \<and> read_copy l \<in> set (written_copies l) \<and> set (written_copies l) \<subseteq> {..<ly_fats l}
    \<and> is_cluster l (ly_root_cluster l) \<and> (\<forall>s. ly_fsinfo l = Some s \<longrightarrow> 1 \<le> s \<and> s < ly_fat_start l)"
proof -
  have ok: "layout_ok l" and "ly_sectors l \<le> blocks" using boot_parse_ok [OF assms] by auto
  then have "ly_sectors l * BLOCK \<le> blocks * BLOCK" by (intro mult_le_mono1)
  then have "\<exists>off. cluster_offset l c = Some off \<and> ly_data_start l * BLOCK \<le> off
      \<and> off + ly_cluster_bytes l \<le> blocks * BLOCK" if "is_cluster l c" for c
    using cluster_offset_in [OF ok that] by (meson le_trans)
  then show ?thesis
    using cluster_offset_apart [OF ok] fat_offset_in [OF ok] copies_in [OF ok] ok
    unfolding layout_ok_def by blast
qed

definition sample_boot :: bytes where
  "sample_boot = (replicate 512 0)[510 := 0x55, 511 := 0xAA, 12 := 2, 13 := 1, 14 := 32, 16 := 2, 21 := 0xF8,
     34 := 2, 37 := 4, 44 := 2, 48 := 1, 66 := 0x29, 71 := 0x44, 72 := 0x41]"

lemma boot_byte_eq: "at < length bs \<Longrightarrow> length bs \<le> U64_MAX \<Longrightarrow> boot_byte bs at = bs ! at"
  by (simp add: boot_byte_def bytes_at_def checked_add_def slice_def take_Suc_conv_app_nth)

lemma bytes_at_eq:
  assumes "at + n \<le> length bs" "length bs \<le> U64_MAX"
  shows "bytes_at n bs at = Some (map (\<lambda>i. bs ! (at + i)) [0..<n])"
proof -
  have "take n (drop at bs) = map (\<lambda>i. bs ! (at + i)) [0..<n]"
    using assms(1) by (intro nth_equalityI) simp_all
  then show ?thesis using assms by (simp add: bytes_at_def checked_add_def slice_def)
qed

lemma sample_boot_length: "length sample_boot = 512" "512 \<le> U64_MAX"
  by (simp_all add: sample_boot_def U64_MAX_def)

lemma sample_boot_simps:
  "boot_byte sample_boot 13 = 1" "boot_byte sample_boot 16 = 2" "boot_byte sample_boot 21 = 0xF8"
  "le16 sample_boot 11 = 512" "le16 sample_boot 14 = 32" "le16 sample_boot 17 = 0" "le16 sample_boot 19 = 0"
  "le16 sample_boot 22 = 0" "le32 sample_boot 32 = 0x20000" "le32 sample_boot 36 = 1024" "le16 sample_boot 40 = 0"
  "le16 sample_boot 42 = 0" "le32 sample_boot 44 = 2" "le16 sample_boot 48 = 1"
  "bytes_at 2 sample_boot 510 = Some [0x55, 0xAA]"
  by (simp_all add: sample_boot_length le16_eq le32_eq boot_byte_eq bytes_at_eq upt_rec)
    (simp_all add: sample_boot_def u16_of_bytes_def u32_of_bytes_def)

lemma sample_boot_not_exfat: "bytes_at 8 sample_boot 3 \<noteq> Some (ascii ''EXFAT   '')"
proof
  assume "bytes_at 8 sample_boot 3 = Some (ascii ''EXFAT   '')"
  then have "hd (map (\<lambda>i. sample_boot ! (3 + i)) [0..<8]) = hd (ascii ''EXFAT   '')"
    by (simp add: bytes_at_eq sample_boot_length)
  then show False by (simp add: upt_rec ascii_def sample_boot_def)
qed

definition sample_layout :: layout where
  "sample_layout = \<lparr>ly_sectors = 131072, ly_cluster_blocks = 1, ly_cluster_bytes = 512, ly_fat_start = 32,
     ly_fat_blocks = 1024, ly_fats = 2, ly_data_start = 2080, ly_clusters = 128992, ly_root_cluster = 2,
     ly_fsinfo = Some 1, ly_active_fat = None\<rparr>"

lemma sample_boot_parse: "boot_parse sample_boot 131072 = Inr sample_layout"
  by (simp add: boot_parse_def sample_boot_simps sample_boot_not_exfat BLOCK_def is_power_of_two_def upt_rec
      div_ceil_def MIN_CLUSTERS_def MAX_CLUSTERS_def as_u32_def sample_layout_def)

theorem parse_layout_safe_witness:
  "\<exists>off. cluster_offset sample_layout 3 = Some off \<and> 2080 * 512 \<le> off \<and> off + 512 \<le> 131072 * 512"
proof -
  have "is_cluster sample_layout 3" by (simp add: is_cluster_def sample_layout_def)
  with parse_layout_safe [OF sample_boot_parse]
  have "\<exists>off. cluster_offset sample_layout 3 = Some off \<and> ly_data_start sample_layout * BLOCK \<le> off
      \<and> off + ly_cluster_bytes sample_layout \<le> 131072 * BLOCK" by blast
  then show ?thesis by (simp add: sample_layout_def BLOCK_def)
qed

text \<open>FSInfo: the two hints put into a sector that carries the signatures are read back, and
  nothing but the two fields changes.\<close>

theorem fsinfo_roundtrip:
  assumes "length sector = BLOCK" "fsinfo_hints sector \<noteq> None"
  shows "fsinfo_hints (set_fsinfo_hints sector free next) = Some (free, next)
    \<and> (\<forall>i. i < FSI_FREE_COUNT \<or> FSI_NXT_FREE + 4 \<le> i \<longrightarrow> set_fsinfo_hints sector free next ! i = sector ! i)"
proof -
  have len: "length sector = 512" "length sector \<le> U64_MAX" using assms(1) by (simp_all add: BLOCK_def U64_MAX_def)
  show ?thesis using assms(2) len
    by (auto simp: fsinfo_hints_def set_fsinfo_hints_def FSI_FREE_COUNT_def FSI_NXT_FREE_def le32_eq put32_eq u32_bytes
        split: if_splits)
qed

definition sample_fsinfo :: bytes where
  "sample_fsinfo = (replicate 512 0)[0 := 0x52, 1 := 0x52, 2 := 0x61, 3 := 0x41,
     484 := 0x72, 485 := 0x72, 486 := 0x41, 487 := 0x61, 510 := 0x55, 511 := 0xAA]"

theorem fsinfo_roundtrip_witness:
  "fsinfo_hints sample_fsinfo = Some (0, 0) \<and> fsinfo_hints (set_fsinfo_hints sample_fsinfo 7 9) = Some (7, 9)"
proof -
  have len: "length sample_fsinfo = 512" by (simp add: sample_fsinfo_def)
  have some: "fsinfo_hints sample_fsinfo = Some (0, 0)"
    by (simp add: fsinfo_hints_def le32_eq len FSI_FREE_COUNT_def FSI_NXT_FREE_def FSI_LEAD_SIG_def FSI_STRUC_SIG_def
        FSI_TRAIL_SIG_def) (simp add: sample_fsinfo_def u32_of_bytes_def numeral_2_eq_2 [symmetric])
  with fsinfo_roundtrip [of sample_fsinfo 7 9] len show ?thesis by (simp add: BLOCK_def)
qed

text \<open>Probe: looking at a volume only reads it, and what it reports is the layout of a boot sector
  \<open>parse\<close> accepted for the device's length.\<close>

theorem probe_only_reads:
  assumes "probe recorder_blocks d = (r, d')"
  shows "d' = d \<and> (\<forall>p. r = Inr p \<longrightarrow>
    boot_parse (data_disk (rc_data d) 0) (length (rc_data d) div SECTOR) = Inr (pr_layout p))"
proof -
  have d': "d' = d"
    using assms by (auto simp: probe_def recorder_blocks_def Let_def split: option.splits sum.splits if_splits prod.splits)
  show ?thesis
  proof (intro conjI allI impI)
    fix p assume "r = Inr p"
    with assms show "boot_parse (data_disk (rc_data d) 0) (length (rc_data d) div SECTOR) = Inr (pr_layout p)"
      by (auto simp: probe_def recorder_blocks_def memory_blocks_def image_range_def data_disk_def BLOCK_SECTOR Let_def
          split: option.splits sum.splits if_splits prod.splits)
  qed (rule d')
qed

theorem probe_only_reads_witness:
  "snd (probe recorder_blocks sample_recorder) = sample_recorder"
  using probe_only_reads [of sample_recorder "fst (probe recorder_blocks sample_recorder)"
    "snd (probe recorder_blocks sample_recorder)"] by simp

end
