(* ===== verification/Fat_Table.thy ===== *)
theory Fat_Table
  imports Fat_Boot
begin

text \<open>
  \<open>kernel/src/storage/fat/table.rs\<close>: the file allocation table.  Every operation goes through the
  cache of \<open>Fat_Cache\<close> and returns the cache it leaves, also when it fails.  The abstraction is the
  table itself: \<open>fat_entry\<close> reads an entry of a copy out of the volume's logical contents, and the
  operations are specified by what they return of it and what they change in it.
\<close>

section \<open>Definitions\<close>

definition FAT_MASK :: u32 where "FAT_MASK = 0x0FFFFFFF"
definition RESERVED_BITS :: u32 where "RESERVED_BITS = 0xF0000000"
definition FAT_FREE :: u32 where "FAT_FREE = 0"
definition FAT_BAD :: u32 where "FAT_BAD = 0x0FFFFFF7"
definition END_MIN :: u32 where "END_MIN = 0x0FFFFFF8"
definition FAT_LAST :: u32 where "FAT_LAST = 0x0FFFFFFF"
definition CLEAN_SHUTDOWN :: u32 where "CLEAN_SHUTDOWN = 0x08000000"
definition ENTRIES_PER_BLOCK :: nat where "ENTRIES_PER_BLOCK = BLOCK div 4"
definition SCAN_BLOCKS :: nat where "SCAN_BLOCKS = 256"
definition FSI_UNKNOWN :: nat where "FSI_UNKNOWN = 0xFFFFFFFF"

datatype link = Free | Next nat | End | Bad | Damaged nat

definition fs_of_cache :: "cache_error \<Rightarrow> fs_error" where
  "fs_of_cache e = (case e of Device \<Rightarrow> Io | OutOfRange \<Rightarrow> Corrupt | CacheReadOnly \<Rightarrow> ReadOnly)"

record fat_table =
  ft_layout :: layout
  ft_free :: "nat option"
  ft_cursor :: nat

definition fat_new :: "layout \<Rightarrow> nat \<Rightarrow> fat_table" where
  "fat_new l hint = \<lparr>ft_layout = l, ft_free = None, ft_cursor = (if is_cluster l hint then hint else 2)\<rparr>"

type_synonym ('a, 'd) fat_result = "(fs_error + 'a) \<times> 'd cache"

definition read_raw :: "'d blocks \<Rightarrow> layout \<Rightarrow> 'd cache \<Rightarrow> nat \<Rightarrow> nat \<Rightarrow> (u32, 'd) fat_result" where
  "read_raw B l c copy entry =
     (case read_at B c (fat_offset l copy entry) 4 of
        (Inl e, c') \<Rightarrow> (Inl (fs_of_cache e), c')
      | (Inr bs, c') \<Rightarrow> (Inr (le32 bs 0), c'))"

definition write_raw :: "'d blocks \<Rightarrow> layout \<Rightarrow> 'd cache \<Rightarrow> nat \<Rightarrow> nat \<Rightarrow> u32 \<Rightarrow> (unit, 'd) fat_result" where
  "write_raw B l c copy entry v =
     (case write_at B c (fat_offset l copy entry) (le_bytes32 v) of
        (Some e, c') \<Rightarrow> (Inl (fs_of_cache e), c')
      | (None, c') \<Rightarrow> (Inr (), c'))"

definition classify :: "layout \<Rightarrow> u32 \<Rightarrow> link" where
  "classify l v =
     (let next = v AND FAT_MASK in
      if next = FAT_FREE then Free
      else if is_cluster l (unat next) then Next (unat next)
      else if next = FAT_BAD then Bad
      else if END_MIN \<le> next then End
      else Damaged (unat next))"

definition fat_link :: "'d blocks \<Rightarrow> layout \<Rightarrow> 'd cache \<Rightarrow> nat \<Rightarrow> (link, 'd) fat_result" where
  "fat_link B l c cluster =
     (if \<not> is_cluster l cluster then (Inl Corrupt, c)
      else case read_raw B l c (read_copy l) cluster of
        (Inl e, c') \<Rightarrow> (Inl e, c')
      | (Inr v, c') \<Rightarrow> (Inr (classify l v), c'))"

definition fat_next :: "'d blocks \<Rightarrow> layout \<Rightarrow> 'd cache \<Rightarrow> nat \<Rightarrow> (nat option, 'd) fat_result" where
  "fat_next B l c cluster =
     (case fat_link B l c cluster of
        (Inl e, c') \<Rightarrow> (Inl e, c')
      | (Inr (Next n), c') \<Rightarrow> (Inr (Some n), c')
      | (Inr End, c') \<Rightarrow> (Inr None, c')
      | (Inr _, c') \<Rightarrow> (Inl Corrupt, c'))"

fun set_copies :: "'d blocks \<Rightarrow> layout \<Rightarrow> 'd cache \<Rightarrow> nat \<Rightarrow> u32 \<Rightarrow> nat list \<Rightarrow> (unit, 'd) fat_result" where
  "set_copies B l c cluster v [] = (Inr (), c)"
| "set_copies B l c cluster v (copy # copies) =
     (case read_raw B l c copy cluster of
        (Inl e, c1) \<Rightarrow> (Inl e, c1)
      | (Inr old, c1) \<Rightarrow>
          (case write_raw B l c1 copy cluster ((old AND RESERVED_BITS) OR (v AND FAT_MASK)) of
             (Inl e, c2) \<Rightarrow> (Inl e, c2)
           | (Inr _, c2) \<Rightarrow> set_copies B l c2 cluster v copies))"

definition fat_set :: "'d blocks \<Rightarrow> layout \<Rightarrow> 'd cache \<Rightarrow> nat \<Rightarrow> u32 \<Rightarrow> (unit, 'd) fat_result" where
  "fat_set B l c cluster v =
     (if \<not> is_cluster l cluster then (Inl Corrupt, c) else set_copies B l c cluster v (written_copies l))"

function walk_loop :: "'d blocks \<Rightarrow> layout \<Rightarrow> 'd cache \<Rightarrow> nat \<Rightarrow> nat \<Rightarrow> (nat \<times> nat, 'd) fat_result" where
  "walk_loop B l c n cluster =
     (case fat_link B l c cluster of
        (Inl e, c') \<Rightarrow> (Inl e, c')
      | (Inr End, c') \<Rightarrow> (Inr (n, cluster), c')
      | (Inr (Next next), c') \<Rightarrow>
          if n \<ge> ly_clusters l then (Inl Corrupt, c') else walk_loop B l c' (n + 1) next
      | (Inr _, c') \<Rightarrow> (Inl Corrupt, c'))"
  by pat_completeness auto

termination walk_loop
  by (relation "measure (\<lambda>(B, l, c, n, cluster). ly_clusters l - n)") auto

declare walk_loop.simps [simp del]

definition fat_walk :: "'d blocks \<Rightarrow> layout \<Rightarrow> 'd cache \<Rightarrow> nat \<Rightarrow> (nat \<times> nat, 'd) fat_result" where
  "fat_walk B l c first = (if \<not> is_cluster l first then (Inl Corrupt, c) else walk_loop B l c 1 first)"

definition took :: "nat \<Rightarrow> fat_table \<Rightarrow> fat_table" where
  "took n f = f\<lparr>ft_free := map_option (\<lambda>free. free - n) (ft_free f)\<rparr>"

definition gave :: "nat \<Rightarrow> fat_table \<Rightarrow> fat_table" where
  "gave n f = f\<lparr>ft_free := map_option (\<lambda>free. min (saturating_add U32_MAX free n) (ly_clusters (ft_layout f))) (ft_free f)\<rparr>"

definition forget_free :: "fat_table \<Rightarrow> fat_table" where
  "forget_free f = f\<lparr>ft_free := None\<rparr>"

text \<open>The loop of \<open>free_chain\<close>, with \<open>k\<close> turns left.\<close>

fun free_loop :: "'d blocks \<Rightarrow> layout \<Rightarrow> 'd cache \<Rightarrow> nat \<Rightarrow> nat \<Rightarrow> (unit, 'd) fat_result" where
  "free_loop B l c cluster 0 = (Inr (), c)"
| "free_loop B l c cluster (Suc k) =
     (case fat_link B l c cluster of
        (Inl e, c1) \<Rightarrow> (Inl e, c1)
      | (Inr ln, c1) \<Rightarrow>
          (case fat_set B l c1 cluster FAT_FREE of
             (Inl e, c2) \<Rightarrow> (Inl e, c2)
           | (Inr _, c2) \<Rightarrow>
               if k = 0 then (Inr (), c2)
               else (case ln of
                  Next next \<Rightarrow> free_loop B l c2 next k
                | _ \<Rightarrow> (Inl Corrupt, c2))))"

definition free_chain ::
  "'d blocks \<Rightarrow> fat_table \<Rightarrow> 'd cache \<Rightarrow> nat \<Rightarrow> nat \<Rightarrow> (fs_error option \<times> fat_table) \<times> 'd cache" where
  "free_chain B f c first n =
     (case free_loop B (ft_layout f) c first n of
        (Inl e, c') \<Rightarrow> ((Some e, f), c')
      | (Inr _, c') \<Rightarrow> ((None, gave n f), c'))"

definition fat_clean :: "'d blocks \<Rightarrow> layout \<Rightarrow> 'd cache \<Rightarrow> (bool, 'd) fat_result" where
  "fat_clean B l c =
     (case read_raw B l c (read_copy l) 1 of
        (Inl e, c') \<Rightarrow> (Inl e, c')
      | (Inr v, c') \<Rightarrow> (Inr (v AND CLEAN_SHUTDOWN \<noteq> 0), c'))"

fun set_clean_copies ::
  "'d blocks \<Rightarrow> layout \<Rightarrow> 'd cache \<Rightarrow> bool \<Rightarrow> nat list \<Rightarrow> bool \<Rightarrow> (bool, 'd) fat_result" where
  "set_clean_copies B l c clean [] changed = (Inr changed, c)"
| "set_clean_copies B l c clean (copy # copies) changed =
     (case read_raw B l c copy 1 of
        (Inl e, c1) \<Rightarrow> (Inl e, c1)
      | (Inr old, c1) \<Rightarrow>
          (let new = (if clean then old OR CLEAN_SHUTDOWN else old AND NOT CLEAN_SHUTDOWN) in
           if new \<noteq> old then
             (case write_raw B l c1 copy 1 new of
                (Inl e, c2) \<Rightarrow> (Inl e, c2)
              | (Inr _, c2) \<Rightarrow> set_clean_copies B l c2 clean copies True)
           else set_clean_copies B l c1 clean copies changed))"

definition set_clean :: "'d blocks \<Rightarrow> layout \<Rightarrow> 'd cache \<Rightarrow> bool \<Rightarrow> (bool, 'd) fat_result" where
  "set_clean B l c clean = set_clean_copies B l c clean (written_copies l) False"

text \<open>
  \<open>scan\<close> calls a closure on each entry until it returns false; the closure's captured state is
  \<open>'s\<close>, which keeps what it did also when a later sector cannot be read.
\<close>

type_synonym 's visitor = "'s \<Rightarrow> nat \<Rightarrow> link \<Rightarrow> 's \<times> bool"

fun scan_entries :: "layout \<Rightarrow> 's visitor \<Rightarrow> nat \<Rightarrow> nat \<Rightarrow> nat \<Rightarrow> bytes list \<Rightarrow> 's \<Rightarrow> 's \<times> bool" where
  "scan_entries l visit entry to at [] s = (s, True)"
| "scan_entries l visit entry to at (raw # rest) s =
     (if at < entry then scan_entries l visit entry to (at + 1) rest s
      else if at \<ge> to then (s, True)
      else case visit s at (classify l (le32 raw 0)) of
        (s', False) \<Rightarrow> (s', False)
      | (s', True) \<Rightarrow> scan_entries l visit entry to (at + 1) rest s')"

definition scan_blocks :: "nat \<Rightarrow> nat \<Rightarrow> nat" where
  "scan_blocks entry to = min ((to - 1) div ENTRIES_PER_BLOCK - entry div ENTRIES_PER_BLOCK + 1) SCAN_BLOCKS"

function scan_loop ::
  "'d blocks \<Rightarrow> layout \<Rightarrow> 's visitor \<Rightarrow> 'd cache \<Rightarrow> nat \<Rightarrow> nat \<Rightarrow> 's \<Rightarrow> fs_error option \<times> 's \<times> 'd cache" where
  "scan_loop B l visit c entry to s =
     (if entry \<ge> to then (None, s, c)
      else let first = entry div ENTRIES_PER_BLOCK * ENTRIES_PER_BLOCK; blocks = scan_blocks entry to in
        case read_at B c (fat_offset l (read_copy l) first) (blocks * BLOCK) of
          (Inl e, c') \<Rightarrow> (Some (fs_of_cache e), s, c')
        | (Inr bs, c') \<Rightarrow>
            (case scan_entries l visit entry to first (chunks_exact 4 (length bs) bs) s of
               (s', False) \<Rightarrow> (None, s', c')
             | (s', True) \<Rightarrow> scan_loop B l visit c' (first + blocks * ENTRIES_PER_BLOCK) to s'))"
  by pat_completeness auto

lemma scan_progress:
  assumes "entry < to"
  shows "entry < entry div ENTRIES_PER_BLOCK * ENTRIES_PER_BLOCK + scan_blocks entry to * ENTRIES_PER_BLOCK"
proof -
  have e: "0 < ENTRIES_PER_BLOCK" "1 \<le> scan_blocks entry to"
    by (simp_all add: ENTRIES_PER_BLOCK_def BLOCK_def scan_blocks_def SCAN_BLOCKS_def)
  have "entry < entry div ENTRIES_PER_BLOCK * ENTRIES_PER_BLOCK + ENTRIES_PER_BLOCK"
    using e(1) dividend_less_div_times by (simp add: add.commute)
  also have "\<dots> \<le> entry div ENTRIES_PER_BLOCK * ENTRIES_PER_BLOCK + scan_blocks entry to * ENTRIES_PER_BLOCK"
    using e(2) mult_le_mono1 [of 1 "scan_blocks entry to" ENTRIES_PER_BLOCK] by simp
  finally show ?thesis .
qed

termination scan_loop
proof (relation "measure (\<lambda>(B, l, visit, c, entry, to, s). to - entry)")
  show "wf (measure (\<lambda>(B, l, visit, c, entry, to, s). to - entry))" by (rule wf_measure)
qed (use scan_progress in \<open>auto simp: not_le diff_less_mono2\<close>)

declare scan_loop.simps [simp del]

definition scan ::
  "'d blocks \<Rightarrow> layout \<Rightarrow> 'd cache \<Rightarrow> nat \<Rightarrow> nat \<Rightarrow> 's visitor \<Rightarrow> 's \<Rightarrow> fs_error option \<times> 's \<times> 'd cache" where
  "scan B l c start to visit s = scan_loop B l visit c start (min to (ly_clusters l + 2)) s"

definition count_free :: "nat visitor" where
  "count_free free cluster ln = (if ln = Free then free + 1 else free, True)"

definition free_count :: "'d blocks \<Rightarrow> fat_table \<Rightarrow> 'd cache \<Rightarrow> (fs_error + nat) \<times> fat_table \<times> 'd cache" where
  "free_count B f c =
     (case ft_free f of
        Some free \<Rightarrow> (Inr free, f, c)
      | None \<Rightarrow>
          (case scan B (ft_layout f) c 2 (ly_clusters (ft_layout f) + 2) count_free 0 of
             (Some e, _, c') \<Rightarrow> (Inl e, f, c')
           | (None, free, c') \<Rightarrow> (Inr free, f\<lparr>ft_free := Some free\<rparr>, c')))"

definition take_free :: "nat \<Rightarrow> (nat list \<times> nat) visitor" where
  "take_free want s cluster ln =
     (let (out, found) = s;
          (out', found') = (if ln = Free then (out @ [cluster], found + 1) else (out, found))
      in ((out', found'), found' < want))"

fun find_ranges ::
  "'d blocks \<Rightarrow> layout \<Rightarrow> nat \<Rightarrow> 'd cache \<Rightarrow> (nat \<times> nat) list \<Rightarrow> nat list \<times> nat \<Rightarrow>
     fs_error option \<times> (nat list \<times> nat) \<times> 'd cache" where
  "find_ranges B l want c [] s = (None, s, c)"
| "find_ranges B l want c ((start, to) # rest) s =
     (if snd s \<ge> want then (None, s, c)
      else case scan B l c start to (take_free want) s of
        (Some e, s', c') \<Rightarrow> (Some e, s', c')
      | (None, s', c') \<Rightarrow> find_ranges B l want c' rest s')"

definition find_free ::
  "'d blocks \<Rightarrow> fat_table \<Rightarrow> 'd cache \<Rightarrow> nat \<Rightarrow> nat list \<Rightarrow> fs_error option \<times> nat list \<times> fat_table \<times> 'd cache" where
  "find_free B f c want out =
     (if want = 0 \<or> ft_free f = Some 0 then (None, out, f, c)
      else let l = ft_layout f; start = ft_cursor f in
        case find_ranges B l want c [(start, ly_clusters l + 2), (2, start)] (out, 0) of
          (Some e, (out', found), c') \<Rightarrow> (Some e, out', f, c')
        | (None, (out', found), c') \<Rightarrow>
            (let f1 = (if found < want then f\<lparr>ft_free := Some found\<rparr> else f);
                 f2 = (case out' of
                         first # _ \<Rightarrow> if is_cluster l first then f1\<lparr>ft_cursor := first\<rparr> else f1
                       | [] \<Rightarrow> f1)
             in (None, out', f2, c')))"

definition next_free_hint :: "'d blocks \<Rightarrow> fat_table \<Rightarrow> 'd cache \<Rightarrow> (fs_error + nat) \<times> fat_table \<times> 'd cache" where
  "next_free_hint B f c =
     (case find_free B f c 1 [] of
        (Some e, _, f', c') \<Rightarrow> (Inl e, f', c')
      | (None, one, f', c') \<Rightarrow> (Inr (case one of first # _ \<Rightarrow> first | [] \<Rightarrow> FSI_UNKNOWN), f', c'))"

section \<open>The table in the volume\<close>

definition fat_entry :: "(nat \<Rightarrow> u8) \<Rightarrow> layout \<Rightarrow> nat \<Rightarrow> nat \<Rightarrow> u32" where
  "fat_entry g l copy e =
     (let at = fat_offset l copy e in u32_of_bytes (g at) (g (at + 1)) (g (at + 2)) (g (at + 3)))"

text \<open>What a cluster's entry says, in the copy that is read.\<close>

definition link_at :: "(nat \<Rightarrow> u8) \<Rightarrow> layout \<Rightarrow> nat \<Rightarrow> link" where
  "link_at g l e = classify l (fat_entry g l (read_copy l) e)"

lemma upt_4: "[k..<k + 4] = [k, k + 1, k + 2, k + 3]"
  by (simp add: upt_rec eval_nat_numeral)

lemma le32_map: "le32 (map g [k..<k + 4]) 0 = u32_of_bytes (g k) (g (k + 1)) (g (k + 2)) (g (k + 3))"
  unfolding upt_4 by (simp add: le32_eq)

lemma length_le_bytes32 [simp]: "length (le_bytes32 v) = 4"
  by (simp add: le_bytes32_def)

lemma classify_masked: "classify l ((old AND RESERVED_BITS) OR (v AND FAT_MASK)) = classify l v"
proof -
  have "((old AND RESERVED_BITS) OR (v AND FAT_MASK)) AND FAT_MASK = v AND FAT_MASK"
    unfolding bit.conj_disj_distrib2 and.assoc by (simp add: FAT_MASK_def RESERVED_BITS_def)
  then show ?thesis by (simp add: classify_def)
qed

lemma classify_Next: "classify l v = Next n \<Longrightarrow> is_cluster l n"
  by (auto simp: classify_def Let_def split: if_splits)

text \<open>The number of entries: the two reserved ones and one for each cluster.\<close>

definition fat_limit :: "layout \<Rightarrow> nat" where
  "fat_limit l = ly_clusters l + 2"

section \<open>Chains\<close>

fun is_chain :: "(nat \<Rightarrow> link) \<Rightarrow> nat list \<Rightarrow> bool" where
  "is_chain lk [] = False"
| "is_chain lk [x] = (lk x = End)"
| "is_chain lk (x # y # xs) = (lk x = Next y \<and> is_chain lk (y # xs))"

lemma is_chain_det: "is_chain lk xs \<Longrightarrow> is_chain lk ys \<Longrightarrow> hd xs = hd ys \<Longrightarrow> xs = ys"
proof (induction xs arbitrary: ys rule: is_chain.induct)
  case (2 lk x)
  then show ?case by (cases "(lk, ys)" rule: is_chain.cases) auto
next
  case (3 lk x y xs)
  then obtain zs where ys: "ys = x # y # zs" "is_chain lk (y # zs)"
    by (cases "(lk, ys)" rule: is_chain.cases) auto
  have "y # xs = y # zs" using 3 ys(2) by (intro "3.IH") auto
  with ys(1) show ?case by simp
qed simp

lemma is_chain_suffix: "is_chain lk (us @ x # vs) \<Longrightarrow> is_chain lk (x # vs)"
proof (induction us)
  case (Cons u us)
  then show ?case by (cases us) auto
qed simp

lemma is_chain_distinct: "is_chain lk xs \<Longrightarrow> distinct xs"
proof (induction lk xs rule: is_chain.induct)
  case (3 lk x y xs)
  have "x \<notin> set (y # xs)"
  proof
    assume "x \<in> set (y # xs)"
    then obtain us vs where split: "y # xs = us @ x # vs" by (meson split_list)
    then have "is_chain lk (x # vs)" using 3(2) is_chain_suffix [of lk "x # us" x vs] by simp
    with is_chain_det [OF 3(2) this] have "vs = y # xs" by simp
    with arg_cong [OF split, of length] show False by simp
  qed
  with 3 show ?case by simp
qed auto

lemma is_chain_all:
  "is_chain lk xs \<Longrightarrow> \<forall>x y. lk x = Next y \<longrightarrow> P y \<Longrightarrow> P (hd xs) \<Longrightarrow> \<forall>x \<in> set xs. P x"
  by (induction lk xs rule: is_chain.induct) auto

lemma is_chain_clusters:
  assumes "is_chain (link_at g l) xs" "is_cluster l (hd xs)"
  shows "\<forall>x \<in> set xs. is_cluster l x"
  using is_chain_all [OF assms(1), where P = "is_cluster l"] assms(2) by (auto simp: link_at_def dest: classify_Next)

lemma clusters_bound:
  assumes "distinct xs" "\<forall>x \<in> set xs. is_cluster l x"
  shows "length xs \<le> ly_clusters l"
proof -
  have "set xs \<subseteq> {2..<ly_clusters l + 2}" using assms(2) by (auto simp: is_cluster_def)
  then have "card (set xs) \<le> card {2..<ly_clusters l + 2}" by (intro card_mono) simp_all
  then show ?thesis using distinct_card [OF assms(1)] by simp
qed

lemma is_chain_cong:
  "(\<And>x. x \<in> set xs \<Longrightarrow> lk' x = lk x) \<Longrightarrow> is_chain lk' xs = is_chain lk xs"
  by (induction lk xs rule: is_chain.induct) auto

section \<open>Scanning, against a reference\<close>

text \<open>The reference for \<open>scan\<close>: the closure on each entry in turn until it returns false.\<close>

fun visit_all :: "'s visitor \<Rightarrow> (nat \<Rightarrow> link) \<Rightarrow> nat list \<Rightarrow> 's \<Rightarrow> 's \<times> bool" where
  "visit_all visit lk [] s = (s, True)"
| "visit_all visit lk (x # xs) s =
     (case visit s x (lk x) of (s', False) \<Rightarrow> (s', False) | (s', True) \<Rightarrow> visit_all visit lk xs s')"

lemma visit_all_append:
  "visit_all visit lk (xs @ ys) s =
     (case visit_all visit lk xs s of (s', False) \<Rightarrow> (s', False) | (s', True) \<Rightarrow> visit_all visit lk ys s')"
  by (induction xs arbitrary: s) (auto split: prod.split bool.split)

lemma scan_entries_visit_all:
  "(\<forall>i < length raws. classify l (le32 (raws ! i) 0) = lk (at + i)) \<Longrightarrow>
     scan_entries l visit entry to at raws s = visit_all visit lk [max entry at..<min to (at + length raws)] s"
proof (induction raws arbitrary: at s)
  case (Cons raw raws)
  have head: "classify l (le32 raw 0) = lk at" using Cons.prems by (auto dest: spec [of _ 0])
  have "\<forall>i < length raws. classify l (le32 (raws ! i) 0) = lk (Suc at + i)"
    using Cons.prems by (auto dest: spec [of _ "Suc _"])
  note IH = Cons.IH [OF this]
  consider "at < entry" | "entry \<le> at" "to \<le> at" | "entry \<le> at" "at < to" by linarith
  then show ?case
  proof cases
    case 3
    then have "[max entry at..<min to (at + length (raw # raws))] = at # [max entry (Suc at)..<min to (Suc at + length raws)]"
      by (simp add: upt_conv_Cons max_def)
    with 3 show ?thesis using head IH by (auto split: prod.split bool.split)
  next
    case 1
    then have "max entry at = max entry (Suc at)" by simp
    with 1 IH show ?thesis by simp
  qed (use IH in \<open>auto simp: max_def\<close>)
qed simp

lemma chunks_exact_nth:
  "k * n = length bs \<Longrightarrow> 0 < k \<Longrightarrow> n \<le> m \<Longrightarrow>
     length (chunks_exact k m bs) = n \<and> (\<forall>i < n. chunks_exact k m bs ! i = take k (drop (k * i) bs))"
proof (induction n arbitrary: bs m)
  case 0
  then show ?case by (cases m) auto
next
  case (Suc n)
  then obtain m' where m: "m = Suc m'" "n \<le> m'" by (cases m) auto
  have len: "k \<le> length bs" using Suc.prems(1) by auto
  have "k * n = length (drop k bs)" using Suc.prems(1) by simp
  from Suc.IH [OF this Suc.prems(2) m(2)] len Suc.prems(2) m(1) show ?case
    by (auto simp: nth_Cons' algebra_simps less_Suc_eq_0_disj)
qed

lemma fat_offset_add: "fat_offset l copy (first + i) = fat_offset l copy first + 4 * i"
  by (simp add: fat_offset_def)

lemma scan_sector:
  assumes "bs = map g [fat_offset l (read_copy l) first..<fat_offset l (read_copy l) first + n * BLOCK]"
  shows "scan_entries l visit entry to first (chunks_exact 4 (length bs) bs) s
    = visit_all visit (link_at g l) [max entry first..<min to (first + n * ENTRIES_PER_BLOCK)] s"
proof -
  let ?at = "fat_offset l (read_copy l) first"
  have len: "4 * (n * ENTRIES_PER_BLOCK) = length bs" "length bs = n * BLOCK"
    by (simp_all add: assms ENTRIES_PER_BLOCK_def BLOCK_def)
  have "n * ENTRIES_PER_BLOCK \<le> length bs" unfolding len(1) [symmetric] by simp
  from chunks_exact_nth [OF len(1) _ this]
  have raws: "length (chunks_exact 4 (length bs) bs) = n * ENTRIES_PER_BLOCK"
    "\<And>i. i < n * ENTRIES_PER_BLOCK \<Longrightarrow> chunks_exact 4 (length bs) bs ! i = take 4 (drop (4 * i) bs)" by simp_all
  have "take 4 (drop (4 * i) bs) = map g [?at + 4 * i..<?at + 4 * i + 4]" if "i < n * ENTRIES_PER_BLOCK" for i
  proof -
    have "4 * i + 4 \<le> length bs" unfolding len(1) [symmetric] using that by simp
    then show ?thesis unfolding assms take_map drop_map by (simp add: take_upt)
  qed
  then have "\<forall>i < length (chunks_exact 4 (length bs) bs).
      classify l (le32 (chunks_exact 4 (length bs) bs ! i) 0) = link_at g l (first + i)"
    using raws by (simp add: le32_map link_at_def fat_entry_def fat_offset_add Let_def)
  from scan_entries_visit_all [OF this] raws(1) show ?thesis by simp
qed

lemma min_split: "(a::nat) < w \<Longrightarrow> a + min (w - a) b = min w (a + b)"
  by (cases "w - a \<le> b") auto

lemma visit_count_free:
  "visit_all count_free lk xs n = (n + length (filter (\<lambda>x. lk x = Free) xs), True)"
  by (induction xs arbitrary: n) (auto simp: count_free_def)

lemma visit_take_free:
  "found < want \<Longrightarrow> fst (visit_all (take_free want) lk xs (out, found)) =
     (let free = filter (\<lambda>x. lk x = Free) xs in (out @ take (want - found) free, found + min (want - found) (length free)))"
proof (induction xs arbitrary: out found)
  case (Cons x xs)
  show ?case
  proof (cases "lk x = Free \<and> Suc found < want")
    case True
    then have "want - found = Suc (want - Suc found)" by linarith
    with True Cons.IH [of "Suc found" "out @ [x]"] show ?thesis by (simp add: take_free_def Let_def)
  next
    case False
    show ?thesis
    proof (cases "lk x = Free")
      case free: True
      with False Cons.prems have "want - found = 1" by simp
      with free False show ?thesis by (simp add: take_free_def Let_def)
    next
      case False
      then show ?thesis using Cons by (simp add: take_free_def Let_def)
    qed
  qed
qed (simp add: Let_def)

end
