(* ===== verification/Fat_Table_Correct.thy ===== *)
theory Fat_Table_Correct
  imports Fat_Table
begin

text \<open>
  What the operations of \<open>Fat_Table\<close> do to the table in the volume, over any device that meets the
  contract of \<open>Fat_Cache\<close>, and that they succeed over one that answers.  The properties are stated
  over the devices of \<open>tools/fatdisk/src/image.rs\<close>.
\<close>

section \<open>Operations on the table\<close>

context block_device
begin

definition volume_ok :: "layout \<Rightarrow> 'd cache \<Rightarrow> bool" where
  "volume_ok l c \<longleftrightarrow> layout_ok l \<and> cache_ok c \<and> ly_sectors l \<le> blocks_of c"

lemma volume_ok_keeps: "volume_ok l c \<Longrightarrow> keeps c c' \<Longrightarrow> volume_ok l c'"
  by (simp add: volume_ok_def keeps_def)

lemma keeps_bytes: "keeps c c' \<Longrightarrow> logical_byte c' = logical_byte c"
  by (simp add: keeps_def logical_byte_def fun_eq_iff)

lemma read_raw_spec:
  assumes "cache_ok c" "read_raw B l c copy e = (r, c')"
  shows "keeps c c'" "r = Inr v \<Longrightarrow> v = fat_entry (logical_byte c) l copy e"
proof -
  obtain r1 c1 where ra: "read_at B c (fat_offset l copy e) 4 = (r1, c1)" by fastforce
  note spec = read_at_spec [OF assms(1) ra]
  show "keeps c c'" using assms(2) ra spec by (auto simp: read_raw_def split: sum.splits)
  show "v = fat_entry (logical_byte c) l copy e" if "r = Inr v"
    using assms(2) ra spec that
    by (auto simp: read_raw_def le32_map fat_entry_def Let_def split: sum.splits)
qed

lemma fat_link_spec:
  assumes "cache_ok c" "fat_link B l c cluster = (r, c')"
  shows "keeps c c'" "r = Inr ln \<Longrightarrow> is_cluster l cluster \<and> ln = link_at (logical_byte c) l cluster"
proof -
  obtain r1 c1 where rr: "read_raw B l c (read_copy l) cluster = (r1, c1)" by fastforce
  note spec = read_raw_spec [OF assms(1) rr]
  show "keeps c c'" using assms rr spec(1) keeps_refl
    by (auto simp: fat_link_def split: sum.splits if_splits)
  show "is_cluster l cluster \<and> ln = link_at (logical_byte c) l cluster" if "r = Inr ln"
    using assms(2) rr spec(2) that by (auto simp: fat_link_def link_at_def split: sum.splits if_splits)
qed

lemma walk_loop_spec:
  "cache_ok c \<Longrightarrow> walk_loop B l c n cluster = (r, c') \<Longrightarrow>
     keeps c c' \<and> (\<forall>m last_cluster. r = Inr (m, last_cluster) \<longrightarrow>
       (\<exists>xs. is_chain (link_at (logical_byte c) l) xs \<and> hd xs = cluster \<and> is_cluster l cluster
          \<and> last xs = last_cluster \<and> m + 1 = n + length xs))"
proof (induction "ly_clusters l - n" arbitrary: c n cluster rule: less_induct)
  case less
  obtain r1 c1 where ln: "fat_link B l c cluster = (r1, c1)" by fastforce
  note spec = fat_link_spec [OF less.prems(1) ln]
  note step = less.prems(2) [unfolded walk_loop.simps [of B l c n cluster] ln, simplified]
  show ?case
  proof (cases "\<exists>nx. r1 = Inr (Next nx) \<and> n < ly_clusters l")
    case True
    then obtain nc where nx: "r1 = Inr (Next nc)" "n < ly_clusters l" by blast
    have rec: "walk_loop B l c1 (n + 1) nc = (r, c')" using step nx by simp
    have "ly_clusters l - (n + 1) < ly_clusters l - n" using nx(2) by simp
    from less.hyps [OF this keeps_ok [OF spec(1)] rec] have
      IH: "keeps c1 c'" "\<And>m last_cluster. r = Inr (m, last_cluster) \<Longrightarrow>
       (\<exists>xs. is_chain (link_at (logical_byte c) l) xs \<and> hd xs = nc \<and> is_cluster l nc
          \<and> last xs = last_cluster \<and> m + 1 = n + 1 + length xs)"
      using keeps_bytes [OF spec(1)] by auto
    show ?thesis
    proof (intro conjI allI impI)
      show "keeps c c'" by (rule keeps_trans [OF spec(1) IH(1)])
      fix m last_cluster assume "r = Inr (m, last_cluster)"
      from IH(2) [OF this] obtain xs where xs: "is_chain (link_at (logical_byte c) l) xs" "hd xs = nc"
        "last xs = last_cluster" "m + 1 = n + 1 + length xs" by blast
      then have "is_chain (link_at (logical_byte c) l) (cluster # xs)"
        using spec(2) [OF nx(1)] by (cases xs) auto
      then show "\<exists>xs. is_chain (link_at (logical_byte c) l) xs \<and> hd xs = cluster \<and> is_cluster l cluster
          \<and> last xs = last_cluster \<and> m + 1 = n + length xs"
        using xs spec(2) [OF nx(1)] by (intro exI [of _ "cluster # xs"]) (cases xs, auto)
    qed
  next
    case False
    then have "c' = c1" "\<And>m k. r = Inr (m, k) \<Longrightarrow> r1 = Inr End \<and> m = n \<and> k = cluster"
      using step by (auto split: sum.splits link.splits if_splits)
    then show ?thesis using spec by (intro conjI allI impI exI [of _ "[cluster]"]) auto
  qed
qed

lemma write_raw_spec:
  assumes v: "volume_ok l c" and e: "copy < ly_fats l" "e < ly_clusters l + 2"
    and w: "write_raw B l c copy e v = (Inr u, c')"
  shows "volume_ok l c'" "blocks_of c' = blocks_of c \<and> ca_writable c' = ca_writable c"
    "copy' < ly_fats l \<Longrightarrow> e' < ly_clusters l + 2 \<Longrightarrow> fat_entry (logical_byte c') l copy' e'
      = (if copy' = copy \<and> e' = e then v else fat_entry (logical_byte c) l copy' e')"
    "p < ly_sectors l * BLOCK \<Longrightarrow> p < ly_fat_start l * BLOCK \<or> ly_data_start l * BLOCK \<le> p \<Longrightarrow>
      logical_byte c' p = logical_byte c p"
proof -
  have ok: "layout_ok l" "cache_ok c" "ly_sectors l \<le> blocks_of c" using v by (simp_all add: volume_ok_def)
  let ?at = "fat_offset l copy e"
  have "write_at B c ?at (le_bytes32 v) = (None, c')" using w by (auto simp: write_raw_def split: option.splits prod.splits)
  from write_at_spec [OF ok(2) this] have put: "bytes_put c ?at (le_bytes32 v) c'" by simp
  then show "volume_ok l c'" "blocks_of c' = blocks_of c \<and> ca_writable c' = ca_writable c"
    using ok by (simp_all add: volume_ok_def bytes_put_def)
  have sect: "ly_sectors l * BLOCK \<le> blocks_of c * BLOCK" using ok(3) by (rule mult_le_mono1)
  have data: "ly_data_start l * BLOCK \<le> ly_sectors l * BLOCK" by (rule data_start_in [OF ok(1)])
  have byte: "logical_byte c' p = (if ?at \<le> p \<and> p < ?at + 4 then le_bytes32 v ! (p - ?at) else logical_byte c p)"
    if "p < ly_sectors l * BLOCK" for p
  proof -
    have "p < blocks_of c * BLOCK" using that sect by linarith
    then show ?thesis using put unfolding bytes_put_def length_le_bytes32 by blast
  qed
  note here = fat_offset_in [OF ok(1) e]
  show "logical_byte c' p = logical_byte c p"
    if "p < ly_sectors l * BLOCK" "p < ly_fat_start l * BLOCK \<or> ly_data_start l * BLOCK \<le> p" for p
    using byte [OF that(1)] here(1,2) that(2) by auto
  show "fat_entry (logical_byte c') l copy' e' = (if copy' = copy \<and> e' = e then v else fat_entry (logical_byte c) l copy' e')"
    if e': "copy' < ly_fats l" "e' < ly_clusters l + 2"
  proof -
    let ?at' = "fat_offset l copy' e'"
    have inside: "?at' + k < ly_sectors l * BLOCK" if "k < 4" for k
      using fat_offset_in(2) [OF ok(1) e'] data that by linarith
    have apart: "?at' + 4 \<le> ?at \<or> ?at + 4 \<le> ?at'" if "\<not> (copy' = copy \<and> e' = e)"
      using that fat_offset_in(3) [OF ok(1) e'] here(3) by (cases copy copy' rule: linorder_cases) (auto simp: fat_offset_def)
    have other: "logical_byte c' (?at' + k) = logical_byte c (?at' + k)" if "\<not> (copy' = copy \<and> e' = e)" "k < 4" for k
      using byte [OF inside [OF that(2)]] apart [OF that(1)] that(2) by auto
    show ?thesis
    proof (cases "copy' = copy \<and> e' = e")
      case True
      then show ?thesis using byte inside [of 0] inside [of 1] inside [of 2] inside [of 3]
        by (simp add: fat_entry_def Let_def le_bytes32_def u32_bytes nth_Cons')
    next
      case False
      then show ?thesis using other [OF False, of 0] other [OF False, of 1] other [OF False, of 2] other [OF False, of 3]
        by (simp only: fat_entry_def Let_def if_False add_0_right)
    qed
  qed
qed

text \<open>What stays when a cluster's entry is set in some copies: every other entry, and every byte
  outside the table.\<close>

definition entry_changed :: "layout \<Rightarrow> nat set \<Rightarrow> nat \<Rightarrow> (u32 \<Rightarrow> u32) \<Rightarrow> 'd cache \<Rightarrow> 'd cache \<Rightarrow> bool" where
  "entry_changed l copies e f c c' \<longleftrightarrow>
     (\<forall>copy' < ly_fats l. \<forall>e' < ly_clusters l + 2. fat_entry (logical_byte c') l copy' e' =
        (if copy' \<in> copies \<and> e' = e then f (fat_entry (logical_byte c) l copy' e') else fat_entry (logical_byte c) l copy' e'))
   \<and> (\<forall>p < ly_sectors l * BLOCK. p < ly_fat_start l * BLOCK \<or> ly_data_start l * BLOCK \<le> p \<longrightarrow>
        logical_byte c' p = logical_byte c p)"

lemma set_copies_spec:
  "volume_ok l c \<Longrightarrow> cluster < ly_clusters l + 2 \<Longrightarrow> distinct copies \<Longrightarrow> set copies \<subseteq> {..<ly_fats l} \<Longrightarrow>
   set_copies B l c cluster v copies = (Inr u, c') \<Longrightarrow>
     volume_ok l c' \<and> entry_changed l (set copies) cluster (\<lambda>old. (old AND RESERVED_BITS) OR (v AND FAT_MASK)) c c'
     \<and> blocks_of c' = blocks_of c \<and> ca_writable c' = ca_writable c"
proof (induction copies arbitrary: c)
  case Nil
  then show ?case by (simp add: entry_changed_def)
next
  case (Cons copy copies)
  obtain r1 c1 where rr: "read_raw B l c copy cluster = (r1, c1)" by fastforce
  have ok: "cache_ok c" using Cons.prems(1) by (simp add: volume_ok_def)
  note rs = read_raw_spec [OF ok rr]
  obtain old where r1: "r1 = Inr old" using Cons.prems(5) rr by (cases r1) auto
  have old: "old = fat_entry (logical_byte c) l copy cluster" using rs(2) r1 by simp
  let ?new = "(old AND RESERVED_BITS) OR (v AND FAT_MASK)"
  obtain r2 c2 where ww: "write_raw B l c1 copy cluster ?new = (r2, c2)" by fastforce
  obtain u2 where r2: "r2 = Inr u2" using Cons.prems(5) rr r1 ww by (cases r2) auto
  have v1: "volume_ok l c1" by (rule volume_ok_keeps [OF Cons.prems(1) rs(1)])
  have copy: "copy < ly_fats l" using Cons.prems(4) by simp
  note ws = write_raw_spec [OF v1 copy Cons.prems(2) ww [unfolded r2], unfolded keeps_bytes [OF rs(1)]]
  have rec: "set_copies B l c2 cluster v copies = (Inr u, c')" using Cons.prems(5) rr r1 ww r2 by simp
  have IH: "volume_ok l c'" "blocks_of c' = blocks_of c2 \<and> ca_writable c' = ca_writable c2"
    "entry_changed l (set copies) cluster (\<lambda>old. (old AND RESERVED_BITS) OR (v AND FAT_MASK)) c2 c'"
    using Cons.IH [OF ws(1) Cons.prems(2) _ _ rec] Cons.prems(3,4) by auto
  have "entry_changed l (set (copy # copies)) cluster (\<lambda>old. (old AND RESERVED_BITS) OR (v AND FAT_MASK)) c c'"
    using IH(3) ws(3,4) Cons.prems(3) old unfolding entry_changed_def by auto
  with IH(1,2) ws(2) rs(1) show ?case by (simp add: keeps_def)
qed

lemma fat_set_spec:
  assumes "volume_ok l c" "fat_set B l c cluster v = (Inr u, c')"
  shows "is_cluster l cluster" "volume_ok l c'"
    "entry_changed l (set (written_copies l)) cluster (\<lambda>old. (old AND RESERVED_BITS) OR (v AND FAT_MASK)) c c'"
    "\<forall>e < ly_clusters l + 2. link_at (logical_byte c') l e = (if e = cluster then classify l v else link_at (logical_byte c) l e)"
    "blocks_of c' = blocks_of c \<and> ca_writable c' = ca_writable c"
proof -
  have ok: "layout_ok l" using assms(1) by (simp add: volume_ok_def)
  show cl: "is_cluster l cluster" using assms(2) by (auto simp: fat_set_def split: if_splits)
  then have lt: "cluster < ly_clusters l + 2" by (auto simp: is_cluster_def)
  have "set_copies B l c cluster v (written_copies l) = (Inr u, c')" using assms(2) cl by (simp add: fat_set_def)
  from set_copies_spec [OF assms(1) lt copies_in(3,2) [OF ok] this]
  show vo: "volume_ok l c'" and "blocks_of c' = blocks_of c \<and> ca_writable c' = ca_writable c"
    and ch: "entry_changed l (set (written_copies l)) cluster (\<lambda>old. (old AND RESERVED_BITS) OR (v AND FAT_MASK)) c c'"
    by auto
  have "read_copy l \<in> set (written_copies l)" "read_copy l < ly_fats l" using copies_in(1,2) [OF ok] by auto
  then show "\<forall>e < ly_clusters l + 2. link_at (logical_byte c') l e = (if e = cluster then classify l v else link_at (logical_byte c) l e)"
    using ch by (simp add: link_at_def entry_changed_def classify_masked)
qed

lemma free_loop_spec:
  "volume_ok l c \<Longrightarrow> is_chain (link_at (logical_byte c) l) xs \<Longrightarrow> is_cluster l (hd xs) \<Longrightarrow>
   free_loop B l c (hd xs) (length xs) = (Inr u, c') \<Longrightarrow>
     volume_ok l c' \<and> (\<forall>e < ly_clusters l + 2.
       link_at (logical_byte c') l e = (if e \<in> set xs then Free else link_at (logical_byte c) l e))"
proof (induction xs arbitrary: c)
  case (Cons x xs)
  have ok: "cache_ok c" using Cons.prems(1) by (simp add: volume_ok_def)
  obtain r1 c1 where ln: "fat_link B l c x = (r1, c1)" by fastforce
  note ls = fat_link_spec [OF ok ln]
  obtain lk where r1: "r1 = Inr lk" using Cons.prems(4) ln by (cases r1) auto
  have v1: "volume_ok l c1" by (rule volume_ok_keeps [OF Cons.prems(1) ls(1)])
  obtain r2 c2 where st: "fat_set B l c1 x FAT_FREE = (r2, c2)" by fastforce
  obtain u2 where r2: "r2 = Inr u2" using Cons.prems(4) ln r1 st by (cases r2) auto
  note fs = fat_set_spec [OF v1 st [unfolded r2], unfolded keeps_bytes [OF ls(1)]]
  have free: "classify l FAT_FREE = Free" by (simp add: classify_def FAT_FREE_def)
  show ?case
  proof (cases xs)
    case Nil
    then have "c' = c2" using Cons.prems(4) ln r1 st r2 by simp
    then show ?thesis using fs(2,4) free Nil by auto
  next
    case (Cons y ys)
    have lk: "lk = Next y" using ls(2) [OF r1] Cons.prems(2) Cons by simp
    then have rec: "free_loop B l c2 (hd xs) (length xs) = (Inr u, c')"
      using Cons.prems(4) ln r1 st r2 Cons by simp
    have "distinct (x # xs)" using is_chain_distinct [OF Cons.prems(2)] .
    then have notin: "x \<notin> set xs" by simp
    have cl: "\<forall>e \<in> set (x # xs). is_cluster l e"
      by (rule is_chain_clusters [OF Cons.prems(2) Cons.prems(3)])
    have same: "link_at (logical_byte c2) l e = link_at (logical_byte c) l e" if "e \<in> set xs" for e
      using fs(4) notin that cl by (auto simp: is_cluster_def)
    have "is_chain (link_at (logical_byte c) l) xs" using Cons.prems(2) Cons by simp
    then have ch2: "is_chain (link_at (logical_byte c2) l) xs" using is_chain_cong [of xs "link_at (logical_byte c2) l"] same by blast
    from Cons.IH [OF fs(2) ch2 _ rec] cl Cons
    have IH: "volume_ok l c'" "\<forall>e < ly_clusters l + 2.
        link_at (logical_byte c') l e = (if e \<in> set xs then Free else link_at (logical_byte c2) l e)" by auto
    then show ?thesis using fs(4) free by auto
  qed
qed simp

text \<open>\<open>scan\<close> against its reference: the closure on each entry in turn.\<close>

lemma scan_loop_spec:
  "cache_ok c \<Longrightarrow> scan_loop B l visit c entry to s = (r, s', c') \<Longrightarrow>
     keeps c c' \<and> (r = None \<longrightarrow> s' = fst (visit_all visit (link_at (logical_byte c) l) [entry..<to] s))"
proof (induction "to - entry" arbitrary: c entry s rule: less_induct)
  case less
  show ?case
  proof (cases "entry < to")
    case True
    let ?first = "entry div ENTRIES_PER_BLOCK * ENTRIES_PER_BLOCK" and ?n = "scan_blocks entry to"
    let ?lk = "link_at (logical_byte c) l" and ?stop = "?first + ?n * ENTRIES_PER_BLOCK"
    obtain r1 c1 where ra: "read_at B c (fat_offset l (read_copy l) ?first) (?n * BLOCK) = (r1, c1)" by fastforce
    note rs = read_at_spec [OF less.prems(1) ra]
    note step = less.prems(2) [unfolded scan_loop.simps [of B l visit c entry to s] ra]
    show ?thesis
    proof (cases r1)
      case (Inl e)
      then show ?thesis using step True rs by (auto simp: Let_def ra)
    next
      case (Inr bs)
      have bs: "bs = map (logical_byte c) [fat_offset l (read_copy l) ?first..<fat_offset l (read_copy l) ?first + ?n * BLOCK]"
        using rs Inr by simp
      have ent: "scan_entries l visit entry to ?first (chunks_exact 4 (length bs) bs) s
          = visit_all visit ?lk [max entry ?first..<min to ?stop] s"
        by (rule scan_sector [OF bs])
      have "max entry ?first = entry" by (rule max_absorb1) (rule div_times_less_eq_dividend)
      moreover have past: "entry < ?stop" by (rule scan_progress [OF True])
      ultimately have app: "[entry..<to] = [max entry ?first..<min to ?stop] @ [min to ?stop..<to]"
        using True upt_add_eq_append [of entry "min to ?stop" "to - min to ?stop"] by simp
      obtain s1 go where va: "visit_all visit ?lk [max entry ?first..<min to ?stop] s = (s1, go)" by fastforce
      show ?thesis
      proof (cases go)
        case False
        then have "r = None" "s' = s1" "c' = c1" using step True Inr ent va by (simp_all add: Let_def ra)
        then show ?thesis using rs app va False by (simp add: visit_all_append)
      next
        case go: True
        then have rec: "scan_loop B l visit c1 ?stop to s1 = (r, s', c')"
          using step True Inr ent va by (simp add: Let_def ra)
        have k: "keeps c c1" using rs by simp
        have "to - ?stop < to - entry" using past True by linarith
        from less.hyps [OF this keeps_ok [OF k] rec]
        have IH: "keeps c1 c'" "r = None \<longrightarrow> s' = fst (visit_all visit ?lk [?stop..<to] s1)"
          using keeps_bytes [OF k] by auto
        have "[?stop..<to] = [min to ?stop..<to]" by (cases "?stop \<le> to") (auto simp: min_def)
        then show ?thesis using IH keeps_trans [OF k IH(1)] app va go by (simp add: visit_all_append)
      qed
    qed
  next
    case False
    then show ?thesis using less.prems keeps_refl by (simp add: scan_loop.simps)
  qed
qed

lemma scan_spec:
  assumes "cache_ok c" "scan B l c start to visit s = (r, s', c')"
  shows "keeps c c'" "r = None \<Longrightarrow> s' = fst (visit_all visit (link_at (logical_byte c) l) [start..<min to (fat_limit l)] s)"
  using scan_loop_spec [OF assms(1), of l visit start "min to (fat_limit l)" s r s' c'] assms(2)
  by (auto simp: scan_def fat_limit_def)

lemma find_ranges_spec:
  assumes ok: "cache_ok c" and want: "0 < want" and start: "start \<le> fat_limit l"
    and f: "find_ranges B l want c [(start, fat_limit l), (2, start)] (out, 0) = (r, (out', found), c')"
  defines "fs \<equiv> filter (\<lambda>e. link_at (logical_byte c) l e = Free) ([start..<fat_limit l] @ [2..<start])"
  shows "keeps c c'" "r = None \<Longrightarrow> out' = out @ take want fs \<and> found = min want (length fs)"
proof -
  let ?lk = "link_at (logical_byte c) l" and ?N = "fat_limit l"
  let ?A = "filter (\<lambda>e. ?lk e = Free) [start..<?N]" and ?B = "filter (\<lambda>e. ?lk e = Free) [2..<start]"
  obtain r1 s1 c1 where s1: "scan B l c start ?N (take_free want) (out, 0) = (r1, s1, c1)" by (metis prod_cases3)
  note sp1 = scan_spec [OF ok s1]
  have one: "s1 = (out @ take want ?A, min want (length ?A))" if "r1 = None"
    using sp1(2) [OF that] visit_take_free [OF want, of ?lk "[start..<?N]" out] by (simp add: Let_def)
  obtain r2 s2 c2 where s2: "scan B l c1 2 start (take_free want) s1 = (r2, s2, c2)" by (metis prod_cases3)
  note sp2 = scan_spec [OF keeps_ok [OF sp1(1)] s2, unfolded keeps_bytes [OF sp1(1)]]
  show "keeps c c'"
    using f want s1 s2 sp1(1) keeps_trans [OF sp1(1) sp2(1)] by (auto split: option.splits if_splits)
  assume "r = None"
  then have r1: "r1 = None" using f want s1 by (auto split: option.splits)
  show "out' = out @ take want fs \<and> found = min want (length fs)"
  proof (cases "length ?A < want")
    case True
    then have r2: "r2 = None" and s2': "(out', found) = s2"
      using f want s1 r1 s2 one [OF r1] \<open>r = None\<close> by (auto split: option.splits)
    have "min start ?N = start" using start by simp
    with sp2(2) [OF r2] have "s2 = fst (visit_all (take_free want) ?lk [2..<start] (out @ ?A, length ?A))"
      using one [OF r1] True by simp
    also have "\<dots> = ((out @ ?A) @ take (want - length ?A) ?B, length ?A + min (want - length ?A) (length ?B))"
      using visit_take_free [OF True, of ?lk "[2..<start]" "out @ ?A"] by (simp add: Let_def)
    finally have "out' = out @ ?A @ take (want - length ?A) ?B" "found = length ?A + min (want - length ?A) (length ?B)"
      using s2' by simp_all
    moreover have "length ?A + min (want - length ?A) (length ?B) = min want (length ?A + length ?B)"
      using True by (rule min_split)
    ultimately show ?thesis using True by (simp add: fs_def)
  next
    case False
    then have "(out', found) = s1" using f want s1 r1 one [OF r1] by (auto split: option.splits)
    then show ?thesis using one [OF r1] False by (simp add: fs_def)
  qed
qed

end

lemma is_chain_not_free: "is_chain lk xs \<Longrightarrow> \<forall>x \<in> set xs. lk x \<noteq> Free"
  by (induction lk xs rule: is_chain.induct) auto

definition free_set :: "(nat \<Rightarrow> u8) \<Rightarrow> layout \<Rightarrow> nat set" where
  "free_set g l = {e. is_cluster l e \<and> link_at g l e = Free}"

text \<open>The invariant of what is kept in memory: a known count is the count, and the cursor names a
  cluster.\<close>

definition fat_ok :: "(nat \<Rightarrow> u8) \<Rightarrow> fat_table \<Rightarrow> bool" where
  "fat_ok g f \<longleftrightarrow> is_cluster (ft_layout f) (ft_cursor f)
     \<and> (\<forall>n. ft_free f = Some n \<longrightarrow> n = card (free_set g (ft_layout f)))"

lemma finite_free_set: "finite (free_set g l)"
proof (rule finite_subset)
  show "free_set g l \<subseteq> {2..<fat_limit l}" by (auto simp: free_set_def is_cluster_def fat_limit_def)
qed simp

lemma filter_free_set:
  assumes "2 \<le> start" "start \<le> fat_limit l"
  shows "set (filter (\<lambda>e. link_at g l e = Free) ([start..<fat_limit l] @ [2..<start])) = free_set g l"
    and "distinct (filter (\<lambda>e. link_at g l e = Free) ([start..<fat_limit l] @ [2..<start]))"
    and "length (filter (\<lambda>e. link_at g l e = Free) ([start..<fat_limit l] @ [2..<start])) = card (free_set g l)"
proof -
  let ?fs = "filter (\<lambda>e. link_at g l e = Free) ([start..<fat_limit l] @ [2..<start])"
  show s: "set ?fs = free_set g l" using assms by (auto simp: free_set_def is_cluster_def fat_limit_def)
  show d: "distinct ?fs" using assms by auto
  show "length ?fs = card (free_set g l)" using distinct_card [OF d] s by simp
qed

context block_device
begin

lemma free_count_spec:
  assumes "cache_ok c" "fat_ok (logical_byte c) f" "free_count B f c = (r, f', c')"
  shows "keeps c c'" "fat_ok (logical_byte c) f'" "ft_layout f' = ft_layout f"
    "r = Inr n \<Longrightarrow> n = card (free_set (logical_byte c) (ft_layout f)) \<and> ft_free f' = Some n"
proof -
  let ?l = "ft_layout f" and ?g = "logical_byte c"
  obtain r1 k c1 where s: "scan B ?l c 2 (fat_limit ?l) count_free 0 = (r1, k, c1)" by (metis prod_cases3)
  note sp = scan_spec [OF assms(1) s]
  have lim: "2 \<le> fat_limit ?l" by (simp add: fat_limit_def)
  have k: "k = card (free_set ?g ?l)" if "r1 = None"
    using sp(2) [OF that] filter_free_set(3) [OF _ lim, of ?g] by (simp add: visit_count_free)
  show "keeps c c'" "fat_ok ?g f'" "ft_layout f' = ft_layout f"
    "r = Inr n \<Longrightarrow> n = card (free_set ?g ?l) \<and> ft_free f' = Some n"
    using assms(1,2) assms(3) [unfolded free_count_def fat_limit_def [symmetric]] s sp(1) k keeps_refl
    by (auto simp: fat_ok_def split: option.splits)
qed

lemma find_free_spec:
  assumes ok: "cache_ok c" and inv: "fat_ok (logical_byte c) f"
    and f: "find_free B f c want out = (r, out', f', c')"
  defines "free \<equiv> free_set (logical_byte c) (ft_layout f)"
  shows "keeps c c' \<and> ft_layout f' = ft_layout f \<and> (r = None \<longrightarrow>
    (\<exists>fs. out' = out @ fs \<and> distinct fs \<and> set fs \<subseteq> free \<and> length fs = min want (card free))
    \<and> fat_ok (logical_byte c) f')"
proof -
  let ?l = "ft_layout f" and ?g = "logical_byte c"
  let ?start = "ft_cursor f" and ?N = "fat_limit ?l"
  let ?fs = "filter (\<lambda>e. link_at ?g ?l e = Free) ([?start..<?N] @ [2..<?start])"
  have start: "2 \<le> ?start" "?start \<le> ?N" using inv by (auto simp: fat_ok_def is_cluster_def fat_limit_def)
  note fs = filter_free_set [OF start, of ?g]
  note ff = f [unfolded find_free_def Let_def fat_limit_def [symmetric]]
  obtain r1 o1 k c1 where fr: "find_ranges B ?l want c [(?start, ?N), (2, ?start)] (out, 0) = (r1, (o1, k), c1)"
    by (metis prod_cases3 surj_pair)
  show ?thesis
  proof (cases "want = 0 \<or> ft_free f = Some 0")
    case True
    then have eq: "r = None" "out' = out" "f' = f" "c' = c" using f by (auto simp: find_free_def)
    have "min want (card free) = 0" using True inv by (auto simp: fat_ok_def free_def)
    then show ?thesis using eq inv keeps_refl [OF ok] by simp
  next
    case False
    then have want: "0 < want" by simp
    note sp = find_ranges_spec [OF ok want start(2) fr]
    show ?thesis
    proof (cases r1)
      case (Some e)
      then show ?thesis using ff False fr sp(1) by (auto simp del: find_ranges.simps)
    next
      case None
      from sp(2) [OF None] have o1: "o1 = out @ take want ?fs" "k = min want (length ?fs)" by simp_all
      have f': "r = None" "out' = o1" "c' = c1" "ft_layout f' = ?l"
        "ft_free f' = (if k < want then Some k else ft_free f)" "ft_cursor f' \<in> insert ?start (Collect (is_cluster ?l))"
        using ff False fr None by (auto simp del: find_ranges.simps split: list.splits if_splits)
      have "fat_ok ?g f'" using f'(4-6) inv o1(2) fs(3) by (auto simp: fat_ok_def min_def split: if_splits)
      moreover have "set (take want ?fs) \<subseteq> free" unfolding free_def fs(1) [symmetric] by (rule set_take_subset)
      moreover have "distinct (take want ?fs)" using fs(2) by (rule distinct_take)
      moreover have "length (take want ?fs) = min want (card free)" using fs(3) by (simp add: free_def min.commute)
      ultimately show ?thesis using f' o1(1) sp(1) by blast
    qed
  qed
qed

lemma free_chain_spec:
  assumes v: "volume_ok (ft_layout f) c" and inv: "fat_ok (logical_byte c) f"
    and ch: "is_chain (link_at (logical_byte c) (ft_layout f)) xs" "is_cluster (ft_layout f) (hd xs)"
    and f: "free_chain B f c (hd xs) (length xs) = ((None, f'), c')"
  shows "volume_ok (ft_layout f) c'" "fat_ok (logical_byte c') f'" "ft_layout f' = ft_layout f"
    "\<forall>e < fat_limit (ft_layout f). link_at (logical_byte c') (ft_layout f) e
      = (if e \<in> set xs then Free else link_at (logical_byte c) (ft_layout f) e)"
proof -
  let ?l = "ft_layout f"
  obtain u where fl: "free_loop B ?l c (hd xs) (length xs) = (Inr u, c')" and f': "f' = gave (length xs) f"
    using f by (auto simp: free_chain_def split: sum.splits prod.splits)
  note sp = free_loop_spec [OF v ch fl]
  show "volume_ok ?l c'" using sp by simp
  show lk: "\<forall>e < fat_limit ?l. link_at (logical_byte c') ?l e = (if e \<in> set xs then Free else link_at (logical_byte c) ?l e)"
    using sp by (simp add: fat_limit_def)
  show layout: "ft_layout f' = ?l" by (simp add: f' gave_def)
  have cl: "\<forall>x \<in> set xs. is_cluster ?l x" by (rule is_chain_clusters [OF ch])
  have notfree: "\<forall>x \<in> set xs. link_at (logical_byte c) ?l x \<noteq> Free" by (rule is_chain_not_free [OF ch(1)])
  have "free_set (logical_byte c') ?l = free_set (logical_byte c) ?l \<union> set xs"
    using lk cl by (auto simp: free_set_def is_cluster_def fat_limit_def)
  moreover have "free_set (logical_byte c) ?l \<inter> set xs = {}" using notfree by (auto simp: free_set_def)
  ultimately have card: "card (free_set (logical_byte c') ?l) = card (free_set (logical_byte c) ?l) + length xs"
    using card_Un_disjoint [OF finite_free_set, of "set xs"] distinct_card [OF is_chain_distinct [OF ch(1)]] by simp
  have "card (free_set (logical_byte c') ?l) \<le> card {2..<fat_limit ?l}"
    by (intro card_mono) (auto simp: free_set_def is_cluster_def fat_limit_def)
  then have le: "card (free_set (logical_byte c') ?l) \<le> ly_clusters ?l" by (simp add: fat_limit_def)
  moreover have "ly_clusters ?l \<le> U32_MAX"
    using v by (simp add: volume_ok_def layout_ok_def MAX_CLUSTERS_def U32_MAX_def)
  ultimately show "fat_ok (logical_byte c') f'"
    using inv card by (auto simp: fat_ok_def f' gave_def saturating_add_def)
qed

end

context answering_device
begin

lemma read_raw_ok:
  assumes v: "volume_ok l c" and u: "in_u64 c" and e: "copy < ly_fats l" "e < fat_limit l"
  shows "\<exists>v c'. read_raw B l c copy e = (Inr v, c')"
proof -
  have ok: "layout_ok l" "cache_ok c" "ly_sectors l * BLOCK \<le> blocks_of c * BLOCK"
    using v by (auto simp: volume_ok_def)
  have "fat_offset l copy e + 4 \<le> blocks_of c * BLOCK"
    using fat_offset_in(2) [OF ok(1) e [unfolded fat_limit_def]] data_start_in [OF ok(1)] ok(3) by linarith
  then obtain bs c' where "read_at B c (fat_offset l copy e) 4 = (Inr bs, c')" using read_at_ok [OF ok(2) u] by blast
  then show ?thesis by (simp add: read_raw_def)
qed

lemma fat_link_ok:
  assumes v: "volume_ok l c" and u: "in_u64 c" and cl: "is_cluster l cluster"
  shows "\<exists>c'. fat_link B l c cluster = (Inr (link_at (logical_byte c) l cluster), c')"
proof -
  have copy: "read_copy l < ly_fats l" using copies_in(1,2) v by (auto simp: volume_ok_def)
  have "cluster < fat_limit l" using cl by (auto simp: is_cluster_def fat_limit_def)
  from read_raw_ok [OF v u copy this] obtain w c' where "read_raw B l c (read_copy l) cluster = (Inr w, c')" by blast
  then have fl: "fat_link B l c cluster = (Inr (classify l w), c')" using cl by (simp add: fat_link_def)
  have "cache_ok c" using v by (simp add: volume_ok_def)
  from fat_link_spec(2) [OF this fl refl] fl show ?thesis by auto
qed

lemma walk_loop_answers:
  "volume_ok l c \<Longrightarrow> in_u64 c \<Longrightarrow> is_cluster l cluster \<Longrightarrow> walk_loop B l c n cluster = (r, c') \<Longrightarrow>
     (\<forall>e. r = Inl e \<longrightarrow> e = Corrupt)
     \<and> (\<forall>xs. is_chain (link_at (logical_byte c) l) xs \<and> hd xs = cluster \<and> n + length xs \<le> ly_clusters l + 1 \<longrightarrow>
          r = Inr (n + length xs - 1, last xs))"
proof (induction "ly_clusters l - n" arbitrary: c n cluster rule: less_induct)
  case less
  let ?lk = "link_at (logical_byte c) l"
  obtain c1 where ln: "fat_link B l c cluster = (Inr (?lk cluster), c1)"
    using fat_link_ok [OF less.prems(1-3)] by blast
  have k: "keeps c c1" using fat_link_spec(1) [OF _ ln] less.prems(1) by (simp add: volume_ok_def)
  note step = less.prems(4) [unfolded walk_loop.simps [of B l c n cluster] ln, simplified]
  have nil: "is_chain ?lk xs \<Longrightarrow> xs \<noteq> []" for xs by auto
  show ?case
  proof (cases "\<exists>nc. ?lk cluster = Next nc \<and> n < ly_clusters l")
    case True
    then obtain nc where nc: "?lk cluster = Next nc" "n < ly_clusters l" by blast
    have rec: "walk_loop B l c1 (n + 1) nc = (r, c')" using step nc by simp
    have "is_cluster l nc" using nc(1) classify_Next by (simp add: link_at_def)
    moreover have "ly_clusters l - (n + 1) < ly_clusters l - n" using nc(2) by simp
    ultimately have IH: "\<forall>e. r = Inl e \<longrightarrow> e = Corrupt"
      "\<forall>xs. is_chain ?lk xs \<and> hd xs = nc \<and> n + 1 + length xs \<le> ly_clusters l + 1 \<longrightarrow> r = Inr (n + 1 + length xs - 1, last xs)"
      using less.hyps [OF _ volume_ok_keeps [OF less.prems(1) k] _ _ rec] in_u64_keeps [OF k] less.prems(2) keeps_bytes [OF k]
      by auto
    have "r = Inr (n + length xs - 1, last xs)"
      if xs: "is_chain ?lk xs" "hd xs = cluster" "n + length xs \<le> ly_clusters l + 1" for xs
    proof -
      from xs(1,2) nc(1) obtain ys where ys: "xs = cluster # nc # ys" "is_chain ?lk (nc # ys)"
        by (cases "(?lk, xs)" rule: is_chain.cases) auto
      from IH(2) [rule_format, of "nc # ys"] ys xs(3) show ?thesis by simp
    qed
    with IH(1) show ?thesis by blast
  next
    case False
    have "r = Inr (n + length xs - 1, last xs)"
      if xs: "is_chain ?lk xs" "hd xs = cluster" "n + length xs \<le> ly_clusters l + 1" for xs
    proof -
      from xs(1,2) False xs(3) have "xs = [cluster] \<and> ?lk cluster = End"
        by (cases "(?lk, xs)" rule: is_chain.cases) auto
      with step show ?thesis by simp
    qed
    moreover have "\<forall>e. r = Inl e \<longrightarrow> e = Corrupt"
      using step False by (auto split: link.splits if_splits)
    ultimately show ?thesis by blast
  qed
qed

lemma write_raw_ok:
  assumes v: "volume_ok l c" and u: "in_u64 c" "ca_writable c" and e: "copy < ly_fats l" "e < fat_limit l"
  shows "\<exists>c'. write_raw B l c copy e w = (Inr (), c')"
proof -
  have ok: "layout_ok l" "cache_ok c" "ly_sectors l * BLOCK \<le> blocks_of c * BLOCK"
    using v by (auto simp: volume_ok_def)
  have "fat_offset l copy e + length (le_bytes32 w) \<le> blocks_of c * BLOCK"
    using fat_offset_in(2) [OF ok(1) e [unfolded fat_limit_def]] data_start_in [OF ok(1)] ok(3)
    unfolding length_le_bytes32 by linarith
  then obtain c' where "write_at B c (fat_offset l copy e) (le_bytes32 w) = (None, c')"
    using write_at_ok [OF ok(2) u(1) _ u(2)] by blast
  then show ?thesis by (simp add: write_raw_def)
qed

lemma in_u64_same: "blocks_of c' = blocks_of c \<Longrightarrow> in_u64 c' = in_u64 c"
  by (simp add: in_u64_def)

lemma set_copies_ok:
  "volume_ok l c \<Longrightarrow> in_u64 c \<Longrightarrow> ca_writable c \<Longrightarrow> cluster < fat_limit l \<Longrightarrow> set copies \<subseteq> {..<ly_fats l} \<Longrightarrow>
     \<exists>c'. set_copies B l c cluster v copies = (Inr (), c')"
proof (induction copies arbitrary: c)
  case (Cons copy copies)
  have copy: "copy < ly_fats l" using Cons.prems(5) by simp
  obtain old c1 where rr: "read_raw B l c copy cluster = (Inr old, c1)"
    using read_raw_ok [OF Cons.prems(1,2) copy Cons.prems(4)] by blast
  have k: "keeps c c1" using read_raw_spec(1) [OF _ rr] Cons.prems(1) by (simp add: volume_ok_def)
  let ?new = "(old AND RESERVED_BITS) OR (v AND FAT_MASK)"
  have v1: "volume_ok l c1" and u1: "in_u64 c1" "ca_writable c1"
    using volume_ok_keeps [OF Cons.prems(1) k] in_u64_keeps [OF k] Cons.prems(2,3) k by (auto simp: keeps_def)
  obtain c2 where ww: "write_raw B l c1 copy cluster ?new = (Inr (), c2)"
    using write_raw_ok [OF v1 u1 copy Cons.prems(4)] by blast
  note ws = write_raw_spec [OF v1 copy Cons.prems(4) [unfolded fat_limit_def] ww]
  obtain c' where "set_copies B l c2 cluster v copies = (Inr (), c')"
    using Cons.IH [OF ws(1)] in_u64_same [of c2 c1] ws(2) u1 Cons.prems(4,5) by auto
  then show ?case using rr ww by simp
qed simp

lemma fat_set_ok:
  assumes "volume_ok l c" "in_u64 c" "ca_writable c" "is_cluster l cluster"
  shows "\<exists>c'. fat_set B l c cluster v = (Inr (), c')"
proof -
  have "cluster < fat_limit l" using assms(4) by (auto simp: is_cluster_def fat_limit_def)
  moreover have "set (written_copies l) \<subseteq> {..<ly_fats l}" using copies_in(2) assms(1) by (simp add: volume_ok_def)
  ultimately show ?thesis using set_copies_ok [OF assms(1-3)] assms(4) by (simp add: fat_set_def)
qed

lemma free_loop_ok:
  "volume_ok l c \<Longrightarrow> in_u64 c \<Longrightarrow> ca_writable c \<Longrightarrow> is_chain (link_at (logical_byte c) l) xs \<Longrightarrow> is_cluster l (hd xs) \<Longrightarrow>
     \<exists>c'. free_loop B l c (hd xs) (length xs) = (Inr (), c')"
proof (induction xs arbitrary: c)
  case (Cons x xs)
  let ?lk = "link_at (logical_byte c) l"
  have x: "is_cluster l x" using Cons.prems(5) by simp
  obtain c1 where ln: "fat_link B l c x = (Inr (?lk x), c1)" using fat_link_ok [OF Cons.prems(1,2) x] by blast
  have k: "keeps c c1" using fat_link_spec(1) [OF _ ln] Cons.prems(1) by (simp add: volume_ok_def)
  have v1: "volume_ok l c1" and u1: "in_u64 c1" "ca_writable c1"
    using volume_ok_keeps [OF Cons.prems(1) k] in_u64_keeps [OF k] Cons.prems(2,3) k by (auto simp: keeps_def)
  obtain c2 where st: "fat_set B l c1 x FAT_FREE = (Inr (), c2)" using fat_set_ok [OF v1 u1 x] by blast
  note fs = fat_set_spec [OF v1 st, unfolded keeps_bytes [OF k]]
  show ?case
  proof (cases xs)
    case Nil
    then show ?thesis using ln st by simp
  next
    case (Cons y ys)
    have nx: "?lk x = Next y" "is_chain ?lk xs" using Cons.prems(4) Cons by simp_all
    have "x \<notin> set xs" using is_chain_distinct [OF Cons.prems(4)] by simp
    moreover have cl: "\<forall>e \<in> set (x # xs). is_cluster l e"
      by (rule is_chain_clusters [OF Cons.prems(4,5)])
    ultimately have "link_at (logical_byte c2) l e = ?lk e" if "e \<in> set xs" for e
      using fs(4) that by (auto simp: is_cluster_def)
    then have ch2: "is_chain (link_at (logical_byte c2) l) xs"
      using is_chain_cong [of xs "link_at (logical_byte c2) l"] nx(2) by blast
    have "is_cluster l (hd xs)" using cl Cons by simp
    then obtain c' where "free_loop B l c2 (hd xs) (length xs) = (Inr (), c')"
      using Cons.IH [OF fs(2) _ _ ch2] in_u64_same [of c2 c1] fs(5) u1 by auto
    then show ?thesis using ln st nx(1) Cons by simp
  qed
qed simp

end

section \<open>Properties\<close>

text \<open>C31 (chains): on a device that answers, \<open>walk\<close> ends and decides chains: when following the links
  from a cluster reaches an end mark, it returns how many clusters that took and the last of them,
  no cluster is met twice, and in every other case, a loop or a link to a free, bad or damaged entry,
  it reports corruption.\<close>

theorem walk_decides_chains:
  assumes "memory.volume_ok l c" "memory.blocks_of c * BLOCK \<le> U64_MAX"
  defines "lk \<equiv> link_at (memory.logical_byte c) l"
  shows "(\<forall>xs. is_chain lk xs \<and> hd xs = first \<and> is_cluster l first \<longrightarrow>
      fst (fat_walk memory_blocks l c first) = Inr (length xs, last xs) \<and> distinct xs)
    \<and> ((\<nexists>xs. is_chain lk xs \<and> hd xs = first \<and> is_cluster l first) \<longrightarrow>
      fst (fat_walk memory_blocks l c first) = Inl Corrupt)"
proof (cases "is_cluster l first")
  case True
  have u: "memory.in_u64 c" using assms(2) by (simp add: memory.in_u64_def)
  have ok: "memory.cache_ok c" using assms(1) by (simp add: memory.volume_ok_def)
  obtain r c' where w: "walk_loop memory_blocks l c 1 first = (r, c')" by fastforce
  then have fw: "fst (fat_walk memory_blocks l c first) = r" using True by (simp add: fat_walk_def)
  note ans = memory.walk_loop_answers [OF assms(1) u True w, folded lk_def]
  note spec = memory.walk_loop_spec [OF ok w, folded lk_def]
  have "r = Inr (length xs, last xs) \<and> distinct xs" if xs: "is_chain lk xs" "hd xs = first" for xs
  proof -
    have d: "distinct xs" by (rule is_chain_distinct [OF xs(1)])
    have "\<forall>x \<in> set xs. is_cluster l x" using is_chain_clusters xs True unfolding lk_def by blast
    from clusters_bound [OF d this] ans xs d show ?thesis by auto
  qed
  moreover have "r = Inl Corrupt" if none: "\<nexists>xs. is_chain lk xs \<and> hd xs = first \<and> is_cluster l first"
  proof (cases r)
    case (Inr p)
    then obtain m k where "r = Inr (m, k)" by (cases p) simp
    with spec none show ?thesis by blast
  qed (use ans in blast)
  ultimately show ?thesis using fw by blast
qed (auto simp: fat_walk_def)

definition sample_volume :: bytes where
  "sample_volume = (replicate 67108864 0)[16392 := 0xFF, 16393 := 0xFF, 16394 := 0xFF, 16395 := 0x0F]"

lemma cache_new_byte: "p div SECTOR < length d div SECTOR \<Longrightarrow> memory.logical_byte (cache_new d) p = d ! p"
proof -
  assume p: "p div SECTOR < length d div SECTOR"
  have "p mod SECTOR < SECTOR" by (simp add: SECTOR_def)
  moreover have "p div SECTOR * SECTOR + p mod SECTOR = p" by simp
  moreover have "p div SECTOR * SECTOR + SECTOR \<le> length d" using blocks_fit [of "p div SECTOR" 1 d] p by simp
  ultimately show ?thesis
    by (simp add: memory.logical_byte_def memory.logical_def cache_new_def data_disk_def BLOCK_SECTOR)
qed

lemma sample_volume_ok:
  "memory.volume_ok sample_layout (set_writable w (cache_new sample_volume))"
  "memory.blocks_of (set_writable w (cache_new sample_volume)) * BLOCK \<le> U64_MAX"
proof -
  have "memory.blocks_of (set_writable w (cache_new sample_volume)) = 131072"
    by (simp add: memory_blocks_of set_writable_def cache_new_def sample_volume_def SECTOR_def)
  moreover have "layout_ok sample_layout" "ly_sectors sample_layout = 131072"
    using boot_parse_ok [OF sample_boot_parse] by (simp_all add: sample_layout_def)
  ultimately show "memory.volume_ok sample_layout (set_writable w (cache_new sample_volume))"
    "memory.blocks_of (set_writable w (cache_new sample_volume)) * BLOCK \<le> U64_MAX"
    by (simp_all add: memory.volume_ok_def memory.set_writable_ok memory.cache_new_ok BLOCK_def U64_MAX_def)
qed

lemma sample_volume_byte:
  "p < 67108864 \<Longrightarrow> memory.logical_byte (set_writable w (cache_new sample_volume)) p = sample_volume ! p"
proof -
  assume "p < 67108864"
  then have "p div SECTOR < length sample_volume div SECTOR"
    by (simp add: sample_volume_def SECTOR_def)
  from cache_new_byte [OF this] show ?thesis
    by (simp add: memory.logical_byte_def memory.set_writable_ok)
qed

lemma sample_chain:
  "is_chain (link_at (memory.logical_byte (set_writable w (cache_new sample_volume))) sample_layout) [2]"
proof -
  have "fat_entry (memory.logical_byte (set_writable w (cache_new sample_volume))) sample_layout 0 2 = 0x0FFFFFFF"
    by (simp add: fat_entry_def fat_offset_def sample_layout_def BLOCK_def sample_volume_byte Let_def)
      (simp add: sample_volume_def u32_of_bytes_def)
  then show ?thesis
    by (simp add: link_at_def read_copy_def sample_layout_def classify_def FAT_MASK_def FAT_FREE_def FAT_BAD_def
        END_MIN_def is_cluster_def)
qed

theorem walk_decides_chains_witness:
  "fst (fat_walk memory_blocks sample_layout (set_writable False (cache_new sample_volume)) 2) = Inr (1, 2)"
proof -
  have "is_cluster sample_layout 2" by (simp add: is_cluster_def sample_layout_def)
  with walk_decides_chains [OF sample_volume_ok, of False 2] sample_chain [of False] show ?thesis by fastforce
qed

text \<open>C17 (setting an entry): on a device that answers, setting a cluster's entry in a writable volume
  succeeds and changes that entry in exactly the copies that are written, keeping the reserved high
  four bits of each; every other entry of every copy, and every byte outside the table, stays.\<close>

theorem set_changes_one_entry:
  assumes "memory.volume_ok l c" "memory.blocks_of c * BLOCK \<le> U64_MAX" "ca_writable c" "is_cluster l cluster"
  shows "\<exists>c'. fat_set memory_blocks l c cluster v = (Inr (), c') \<and> memory.volume_ok l c'
    \<and> (\<forall>copy < ly_fats l. \<forall>e < fat_limit l. fat_entry (memory.logical_byte c') l copy e =
        (if copy \<in> set (written_copies l) \<and> e = cluster
         then (fat_entry (memory.logical_byte c) l copy e AND RESERVED_BITS) OR (v AND FAT_MASK)
         else fat_entry (memory.logical_byte c) l copy e))
    \<and> (\<forall>p < ly_sectors l * BLOCK. p < ly_fat_start l * BLOCK \<or> ly_data_start l * BLOCK \<le> p \<longrightarrow>
        memory.logical_byte c' p = memory.logical_byte c p)"
proof -
  have "memory.in_u64 c" using assms(2) by (simp add: memory.in_u64_def)
  then obtain c' where s: "fat_set memory_blocks l c cluster v = (Inr (), c')"
    using memory.fat_set_ok [OF assms(1) _ assms(3,4)] by blast
  show ?thesis
    using s memory.fat_set_spec(2,3) [OF assms(1) s] unfolding memory.entry_changed_def fat_limit_def by blast
qed

theorem set_changes_one_entry_witness:
  "\<exists>c'. fat_set memory_blocks sample_layout (set_writable True (cache_new sample_volume)) 3 FAT_LAST = (Inr (), c')"
proof -
  have w: "ca_writable (set_writable True (cache_new sample_volume))" by (simp add: set_writable_def)
  have cl: "is_cluster sample_layout 3" by (simp add: is_cluster_def sample_layout_def)
  show ?thesis using set_changes_one_entry [OF sample_volume_ok w cl, of FAT_LAST] by blast
qed

text \<open>Freeing a chain: on a device that answers, freeing a chain succeeds, every cluster of it is
  free afterwards and no other link changes, and a free count that was exact stays exact.\<close>

theorem free_chain_frees:
  assumes "memory.volume_ok (ft_layout f) c" "memory.blocks_of c * BLOCK \<le> U64_MAX" "ca_writable c"
    and "fat_ok (memory.logical_byte c) f"
    and "is_chain (link_at (memory.logical_byte c) (ft_layout f)) xs" "is_cluster (ft_layout f) (hd xs)"
  shows "\<exists>f' c'. free_chain memory_blocks f c (hd xs) (length xs) = ((None, f'), c')
    \<and> (\<forall>e < fat_limit (ft_layout f). link_at (memory.logical_byte c') (ft_layout f) e =
        (if e \<in> set xs then Free else link_at (memory.logical_byte c) (ft_layout f) e))
    \<and> fat_ok (memory.logical_byte c') f'"
proof -
  have "memory.in_u64 c" using assms(2) by (simp add: memory.in_u64_def)
  then obtain c' where "free_loop memory_blocks (ft_layout f) c (hd xs) (length xs) = (Inr (), c')"
    using memory.free_loop_ok [OF assms(1) _ assms(3,5,6)] by blast
  then have f: "free_chain memory_blocks f c (hd xs) (length xs) = ((None, gave (length xs) f), c')"
    by (simp add: free_chain_def)
  show ?thesis using f memory.free_chain_spec(2,4) [OF assms(1,4-6) f] by blast
qed

theorem free_chain_frees_witness:
  "\<exists>f' c'. free_chain memory_blocks (fat_new sample_layout 0) (set_writable True (cache_new sample_volume)) 2 1
    = ((None, f'), c') \<and> link_at (memory.logical_byte c') sample_layout 2 = Free"
proof -
  let ?f = "fat_new sample_layout 0" and ?c = "set_writable True (cache_new sample_volume)"
  have w: "ca_writable ?c" by (simp add: set_writable_def)
  have l: "ft_layout ?f = sample_layout" by (simp add: fat_new_def)
  have f: "fat_ok (memory.logical_byte ?c) ?f" "is_cluster (ft_layout ?f) (hd [2])"
    by (simp_all add: fat_ok_def fat_new_def is_cluster_def sample_layout_def)
  have lim: "2 < fat_limit sample_layout" by (simp add: fat_limit_def sample_layout_def)
  from free_chain_frees [of ?f ?c "[2]", unfolded l, OF sample_volume_ok w f(1) sample_chain f(2) [unfolded l]] lim
  show ?thesis unfolding l by auto
qed

text \<open>Counting and finding: whatever the device does, a count that \<open>free_count\<close> returns is the number
  of free clusters, and the clusters \<open>find_free\<close> appends are distinct, free, and as many as asked for
  or all there are; both only read, and what is kept in memory stays exact.\<close>

theorem free_clusters_found:
  assumes "recorder.cache_ok c" "fat_ok (recorder.logical_byte c) f"
    and "find_free recorder_blocks f c want out = (r, out', f', c')"
    and "free_count recorder_blocks f c = (rn, f1, c1)"
  defines "free \<equiv> free_set (recorder.logical_byte c) (ft_layout f)"
  shows "(r = None \<longrightarrow> (\<exists>fs. out' = out @ fs \<and> distinct fs \<and> set fs \<subseteq> free \<and> length fs = min want (card free))
      \<and> fat_ok (recorder.logical_byte c') f')
    \<and> recorder.logical c' = recorder.logical c \<and> recorder.cache_ok c'
    \<and> (\<forall>n. rn = Inr n \<longrightarrow> n = card free \<and> ft_free f1 = Some n)
    \<and> recorder.logical c1 = recorder.logical c \<and> fat_ok (recorder.logical_byte c1) f1"
proof -
  note ff = recorder.find_free_spec [OF assms(1-3)] and fc = recorder.free_count_spec [OF assms(1,2,4)]
  have b: "recorder.logical_byte c' = recorder.logical_byte c" using ff recorder.keeps_bytes by blast
  have b1: "recorder.logical_byte c1 = recorder.logical_byte c" by (rule recorder.keeps_bytes [OF fc(1)])
  show ?thesis using ff fc unfolding b b1 free_def recorder.keeps_def by blast
qed

text \<open>A table of one cluster in the second sector of the sample device.\<close>

definition tiny_layout :: layout where
  "tiny_layout = sample_layout\<lparr>ly_fat_start := 1, ly_fat_blocks := 1, ly_clusters := 1\<rparr>"

lemma tiny_link: "link_at (recorder.logical_byte (cache_new sample_recorder)) tiny_layout 2 \<noteq> Free"
proof -
  have byte: "recorder.logical_byte (cache_new sample_recorder) p = 7" if "p < 1024" for p
  proof -
    have "p mod 512 < min 512 (1024 - p div 512 * 512)" 
      using that div_mult_mod_eq [of p 512] mod_less_divisor [of 512 p] unfolding min_less_iff_conj by linarith
    then show ?thesis
      by (simp add: recorder.logical_byte_def recorder.logical_def cache_new_def data_disk_def sample_recorder_def
          SECTOR_def BLOCK_def)
  qed
  show ?thesis
    by (simp add: link_at_def fat_entry_def fat_offset_def read_copy_def tiny_layout_def sample_layout_def BLOCK_def byte
        u32_of_bytes_def classify_def FAT_MASK_def FAT_FREE_def Let_def)
qed

lemma tiny_free_set: "free_set (recorder.logical_byte (cache_new sample_recorder)) tiny_layout = {}"
proof -
  have "e = 2" if "is_cluster tiny_layout e" for e using that by (auto simp: is_cluster_def tiny_layout_def)
  then show ?thesis using tiny_link by (auto simp: free_set_def)
qed

theorem free_clusters_found_witness:
  "let c = cache_new sample_recorder; f = \<lparr>ft_layout = tiny_layout, ft_free = Some 0, ft_cursor = 2\<rparr> in
     fst (find_free recorder_blocks f c 5 []) = None \<and> fst (free_count recorder_blocks f c) = Inr 0
     \<and> card (free_set (recorder.logical_byte c) tiny_layout) = 0"
proof -
  let ?c = "cache_new sample_recorder" and ?f = "\<lparr>ft_layout = tiny_layout, ft_free = Some 0, ft_cursor = 2\<rparr>"
  have ok: "fat_ok (recorder.logical_byte ?c) ?f"
    by (simp add: fat_ok_def tiny_free_set) (simp add: is_cluster_def tiny_layout_def)
  have ff: "find_free recorder_blocks ?f ?c 5 [] = (None, [], ?f, ?c)" by (simp add: find_free_def)
  have fc: "free_count recorder_blocks ?f ?c = (Inr 0, ?f, ?c)" by (simp add: free_count_def)
  from free_clusters_found [OF recorder.cache_new_ok ok ff fc] ff fc show ?thesis by (simp add: Let_def)
qed

text \<open>C32 (scanning): \<open>scan\<close>, which reads up to 256 sectors at a time and skips the entries before the
  first and after the last it was asked for, has the effect of calling its closure on each entry in
  turn until it returns false.\<close>

theorem scan_is_reference:
  assumes "recorder.cache_ok c" "scan recorder_blocks l c start to visit s = (r, s', c')"
  shows "r = None \<longrightarrow> s' = fst (visit_all visit (link_at (recorder.logical_byte c) l) [start..<min to (fat_limit l)] s)"
  using recorder.scan_spec(2) [OF assms] by blast

theorem scan_is_reference_witness:
  "fst (visit_all count_free (link_at (recorder.logical_byte (cache_new sample_recorder)) tiny_layout) [2..<3] 4) = 4"
proof -
  let ?c = "cache_new sample_recorder" and ?l = tiny_layout
  let ?lk = "link_at (recorder.logical_byte ?c) ?l"
  have off: "fat_offset ?l (read_copy ?l) 0 = 512"
    by (simp add: fat_offset_def read_copy_def tiny_layout_def sample_layout_def BLOCK_def)
  have n: "scan_blocks 2 3 = 1" "2 div ENTRIES_PER_BLOCK = 0" "ENTRIES_PER_BLOCK = 128"
    by (simp_all add: scan_blocks_def SCAN_BLOCKS_def ENTRIES_PER_BLOCK_def BLOCK_def)
  have bs: "replicate 512 7 = map (recorder.logical_byte ?c) [fat_offset ?l (read_copy ?l) 0..<fat_offset ?l (read_copy ?l) 0 + 1 * BLOCK]"
    using recorder.read_at_spec [OF recorder.cache_new_ok sample_recorder_read] by (simp add: off BLOCK_def)
  have "[max 2 0..<min 3 (0 + 1 * ENTRIES_PER_BLOCK)] = [2 :: nat]" by (simp add: n upt_rec)
  with scan_sector [OF bs, of count_free 2 3 4]
  have ent: "scan_entries ?l count_free 2 3 0 (chunks_exact 4 512 (replicate 512 7)) 4 = (4, True)"
    using tiny_link by (simp add: count_free_def)
  have "min 3 (ly_clusters ?l + 2) = 3" by (simp add: tiny_layout_def)
  moreover have "read_at recorder_blocks ?c 512 (1 * BLOCK) = (Inr (replicate 512 7), ?c)"
    using sample_recorder_read by (simp add: BLOCK_def)
  ultimately have "scan recorder_blocks ?l ?c 2 3 count_free 4 = (None, 4, ?c)"
    using off ent by (simp only: scan_def) (simp add: n scan_loop.simps Let_def)
  moreover have "min 3 (fat_limit ?l) = 3" by (simp add: fat_limit_def tiny_layout_def)
  ultimately show ?thesis using scan_is_reference [OF recorder.cache_new_ok] by metis
qed

end
