(* ===== verification/Fat_Name.thy ===== *)
theory Fat_Name
  imports Fat_Table_Correct
begin

text \<open>
  \<open>kernel/src/storage/fat/name.rs\<close>: which names FAT holds, comparing them, short names and long-name
  entries.  A Rust string is the list of its characters, each a Unicode scalar value (\<open>nat\<close>); the
  UTF-8 bytes the code counts and the UTF-16 units it stores are computed from them.
\<close>

section \<open>Characters and encodings\<close>

definition scalar :: "nat \<Rightarrow> bool" where
  "scalar c \<longleftrightarrow> c < 0xD800 \<or> (0xE000 \<le> c \<and> c < 0x110000)"

definition len_utf16 :: "nat \<Rightarrow> nat" where
  "len_utf16 c = (if c < 0x10000 then 1 else 2)"

definition encode_utf16 :: "nat \<Rightarrow> u16 list" where
  "encode_utf16 c =
     (if c < 0x10000 then [word_of_nat c]
      else [word_of_nat (0xD800 + (c - 0x10000) div 1024), word_of_nat (0xDC00 + (c - 0x10000) mod 1024)])"

definition units_of :: "ustring \<Rightarrow> u16 list" where
  "units_of name = concat (map encode_utf16 name)"

text \<open>\<open>char::decode_utf16\<close> up to its first error.\<close>

fun decode_utf16 :: "u16 list \<Rightarrow> ustring option" where
  "decode_utf16 [] = Some []"
| "decode_utf16 (u # us) =
     (if u < 0xD800 \<or> 0xDFFF < u then map_option ((#) (unat u)) (decode_utf16 us)
      else if 0xDC00 \<le> u then None
      else case us of
        [] \<Rightarrow> None
      | u2 # rest \<Rightarrow>
          if u2 < 0xDC00 \<or> 0xDFFF < u2 then None
          else map_option ((#) ((unat u - 0xD800) * 1024 + (unat u2 - 0xDC00) + 0x10000)) (decode_utf16 rest))"

definition utf8 :: "nat \<Rightarrow> bytes" where
  "utf8 c =
     (if c < 0x80 then [word_of_nat c]
      else if c < 0x800 then [word_of_nat (0xC0 + c div 64), word_of_nat (0x80 + c mod 64)]
      else if c < 0x10000 then
        [word_of_nat (0xE0 + c div 4096), word_of_nat (0x80 + c div 64 mod 64), word_of_nat (0x80 + c mod 64)]
      else [word_of_nat (0xF0 + c div 262144), word_of_nat (0x80 + c div 4096 mod 64),
            word_of_nat (0x80 + c div 64 mod 64), word_of_nat (0x80 + c mod 64)])"

definition str_bytes :: "ustring \<Rightarrow> bytes" where
  "str_bytes s = concat (map utf8 s)"

definition to_ascii_uppercase :: "nat \<Rightarrow> nat" where
  "to_ascii_uppercase c = (if 97 \<le> c \<and> c \<le> 122 then c - 32 else c)"

definition to_ascii_lowercase :: "nat \<Rightarrow> nat" where
  "to_ascii_lowercase c = (if 65 \<le> c \<and> c \<le> 90 then c + 32 else c)"

definition is_ascii :: "ustring \<Rightarrow> bool" where
  "is_ascii s \<longleftrightarrow> list_all (\<lambda>c. c < 128) s"

definition rsplit_once :: "nat \<Rightarrow> ustring \<Rightarrow> (ustring \<times> ustring) option" where
  "rsplit_once d s =
     (case dropWhile (\<lambda>c. c \<noteq> d) (rev s) of
        [] \<Rightarrow> None
      | _ # before \<Rightarrow> Some (rev before, rev (takeWhile (\<lambda>c. c \<noteq> d) (rev s))))"

section \<open>Definitions\<close>

type_synonym short = bytes

definition MAX_UNITS :: nat where "MAX_UNITS = 255"
definition UNITS_PER_ENTRY :: nat where "UNITS_PER_ENTRY = 13"
definition MAX_LONG_ENTRIES :: nat where "MAX_LONG_ENTRIES = 20"
definition UNIT_AT :: "nat list" where "UNIT_AT = [1, 3, 5, 7, 9, 14, 16, 18, 20, 22, 24, 28, 30]"
definition LAST_LONG_ENTRY :: u8 where "LAST_LONG_ENTRY = 0x40"
definition LOWER_BASE :: u8 where "LOWER_BASE = 0x08"
definition LOWER_EXT :: u8 where "LOWER_EXT = 0x10"
definition MAX_TAIL :: nat where "MAX_TAIL = 999999"
definition ATTR_LONG_NAME :: u8 where "ATTR_LONG_NAME = 0x0F"

definition key :: "ustring \<Rightarrow> ustring" where
  "key name = rev (dropWhile (\<lambda>c. c = 46) (rev name))"

definition same_name :: "ustring \<Rightarrow> ustring \<Rightarrow> bool" where
  "same_name a b \<longleftrightarrow> map to_ascii_lowercase (key a) = map to_ascii_lowercase (key b)"

text \<open>The control characters and the punctuation \<open>vfat_bad_char\<close> refuses.\<close>

definition bad_char :: "nat \<Rightarrow> bool" where
  "bad_char c \<longleftrightarrow> c < 0x20 \<or> c \<in> set [42, 63, 60, 62, 124, 34, 58, 47, 92]"

definition check_name :: "ustring \<Rightarrow> fs_error + ustring" where
  "check_name name =
     (let kept = key name in
      if sum_list (map len_utf16 kept) > MAX_UNITS then Inl NameTooLong
      else if kept = [] \<or> last kept = 32 then Inl BadName
      else if list_ex bad_char kept then Inl BadName
      else Inr kept)"

definition name_checksum :: "short \<Rightarrow> u8" where
  "name_checksum short = fold (\<lambda>byte sum. word_rotr 1 sum + byte) short 0"

text \<open>Upper-case letters, digits and \<open>! # $ % & ' ( ) - @ ^ _ ` { } ~\<close>.\<close>

definition short_char :: "u8 \<Rightarrow> bool" where
  "short_char b \<longleftrightarrow> (65 \<le> b \<and> b \<le> 90) \<or> (48 \<le> b \<and> b \<le> 57)
     \<or> b \<in> set [33, 35, 36, 37, 38, 39, 40, 41, 45, 64, 94, 95, 96, 123, 125, 126]"

definition exact_short :: "ustring \<Rightarrow> short option" where
  "exact_short name =
     (case (case rsplit_once 46 name of
              Some (base, ext) \<Rightarrow> if ext \<noteq> [] then Some (base, ext) else None
            | None \<Rightarrow> Some (name, [])) of
        None \<Rightarrow> None
      | Some (base, ext) \<Rightarrow>
          if base = [] \<or> length (str_bytes base) > 8 \<or> length (str_bytes ext) > 3 \<or> 46 \<in> set base then None
          else if \<not> list_all short_char (str_bytes base @ str_bytes ext) then None
          else Some (put_bytes (put_bytes (replicate 11 32) 0 (str_bytes base)) 8 (str_bytes ext)))"

definition CP437_HIGH :: "nat list" where
  "CP437_HIGH =
    [199, 252, 233, 226, 228, 224, 229, 231, 234, 235, 232, 239, 238, 236, 196, 197,
     201, 230, 198, 244, 246, 242, 251, 249, 255, 214, 220, 162, 163, 165, 8359, 402,
     225, 237, 243, 250, 241, 209, 170, 186, 191, 8976, 172, 189, 188, 161, 171, 187,
     9617, 9618, 9619, 9474, 9508, 9569, 9570, 9558, 9557, 9571, 9553, 9559, 9565, 9564, 9563, 9488,
     9492, 9524, 9516, 9500, 9472, 9532, 9566, 9567, 9562, 9556, 9577, 9574, 9568, 9552, 9580, 9575,
     9576, 9572, 9573, 9561, 9560, 9554, 9555, 9579, 9578, 9496, 9484, 9608, 9604, 9612, 9616, 9600,
     945, 223, 915, 960, 931, 963, 181, 964, 934, 920, 937, 948, 8734, 966, 949, 8745,
     8801, 177, 8805, 8804, 8992, 8993, 247, 8776, 176, 8729, 183, 8730, 8319, 178, 9632, 160]"

definition oem_char :: "u8 \<Rightarrow> bool \<Rightarrow> nat option" where
  "oem_char b lower =
     (if b < 0x20 \<or> b = 47 then None
      else if b < 0x80 then Some (if lower then to_ascii_lowercase (unat b) else unat b)
      else Some (CP437_HIGH ! (unat b - 0x80)))"

text \<open>The prefix up to the last byte that is not a space.\<close>

definition unpadded :: "bytes \<Rightarrow> bytes" where
  "unpadded bs = rev (dropWhile (\<lambda>b. b = 32) (rev bs))"

fun oem_string :: "bool \<Rightarrow> bytes \<Rightarrow> ustring option" where
  "oem_string lower [] = Some []"
| "oem_string lower (b # bs) =
     (case oem_char b lower of None \<Rightarrow> None | Some c \<Rightarrow> map_option ((#) c) (oem_string lower bs))"

definition shown :: "short \<Rightarrow> u8 \<Rightarrow> ustring option" where
  "shown short lower =
     (let base = unpadded ((if short ! 0 = 0x05 then 0xE5 else short ! 0) # take 7 (drop 1 short));
          ext = unpadded (drop 8 short)
      in if base = [] then None
         else case oem_string (lower AND LOWER_BASE \<noteq> 0) base of
           None \<Rightarrow> None
         | Some b \<Rightarrow>
             (case (if ext = [] then Some []
                    else map_option ((#) 46) (oem_string (lower AND LOWER_EXT \<noteq> 0) ext)) of
                None \<Rightarrow> None
              | Some e \<Rightarrow> if b @ e = [46] \<or> b @ e = [46, 46] then None else Some (b @ e)))"

record basis =
  bs_base :: bytes
  bs_base_len :: nat
  bs_ext :: bytes
  bs_ext_len :: nat

definition basis_byte :: "nat \<Rightarrow> u8 option" where
  "basis_byte c =
     (if c = 32 \<or> c = 46 then None
      else let upper = to_ascii_uppercase c in
        if upper < 128 \<and> short_char (word_of_nat upper) then Some (word_of_nat upper) else Some 95)"

text \<open>A loop that fills an array until it is full.\<close>

definition fill :: "nat \<Rightarrow> ustring \<Rightarrow> bytes \<times> nat" where
  "fill n part =
     (let bs = take n (List.map_filter basis_byte part) in (bs @ replicate (n - length bs) 32, length bs))"

definition basis_of :: "ustring \<Rightarrow> basis" where
  "basis_of name =
     (let (base_part, ext_part) =
        (case rsplit_once 46 name of
           Some (before, after) \<Rightarrow> if list_ex (\<lambda>c. c \<noteq> 46 \<and> c \<noteq> 32) before then (before, after) else (name, [])
         | None \<Rightarrow> (name, []));
          (base, base_len) = fill 8 base_part;
          (ext, ext_len) = fill 3 ext_part
      in if base_len = 0
         then \<lparr>bs_base = 95 # replicate 7 32, bs_base_len = 1, bs_ext = ext, bs_ext_len = ext_len\<rparr>
         else \<lparr>bs_base = base, bs_base_len = base_len, bs_ext = ext, bs_ext_len = ext_len\<rparr>)"

text \<open>The digits of a number, the lowest first, and at most seven of them.\<close>

function tail_digits :: "nat \<Rightarrow> nat \<Rightarrow> bytes" where
  "tail_digits n k =
     word_of_nat (48 + n mod 10) # (if n div 10 = 0 \<or> k + 1 \<ge> 7 then [] else tail_digits (n div 10) (k + 1))"
  by pat_completeness auto

termination tail_digits
  by (relation "measure (\<lambda>(n, k). 7 - k)") auto

declare tail_digits.simps [simp del]

definition with_tail :: "basis \<Rightarrow> nat \<Rightarrow> short" where
  "with_tail b n =
     (let digits = tail_digits n 0; k = length digits;
          keep = min (bs_base_len b) (8 - (k + 1));
          s1 = put_bytes (replicate 11 32) 0 (take keep (bs_base b));
          at = length (take keep (bs_base b));
          s2 = put8 s1 at 126;
          s3 = put_bytes s2 (at + 1) (rev digits)
      in put_bytes s3 8 (take (bs_ext_len b) (bs_ext b)))"

definition short_name :: "ustring \<Rightarrow> (short \<Rightarrow> bool) \<Rightarrow> (short \<times> bool) option" where
  "short_name name taken =
     (case (case exact_short name of Some s \<Rightarrow> if \<not> taken s then Some (s, False) else None | None \<Rightarrow> None) of
        Some r \<Rightarrow> Some r
      | None \<Rightarrow>
          (case (if is_ascii name then
                   (case exact_short (map to_ascii_uppercase name) of
                      Some s \<Rightarrow> if \<not> taken s then Some (s, True) else None
                    | None \<Rightarrow> None)
                 else None) of
             Some r \<Rightarrow> Some r
           | None \<Rightarrow>
               map_option (\<lambda>s. (s, True))
                 (List.find (\<lambda>s. \<not> taken s) (map (with_tail (basis_of name)) [1..<MAX_TAIL + 1]))))"

definition entry_unit :: "u16 list \<Rightarrow> nat \<Rightarrow> u16" where
  "entry_unit units i = (if i < length units then units ! i else if i = length units then 0 else 0xFFFF)"

definition long_entry :: "u16 list \<Rightarrow> u8 \<Rightarrow> nat \<Rightarrow> nat \<Rightarrow> bytes" where
  "long_entry units chk n ord =
     (let flag = (if ord = n then LAST_LONG_ENTRY else 0);
          e = put8 (put8 (put8 (replicate 32 0) 0 (word_of_nat ord OR flag)) 11 ATTR_LONG_NAME) 13 chk;
          start = (ord - 1) * UNITS_PER_ENTRY
      in fold (\<lambda>(k, at) e. put16 e at (entry_unit units (start + k))) (zip [0..<UNITS_PER_ENTRY] UNIT_AT) e)"

definition long_entries :: "u16 list \<Rightarrow> u8 \<Rightarrow> bytes list" where
  "long_entries units chk =
     (let n = min (div_ceil (length units) UNITS_PER_ENTRY) MAX_LONG_ENTRIES in
      map (long_entry units chk n) (rev [1..<n + 1]))"

definition entry_units :: "bytes \<Rightarrow> u16 list" where
  "entry_units e = map (le16 e) UNIT_AT"

definition from_units :: "u16 list \<Rightarrow> ustring option" where
  "from_units units =
     (case decode_utf16 units of
        None \<Rightarrow> None
      | Some s \<Rightarrow> if list_ex (\<lambda>c. c = 47 \<or> c = 0) s \<or> s = [] \<or> s = [46] \<or> s = [46, 46] then None else Some s)"

section \<open>UTF-16\<close>

lemma unat_u16: "c < 0x10000 \<Longrightarrow> unat (word_of_nat c :: u16) = c"
  by (simp add: unat_of_nat)

lemma decode_encode: "scalar c \<Longrightarrow> decode_utf16 (encode_utf16 c @ us) = map_option ((#) c) (decode_utf16 us)"
proof (cases "c < 0x10000")
  case True
  assume "scalar c"
  with True have "(word_of_nat c :: u16) < 0xD800 \<or> 0xDFFF < (word_of_nat c :: u16)"
    by (auto simp: scalar_def word_less_nat_alt unat_u16)
  with True show ?thesis by (simp add: encode_utf16_def unat_u16)
next
  case False
  assume "scalar c"
  then have "c < 0x110000" by (auto simp: scalar_def)
  define hi where "hi = (c - 0x10000) div 1024"
  define lo where "lo = (c - 0x10000) mod 1024"
  have hi: "hi < 1024" using \<open>c < 0x110000\<close> by (simp add: hi_def less_mult_imp_div_less)
  have lo: "lo < 1024" by (simp add: lo_def)
  have c: "hi * 1024 + lo + 0x10000 = c" using False by (simp add: hi_def lo_def)
  have "unat (word_of_nat (0xD800 + hi) :: u16) = 0xD800 + hi" using hi by (intro unat_u16) simp
  moreover have "unat (word_of_nat (0xDC00 + lo) :: u16) = 0xDC00 + lo" using lo by (intro unat_u16) simp
  ultimately show ?thesis using hi lo c False
    by (simp add: encode_utf16_def hi_def [symmetric] lo_def [symmetric] word_less_nat_alt word_le_nat_alt)
qed

lemma decode_units: "list_all scalar s \<Longrightarrow> decode_utf16 (units_of s) = Some s"
  by (induction s) (simp_all add: units_of_def decode_encode)

lemma length_units_of: "length (units_of s) = sum_list (map len_utf16 s)"
  by (induction s) (auto simp: units_of_def encode_utf16_def len_utf16_def)

lemma units_nonzero: "list_all scalar s \<Longrightarrow> 0 \<notin> set s \<Longrightarrow> 0 \<notin> set (units_of s)"
proof -
  have "(0 :: u16) \<notin> set (encode_utf16 c)" if "scalar c" "c \<noteq> 0" for c
  proof
    assume "(0 :: u16) \<in> set (encode_utf16 c)"
    then consider "c < 0x10000" "(word_of_nat c :: u16) = 0"
      | "\<not> c < 0x10000" "(word_of_nat (0xD800 + (c - 0x10000) div 1024) :: u16) = 0"
      | "\<not> c < 0x10000" "(word_of_nat (0xDC00 + (c - 0x10000) mod 1024) :: u16) = 0"
      by (auto simp: encode_utf16_def split: if_splits)
    then show False
    proof cases
      case 1
      with unat_u16 [of c] that(2) show False by simp
    next
      case 2
      have "(c - 0x10000) div 1024 < 1024" using that(1) by (auto simp: scalar_def less_mult_imp_div_less)
      with 2 unat_u16 [of "0xD800 + (c - 0x10000) div 1024"] show False by simp
    next
      case 3
      have "(c - 0x10000) mod 1024 < 1024" by simp
      with 3 unat_u16 [of "0xDC00 + (c - 0x10000) mod 1024"] show False by simp
    qed
  qed
  then show "list_all scalar s \<Longrightarrow> 0 \<notin> set s \<Longrightarrow> 0 \<notin> set (units_of s)"
    by (induction s) (auto simp: units_of_def)
qed

section \<open>Long-name entries\<close>

lemma long_entry_length: "length (long_entry units chk n ord) = 32"
proof -
  have len: "length (fold (\<lambda>(k, at) e. put16 e at (f k)) ks e) = length e" for ks f e
    by (induction ks arbitrary: e) auto
  show ?thesis unfolding long_entry_def Let_def by (simp only: len length_put8 length_replicate)
qed

lemma long_entry_fields:
  fixes units :: "u16 list" and chk :: u8 and n ord :: nat
  defines "e \<equiv> long_entry units chk n ord"
  shows "e ! 0 = word_of_nat ord OR (if ord = n then LAST_LONG_ENTRY else 0)" "e ! 11 = ATTR_LONG_NAME" "e ! 13 = chk"
    "entry_units e = map (\<lambda>k. entry_unit units ((ord - 1) * UNITS_PER_ENTRY + k)) [0..<UNITS_PER_ENTRY]"
proof -
  have z: "zip [0..<UNITS_PER_ENTRY] UNIT_AT =
      [(0, 1), (1, 3), (2, 5), (3, 7), (4, 9), (5, 14), (6, 16), (7, 18), (8, 20), (9, 22), (10, 24), (11, 28), (12, 30)]"
    by (simp add: UNITS_PER_ENTRY_def UNIT_AT_def upt_rec)
  let ?u = "\<lambda>k. entry_unit units ((ord - 1) * UNITS_PER_ENTRY + k)"
  have max: "32 \<le> U64_MAX" by (simp add: U64_MAX_def)
  have len: "length (long_entry units chk n ord) = 32" by (rule long_entry_length)
  define e0 where "e0 = put8 (put8 (put8 (replicate 32 0) 0 (word_of_nat ord OR (if ord = n then LAST_LONG_ENTRY else 0)))
    11 ATTR_LONG_NAME) 13 chk"
  have l0: "length e0 = 32" by (simp add: e0_def)
  have e: "e = fold (\<lambda>(k, at) e. put16 e at (?u k))
      [(0, 1), (1, 3), (2, 5), (3, 7), (4, 9), (5, 14), (6, 16), (7, 18), (8, 20), (9, 22), (10, 24), (11, 28), (12, 30)] e0"
    by (simp only: e_def long_entry_def Let_def z e0_def)
  show "e ! 0 = word_of_nat ord OR (if ord = n then LAST_LONG_ENTRY else 0)"
    unfolding e by (simp add: put16_eq l0 max) (simp add: e0_def put8_def)
  show "e ! 11 = ATTR_LONG_NAME"
    unfolding e by (simp add: put16_eq l0 max) (simp add: e0_def put8_def)
  show "e ! 13 = chk"
    unfolding e by (simp add: put16_eq l0 max) (simp add: e0_def put8_def)
  have "entry_units e = map ?u [0, 1, 2, 3, 4, 5, 6, 7, 8, 9, 10, 11, 12]"
    unfolding entry_units_def UNIT_AT_def e
    by (simp add: put16_eq l0 max le16_eq u16_bytes)
  moreover have "[0..<UNITS_PER_ENTRY] = [0, 1, 2, 3, 4, 5, 6, 7, 8, 9, 10, 11, 12]"
    by (simp add: UNITS_PER_ENTRY_def upt_rec)
  ultimately show "entry_units e = map ?u [0..<UNITS_PER_ENTRY]" by (simp only:)
qed

section \<open>Short names\<close>

lemma put_bytes_fit:
  assumes "at + length vs \<le> length bs" "length bs \<le> U64_MAX"
  shows "put_bytes bs at vs = take at bs @ vs @ drop (at + length vs) bs"
  using assms
proof (induction vs rule: rev_induct)
  case (snoc v vs)
  have "put_bytes bs at (vs @ [v]) = put8 (put_bytes bs at vs) (saturating_add U64_MAX at (length vs)) v"
    by (simp add: put_bytes_def)
  moreover have "saturating_add U64_MAX at (length vs) = at + length vs" using snoc.prems by (simp add: saturating_add_def)
  moreover have "drop (at + length vs) bs = bs ! (at + length vs) # drop (at + length vs + 1) bs"
    using snoc.prems by (simp add: Cons_nth_drop_Suc)
  ultimately show ?case using snoc by (simp add: put8_def list_update_append)
qed (simp add: put_bytes_def)

lemma unpadded_spaces: "bs = [] \<or> last bs \<noteq> 32 \<Longrightarrow> unpadded (bs @ replicate k 32) = bs"
proof -
  have "dropWhile (\<lambda>b. b = 32) (replicate k 32 @ xs) = dropWhile (\<lambda>b. b = 32) xs" for xs :: bytes
    by (induction k) auto
  then show "bs = [] \<or> last bs \<noteq> 32 \<Longrightarrow> ?thesis"
    by (cases bs rule: rev_cases) (auto simp: unpadded_def)
qed

lemma utf8_small: "list_all (\<lambda>b. b < 128) (utf8 c) \<Longrightarrow> c < 0x110000 \<Longrightarrow> c < 128"
proof (rule ccontr)
  assume small: "list_all (\<lambda>b. b < 128) (utf8 c)" and "c < 0x110000" "\<not> c < 128"
  have lead: "\<not> (word_of_nat n :: u8) < 128" if "128 \<le> n" "n < 256" for n
    using that by (simp add: word_less_nat_alt unat_of_nat)
  have "c div 64 < 32" if "c < 0x800" using that by (simp add: less_mult_imp_div_less)
  moreover have "c div 4096 < 16" if "c < 0x10000" using that by (simp add: less_mult_imp_div_less)
  moreover have "c div 262144 < 5" using \<open>c < 0x110000\<close> by (simp add: less_mult_imp_div_less)
  ultimately show False using small \<open>\<not> c < 128\<close> lead [of "0xC0 + c div 64"] lead [of "0xE0 + c div 4096"] lead [of "0xF0 + c div 262144"]
    by (auto simp: utf8_def split: if_splits)
qed

lemma short_char_facts: "short_char b \<Longrightarrow> 32 < b \<and> b < 128 \<and> b \<noteq> 46 \<and> b \<noteq> 47"
  by (auto simp: short_char_def word_less_nat_alt word_le_nat_alt)

text \<open>A string whose bytes are all allowed in a short name is ASCII, and is its bytes.\<close>

lemma str_bytes_short:
  "list_all scalar s \<Longrightarrow> list_all short_char (str_bytes s) \<Longrightarrow>
     str_bytes s = map word_of_nat s \<and> list_all (\<lambda>c. c < 128) s"
proof (induction s)
  case (Cons c s)
  have "list_all (\<lambda>b. b < 128) (utf8 c)"
    using Cons.prems(2) short_char_facts by (auto simp: str_bytes_def list_all_iff)
  moreover have "c < 0x110000" using Cons.prems(1) by (auto simp: scalar_def)
  ultimately have "c < 128" by (rule utf8_small)
  then show ?case using Cons by (simp add: str_bytes_def utf8_def)
qed (simp add: str_bytes_def)

lemma oem_string_short:
  "list_all (\<lambda>c. c < 128) s \<Longrightarrow> list_all short_char (map word_of_nat s) \<Longrightarrow> oem_string False (map word_of_nat s) = Some s"
proof (induction s)
  case (Cons c s)
  have "unat (word_of_nat c :: u8) = c" using Cons.prems(1) by (simp add: unat_of_nat)
  moreover have "\<not> (word_of_nat c :: u8) < 0x20" "(word_of_nat c :: u8) \<noteq> 47" "(word_of_nat c :: u8) < 0x80"
    using Cons.prems(2) short_char_facts [of "word_of_nat c"] by auto
  ultimately show ?case using Cons by (simp add: oem_char_def)
qed simp

lemma rsplit_once_SomeD: "rsplit_once d s = Some (a, b) \<Longrightarrow> s = a @ d # b \<and> d \<notin> set b"
proof -
  assume r: "rsplit_once d s = Some (a, b)"
  then obtain x before where dw: "dropWhile (\<lambda>c. c \<noteq> d) (rev s) = x # before" "a = rev before"
    "b = rev (takeWhile (\<lambda>c. c \<noteq> d) (rev s))" by (auto simp: rsplit_once_def split: list.splits)
  have "x = d" using dropWhile_eq_Cons_conv [THEN iffD1, OF dw(1)] by auto
  moreover have "rev s = takeWhile (\<lambda>c. c \<noteq> d) (rev s) @ x # before"
    using takeWhile_dropWhile_id [of "\<lambda>c. c \<noteq> d" "rev s"] dw(1) by simp
  then have "s = rev before @ x # rev (takeWhile (\<lambda>c. c \<noteq> d) (rev s))" by (metis rev.simps(2) rev_append rev_rev_ident append_assoc append_Cons append_Nil)
  moreover have "d \<notin> set b" using dw(3) by (auto dest: set_takeWhileD)
  ultimately show ?thesis using dw(2,3) by simp
qed

lemma rsplit_once_NoneD: "rsplit_once d s = None \<Longrightarrow> d \<notin> set s"
  by (auto simp: rsplit_once_def dropWhile_eq_Nil_conv split: list.splits)

lemma short_filled:
  assumes "length base \<le> 8" "length ext \<le> 3"
  shows "put_bytes (put_bytes (replicate 11 32) 0 base) 8 ext
    = base @ replicate (8 - length base) 32 @ ext @ replicate (3 - length ext) 32"
proof -
  have max: "11 \<le> U64_MAX" by (simp add: U64_MAX_def)
  have one: "put_bytes (replicate 11 32) 0 base = base @ replicate (11 - length base) 32"
    using put_bytes_fit [of 0 base "replicate 11 32"] assms(1) max by simp
  show ?thesis
    unfolding one using put_bytes_fit [of 8 ext "base @ replicate (11 - length base) 32"] assms max by simp
qed

text \<open>The parts of a short name laid out as \<open>short_filled\<close> lays it out.\<close>

lemma shown_filled:
  assumes "length base \<le> 8" "length ext \<le> 3" "base \<noteq> []" "list_all short_char base" "list_all short_char ext"
  defines "s \<equiv> base @ replicate (8 - length base) 32 @ ext @ replicate (3 - length ext) 32"
  shows "unpadded ((if s ! 0 = 0x05 then 0xE5 else s ! 0) # take 7 (drop 1 s)) = base" "unpadded (drop 8 s) = ext"
proof -
  obtain b bs where b: "base = b # bs" using assms(3) by (cases base) auto
  have "32 < b" using assms(4) b short_char_facts [of b] by simp
  then have "b \<noteq> 5" by (auto simp: word_less_nat_alt)
  then have first: "(if s ! 0 = 0x05 then 0xE5 else s ! 0) # take 7 (drop 1 s) = base @ replicate (8 - length base) 32"
    using assms(1) b by (simp add: s_def)
  have "x \<noteq> 32" if "short_char x" for x using short_char_facts [OF that] by auto
  then have "last base \<noteq> 32" "ext = [] \<or> last ext \<noteq> 32"
    using assms(3-5) last_in_set [of base] last_in_set [of ext] by (auto simp: list_all_iff)
  then show "unpadded ((if s ! 0 = 0x05 then 0xE5 else s ! 0) # take 7 (drop 1 s)) = base" "unpadded (drop 8 s) = ext"
    unfolding first using assms(1) by (simp_all add: unpadded_spaces s_def)
qed

lemma exact_short_shape:
  assumes sc: "list_all scalar name" and e: "exact_short name = Some s"
  obtains base ext where "name = (if ext = [] then base else base @ 46 # ext)" "base \<noteq> []" "46 \<notin> set base"
    "length base \<le> 8" "length ext \<le> 3" "list_all (\<lambda>c. c < 128) (base @ ext)"
    "list_all short_char (map word_of_nat (base @ ext))"
    "s = map word_of_nat base @ replicate (8 - length base) 32 @ map word_of_nat ext @ replicate (3 - length ext) 32"
proof -
  obtain base ext where be: "(case rsplit_once 46 name of Some (base, ext) \<Rightarrow> if ext \<noteq> [] then Some (base, ext) else None
      | None \<Rightarrow> Some (name, [])) = Some (base, ext)"
    using e by (auto simp: exact_short_def split: option.splits)
  have name: "name = (if ext = [] then base else base @ 46 # ext)"
    using be rsplit_once_SomeD by (auto split: option.splits if_splits)
  have c: "base \<noteq> []" "length (str_bytes base) \<le> 8" "length (str_bytes ext) \<le> 3" "46 \<notin> set base"
    "list_all short_char (str_bytes base)" "list_all short_char (str_bytes ext)"
    "s = put_bytes (put_bytes (replicate 11 32) 0 (str_bytes base)) 8 (str_bytes ext)"
    using e be by (auto simp: exact_short_def split: if_splits)
  have "list_all scalar base" "list_all scalar ext" using sc name by (auto split: if_splits)
  with str_bytes_short c(5,6) have sb: "str_bytes base = map word_of_nat base" "list_all (\<lambda>c. c < 128) base"
    "str_bytes ext = map word_of_nat ext" "list_all (\<lambda>c. c < 128) ext" by blast+
  show thesis
    using that [of ext base] name c sb short_filled [of "str_bytes base" "str_bytes ext"] by simp
qed

lemma exact_short_shown:
  assumes "list_all scalar name" "exact_short name = Some s"
  shows "shown s 0 = Some name" "length s = 11"
proof -
  obtain base ext where p: "name = (if ext = [] then base else base @ 46 # ext)" "base \<noteq> []" "46 \<notin> set base"
    "length base \<le> 8" "length ext \<le> 3" "list_all (\<lambda>c. c < 128) (base @ ext)"
    "list_all short_char (map word_of_nat (base @ ext))"
    "s = map word_of_nat base @ replicate (8 - length base) 32 @ map word_of_nat ext @ replicate (3 - length ext) 32"
    using exact_short_shape [OF assms] by metis
  show "length s = 11" using p(4,5,8) by simp
  have parts: "unpadded ((if s ! 0 = 0x05 then 0xE5 else s ! 0) # take 7 (drop 1 s)) = map word_of_nat base"
    "unpadded (drop 8 s) = map word_of_nat ext"
    using shown_filled [of "map word_of_nat base" "map word_of_nat ext"] p(2,4,5,7) unfolding p(8) length_map map_append list_all_append
    by simp_all
  have oem: "oem_string False (map word_of_nat base) = Some base" "oem_string False (map word_of_nat ext) = Some ext"
    using oem_string_short p(6,7) by simp_all
  have "name \<noteq> [46]" "name \<noteq> [46, 46]" using p(1-3) by (cases base; auto split: if_splits)+
  then show "shown s 0 = Some name"
    unfolding shown_def Let_def parts using oem p(1,2) by (auto split: if_splits)
qed

lemma unat_u8: "c < 256 \<Longrightarrow> unat (word_of_nat c :: u8) = c"
  by (simp add: unat_of_nat)

lemma tail_digits_props:
  "k < 7 \<Longrightarrow> tail_digits n k \<noteq> [] \<and> length (tail_digits n k) \<le> 7 - k \<and> (\<forall>d \<in> set (tail_digits n k). 48 \<le> d \<and> d \<le> 57)"
proof (induction n k rule: tail_digits.induct)
  case (1 n k)
  have m: "n mod 10 < 10" by simp
  then have "48 \<le> (word_of_nat (48 + n mod 10) :: u8) \<and> (word_of_nat (48 + n mod 10) :: u8) \<le> 57"
    using unat_u8 [of "48 + n mod 10"] unfolding word_le_nat_alt by simp
  with 1 show ?case by (subst (1 2 3) tail_digits.simps) auto
qed

definition digits_value :: "bytes \<Rightarrow> nat" where
  "digits_value ds = foldr (\<lambda>d v. (unat d - 48) + 10 * v) ds 0"

lemma tail_digits_value: "k < 7 \<Longrightarrow> n < 10 ^ (7 - k) \<Longrightarrow> digits_value (tail_digits n k) = n"
proof (induction n k rule: tail_digits.induct)
  case (1 n k)
  have "n mod 10 < 10" by simp
  then have d: "unat (word_of_nat (48 + n mod 10) :: u8) - 48 = n mod 10" using unat_u8 [of "48 + n mod 10"] by simp
  show ?case
  proof (cases "n div 10 = 0 \<or> k + 1 \<ge> 7")
    case True
    have "n < 10"
    proof (cases "n div 10 = 0")
      case False
      with True 1(2,3) have "7 - k = 1" by simp
      with 1(3) show ?thesis by simp
    qed (simp add: div_eq_0_iff)
    with True d show ?thesis by (subst tail_digits.simps) (simp add: digits_value_def)
  next
    case False
    have "7 - k = Suc (7 - (k + 1))" using False by linarith
    then have "n < 10 * 10 ^ (7 - (k + 1))" using 1(3) by (simp only: power_Suc)
    then have "n div 10 < 10 ^ (7 - (k + 1))" by (simp add: less_mult_imp_div_less mult.commute)
    with False 1 have "digits_value (tail_digits (n div 10) (k + 1)) = n div 10" by simp
    with False d show ?thesis by (subst tail_digits.simps) (simp add: digits_value_def)
  qed
qed

lemma basis_shape:
  "length (bs_base (basis_of name)) = 8" "length (bs_ext (basis_of name)) = 3"
  "0 < bs_base_len (basis_of name)" "bs_base_len (basis_of name) \<le> 8" "bs_ext_len (basis_of name) \<le> 3"
proof -
  have fill: "length (fst (fill n part)) = n" "snd (fill n part) \<le> n" for n part
    by (simp_all add: fill_def Let_def)
  obtain bp ep where parts: "(case rsplit_once 46 name of
           Some (before, after) \<Rightarrow> if list_ex (\<lambda>c. c \<noteq> 46 \<and> c \<noteq> 32) before then (before, after) else (name, [])
         | None \<Rightarrow> (name, [])) = (bp, ep)" by fastforce
  obtain b bl where b: "fill 8 bp = (b, bl)" by fastforce
  obtain e el where e: "fill 3 ep = (e, el)" by fastforce
  have "length b = 8" "bl \<le> 8" "length e = 3" "el \<le> 3" using fill [of 8 bp] fill [of 3 ep] b e by simp_all
  then show "length (bs_base (basis_of name)) = 8" "length (bs_ext (basis_of name)) = 3"
    "0 < bs_base_len (basis_of name)" "bs_base_len (basis_of name) \<le> 8" "bs_ext_len (basis_of name) \<le> 3"
    unfolding basis_of_def parts Let_def by (simp_all add: b e)
qed

lemma put_bytes_mid:
  assumes "length xs = at" "length ys = length vs" "length (xs @ ys @ zs) \<le> U64_MAX"
  shows "put_bytes (xs @ ys @ zs) at vs = xs @ vs @ zs"
  using put_bytes_fit [of at vs "xs @ ys @ zs"] assms by simp

lemma tail_layout:
  assumes "p + 1 + length ds + pad = 8" "length pre = p" "length ext + rest = 3"
  shows "put_bytes (put_bytes (put8 (put_bytes (replicate 11 32) 0 pre) p 126) (p + 1) ds) 8 ext
    = pre @ 126 # ds @ replicate pad 32 @ ext @ replicate rest 32"
proof -
  have max: "11 \<le> U64_MAX" by (simp add: U64_MAX_def)
  have "replicate 11 (32 :: u8) = replicate p 32 @ 32 # replicate (length ds) 32 @ replicate (pad + 3) 32"
    unfolding replicate_add [symmetric] replicate_Suc [symmetric] by (rule arg_cong [of _ _ "\<lambda>n. replicate n 32"]) (use assms(1) in simp)
  then have "put_bytes (replicate 11 32) 0 pre = pre @ 32 # replicate (length ds) 32 @ replicate (pad + 3) 32"
    using put_bytes_fit [of 0 pre "replicate 11 32"] assms(1,2) max by simp
  then have "put8 (put_bytes (replicate 11 32) 0 pre) p 126 = (pre @ [126]) @ replicate (length ds) 32 @ replicate (pad + 3) 32"
    using assms(2) by (simp add: put8_def list_update_append)
  moreover have "put_bytes ((pre @ [126]) @ replicate (length ds) 32 @ replicate (pad + 3) 32) (p + 1) ds
      = (pre @ [126]) @ ds @ replicate (pad + 3) 32"
    using assms(1,2) max by (intro put_bytes_mid) simp_all
  moreover have "(pre @ [126]) @ ds @ replicate (pad + 3) 32 = (pre @ 126 # ds @ replicate pad 32) @ replicate (length ext) 32 @ replicate rest 32"
    unfolding assms(3) [symmetric] by (simp add: replicate_add)
  moreover have "put_bytes ((pre @ 126 # ds @ replicate pad 32) @ replicate (length ext) 32 @ replicate rest 32) 8 ext
      = (pre @ 126 # ds @ replicate pad 32) @ ext @ replicate rest 32"
    using assms max by (intro put_bytes_mid) simp_all
  ultimately show ?thesis by simp
qed

lemma with_tail_shape:
  assumes "length (bs_base b) = 8" "length (bs_ext b) = 3" "bs_base_len b \<le> 8" "bs_ext_len b \<le> 3"
  obtains prefix pad rest where "with_tail b n = prefix @ 126 # rev (tail_digits n 0) @ replicate pad 32 @ rest"
    "length (prefix @ 126 # rev (tail_digits n 0) @ replicate pad 32) = 8" "length rest = 3"
    "prefix = [] \<or> hd prefix = hd (bs_base b)"
proof -
  define ds where "ds = tail_digits n 0"
  define keep where "keep = min (bs_base_len b) (8 - (length ds + 1))"
  define pre where "pre = take keep (bs_base b)"
  define ext where "ext = take (bs_ext_len b) (bs_ext b)"
  have "length ds \<le> 7" using tail_digits_props [of 0 n] by (simp add: ds_def)
  then have le: "keep + 1 + length ds \<le> 8" by (simp add: keep_def)
  then obtain pad where pad: "keep + 1 + length ds + pad = 8" using le_Suc_ex by metis
  have pre: "length pre = keep" using le assms(1) by (simp add: pre_def)
  have first: "pre = [] \<or> hd pre = hd (bs_base b)"
    by (cases keep; cases "bs_base b") (simp_all add: pre_def)
  have ext: "length ext + (3 - bs_ext_len b) = 3" using assms(2,4) by (simp add: ext_def)
  have "with_tail b n = put_bytes (put_bytes (put8 (put_bytes (replicate 11 32) 0 pre) keep 126) (keep + 1) (rev ds)) 8 ext"
    unfolding with_tail_def Let_def ds_def [symmetric] keep_def [symmetric] pre_def [symmetric] ext_def [symmetric] pre ..
  also have "\<dots> = pre @ 126 # rev ds @ replicate pad 32 @ (ext @ replicate (3 - bs_ext_len b) 32)"
    using tail_layout [OF _ pre ext, of "rev ds" pad] pad by simp
  finally show thesis
    using that [of pre pad "ext @ replicate (3 - bs_ext_len b) 32"] pad pre ext first unfolding ds_def [symmetric]
    by simp
qed

lemma take_append_left: "length xs = n \<Longrightarrow> take n (xs @ ys) = xs"
  by simp

lemma with_tail_inj: "inj_on (with_tail (basis_of name)) {1..MAX_TAIL}"
proof (rule inj_onI)
  fix n m assume nm: "n \<in> {1..MAX_TAIL}" "m \<in> {1..MAX_TAIL}" and eq: "with_tail (basis_of name) n = with_tail (basis_of name) m"
  have digits: "takeWhile (\<lambda>b. b \<noteq> 126) (rev (unpadded (take 8 (with_tail (basis_of name) k)))) = tail_digits k 0" for k
  proof -
    obtain prefix pad rest where s: "with_tail (basis_of name) k = prefix @ 126 # rev (tail_digits k 0) @ replicate pad 32 @ rest"
      "length (prefix @ 126 # rev (tail_digits k 0) @ replicate pad 32) = 8" "length rest = 3"
      using with_tail_shape basis_shape by metis
    have ds: "tail_digits k 0 \<noteq> []" "\<forall>d \<in> set (tail_digits k 0). 48 \<le> d \<and> d \<le> 57" using tail_digits_props [of 0 k] by auto
    have t: "take 8 (with_tail (basis_of name) k) = (prefix @ 126 # rev (tail_digits k 0)) @ replicate pad 32"
      unfolding s(1) using take_append_left [OF s(2), of rest] by simp
    have "48 \<le> hd (tail_digits k 0)" using ds hd_in_set by blast
    then have "hd (tail_digits k 0) \<noteq> 32" by (auto simp: word_le_nat_alt)
    then have "last (prefix @ 126 # rev (tail_digits k 0)) \<noteq> 32" using ds(1) by (simp add: last_rev)
    then have "unpadded (take 8 (with_tail (basis_of name) k)) = prefix @ 126 # rev (tail_digits k 0)"
      unfolding t by (intro unpadded_spaces) simp
    moreover have "\<forall>d \<in> set (tail_digits k 0). d \<noteq> 126" using ds(2) by (auto simp: word_le_nat_alt)
    ultimately show ?thesis by (simp add: takeWhile_append2)
  qed
  have "tail_digits n 0 = tail_digits m 0" using digits [of n] digits [of m] eq by simp
  moreover have "digits_value (tail_digits k 0) = k" if "k \<in> {1..MAX_TAIL}" for k
    using that by (intro tail_digits_value) (simp_all add: MAX_TAIL_def)
  ultimately show "n = m" using nm by metis
qed

lemma short_name_cases:
  assumes "short_name name taken = Some (s, long)"
  shows "\<not> taken s" "\<not> long \<Longrightarrow> exact_short name = Some s"
    "long \<Longrightarrow> exact_short (map to_ascii_uppercase name) = Some s \<and> is_ascii name \<or> (\<exists>n \<in> {1..MAX_TAIL}. s = with_tail (basis_of name) n)"
proof -
  have find: "\<not> taken s \<and> (\<exists>n \<in> {1..MAX_TAIL}. s = with_tail (basis_of name) n)"
    if "List.find (\<lambda>s. \<not> taken s) (map (with_tail (basis_of name)) [1..<MAX_TAIL + 1]) = Some s"
    using that by (auto simp: find_Some_iff simp del: upt_Suc)
  show "\<not> taken s" "\<not> long \<Longrightarrow> exact_short name = Some s"
    "long \<Longrightarrow> exact_short (map to_ascii_uppercase name) = Some s \<and> is_ascii name \<or> (\<exists>n \<in> {1..MAX_TAIL}. s = with_tail (basis_of name) n)"
    using assms find by (auto simp: short_name_def split: option.splits if_splits)
qed

lemma scalar_upper: "list_all scalar name \<Longrightarrow> list_all scalar (map to_ascii_uppercase name)"
  by (induction name) (auto simp: scalar_def to_ascii_uppercase_def)

lemma basis_first: "short_char (hd (bs_base (basis_of name)))"
proof -
  have byte: "short_char b" if "basis_byte c = Some b" for b c
    using that by (auto simp: basis_byte_def Let_def short_char_def split: if_splits)
  have fill: "short_char (hd (fst (fill 8 part)))" if "snd (fill 8 part) \<noteq> 0" for part
  proof -
    let ?bs = "take 8 (List.map_filter basis_byte part)"
    have "snd (fill 8 part) = length ?bs" by (simp only: fill_def Let_def snd_conv)
    then have ne: "?bs \<noteq> []" using that by (metis list.size(3))
    have "hd ?bs \<in> set (List.map_filter basis_byte part)" by (rule in_set_takeD [OF hd_in_set [OF ne]])
    moreover have "\<exists>c. basis_byte c = Some x" if "x \<in> set (List.map_filter basis_byte part)" for x
      using that unfolding List.map_filter_def by auto
    ultimately obtain c where "basis_byte c = Some (hd ?bs)" by blast
    then have "short_char (hd ?bs)" by (rule byte)
    moreover have "fst (fill 8 part) = ?bs @ replicate (8 - length ?bs) 32" by (simp only: fill_def Let_def fst_conv)
    ultimately show ?thesis using ne hd_append2 by metis
  qed
  obtain bp ep where parts: "(case rsplit_once 46 name of
           Some (before, after) \<Rightarrow> if list_ex (\<lambda>c. c \<noteq> 46 \<and> c \<noteq> 32) before then (before, after) else (name, [])
         | None \<Rightarrow> (name, [])) = (bp, ep)" by fastforce
  obtain b bl where b: "fill 8 bp = (b, bl)" by fastforce
  obtain e el where e: "fill 3 ep = (e, el)" by fastforce
  show ?thesis using fill [of bp]
    unfolding basis_of_def parts Let_def by (simp add: b e short_char_def)
qed

lemma short_name_first:
  assumes "list_all scalar name" "short_name name taken = Some (s, long)"
  shows "length s = 11 \<and> short_char (hd s)"
proof -
  have exact: "length s = 11 \<and> short_char (hd s)" if ex: "list_all scalar n" "exact_short n = Some s" for n
  proof -
    obtain base ext where p: "base \<noteq> []" "list_all short_char (map word_of_nat (base @ ext))"
      "s = map word_of_nat base @ replicate (8 - length base) 32 @ map word_of_nat ext @ replicate (3 - length ext) 32"
      using exact_short_shape [OF ex] by metis
    then show ?thesis using exact_short_shown(2) [OF ex] by (cases base) auto
  qed
  have tail: "length (with_tail (basis_of name) k) = 11 \<and> short_char (hd (with_tail (basis_of name) k))" for k
  proof -
    obtain prefix pad rest where w: "with_tail (basis_of name) k = prefix @ 126 # rev (tail_digits k 0) @ replicate pad 32 @ rest"
      "length (prefix @ 126 # rev (tail_digits k 0) @ replicate pad 32) = 8" "length rest = 3"
      "prefix = [] \<or> hd prefix = hd (bs_base (basis_of name))"
      using with_tail_shape basis_shape by metis
    have "short_char (hd (with_tail (basis_of name) k))"
      using w(4) basis_first unfolding w(1) by (cases prefix) (auto simp: short_char_def)
    then show ?thesis using w(1-3) by simp
  qed
  show ?thesis
    using short_name_cases [OF assms(2)] exact [OF assms(1)] exact [OF scalar_upper [OF assms(1)]] tail
    by (cases long) auto
qed

section \<open>Properties\<close>

text \<open>C19 (short names): in a directory with fewer short names than there are numeric tails, \<open>short_name\<close>
  finds a short name for every name; it is eleven bytes and no other entry uses it, and when no
  long-name entries go with it, it reads back as exactly the name asked for.\<close>

theorem short_name_total:
  assumes "list_all scalar name" "finite {s. taken s}" "card {s. taken s} < MAX_TAIL"
  shows "\<exists>s long. short_name name taken = Some (s, long) \<and> \<not> taken s \<and> length s = 11
    \<and> (\<not> long \<longrightarrow> shown s 0 = Some name)"
proof -
  let ?cands = "with_tail (basis_of name) ` {1..MAX_TAIL}"
  have "card ?cands = MAX_TAIL" using card_image [OF with_tail_inj] by simp
  then have "\<not> ?cands \<subseteq> {s. taken s}" using card_mono [OF assms(2), of ?cands] assms(3) by linarith
  then obtain x where "x \<in> ?cands" "\<not> taken x" by blast
  then obtain n where n: "1 \<le> n" "n \<le> MAX_TAIL" "\<not> taken (with_tail (basis_of name) n)" by auto
  then have "List.find (\<lambda>s. \<not> taken s) (map (with_tail (basis_of name)) [1..<MAX_TAIL + 1]) \<noteq> None"
    by (auto simp: find_None_iff simp del: upt_Suc)
  then have "short_name name taken \<noteq> None" by (auto simp: short_name_def split: option.split)
  then obtain s long where s: "short_name name taken = Some (s, long)" by auto
  note cs = short_name_cases [OF s]
  have "length s = 11" using short_name_first [OF assms(1) s] by simp
  then show ?thesis using s cs(1,2) exact_short_shown(1) [OF assms(1)] by blast
qed

theorem short_name_total_witness:
  "\<exists>s long. short_name [97, 46, 98] (\<lambda>_. False) = Some (s, long) \<and> length s = 11"
  using short_name_total [of "[97, 46, 98]" "\<lambda>_. False"] by (auto simp: scalar_def MAX_TAIL_def)

end
