(* ===== verification/Fat_Dir.thy ===== *)
theory Fat_Dir
  imports Fat_Name Fat_Time
begin

text \<open>
  \<open>kernel/src/storage/fat/dir.rs\<close>: the 32-byte entries of a directory, walking its slots, putting long
  names together, and finding room.  The loops of \<open>find\<close>, \<open>is_empty\<close> and \<open>survey\<close> over the items of a
  scan are one loop with their bodies as visitors.
\<close>

section \<open>Entries\<close>

definition ENTRY_BYTES :: nat where "ENTRY_BYTES = 32"
definition MAX_ENTRIES :: nat where "MAX_ENTRIES = 65536"
definition SLOTS_PER_SECTOR :: nat where "SLOTS_PER_SECTOR = 16"
definition ATTR_VOLUME_ID :: u8 where "ATTR_VOLUME_ID = 0x08"
definition ATTR_DIRECTORY :: u8 where "ATTR_DIRECTORY = 0x10"
definition ATTR_LONG_NAME_MASK :: u8 where "ATTR_LONG_NAME_MASK = 0x3F"
definition FREE_MARK :: u8 where "FREE_MARK = 0xE5"
definition END_MARK :: u8 where "END_MARK = 0"
definition DOT :: short where "DOT = 46 # replicate 10 32"
definition DOTDOT :: short where "DOTDOT = 46 # 46 # replicate 9 32"

type_synonym raw = bytes

definition raw_byte :: "raw \<Rightarrow> nat \<Rightarrow> u8" where
  "raw_byte r at = (if at < length r then r ! at else 0)"

definition raw_short :: "raw \<Rightarrow> short" where
  "raw_short r = take 11 r"

definition raw_set_short :: "raw \<Rightarrow> short \<Rightarrow> u8 \<Rightarrow> raw" where
  "raw_set_short r short lower = put8 (take (length r) short @ drop (length short) r) 12 lower"

definition raw_attr :: "raw \<Rightarrow> u8" where "raw_attr r = raw_byte r 11"
definition raw_set_attr :: "raw \<Rightarrow> u8 \<Rightarrow> raw" where "raw_set_attr r attr = put8 r 11 attr"
definition raw_lower :: "raw \<Rightarrow> u8" where "raw_lower r = raw_byte r 12"
definition raw_checksum :: "raw \<Rightarrow> u8" where "raw_checksum r = raw_byte r 13"

definition raw_is_long :: "raw \<Rightarrow> bool" where
  "raw_is_long r \<longleftrightarrow> raw_attr r AND ATTR_LONG_NAME_MASK = ATTR_LONG_NAME"

definition raw_is_volume :: "raw \<Rightarrow> bool" where
  "raw_is_volume r \<longleftrightarrow> \<not> raw_is_long r \<and> raw_attr r AND ATTR_VOLUME_ID \<noteq> 0"

definition raw_is_dir :: "raw \<Rightarrow> bool" where
  "raw_is_dir r \<longleftrightarrow> raw_attr r AND ATTR_DIRECTORY \<noteq> 0"

definition raw_cluster :: "raw \<Rightarrow> u32" where
  "raw_cluster r = push_bit 16 (ucast (le16 r 20)) OR ucast (le16 r 26)"

definition raw_set_cluster :: "raw \<Rightarrow> u32 \<Rightarrow> raw" where
  "raw_set_cluster r cluster = put16 (put16 r 20 (ucast (drop_bit 16 cluster))) 26 (ucast cluster)"

definition raw_size :: "raw \<Rightarrow> u32" where "raw_size r = le32 r 28"
definition raw_set_size :: "raw \<Rightarrow> u32 \<Rightarrow> raw" where "raw_set_size r n = put32 r 28 n"

definition raw_modified :: "raw \<Rightarrow> int" where
  "raw_modified r = stamp_decode (le16 r 24) (le16 r 22)"

definition raw_set_modified :: "raw \<Rightarrow> stamp \<Rightarrow> raw" where
  "raw_set_modified r s = put16 (put16 r 22 (st_time s)) 24 (st_date s)"

definition raw_take_contents :: "raw \<Rightarrow> raw \<Rightarrow> raw" where
  "raw_take_contents r other =
     map (\<lambda>at. if at \<ge> 11 \<and> at \<noteq> 12 \<and> at < length other then other ! at else r ! at) [0..<length r]"

definition raw_new :: "short \<Rightarrow> u8 \<Rightarrow> u32 \<Rightarrow> u32 \<Rightarrow> stamp \<Rightarrow> raw" where
  "raw_new short attr cluster n s =
     (let r = raw_set_short (replicate 32 0) short 0;
          r = put8 r 11 attr;
          r = put8 r 13 (st_hundredths s);
          r = put16 r 14 (st_time s);
          r = put16 r 16 (st_date s);
          r = put16 r 18 (st_date s);
          r = raw_set_cluster r cluster;
          r = raw_set_modified r s
      in raw_set_size r n)"

section \<open>Walking the slots\<close>

record slots =
  ss_cluster :: nat
  ss_within :: nat
  ss_per_cluster :: nat
  ss_index :: nat

definition slots_new :: "layout \<Rightarrow> nat \<Rightarrow> fs_error + slots" where
  "slots_new l first =
     (if \<not> is_cluster l first then Inl Corrupt
      else Inr \<lparr>ss_cluster = first, ss_within = 0, ss_per_cluster = ly_cluster_bytes l div ENTRY_BYTES, ss_index = 0\<rparr>)"

text \<open>The slot at hand, once the cluster it is in is known.\<close>

definition slots_here ::
  "'d blocks \<Rightarrow> layout \<Rightarrow> 'd cache \<Rightarrow> slots \<Rightarrow> (fs_error + (nat \<times> nat \<times> raw) option) \<times> slots \<times> 'd cache" where
  "slots_here B l c s =
     (if ss_index s \<ge> MAX_ENTRIES then (Inl Corrupt, s, c)
      else case cluster_offset l (ss_cluster s) of
        None \<Rightarrow> (Inl Corrupt, s, c)
      | Some base \<Rightarrow>
          (let at = base + ss_within s * ENTRY_BYTES in
           case read_at B c at 32 of
             (Inl e, c') \<Rightarrow> (Inl (fs_of_cache e), s, c')
           | (Inr bs, c') \<Rightarrow>
               (Inr (Some (ss_index s, at, bs)), s\<lparr>ss_index := ss_index s + 1, ss_within := ss_within s + 1\<rparr>, c')))"

definition slots_next ::
  "'d blocks \<Rightarrow> layout \<Rightarrow> 'd cache \<Rightarrow> slots \<Rightarrow> (fs_error + (nat \<times> nat \<times> raw) option) \<times> slots \<times> 'd cache" where
  "slots_next B l c s =
     (if ss_within s \<ge> ss_per_cluster s then
        (case fat_next B l c (ss_cluster s) of
           (Inl e, c') \<Rightarrow> (Inl e, s, c')
         | (Inr None, c') \<Rightarrow> (Inr None, s, c')
         | (Inr (Some next), c') \<Rightarrow> slots_here B l c' (s\<lparr>ss_cluster := next, ss_within := 0\<rparr>))
      else slots_here B l c s)"

text \<open>Passing whole clusters by their links, and the positions from there.\<close>

fun skip_clusters :: "'d blocks \<Rightarrow> layout \<Rightarrow> 'd cache \<Rightarrow> nat \<Rightarrow> nat \<Rightarrow> (nat option, 'd) fat_result" where
  "skip_clusters B l c cluster 0 = (Inr (Some cluster), c)"
| "skip_clusters B l c cluster (Suc k) =
     (case fat_next B l c cluster of
        (Inl e, c') \<Rightarrow> (Inl e, c')
      | (Inr None, c') \<Rightarrow> (Inr None, c')
      | (Inr (Some next), c') \<Rightarrow> skip_clusters B l c' next k)"

fun positions_loop ::
  "'d blocks \<Rightarrow> layout \<Rightarrow> nat \<Rightarrow> nat \<Rightarrow> 'd cache \<Rightarrow> nat \<Rightarrow> nat list \<Rightarrow> nat list \<Rightarrow> (nat list, 'd) fat_result" where
  "positions_loop B l per start c cluster [] out = (Inr out, c)"
| "positions_loop B l per start c cluster (index # rest) out =
     (let step = (\<lambda>cluster c.
        case cluster_offset l cluster of
          None \<Rightarrow> (Inl Corrupt, c)
        | Some base \<Rightarrow> positions_loop B l per start c cluster rest (out @ [base + index mod per * ENTRY_BYTES]))
      in if index \<noteq> start \<and> index mod per = 0 then
           (case fat_next B l c cluster of
              (Inl e, c') \<Rightarrow> (Inl e, c')
            | (Inr None, c') \<Rightarrow> (Inr out, c')
            | (Inr (Some next), c') \<Rightarrow> step next c')
         else step cluster c)"

definition dir_positions ::
  "'d blocks \<Rightarrow> layout \<Rightarrow> 'd cache \<Rightarrow> nat \<Rightarrow> nat \<Rightarrow> nat \<Rightarrow> (nat list, 'd) fat_result" where
  "dir_positions B l c first start n =
     (let per = ly_cluster_bytes l div ENTRY_BYTES in
      case skip_clusters B l c first (start div per) of
        (Inl e, c') \<Rightarrow> (Inl e, c')
      | (Inr None, c') \<Rightarrow> (Inr [], c')
      | (Inr (Some cluster), c') \<Rightarrow>
          positions_loop B l per start c' cluster [start..<saturating_add U32_MAX start n] [])"

section \<open>Long names\<close>

record long_run =
  lr_units :: "u16 list"
  lr_count :: nat
  lr_next :: nat
  lr_checksum :: u8
  lr_at :: "nat list"
  lr_seen :: nat

definition long_new :: long_run where
  "long_new = \<lparr>lr_units = replicate (MAX_LONG_ENTRIES * UNITS_PER_ENTRY) 0, lr_count = 0, lr_next = 0, lr_checksum = 0,
     lr_at = replicate MAX_LONG_ENTRIES 0, lr_seen = 0\<rparr>"

definition long_reset :: "long_run \<Rightarrow> long_run" where
  "long_reset r = r\<lparr>lr_count := 0, lr_next := 0, lr_seen := 0\<rparr>"

definition put_units :: "u16 list \<Rightarrow> nat \<Rightarrow> u16 list \<Rightarrow> u16 list" where
  "put_units units start vs =
     fold (\<lambda>(k, v) us. if start + k < length us then us[start + k := v] else us) (zip [0..<length vs] vs) units"

text \<open>The entry stored, when its ordinal is the one the run waits for.\<close>

definition long_store :: "long_run \<Rightarrow> raw \<Rightarrow> nat \<Rightarrow> long_run" where
  "long_store r raw at =
     r\<lparr>lr_units := put_units (lr_units r) ((lr_next r - 1) * UNITS_PER_ENTRY) (entry_units raw),
       lr_at := (if lr_seen r < length (lr_at r) then (lr_at r)[lr_seen r := at] else lr_at r),
       lr_seen := lr_seen r + 1, lr_next := lr_next r - 1\<rparr>"

definition long_push :: "long_run \<Rightarrow> raw \<Rightarrow> nat \<Rightarrow> long_run" where
  "long_push r raw at =
     (let ord = raw_byte raw 0 in
      if ord AND LAST_LONG_ENTRY \<noteq> 0 then
        (let n = unat (ord AND NOT LAST_LONG_ENTRY) in
         if n = 0 \<or> n > MAX_LONG_ENTRIES then long_reset r
         else long_store (r\<lparr>lr_count := n, lr_next := n, lr_checksum := raw_checksum raw, lr_seen := 0\<rparr>) raw at)
      else if lr_next r = 0 \<or> unat ord \<noteq> lr_next r \<or> raw_checksum raw \<noteq> lr_checksum r then long_reset r
      else long_store r raw at)"

definition long_take :: "long_run \<Rightarrow> short \<Rightarrow> (ustring option \<times> nat list \<times> nat) option \<times> long_run" where
  "long_take r short =
     (let belongs = (lr_count r > 0 \<and> lr_next r = 0 \<and> lr_checksum r = name_checksum short);
          result =
            (if belongs then
               (let units = (case slice (lr_units r) 0 (lr_count r * UNITS_PER_ENTRY) of Some us \<Rightarrow> us | None \<Rightarrow> []);
                    kept = takeWhile (\<lambda>u. u \<noteq> 0) units
                in Some (if length kept \<le> MAX_UNITS then from_units kept else None, lr_at r, lr_seen r))
             else None)
      in (result, long_reset r))"

section \<open>Scanning\<close>

record found =
  fd_name :: ustring
  fd_raw :: raw
  fd_index :: nat
  fd_at :: nat
  fd_long_at :: "nat list"
  fd_long_count :: nat

definition found_positions :: "found \<Rightarrow> nat list" where
  "found_positions f = take (fd_long_count f) (fd_long_at f) @ [fd_at f]"

definition has_long :: "found \<Rightarrow> bool" where
  "has_long f \<longleftrightarrow> fd_long_count f > 0"

datatype item =
    Entry found
  | Other short bool bool
  | FreeSlot nat
  | EndSlot nat

record dir_scan =
  ds_slots :: slots
  ds_long :: long_run
  ds_ended :: bool

definition scan_new :: "layout \<Rightarrow> nat \<Rightarrow> fs_error + dir_scan" where
  "scan_new l first =
     (case slots_new l first of Inl e \<Rightarrow> Inl e
      | Inr s \<Rightarrow> Inr \<lparr>ds_slots = s, ds_long = long_new, ds_ended = False\<rparr>)"

text \<open>What one slot makes of the scan: an item, or nothing for a long-name entry.\<close>

definition scan_slot :: "dir_scan \<Rightarrow> nat \<Rightarrow> nat \<Rightarrow> raw \<Rightarrow> item option \<times> dir_scan" where
  "scan_slot sc index at raw =
     (if ds_ended sc then (Some (FreeSlot index), sc)
      else if raw_byte raw 0 = END_MARK then
        (Some (EndSlot index), sc\<lparr>ds_ended := True, ds_long := long_reset (ds_long sc)\<rparr>)
      else if raw_byte raw 0 = FREE_MARK then (Some (FreeSlot index), sc\<lparr>ds_long := long_reset (ds_long sc)\<rparr>)
      else if raw_is_long raw then (None, sc\<lparr>ds_long := long_push (ds_long sc) raw at\<rparr>)
      else
        let short = raw_short raw;
            (long, lr) = long_take (ds_long sc) short;
            sc' = sc\<lparr>ds_long := lr\<rparr>;
            dot = (short = DOT \<or> short = DOTDOT)
        in if dot \<or> raw_is_volume raw then (Some (Other short dot (\<not> dot)), sc')
           else
             let (long_name, long_at, long_count) =
                   (case long of Some (name, at, n) \<Rightarrow> (name, at, n) | None \<Rightarrow> (None, replicate MAX_LONG_ENTRIES 0, 0))
             in case (case long_name of Some n \<Rightarrow> Some n | None \<Rightarrow> shown short (raw_lower raw)) of
                  Some name \<Rightarrow>
                    (Some (Entry \<lparr>fd_name = name, fd_raw = raw, fd_index = index, fd_at = at,
                       fd_long_at = long_at, fd_long_count = long_count\<rparr>), sc')
                | None \<Rightarrow> (Some (Other short False False), sc'))"

lemma slots_here_index:
  "slots_here B l c s = (Inr (Some x), s', c') \<Longrightarrow> ss_index s' = Suc (ss_index s) \<and> ss_index s < MAX_ENTRIES"
  by (auto simp: slots_here_def Let_def split: if_splits option.splits prod.splits sum.splits)

lemma slots_next_index:
  "slots_next B l c s = (Inr (Some x), s', c') \<Longrightarrow> ss_index s' = Suc (ss_index s) \<and> ss_index s < MAX_ENTRIES"
  using slots_here_index [of B l c s x s' c']
  by (auto simp: slots_next_def split: if_splits option.splits prod.splits sum.splits dest: slots_here_index)

lemma scan_slot_slots: "scan_slot sc index at raw = (i, sc') \<Longrightarrow> ds_slots sc' = ds_slots sc"
  by (auto simp: scan_slot_def Let_def split: if_splits option.splits prod.splits)

function scan_next ::
  "'d blocks \<Rightarrow> layout \<Rightarrow> 'd cache \<Rightarrow> dir_scan \<Rightarrow> (fs_error + item option) \<times> dir_scan \<times> 'd cache" where
  "scan_next B l c sc =
     (case slots_next B l c (ds_slots sc) of
        (Inl e, s, c') \<Rightarrow> (Inl e, sc\<lparr>ds_slots := s\<rparr>, c')
      | (Inr None, s, c') \<Rightarrow> (Inr None, sc\<lparr>ds_slots := s\<rparr>, c')
      | (Inr (Some (index, at, raw)), s, c') \<Rightarrow>
          (case scan_slot (sc\<lparr>ds_slots := s\<rparr>) index at raw of
             (Some item, sc') \<Rightarrow> (Inr (Some item), sc', c')
           | (None, sc') \<Rightarrow> scan_next B l c' sc'))"
  by pat_completeness auto

termination scan_next
  by (relation "measure (\<lambda>(B, l, c, sc). MAX_ENTRIES - ss_index (ds_slots sc))")
    (auto dest!: sym [THEN slots_next_index] sym [THEN scan_slot_slots])

declare scan_next.simps [simp del]

text \<open>
  The loop over the items of a scan that \<open>find\<close>, \<open>is_empty\<close> and \<open>survey\<close> share, with the body as a
  visitor that says whether to go on.
\<close>

lemma scan_next_index:
  "scan_next B l c sc = (Inr (Some i), sc', c') \<Longrightarrow>
     ss_index (ds_slots sc) < ss_index (ds_slots sc') \<and> ss_index (ds_slots sc) < MAX_ENTRIES"
proof (induction B l c sc rule: scan_next.induct)
  case (1 B l c sc)
  obtain r s c1 where sn: "slots_next B l c (ds_slots sc) = (r, s, c1)" by (metis prod_cases3)
  then obtain index at raw where r: "r = Inr (Some (index, at, raw))"
    using "1.prems" by (auto simp: scan_next.simps [of B l c sc] split: sum.splits option.splits)
  note ix = slots_next_index [OF sn [unfolded r]]
  obtain it sc1 where ss: "scan_slot (sc\<lparr>ds_slots := s\<rparr>) index at raw = (it, sc1)" by fastforce
  have same: "ds_slots sc1 = s" using scan_slot_slots [OF ss] by simp
  show ?case
  proof (cases it)
    case None
    have "scan_next B l c1 sc1 = (Inr (Some i), sc', c')"
      using "1.prems" sn r ss None by (simp add: scan_next.simps [of B l c sc])
    from "1.IH" [OF sn [unfolded r, symmetric] refl refl refl refl refl ss [unfolded None, symmetric] refl this] ix same
    show ?thesis by simp
  next
    case (Some x)
    then have "sc' = sc1" using "1.prems" sn r ss by (simp add: scan_next.simps [of B l c sc])
    then show ?thesis using ix same by simp
  qed
qed

function scan_while ::
  "'d blocks \<Rightarrow> layout \<Rightarrow> ('s \<Rightarrow> item \<Rightarrow> 's \<times> bool) \<Rightarrow> 'd cache \<Rightarrow> dir_scan \<Rightarrow> 's \<Rightarrow>
     fs_error option \<times> 's \<times> dir_scan \<times> 'd cache" where
  "scan_while B l visit c sc s =
     (case scan_next B l c sc of
        (Inl e, sc', c') \<Rightarrow> (Some e, s, sc', c')
      | (Inr None, sc', c') \<Rightarrow> (None, s, sc', c')
      | (Inr (Some item), sc', c') \<Rightarrow>
          (case visit s item of
             (s', False) \<Rightarrow> (None, s', sc', c')
           | (s', True) \<Rightarrow> scan_while B l visit c' sc' s'))"
  by pat_completeness auto

termination scan_while
  by (relation "measure (\<lambda>(B, l, visit, c, sc, s). MAX_ENTRIES - ss_index (ds_slots sc))")
    (auto dest!: sym [THEN scan_next_index])

declare scan_while.simps [simp del]

definition names_entry :: "found \<Rightarrow> ustring \<Rightarrow> short option \<Rightarrow> bool" where
  "names_entry f wanted wanted_short \<longleftrightarrow>
     same_name (fd_name f) wanted \<or> (has_long f \<and> Some (raw_short (fd_raw f)) = wanted_short)"

definition short_of :: "ustring \<Rightarrow> short option" where
  "short_of wanted =
     (if is_ascii (key wanted) then exact_short (map to_ascii_uppercase (key wanted)) else None)"

definition find_visit :: "ustring \<Rightarrow> found option \<Rightarrow> item \<Rightarrow> found option \<times> bool" where
  "find_visit wanted s item =
     (case item of
        Entry f \<Rightarrow> if names_entry f wanted (short_of wanted) then (Some f, False) else (s, True)
      | EndSlot _ \<Rightarrow> (None, False)
      | _ \<Rightarrow> (s, True))"

definition dir_find :: "'d blocks \<Rightarrow> layout \<Rightarrow> 'd cache \<Rightarrow> nat \<Rightarrow> ustring \<Rightarrow> (found option, 'd) fat_result" where
  "dir_find B l c first wanted =
     (case scan_new l first of
        Inl e \<Rightarrow> (Inl e, c)
      | Inr sc \<Rightarrow>
          (case scan_while B l (find_visit wanted) c sc None of
             (Some e, _, _, c') \<Rightarrow> (Inl e, c')
           | (None, r, _, c') \<Rightarrow> (Inr r, c')))"

definition empty_visit :: "bool \<Rightarrow> item \<Rightarrow> bool \<times> bool" where
  "empty_visit s item =
     (case item of
        Entry _ \<Rightarrow> (False, False)
      | Other _ dot volume \<Rightarrow> if \<not> dot \<and> \<not> volume then (False, False) else (s, True)
      | EndSlot _ \<Rightarrow> (True, False)
      | FreeSlot _ \<Rightarrow> (s, True))"

definition dir_is_empty :: "'d blocks \<Rightarrow> layout \<Rightarrow> 'd cache \<Rightarrow> nat \<Rightarrow> (bool, 'd) fat_result" where
  "dir_is_empty B l c first =
     (case scan_new l first of
        Inl e \<Rightarrow> (Inl e, c)
      | Inr sc \<Rightarrow>
          (case scan_while B l empty_visit c sc True of
             (Some e, _, _, c') \<Rightarrow> (Inl e, c')
           | (None, r, _, c') \<Rightarrow> (Inr r, c')))"

section \<open>Room in a directory\<close>

record survey =
  sv_found :: "found option"
  sv_shorts :: "short set"
  sv_longs :: "ustring set"
  sv_total :: nat
  sv_last_cluster :: nat
  sv_end :: "nat option"
  sv_first_free :: "nat option"
  sv_run_wanted :: nat
  sv_first_run :: "nat option"
  sv_first_sector_run :: "nat option"
  sv_run_start :: nat
  sv_run_len :: nat
  sv_sector_run_start :: nat
  sv_sector_run_len :: nat

definition survey_taken :: "survey \<Rightarrow> short \<Rightarrow> bool" where
  "survey_taken v short \<longleftrightarrow>
     short \<in> sv_shorts v \<or> (case shown short 0 of Some s \<Rightarrow> s \<in> sv_longs v | None \<Rightarrow> False)"

definition place :: "survey \<Rightarrow> nat \<Rightarrow> nat \<times> nat" where
  "place v n =
     (let room =
        (if n \<le> 1 then sv_first_free v
         else if n \<le> sv_run_wanted v then
           (case sv_first_sector_run v of
              Some index \<Rightarrow> Some index
            | None \<Rightarrow> if n > SLOTS_PER_SECTOR then sv_first_run v else None)
         else None)
      in case room of
           Some index \<Rightarrow> (index, 0)
         | None \<Rightarrow>
             if n \<le> SLOTS_PER_SECTOR then (sv_total v, n)
             else
               (let trailing = (saturating_add U32_MAX (sv_run_start v) (sv_run_len v) = sv_total v \<and> sv_run_len v > 0);
                    (start, len) = (if trailing then (sv_run_start v, sv_run_len v) else (sv_total v, 0))
                in (start, n - len)))"

definition survey_new :: "nat \<Rightarrow> nat \<Rightarrow> survey" where
  "survey_new first run_wanted =
     \<lparr>sv_found = None, sv_shorts = {}, sv_longs = {}, sv_total = 0, sv_last_cluster = first, sv_end = None,
      sv_first_free = None, sv_run_wanted = run_wanted, sv_first_run = None, sv_first_sector_run = None,
      sv_run_start = 0, sv_run_len = 0, sv_sector_run_start = 0, sv_sector_run_len = 0\<rparr>"

text \<open>What \<open>survey\<close> does with a free slot, in two halves: the run of free slots, and the run inside one sector.\<close>

definition survey_run :: "survey \<Rightarrow> nat \<Rightarrow> survey" where
  "survey_run v index =
     (let v = (if sv_run_len v = 0 \<or> saturating_add U32_MAX (sv_run_start v) (sv_run_len v) \<noteq> index
               then v\<lparr>sv_run_start := index, sv_run_len := 0\<rparr> else v);
          v = v\<lparr>sv_run_len := sv_run_len v + 1\<rparr>
      in if sv_run_len v \<ge> sv_run_wanted v \<and> sv_first_run v = None
         then v\<lparr>sv_first_run := Some (sv_run_start v)\<rparr> else v)"

definition survey_sector_run :: "survey \<Rightarrow> nat \<Rightarrow> survey" where
  "survey_sector_run v index =
     (let v = (if sv_sector_run_len v = 0 \<or> index mod SLOTS_PER_SECTOR = 0
                  \<or> saturating_add U32_MAX (sv_sector_run_start v) (sv_sector_run_len v) \<noteq> index
               then v\<lparr>sv_sector_run_start := index, sv_sector_run_len := 0\<rparr> else v);
          v = v\<lparr>sv_sector_run_len := sv_sector_run_len v + 1\<rparr>
      in if sv_sector_run_len v \<ge> sv_run_wanted v \<and> sv_first_sector_run v = None
         then v\<lparr>sv_first_sector_run := Some (sv_sector_run_start v)\<rparr> else v)"

definition survey_free :: "survey \<Rightarrow> nat \<Rightarrow> survey" where
  "survey_free v index =
     (let v = v\<lparr>sv_first_free := (case sv_first_free v of Some i \<Rightarrow> Some i | None \<Rightarrow> Some index)\<rparr>
      in survey_sector_run (survey_run v index) index)"

definition survey_visit :: "ustring \<Rightarrow> nat option \<Rightarrow> survey \<Rightarrow> item \<Rightarrow> survey \<times> bool" where
  "survey_visit wanted except v item =
     (case item of
        Entry f \<Rightarrow>
          (let v = v\<lparr>sv_shorts := insert (raw_short (fd_raw f)) (sv_shorts v)\<rparr>;
               v = (if length (str_bytes (fd_name f)) \<le> 12
                    then v\<lparr>sv_longs := insert (map to_ascii_uppercase (key (fd_name f))) (sv_longs v)\<rparr> else v)
           in (if sv_found v = None \<and> Some (fd_at f) \<noteq> except \<and> names_entry f wanted (short_of wanted)
               then v\<lparr>sv_found := Some f\<rparr> else v, True))
      | Other short _ _ \<Rightarrow> (v\<lparr>sv_shorts := insert short (sv_shorts v)\<rparr>, True)
      | FreeSlot index \<Rightarrow> (survey_free v index, True)
      | EndSlot index \<Rightarrow>
          (survey_free (if sv_end v = None then v\<lparr>sv_end := Some index\<rparr> else v) index, True))"

definition dir_survey ::
  "'d blocks \<Rightarrow> layout \<Rightarrow> 'd cache \<Rightarrow> nat \<Rightarrow> ustring \<Rightarrow> nat \<Rightarrow> nat option \<Rightarrow> (survey, 'd) fat_result" where
  "dir_survey B l c first wanted run_wanted except =
     (case scan_new l first of
        Inl e \<Rightarrow> (Inl e, c)
      | Inr sc \<Rightarrow>
          (case scan_while B l (survey_visit wanted except) c sc (survey_new first run_wanted) of
             (Some e, _, _, c') \<Rightarrow> (Inl e, c')
           | (None, v, sc', c') \<Rightarrow>
               (Inr (v\<lparr>sv_total := ss_index (ds_slots sc'), sv_last_cluster := ss_cluster (ds_slots sc')\<rparr>), c')))"

definition new_directory :: "layout \<Rightarrow> u32 \<Rightarrow> u32 \<Rightarrow> stamp \<Rightarrow> bytes" where
  "new_directory l own parent s =
     (let data = replicate (ly_cluster_bytes l) 0;
          data = (if 32 \<le> length data then raw_new DOT ATTR_DIRECTORY own 0 s @ drop 32 data else data)
      in if 64 \<le> length data
         then take 32 data @ raw_new DOTDOT ATTR_DIRECTORY parent 0 s @ drop 64 data else data)"

section \<open>Long names read back\<close>

definition long_wf :: "long_run \<Rightarrow> bool" where
  "long_wf r \<longleftrightarrow> length (lr_units r) = MAX_LONG_ENTRIES * UNITS_PER_ENTRY \<and> length (lr_at r) = MAX_LONG_ENTRIES"

lemma put_units_nth:
  assumes "start + length vs \<le> length us"
  shows "length (put_units us start vs) = length us"
    and "i < length us \<Longrightarrow> put_units us start vs ! i = (if start \<le> i \<and> i < start + length vs then vs ! (i - start) else us ! i)"
  using assms
proof (induction vs arbitrary: i rule: rev_induct)
  case (snoc v vs)
  have step: "put_units us start (vs @ [v]) = (put_units us start vs)[start + length vs := v]"
    by (simp add: put_units_def list_update_beyond)
  case 1
  then show ?case using snoc(1) step by simp
  case 2
  then show ?case using snoc step by (auto simp: nth_list_update nth_append less_Suc_eq)
qed (auto simp: put_units_def)

lemma ordinal_bytes:
  assumes "ord \<le> 20"
  shows "(word_of_nat ord OR LAST_LONG_ENTRY) AND LAST_LONG_ENTRY \<noteq> 0"
    "(word_of_nat ord OR LAST_LONG_ENTRY) AND NOT LAST_LONG_ENTRY = word_of_nat ord"
    "word_of_nat ord AND LAST_LONG_ENTRY = 0" "unat (word_of_nat ord :: u8) = ord"
proof -
  have "\<forall>ord \<in> set [0..<21]. (word_of_nat ord OR LAST_LONG_ENTRY) AND LAST_LONG_ENTRY \<noteq> 0
      \<and> (word_of_nat ord OR LAST_LONG_ENTRY) AND NOT LAST_LONG_ENTRY = word_of_nat ord
      \<and> word_of_nat ord AND LAST_LONG_ENTRY = 0"
    by (simp add: upt_rec LAST_LONG_ENTRY_def)
  from bspec [OF this, of ord] show "(word_of_nat ord OR LAST_LONG_ENTRY) AND LAST_LONG_ENTRY \<noteq> 0"
    "(word_of_nat ord OR LAST_LONG_ENTRY) AND NOT LAST_LONG_ENTRY = word_of_nat ord"
    "word_of_nat ord AND LAST_LONG_ENTRY = 0" using assms by simp_all
  show "unat (word_of_nat ord :: u8) = ord" using assms by (intro unat_u8) simp
qed

text \<open>A run of which the entries down to ordinal \<open>k + 1\<close> have been seen.\<close>

definition run_state :: "u16 list \<Rightarrow> u8 \<Rightarrow> nat \<Rightarrow> nat \<Rightarrow> nat list \<Rightarrow> long_run \<Rightarrow> bool" where
  "run_state us chk n k ats r \<longleftrightarrow> long_wf r \<and> lr_count r = n \<and> lr_next r = k \<and> lr_checksum r = chk
     \<and> lr_seen r = length ats \<and> take (length ats) (lr_at r) = ats
     \<and> (\<forall>i. k * UNITS_PER_ENTRY \<le> i \<and> i < n * UNITS_PER_ENTRY \<longrightarrow> lr_units r ! i = entry_unit us i)"

lemma long_store_run:
  assumes wf: "long_wf r" and r: "lr_count r = n" "lr_next r = Suc k" "lr_checksum r = chk" "lr_seen r = length ats"
    "take (length ats) (lr_at r) = ats" "length ats < MAX_LONG_ENTRIES" "k < n" "n \<le> MAX_LONG_ENTRIES"
    and seen: "\<forall>i. Suc k * UNITS_PER_ENTRY \<le> i \<and> i < n * UNITS_PER_ENTRY \<longrightarrow> lr_units r ! i = entry_unit us i"
  shows "run_state us chk n k (ats @ [at]) (long_store r (long_entry us chk n (Suc k)) at)"
proof -
  let ?e = "long_entry us chk n (Suc k)" and ?start = "k * UNITS_PER_ENTRY"
  have eu: "entry_units ?e = map (\<lambda>j. entry_unit us (?start + j)) [0..<UNITS_PER_ENTRY]"
    using long_entry_fields(4) [of us chk n "Suc k"] by simp
  have len: "length (lr_units r) = MAX_LONG_ENTRIES * UNITS_PER_ENTRY" "length (lr_at r) = MAX_LONG_ENTRIES"
    using wf by (simp_all add: long_wf_def)
  have "Suc k * UNITS_PER_ENTRY \<le> MAX_LONG_ENTRIES * UNITS_PER_ENTRY" using r(7,8) by (intro mult_le_mono1) simp
  then have fit: "?start + length (entry_units ?e) \<le> length (lr_units r)" by (simp add: eu len)
  have le: "n * UNITS_PER_ENTRY \<le> length (lr_units r)" unfolding len using r(8) by (rule mult_le_mono1)
  have units: "put_units (lr_units r) ?start (entry_units ?e) ! i = entry_unit us i"
    if "?start \<le> i" "i < n * UNITS_PER_ENTRY" for i
  proof (cases "i < ?start + UNITS_PER_ENTRY")
    case True
    then show ?thesis using put_units_nth(2) [OF fit, of i] that le by (simp add: eu)
  next
    case False
    then show ?thesis using put_units_nth(2) [OF fit, of i] that le seen by (simp add: eu)
  qed
  have ats: "take (length (ats @ [at])) ((lr_at r)[length ats := at]) = ats @ [at]"
    using r(5,6) len(2) by (simp add: take_Suc_conv_app_nth take_update_swap)
  show ?thesis
    using wf r len units ats put_units_nth(1) [OF fit]
    by (simp add: run_state_def long_store_def long_wf_def)
qed

lemma long_push_entry:
  assumes n: "n \<le> MAX_LONG_ENTRIES" "k < n" and r: "if Suc k = n then long_wf r \<and> ats = [] else run_state us chk n (Suc k) ats r"
    and ats: "length ats + Suc k = n"
  shows "run_state us chk n k (ats @ [at]) (long_push r (long_entry us chk n (Suc k)) at)"
proof -
  let ?e = "long_entry us chk n (Suc k)"
  have max: "MAX_LONG_ENTRIES = 20" by (simp add: MAX_LONG_ENTRIES_def)
  note ob = ordinal_bytes [of "Suc k"]
  have b: "raw_byte ?e 0 = word_of_nat (Suc k) OR (if Suc k = n then LAST_LONG_ENTRY else 0)" "raw_checksum ?e = chk"
    using long_entry_fields(1,3) [of us chk n "Suc k"] long_entry_length [of us chk n "Suc k"]
    by (simp_all add: raw_byte_def raw_checksum_def del: of_nat_Suc)
  show ?thesis
  proof (cases "Suc k = n")
    case True
    have "long_push r ?e at = long_store (r\<lparr>lr_count := n, lr_next := n, lr_checksum := chk, lr_seen := 0\<rparr>) ?e at"
      using True b ob n max by (simp add: long_push_def Let_def del: of_nat_Suc)
    moreover have "run_state us chk n k ([] @ [at]) (long_store (r\<lparr>lr_count := n, lr_next := n, lr_checksum := chk, lr_seen := 0\<rparr>) ?e at)"
      using r True n by (intro long_store_run) (auto simp: long_wf_def max)
    ultimately show ?thesis using r True by simp
  next
    case False
    then have rs: "run_state us chk n (Suc k) ats r" using r by simp
    have "long_push r ?e at = long_store r ?e at"
      using False b ob n max rs by (simp add: long_push_def Let_def run_state_def del: of_nat_Suc)
    moreover have "run_state us chk n k (ats @ [at]) (long_store r ?e at)"
      using rs n ats by (intro long_store_run) (auto simp: run_state_def max)
    ultimately show ?thesis by simp
  qed
qed

lemma long_push_all:
  assumes n: "n \<le> MAX_LONG_ENTRIES" and wf: "long_wf r" and "m \<le> n" "m = length ats" "0 < m"
  shows "run_state us chk n (n - m) ats
    (fold (\<lambda>(e, at) r. long_push r e at) (zip (map (long_entry us chk n) (rev [n - m + 1..<n + 1])) ats) r)"
  using assms(3-5)
proof (induction m arbitrary: ats)
  case (Suc m)
  then obtain as at where ats: "ats = as @ [at]" "length as = m" by (metis length_Suc_conv_rev)
  let ?k = "n - Suc m"
  have k: "?k < n" "Suc ?k = n - m" using Suc.prems(1) by auto
  have "?k + 1 < n + 1" "Suc (?k + 1) = n - m + 1" "?k + 1 = Suc ?k" using k by simp_all
  then have "rev [?k + 1..<n + 1] = rev [n - m + 1..<n + 1] @ [Suc ?k]"
    by (simp only: upt_conv_Cons rev.simps)
  then have split: "zip (map (long_entry us chk n) (rev [?k + 1..<n + 1])) ats
      = zip (map (long_entry us chk n) (rev [n - m + 1..<n + 1])) as @ [(long_entry us chk n (Suc ?k), at)]"
    using ats Suc.prems(1) by (simp only: ats(1) map_append list.map) (simp add: zip_append del: upt_Suc)
  let ?r = "fold (\<lambda>(e, at) r. long_push r e at) (zip (map (long_entry us chk n) (rev [n - m + 1..<n + 1])) as) r"
  have "if Suc ?k = n then long_wf ?r \<and> as = [] else run_state us chk n (Suc ?k) as ?r"
  proof (cases "m = 0")
    case True
    then show ?thesis using wf ats k by simp
  next
    case False
    then have "run_state us chk n (n - m) as ?r" using Suc.prems(1) ats(2) by (intro Suc.IH) simp_all
    moreover have "n - m \<noteq> n" using False Suc.prems(1) by simp
    ultimately show ?thesis unfolding k(2) by (simp only: if_False)
  qed
  moreover have "length as + Suc ?k = n" using ats(2) k(2) Suc.prems(1) by simp
  ultimately have "run_state us chk n ?k (as @ [at]) (long_push ?r (long_entry us chk n (Suc ?k)) at)"
    by (rule long_push_entry [OF n k(1)])
  then show ?case unfolding split by (simp only: ats(1) fold_append fold.simps comp_apply id_apply prod.case)
qed simp

lemma takeWhile_units:
  assumes "0 \<notin> set us" "length us \<le> m"
  shows "takeWhile (\<lambda>u. u \<noteq> 0) (map (entry_unit us) [0..<m]) = us"
proof -
  have pre: "map (entry_unit us) [0..<length us] = us"
    by (rule nth_equalityI) (simp_all add: entry_unit_def)
  have "[0..<m] = [0..<length us] @ [length us..<m]" using upt_add_eq_append [of 0 "length us" "m - length us"] assms(2) by simp
  then have eq: "map (entry_unit us) [0..<m] = us @ map (entry_unit us) [length us..<m]" using pre by simp
  have "takeWhile (\<lambda>u. u \<noteq> 0) (map (entry_unit us) [length us..<m]) = []"
    by (cases "length us < m") (simp_all add: upt_conv_Cons entry_unit_def)
  then show ?thesis unfolding eq using assms(1) by (subst takeWhile_append2) auto
qed

lemma run_state_take:
  assumes r: "run_state us chk n 0 ats r" and n: "0 < n" "n \<le> MAX_LONG_ENTRIES"
    and us: "0 \<notin> set us" "length us \<le> n * UNITS_PER_ENTRY" "length us \<le> MAX_UNITS" and chk: "chk = name_checksum short"
  shows "long_take r short = (Some (from_units us, lr_at r, length ats), long_reset r)"
proof -
  have len: "n * UNITS_PER_ENTRY \<le> length (lr_units r)"
    using r n(2) by (simp add: run_state_def long_wf_def)
  have "take (n * UNITS_PER_ENTRY) (lr_units r) = map (entry_unit us) [0..<n * UNITS_PER_ENTRY]"
    using r len by (intro nth_equalityI) (auto simp: run_state_def)
  then have "slice (lr_units r) 0 (lr_count r * UNITS_PER_ENTRY) = Some (map (entry_unit us) [0..<n * UNITS_PER_ENTRY])"
    using r len by (simp add: slice_def run_state_def)
  then show ?thesis
    using r n us chk takeWhile_units [OF us(1,2)] by (simp add: long_take_def Let_def run_state_def)
qed

section \<open>The fields of an entry\<close>

lemma raw_new_bytes:
  fixes attr :: u8 and cluster n :: u32 and s :: stamp and short :: short
  assumes "length short = 11"
  defines "r \<equiv> raw_new short attr cluster n s"
  shows "length r = 32" "raw_short r = short" "raw_byte r 0 = hd short" "raw_attr r = attr" "raw_lower r = 0"
    "raw_cluster r = cluster" "raw_size r = n" "le16 r 22 = st_time s" "le16 r 24 = st_date s"
proof -
  have max: "32 \<le> U64_MAX" by (simp add: U64_MAX_def)
  define t where "t = short @ replicate 21 (0 :: u8)"
  have t: "length t = 32" "take 11 t = short" "t ! 0 = hd short"
    using assms(1) by (cases short; simp add: t_def)+
  let ?c = cluster
  have r: "r = t[12 := 0, 11 := attr, 13 := st_hundredths s, 14 := ucast (st_time s), 15 := ucast (drop_bit 8 (st_time s)),
      16 := ucast (st_date s), 17 := ucast (drop_bit 8 (st_date s)), 18 := ucast (st_date s), 19 := ucast (drop_bit 8 (st_date s)),
      20 := ucast (ucast (drop_bit 16 ?c) :: u16), 21 := ucast (drop_bit 8 (ucast (drop_bit 16 ?c) :: u16)),
      26 := ucast (ucast ?c :: u16), 27 := ucast (drop_bit 8 (ucast ?c :: u16)),
      22 := ucast (st_time s), 23 := ucast (drop_bit 8 (st_time s)), 24 := ucast (st_date s), 25 := ucast (drop_bit 8 (st_date s)),
      28 := ucast n, 29 := ucast (drop_bit 8 n), 30 := ucast (drop_bit 16 n), 31 := ucast (drop_bit 24 n)]"
  proof -
    have "raw_set_short (replicate 32 0) short 0 = t[12 := 0]"
      using assms(1) by (simp add: raw_set_short_def t_def put8_def)
    then show ?thesis
      by (simp add: r_def raw_new_def Let_def raw_set_cluster_def raw_set_modified_def raw_set_size_def put16_eq put32_eq
          put8_def t(1) max)
  qed
  show len: "length r = 32" by (simp add: r t(1))
  show "raw_short r = short" unfolding raw_short_def r using t by (simp add: take_update_cancel)
  show "raw_byte r 0 = hd short" "raw_attr r = attr" "raw_lower r = 0"
    unfolding raw_byte_def raw_attr_def raw_lower_def len by (simp_all add: r t)
  show "raw_size r = n" "le16 r 22 = st_time s" "le16 r 24 = st_date s"
    unfolding raw_size_def by (simp_all add: le32_eq le16_eq len) (simp_all add: r t u32_bytes u16_bytes)
  have "le16 r 20 = ucast (drop_bit 16 ?c)" "le16 r 26 = ucast ?c"
    by (simp_all add: le16_eq len) (simp_all add: r t u16_bytes)
  then show "raw_cluster r = ?c"
    by (simp add: raw_cluster_def) (rule bit_word_eqI, auto simp: bit_simps)
qed

section \<open>Entries written and scanned\<close>

text \<open>What a scan makes of slots whose bytes are known.\<close>

fun scan_raws :: "dir_scan \<Rightarrow> (nat \<times> nat \<times> raw) list \<Rightarrow> item list \<times> dir_scan" where
  "scan_raws sc [] = ([], sc)"
| "scan_raws sc ((index, at, raw) # rest) =
     (let (i, sc') = scan_slot sc index at raw; (is, sc'') = scan_raws sc' rest
      in (case i of Some x \<Rightarrow> x # is | None \<Rightarrow> is, sc''))"

lemma scan_raws_append:
  "scan_raws sc (xs @ ys) =
     (let (is, sc') = scan_raws sc xs; (js, sc'') = scan_raws sc' ys in (is @ js, sc''))"
  by (induction xs arbitrary: sc) (auto simp: Let_def split: prod.splits option.splits)

lemma long_entry_marks:
  fixes us :: "u16 list" and chk :: u8 and n ord :: nat
  assumes "1 \<le> ord" "ord \<le> 20"
  defines "e \<equiv> long_entry us chk n ord"
  shows "raw_byte e 0 \<noteq> END_MARK" "raw_byte e 0 \<noteq> FREE_MARK" "raw_is_long e"
proof -
  have b: "raw_byte e 0 = word_of_nat ord OR (if ord = n then LAST_LONG_ENTRY else 0)" "raw_attr e = ATTR_LONG_NAME"
    using long_entry_fields(1,2) [of us chk n ord] long_entry_length [of us chk n ord]
    by (simp_all add: raw_byte_def raw_attr_def e_def)
  have "\<forall>ord \<in> set [1..<21]. (word_of_nat ord :: u8) \<noteq> 0 \<and> (word_of_nat ord :: u8) \<noteq> 0xE5
      \<and> word_of_nat ord OR LAST_LONG_ENTRY \<noteq> 0 \<and> word_of_nat ord OR LAST_LONG_ENTRY \<noteq> 0xE5"
    by (simp add: upt_rec LAST_LONG_ENTRY_def)
  from bspec [OF this, of ord] assms b(1)
  show "raw_byte e 0 \<noteq> END_MARK" "raw_byte e 0 \<noteq> FREE_MARK" by (auto simp: END_MARK_def FREE_MARK_def)
  show "raw_is_long e" by (simp add: raw_is_long_def b ATTR_LONG_NAME_def ATTR_LONG_NAME_MASK_def)
qed

lemma scan_raws_long:
  "\<not> ds_ended sc \<Longrightarrow> \<forall>ord \<in> set ords. 1 \<le> ord \<and> ord \<le> 20 \<Longrightarrow> length ixs = length ords \<Longrightarrow> length ats = length ords \<Longrightarrow>
   scan_raws sc (zip ixs (zip ats (map (long_entry us chk n) ords)))
     = ([], sc\<lparr>ds_long := fold (\<lambda>(e, at) r. long_push r e at) (zip (map (long_entry us chk n) ords) ats) (ds_long sc)\<rparr>)"
proof (induction ords arbitrary: sc ixs ats)
  case (Cons ord ords)
  obtain ix ixs' where ix: "ixs = ix # ixs'" using Cons.prems(3) by (cases ixs) auto
  obtain at ats' where at: "ats = at # ats'" using Cons.prems(4) by (cases ats) auto
  have "scan_slot sc ix at (long_entry us chk n ord)
      = (None, sc\<lparr>ds_long := long_push (ds_long sc) (long_entry us chk n ord) at\<rparr>)"
    using long_entry_marks [of ord us chk n] Cons.prems(1,2) by (simp add: scan_slot_def)
  then show ?case using Cons.IH [of "sc\<lparr>ds_long := long_push (ds_long sc) (long_entry us chk n ord) at\<rparr>" ixs' ats'] Cons.prems ix at
    by simp
qed simp

lemma check_name_units:
  assumes "check_name name = Inr kept" "list_all scalar name"
  shows "from_units (units_of kept) = Some kept" "0 \<notin> set (units_of kept)" "length (units_of kept) \<le> MAX_UNITS"
    "units_of kept \<noteq> []" "list_all scalar kept"
proof -
  have k: "kept = key name" "sum_list (map len_utf16 kept) \<le> MAX_UNITS" "kept \<noteq> []" "\<not> list_ex bad_char kept"
    using assms(1) by (auto simp: check_name_def Let_def split: if_splits)
  have sub: "set kept \<subseteq> set name" unfolding k(1) key_def by (auto dest: set_dropWhileD)
  then show sc: "list_all scalar kept" using assms(2) by (auto simp: list_all_iff)
  have "bad_char 0" "bad_char 47" by (simp_all add: bad_char_def)
  then have no: "0 \<notin> set kept" "47 \<notin> set kept" using k(4) unfolding list_ex_iff by blast+
  show "0 \<notin> set (units_of kept)" by (rule units_nonzero [OF sc no(1)])
  show "length (units_of kept) \<le> MAX_UNITS" using k(2) by (simp add: length_units_of)
  show "units_of kept \<noteq> []" using k(3) by (cases kept) (auto simp: units_of_def encode_utf16_def)
  have "last kept \<noteq> 46"
  proof -
    have rk: "rev kept = dropWhile (\<lambda>c. c = 46) (rev name)" by (simp add: k(1) key_def)
    then have "dropWhile (\<lambda>c. c = 46) (rev name) \<noteq> []" using k(3) by (metis rev_is_Nil_conv)
    from hd_dropWhile [OF this] have "hd (rev kept) \<noteq> 46" unfolding rk .
    then show ?thesis by (simp add: hd_rev)
  qed
  then have "kept \<noteq> [46]" "kept \<noteq> [46, 46]" by auto
  then show "from_units (units_of kept) = Some kept"
    using decode_units [OF sc] no k(3) by (auto simp: from_units_def list_ex_iff intro: gr0I)
qed

text \<open>The entries \<open>Volume::add_entry\<close> writes for a name: its long-name entries, then the short one.\<close>

definition entry_records :: "ustring \<Rightarrow> short \<Rightarrow> bool \<Rightarrow> raw \<Rightarrow> raw list" where
  "entry_records name short long template =
     (let raw = raw_set_short template short 0
      in (if long then long_entries (units_of name) (name_checksum short) else []) @ [raw])"

lemma raw_set_short_bytes:
  assumes "length template = 32" "length short = 11"
  shows "length (raw_set_short template short lower) = 32" "raw_short (raw_set_short template short lower) = short"
    "raw_byte (raw_set_short template short lower) 0 = hd short"
    "raw_attr (raw_set_short template short lower) = raw_attr template" "raw_lower (raw_set_short template short lower) = lower"
proof -
  have s: "raw_set_short template short lower = (short @ drop 11 template)[12 := lower]"
    using assms by (simp add: raw_set_short_def put8_def)
  then show "length (raw_set_short template short lower) = 32" using assms by simp
  show "raw_short (raw_set_short template short lower) = short"
    unfolding s raw_short_def using assms by (simp add: take_update_cancel)
  have "short \<noteq> []" using assms(2) by auto
  then show "raw_byte (raw_set_short template short lower) 0 = hd short"
    "raw_attr (raw_set_short template short lower) = raw_attr template" "raw_lower (raw_set_short template short lower) = lower"
    unfolding s raw_byte_def raw_attr_def raw_lower_def using assms
    by (simp_all add: raw_byte_def nth_append hd_conv_nth)
qed

lemma short_char_marks: "short_char b \<Longrightarrow> b \<noteq> END_MARK \<and> b \<noteq> FREE_MARK \<and> b \<noteq> 46"
  by (auto simp: short_char_def END_MARK_def FREE_MARK_def)

text \<open>The short entry of a name, met with the run its long-name entries left.\<close>

lemma scan_short:
  assumes sc: "\<not> ds_ended sc" and raw: "short_char (raw_byte raw 0)" "\<not> raw_is_long raw" "\<not> raw_is_volume raw"
    "length (raw_short raw) = 11" "hd (raw_short raw) = raw_byte raw 0"
    and take: "long_take (ds_long sc) (raw_short raw) = (long, lr)"
    and name: "(case long of Some (Some n, _) \<Rightarrow> Some n | _ \<Rightarrow> shown (raw_short raw) (raw_lower raw)) = Some name"
  shows "\<exists>f. scan_slot sc index at raw = (Some (Entry f), sc\<lparr>ds_long := lr\<rparr>) \<and> fd_name f = name \<and> fd_raw f = raw
    \<and> fd_index f = index \<and> found_positions f = (case long of Some (_, ats, n) \<Rightarrow> take n ats | None \<Rightarrow> []) @ [at]"
proof -
  have "raw_short raw \<noteq> DOT" "raw_short raw \<noteq> DOTDOT"
    using raw(5) short_char_marks [OF raw(1)] by (auto simp: DOT_def DOTDOT_def)
  then show ?thesis
    using assms short_char_marks [OF raw(1)]
    by (auto simp: scan_slot_def found_positions_def split: option.splits prod.splits)
qed

lemma long_entries_count:
  assumes "us \<noteq> []" "length us \<le> MAX_UNITS"
  obtains n where "0 < n" "n \<le> MAX_LONG_ENTRIES" "length us \<le> n * UNITS_PER_ENTRY"
    "long_entries us chk = map (long_entry us chk n) (rev [1..<n + 1])"
proof
  let ?n = "min (div_ceil (length us) UNITS_PER_ENTRY) MAX_LONG_ENTRIES"
  show "long_entries us chk = map (long_entry us chk ?n) (rev [1..<?n + 1])" by (simp add: long_entries_def Let_def del: upt_Suc)
  show "?n \<le> MAX_LONG_ENTRIES" by simp
  have "0 < min (L div 13 + (if L mod 13 = 0 then 0 else 1)) 20 \<and> L \<le> min (L div 13 + (if L mod 13 = 0 then 0 else 1)) 20 * 13"
    if "0 < L" "L \<le> 255" for L :: nat
  proof -
    obtain q m where L: "L = 13 * q + m" "m < 13" "q = L div 13" "m = L mod 13"
      using mult_div_mod_eq [of 13 L] mod_less_divisor [of 13 L] by (metis zero_less_numeral)
    show ?thesis using that L(1,2) unfolding L(3,4) [symmetric] by (auto simp: min_def)
  qed
  from this [of "length us"] show "0 < ?n" "length us \<le> ?n * UNITS_PER_ENTRY"
    using assms unfolding MAX_UNITS_def MAX_LONG_ENTRIES_def UNITS_PER_ENTRY_def div_ceil_def by blast+
qed

section \<open>Properties\<close>

text \<open>C18 (created entries): the entries written for a name that \<open>check\<close> accepts, its long-name entries when
  it needs them and its short one, are scanned back as one entry of that name with the bytes of the
  short entry, and its positions are the slots they were written to, in order.\<close>

theorem created_entry_reads_back:
  assumes sc: "\<not> ds_ended sc" "long_wf (ds_long sc)" "lr_count (ds_long sc) = 0"
    and name: "list_all scalar name" "check_name name = Inr kept" "short_name kept taken = Some (short, long)"
    and t: "length template = 32" "\<not> raw_is_long template" "\<not> raw_is_volume template"
    and len: "length ixs = length (entry_records kept short long template)" "length ats = length ixs"
  shows "\<exists>f sc'. scan_raws sc (zip ixs (zip ats (entry_records kept short long template))) = ([Entry f], sc')
    \<and> fd_name f = kept \<and> fd_raw f = raw_set_short template short 0 \<and> found_positions f = ats"
proof -
  note units = check_name_units [OF name(2,1)]
  let ?us = "units_of kept" and ?chk = "name_checksum short" and ?raw = "raw_set_short template short 0"
  have first: "length short = 11" "short_char (hd short)" using short_name_first [OF units(5) name(3)] by simp_all
  note rb = raw_set_short_bytes [OF t(1) first(1), of 0]
  have attr: "\<not> raw_is_long ?raw" "\<not> raw_is_volume ?raw" using t(2,3) rb(4) by (simp_all add: raw_is_long_def raw_is_volume_def)
  have raw: "short_char (raw_byte ?raw 0)" "length (raw_short ?raw) = 11" "hd (raw_short ?raw) = raw_byte ?raw 0"
    using first rb by simp_all
  show ?thesis
  proof (cases long)
    case False
    then obtain ix at where one: "ixs = [ix]" "ats = [at]" using len by (auto simp: entry_records_def Let_def length_Suc_conv)
    have "shown short 0 = Some kept"
      using short_name_cases(2) [OF name(3) False] exact_short_shown(1) [OF units(5)] by simp
    then have "\<exists>f. scan_slot sc ix at ?raw = (Some (Entry f), sc\<lparr>ds_long := long_reset (ds_long sc)\<rparr>) \<and> fd_name f = kept \<and> fd_raw f = ?raw
        \<and> fd_index f = ix \<and> found_positions f = [] @ [at]"
      using scan_short [OF sc(1) raw(1) attr raw(2,3), of None] sc(3) rb by (simp add: long_take_def Let_def)
    then show ?thesis using False one by (auto simp: entry_records_def Let_def)
  next
    case True
    obtain n where n: "0 < n" "n \<le> MAX_LONG_ENTRIES" "length ?us \<le> n * UNITS_PER_ENTRY"
      "long_entries ?us ?chk = map (long_entry ?us ?chk n) (rev [1..<n + 1])"
      using long_entries_count [OF units(4,3)] by metis
    have recs: "entry_records kept short long template = map (long_entry ?us ?chk n) (rev [1..<n + 1]) @ [?raw]"
      using True n(4) by (simp add: entry_records_def Let_def del: upt_Suc)
    have "length ixs = Suc n" "length ats = Suc n" using len recs by (simp_all del: upt_Suc)
    then obtain ixs' ix ats' at where l: "ixs = ixs' @ [ix]" "ats = ats' @ [at]" "length ixs' = n" "length ats' = n"
      by (metis length_Suc_conv_rev)
    let ?r = "fold (\<lambda>(e, at) r. long_push r e at) (zip (map (long_entry ?us ?chk n) (rev [1..<n + 1])) ats') (ds_long sc)"
    have "scan_raws sc (zip ixs' (zip ats' (map (long_entry ?us ?chk n) (rev [1..<n + 1])))) = ([], sc\<lparr>ds_long := ?r\<rparr>)"
      using sc(1) l n(2) by (intro scan_raws_long) (auto simp: MAX_LONG_ENTRIES_def simp del: upt_Suc)
    moreover have "run_state ?us ?chk n (n - n) ats' (fold (\<lambda>(e, at) r. long_push r e at)
        (zip (map (long_entry ?us ?chk n) (rev [n - n + 1..<n + 1])) ats') (ds_long sc))"
      by (rule long_push_all [OF n(2) sc(2)]) (use l(4) n(1) in simp_all)
    then have rs: "run_state ?us ?chk n 0 ats' ?r" unfolding diff_self_eq_0 add_0 .
    moreover have "long_take ?r (raw_short ?raw) = (Some (Some kept, lr_at ?r, n), long_reset ?r)"
      using run_state_take [OF rs n(1,2) units(2) n(3) units(3)] rb(2) units(1) l(4) by simp
    then have "\<exists>f. scan_slot (sc\<lparr>ds_long := ?r\<rparr>) ix at ?raw = (Some (Entry f), sc\<lparr>ds_long := long_reset ?r\<rparr>) \<and> fd_name f = kept
        \<and> fd_raw f = ?raw \<and> fd_index f = ix \<and> found_positions f = take n (lr_at ?r) @ [at]"
      using scan_short [OF _ raw(1) attr raw(2,3), of "sc\<lparr>ds_long := ?r\<rparr>" "Some (Some kept, lr_at ?r, n)" "long_reset ?r" kept ix at] sc(1)
      by (simp del: upt_Suc)
    moreover have "take n (lr_at ?r) = ats'" using rs l(4) by (simp add: run_state_def)
    ultimately show ?thesis
      unfolding recs l(1,2) using l(3,4) by (auto simp: zip_append scan_raws_append simp del: upt_Suc)
  qed
qed

definition sample_template :: raw where
  "sample_template = raw_new (replicate 11 32) 0x20 0 0 \<lparr>st_date = 0x21, st_time = 0, st_hundredths = 0\<rparr>"

lemma sample_template_ok:
  "length sample_template = 32" "\<not> raw_is_long sample_template" "\<not> raw_is_volume sample_template"
  using raw_new_bytes(1,4) [of "replicate 11 32" "0x20" 0 0 "\<lparr>st_date = 0x21, st_time = 0, st_hundredths = 0\<rparr>"]
  by (simp_all add: sample_template_def raw_is_long_def raw_is_volume_def ATTR_LONG_NAME_def ATTR_LONG_NAME_MASK_def
      ATTR_VOLUME_ID_def)

definition sample_scan :: dir_scan where
  "sample_scan = \<lparr>ds_slots = \<lparr>ss_cluster = 2, ss_within = 0, ss_per_cluster = 16, ss_index = 0\<rparr>, ds_long = long_new, ds_ended = False\<rparr>"

lemma sample_short: "short_name [65] (\<lambda>_. False) = Some (65 # replicate 10 32, False)"
proof -
  have "put8 (replicate 11 32) 0 65 = 65 # replicate 10 32"
    using replicate_Suc [of 10 "32 :: u8"] by (simp add: put8_def)
  then show ?thesis
    by (simp add: short_name_def exact_short_def rsplit_once_def str_bytes_def utf8_def short_char_def put_bytes_def saturating_add_def)
qed

lemma sample_check: "check_name [65, 46] = Inr [65]"
  by (simp add: check_name_def key_def len_utf16_def bad_char_def MAX_UNITS_def)

theorem created_entry_reads_back_witness:
  "\<exists>f sc'. scan_raws sample_scan (zip [0] (zip [0] (entry_records [65] (65 # replicate 10 32) False sample_template)))
     = ([Entry f], sc') \<and> fd_name f = [65]"
proof -
  have "long_wf (ds_long sample_scan)" "\<not> ds_ended sample_scan" "lr_count (ds_long sample_scan) = 0"
    by (simp_all add: sample_scan_def long_new_def long_wf_def)
  moreover have "list_all scalar [65, 46]" by (simp add: scalar_def)
  ultimately show ?thesis
    using created_entry_reads_back [OF _ _ _ _ sample_check sample_short sample_template_ok, of sample_scan "[0]" "[0]"]
    by (fastforce simp: entry_records_def)
qed

end
