(* ===== verification/Fat_Dir_Correct.thy ===== *)
theory Fat_Dir_Correct
  imports Fat_Dir
begin

text \<open>
  A directory as the slots of its chain of clusters: \<open>chain_slot\<close> is slot \<open>j\<close> of the directory, read
  straight out of the volume's contents, and what the walk over the cache returns is compared with
  it.
\<close>

section \<open>The reference\<close>

definition slots_per :: "layout \<Rightarrow> nat" where
  "slots_per l = ly_cluster_bytes l div ENTRY_BYTES"

definition slot_at :: "layout \<Rightarrow> nat list \<Rightarrow> nat \<Rightarrow> nat" where
  "slot_at l xs j = the (cluster_offset l (xs ! (j div slots_per l))) + j mod slots_per l * ENTRY_BYTES"

definition chain_slot :: "(nat \<Rightarrow> u8) \<Rightarrow> layout \<Rightarrow> nat list \<Rightarrow> nat \<Rightarrow> nat \<times> nat \<times> raw" where
  "chain_slot g l xs j = (j, slot_at l xs j, map g [slot_at l xs j..<slot_at l xs j + ENTRY_BYTES])"

definition chain_slots :: "(nat \<Rightarrow> u8) \<Rightarrow> layout \<Rightarrow> nat list \<Rightarrow> (nat \<times> nat \<times> raw) list" where
  "chain_slots g l xs = map (chain_slot g l xs) [0..<length xs * slots_per l]"

text \<open>A visitor over a list of items until it stops.\<close>

fun visit_items :: "('s \<Rightarrow> item \<Rightarrow> 's \<times> bool) \<Rightarrow> 's \<Rightarrow> item list \<Rightarrow> 's" where
  "visit_items visit s [] = s"
| "visit_items visit s (i # is) = (case visit s i of (s', go) \<Rightarrow> if go then visit_items visit s' is else s')"

text \<open>The state of a walk that has passed \<open>j\<close> slots.\<close>

definition at_slot :: "layout \<Rightarrow> nat list \<Rightarrow> slots \<Rightarrow> nat \<Rightarrow> bool" where
  "at_slot l xs s j \<longleftrightarrow> ss_per_cluster s = slots_per l \<and> ss_index s = j \<and> ss_within s \<le> slots_per l
     \<and> (\<exists>i < length xs. ss_cluster s = xs ! i \<and> j = i * slots_per l + ss_within s)"

lemma slots_per_pos: "layout_ok l \<Longrightarrow> 0 < slots_per l \<and> slots_per l * ENTRY_BYTES = ly_cluster_bytes l"
proof -
  assume l: "layout_ok l"
  have "ly_cluster_blocks l \<noteq> 0" using l by (auto simp: layout_ok_def is_power_of_two_def list_ex_iff)
  moreover have "ly_cluster_bytes l = ly_cluster_blocks l * 16 * 32" using l by (simp add: layout_ok_def BLOCK_def)
  ultimately show ?thesis by (simp add: slots_per_def ENTRY_BYTES_def)
qed

lemma is_chain_nth:
  "is_chain lk xs \<Longrightarrow> i < length xs \<Longrightarrow> lk (xs ! i) = (if Suc i < length xs then Next (xs ! Suc i) else End)"
proof (induction lk xs arbitrary: i rule: is_chain.induct)
  case (3 lk x y xs)
  then show ?case by (cases i) auto
qed auto

lemma slot_in_volume:
  assumes l: "layout_ok l" and xs: "\<forall>x \<in> set xs. is_cluster l x" and j: "j < length xs * slots_per l"
  obtains base where "j div slots_per l < length xs" "cluster_offset l (xs ! (j div slots_per l)) = Some base"
    "slot_at l xs j = base + j mod slots_per l * ENTRY_BYTES" "ly_data_start l * BLOCK \<le> slot_at l xs j"
    "slot_at l xs j + ENTRY_BYTES \<le> ly_sectors l * BLOCK"
proof -
  note per = slots_per_pos [OF l]
  have i: "j div slots_per l < length xs" using j by (simp add: less_mult_imp_div_less)
  then have "is_cluster l (xs ! (j div slots_per l))" using xs by simp
  then obtain base where b: "cluster_offset l (xs ! (j div slots_per l)) = Some base" "ly_data_start l * BLOCK \<le> base"
    "base + ly_cluster_bytes l \<le> ly_sectors l * BLOCK" using cluster_offset_in [OF l] by blast
  have "Suc (j mod slots_per l) * ENTRY_BYTES \<le> slots_per l * ENTRY_BYTES"
    using per by (intro mult_le_mono1) (simp add: Suc_leI)
  then have "j mod slots_per l * ENTRY_BYTES + ENTRY_BYTES \<le> ly_cluster_bytes l" using per by simp
  then show thesis using that [OF i b(1)] b by (simp add: slot_at_def)
qed

context answering_device
begin

lemma fat_next_ok:
  assumes v: "volume_ok l c" "in_u64 c" and xs: "is_chain (link_at (logical_byte c) l) xs" "\<forall>x \<in> set xs. is_cluster l x"
    and i: "i < length xs"
  shows "\<exists>c'. fat_next B l c (xs ! i) = (Inr (if Suc i < length xs then Some (xs ! Suc i) else None), c') \<and> keeps c c'"
proof -
  have ok: "cache_ok c" using v(1) by (simp add: volume_ok_def)
  have "is_cluster l (xs ! i)" using xs(2) i by simp
  from fat_link_ok [OF v this] obtain c' where fl: "fat_link B l c (xs ! i) = (Inr (link_at (logical_byte c) l (xs ! i)), c')" by blast
  then show ?thesis using is_chain_nth [OF xs(1) i] fat_link_spec(1) [OF ok fl] by (simp add: fat_next_def)
qed

lemma slots_here_ok:
  assumes v: "volume_ok l c" "in_u64 c" and xs: "\<forall>x \<in> set xs. is_cluster l x" "length xs * slots_per l \<le> MAX_ENTRIES"
    and s: "at_slot l xs s j" "ss_within s < slots_per l"
  shows "\<exists>s' c'. slots_here B l c s = (Inr (Some (chain_slot (logical_byte c) l xs j)), s', c') \<and> keeps c c' \<and> at_slot l xs s' (Suc j)"
proof -
  have ok: "layout_ok l" "cache_ok c" "ly_sectors l * BLOCK \<le> blocks_of c * BLOCK" using v(1) by (auto simp: volume_ok_def)
  obtain i where i: "i < length xs" "ss_cluster s = xs ! i" "j = i * slots_per l + ss_within s" "ss_index s = j"
    using s(1) by (auto simp: at_slot_def)
  have "Suc i * slots_per l \<le> length xs * slots_per l" using i(1) by (intro mult_le_mono1) simp
  then have j: "j < length xs * slots_per l" using i(3) s(2) by simp
  have dm: "j div slots_per l = i" "j mod slots_per l = ss_within s" using i(3) s(2) by simp_all
  obtain base where b: "cluster_offset l (ss_cluster s) = Some base" "slot_at l xs j = base + ss_within s * ENTRY_BYTES"
    "slot_at l xs j + ENTRY_BYTES \<le> ly_sectors l * BLOCK"
    using slot_in_volume [OF ok(1) xs(1) j] dm i(2) by metis
  have "slot_at l xs j + 32 \<le> blocks_of c * BLOCK" using le_trans [OF b(3) ok(3)] by (simp add: ENTRY_BYTES_def)
  from read_at_ok [OF ok(2) v(2) this] obtain bs c' where r: "read_at B c (slot_at l xs j) 32 = (Inr bs, c')" by blast
  have spec: "keeps c c'" "bs = map (logical_byte c) [slot_at l xs j..<slot_at l xs j + 32]" using read_at_spec [OF ok(2) r] by auto
  have "\<not> ss_index s \<ge> MAX_ENTRIES" using i(4) j xs(2) by simp
  then have "slots_here B l c s = (Inr (Some (chain_slot (logical_byte c) l xs j)), s\<lparr>ss_index := Suc j, ss_within := Suc (ss_within s)\<rparr>, c')"
    using b r spec(2) i(4) by (simp add: slots_here_def Let_def chain_slot_def ENTRY_BYTES_def)
  moreover have "at_slot l xs (s\<lparr>ss_index := Suc j, ss_within := Suc (ss_within s)\<rparr>) (Suc j)"
    using s i by (auto simp: at_slot_def)
  ultimately show ?thesis using spec(1) by blast
qed

lemma slots_next_ok:
  assumes v: "volume_ok l c" "in_u64 c"
    and xs: "is_chain (link_at (logical_byte c) l) xs" "\<forall>x \<in> set xs. is_cluster l x" "length xs * slots_per l \<le> MAX_ENTRIES"
    and s: "at_slot l xs s j"
  shows "\<exists>s' c'. slots_next B l c s = (Inr (if j < length xs * slots_per l then Some (chain_slot (logical_byte c) l xs j) else None), s', c')
    \<and> keeps c c' \<and> at_slot l xs s' (if j < length xs * slots_per l then Suc j else j)"
proof -
  have ok: "layout_ok l" "cache_ok c" using v(1) by (auto simp: volume_ok_def)
  obtain i where i: "i < length xs" "ss_cluster s = xs ! i" "j = i * slots_per l + ss_within s" "ss_within s \<le> slots_per l"
    "ss_per_cluster s = slots_per l" using s by (auto simp: at_slot_def)
  show ?thesis
  proof (cases "ss_within s < slots_per l")
    case True
    have "Suc i * slots_per l \<le> length xs * slots_per l" using i(1) by (intro mult_le_mono1) simp
    then have "j < length xs * slots_per l" using i(3) True by simp
    then show ?thesis using slots_here_ok [OF v xs(2,3) s True] True i(5) by (simp add: slots_next_def)
  next
    case False
    then have j: "j = Suc i * slots_per l" "ss_within s = slots_per l" using i by simp_all
    obtain c1 where n: "fat_next B l c (xs ! i) = (Inr (if Suc i < length xs then Some (xs ! Suc i) else None), c1)" "keeps c c1"
      using fat_next_ok [OF v xs(1,2) i(1)] by blast
    show ?thesis
    proof (cases "Suc i < length xs")
      case True
      have "j < length xs * slots_per l" unfolding j(1) using mult_less_mono1 [OF True] slots_per_pos [OF ok(1)] by blast
      moreover have "at_slot l xs (s\<lparr>ss_cluster := xs ! Suc i, ss_within := 0\<rparr>) j"
        using s True j by (auto simp: at_slot_def)
      from slots_here_ok [OF volume_ok_keeps [OF v(1) n(2)] _ xs(2,3) this] obtain s' c' where
        "slots_here B l c1 (s\<lparr>ss_cluster := xs ! Suc i, ss_within := 0\<rparr>) = (Inr (Some (chain_slot (logical_byte c) l xs j)), s', c')"
        "keeps c1 c'" "at_slot l xs s' (Suc j)"
        using in_u64_keeps [OF n(2)] v(2) slots_per_pos [OF ok(1)] keeps_bytes [OF n(2)] by auto
      ultimately show ?thesis using n True False i(2,5) keeps_trans [OF n(2)] by (simp add: slots_next_def)
    next
      case False
      then have "\<not> j < length xs * slots_per l" unfolding j(1) using i(1) by (metis Suc_lessI less_irrefl)
      then show ?thesis using n False j(2) i(2,5) s by (simp add: slots_next_def)
    qed
  qed
qed

end

text \<open>What a slot makes of the scan does not depend on where the walk stands.\<close>

lemma scan_slot_irrel:
  "scan_slot (sc\<lparr>ds_slots := s\<rparr>) index at raw
     = (fst (scan_slot sc index at raw), snd (scan_slot sc index at raw)\<lparr>ds_slots := s\<rparr>)"
  by (simp add: scan_slot_def Let_def split: prod.split option.split)

lemma scan_raws_step:
  "fst (scan_raws sc ((index, at, raw) # rs)) =
     (case scan_slot sc index at raw of (i, sc') \<Rightarrow> (case i of Some x \<Rightarrow> [x] | None \<Rightarrow> []) @ fst (scan_raws sc' rs))"
  by (simp add: Let_def split: prod.split option.split)

lemma scan_raws_irrel: "fst (scan_raws (sc\<lparr>ds_slots := s\<rparr>) rs) = fst (scan_raws sc rs)"
proof (induction rs arbitrary: sc)
  case (Cons r rs)
  obtain index at raw where "r = (index, at, raw)" by (cases r)
  then show ?case
    using Cons.IH by (simp add: scan_raws_step scan_slot_irrel split_beta del: scan_raws.simps)
qed simp

definition slots_from :: "(nat \<Rightarrow> u8) \<Rightarrow> layout \<Rightarrow> nat list \<Rightarrow> nat \<Rightarrow> (nat \<times> nat \<times> raw) list" where
  "slots_from g l xs j = map (chain_slot g l xs) [j..<length xs * slots_per l]"

lemma slots_from_step:
  "slots_from g l xs j = (if j < length xs * slots_per l then chain_slot g l xs j # slots_from g l xs (Suc j) else [])"
  by (simp add: slots_from_def upt_rec)

context answering_device
begin

lemma scan_next_ok:
  assumes "volume_ok l c" "in_u64 c" "is_chain (link_at (logical_byte c) l) xs" "\<forall>x \<in> set xs. is_cluster l x"
    "length xs * slots_per l \<le> MAX_ENTRIES" "at_slot l xs (ds_slots sc) j"
  shows "\<exists>sc' c' j'. keeps c c' \<and> at_slot l xs (ds_slots sc') j' \<and>
    (case fst (scan_raws sc (slots_from (logical_byte c) l xs j)) of
       [] \<Rightarrow> scan_next B l c sc = (Inr None, sc', c') \<and> length xs * slots_per l \<le> j'
     | i # rest \<Rightarrow> scan_next B l c sc = (Inr (Some i), sc', c') \<and> rest = fst (scan_raws sc' (slots_from (logical_byte c) l xs j')))"
  using assms
proof (induction "length xs * slots_per l - j" arbitrary: c sc j rule: less_induct)
  case less
  let ?g = "logical_byte c" and ?total = "length xs * slots_per l"
  obtain s c1 where sn: "slots_next B l c (ds_slots sc) = (Inr (if j < ?total then Some (chain_slot ?g l xs j) else None), s, c1)"
    "keeps c c1" "at_slot l xs s (if j < ?total then Suc j else j)"
    using slots_next_ok [OF less.prems] by blast
  show ?case
  proof (cases "j < ?total")
    case False
    then have "scan_next B l c sc = (Inr None, sc\<lparr>ds_slots := s\<rparr>, c1)" using sn(1) by (simp add: scan_next.simps [of B l c sc])
    then show ?thesis using False sn(2,3) by (intro exI [of _ "sc\<lparr>ds_slots := s\<rparr>"] exI [of _ c1] exI [of _ j]) (simp add: slots_from_step)
  next
    case True
    obtain index at raw where slot: "chain_slot ?g l xs j = (index, at, raw)" by (cases "chain_slot ?g l xs j")
    obtain i sc1 where ss: "scan_slot sc index at raw = (i, sc1)" by fastforce
    have ss': "scan_slot (sc\<lparr>ds_slots := s\<rparr>) index at raw = (i, sc1\<lparr>ds_slots := s\<rparr>)" using ss by (simp add: scan_slot_irrel)
    have items: "fst (scan_raws sc (slots_from ?g l xs j)) = (case i of Some x \<Rightarrow> [x] | None \<Rightarrow> []) @ fst (scan_raws (sc1\<lparr>ds_slots := s\<rparr>) (slots_from ?g l xs (Suc j)))"
      using True slot ss by (subst slots_from_step) (simp add: scan_raws_step scan_raws_irrel del: scan_raws.simps)
    show ?thesis
    proof (cases i)
      case (Some x)
      then have "scan_next B l c sc = (Inr (Some x), sc1\<lparr>ds_slots := s\<rparr>, c1)"
        using sn(1) True slot ss' by (simp add: scan_next.simps [of B l c sc])
      then show ?thesis using Some items sn(2,3) True
        by (intro exI [of _ "sc1\<lparr>ds_slots := s\<rparr>"] exI [of _ c1] exI [of _ "Suc j"]) simp
    next
      case None
      have g: "logical_byte c1 = ?g" using keeps_bytes [OF sn(2)] .
      have "?total - Suc j < ?total - j" using True by simp
      note IH = less.hyps [OF this volume_ok_keeps [OF less.prems(1) sn(2)], of "sc1\<lparr>ds_slots := s\<rparr>"]
      have "scan_next B l c sc = scan_next B l c1 (sc1\<lparr>ds_slots := s\<rparr>)"
        using sn(1) True slot ss' None by (simp add: scan_next.simps [of B l c sc])
      then show ?thesis using IH in_u64_keeps [OF sn(2)] less.prems(2-5) sn(3) True items None keeps_trans [OF sn(2)]
        unfolding g by (simp split: list.splits) blast+
    qed
  qed
qed

lemma scan_while_ok:
  assumes "volume_ok l c" "in_u64 c" "is_chain (link_at (logical_byte c) l) xs" "\<forall>x \<in> set xs. is_cluster l x"
    "length xs * slots_per l \<le> MAX_ENTRIES" "at_slot l xs (ds_slots sc) j"
  shows "\<exists>sc' c' j'. keeps c c' \<and> at_slot l xs (ds_slots sc') j' \<and>
    scan_while B l visit c sc s = (None, visit_items visit s (fst (scan_raws sc (slots_from (logical_byte c) l xs j))), sc', c')
    \<and> ((\<forall>s i. snd (visit s i)) \<longrightarrow> length xs * slots_per l \<le> j')"
  using assms
proof (induction "MAX_ENTRIES - j" arbitrary: c sc s j rule: less_induct)
  case less
  let ?g = "logical_byte c" and ?total = "length xs * slots_per l"
  obtain sc1 c1 j1 where sn: "keeps c c1" "at_slot l xs (ds_slots sc1) j1"
    "case fst (scan_raws sc (slots_from ?g l xs j)) of
       [] \<Rightarrow> scan_next B l c sc = (Inr None, sc1, c1) \<and> ?total \<le> j1
     | i # rest \<Rightarrow> scan_next B l c sc = (Inr (Some i), sc1, c1) \<and> rest = fst (scan_raws sc1 (slots_from ?g l xs j1))"
    using scan_next_ok [OF less.prems] by blast
  show ?case
  proof (cases "fst (scan_raws sc (slots_from ?g l xs j))")
    case Nil
    then show ?thesis using sn by (auto simp: scan_while.simps [of B l visit c sc s])
  next
    case (Cons i rest)
    then have n: "scan_next B l c sc = (Inr (Some i), sc1, c1)" "rest = fst (scan_raws sc1 (slots_from ?g l xs j1))"
      using sn(3) by simp_all
    obtain s1 go where v: "visit s i = (s1, go)" by fastforce
    show ?thesis
    proof (cases go)
      case False
      then have "\<not> (\<forall>s i. snd (visit s i))" using v by (metis snd_conv)
      moreover have "scan_while B l visit c sc s = (None, visit_items visit s (fst (scan_raws sc (slots_from ?g l xs j))), sc1, c1)"
        using False n v Cons by (simp add: scan_while.simps [of B l visit c sc s])
      ultimately show ?thesis using sn(1,2) by blast
    next
      case True
      have "MAX_ENTRIES - j1 < MAX_ENTRIES - j"
        using scan_next_index [OF n(1)] sn(2) less.prems(6) by (auto simp: at_slot_def)
      from less.hyps [OF this volume_ok_keeps [OF less.prems(1) sn(1)] _ _ less.prems(4,5) sn(2), of s1]
      show ?thesis
        using in_u64_keeps [OF sn(1)] less.prems(2,3) keeps_trans [OF sn(1)] True v n Cons
        unfolding keeps_bytes [OF sn(1)] by (simp add: scan_while.simps [of B l visit c sc s]) blast
    qed
  qed
qed

end

section \<open>The entries of a directory\<close>

definition dir_start :: dir_scan where
  "dir_start = \<lparr>ds_slots = \<lparr>ss_cluster = 0, ss_within = 0, ss_per_cluster = 0, ss_index = 0\<rparr>, ds_long = long_new, ds_ended = False\<rparr>"

definition dir_items :: "(nat \<Rightarrow> u8) \<Rightarrow> layout \<Rightarrow> nat list \<Rightarrow> item list" where
  "dir_items g l xs = fst (scan_raws dir_start (chain_slots g l xs))"

text \<open>After the end mark of a directory there are only free slots.\<close>

lemma scan_ended: "ds_ended sc \<Longrightarrow> scan_raws sc rs = (map (\<lambda>(index, at, raw). FreeSlot index) rs, sc)"
  by (induction rs) (auto simp: scan_slot_def)

lemma scan_raws_end:
  "fst (scan_raws sc rs) = is @ EndSlot e # js \<Longrightarrow> \<forall>i \<in> set js. \<exists>k. i = FreeSlot k"
proof (induction rs arbitrary: sc "is")
  case (Cons r rs)
  obtain index at raw where r: "r = (index, at, raw)" by (cases r)
  obtain i sc1 where ss: "scan_slot sc index at raw = (i, sc1)" by fastforce
  have eq: "(case i of Some x \<Rightarrow> [x] | None \<Rightarrow> []) @ fst (scan_raws sc1 rs) = is @ EndSlot e # js"
    using Cons.prems r ss by (simp add: scan_raws_step del: scan_raws.simps)
  show ?case
  proof (cases "i = Some (EndSlot e) \<and> is = []")
    case True
    then have "ds_ended sc1" using ss by (auto simp: scan_slot_def Let_def split: if_splits prod.splits option.splits)
    then show ?thesis using eq True by (auto simp: scan_ended)
  next
    case False
    have "\<exists>is'. fst (scan_raws sc1 rs) = is' @ EndSlot e # js"
    proof (cases i)
      case (Some x)
      then show ?thesis using eq False by (cases "is") auto
    qed (use eq in auto)
    then show ?thesis using Cons.IH by blast
  qed
qed simp

definition dir_entries :: "item list \<Rightarrow> found list" where
  "dir_entries is = List.map_filter (\<lambda>i. case i of Entry f \<Rightarrow> Some f | _ \<Rightarrow> None) is"

definition quiet_end :: "item list \<Rightarrow> bool" where
  "quiet_end is \<longleftrightarrow> (\<forall>is1 e js. is = is1 @ EndSlot e # js \<longrightarrow> (\<forall>i \<in> set js. \<exists>k. i = FreeSlot k))"

lemma quiet_end_Cons: "quiet_end (i # is) \<Longrightarrow> quiet_end is"
  unfolding quiet_end_def by (metis append_Cons)

lemma quiet_end_EndSlot: "quiet_end (EndSlot e # is) \<Longrightarrow> \<forall>i \<in> set is. \<exists>k. i = FreeSlot k"
  unfolding quiet_end_def by (metis append_Nil)

lemma dir_items_quiet: "quiet_end (dir_items g l xs)"
  unfolding quiet_end_def dir_items_def by (auto dest: scan_raws_end)

lemma dir_entries_simps [simp]:
  "dir_entries [] = []" "dir_entries (Entry f # is) = f # dir_entries is" "dir_entries (Other s d v # is) = dir_entries is"
  "dir_entries (FreeSlot k # is) = dir_entries is" "dir_entries (EndSlot k # is) = dir_entries is"
  by (simp_all add: dir_entries_def map_filter_simps)

lemma dir_entries_free: "\<forall>i \<in> set is. \<exists>k. i = FreeSlot k \<Longrightarrow> dir_entries is = []"
  by (induction "is") auto

lemma visit_simps:
  "find_visit w s (Entry f) = (if names_entry f w (short_of w) then (Some f, False) else (s, True))"
  "find_visit w s (Other short dot volume) = (s, True)" "find_visit w s (FreeSlot k) = (s, True)"
  "find_visit w s (EndSlot k) = (None, False)"
  "empty_visit e (Entry f) = (False, False)"
  "empty_visit e (Other short dot volume) = (if \<not> dot \<and> \<not> volume then (False, False) else (e, True))"
  "empty_visit e (FreeSlot k) = (e, True)" "empty_visit e (EndSlot k) = (True, False)"
  by (simp_all add: find_visit_def empty_visit_def)

lemma find_items:
  "quiet_end is \<Longrightarrow> visit_items (find_visit wanted) None is = List.find (\<lambda>f. names_entry f wanted (short_of wanted)) (dir_entries is)"
proof (induction "is")
  case (Cons i "is")
  then have IH: "visit_items (find_visit wanted) None is = List.find (\<lambda>f. names_entry f wanted (short_of wanted)) (dir_entries is)"
    using quiet_end_Cons by blast
  show ?case
  proof (cases i)
    case (EndSlot e)
    then show ?thesis using quiet_end_EndSlot Cons.prems by (simp add: visit_simps dir_entries_free)
  qed (simp_all add: visit_simps IH)
qed simp

lemma empty_items:
  "quiet_end is \<Longrightarrow> visit_items empty_visit True is \<longleftrightarrow> dir_entries is = [] \<and> (\<nexists>short. Other short False False \<in> set is)"
proof (induction "is")
  case (Cons i "is")
  then have IH: "visit_items empty_visit True is \<longleftrightarrow> dir_entries is = [] \<and> (\<nexists>short. Other short False False \<in> set is)"
    using quiet_end_Cons by blast
  show ?case
  proof (cases i)
    case (EndSlot e)
    then show ?thesis using quiet_end_EndSlot Cons.prems by (force simp: visit_simps dir_entries_free)
  qed (auto simp: visit_simps IH)
qed simp

lemma scan_new_start:
  assumes "is_cluster l (hd xs)" "xs \<noteq> []"
  obtains sc where "scan_new l (hd xs) = Inr sc" "at_slot l xs (ds_slots sc) 0"
    "fst (scan_raws sc (slots_from g l xs 0)) = dir_items g l xs"
proof
  let ?s = "\<lparr>ss_cluster = hd xs, ss_within = 0, ss_per_cluster = slots_per l, ss_index = 0\<rparr>"
  let ?sc = "\<lparr>ds_slots = ?s, ds_long = long_new, ds_ended = False\<rparr>"
  show "scan_new l (hd xs) = Inr ?sc" using assms(1) by (simp add: scan_new_def slots_new_def slots_per_def)
  show "at_slot l xs (ds_slots ?sc) 0" using assms(2) by (auto simp: at_slot_def hd_conv_nth intro!: exI [of _ 0])
  have "?sc = dir_start\<lparr>ds_slots := ?s\<rparr>" by (simp add: dir_start_def)
  then show "fst (scan_raws ?sc (slots_from g l xs 0)) = dir_items g l xs"
    by (metis scan_raws_irrel dir_items_def chain_slots_def slots_from_def)
qed

context answering_device
begin

text \<open>The directory of a volume that can be walked: its clusters, whole and not too many.\<close>

definition dir_ok :: "layout \<Rightarrow> 'a cache \<Rightarrow> nat list \<Rightarrow> bool" where
  "dir_ok l c xs \<longleftrightarrow> volume_ok l c \<and> in_u64 c \<and> is_chain (link_at (logical_byte c) l) xs \<and> is_cluster l (hd xs)
     \<and> length xs * slots_per l \<le> MAX_ENTRIES"

lemma dir_scan_ok:
  assumes d: "dir_ok l c xs"
  obtains sc sc' c' j where "scan_new l (hd xs) = Inr sc" "keeps c c'" "at_slot l xs (ds_slots sc') j"
    "scan_while B l visit c sc s = (None, visit_items visit s (dir_items (logical_byte c) l xs), sc', c')"
    "\<forall>s i. snd (visit s i) \<Longrightarrow> length xs * slots_per l \<le> j"
proof -
  have "xs \<noteq> []" using d by (auto simp: dir_ok_def)
  with d obtain sc where sc: "scan_new l (hd xs) = Inr sc" "at_slot l xs (ds_slots sc) 0"
    "fst (scan_raws sc (slots_from (logical_byte c) l xs 0)) = dir_items (logical_byte c) l xs"
    using scan_new_start unfolding dir_ok_def by metis
  have "\<forall>x \<in> set xs. is_cluster l x" using is_chain_clusters d by (auto simp: dir_ok_def)
  with d obtain sc' c' j' where "keeps c c'" "at_slot l xs (ds_slots sc') j'"
    "scan_while B l visit c sc s = (None, visit_items visit s (dir_items (logical_byte c) l xs), sc', c')"
    "(\<forall>s i. snd (visit s i)) \<longrightarrow> length xs * slots_per l \<le> j'"
    using scan_while_ok [of l c xs sc 0 visit s, unfolded sc(3)] sc(2) unfolding dir_ok_def by blast
  then show thesis using that sc(1) by blast
qed

lemma dir_find_ok:
  assumes "dir_ok l c xs"
  shows "\<exists>c'. dir_find B l c (hd xs) wanted = (Inr (List.find (\<lambda>f. names_entry f wanted (short_of wanted))
    (dir_entries (dir_items (logical_byte c) l xs))), c') \<and> keeps c c'"
proof -
  obtain sc sc' c' where "scan_new l (hd xs) = Inr sc" "keeps c c'"
    "scan_while B l (find_visit wanted) c sc None = (None, visit_items (find_visit wanted) None (dir_items (logical_byte c) l xs), sc', c')"
    using dir_scan_ok [OF assms, of "find_visit wanted" None] by metis
  then show ?thesis using find_items [OF dir_items_quiet] by (simp add: dir_find_def)
qed

lemma dir_is_empty_ok:
  assumes "dir_ok l c xs"
  shows "\<exists>c'. dir_is_empty B l c (hd xs) = (Inr (dir_entries (dir_items (logical_byte c) l xs) = []
    \<and> (\<nexists>short. Other short False False \<in> set (dir_items (logical_byte c) l xs))), c') \<and> keeps c c'"
proof -
  obtain sc sc' c' where "scan_new l (hd xs) = Inr sc" "keeps c c'"
    "scan_while B l empty_visit c sc True = (None, visit_items empty_visit True (dir_items (logical_byte c) l xs), sc', c')"
    using dir_scan_ok [OF assms, of empty_visit True] by metis
  then show ?thesis using empty_items [OF dir_items_quiet] by (simp add: dir_is_empty_def)
qed

end

section \<open>Room\<close>

definition free_at :: "item list \<Rightarrow> nat set" where
  "free_at is = {k. FreeSlot k \<in> set is \<or> EndSlot k \<in> set is}"

definition run_in :: "nat set \<Rightarrow> nat \<Rightarrow> nat \<Rightarrow> bool" where
  "run_in F start n \<longleftrightarrow> {start..<start + n} \<subseteq> F"

definition sector_run_in :: "nat set \<Rightarrow> nat \<Rightarrow> nat \<Rightarrow> bool" where
  "sector_run_in F start n \<longleftrightarrow> run_in F start n \<and> start mod SLOTS_PER_SECTOR + n \<le> SLOTS_PER_SECTOR"

text \<open>What a survey knows of the free slots it has met.\<close>

definition survey_ok :: "nat set \<Rightarrow> survey \<Rightarrow> bool" where
  "survey_ok F v \<longleftrightarrow> (\<forall>k. sv_first_free v = Some k \<longrightarrow> k \<in> F)
     \<and> run_in F (sv_run_start v) (sv_run_len v)
     \<and> (\<forall>k. sv_first_run v = Some k \<longrightarrow> run_in F k (sv_run_wanted v))
     \<and> (0 < sv_sector_run_len v \<longrightarrow> sector_run_in F (sv_sector_run_start v) (sv_sector_run_len v))
     \<and> (\<forall>k. sv_first_sector_run v = Some k \<longrightarrow> sector_run_in F k (sv_run_wanted v))"

lemma run_in_Suc: "run_in F start n \<Longrightarrow> start + n \<in> F \<Longrightarrow> run_in F start (Suc n)"
  by (auto simp: run_in_def less_Suc_eq)

lemma run_in_le: "run_in F start n \<Longrightarrow> m \<le> n \<Longrightarrow> run_in F start m"
  by (auto simp: run_in_def)

lemma sector_run_in_le: "sector_run_in F start n \<Longrightarrow> m \<le> n \<Longrightarrow> sector_run_in F start m"
  using run_in_le by (auto simp: sector_run_in_def)

lemma sector_run_in_Suc:
  assumes "sector_run_in F start n" "start + n \<in> F" "(start + n) mod SLOTS_PER_SECTOR \<noteq> 0"
  shows "sector_run_in F start (Suc n)"
proof -
  have "start mod SLOTS_PER_SECTOR + n \<noteq> SLOTS_PER_SECTOR" using assms(3) by (metis mod_add_left_eq mod_self)
  then show ?thesis using assms run_in_Suc by (auto simp: sector_run_in_def)
qed

lemma sector_run_one: "k \<in> F \<Longrightarrow> sector_run_in F k (Suc 0)"
  by (simp add: sector_run_in_def run_in_def SLOTS_PER_SECTOR_def Suc_leI)

lemma survey_run_ok:
  assumes ok: "survey_ok F v" and k: "index \<in> F" "index < U32_MAX"
  shows "survey_ok F (survey_run v index) \<and> sv_run_wanted (survey_run v index) = sv_run_wanted v"
proof -
  let ?far = "sv_run_len v = 0 \<or> saturating_add U32_MAX (sv_run_start v) (sv_run_len v) \<noteq> index"
  define start n where "start = (if ?far then index else sv_run_start v)" and "n = (if ?far then 1 else sv_run_len v + 1)"
  have run: "run_in F start n"
  proof (cases ?far)
    case True
    then show ?thesis using k(1) by (auto simp: start_def n_def run_in_def)
  next
    case False
    then have "sv_run_start v + sv_run_len v = index" using k(2) by (auto simp: saturating_add_def min_def split: if_splits)
    then show ?thesis using False ok k(1) run_in_Suc [of F "sv_run_start v" "sv_run_len v"]
      by (simp add: start_def n_def survey_ok_def)
  qed
  have "survey_run v index = v\<lparr>sv_run_start := start, sv_run_len := n,
      sv_first_run := (if n \<ge> sv_run_wanted v \<and> sv_first_run v = None then Some start else sv_first_run v)\<rparr>"
    by (cases ?far) (simp_all add: survey_run_def Let_def start_def n_def)
  then show ?thesis using ok run run_in_le [OF run] by (auto simp: survey_ok_def)
qed

lemma survey_sector_run_ok:
  assumes ok: "survey_ok F v" and k: "index \<in> F" "index < U32_MAX"
  shows "survey_ok F (survey_sector_run v index) \<and> sv_run_wanted (survey_sector_run v index) = sv_run_wanted v"
proof -
  let ?far = "sv_sector_run_len v = 0 \<or> index mod SLOTS_PER_SECTOR = 0
    \<or> saturating_add U32_MAX (sv_sector_run_start v) (sv_sector_run_len v) \<noteq> index"
  define start n where "start = (if ?far then index else sv_sector_run_start v)" and "n = (if ?far then 1 else sv_sector_run_len v + 1)"
  have run: "sector_run_in F start n"
  proof (cases ?far)
    case True
    then show ?thesis using sector_run_one [OF k(1)] by (simp add: start_def n_def)
  next
    case False
    then have "sv_sector_run_start v + sv_sector_run_len v = index"
      using k(2) by (auto simp: saturating_add_def min_def split: if_splits)
    then show ?thesis using False ok k(1) sector_run_in_Suc [of F "sv_sector_run_start v" "sv_sector_run_len v"]
      by (simp add: start_def n_def survey_ok_def)
  qed
  have "survey_sector_run v index = v\<lparr>sv_sector_run_start := start, sv_sector_run_len := n,
      sv_first_sector_run := (if n \<ge> sv_run_wanted v \<and> sv_first_sector_run v = None then Some start else sv_first_sector_run v)\<rparr>"
    by (cases ?far) (simp_all add: survey_sector_run_def Let_def start_def n_def)
  then show ?thesis using ok run sector_run_in_le [OF run] by (auto simp: survey_ok_def)
qed

lemma survey_free_ok:
  assumes ok: "survey_ok F v" and k: "index \<in> F" "index < U32_MAX"
  shows "survey_ok F (survey_free v index) \<and> sv_run_wanted (survey_free v index) = sv_run_wanted v"
proof -
  let ?v = "v\<lparr>sv_first_free := (case sv_first_free v of Some i \<Rightarrow> Some i | None \<Rightarrow> Some index)\<rparr>"
  have "survey_ok F ?v" using ok k(1) by (auto simp: survey_ok_def split: option.split)
  from survey_run_ok [OF this k] have r: "survey_ok F (survey_run ?v index)" "sv_run_wanted (survey_run ?v index) = sv_run_wanted v" by simp_all
  from survey_sector_run_ok [OF r(1) k] r(2) show ?thesis by (simp add: survey_free_def)
qed

lemma survey_visit_go: "snd (survey_visit wanted except v i)"
  by (simp add: survey_visit_def Let_def split: item.split)

lemma survey_visit_ok:
  assumes "survey_ok F v" "free_at [i] \<subseteq> F" "F \<subseteq> {..<U32_MAX}"
  shows "survey_ok F (fst (survey_visit wanted except v i)) \<and> sv_run_wanted (fst (survey_visit wanted except v i)) = sv_run_wanted v"
proof (cases i)
  case (FreeSlot k)
  then have "k \<in> F" "k < U32_MAX" using assms(2,3) by (auto simp: free_at_def)
  then show ?thesis using FreeSlot survey_free_ok [OF assms(1)] by (simp add: survey_visit_def)
next
  case (EndSlot k)
  let ?v = "if sv_end v = None then v\<lparr>sv_end := Some k\<rparr> else v"
  have "k \<in> F" "k < U32_MAX" using EndSlot assms(2,3) by (auto simp: free_at_def)
  moreover have "survey_ok F ?v" "sv_run_wanted ?v = sv_run_wanted v" using assms(1) by (simp_all add: survey_ok_def)
  ultimately show ?thesis using EndSlot survey_free_ok [of F ?v k]
    unfolding survey_visit_def EndSlot by (simp only: item.case fst_conv simp_thms)
qed (use assms(1) in \<open>simp_all add: survey_visit_def survey_ok_def Let_def\<close>)

lemma survey_items:
  "survey_ok F v \<Longrightarrow> free_at is \<subseteq> F \<Longrightarrow> F \<subseteq> {..<U32_MAX} \<Longrightarrow>
     survey_ok F (visit_items (survey_visit wanted except) v is)
     \<and> sv_run_wanted (visit_items (survey_visit wanted except) v is) = sv_run_wanted v"
proof (induction "is" arbitrary: v)
  case (Cons i "is")
  have "free_at [i] \<subseteq> F" "free_at is \<subseteq> F" using Cons.prems(2) by (auto simp: free_at_def)
  then show ?case using Cons survey_visit_ok [of F v i wanted except] survey_visit_go [of wanted except v i]
    by (cases "survey_visit wanted except v i") simp
qed simp

definition placed :: "nat set \<Rightarrow> nat \<Rightarrow> nat \<Rightarrow> nat \<times> nat \<Rightarrow> bool" where
  "placed F top_slot n = (\<lambda>(start, missing). {start..<min (start + n) top_slot} \<subseteq> F \<and> start + n \<le> top_slot + missing
     \<and> (n \<le> SLOTS_PER_SECTOR \<longrightarrow> start mod SLOTS_PER_SECTOR + n \<le> SLOTS_PER_SECTOR))"

lemma run_in_below: "run_in F start n \<Longrightarrow> F \<subseteq> {..<top_slot} \<Longrightarrow> 0 < n \<Longrightarrow> start + n \<le> top_slot"
proof -
  assume r: "run_in F start n" "F \<subseteq> {..<top_slot}" "0 < n"
  then have "start + n - 1 \<in> {start..<start + n}" by simp
  then have "start + n - 1 \<in> {..<top_slot}" using r(1,2) unfolding run_in_def by blast
  then show ?thesis by simp
qed

lemma run_in_placed:
  "run_in F start n \<Longrightarrow> F \<subseteq> {..<top_slot} \<Longrightarrow> 0 < n \<Longrightarrow> n > SLOTS_PER_SECTOR \<or> start mod SLOTS_PER_SECTOR + n \<le> SLOTS_PER_SECTOR \<Longrightarrow>
   placed F top_slot n (start, 0)"
  using run_in_below [of F start n top_slot] by (auto simp: placed_def run_in_def)

lemma place_ok:
  assumes v: "survey_ok F v" "F \<subseteq> {..<sv_total v}" "sv_total v mod SLOTS_PER_SECTOR = 0" "sv_total v < U32_MAX" and n: "0 < n"
  shows "placed F (sv_total v) n (place v n)"
proof -
  define room where "room =
        (if n \<le> 1 then sv_first_free v
         else if n \<le> sv_run_wanted v then
           (case sv_first_sector_run v of
              Some index \<Rightarrow> Some index
            | None \<Rightarrow> if n > SLOTS_PER_SECTOR then sv_first_run v else None)
         else None)"
  note p = place_def [of v n, folded room_def, unfolded Let_def]
  show ?thesis
  proof (cases room)
    case (Some k)
    have "placed F (sv_total v) n (k, 0)"
    proof (cases "n \<le> 1")
      case True
      then have "n = Suc 0" "k \<in> F" using n Some v(1) by (auto simp: room_def survey_ok_def)
      then show ?thesis using sector_run_one [of k F] v(2) n by (auto simp: sector_run_in_def intro: run_in_placed)
    next
      case False
      then have w: "n \<le> sv_run_wanted v" using Some by (simp add: room_def split: if_splits)
      show ?thesis
      proof (cases "sv_first_sector_run v")
        case None
        then have "n > SLOTS_PER_SECTOR" "sv_first_run v = Some k" using Some False w by (auto simp: room_def split: if_splits)
        then show ?thesis using v(1,2) n run_in_le [OF _ w] by (auto simp: survey_ok_def intro: run_in_placed)
      next
        case (Some k')
        then have "sector_run_in F k (sv_run_wanted v)" using \<open>room = Some k\<close> False w v(1) by (auto simp: room_def survey_ok_def)
        then have "sector_run_in F k n" using sector_run_in_le w by blast
        then show ?thesis using v(2) n by (auto simp: sector_run_in_def intro: run_in_placed)
      qed
    qed
    then show ?thesis using Some by (simp add: p)
  next
    case None
    show ?thesis
    proof (cases "n \<le> SLOTS_PER_SECTOR")
      case True
      then show ?thesis using None v(3) by (simp add: p placed_def)
    next
      case False
      let ?trail = "saturating_add U32_MAX (sv_run_start v) (sv_run_len v) = sv_total v \<and> sv_run_len v > 0"
      have "sv_run_start v + sv_run_len v = sv_total v" if ?trail
        using that v(4) by (auto simp: saturating_add_def min_def split: if_splits)
      moreover have "run_in F (sv_run_start v) (sv_run_len v)" using v(1) by (simp add: survey_ok_def)
      ultimately show ?thesis using None False
        by (cases ?trail) (auto simp: p placed_def run_in_def)
    qed
  qed
qed

lemma free_at_bound: "free_at (fst (scan_raws sc rs)) \<subseteq> fst ` set rs"
proof (induction rs arbitrary: sc)
  case (Cons r rs)
  obtain index at raw where r: "r = (index, at, raw)" by (cases r)
  have "k = index" if "fst (scan_slot sc index at raw) = Some (FreeSlot k) \<or> fst (scan_slot sc index at raw) = Some (EndSlot k)" for k
    using that by (auto simp: scan_slot_def Let_def split: if_splits prod.splits option.splits)
  then show ?case using Cons.IH r by (fastforce simp: scan_raws_step free_at_def split_beta simp del: scan_raws.simps split: option.splits)
qed (simp add: free_at_def)

lemma dir_items_free: "free_at (dir_items g l xs) \<subseteq> {..<length xs * slots_per l}"
  using free_at_bound [of dir_start "chain_slots g l xs"] by (auto simp: dir_items_def chain_slots_def chain_slot_def)

context answering_device
begin

lemma dir_survey_ok:
  assumes d: "dir_ok l c xs"
  shows "\<exists>v c'. dir_survey B l c (hd xs) wanted run_wanted except = (Inr v, c') \<and> keeps c c'
    \<and> sv_total v = length xs * slots_per l \<and> sv_last_cluster v = last xs \<and> sv_run_wanted v = run_wanted
    \<and> survey_ok (free_at (dir_items (logical_byte c) l xs)) v"
proof -
  let ?F = "free_at (dir_items (logical_byte c) l xs)" and ?new = "survey_new (hd xs) run_wanted"
  obtain sc sc' c' j where sc: "scan_new l (hd xs) = Inr sc" "keeps c c'" "at_slot l xs (ds_slots sc') j"
    "scan_while B l (survey_visit wanted except) c sc ?new
      = (None, visit_items (survey_visit wanted except) ?new (dir_items (logical_byte c) l xs), sc', c')"
    "length xs * slots_per l \<le> j"
    using dir_scan_ok [OF d, of "survey_visit wanted except" ?new] survey_visit_go by metis
  have "layout_ok l" using d by (simp add: dir_ok_def volume_ok_def)
  note per = slots_per_pos [OF this]
  obtain i where i: "i < length xs" "ss_cluster (ds_slots sc') = xs ! i" "j = i * slots_per l + ss_within (ds_slots sc')"
    "ss_within (ds_slots sc') \<le> slots_per l" "ss_index (ds_slots sc') = j" using sc(3) by (auto simp: at_slot_def)
  have "Suc i = length xs"
  proof (rule ccontr)
    assume "Suc i \<noteq> length xs"
    then have "Suc (Suc i) * slots_per l \<le> length xs * slots_per l" using i(1) by (intro mult_le_mono1) simp
    then show False using i(3,4) sc(5) per by simp
  qed
  then have len: "length xs = Suc i" by simp
  then have "last xs = xs ! i" using last_conv_nth [of xs] by (cases xs) auto
  then have pos: "ss_cluster (ds_slots sc') = last xs" "ss_index (ds_slots sc') = length xs * slots_per l"
    using i(2-5) sc(5) len by simp_all
  have "?F \<subseteq> {..<U32_MAX}"
    using dir_items_free [of "logical_byte c" l xs] d by (auto simp: dir_ok_def MAX_ENTRIES_def U32_MAX_def)
  moreover have "survey_ok ?F ?new" by (simp add: survey_ok_def survey_new_def run_in_def)
  ultimately have v: "survey_ok ?F (visit_items (survey_visit wanted except) ?new (dir_items (logical_byte c) l xs))"
    "sv_run_wanted (visit_items (survey_visit wanted except) ?new (dir_items (logical_byte c) l xs)) = run_wanted"
    using survey_items [of ?F ?new "dir_items (logical_byte c) l xs"] by (simp_all add: survey_new_def)
  show ?thesis using sc(1,2,4) pos v by (simp add: dir_survey_def survey_ok_def)
qed

end

section \<open>Properties\<close>

text \<open>C33 (finding): on a device that answers, looking a name up in a directory returns the first of its
  entries, read straight out of the volume's contents along the directory's chain, that goes by
  that name, long or short, and nothing when there is none; nothing on the volume changes.  A
  directory is called empty exactly when it has no entry but dot entries and volume labels.\<close>

theorem dir_find_refines:
  assumes "memory.dir_ok l c xs"
  defines "items \<equiv> dir_items (memory.logical_byte c) l xs"
  shows "\<exists>c' c''. dir_find memory_blocks l c (hd xs) wanted
      = (Inr (List.find (\<lambda>f. names_entry f wanted (short_of wanted)) (dir_entries items)), c') \<and> memory.keeps c c'
    \<and> dir_is_empty memory_blocks l c (hd xs) = (Inr (dir_entries items = [] \<and> (\<nexists>short. Other short False False \<in> set items)), c'')
    \<and> memory.keeps c c''"
  using memory.dir_find_ok [OF assms(1), of wanted] memory.dir_is_empty_ok [OF assms(1)] unfolding items_def by blast

lemma sample_dir_ok: "memory.dir_ok sample_layout (set_writable w (cache_new sample_volume)) [2]"
  using sample_volume_ok [of w] sample_chain [of w]
  by (simp add: memory.dir_ok_def memory.in_u64_def slots_per_def sample_layout_def is_cluster_def ENTRY_BYTES_def MAX_ENTRIES_def)

lemma sample_dir_items:
  "dir_items (memory.logical_byte (set_writable w (cache_new sample_volume))) sample_layout [2] = EndSlot 0 # map FreeSlot [1..<16]"
proof -
  let ?g = "memory.logical_byte (set_writable w (cache_new sample_volume))"
  have per: "length [2 :: nat] * slots_per sample_layout = 16" by (simp add: slots_per_def sample_layout_def ENTRY_BYTES_def)
  have at: "slot_at sample_layout [2] 0 = 1064960"
    by (simp add: slot_at_def slots_per_def cluster_offset_def is_cluster_def sample_layout_def BLOCK_def ENTRY_BYTES_def)
  have "sample_volume ! 1064960 = 0" by (simp add: sample_volume_def)
  then have "?g 1064960 = 0" by (simp add: sample_volume_byte)
  moreover have "[1064960..<1064960 + ENTRY_BYTES] = 1064960 # [1064961..<1064960 + ENTRY_BYTES]"
    by (simp add: ENTRY_BYTES_def upt_conv_Cons)
  ultimately have slot: "chain_slot ?g sample_layout [2] 0 = (0, 1064960, 0 # map ?g [1064961..<1064960 + ENTRY_BYTES])"
    by (simp add: chain_slot_def at)
  have "chain_slots ?g sample_layout [2] = chain_slot ?g sample_layout [2] 0 # map (chain_slot ?g sample_layout [2]) [1..<16]"
    unfolding chain_slots_def per by (simp add: upt_conv_Cons)
  then show ?thesis
    unfolding dir_items_def slot
    by (simp add: scan_slot_def dir_start_def raw_byte_def END_MARK_def scan_ended comp_def chain_slot_def)
qed

theorem dir_find_refines_witness:
  "\<exists>c'. dir_find memory_blocks sample_layout (set_writable True (cache_new sample_volume)) 2 [65] = (Inr None, c')"
proof -
  have "dir_entries (EndSlot 0 # map FreeSlot [1..<16]) = []" using dir_entries_free [of "map FreeSlot [1..<16]"] by auto
  then show ?thesis using dir_find_refines [OF sample_dir_ok [of True], of "[65]"] sample_dir_items [of True] by auto
qed

text \<open>Room: where a survey of a directory places \<open>n\<close> entries, every slot up to the end of the
  directory is one the scan called free, the slots it says are missing are exactly enough for the
  rest, and as many entries as one sector holds are never spread over two sectors.\<close>

theorem place_is_free:
  assumes "memory.dir_ok l c xs" "0 < n"
  shows "\<exists>v c'. dir_survey memory_blocks l c (hd xs) wanted run_wanted except = (Inr v, c') \<and> memory.keeps c c'
    \<and> (case place v n of (start, missing) \<Rightarrow>
         (\<forall>k. start \<le> k \<and> k < start + n \<and> k < length xs * slots_per l \<longrightarrow>
            FreeSlot k \<in> set (dir_items (memory.logical_byte c) l xs) \<or> EndSlot k \<in> set (dir_items (memory.logical_byte c) l xs))
       \<and> start + n \<le> length xs * slots_per l + missing
       \<and> (n \<le> SLOTS_PER_SECTOR \<longrightarrow> start mod SLOTS_PER_SECTOR + n \<le> SLOTS_PER_SECTOR))"
proof -
  let ?items = "dir_items (memory.logical_byte c) l xs" and ?m = "length xs * slots_per l"
  obtain v c' where v: "dir_survey memory_blocks l c (hd xs) wanted run_wanted except = (Inr v, c')" "memory.keeps c c'"
    "sv_total v = ?m" "survey_ok (free_at ?items) v"
    using memory.dir_survey_ok [OF assms(1)] by blast
  have l: "layout_ok l" "?m \<le> MAX_ENTRIES" using assms(1) by (simp_all add: memory.dir_ok_def memory.volume_ok_def)
  then have "slots_per l = ly_cluster_blocks l * SLOTS_PER_SECTOR"
    by (simp add: slots_per_def layout_ok_def BLOCK_def ENTRY_BYTES_def SLOTS_PER_SECTOR_def)
  then have "?m mod SLOTS_PER_SECTOR = 0" by simp
  moreover have "?m < U32_MAX" using l(2) by (simp add: MAX_ENTRIES_def U32_MAX_def)
  ultimately have "placed (free_at ?items) ?m n (place v n)"
    using place_ok [OF v(4) _ _ _ assms(2)] dir_items_free v(3) by simp
  then show ?thesis using v(1,2) by (intro exI [of _ v] exI [of _ c']) (auto simp: placed_def free_at_def)
qed

theorem place_is_free_witness:
  "\<exists>v c'. dir_survey memory_blocks sample_layout (set_writable True (cache_new sample_volume)) 2 [65] 1 None = (Inr v, c')
    \<and> fst (place v 1) + 1 \<le> 16 + snd (place v 1)"
  using place_is_free [OF sample_dir_ok [of True], of 1 "[65]" 1 None]
  by (fastforce simp: slots_per_def sample_layout_def ENTRY_BYTES_def split: prod.splits)

end
