(* ===== verification/Fat_Volume.thy ===== *)
theory Fat_Volume
  imports Fat_Dir_Correct
begin

text \<open>
  \<open>kernel/src/storage/fat/volume.rs\<close>: the mounted volume and its operations.  An operation is a function
  from the volume to its result and the volume it leaves, \<open>vbind\<close> is what \<open>?\<close> does, and a change made
  before an error stays made.  The clock is read at most once by an operation; what it read is the
  field \<open>vo_now\<close>.
\<close>

section \<open>The volume\<close>

definition MAX_OPEN :: nat where "MAX_OPEN = 32"
definition MAX_DIRS :: nat where "MAX_DIRS = 32"
definition ROUND_CLUSTERS :: nat where "ROUND_CLUSTERS = 1024"
definition RUN_BYTES :: nat where "RUN_BYTES = 1048576"
definition ZERO_BYTES :: nat where "ZERO_BYTES = 131072"
definition MAX_FILE :: nat where "MAX_FILE = U32_MAX"
definition LINUX_STATE :: nat where "LINUX_STATE = 65"
definition LINUX_STATE_DIRTY :: u8 where "LINUX_STATE_DIRTY = 1"
definition ATTR_ARCHIVE :: u8 where "ATTR_ARCHIVE = 0x20"

record dir_entry =
  en_name :: ustring
  en_is_dir :: bool
  en_len :: u32
  en_mtime :: int

definition entry_of :: "found \<Rightarrow> dir_entry" where
  "entry_of f =
     (let is_dir = raw_is_dir (fd_raw f)
      in \<lparr>en_name = fd_name f, en_is_dir = is_dir, en_len = (if is_dir then 0 else raw_size (fd_raw f)),
          en_mtime = raw_modified (fd_raw f)\<rparr>)"

record open_file =
  of_path :: ustring
  of_first :: nat
  of_size :: nat
  of_entry_at :: nat
  of_clusters :: nat
  of_last :: nat
  of_pos :: "(nat \<times> nat) option"

record known =
  kn_path :: ustring
  kn_cluster :: nat

datatype piece = Zeros nat | Data bytes

definition piece_len :: "piece \<Rightarrow> nat" where
  "piece_len p = (case p of Zeros n \<Rightarrow> n | Data data \<Rightarrow> length data)"

definition is_under :: "ustring \<Rightarrow> ustring \<Rightarrow> bool" where
  "is_under path ancestor \<longleftrightarrow>
     (if ancestor = [] then path \<noteq> []
      else length path > length ancestor \<and> take (length ancestor) path = ancestor \<and> path ! length ancestor = 47)"

definition split_path :: "ustring \<Rightarrow> ustring \<times> ustring" where
  "split_path path = (case rsplit_once 47 path of Some r \<Rightarrow> r | None \<Rightarrow> ([], path))"

text \<open>\<open>path.split('/')\<close> without its empty parts.\<close>

function path_parts :: "ustring \<Rightarrow> ustring list" where
  "path_parts s =
     (case dropWhile (\<lambda>c. c = 47) s of
        [] \<Rightarrow> []
      | rest \<Rightarrow> takeWhile (\<lambda>c. c \<noteq> 47) rest # path_parts (dropWhile (\<lambda>c. c \<noteq> 47) rest))"
  by pat_completeness auto

lemma dropWhile_shorter: "dropWhile P s = x # xs \<Longrightarrow> length (dropWhile (\<lambda>c. \<not> P c) (x # xs)) < length s"
proof -
  assume d: "dropWhile P s = x # xs"
  then have "\<not> P x" using hd_dropWhile [of P s] by simp
  then have "length (dropWhile (\<lambda>c. \<not> P c) (x # xs)) \<le> length xs" by (simp add: length_dropWhile_le)
  also have "\<dots> < length (dropWhile P s)" using d by simp
  also have "\<dots> \<le> length s" by (rule length_dropWhile_le)
  finally show ?thesis .
qed

termination path_parts
  by (relation "measure length") (auto dest: dropWhile_shorter [of "\<lambda>c. c = 47"])

declare path_parts.simps [simp del]

definition one_sector :: "nat list \<Rightarrow> bool" where
  "one_sector positions =
     (case positions of [] \<Rightarrow> True | first # rest \<Rightarrow> list_all (\<lambda>at. at div BLOCK = first div BLOCK) rest)"

record 'd volume =
  vo_cache :: "'d cache"
  vo_fat :: fat_table
  vo_now :: int
  vo_open :: "open_file list"
  vo_dirs :: "known list"
  vo_dirty_at_mount :: bool
  vo_marked :: bool

type_synonym ('a, 'd) vol = "'d volume \<Rightarrow> (fs_error + 'a) \<times> 'd volume"

definition vret :: "'a \<Rightarrow> ('a, 'd) vol" where
  "vret x v = (Inr x, v)"

definition vfail :: "fs_error \<Rightarrow> ('a, 'd) vol" where
  "vfail e v = (Inl e, v)"

definition vbind :: "('a, 'd) vol \<Rightarrow> ('a \<Rightarrow> ('b, 'd) vol) \<Rightarrow> ('b, 'd) vol" where
  "vbind m f v = (case m v of (Inl e, v') \<Rightarrow> (Inl e, v') | (Inr x, v') \<Rightarrow> f x v')"

text \<open>\<open>if let Err(error) = op\<close>, with what follows otherwise.\<close>

definition vtry :: "('a, 'd) vol \<Rightarrow> (fs_error \<Rightarrow> ('b, 'd) vol) \<Rightarrow> ('a \<Rightarrow> ('b, 'd) vol) \<Rightarrow> ('b, 'd) vol" where
  "vtry m h f v = (case m v of (Inl e, v') \<Rightarrow> h e v' | (Inr x, v') \<Rightarrow> f x v')"

definition vget :: "('d volume \<Rightarrow> 'a) \<Rightarrow> ('a, 'd) vol" where
  "vget f v = (Inr (f v), v)"

definition vmodify :: "('d volume \<Rightarrow> 'd volume) \<Rightarrow> (unit, 'd) vol" where
  "vmodify f v = (Inr (), f v)"

text \<open>\<open>ok_or(error)?\<close>.\<close>

definition vsome :: "fs_error \<Rightarrow> 'a option \<Rightarrow> ('a, 'd) vol" where
  "vsome e x = (case x of Some y \<Rightarrow> vret y | None \<Rightarrow> vfail e)"

text \<open>An operation of the cache or of the FAT, on the volume that holds them.\<close>

definition on_cache :: "('d cache \<Rightarrow> ('a, 'd) fat_result) \<Rightarrow> ('a, 'd) vol" where
  "on_cache op v = (case op (vo_cache v) of (r, c) \<Rightarrow> (r, v\<lparr>vo_cache := c\<rparr>))"

definition on_fat :: "(fat_table \<Rightarrow> 'd cache \<Rightarrow> (fs_error + 'a) \<times> fat_table \<times> 'd cache) \<Rightarrow> ('a, 'd) vol" where
  "on_fat op v = (case op (vo_fat v) (vo_cache v) of (r, f, c) \<Rightarrow> (r, v\<lparr>vo_cache := c, vo_fat := f\<rparr>))"

definition of_cache_error :: "cache_error option \<times> 'd cache \<Rightarrow> (unit, 'd) fat_result" where
  "of_cache_error r = (case r of (None, c) \<Rightarrow> (Inr (), c) | (Some e, c) \<Rightarrow> (Inl (fs_of_cache e), c))"

definition of_fs_error :: "fs_error option \<Rightarrow> 'a \<Rightarrow> fs_error + 'a" where
  "of_fs_error e x = (case e of None \<Rightarrow> Inr x | Some e \<Rightarrow> Inl e)"

definition v_read :: "'d blocks \<Rightarrow> nat \<Rightarrow> nat \<Rightarrow> (bytes, 'd) vol" where
  "v_read B at n = on_cache (\<lambda>c. case read_at B c at n of (Inl e, c') \<Rightarrow> (Inl (fs_of_cache e), c') | (Inr bs, c') \<Rightarrow> (Inr bs, c'))"

definition v_write :: "'d blocks \<Rightarrow> nat \<Rightarrow> bytes \<Rightarrow> (unit, 'd) vol" where
  "v_write B at data = on_cache (\<lambda>c. of_cache_error (write_at B c at data))"

definition v_flush :: "'d blocks \<Rightarrow> (unit, 'd) vol" where
  "v_flush B = on_cache (\<lambda>c. of_cache_error (cache_flush B c))"

definition v_layout :: "(layout, 'd) vol" where
  "v_layout = vget (\<lambda>v. ft_layout (vo_fat v))"

definition v_next :: "'d blocks \<Rightarrow> nat \<Rightarrow> (nat option, 'd) vol" where
  "v_next B cluster v = on_cache (\<lambda>c. fat_next B (ft_layout (vo_fat v)) c cluster) v"

definition v_set :: "'d blocks \<Rightarrow> nat \<Rightarrow> u32 \<Rightarrow> (unit, 'd) vol" where
  "v_set B cluster x v = on_cache (\<lambda>c. fat_set B (ft_layout (vo_fat v)) c cluster x) v"

definition v_walk :: "'d blocks \<Rightarrow> nat \<Rightarrow> (nat \<times> nat, 'd) vol" where
  "v_walk B first v = on_cache (\<lambda>c. fat_walk B (ft_layout (vo_fat v)) c first) v"

definition v_find :: "'d blocks \<Rightarrow> nat \<Rightarrow> ustring \<Rightarrow> (found option, 'd) vol" where
  "v_find B dir name v = on_cache (\<lambda>c. dir_find B (ft_layout (vo_fat v)) c dir name) v"

definition v_is_empty :: "'d blocks \<Rightarrow> nat \<Rightarrow> (bool, 'd) vol" where
  "v_is_empty B dir v = on_cache (\<lambda>c. dir_is_empty B (ft_layout (vo_fat v)) c dir) v"

definition v_positions :: "'d blocks \<Rightarrow> nat \<Rightarrow> nat \<Rightarrow> nat \<Rightarrow> (nat list, 'd) vol" where
  "v_positions B dir start n v = on_cache (\<lambda>c. dir_positions B (ft_layout (vo_fat v)) c dir start n) v"

definition v_survey :: "'d blocks \<Rightarrow> nat \<Rightarrow> ustring \<Rightarrow> nat \<Rightarrow> nat option \<Rightarrow> (survey, 'd) vol" where
  "v_survey B dir name run except v = on_cache (\<lambda>c. dir_survey B (ft_layout (vo_fat v)) c dir name run except) v"

definition v_free_count :: "'d blocks \<Rightarrow> (nat, 'd) vol" where
  "v_free_count B = on_fat (free_count B)"

definition v_find_free :: "'d blocks \<Rightarrow> nat \<Rightarrow> (nat list, 'd) vol" where
  "v_find_free B want = on_fat (\<lambda>f c. case find_free B f c want [] of (e, out, f', c') \<Rightarrow> (of_fs_error e out, f', c'))"

definition v_free_chain :: "'d blocks \<Rightarrow> nat \<Rightarrow> nat \<Rightarrow> (unit, 'd) vol" where
  "v_free_chain B first n = on_fat (\<lambda>f c. case free_chain B f c first n of ((e, f'), c') \<Rightarrow> (of_fs_error e (), f', c'))"

fun vfor :: "'x list \<Rightarrow> ('x \<Rightarrow> (unit, 'd) vol) \<Rightarrow> (unit, 'd) vol" where
  "vfor [] f = vret ()"
| "vfor (x # xs) f = vbind (f x) (\<lambda>_. vfor xs f)"

section \<open>Mounting, and one operation\<close>

definition mount :: "'d blocks \<Rightarrow> 'd \<Rightarrow> layout \<Rightarrow> int \<Rightarrow> fs_error + 'd volume" where
  "mount B d l now =
     (let c = cache_new d;
          (r, c) = (case ly_fsinfo l of
             None \<Rightarrow> (Inr FSI_UNKNOWN, c)
           | Some sector \<Rightarrow>
               (case read_at B c (sector * BLOCK) BLOCK of
                  (Inl e, c) \<Rightarrow> (Inl (fs_of_cache e), c)
                | (Inr bs, c) \<Rightarrow> (Inr (case fsinfo_hints bs of Some (_, next) \<Rightarrow> unat next | None \<Rightarrow> FSI_UNKNOWN), c)))
      in case r of
           Inl e \<Rightarrow> Inl e
         | Inr hint \<Rightarrow>
             (let f = fat_new l hint in
              case fat_clean B l c of
                (Inl e, _) \<Rightarrow> Inl e
              | (Inr clean, c) \<Rightarrow>
                  Inr \<lparr>vo_cache = c, vo_fat = f, vo_now = now, vo_open = [], vo_dirs = [],
                       vo_dirty_at_mount = \<not> clean, vo_marked = False\<rparr>))"

definition allow_writes :: "'d volume \<Rightarrow> 'd volume" where
  "allow_writes v = v\<lparr>vo_cache := set_writable True (vo_cache v)\<rparr>"

definition cluster_bytes :: "(nat, 'd) vol" where
  "cluster_bytes = vget (\<lambda>v. ly_cluster_bytes (ft_layout (vo_fat v)))"

definition offset_of :: "nat \<Rightarrow> (nat, 'd) vol" where
  "offset_of cluster = vbind v_layout (\<lambda>l. vsome Corrupt (cluster_offset l cluster))"

definition forget :: "'d volume \<Rightarrow> 'd volume" where
  "forget v = v\<lparr>vo_open := [], vo_dirs := []\<rparr>"

definition run :: "'d blocks \<Rightarrow> ('a, 'd) vol \<Rightarrow> ('a, 'd) vol" where
  "run B op v =
     (case (case op v of
              (Inr x, v1) \<Rightarrow> vbind (v_flush B) (\<lambda>_. vret x) v1
            | (Inl e, v1) \<Rightarrow> (Inl e, v1)) of
        (Inr x, v2) \<Rightarrow> (Inr x, v2)
      | (Inl e, v2) \<Rightarrow>
          (Inl e,
           if has_dirty (vo_cache v2) \<or> e = Io then
             forget (v2\<lparr>vo_cache := discard (vo_cache v2), vo_fat := forget_free (vo_fat v2)\<rparr>)
           else if e = Corrupt then forget v2
           else v2))"

definition set_linux_state :: "'d blocks \<Rightarrow> bool \<Rightarrow> (unit, 'd) vol" where
  "set_linux_state B dirty =
     vbind (v_read B LINUX_STATE 1) (\<lambda>bs.
       let old = bs ! 0; new = (if dirty then old OR LINUX_STATE_DIRTY else old AND NOT LINUX_STATE_DIRTY)
       in if new \<noteq> old then v_write B LINUX_STATE [new] else vret ())"

definition v_set_clean :: "'d blocks \<Rightarrow> bool \<Rightarrow> (unit, 'd) vol" where
  "v_set_clean B clean v =
     on_cache (\<lambda>c. case set_clean B (ft_layout (vo_fat v)) c clean of (r, c') \<Rightarrow> (map_sum id (\<lambda>_. ()) r, c')) v"

definition begin_write :: "'d blocks \<Rightarrow> (unit, 'd) vol" where
  "begin_write B =
     vbind (vget (\<lambda>v. (ca_writable (vo_cache v), vo_marked v, vo_dirty_at_mount v))) (\<lambda>(writable, marked, dirty).
       if \<not> writable then vfail ReadOnly
       else if \<not> marked then
         vbind (if \<not> dirty then v_set_clean B False else vret ()) (\<lambda>_.
         vbind (set_linux_state B True) (\<lambda>_.
         vbind (v_flush B) (\<lambda>_.
         vmodify (vo_marked_update (\<lambda>_. True)))))
       else vret ())"

section \<open>Directories by path\<close>

definition subdir_cluster :: "found \<Rightarrow> (nat, 'd) vol" where
  "subdir_cluster f =
     vbind v_layout (\<lambda>l.
       let cluster = unat (raw_cluster (fd_raw f)) in if is_cluster l cluster then vret cluster else vfail Corrupt)"

definition remember :: "ustring \<Rightarrow> nat \<Rightarrow> (unit, 'd) vol" where
  "remember path cluster =
     vmodify (\<lambda>v.
       let ds = filter (\<lambda>k. kn_path k \<noteq> path) (vo_dirs v);
           ds = (if length ds \<ge> MAX_DIRS then tl ds else ds)
       in v\<lparr>vo_dirs := ds @ [\<lparr>kn_path = path, kn_cluster = cluster\<rparr>]\<rparr>)"

text \<open>The deepest remembered directory above a path; of several as deep, the last.\<close>

definition deepest :: "ustring \<Rightarrow> known list \<Rightarrow> known option" where
  "deepest path ks =
     fold (\<lambda>k best. if \<not> is_under path (kn_path k) then best
        else (case best of None \<Rightarrow> Some k
              | Some b \<Rightarrow> if length (str_bytes (kn_path b)) \<le> length (str_bytes (kn_path k)) then Some k else Some b))
       ks None"

fun dir_walk :: "'d blocks \<Rightarrow> ustring list \<Rightarrow> ustring \<Rightarrow> nat \<Rightarrow> (nat, 'd) vol" where
  "dir_walk B [] walked cluster = vret cluster"
| "dir_walk B (part # parts) walked cluster =
     vbind (v_find B cluster part) (\<lambda>found.
     vbind (vsome NotFound found) (\<lambda>found.
       if \<not> raw_is_dir (fd_raw found) then vfail NotDir
       else
         vbind (subdir_cluster found) (\<lambda>cluster.
         let walked = fat_join walked (fd_name found) in
         vbind (remember walked cluster) (\<lambda>_. dir_walk B parts walked cluster))))"

text \<open>A remembered directory, moved to the end of the list.\<close>

definition touch_dir :: "ustring \<Rightarrow> (nat option, 'd) vol" where
  "touch_dir path v =
     (case List.find (\<lambda>k. kn_path k = path) (vo_dirs v) of
        Some known \<Rightarrow> (Inr (Some (kn_cluster known)), v\<lparr>vo_dirs := remove1 known (vo_dirs v) @ [known]\<rparr>)
      | None \<Rightarrow> (Inr None, v))"

definition dir_cluster :: "'d blocks \<Rightarrow> ustring \<Rightarrow> (nat, 'd) vol" where
  "dir_cluster B path =
     vbind (vget (\<lambda>v. (ly_root_cluster (ft_layout (vo_fat v)), vo_dirs v))) (\<lambda>(root, dirs).
       if path = [] then vret root
       else
         vbind (touch_dir path) (\<lambda>known.
           case known of
             Some cluster \<Rightarrow> vret cluster
           | None \<Rightarrow>
               (let (walked, cluster) =
                      (case deepest path dirs of Some k \<Rightarrow> (kn_path k, kn_cluster k) | None \<Rightarrow> ([], root))
                in dir_walk B (path_parts (drop (length walked) path)) walked cluster)))"

fun clusters_along :: "'d blocks \<Rightarrow> ustring list \<Rightarrow> ustring \<Rightarrow> nat list \<Rightarrow> (nat list, 'd) vol" where
  "clusters_along B [] walked out = vret out"
| "clusters_along B (part # parts) walked out =
     (let walked = fat_join walked part in
      vbind (dir_cluster B walked) (\<lambda>cluster. clusters_along B parts walked (out @ [cluster])))"

definition path_clusters :: "'d blocks \<Rightarrow> ustring \<Rightarrow> (nat list, 'd) vol" where
  "path_clusters B path =
     vbind (vget (\<lambda>v. ly_root_cluster (ft_layout (vo_fat v)))) (\<lambda>root. clusters_along B (path_parts path) [] [root])"

definition close_under :: "ustring \<Rightarrow> (unit, 'd) vol" where
  "close_under path =
     vmodify (\<lambda>v. v\<lparr>vo_open := filter (\<lambda>f. of_path f \<noteq> path \<and> \<not> is_under (of_path f) path) (vo_open v),
                    vo_dirs := filter (\<lambda>k. kn_path k \<noteq> path \<and> \<not> is_under (kn_path k) path) (vo_dirs v)\<rparr>)"

section \<open>Open files\<close>

definition opened :: "nat \<Rightarrow> (open_file, 'd) vol" where
  "opened slot = vbind (vget vo_open) (\<lambda>fs. if slot < length fs then vret (fs ! slot) else vfail Corrupt)"

text \<open>A change to the file \<open>opened_mut\<close> gives.\<close>

definition opened_set :: "nat \<Rightarrow> (open_file \<Rightarrow> open_file) \<Rightarrow> (unit, 'd) vol" where
  "opened_set slot f =
     vbind (opened slot) (\<lambda>_. vmodify (vo_open_update (\<lambda>fs. fs[slot := f (fs ! slot)])))"

text \<open>An open file, moved to the end of the list, and a new one put there in the place of the oldest.\<close>

definition touch_open :: "ustring \<Rightarrow> (nat option, 'd) vol" where
  "touch_open path v =
     (case List.find (\<lambda>f. of_path f = path) (vo_open v) of
        Some f \<Rightarrow> (Inr (Some (length (vo_open v) - 1)), v\<lparr>vo_open := remove1 f (vo_open v) @ [f]\<rparr>)
      | None \<Rightarrow> (Inr None, v))"

definition push_open :: "open_file \<Rightarrow> (nat, 'd) vol" where
  "push_open f v =
     (let fs = (if length (vo_open v) \<ge> MAX_OPEN then tl (vo_open v) else vo_open v)
      in (Inr (length fs), v\<lparr>vo_open := fs @ [f]\<rparr>))"

definition handle :: "'d blocks \<Rightarrow> ustring \<Rightarrow> (nat, 'd) vol" where
  "handle B path =
     vbind (touch_open path) (\<lambda>there.
       case there of
         Some slot \<Rightarrow> vret slot
       | None \<Rightarrow>
           (let (parent, name) = split_path path in
            vbind (dir_cluster B parent) (\<lambda>dir.
            vbind (v_find B dir name) (\<lambda>found.
            vbind (vsome NotFound found) (\<lambda>found.
              if raw_is_dir (fd_raw found) then vfail IsDir
              else
                let first = unat (raw_cluster (fd_raw found)); len = unat (raw_size (fd_raw found)) in
                vbind (if first = 0 then vret (0, 0) else v_walk B first) (\<lambda>(clusters, last).
                vbind cluster_bytes (\<lambda>cb.
                  if clusters * cb < len then vfail Corrupt
                  else push_open \<lparr>of_path = path, of_first = first, of_size = len, of_entry_at = fd_at found,
                         of_clusters = clusters, of_last = last, of_pos = None\<rparr>)))))))"

text \<open>Following \<open>k\<close> links.\<close>

fun follow :: "'d blocks \<Rightarrow> nat \<Rightarrow> nat \<Rightarrow> (nat, 'd) vol" where
  "follow B 0 cluster = vret cluster"
| "follow B (Suc k) cluster = vbind (v_next B cluster) (\<lambda>next. vbind (vsome Corrupt next) (follow B k))"

definition cluster_at :: "'d blocks \<Rightarrow> nat \<Rightarrow> nat \<Rightarrow> (nat, 'd) vol" where
  "cluster_at B slot index =
     vbind (opened slot) (\<lambda>f.
       if index \<ge> of_clusters f then vfail Corrupt
       else if index + 1 = of_clusters f then vret (of_last f)
       else
         let (at, cluster) =
           (case of_pos f of Some (at, cluster) \<Rightarrow> if at \<le> index then (at, cluster) else (0, of_first f) | None \<Rightarrow> (0, of_first f))
         in vbind (follow B (index - at) cluster) (\<lambda>cluster.
            vbind (opened_set slot (of_pos_update (\<lambda>_. Some (index, cluster)))) (\<lambda>_. vret cluster)))"

function run_at_loop ::
  "'d blocks \<Rightarrow> nat \<Rightarrow> nat \<Rightarrow> nat \<Rightarrow> nat \<Rightarrow> nat \<Rightarrow> nat \<Rightarrow> nat \<Rightarrow> nat \<Rightarrow> (nat, 'd) vol" where
  "run_at_loop B slot index within remaining cb clusters n prev =
     (if n * cb - within < remaining \<and> n * cb < RUN_BYTES \<and> index + n < clusters then
        vbind (cluster_at B slot (index + n)) (\<lambda>next.
          if next \<noteq> prev + 1 then vret n
          else run_at_loop B slot index within remaining cb clusters (n + 1) next)
      else vret n)"
  by pat_completeness auto

termination run_at_loop
  by (relation "measure (\<lambda>(B, slot, index, within, remaining, cb, clusters, n, prev). clusters - (index + n))") auto

declare run_at_loop.simps [simp del]

definition run_at :: "'d blocks \<Rightarrow> nat \<Rightarrow> nat \<Rightarrow> nat \<Rightarrow> nat \<Rightarrow> (nat \<times> nat, 'd) vol" where
  "run_at B slot index within remaining =
     vbind cluster_bytes (\<lambda>cb.
     vbind (opened slot) (\<lambda>f.
     vbind (cluster_at B slot index) (\<lambda>first.
     vbind (run_at_loop B slot index within remaining cb (of_clusters f) 1 first) (\<lambda>n.
     vret (first, min (n * cb - within) remaining)))))"

section \<open>Writing file contents\<close>

function write_zeros :: "'d blocks \<Rightarrow> nat \<Rightarrow> nat \<Rightarrow> nat \<Rightarrow> (unit, 'd) vol" where
  "write_zeros B zeros at len =
     (if len = 0 then vret ()
      else
        let n = min len zeros in
        if n = 0 then vfail Corrupt
        else vbind (v_write B at (replicate n 0)) (\<lambda>_. write_zeros B zeros (at + n) (len - n)))"
  by pat_completeness auto

termination write_zeros
  by (relation "measure (\<lambda>(B, zeros, at, len). len)") auto

declare write_zeros.simps [simp del]

definition write_piece :: "'d blocks \<Rightarrow> piece \<Rightarrow> nat \<Rightarrow> nat \<Rightarrow> nat \<Rightarrow> nat \<Rightarrow> (unit, 'd) vol" where
  "write_piece B p zeros at start len =
     (case p of
        Data data \<Rightarrow>
          vbind (vsome TooBig (checked_add U64_MAX start len)) (\<lambda>_.
          vbind (vsome Corrupt (slice data start len)) (\<lambda>part. v_write B at part))
      | Zeros _ \<Rightarrow> write_zeros B zeros at len)"

definition link_new :: "'d blocks \<Rightarrow> nat option \<Rightarrow> nat list \<Rightarrow> (unit, 'd) vol" where
  "link_new B prev found =
     (case found of
        [] \<Rightarrow> vret ()
      | first # _ \<Rightarrow>
          vbind (vfor (zip found (tl found)) (\<lambda>(a, b). v_set B a (word_of_nat b))) (\<lambda>_.
          vbind (v_set B (last found) FAT_LAST) (\<lambda>_.
          vbind (case prev of
                   None \<Rightarrow> vret ()
                 | Some prev \<Rightarrow>
                     vbind (if list_ex (\<lambda>cluster. cluster div ENTRIES_PER_BLOCK \<noteq> prev div ENTRIES_PER_BLOCK) found
                            then v_flush B else vret ()) (\<lambda>_.
                     v_set B prev (word_of_nat first))) (\<lambda>_.
          vbind (v_flush B) (\<lambda>_.
          vmodify (vo_fat_update (took (length found))))))))"

text \<open>
  The new clusters of one round, filled run by run: \<open>found\<close> is what is left of the list, and the result
  is how many bytes were written.
\<close>

fun adjacent :: "nat \<Rightarrow> nat list \<Rightarrow> nat" where
  "adjacent next [] = 0"
| "adjacent next (x # xs) = (if x = next then Suc (adjacent (next + 1) xs) else 0)"

lemma adjacent_le: "adjacent next xs \<le> length xs"
  by (induction xs arbitrary: "next") (auto simp: le_SucI)

function fill_round :: "'d blocks \<Rightarrow> piece \<Rightarrow> nat \<Rightarrow> nat \<Rightarrow> nat \<Rightarrow> nat list \<Rightarrow> nat \<Rightarrow> (nat, 'd) vol" where
  "fill_round B p cb tot at [] written = vret written"
| "fill_round B p cb tot at (first # rest) written =
     (let k = Suc (adjacent (first + 1) rest); n = min (k * cb) (tot - at - written) in
      vbind (offset_of first) (\<lambda>off.
      vbind (write_piece B p ZERO_BYTES off (at + written) n) (\<lambda>_.
      fill_round B p cb tot at (drop k (first # rest)) (written + n))))"
  by pat_completeness auto

termination fill_round
  by (relation "measure (\<lambda>(B, p, cb, tot, at, found, written). length found)") auto

declare fill_round.simps [simp del]

text \<open>
  The loop of \<open>fill\<close>.  Both kinds of turn move \<open>at\<close> on, because a cluster has bytes; a turn that moved
  nothing is refused here, where the code would divide by zero.
\<close>

function fill_loop :: "'d blocks \<Rightarrow> nat \<Rightarrow> nat \<Rightarrow> piece \<Rightarrow> nat \<Rightarrow> nat \<Rightarrow> (unit, 'd) vol" where
  "fill_loop B slot start p cb at =
     (let tot = piece_len p in
      if at \<ge> tot then v_flush B
      else
        let pos = start + at; index = pos div cb; within = pos mod cb in
        if index > U32_MAX then vfail TooBig
        else vbind (opened slot) (\<lambda>f.
          if index < of_clusters f then
            vbind (run_at B slot index within (tot - at)) (\<lambda>(cluster, n).
            vbind (offset_of cluster) (\<lambda>off.
            vbind (write_piece B p ZERO_BYTES (off + within) at n) (\<lambda>_.
              if n = 0 then vfail Corrupt else fill_loop B slot start p cb (at + n))))
          else if index \<noteq> of_clusters f \<or> within \<noteq> 0 then vfail Corrupt
          else
            vbind (v_find_free B (min (div_ceil (tot - at) cb) ROUND_CLUSTERS)) (\<lambda>found.
              if found = [] then vfail NoSpace
              else
                vbind (fill_round B p cb tot at found 0) (\<lambda>written.
                vbind (v_flush B) (\<lambda>_.
                vbind (link_new B (if of_clusters f > 0 then Some (of_last f) else None) found) (\<lambda>_.
                vbind (opened_set slot (\<lambda>g.
                  g\<lparr>of_first := (if of_clusters f = 0 then hd found else of_first g),
                    of_clusters := of_clusters g + length found, of_last := last found\<rparr>)) (\<lambda>_.
                if written = 0 then vfail Corrupt else fill_loop B slot start p cb (at + written)))))))) "
  by pat_completeness auto

termination fill_loop
  by (relation "measure (\<lambda>(B, slot, start, p, cb, at). piece_len p - at)") auto

declare fill_loop.simps [simp del]

definition fill_file :: "'d blocks \<Rightarrow> nat \<Rightarrow> nat \<Rightarrow> piece \<Rightarrow> (unit, 'd) vol" where
  "fill_file B slot start p = vbind cluster_bytes (\<lambda>cb. fill_loop B slot start p cb 0)"

definition update_entry :: "'d blocks \<Rightarrow> nat \<Rightarrow> nat \<Rightarrow> (unit, 'd) vol" where
  "update_entry B slot len =
     vbind (vget vo_now) (\<lambda>now.
     vbind (opened slot) (\<lambda>f.
     vbind (v_read B (of_entry_at f) 32) (\<lambda>bs.
       if raw_is_long bs \<or> raw_is_dir bs \<or> raw_byte bs 0 = FREE_MARK \<or> raw_byte bs 0 = END_MARK then vfail Corrupt
       else
         let raw = raw_set_cluster bs (word_of_nat (of_first f));
             raw = raw_set_size raw (word_of_nat len);
             raw = raw_set_modified raw (stamp_encode now);
             raw = raw_set_attr raw (raw_attr raw OR ATTR_ARCHIVE)
         in vbind (if raw \<noteq> bs then vbind (v_write B (of_entry_at f) raw) (\<lambda>_. v_flush B) else vret ()) (\<lambda>_.
            opened_set slot (of_size_update (\<lambda>_. len))))))"

definition room :: "'d blocks \<Rightarrow> nat \<Rightarrow> (nat, 'd) vol" where
  "room B clusters = vbind (v_free_count B) (\<lambda>free. vbind cluster_bytes (\<lambda>cb. vret ((clusters + free) * cb)))"

section \<open>Operations on files\<close>

definition lookup :: "'d blocks \<Rightarrow> ustring \<Rightarrow> ustring \<Rightarrow> (dir_entry, 'd) vol" where
  "lookup B dir name =
     run B (vbind (dir_cluster B dir) (\<lambda>cluster.
       if key name = [] then vfail NotFound
       else
         vbind (v_find B cluster name) (\<lambda>found.
         vbind (vsome NotFound found) (\<lambda>found.
         vbind v_layout (\<lambda>l.
           let child = unat (raw_cluster (fd_raw found)) in
           vbind (if raw_is_dir (fd_raw found) \<and> is_cluster l child then remember (fat_join dir (fd_name found)) child
                  else vret ()) (\<lambda>_.
           vret (entry_of found)))))))"

definition list_visit :: "dir_entry list \<Rightarrow> item \<Rightarrow> dir_entry list \<times> bool" where
  "list_visit out i = (case i of Entry f \<Rightarrow> (out @ [entry_of f], True) | EndSlot _ \<Rightarrow> (out, False) | _ \<Rightarrow> (out, True))"

definition v_scan :: "'d blocks \<Rightarrow> nat \<Rightarrow> ('s \<Rightarrow> item \<Rightarrow> 's \<times> bool) \<Rightarrow> 's \<Rightarrow> ('s, 'd) vol" where
  "v_scan B first visit s v =
     on_cache (\<lambda>c. case scan_new (ft_layout (vo_fat v)) first of
        Inl e \<Rightarrow> (Inl e, c)
      | Inr sc \<Rightarrow> (case scan_while B (ft_layout (vo_fat v)) visit c sc s of (e, s', _, c') \<Rightarrow> (of_fs_error e s', c'))) v"

definition list_dir :: "'d blocks \<Rightarrow> ustring \<Rightarrow> (dir_entry list, 'd) vol" where
  "list_dir B dir = run B (vbind (dir_cluster B dir) (\<lambda>cluster. v_scan B cluster list_visit []))"

function read_file_loop :: "'d blocks \<Rightarrow> nat \<Rightarrow> nat \<Rightarrow> nat \<Rightarrow> nat \<Rightarrow> bytes \<Rightarrow> (bytes, 'd) vol" where
  "read_file_loop B slot cb offset want out =
     (if length out \<ge> want then vret out
      else
        let pos = offset + length out; index = pos div cb in
        if index > U32_MAX then vfail Corrupt
        else
          vbind (run_at B slot index (pos mod cb) (want - length out)) (\<lambda>(cluster, n).
          vbind (offset_of cluster) (\<lambda>off.
          vbind (v_read B (off + pos mod cb) n) (\<lambda>part.
            if part = [] then vfail Corrupt else read_file_loop B slot cb offset want (out @ part)))))"
  by pat_completeness auto

termination read_file_loop
  by (relation "measure (\<lambda>(B, slot, cb, offset, want, out). want - length out)") (auto simp: neq_Nil_conv)

declare read_file_loop.simps [simp del]

definition read_file :: "'d blocks \<Rightarrow> ustring \<Rightarrow> nat \<Rightarrow> nat \<Rightarrow> (bytes, 'd) vol" where
  "read_file B path offset n =
     run B (vbind (handle B path) (\<lambda>slot.
       vbind (opened slot) (\<lambda>f.
         if offset \<ge> of_size f \<or> n = 0 then vret []
         else vbind cluster_bytes (\<lambda>cb. read_file_loop B slot cb offset (min (of_size f - offset) n) []))))"

definition write_file :: "'d blocks \<Rightarrow> ustring \<Rightarrow> nat \<Rightarrow> bytes \<Rightarrow> (nat, 'd) vol" where
  "write_file B path offset data =
     (let stop = offset + length data in
      if stop > U64_MAX \<or> stop > MAX_FILE then vfail TooBig
      else if data = [] then vret 0
      else run B (vbind (handle B path) (\<lambda>slot.
        vbind (opened slot) (\<lambda>f.
        vbind cluster_bytes (\<lambda>cb.
        vbind (if div_ceil stop cb > of_clusters f then
                 vbind (room B (of_clusters f)) (\<lambda>rm. if rm \<le> offset then vfail NoSpace else vret (min stop rm))
               else vret stop) (\<lambda>stop.
        vbind (vsome Corrupt (slice data 0 (stop - offset))) (\<lambda>data.
        vbind (begin_write B) (\<lambda>_.
        vbind (if offset > of_size f then fill_file B slot (of_size f) (Zeros (offset - of_size f)) else vret ()) (\<lambda>_.
        vbind (fill_file B slot offset (Data data)) (\<lambda>_.
        vbind (update_entry B slot (max (of_size f) stop)) (\<lambda>_.
        vret (length data))))))))))))"

text \<open>The part of \<open>truncate\<close> that frees clusters: the entry, then the new end of the chain, then the rest.\<close>

definition cut_file :: "'d blocks \<Rightarrow> nat \<Rightarrow> nat \<Rightarrow> nat \<Rightarrow> nat \<Rightarrow> (unit, 'd) vol" where
  "cut_file B slot len keep clusters =
     vbind (if keep > 0 then vbind (cluster_at B slot (keep - 1)) (\<lambda>c. vret (Some c)) else vret None) (\<lambda>new_last.
     vbind (case new_last of
              Some cluster \<Rightarrow> vbind (v_next B cluster) (vsome Corrupt)
            | None \<Rightarrow> vbind (opened slot) (\<lambda>f. vret (of_first f))) (\<lambda>rest.
     vbind (if keep = 0 then opened_set slot (of_first_update (\<lambda>_. 0)) else vret ()) (\<lambda>_.
     vbind (update_entry B slot len) (\<lambda>_.
     vbind (case new_last of
              Some cluster \<Rightarrow> vbind (v_set B cluster FAT_LAST) (\<lambda>_. v_flush B)
            | None \<Rightarrow> vret ()) (\<lambda>_.
     vbind (v_free_chain B rest (clusters - keep)) (\<lambda>_.
     vbind (v_flush B) (\<lambda>_.
     opened_set slot (\<lambda>f. f\<lparr>of_clusters := keep, of_last := (case new_last of Some c \<Rightarrow> c | None \<Rightarrow> 0), of_pos := None\<rparr>))))))))"

definition truncate_file :: "'d blocks \<Rightarrow> ustring \<Rightarrow> nat \<Rightarrow> (unit, 'd) vol" where
  "truncate_file B path len =
     (if len > MAX_FILE then vfail TooBig
      else run B (vbind (handle B path) (\<lambda>slot.
        vbind (opened slot) (\<lambda>f.
        vbind cluster_bytes (\<lambda>cb.
          let keep = div_ceil len cb in
          if len > of_size f then
            vbind (if keep > of_clusters f then
                     vbind (room B (of_clusters f)) (\<lambda>rm. if rm < len then vfail NoSpace else vret ())
                   else vret ()) (\<lambda>_.
            vbind (begin_write B) (\<lambda>_.
            vbind (fill_file B slot (of_size f) (Zeros (len - of_size f))) (\<lambda>_.
            update_entry B slot len)))
          else
            vbind (begin_write B) (\<lambda>_.
              if keep \<ge> of_clusters f then update_entry B slot len
              else cut_file B slot len keep (of_clusters f)))))))"

section \<open>Operations on directories\<close>

definition grow :: "'d blocks \<Rightarrow> nat \<Rightarrow> nat \<Rightarrow> (unit, 'd) vol" where
  "grow B lst slots =
     vbind cluster_bytes (\<lambda>cb.
       let want = div_ceil slots (cb div ENTRY_BYTES) in
       vbind (v_find_free B want) (\<lambda>found.
         if length found < want then vfail NoSpace
         else
           vbind (vfor found (\<lambda>cluster. vbind (offset_of cluster) (\<lambda>at. v_write B at (replicate cb 0)))) (\<lambda>_.
           vbind (v_flush B) (\<lambda>_.
           link_new B (Some lst) found))))"

text \<open>The slots between a directory's end mark and entries placed past it, marked free first.\<close>

definition bridge_end :: "'d blocks \<Rightarrow> nat \<Rightarrow> nat option \<Rightarrow> nat \<Rightarrow> (unit, 'd) vol" where
  "bridge_end B dir mark start =
     (case mark of
        Some mark \<Rightarrow>
          if start > mark then
            vbind (v_positions B dir mark (start - mark)) (\<lambda>ats.
            vbind (vfor ats (\<lambda>at. v_write B at [FREE_MARK])) (\<lambda>_.
            v_flush B))
          else vret ()
      | None \<Rightarrow> vret ())"

text \<open>The end mark after entries written at or past the old one.\<close>

definition keep_end :: "'d blocks \<Rightarrow> nat option \<Rightarrow> nat \<Rightarrow> nat \<Rightarrow> nat list \<Rightarrow> (unit, 'd) vol" where
  "keep_end B mark start n positions =
     (if (case mark of Some mark \<Rightarrow> start + n > mark | None \<Rightarrow> False) \<and> n < length positions then
        vbind (v_read B (positions ! n) 1) (\<lambda>first.
          if first \<noteq> [END_MARK] then v_write B (positions ! n) [END_MARK] else vret ())
      else vret ())"

definition add_entry :: "'d blocks \<Rightarrow> nat \<Rightarrow> ustring \<Rightarrow> raw \<Rightarrow> nat option \<Rightarrow> (nat list, 'd) vol" where
  "add_entry B dir name template except =
     (let long_slots = div_ceil (length (units_of name)) UNITS_PER_ENTRY in
      vbind (v_survey B dir name (long_slots + 1) except) (\<lambda>sv.
        if sv_found sv \<noteq> None then vfail Exists
        else
          vbind (vsome NoSpace (short_name name (survey_taken sv))) (\<lambda>(short, long).
            let n = (if long then long_slots + 1 else 1); (start, missing) = place sv n in
            if start + n > MAX_ENTRIES then vfail NoSpace
            else
              vbind cluster_bytes (\<lambda>cb.
              vbind (if missing > 0 then
                       vbind (v_free_count B) (\<lambda>free.
                         if free < div_ceil missing (cb div ENTRY_BYTES) then vfail NoSpace else vret ())
                     else vret ()) (\<lambda>_.
              vbind (begin_write B) (\<lambda>_.
              vbind (if missing > 0 then grow B (sv_last_cluster sv) missing else vret ()) (\<lambda>_.
              vbind (bridge_end B dir (sv_end sv) start) (\<lambda>_.
              vbind (v_positions B dir start (n + 1)) (\<lambda>positions.
                if length positions < n then vfail Corrupt
                else
                  vbind (vfor (zip positions (entry_records name short long template)) (\<lambda>(at, entry). v_write B at entry)) (\<lambda>_.
                  vbind (keep_end B (sv_end sv) start n positions) (\<lambda>_.
                  vret (take n positions)))))))))))) "

definition lift_name :: "fs_error + ustring \<Rightarrow> (ustring \<Rightarrow> ('a, 'd) vol) \<Rightarrow> ('a, 'd) vol" where
  "lift_name r f = (case r of Inl e \<Rightarrow> vfail e | Inr name \<Rightarrow> f name)"

definition create :: "'d blocks \<Rightarrow> ustring \<Rightarrow> ustring \<Rightarrow> (dir_entry, 'd) vol" where
  "create B dir name =
     lift_name (check_name name) (\<lambda>name.
       run B (vbind (dir_cluster B dir) (\<lambda>cluster.
         vbind (vget vo_now) (\<lambda>now.
           let raw = raw_new (replicate 11 32) ATTR_ARCHIVE 0 0 (stamp_encode now) in
           vbind (add_entry B cluster name raw None) (\<lambda>_.
           vbind (v_flush B) (\<lambda>_.
           vret \<lparr>en_name = name, en_is_dir = False, en_len = 0, en_mtime = raw_modified raw\<rparr>))))))"

text \<open>Giving back the cluster of a directory whose entry could not be added.\<close>

definition give_back :: "'d blocks \<Rightarrow> nat \<Rightarrow> fs_error \<Rightarrow> ('a, 'd) vol" where
  "give_back B own e =
     vbind (vget (\<lambda>v. has_dirty (vo_cache v))) (\<lambda>dirty.
     vbind (if \<not> dirty \<and> e \<noteq> Io then
              vbind (v_set B own FAT_FREE) (\<lambda>_.
              vbind (v_flush B) (\<lambda>_.
              vmodify (vo_fat_update (gave 1))))
            else vret ()) (\<lambda>_.
     vfail e))"

definition mkdir :: "'d blocks \<Rightarrow> ustring \<Rightarrow> ustring \<Rightarrow> (dir_entry, 'd) vol" where
  "mkdir B dir name =
     lift_name (check_name name) (\<lambda>name.
       run B (vbind (dir_cluster B dir) (\<lambda>parent.
         vbind (v_find B parent name) (\<lambda>there.
           if there \<noteq> None then vfail Exists
           else
             vbind (v_free_count B) (\<lambda>free.
               if free = 0 then vfail NoSpace
               else
                 vbind (begin_write B) (\<lambda>_.
                 vbind (vget vo_now) (\<lambda>now.
                   let stamp = stamp_encode now in
                   vbind (v_find_free B 1) (\<lambda>found.
                   vbind (vsome NoSpace (case found of own # _ \<Rightarrow> Some own | [] \<Rightarrow> None)) (\<lambda>own.
                   vbind v_layout (\<lambda>l.
                   vbind (offset_of own) (\<lambda>at.
                     let parent_field = (if parent = ly_root_cluster l then 0 else parent) in
                     vbind (v_write B at (new_directory l (word_of_nat own) (word_of_nat parent_field) stamp)) (\<lambda>_.
                     vbind (v_flush B) (\<lambda>_.
                     vbind (link_new B None [own]) (\<lambda>_.
                       let raw = raw_new (replicate 11 32) ATTR_DIRECTORY (word_of_nat own) 0 stamp in
                       vtry (add_entry B parent name raw None) (give_back B own) (\<lambda>_.
                       vbind (v_flush B) (\<lambda>_.
                       vret \<lparr>en_name = name, en_is_dir = True, en_len = 0, en_mtime = raw_modified raw\<rparr>))))))))))))))))"

definition owned_chain :: "'d blocks \<Rightarrow> nat \<Rightarrow> ((nat \<times> nat) option, 'd) vol" where
  "owned_chain B first =
     vbind v_layout (\<lambda>l.
       if first = 0 \<or> first = ly_root_cluster l \<or> \<not> is_cluster l first then vret None
       else vtry (v_walk B first) (\<lambda>e. if e = Corrupt then vret None else vfail e) (\<lambda>(n, _). vret (Some (first, n))))"

definition mark_free :: "'d blocks \<Rightarrow> found \<Rightarrow> (unit, 'd) vol" where
  "mark_free B f =
     vbind (vfor (filter (\<lambda>at. at \<noteq> fd_at f) (found_positions f)) (\<lambda>at. v_write B at [FREE_MARK])) (\<lambda>_.
     vbind (if \<not> one_sector (found_positions f) then v_flush B else vret ()) (\<lambda>_.
     v_write B (fd_at f) [FREE_MARK]))"

definition free_owned :: "'d blocks \<Rightarrow> (nat \<times> nat) option \<Rightarrow> (unit, 'd) vol" where
  "free_owned B chain =
     (case chain of
        Some (first, n) \<Rightarrow> vbind (v_free_chain B first n) (\<lambda>_. v_flush B)
      | None \<Rightarrow> vret ())"

definition remove_entry :: "'d blocks \<Rightarrow> ustring \<Rightarrow> ustring \<Rightarrow> bool \<Rightarrow> (unit, 'd) vol" where
  "remove_entry B dir_path name want_dir =
     run B (vbind (dir_cluster B dir_path) (\<lambda>parent.
       vbind (v_find B parent name) (\<lambda>found.
       vbind (vsome NotFound found) (\<lambda>found.
       vbind v_layout (\<lambda>l.
         let is_dir = raw_is_dir (fd_raw found); first = unat (raw_cluster (fd_raw found)) in
         if is_dir \<noteq> want_dir then vfail (if is_dir then IsDir else NotDir)
         else
           vbind (if is_dir \<and> is_cluster l first then
                    vbind (v_is_empty B first) (\<lambda>empty. if \<not> empty then vfail NotEmpty else vret ())
                  else vret ()) (\<lambda>_.
           vbind (owned_chain B first) (\<lambda>chain.
           vbind (close_under (fat_join dir_path (fd_name found))) (\<lambda>_.
           vbind (begin_write B) (\<lambda>_.
           vbind (mark_free B found) (\<lambda>_.
           vbind (v_flush B) (\<lambda>_.
           free_owned B chain)))))))))))"

definition dotdot :: "'d blocks \<Rightarrow> nat \<Rightarrow> (nat \<times> raw, 'd) vol" where
  "dotdot B first =
     vbind (offset_of first) (\<lambda>off.
       let at = off + ENTRY_BYTES in
       vbind (v_read B at 32) (\<lambda>raw.
         if raw_short raw \<noteq> DOTDOT \<or> \<not> raw_is_dir raw then vfail Corrupt else vret (at, raw)))"

definition point_dotdot :: "'d blocks \<Rightarrow> nat \<Rightarrow> nat \<Rightarrow> (unit, 'd) vol" where
  "point_dotdot B first parent =
     vbind (dotdot B first) (\<lambda>(at, raw).
     vbind v_layout (\<lambda>l.
       let raw = raw_set_cluster raw (word_of_nat (if parent = ly_root_cluster l then 0 else parent)) in
       vbind (v_write B at raw) (\<lambda>_. v_flush B)))"

text \<open>The three ways a rename ends: the same entry respelled, an entry replaced, a new entry.\<close>

definition rename_respell :: "'d blocks \<Rightarrow> ustring \<Rightarrow> found \<Rightarrow> nat \<Rightarrow> ustring \<Rightarrow> (ustring, 'd) vol" where
  "rename_respell B source_path src to_cluster to_name =
     vbind (close_under source_path) (\<lambda>_.
     vbind (add_entry B to_cluster to_name (fd_raw src) (Some (fd_at src))) (\<lambda>written.
     vbind (if \<not> one_sector (written @ found_positions src) then v_flush B else vret ()) (\<lambda>_.
     vbind (mark_free B src) (\<lambda>_.
     vbind (v_flush B) (\<lambda>_.
     vret to_name)))))"

definition rename_over ::
  "'d blocks \<Rightarrow> ustring \<Rightarrow> found \<Rightarrow> bool \<Rightarrow> ustring \<Rightarrow> nat \<Rightarrow> found \<Rightarrow> (ustring, 'd) vol" where
  "rename_over B source_path src moves to_dir to_cluster target =
     vbind v_layout (\<lambda>l.
       let is_dir = raw_is_dir (fd_raw src); target_dir = raw_is_dir (fd_raw target);
           target_first = unat (raw_cluster (fd_raw target)) in
       if is_dir \<and> \<not> target_dir then vfail NotDir
       else if \<not> is_dir \<and> target_dir then vfail IsDir
       else
         vbind (if target_dir \<and> is_cluster l target_first then
                  vbind (v_is_empty B target_first) (\<lambda>empty. if \<not> empty then vfail NotEmpty else vret ())
                else vret ()) (\<lambda>_.
         vbind (owned_chain B target_first) (\<lambda>replaced.
         vbind (close_under source_path) (\<lambda>_.
         vbind (close_under (fat_join to_dir (fd_name target))) (\<lambda>_.
         vbind (begin_write B) (\<lambda>_.
         vbind (v_write B (fd_at target) (raw_take_contents (fd_raw target) (fd_raw src))) (\<lambda>_.
         vbind (if moves \<or> \<not> one_sector (fd_at target # found_positions src) then v_flush B else vret ()) (\<lambda>_.
         vbind (if moves then point_dotdot B (unat (raw_cluster (fd_raw src))) to_cluster else vret ()) (\<lambda>_.
         vbind (mark_free B src) (\<lambda>_.
         vbind (v_flush B) (\<lambda>_.
         vbind (free_owned B replaced) (\<lambda>_.
         vret (fd_name target)))))))))))))"

definition rename_new :: "'d blocks \<Rightarrow> ustring \<Rightarrow> found \<Rightarrow> bool \<Rightarrow> nat \<Rightarrow> ustring \<Rightarrow> (ustring, 'd) vol" where
  "rename_new B source_path src moves to_cluster to_name =
     vbind (close_under source_path) (\<lambda>_.
     vbind (add_entry B to_cluster to_name (fd_raw src) None) (\<lambda>written.
     vbind (if moves \<or> \<not> one_sector (written @ found_positions src) then v_flush B else vret ()) (\<lambda>_.
     vbind (if moves then point_dotdot B (unat (raw_cluster (fd_raw src))) to_cluster else vret ()) (\<lambda>_.
     vbind (mark_free B src) (\<lambda>_.
     vbind (v_flush B) (\<lambda>_.
     vret to_name))))))"

definition rename_entry :: "'d blocks \<Rightarrow> ustring \<Rightarrow> ustring \<Rightarrow> ustring \<Rightarrow> ustring \<Rightarrow> (ustring, 'd) vol" where
  "rename_entry B from_dir from_name to_dir to_name =
     lift_name (check_name to_name) (\<lambda>to_name.
       run B (vbind (dir_cluster B from_dir) (\<lambda>from_cluster.
         vbind (v_find B from_cluster from_name) (\<lambda>src.
         vbind (vsome NotFound src) (\<lambda>src.
         vbind (dir_cluster B to_dir) (\<lambda>to_cluster.
           let source_path = fat_join from_dir (fd_name src); is_dir = raw_is_dir (fd_raw src);
               moves = (is_dir \<and> from_cluster \<noteq> to_cluster) in
           vbind (if is_dir then
                    (if to_dir = source_path \<or> is_under to_dir source_path then vfail Invalid
                     else vbind (path_clusters B to_dir) (\<lambda>cs.
                       if unat (raw_cluster (fd_raw src)) \<in> set cs then vfail Invalid else vret ()))
                  else vret ()) (\<lambda>_.
           vbind (if moves then vbind (subdir_cluster src) (\<lambda>c. vbind (dotdot B c) (\<lambda>_. vret ())) else vret ()) (\<lambda>_.
           vbind (v_find B to_cluster to_name) (\<lambda>target.
             case target of
               Some target \<Rightarrow>
                 if fd_at target = fd_at src then
                   (if fd_name src = to_name then vret (fd_name src)
                    else rename_respell B source_path src to_cluster to_name)
                 else rename_over B source_path src moves to_dir to_cluster target
             | None \<Rightarrow> rename_new B source_path src moves to_cluster to_name)))))))))"

section \<open>The rest\<close>

definition fsync :: "'d blocks \<Rightarrow> ustring \<Rightarrow> (unit, 'd) vol" where
  "fsync B path = run B (vret ())"

definition v_next_free_hint :: "'d blocks \<Rightarrow> (nat, 'd) vol" where
  "v_next_free_hint B = on_fat (next_free_hint B)"

definition write_fsinfo :: "'d blocks \<Rightarrow> nat option \<Rightarrow> nat \<Rightarrow> nat \<Rightarrow> (unit, 'd) vol" where
  "write_fsinfo B sector free next =
     (case sector of
        None \<Rightarrow> vret ()
      | Some sector \<Rightarrow>
          vbind (v_read B (sector * BLOCK) BLOCK) (\<lambda>bs.
            if (case fsinfo_hints bs of Some hints \<Rightarrow> hints \<noteq> (word_of_nat free, word_of_nat next) | None \<Rightarrow> False) then
              vbind (v_write B (sector * BLOCK) (set_fsinfo_hints bs (word_of_nat free) (word_of_nat next))) (\<lambda>_. v_flush B)
            else vret ()))"

definition sync_volume :: "'d blocks \<Rightarrow> (unit, 'd) vol" where
  "sync_volume B =
     run B (vbind (vget (\<lambda>v. (vo_marked v, vo_dirty_at_mount v))) (\<lambda>(marked, dirty).
       if \<not> marked then vret ()
       else
         vbind (v_free_count B) (\<lambda>free.
         vbind (v_next_free_hint B) (\<lambda>next.
         vbind v_layout (\<lambda>l.
         vbind (write_fsinfo B (ly_fsinfo l) free next) (\<lambda>_.
           if \<not> dirty then
             vbind (v_set_clean B True) (\<lambda>_.
             vbind (set_linux_state B False) (\<lambda>_.
             vbind (v_flush B) (\<lambda>_.
             vmodify (vo_marked_update (\<lambda>_. False)))))
           else vret ()))))))"

definition stats :: "'d blocks \<Rightarrow> (nat \<times> nat \<times> nat, 'd) vol" where
  "stats B =
     run B (vbind v_layout (\<lambda>l. vbind (v_free_count B) (\<lambda>free. vret (ly_cluster_bytes l, ly_clusters l, free))))"

definition boot_visit :: "ustring option \<Rightarrow> item \<Rightarrow> ustring option \<times> bool" where
  "boot_visit s i =
     (case i of
        Entry f \<Rightarrow>
          if \<not> raw_is_dir (fd_raw f)
             \<and> (same_name (fd_name f) (map of_char ''start4.elf'') \<or> same_name (fd_name f) (map of_char ''kernel8.img''))
          then (Some (fd_name f), False) else (s, True)
      | EndSlot _ \<Rightarrow> (s, False)
      | _ \<Rightarrow> (s, True))"

definition boot_file :: "'d blocks \<Rightarrow> (ustring option, 'd) vol" where
  "boot_file B = run B (vbind v_layout (\<lambda>l. v_scan B (ly_root_cluster l) boot_visit None))"

fun chain_of :: "'d blocks \<Rightarrow> nat \<Rightarrow> nat \<Rightarrow> (nat list, 'd) vol" where
  "chain_of B cluster 0 = vret []"
| "chain_of B cluster (Suc k) =
     (if k = 0 then vret [cluster]
      else vbind (v_next B cluster) (\<lambda>next.
           vbind (vsome Corrupt next) (\<lambda>next.
           vbind (chain_of B next k) (\<lambda>out. vret (cluster # out)))))"

definition clusters_of :: "'d blocks \<Rightarrow> ustring \<Rightarrow> ustring \<Rightarrow> (nat list, 'd) vol" where
  "clusters_of B dir name =
     run B (vbind (dir_cluster B dir) (\<lambda>parent.
       vbind (v_find B parent name) (\<lambda>found.
       vbind (vsome NotFound found) (\<lambda>found.
         let first = unat (raw_cluster (fd_raw found)) in
         if first = 0 then vret []
         else vbind (v_walk B first) (\<lambda>(n, _). chain_of B first n)))))"

end
