(* ===== verification/Fat_Frame.thy ===== *)
theory Fat_Frame
  imports Fat_Volume
begin

text \<open>
  What every operation on the cache, the FAT and a directory leaves alone, whatever the device does:
  the cache stays consistent unless a device command failed, and without leave to write nothing
  changes at all.
\<close>

named_theorems safe_intro "rules that an operation on the volume is safe"

section \<open>Operations on the cache\<close>

context block_device
begin

lemma write_loop_any:
  "cache_ok c \<Longrightarrow> write_loop B c at data = (r, c') \<Longrightarrow>
     blocks_of c' = blocks_of c \<and> ca_writable c' = ca_writable c \<and> (cache_ok c' \<or> r = Some Device)"
proof (induction "length data" arbitrary: c at data rule: less_induct)
  case less
  note wl = less.prems(2) [unfolded write_loop.simps [of B c at data]]
  let ?block = "at div BLOCK" and ?within = "at mod BLOCK"
  consider (nothing) "data = []" | (whole) "data \<noteq> []" "?within = 0 \<and> BLOCK \<le> length data"
    | (part) "data \<noteq> []" "\<not> (?within = 0 \<and> BLOCK \<le> length data)" by blast
  then show ?case
  proof cases
    case nothing
    then show ?thesis using wl less.prems(1) by auto
  next
    case whole
    let ?n = "min (length data div BLOCK) DIRECT_MAX"
    let ?part = "take (?n * BLOCK) data"
    have n: "0 < ?n" "?n * BLOCK \<le> length data" using whole by (auto simp: BLOCK_def DIRECT_MAX_def)
    have len: "length ?part = ?n * BLOCK" using n(2) by simp
    obtain r1 c1 where dw: "device_write B c ?block ?part = (r1, c1)" by fastforce
    show ?thesis
    proof (cases r1)
      case None
      note wt = write_through_spec [OF less.prems(1) len dw [unfolded None]]
      have rec: "write_loop B (write_through ?block ?n ?part c1) (at + ?n * BLOCK) (drop (?n * BLOCK) data) = (r, c')"
        using wl whole dw None by (auto simp: Let_def split: option.splits)
      have "length (drop (?n * BLOCK) data) < length data" using n whole by (simp add: BLOCK_def)
      from less.hyps [OF this wt(1) rec] wt(2,3) show ?thesis by simp
    next
      case (Some e)
      then have rc: "r = Some e" "c' = c1" using wl whole dw by (auto simp: Let_def)
      obtain d' where "c1 = c\<lparr>ca_dev := d'\<rparr>" "bk_count B d' = bk_count B (ca_dev c)"
        using device_write_spec [OF len dw] by blast
      moreover have "e = Device \<or> c1 = c"
        using dw Some by (auto simp: device_write_def Let_def split: if_splits option.splits prod.splits bool.splits)
      ultimately show ?thesis using rc less.prems(1) by (auto simp: blocks_of_def)
    qed
  next
    case part
    let ?n = "min (BLOCK - ?within) (length data)"
    have n: "0 < ?n" "?n \<le> length data" "?within + ?n \<le> BLOCK" using part(1) by (auto simp: min_def BLOCK_def)
    obtain r1 c1 where sl: "cache_slot B c ?block = (r1, c1)" by fastforce
    note cs = cache_slot_spec [OF less.prems(1) sl]
    note ok1 = keeps_ok [OF cs(1)]
    show ?thesis
    proof (cases r1)
      case (Inl e)
      then have "r = Some e" "c' = c1" using wl part sl by (auto simp: Let_def)
      then show ?thesis using cs(1) by (auto simp: keeps_def)
    next
      case (Inr i)
      note data1 = cs(2) [OF Inr]
      let ?old = "sl_data (ca_slots c1 ! i)"
      let ?s = "(ca_slots c1 ! i)\<lparr>sl_data := take ?within ?old @ take ?n data @ drop (?within + ?n) ?old, sl_dirty := True\<rparr>"
      let ?c2 = "c1\<lparr>ca_slots := (ca_slots c1)[i := ?s]\<rparr>"
      have "length ?old = BLOCK" using data1 logical_length [OF less.prems(1)] by simp
      then have so: "slot_ok (ca_dev c1) ?s" using cache_okD(2) [OF ok1, of i] data1 n by (simp add: slot_ok_def)
      have c2: "cache_ok ?c2" "blocks_of ?c2 = blocks_of c" "ca_writable ?c2 = ca_writable c"
        using slot_change(1,3) [OF ok1 _ _ so, of i] data1 cs(1) by (auto simp: keeps_def)
      have rec: "write_loop B ?c2 (at + ?n) (drop ?n data) = (r, c')" using wl part sl Inr by (simp add: Let_def)
      have "length (drop ?n data) < length data" using n by simp
      from less.hyps [OF this c2(1) rec] c2(2,3) show ?thesis by simp
    qed
  qed
qed

definition cframe :: "'d cache \<Rightarrow> bool \<Rightarrow> 'd cache \<Rightarrow> bool" where
  "cframe c failed c' \<longleftrightarrow> blocks_of c' = blocks_of c \<and> ca_writable c' = ca_writable c \<and> (cache_ok c' \<or> failed)
     \<and> (\<not> ca_writable c \<longrightarrow> keeps c c')"

definition csafe :: "('d cache \<Rightarrow> ('a, 'd) fat_result) \<Rightarrow> bool" where
  "csafe f \<longleftrightarrow> (\<forall>c r c'. cache_ok c \<longrightarrow> f c = (r, c') \<longrightarrow> cframe c (r = Inl Io) c')"

lemma csafeI: "(\<And>c r c'. cache_ok c \<Longrightarrow> f c = (r, c') \<Longrightarrow> cframe c (r = Inl Io) c') \<Longrightarrow> csafe f"
  by (simp add: csafe_def)

lemma csafeD: "csafe f \<Longrightarrow> cache_ok c \<Longrightarrow> f c = (r, c') \<Longrightarrow> cframe c (r = Inl Io) c'"
  by (simp add: csafe_def)

lemma keeps_cframe: "keeps c c' \<Longrightarrow> cframe c failed c'"
  by (simp add: cframe_def keeps_def)

lemma cframe_refl: "cache_ok c \<Longrightarrow> cframe c failed c"
  by (simp add: cframe_def keeps_refl)

lemma cframe_trans: "cframe c False c1 \<Longrightarrow> cframe c1 failed c2 \<Longrightarrow> cframe c failed c2"
  using keeps_trans by (auto simp: cframe_def)

text \<open>What follows an operation that succeeded.\<close>

lemma csafe_bind:
  assumes "csafe m" "\<And>x. csafe (f x)"
  shows "csafe (\<lambda>c. case m c of (Inl e, c') \<Rightarrow> (Inl e, c') | (Inr x, c') \<Rightarrow> f x c')"
proof (rule csafeI)
  fix c r c' assume ok: "cache_ok c" and m: "(case m c of (Inl e, c') \<Rightarrow> (Inl e, c') | (Inr x, c') \<Rightarrow> f x c') = (r, c')"
  obtain r1 c1 where m1: "m c = (r1, c1)" by fastforce
  note f1 = csafeD [OF assms(1) ok m1]
  show "cframe c (r = Inl Io) c'"
  proof (cases r1)
    case (Inl e)
    then show ?thesis using m m1 f1 by auto
  next
    case (Inr x)
    then have f1': "cframe c False c1" and "f x c1 = (r, c')" using m m1 f1 by auto
    moreover have "cache_ok c1" using f1' by (simp add: cframe_def)
    ultimately show ?thesis using csafeD [OF assms(2)] cframe_trans by blast
  qed
qed

lemma csafe_const [intro!]: "csafe (\<lambda>c. (r, c))"
  by (auto intro: csafeI cframe_refl)

lemma csafe_read:
  assumes "\<And>c r c'. cache_ok c \<Longrightarrow> f c = (r, c') \<Longrightarrow> keeps c c'"
  shows "csafe f"
  using assms keeps_cframe by (blast intro: csafeI)

lemma csafe_if: "csafe f \<Longrightarrow> csafe g \<Longrightarrow> csafe (\<lambda>c. if b then f c else g c)"
  by (cases b) simp_all

lemma csafe_read_at: "csafe (\<lambda>c. case read_at B c at n of (Inl e, c') \<Rightarrow> (Inl (fs_of_cache e), c') | (Inr bs, c') \<Rightarrow> (Inr bs, c'))"
  by (rule csafe_read) (auto split: prod.splits sum.splits dest: read_at_spec)

lemma csafe_write_at: "csafe (\<lambda>c. of_cache_error (write_at B c at data))"
proof (rule csafeI)
  fix c r c' assume ok: "cache_ok c" and w: "of_cache_error (write_at B c at data) = (r, c')"
  obtain e where e: "write_at B c at data = (e, c')" "r = Inl Io \<longleftrightarrow> e = Some Device"
    using w by (cases "write_at B c at data") (auto simp: of_cache_error_def fs_of_cache_def split: option.splits cache_error.splits)
  show "cframe c (r = Inl Io) c'"
  proof (cases "ca_writable c \<and> cache_check B c at (length data)")
    case True
    then show ?thesis using write_loop_any [OF ok, of at data e c'] e by (simp add: write_at_def cframe_def)
  next
    case False
    then have "c' = c" using e(1) by (auto simp: write_at_def split: if_splits)
    then show ?thesis using cframe_refl [OF ok] by simp
  qed
qed

lemma csafe_flush: "csafe (\<lambda>c. of_cache_error (cache_flush B c))"
  by (rule csafe_read) (auto simp: of_cache_error_def split: prod.splits option.splits dest: cache_flush_spec(1))

section \<open>Operations on the FAT\<close>

lemma csafe_read_raw: "csafe (\<lambda>c. read_raw B l c copy e)"
  by (rule csafe_read) (rule read_raw_spec(1))

lemma csafe_write_raw: "csafe (\<lambda>c. write_raw B l c copy e v)"
proof -
  have "write_raw B l c copy e v = of_cache_error (write_at B c (fat_offset l copy e) (le_bytes32 v))" for c
    by (simp add: write_raw_def of_cache_error_def split: prod.split option.split)
  then show ?thesis using csafe_write_at by simp
qed

lemma csafe_link: "csafe (\<lambda>c. fat_link B l c cluster)"
  by (rule csafe_read) (rule fat_link_spec(1))

lemma fat_next_keeps: "cache_ok c \<Longrightarrow> fat_next B l c cluster = (r, c') \<Longrightarrow> keeps c c'"
  by (auto simp: fat_next_def split: prod.splits sum.splits link.splits dest: fat_link_spec(1))

lemma csafe_next: "csafe (\<lambda>c. fat_next B l c cluster)"
  by (rule csafe_read) (rule fat_next_keeps)

lemma csafe_walk: "csafe (\<lambda>c. fat_walk B l c first)"
  by (rule csafe_read) (auto simp: fat_walk_def keeps_refl split: if_splits dest: walk_loop_spec)

lemma csafe_set_copies: "csafe (\<lambda>c. set_copies B l c cluster v copies)"
proof (induction copies)
  case (Cons copy copies)
  have step: "csafe (\<lambda>c. case write_raw B l c copy cluster w of (Inl e, c2) \<Rightarrow> (Inl e, c2) | (Inr _, c2) \<Rightarrow> set_copies B l c2 cluster v copies)" for w
    by (rule csafe_bind [OF csafe_write_raw Cons.IH])
  show ?case unfolding set_copies.simps by (rule csafe_bind [OF csafe_read_raw step])
qed auto

lemma csafe_set: "csafe (\<lambda>c. fat_set B l c cluster v)"
  unfolding fat_set_def by (intro csafe_if csafe_const csafe_set_copies)

lemma csafe_free_loop: "csafe (\<lambda>c. free_loop B l c cluster n)"
proof (induction n arbitrary: cluster)
  case (Suc k)
  have rest: "csafe (\<lambda>c. if k = 0 then (Inr (), c) else (case ln of Next next \<Rightarrow> free_loop B l c next k | _ \<Rightarrow> (Inl Corrupt, c)))" for ln
    by (rule csafe_if [OF csafe_const]) (cases ln; simp add: Suc.IH csafe_const)
  have step: "csafe (\<lambda>c. case fat_set B l c cluster FAT_FREE of (Inl e, c2) \<Rightarrow> (Inl e, c2)
      | (Inr _, c2) \<Rightarrow> if k = 0 then (Inr (), c2) else (case ln of Next next \<Rightarrow> free_loop B l c2 next k | _ \<Rightarrow> (Inl Corrupt, c2)))" for ln
    by (rule csafe_bind [OF csafe_set rest])
  show ?case unfolding free_loop.simps by (rule csafe_bind [OF csafe_link step])
qed auto

lemma csafe_set_clean_copies: "csafe (\<lambda>c. set_clean_copies B l c clean copies changed)"
proof (induction copies arbitrary: changed)
  case (Cons copy copies)
  have step: "csafe (\<lambda>c. case write_raw B l c copy 1 w of (Inl e, c2) \<Rightarrow> (Inl e, c2) | (Inr _, c2) \<Rightarrow> set_clean_copies B l c2 clean copies True)" for w
    by (rule csafe_bind [OF csafe_write_raw Cons.IH])
  have "csafe (\<lambda>c. let new = (if clean then old OR CLEAN_SHUTDOWN else old AND NOT CLEAN_SHUTDOWN) in
      if new \<noteq> old then
        (case write_raw B l c copy 1 new of (Inl e, c2) \<Rightarrow> (Inl e, c2) | (Inr _, c2) \<Rightarrow> set_clean_copies B l c2 clean copies True)
      else set_clean_copies B l c clean copies changed)" for old
    unfolding Let_def by (rule csafe_if [OF step Cons.IH])
  then show ?case unfolding set_clean_copies.simps by (rule csafe_bind [OF csafe_read_raw])
qed auto

lemma find_ranges_keeps: "cache_ok c \<Longrightarrow> find_ranges B l want c rs s = (e, s', c') \<Longrightarrow> keeps c c'"
proof (induction rs arbitrary: c s)
  case (Cons x rs)
  obtain start to where x: "x = (start, to)" by (cases x)
  obtain e1 s1 c1 where sc: "scan B l c start to (take_free want) s = (e1, s1, c1)" by (metis prod_cases3)
  have k: "keeps c c1" using scan_spec(1) [OF Cons.prems(1) sc] .
  show ?case
  proof (cases "snd s \<ge> want \<or> e1 \<noteq> None")
    case True
    then show ?thesis using Cons.prems k sc x by (auto simp: keeps_refl split: if_splits)
  next
    case False
    then have "find_ranges B l want c1 rs s1 = (e, s', c')" using Cons.prems(2) sc x by simp
    from Cons.IH [OF keeps_ok [OF k] this] show ?thesis using keeps_trans [OF k] by blast
  qed
qed (simp add: keeps_refl)

lemma find_free_keeps: "cache_ok c \<Longrightarrow> find_free B f c want out = (e, out', f', c') \<Longrightarrow> keeps c c' \<and> ft_layout f' = ft_layout f"
  by (auto simp: find_free_def Let_def keeps_refl split: if_splits prod.splits option.splits list.splits simp del: find_ranges.simps dest: find_ranges_keeps)

lemma free_count_keeps: "cache_ok c \<Longrightarrow> free_count B f c = (r, f', c') \<Longrightarrow> keeps c c' \<and> ft_layout f' = ft_layout f"
  by (auto simp: free_count_def keeps_refl split: option.splits prod.splits dest: scan_spec(1))

section \<open>Walking a directory\<close>

lemma slots_here_keeps: "cache_ok c \<Longrightarrow> slots_here B l c s = (r, s', c') \<Longrightarrow> keeps c c'"
  by (auto simp: slots_here_def Let_def keeps_refl split: if_splits option.splits prod.splits sum.splits dest: read_at_spec)

lemma slots_next_keeps:
  assumes ok: "cache_ok c" and s: "slots_next B l c s = (r, s', c')"
  shows "keeps c c'"
proof (cases "ss_within s \<ge> ss_per_cluster s")
  case True
  obtain r1 c1 where n: "fat_next B l c (ss_cluster s) = (r1, c1)" by fastforce
  have k: "keeps c c1" using fat_next_keeps [OF ok n] .
  show ?thesis using s n True k keeps_trans [OF k] slots_here_keeps [OF keeps_ok [OF k]]
    by (auto simp: slots_next_def split: sum.splits option.splits)
next
  case False
  then show ?thesis using s slots_here_keeps [OF ok] by (simp add: slots_next_def)
qed

lemma scan_next_keeps: "cache_ok c \<Longrightarrow> scan_next B l c sc = (r, sc', c') \<Longrightarrow> keeps c c'"
proof (induction "MAX_ENTRIES - ss_index (ds_slots sc)" arbitrary: c sc rule: less_induct)
  case less
  obtain r1 s c1 where sn: "slots_next B l c (ds_slots sc) = (r1, s, c1)" by (metis prod_cases3)
  have k: "keeps c c1" using slots_next_keeps [OF less.prems(1) sn] .
  show ?case
  proof (cases "\<exists>x. r1 = Inr (Some x)")
    case False
    then have "c' = c1" using less.prems(2) sn by (auto simp: scan_next.simps [of B l c sc] split: sum.splits option.splits)
    then show ?thesis using k by simp
  next
    case True
    then obtain index at raw where r1: "r1 = Inr (Some (index, at, raw))" by auto
    obtain it sc1 where ss: "scan_slot (sc\<lparr>ds_slots := s\<rparr>) index at raw = (it, sc1)" by fastforce
    show ?thesis
    proof (cases it)
      case None
      have "scan_next B l c1 sc1 = (r, sc', c')" using less.prems(2) sn r1 ss None by (simp add: scan_next.simps [of B l c sc])
      moreover have "MAX_ENTRIES - ss_index (ds_slots sc1) < MAX_ENTRIES - ss_index (ds_slots sc)"
        using slots_next_index [OF sn [unfolded r1]] scan_slot_slots [OF ss] by auto
      ultimately show ?thesis using less.hyps keeps_ok [OF k] keeps_trans [OF k] by blast
    next
      case (Some x)
      then have "c' = c1" using less.prems(2) sn r1 ss by (simp add: scan_next.simps [of B l c sc])
      then show ?thesis using k by simp
    qed
  qed
qed

lemma scan_while_keeps: "cache_ok c \<Longrightarrow> scan_while B l visit c sc s = (e, s', sc', c') \<Longrightarrow> keeps c c'"
proof (induction "MAX_ENTRIES - ss_index (ds_slots sc)" arbitrary: c sc s rule: less_induct)
  case less
  obtain r1 sc1 c1 where sn: "scan_next B l c sc = (r1, sc1, c1)" by (metis prod_cases3)
  have k: "keeps c c1" using scan_next_keeps [OF less.prems(1) sn] .
  show ?case
  proof (cases "\<exists>i s1. r1 = Inr (Some i) \<and> visit s i = (s1, True)")
    case False
    then have "c' = c1" using less.prems(2) sn
      by (auto simp: scan_while.simps [of B l visit c sc s] split: sum.splits option.splits prod.splits bool.splits)
    then show ?thesis using k by simp
  next
    case True
    then obtain i s1 where i: "r1 = Inr (Some i)" "visit s i = (s1, True)" by blast
    have "scan_while B l visit c1 sc1 s1 = (e, s', sc', c')" using less.prems(2) sn i by (simp add: scan_while.simps [of B l visit c sc s])
    moreover have "MAX_ENTRIES - ss_index (ds_slots sc1) < MAX_ENTRIES - ss_index (ds_slots sc)"
      using scan_next_index [OF sn [unfolded i(1)]] by linarith
    ultimately show ?thesis using less.hyps keeps_ok [OF k] keeps_trans [OF k] by blast
  qed
qed

lemma csafe_find: "csafe (\<lambda>c. dir_find B l c first wanted)"
  by (rule csafe_read) (auto simp: dir_find_def keeps_refl split: sum.splits option.splits prod.splits dest: scan_while_keeps)

lemma csafe_is_empty: "csafe (\<lambda>c. dir_is_empty B l c first)"
  by (rule csafe_read) (auto simp: dir_is_empty_def keeps_refl split: sum.splits option.splits prod.splits dest: scan_while_keeps)

lemma csafe_survey: "csafe (\<lambda>c. dir_survey B l c first wanted n except)"
  by (rule csafe_read) (auto simp: dir_survey_def keeps_refl split: sum.splits option.splits prod.splits dest: scan_while_keeps)

lemma skip_keeps: "cache_ok c \<Longrightarrow> skip_clusters B l c cluster k = (r, c') \<Longrightarrow> keeps c c'"
proof (induction k arbitrary: c cluster)
  case (Suc k)
  obtain r1 c1 where n: "fat_next B l c cluster = (r1, c1)" by fastforce
  have k: "keeps c c1" using fat_next_keeps [OF Suc.prems(1) n] .
  show ?case using Suc n k keeps_ok [OF k] keeps_trans [OF k] by (auto split: sum.splits option.splits)
qed (simp add: keeps_refl)

lemma positions_keeps: "cache_ok c \<Longrightarrow> positions_loop B l per start c cluster is out = (r, c') \<Longrightarrow> keeps c c'"
proof (induction "is" arbitrary: c cluster out)
  case (Cons index "is")
  have step: "keeps c1 c'" if "cache_ok c1" "(case cluster_offset l cluster of None \<Rightarrow> (Inl Corrupt, c1)
      | Some base \<Rightarrow> positions_loop B l per start c1 cluster is (out @ [base + index mod per * ENTRY_BYTES])) = (r, c')" for c1 cluster
    using that Cons.IH by (auto simp: keeps_refl split: option.splits)
  obtain r1 c1 where n: "fat_next B l c cluster = (r1, c1)" by fastforce
  have k: "keeps c c1" using fat_next_keeps [OF Cons.prems(1) n] .
  show ?case
    using Cons.prems n k keeps_trans [OF k] step [OF keeps_ok [OF k]] step [OF Cons.prems(1)]
    by (auto simp: Let_def split: if_splits sum.splits option.splits)
qed (simp add: keeps_refl)

lemma csafe_positions: "csafe (\<lambda>c. dir_positions B l c first start n)"
proof (rule csafe_read)
  fix c r c' assume ok: "cache_ok c" and p: "dir_positions B l c first start n = (r, c')"
  obtain r1 c1 where s: "skip_clusters B l c first (start div (ly_cluster_bytes l div ENTRY_BYTES)) = (r1, c1)" by fastforce
  have k: "keeps c c1" using skip_keeps [OF ok s] .
  show "keeps c c'" using p s k keeps_trans [OF k] positions_keeps [OF keeps_ok [OF k]]
    by (auto simp: dir_positions_def Let_def split: sum.splits option.splits)
qed

section \<open>Operations on the volume\<close>

definition vol_ok :: "'d volume \<Rightarrow> bool" where
  "vol_ok v \<longleftrightarrow> cache_ok (vo_cache v) \<and> (\<not> ca_writable (vo_cache v) \<longrightarrow> \<not> has_dirty (vo_cache v))"

definition bounded :: "'d volume \<Rightarrow> bool" where
  "bounded v \<longleftrightarrow> length (vo_open v) \<le> MAX_OPEN \<and> length (vo_dirs v) \<le> MAX_DIRS"

definition vframe :: "'d volume \<Rightarrow> 'd volume \<Rightarrow> bool" where
  "vframe v v' \<longleftrightarrow> ft_layout (vo_fat v') = ft_layout (vo_fat v) \<and> blocks_of (vo_cache v') = blocks_of (vo_cache v)
     \<and> ca_writable (vo_cache v') = ca_writable (vo_cache v)
     \<and> (bounded v \<longrightarrow> bounded v')
     \<and> (\<not> ca_writable (vo_cache v) \<longrightarrow> disk (ca_dev (vo_cache v')) = disk (ca_dev (vo_cache v)))"

definition safe :: "('a, 'd) vol \<Rightarrow> bool" where
  "safe m \<longleftrightarrow> (\<forall>v r v'. vol_ok v \<longrightarrow> m v = (r, v') \<longrightarrow> vframe v v' \<and> (vol_ok v' \<or> r = Inl Io))"

lemma safeI: "(\<And>v r v'. vol_ok v \<Longrightarrow> m v = (r, v') \<Longrightarrow> vframe v v' \<and> (vol_ok v' \<or> r = Inl Io)) \<Longrightarrow> safe m"
  by (simp add: safe_def)

lemma safeD: "safe m \<Longrightarrow> vol_ok v \<Longrightarrow> m v = (r, v') \<Longrightarrow> vframe v v' \<and> (vol_ok v' \<or> r = Inl Io)"
  by (simp add: safe_def)

lemma vframe_refl: "vframe v v"
  by (simp add: vframe_def)

lemma vframe_trans: "vframe v v1 \<Longrightarrow> vframe v1 v2 \<Longrightarrow> vframe v v2"
  by (simp add: vframe_def)

lemma logical_clean: "cache_ok c \<Longrightarrow> \<not> has_dirty c \<Longrightarrow> logical c = disk (ca_dev c)"
  by (rule ext) (auto simp: logical_def cache_ok_def slot_ok_def has_dirty_def list_ex_length split: option.split)

lemma vol_frame:
  assumes v: "vol_ok v" and c: "cframe (vo_cache v) failed c'"
    and v': "vo_cache v' = c'" "ft_layout (vo_fat v') = ft_layout (vo_fat v)" "vo_open v' = vo_open v" "vo_dirs v' = vo_dirs v"
  shows "vframe v v' \<and> (vol_ok v' \<or> failed)"
proof -
  have "\<not> has_dirty c' \<and> disk (ca_dev c') = disk (ca_dev (vo_cache v))" if "\<not> ca_writable (vo_cache v)"
  proof -
    have k: "keeps (vo_cache v) c'" using c that by (simp add: cframe_def)
    have clean: "cache_ok (vo_cache v)" "\<not> has_dirty (vo_cache v)" using v that by (simp_all add: vol_ok_def)
    then have "cache_ok c'" "\<not> has_dirty c'" "logical c' = logical (vo_cache v)" using k by (auto simp: keeps_def)
    then show ?thesis using logical_clean clean by metis
  qed
  then show ?thesis using v c v' by (auto simp: vol_ok_def vframe_def cframe_def bounded_def)
qed

lemma safe_on_cache: "csafe f \<Longrightarrow> safe (on_cache f)"
proof (rule safeI)
  fix v r v' assume f: "csafe f" and v: "vol_ok v" and o: "on_cache f v = (r, v')"
  obtain c' where c: "f (vo_cache v) = (r, c')" "v' = v\<lparr>vo_cache := c'\<rparr>" using o by (auto simp: on_cache_def split: prod.splits)
  have "cframe (vo_cache v) (r = Inl Io) c'" using csafeD [OF f _ c(1)] v by (simp add: vol_ok_def)
  from vol_frame [OF v this, of v'] show "vframe v v' \<and> (vol_ok v' \<or> r = Inl Io)" using c(2) by simp
qed

lemma safe_on_cache': "(\<And>l. csafe (f l)) \<Longrightarrow> safe (\<lambda>v. on_cache (f (ft_layout (vo_fat v))) v)"
  using safe_on_cache unfolding safe_def by blast

lemma safe_on_fat:
  assumes "\<And>f c r f' c'. cache_ok c \<Longrightarrow> op f c = (r, f', c') \<Longrightarrow> cframe c (r = Inl Io) c' \<and> ft_layout f' = ft_layout f"
  shows "safe (on_fat op)"
proof (rule safeI)
  fix v r v' assume v: "vol_ok v" and o: "on_fat op v = (r, v')"
  obtain f' c' where c: "op (vo_fat v) (vo_cache v) = (r, f', c')" "v' = v\<lparr>vo_cache := c', vo_fat := f'\<rparr>"
    using o by (auto simp: on_fat_def split: prod.splits)
  have "cframe (vo_cache v) (r = Inl Io) c' \<and> ft_layout f' = ft_layout (vo_fat v)" using assms [OF _ c(1)] v by (simp add: vol_ok_def)
  then show "vframe v v' \<and> (vol_ok v' \<or> r = Inl Io)" using vol_frame [OF v, of "r = Inl Io" c' v'] c(2) by simp
qed

section \<open>One rule per construct\<close>

lemma safe_vret [safe_intro]: "safe (vret x)"
  by (auto simp: safe_def vret_def vframe_refl)

lemma safe_vfail [safe_intro]: "safe (vfail e)"
  by (auto simp: safe_def vfail_def vframe_refl)

lemma safe_vget [safe_intro]: "safe (vget f)"
  by (auto simp: safe_def vget_def vframe_refl)

lemma safe_vsome [safe_intro]: "safe (vsome e x)"
  by (cases x) (simp_all add: vsome_def safe_vret safe_vfail)

lemma safe_vbind [safe_intro]:
  assumes "safe m" "\<And>x. safe (f x)"
  shows "safe (vbind m f)"
proof (rule safeI)
  fix v r v' assume v: "vol_ok v" and b: "vbind m f v = (r, v')"
  obtain r1 v1 where m: "m v = (r1, v1)" by fastforce
  note m1 = safeD [OF assms(1) v m]
  show "vframe v v' \<and> (vol_ok v' \<or> r = Inl Io)"
  proof (cases r1)
    case (Inl e)
    then show ?thesis using b m m1 by (auto simp: vbind_def)
  next
    case (Inr x)
    then have "f x v1 = (r, v')" "vol_ok v1" "vframe v v1" using b m m1 by (auto simp: vbind_def)
    then show ?thesis using safeD [OF assms(2)] vframe_trans by blast
  qed
qed

lemma safe_vtry:
  assumes "safe m" "\<And>x. safe (f x)" "\<And>e. e \<noteq> Io \<Longrightarrow> safe (h e)" "\<And>v. h Io v = (Inl Io, v)"
  shows "safe (vtry m h f)"
proof (rule safeI)
  fix v r v' assume v: "vol_ok v" and b: "vtry m h f v = (r, v')"
  obtain r1 v1 where m: "m v = (r1, v1)" by fastforce
  note m1 = safeD [OF assms(1) v m]
  show "vframe v v' \<and> (vol_ok v' \<or> r = Inl Io)"
  proof (cases "r1 = Inl Io")
    case True
    then show ?thesis using b m m1 assms(4) by (simp add: vtry_def)
  next
    case False
    then have "vol_ok v1" "vframe v v1" using m1 by auto
    moreover have "\<exists>n. safe n \<and> n v1 = (r, v')"
      using b m False assms(2,3) by (cases r1) (auto simp: vtry_def)
    ultimately show ?thesis using safeD vframe_trans by blast
  qed
qed

lemma safe_if [safe_intro]: "(b \<Longrightarrow> safe m) \<Longrightarrow> (\<not> b \<Longrightarrow> safe n) \<Longrightarrow> safe (if b then m else n)"
  by simp

lemma safe_Let [safe_intro]: "safe (f x) \<Longrightarrow> safe (Let x f)"
  by simp

lemma safe_case_prod [safe_intro]: "(\<And>a b. safe (f a b)) \<Longrightarrow> safe (case x of (a, b) \<Rightarrow> f a b)"
  by (cases x) simp

lemma safe_case_option [safe_intro]: "safe m \<Longrightarrow> (\<And>y. safe (f y)) \<Longrightarrow> safe (case x of None \<Rightarrow> m | Some y \<Rightarrow> f y)"
  by (cases x) simp_all

lemma safe_case_list [safe_intro]: "safe m \<Longrightarrow> (\<And>y ys. safe (f y ys)) \<Longrightarrow> safe (case x of [] \<Rightarrow> m | y # ys \<Rightarrow> f y ys)"
  by (cases x) simp_all

lemma safe_case_piece [safe_intro]: "(\<And>n. safe (f n)) \<Longrightarrow> (\<And>d. safe (g d)) \<Longrightarrow> safe (case p of Zeros n \<Rightarrow> f n | Data d \<Rightarrow> g d)"
  by (cases p) simp_all

lemma safe_vfor [safe_intro]: "(\<And>x. safe (f x)) \<Longrightarrow> safe (vfor xs f)"
  by (induction xs) (auto intro!: safe_intro)

lemma safe_vmodify:
  assumes "\<And>v. vo_cache (f v) = vo_cache v \<and> ft_layout (vo_fat (f v)) = ft_layout (vo_fat v) \<and> (bounded v \<longrightarrow> bounded (f v))"
  shows "safe (vmodify f)"
  using assms by (auto simp: safe_def vmodify_def vframe_def vol_ok_def)

lemma safe_fat_update [safe_intro]: "(\<And>f. ft_layout (g f) = ft_layout f) \<Longrightarrow> safe (vmodify (vo_fat_update g))"
  by (rule safe_vmodify) (simp add: bounded_def)

lemma safe_marked [safe_intro]: "safe (vmodify (vo_marked_update g))"
  by (rule safe_vmodify) (simp add: bounded_def)

lemma layouts [simp]: "ft_layout (took n f) = ft_layout f" "ft_layout (gave n f) = ft_layout f" "ft_layout (forget_free f) = ft_layout f"
  by (simp_all add: took_def gave_def forget_free_def)

lemma safe_primitives [safe_intro]:
  "safe (v_read B at n)" "safe (v_write B at data)" "safe (v_flush B)" "safe v_layout" "safe (v_next B cluster)"
  "safe (v_set B cluster x)" "safe (v_walk B first)" "safe (v_find B dir name)" "safe (v_is_empty B dir)"
  "safe (v_positions B dir start n)" "safe (v_survey B dir name n except)" "safe (v_set_clean B clean)" "safe (v_scan B first visit s)"
proof -
  show "safe (v_read B at n)" "safe (v_write B at data)" "safe (v_flush B)"
    unfolding v_read_def v_write_def v_flush_def by (intro safe_on_cache csafe_read_at csafe_write_at csafe_flush)+
  show "safe v_layout" unfolding v_layout_def by (rule safe_vget)
  show "safe (v_next B cluster)" "safe (v_set B cluster x)" "safe (v_walk B first)" "safe (v_find B dir name)" "safe (v_is_empty B dir)"
    "safe (v_positions B dir start n)" "safe (v_survey B dir name n except)"
    unfolding v_next_def [abs_def] v_set_def [abs_def] v_walk_def [abs_def] v_find_def [abs_def] v_is_empty_def [abs_def]
      v_positions_def [abs_def] v_survey_def [abs_def]
    by (rule safe_on_cache', rule csafe_next csafe_set csafe_walk csafe_find csafe_is_empty csafe_positions csafe_survey)+
  have "csafe (\<lambda>c. case set_clean B l c clean of (r, c') \<Rightarrow> (map_sum id (\<lambda>_. ()) r, c'))" for l
  proof (rule csafeI)
    fix c r c' assume ok: "cache_ok c" and s: "(case set_clean B l c clean of (r, c') \<Rightarrow> (map_sum id (\<lambda>_. ()) r, c')) = (r, c')"
    obtain r1 where sc: "set_clean_copies B l c clean (written_copies l) False = (r1, c')" "r = Inl Io \<longleftrightarrow> r1 = Inl Io"
      using s by (auto simp: set_clean_def split: prod.splits) (metis map_sum.simps(1) id_apply map_sum.simps(2) old.sum.exhaust sum.distinct(1) Inl_inject)+
    show "cframe c (r = Inl Io) c'" using csafeD [OF csafe_set_clean_copies ok sc(1)] sc(2) by simp
  qed
  then show "safe (v_set_clean B clean)" unfolding v_set_clean_def [abs_def] by (rule safe_on_cache')
  have "csafe (\<lambda>c. case scan_new l first of Inl e \<Rightarrow> (Inl e, c)
      | Inr sc \<Rightarrow> (case scan_while B l visit c sc s of (e, s', _, c') \<Rightarrow> (of_fs_error e s', c')))" for l
    by (rule csafe_read) (auto simp: keeps_refl split: sum.splits prod.splits dest: scan_while_keeps)
  then show "safe (v_scan B first visit s)" unfolding v_scan_def [abs_def] by (rule safe_on_cache')
qed

lemma safe_counts [safe_intro]:
  "safe (v_free_count B)" "safe (v_find_free B want)" "safe (v_free_chain B first n)" "safe (v_next_free_hint B)"
proof -
  show "safe (v_free_count B)" unfolding v_free_count_def
    by (rule safe_on_fat) (use free_count_keeps keeps_cframe in blast)
  show "safe (v_find_free B want)" unfolding v_find_free_def
    by (rule safe_on_fat) (auto split: prod.splits dest: find_free_keeps intro: keeps_cframe)
  show "safe (v_next_free_hint B)" unfolding v_next_free_hint_def
    by (rule safe_on_fat) (auto simp: next_free_hint_def split: prod.splits option.splits dest: find_free_keeps intro: keeps_cframe)
  show "safe (v_free_chain B first n)" unfolding v_free_chain_def
  proof (rule safe_on_fat)
    fix f c r f' c' assume ok: "cache_ok c"
      and fc: "(case free_chain B f c first n of ((e, f'), c') \<Rightarrow> (of_fs_error e (), f', c')) = (r, f', c')"
    obtain r1 c1 where fl: "free_loop B (ft_layout f) c first n = (r1, c1)" by fastforce
    show "cframe c (r = Inl Io) c' \<and> ft_layout f' = ft_layout f"
      using fc fl csafeD [OF csafe_free_loop ok fl] by (cases r1) (auto simp: free_chain_def of_fs_error_def)
  qed
qed

section \<open>Every operation\<close>

lemma safe_helpers [safe_intro]:
  "safe cluster_bytes" "safe (offset_of cluster)" "safe (set_linux_state B dirty)" "safe (begin_write B)"
  "safe (subdir_cluster f)" "safe (opened slot)" "safe (room B clusters)" "safe (link_new B prev found)"
  "safe (dotdot B first)" "safe (point_dotdot B first parent)" "safe (mark_free B g)" "safe (free_owned B chain)"
  unfolding cluster_bytes_def offset_of_def set_linux_state_def begin_write_def subdir_cluster_def opened_def room_def
    link_new_def dotdot_def point_dotdot_def mark_free_def free_owned_def
  by (intro safe_intro layouts)+

lemma safe_opened_set [safe_intro]: "safe (opened_set slot f)"
  unfolding opened_set_def by (intro safe_intro safe_vmodify) (simp add: bounded_def)

lemma bounded_dirs:
  "bounded v \<Longrightarrow> length ds \<le> MAX_DIRS \<Longrightarrow> bounded (v\<lparr>vo_dirs := ds\<rparr>)"
  by (simp add: bounded_def)

lemma safe_remember [safe_intro]: "safe (remember path cluster)"
  unfolding remember_def
proof (rule safe_vmodify)
  fix v :: "'d volume"
  let ?ds = "filter (\<lambda>k. kn_path k \<noteq> path) (vo_dirs v)"
  have "length ?ds \<le> length (vo_dirs v)" by simp
  then have "bounded v \<longrightarrow> length (if length ?ds \<ge> MAX_DIRS then tl ?ds else ?ds) + 1 \<le> MAX_DIRS"
    unfolding bounded_def MAX_DIRS_def by (auto simp del: length_filter_le)
  then show "vo_cache (let ds = ?ds; ds = if MAX_DIRS \<le> length ds then tl ds else ds in v\<lparr>vo_dirs := ds @ [\<lparr>kn_path = path, kn_cluster = cluster\<rparr>]\<rparr>) = vo_cache v
    \<and> ft_layout (vo_fat (let ds = ?ds; ds = if MAX_DIRS \<le> length ds then tl ds else ds in v\<lparr>vo_dirs := ds @ [\<lparr>kn_path = path, kn_cluster = cluster\<rparr>]\<rparr>)) = ft_layout (vo_fat v)
    \<and> (bounded v \<longrightarrow> bounded (let ds = ?ds; ds = if MAX_DIRS \<le> length ds then tl ds else ds in v\<lparr>vo_dirs := ds @ [\<lparr>kn_path = path, kn_cluster = cluster\<rparr>]\<rparr>))"
    by (simp add: Let_def bounded_def)
qed

lemma safe_dir_walk [safe_intro]: "safe (dir_walk B parts walked cluster)"
  by (induction parts arbitrary: walked cluster) (auto intro!: safe_intro)

lemma moved_last: "List.find P xs = Some x \<Longrightarrow> Suc (length (remove1 x xs)) = length xs"
proof -
  assume "List.find P xs = Some x"
  then have "x \<in> set xs" by (auto simp: find_Some_iff)
  then show ?thesis by (simp add: length_remove1) (metis Suc_pred length_pos_if_in_set)
qed

lemma safe_touch_dir [safe_intro]: "safe (touch_dir path)"
  by (auto simp: safe_def touch_dir_def vframe_def vol_ok_def bounded_def moved_last split: option.splits)

lemma safe_touch_open [safe_intro]: "safe (touch_open path)"
  by (auto simp: safe_def touch_open_def vframe_def vol_ok_def bounded_def moved_last split: option.splits)

lemma safe_push_open [safe_intro]: "safe (push_open f)"
  by (auto simp: safe_def push_open_def Let_def vframe_def vol_ok_def bounded_def MAX_OPEN_def)

lemma safe_dir_cluster [safe_intro]: "safe (dir_cluster B path)"
  unfolding dir_cluster_def by (intro safe_intro)

lemma safe_clusters_along [safe_intro]: "safe (clusters_along B parts walked out)"
  by (induction parts arbitrary: walked out) (auto intro!: safe_intro)

lemma safe_path_clusters [safe_intro]: "safe (path_clusters B path)"
  unfolding path_clusters_def by (intro safe_intro)

lemma safe_close_under [safe_intro]: "safe (close_under path)"
  unfolding close_under_def
  by (rule safe_vmodify) (auto simp: bounded_def intro: order_trans [OF length_filter_le])

lemma safe_handle [safe_intro]: "safe (handle B path)"
  unfolding handle_def by (intro safe_intro)

lemma safe_follow [safe_intro]: "safe (follow B k cluster)"
  by (induction k arbitrary: cluster) (auto intro!: safe_intro)

lemma safe_cluster_at [safe_intro]: "safe (cluster_at B slot index)"
  unfolding cluster_at_def by (intro safe_intro)

lemma safe_run_at_loop [safe_intro]: "safe (run_at_loop B slot index within remaining cb clusters n prev)"
proof (induction "clusters - (index + n)" arbitrary: n prev rule: less_induct)
  case less
  show ?case unfolding run_at_loop.simps [of B slot index within remaining cb clusters n prev]
    by (intro safe_intro less) auto
qed

lemma safe_run_at [safe_intro]: "safe (run_at B slot index within remaining)"
  unfolding run_at_def by (intro safe_intro)

lemma safe_write_zeros [safe_intro]: "safe (write_zeros B zeros at len)"
proof (induction len arbitrary: at rule: less_induct)
  case (less len)
  show ?case unfolding write_zeros.simps [of B zeros at len] Let_def by (intro safe_intro less) auto
qed

lemma safe_write_piece [safe_intro]: "safe (write_piece B p zeros at start len)"
  unfolding write_piece_def by (intro safe_intro)

lemma safe_fill_round [safe_intro]: "safe (fill_round B p cb tot at found written)"
proof (induction "length found" arbitrary: found written rule: less_induct)
  case less
  show ?case
  proof (cases found)
    case (Cons first rest)
    show ?thesis unfolding Cons fill_round.simps Let_def by (intro safe_intro less) (simp add: Cons)
  qed (simp add: fill_round.simps safe_vret)
qed

lemma safe_fill_loop [safe_intro]: "safe (fill_loop B slot start p cb at)"
proof (induction "piece_len p - at" arbitrary: at rule: less_induct)
  case less
  show ?case unfolding fill_loop.simps [of B slot start p cb at] Let_def by (intro safe_intro less) auto
qed

lemma safe_read_file_loop [safe_intro]: "safe (read_file_loop B slot cb offset want out)"
proof (induction "want - length out" arbitrary: out rule: less_induct)
  case less
  show ?case unfolding read_file_loop.simps [of B slot cb offset want out] Let_def
    by (intro safe_intro less) (auto simp: neq_Nil_conv)
qed

lemma safe_fill_file [safe_intro]: "safe (fill_file B slot start p)"
  unfolding fill_file_def by (intro safe_intro)

lemma safe_update_entry [safe_intro]: "safe (update_entry B slot len)"
  unfolding update_entry_def by (intro safe_intro)

lemma safe_cut_file [safe_intro]: "safe (cut_file B slot len keep clusters)"
  unfolding cut_file_def by (intro safe_intro)

lemma safe_grow [safe_intro]: "safe (grow B lst slots)"
  unfolding grow_def by (intro safe_intro)

lemma safe_add_entry [safe_intro]: "safe (add_entry B dir name template except)"
  unfolding add_entry_def bridge_end_def keep_end_def by (intro safe_intro)

lemma safe_owned_chain [safe_intro]: "safe (owned_chain B first)"
  unfolding owned_chain_def by (intro safe_intro safe_vtry) (auto simp: vfail_def)

lemma safe_give_back: "e \<noteq> Io \<Longrightarrow> safe (give_back B own e)"
  unfolding give_back_def by (intro safe_intro layouts)

lemma give_back_Io: "give_back B own Io v = (Inl Io, v)"
  by (simp add: give_back_def vbind_def vget_def vret_def vfail_def)

lemma safe_renames [safe_intro]:
  "safe (rename_respell B path src to_cluster to_name)"
  "safe (rename_over B path src moves to_dir to_cluster target)"
  "safe (rename_new B path src moves to_cluster to_name)"
  unfolding rename_respell_def rename_over_def rename_new_def by (intro safe_intro)+

section \<open>What an operation leaves\<close>

definition settled :: "'d volume \<Rightarrow> bool" where
  "settled v \<longleftrightarrow> cache_ok (vo_cache v) \<and> \<not> has_dirty (vo_cache v) \<and> bounded v"

definition settles :: "('a, 'd) vol \<Rightarrow> bool" where
  "settles m \<longleftrightarrow> (\<forall>v r v'. settled v \<longrightarrow> m v = (r, v') \<longrightarrow> settled v' \<and> vframe v v')"

lemma vol_ok_settled: "settled v \<Longrightarrow> vol_ok v"
  by (simp add: settled_def vol_ok_def)

lemma discard_frame: "vol_ok v \<or> r = Inl Io \<Longrightarrow> has_dirty (discard c) = False \<and> cache_ok (discard c) \<and> blocks_of (discard c) = blocks_of c
    \<and> ca_dev (discard c) = ca_dev c \<and> ca_writable (discard c) = ca_writable c"
  using discard_ok [of c] by (simp add: discard_def has_dirty_def blocks_of_def)

lemma run_settles:
  assumes "safe op"
  shows "settles (run B op)"
  unfolding settles_def
proof (intro allI impI)
  fix v r v' assume v: "settled v" and run: "run B op v = (r, v')"
  obtain r1 v1 where o: "op v = (r1, v1)" by fastforce
  obtain r2 v2 where f: "(case op v of (Inr x, v1) \<Rightarrow> vbind (v_flush B) (\<lambda>_. vret x) v1 | (Inl e, v1) \<Rightarrow> (Inl e, v1)) = (r2, v2)" by fastforce
  have s1: "vframe v v1" "vol_ok v1 \<or> r1 = Inl Io" using safeD [OF assms vol_ok_settled [OF v] o] by auto
  have s2: "vframe v v2" "vol_ok v2 \<or> r2 = Inl Io" "\<forall>x. r2 = Inr x \<longrightarrow> \<not> has_dirty (vo_cache v2) \<and> cache_ok (vo_cache v2)"
  proof -
    have "vframe v v2 \<and> (vol_ok v2 \<or> r2 = Inl Io) \<and> (\<forall>x. r2 = Inr x \<longrightarrow> \<not> has_dirty (vo_cache v2) \<and> cache_ok (vo_cache v2))"
    proof (cases r1)
      case (Inl e)
      then show ?thesis using f o s1 by auto
    next
      case (Inr x)
      then have b: "vbind (v_flush B) (\<lambda>_. vret x) v1 = (r2, v2)" and v1: "vol_ok v1" using f o s1 by auto
      have sf: "safe (vbind (v_flush B) (\<lambda>_. vret x))" by (intro safe_intro)
      have "\<not> has_dirty (vo_cache v2) \<and> cache_ok (vo_cache v2)" if "r2 = Inr y" for y
      proof -
        obtain e c where fl: "cache_flush B (vo_cache v1) = (e, c)" by fastforce
        then have "e = None" "v2 = v1\<lparr>vo_cache := c\<rparr>"
          using b that by (auto simp: vbind_def v_flush_def on_cache_def of_cache_error_def vret_def split: option.splits)
        then show ?thesis using cache_flush_spec(1,4) [OF _ fl] v1 keeps_ok by (auto simp: vol_ok_def)
      qed
      then show ?thesis using safeD [OF sf v1 b] vframe_trans [OF s1(1)] by blast
    qed
    then show "vframe v v2" "vol_ok v2 \<or> r2 = Inl Io" "\<forall>x. r2 = Inr x \<longrightarrow> \<not> has_dirty (vo_cache v2) \<and> cache_ok (vo_cache v2)" by auto
  qed
  have b2: "bounded v2" using s2(1) v by (simp add: vframe_def settled_def)
  note run' = run [unfolded run_def f]
  show "settled v' \<and> vframe v v'"
  proof (cases r2)
    case (Inr x)
    then show ?thesis using run' s2 b2 by (auto simp: settled_def)
  next
    case (Inl e)
    let ?v3 = "forget (v2\<lparr>vo_cache := discard (vo_cache v2), vo_fat := forget_free (vo_fat v2)\<rparr>)"
    have "settled ?v3 \<and> vframe v2 ?v3"
      using discard_frame [OF s2(2), of "vo_cache v2"] by (simp add: settled_def vframe_def forget_def bounded_def)
    moreover have "settled (forget v2) \<and> vframe v2 (forget v2) \<and> settled v2" if "\<not> has_dirty (vo_cache v2)" "e \<noteq> Io"
      using s2(2) that Inl b2 by (auto simp: settled_def vol_ok_def vframe_def forget_def bounded_def)
    ultimately show ?thesis using run' Inl vframe_trans [OF s2(1)] s2(1) by (auto split: if_splits)
  qed
qed

lemma settles_vret: "settles (vret x)" and settles_vfail: "settles (vfail e)"
  by (auto simp: settles_def vret_def vfail_def vframe_refl)

lemma settles_lift_name: "(\<And>n. settles (f n)) \<Longrightarrow> settles (lift_name r f)"
  by (cases r) (simp_all add: lift_name_def settles_vfail)

lemma operations_settle:
  "settles (lookup B dir name)" "settles (list_dir B dir)" "settles (read_file B path offset n)"
  "settles (write_file B path offset data)" "settles (truncate_file B path len)" "settles (create B dir name)"
  "settles (mkdir B dir name)" "settles (remove_entry B dir name want_dir)" "settles (rename_entry B dir name to_dir to_name)"
  "settles (fsync B path)" "settles (sync_volume B)" "settles (stats B)" "settles (boot_file B)" "settles (clusters_of B dir name)"
proof -
  have chain: "safe (chain_of B cluster k)" for cluster k by (induction k arbitrary: cluster) (auto intro!: safe_intro)
  show "settles (lookup B dir name)" "settles (list_dir B dir)" "settles (read_file B path offset n)" "settles (create B dir name)"
    "settles (remove_entry B dir name want_dir)" "settles (rename_entry B dir name to_dir to_name)" "settles (fsync B path)"
    "settles (stats B)" "settles (boot_file B)" "settles (clusters_of B dir name)"
    unfolding lookup_def list_dir_def read_file_def create_def remove_entry_def rename_entry_def fsync_def stats_def boot_file_def clusters_of_def
    by (intro settles_lift_name run_settles safe_intro chain)+
  show "settles (sync_volume B)" unfolding sync_volume_def write_fsinfo_def by (intro run_settles safe_intro)
  show "settles (mkdir B dir name)" unfolding mkdir_def
    by (intro settles_lift_name run_settles safe_intro safe_vtry safe_give_back give_back_Io)
  have w: "settles (run B m)" if "safe m" for m :: "(nat, 'd) vol" using run_settles [OF that] .
  show "settles (write_file B path offset data)" unfolding write_file_def Let_def
    by (auto intro!: settles_vret settles_vfail run_settles safe_intro)
  show "settles (truncate_file B path len)" unfolding truncate_file_def Let_def
    by (auto intro!: settles_vfail run_settles safe_intro)
qed

end

section \<open>Runs of operations\<close>

datatype volume_op =
    Lookup ustring ustring
  | ListDir ustring
  | ReadFile ustring nat nat
  | WriteFile ustring nat bytes
  | TruncateFile ustring nat
  | Create ustring ustring
  | Mkdir ustring ustring
  | RemoveEntry ustring ustring bool
  | RenameEntry ustring ustring ustring ustring
  | Fsync ustring
  | Sync
  | Stats
  | BootFile
  | ClustersOf ustring ustring
  | AllowWrites

definition perform :: "'d blocks \<Rightarrow> volume_op \<Rightarrow> 'd volume \<Rightarrow> 'd volume" where
  "perform B op v =
     (case op of
        Lookup dir name \<Rightarrow> snd (lookup B dir name v)
      | ListDir dir \<Rightarrow> snd (list_dir B dir v)
      | ReadFile path offset n \<Rightarrow> snd (read_file B path offset n v)
      | WriteFile path offset data \<Rightarrow> snd (write_file B path offset data v)
      | TruncateFile path len \<Rightarrow> snd (truncate_file B path len v)
      | Create dir name \<Rightarrow> snd (create B dir name v)
      | Mkdir dir name \<Rightarrow> snd (mkdir B dir name v)
      | RemoveEntry dir name want_dir \<Rightarrow> snd (remove_entry B dir name want_dir v)
      | RenameEntry from_dir from_name to_dir to_name \<Rightarrow> snd (rename_entry B from_dir from_name to_dir to_name v)
      | Fsync path \<Rightarrow> snd (fsync B path v)
      | Sync \<Rightarrow> snd (sync_volume B v)
      | Stats \<Rightarrow> snd (stats B v)
      | BootFile \<Rightarrow> snd (boot_file B v)
      | ClustersOf dir name \<Rightarrow> snd (clusters_of B dir name v)
      | AllowWrites \<Rightarrow> allow_writes v)"

text \<open>Operations in turn, each with what the clock shows when it runs.\<close>

definition perform_at :: "'d blocks \<Rightarrow> int \<times> volume_op \<Rightarrow> 'd volume \<Rightarrow> 'd volume" where
  "perform_at B p v = (case p of (now, op) \<Rightarrow> perform B op (v\<lparr>vo_now := now\<rparr>))"

context block_device
begin

lemma settles_snd: "settles m \<Longrightarrow> settled v \<Longrightarrow> settled (snd (m v)) \<and> vframe v (snd (m v))"
  by (cases "m v") (simp add: settles_def)

lemma perform_settles:
  assumes "settled v" "op \<noteq> AllowWrites"
  shows "settled (perform B op v) \<and> vframe v (perform B op v)"
  using assms operations_settle [THEN settles_snd] by (cases op) (simp_all add: perform_def)

lemma allow_writes_settles: "settled v \<Longrightarrow> settled (allow_writes v)"
  by (simp add: settled_def allow_writes_def set_writable_ok bounded_def) (simp add: set_writable_def has_dirty_def)

lemma perform_at_settles:
  assumes "settled v"
  shows "settled (perform_at B p v)" "snd p \<noteq> AllowWrites \<Longrightarrow> vframe v (perform_at B p v)"
proof -
  obtain now op where p: "p = (now, op)" by (cases p)
  have v: "settled (v\<lparr>vo_now := now\<rparr>)" "vframe v (v\<lparr>vo_now := now\<rparr>)"
    using assms by (simp_all add: settled_def vframe_def bounded_def)
  show "settled (perform_at B p v)"
    using perform_settles [OF v(1)] allow_writes_settles [OF v(1)] p by (cases "op = AllowWrites") (auto simp: perform_at_def perform_def)
  show "vframe v (perform_at B p v)" if "snd p \<noteq> AllowWrites"
    using perform_settles [OF v(1)] that p vframe_trans [OF v(2)] by (simp add: perform_at_def)
qed

lemma performs_settle:
  "settled v \<Longrightarrow> settled (fold (perform_at B) ops v)
     \<and> (AllowWrites \<notin> snd ` set ops \<longrightarrow> vframe v (fold (perform_at B) ops v))"
proof (induction ops arbitrary: v)
  case (Cons p ops)
  note p = perform_at_settles [OF Cons.prems, of p]
  show ?case using Cons.IH [OF p(1)] p(2) vframe_trans by auto
qed (simp add: vframe_refl)

lemma mount_settled:
  assumes "mount B d l now = Inr v"
  shows "settled v \<and> \<not> ca_writable (vo_cache v) \<and> disk (ca_dev (vo_cache v)) = disk d \<and> ft_layout (vo_fat v) = l"
proof -
  have new: "cache_ok (cache_new d)" "logical (cache_new d) = disk d"
    using cache_new_ok by (auto simp: logical_def cache_new_def)
  obtain r c1 where r: "(case ly_fsinfo l of None \<Rightarrow> (Inr FSI_UNKNOWN, cache_new d)
      | Some sector \<Rightarrow> (case read_at B (cache_new d) (sector * BLOCK) BLOCK of
           (Inl e, c) \<Rightarrow> (Inl (fs_of_cache e), c)
         | (Inr bs, c) \<Rightarrow> (Inr (case fsinfo_hints bs of Some (_, next) \<Rightarrow> unat next | None \<Rightarrow> FSI_UNKNOWN), c))) = (r, c1)" by fastforce
  have k1: "keeps (cache_new d) c1"
    using r new(1) by (auto simp: keeps_refl split: option.splits prod.splits sum.splits dest: read_at_spec)
  note m = assms [unfolded mount_def Let_def r prod.case]
  obtain hint clean c2 where c: "r = Inr hint" "fat_clean B l c1 = (Inr clean, c2)"
    "v = \<lparr>vo_cache = c2, vo_fat = fat_new l hint, vo_now = now, vo_open = [], vo_dirs = [], vo_dirty_at_mount = \<not> clean, vo_marked = False\<rparr>"
    using m by (auto split: sum.splits prod.splits)
  have "keeps c1 c2"
    using c(2) read_raw_spec(1) [OF keeps_ok [OF k1]] by (auto simp: fat_clean_def split: prod.splits sum.splits)
  then have k: "keeps (cache_new d) c2" using keeps_trans [OF k1] by blast
  then have "cache_ok c2" "\<not> has_dirty c2" "\<not> ca_writable c2" "logical c2 = disk d"
    using new by (auto simp: keeps_def has_dirty_def cache_new_def)
  then show ?thesis using logical_clean [of c2] c(3) by (simp add: settled_def bounded_def fat_new_def)
qed

end

section \<open>Properties\<close>





end
