(* ===== verification/Fat_File.thy ===== *)
theory Fat_File
  imports Fat_Frame
begin

text \<open>
  A file as the bytes of its chain of clusters.  \<open>file_byte\<close> reads one straight out of the volume's
  contents; an open file is right when what it remembers of its chain is so.
\<close>

section \<open>The reference\<close>

definition file_pos :: "layout \<Rightarrow> nat list \<Rightarrow> nat \<Rightarrow> nat" where
  "file_pos l xs p = the (cluster_offset l (xs ! (p div ly_cluster_bytes l))) + p mod ly_cluster_bytes l"

abbreviation file_bytes :: "(nat \<Rightarrow> u8) \<Rightarrow> layout \<Rightarrow> nat list \<Rightarrow> nat \<Rightarrow> nat \<Rightarrow> bytes" where
  "file_bytes g l xs p n \<equiv> map (\<lambda>i. g (file_pos l xs i)) [p..<p + n]"

definition open_ok :: "(nat \<Rightarrow> u8) \<Rightarrow> layout \<Rightarrow> open_file \<Rightarrow> nat list \<Rightarrow> bool" where
  "open_ok g l f xs \<longleftrightarrow> of_clusters f = length xs \<and> (\<forall>x \<in> set xs. is_cluster l x)
     \<and> (xs \<noteq> [] \<longrightarrow> is_chain (link_at g l) xs \<and> of_first f = hd xs \<and> of_last f = last xs)
     \<and> (xs = [] \<longrightarrow> of_first f = 0)
     \<and> (\<forall>i c. of_pos f = Some (i, c) \<longrightarrow> i < length xs \<and> c = xs ! i)"

lemma cluster_bytes_pos: "layout_ok l \<Longrightarrow> 0 < ly_cluster_bytes l"
  using slots_per_pos [of l] by (simp add: ENTRY_BYTES_def)

lemma offset_adjacent:
  assumes "layout_ok l" "is_cluster l x" "is_cluster l (x + j)"
  shows "the (cluster_offset l (x + j)) = the (cluster_offset l x) + j * ly_cluster_bytes l"
proof -
  have "x + j - 2 = (x - 2) + j" using assms(2) by (simp add: is_cluster_def)
  then show ?thesis using assms by (simp add: cluster_offset_def layout_ok_def distrib_right mult.assoc)
qed

lemma file_bytes_append: "file_bytes g l xs p a @ file_bytes g l xs (p + a) b = file_bytes g l xs p (a + b)"
  using upt_add_eq_append [of p "p + a" b] by (simp add: add.assoc)

lemma file_pos_in:
  assumes "layout_ok l" "\<forall>x \<in> set xs. is_cluster l x" "p < length xs * ly_cluster_bytes l"
  shows "\<exists>off. cluster_offset l (xs ! (p div ly_cluster_bytes l)) = Some off \<and> file_pos l xs p = off + p mod ly_cluster_bytes l
    \<and> ly_data_start l * BLOCK \<le> file_pos l xs p \<and> file_pos l xs p < ly_sectors l * BLOCK"
proof -
  have "p div ly_cluster_bytes l < length xs" using assms(3) by (simp add: less_mult_imp_div_less)
  then have "is_cluster l (xs ! (p div ly_cluster_bytes l))" using assms(2) by simp
  from cluster_offset_in [OF assms(1) this] obtain off where
    "cluster_offset l (xs ! (p div ly_cluster_bytes l)) = Some off" "ly_data_start l * BLOCK \<le> off"
    "off + ly_cluster_bytes l \<le> ly_sectors l * BLOCK" by blast
  moreover have "p mod ly_cluster_bytes l < ly_cluster_bytes l" using cluster_bytes_pos [OF assms(1)] by simp
  ultimately show ?thesis by (simp add: file_pos_def)
qed

lemma file_pos_run:
  assumes l: "layout_ok l" and xs: "\<forall>x \<in> set xs. is_cluster l x" and p: "p + j < length xs * ly_cluster_bytes l"
    and adj: "xs ! ((p + j) div ly_cluster_bytes l) = xs ! (p div ly_cluster_bytes l) + (p mod ly_cluster_bytes l + j) div ly_cluster_bytes l"
  shows "file_pos l xs (p + j) = file_pos l xs p + j"
proof -
  let ?cb = "ly_cluster_bytes l"
  have d: "(p + j) div ?cb < length xs" "p div ?cb < length xs" using p by (simp_all add: less_mult_imp_div_less)
  then have "is_cluster l (xs ! (p div ?cb))" "is_cluster l (xs ! (p div ?cb) + (p mod ?cb + j) div ?cb)"
    using xs adj nth_mem by metis+
  from offset_adjacent [OF l this] have
    "file_pos l xs (p + j) = the (cluster_offset l (xs ! (p div ?cb))) + (p mod ?cb + j) div ?cb * ?cb + (p + j) mod ?cb"
    unfolding file_pos_def adj by simp
  also have "(p + j) mod ?cb = (p mod ?cb + j) mod ?cb" by (simp add: mod_add_left_eq)
  also have "the (cluster_offset l (xs ! (p div ?cb))) + (p mod ?cb + j) div ?cb * ?cb + (p mod ?cb + j) mod ?cb
    = the (cluster_offset l (xs ! (p div ?cb))) + (p mod ?cb + j)" by (simp only: add.assoc div_mult_mod_eq)
  finally show ?thesis by (simp add: file_pos_def)
qed

section \<open>Following a chain\<close>

context answering_device
begin

definition file_ok :: "'a volume \<Rightarrow> nat \<Rightarrow> nat list \<Rightarrow> bool" where
  "file_ok v slot xs \<longleftrightarrow> slot < length (vo_open v) \<and> volume_ok (ft_layout (vo_fat v)) (vo_cache v) \<and> in_u64 (vo_cache v)
     \<and> open_ok (logical_byte (vo_cache v)) (ft_layout (vo_fat v)) (vo_open v ! slot) xs"

text \<open>A step that reads: the contents stay, and so does everything remembered but the position in the file.\<close>

definition reads :: "nat \<Rightarrow> 'a volume \<Rightarrow> 'a volume \<Rightarrow> bool" where
  "reads slot v v' \<longleftrightarrow> (\<exists>c p. keeps (vo_cache v) c
     \<and> v' = v\<lparr>vo_cache := c, vo_open := (vo_open v)[slot := (vo_open v ! slot)\<lparr>of_pos := p\<rparr>]\<rparr>)"

lemma reads_cache: "slot < length (vo_open v) \<Longrightarrow> keeps (vo_cache v) c \<Longrightarrow> reads slot v (v\<lparr>vo_cache := c\<rparr>)"
  unfolding reads_def by (rule exI [of _ c], rule exI [of _ "of_pos (vo_open v ! slot)"]) (simp add: list_update_id)

lemma reads_refl: "file_ok v slot xs \<Longrightarrow> reads slot v v"
  using reads_cache [of slot v "vo_cache v"] keeps_refl by (simp add: file_ok_def volume_ok_def)

lemma reads_trans: "slot < length (vo_open v) \<Longrightarrow> reads slot v v1 \<Longrightarrow> reads slot v1 v2 \<Longrightarrow> reads slot v v2"
  unfolding reads_def using keeps_trans by fastforce

lemma reads_same:
  assumes "reads slot v v'"
  shows "vo_fat v' = vo_fat v" "logical_byte (vo_cache v') = logical_byte (vo_cache v)" "length (vo_open v') = length (vo_open v)"
    "slot < length (vo_open v) \<Longrightarrow> of_size (vo_open v' ! slot) = of_size (vo_open v ! slot)" "keeps (vo_cache v) (vo_cache v')"
  using assms keeps_bytes by (auto simp: reads_def)

lemma file_ok_cache: "file_ok v slot xs \<Longrightarrow> keeps (vo_cache v) c \<Longrightarrow> file_ok (v\<lparr>vo_cache := c\<rparr>) slot xs"
  using volume_ok_keeps [of _ "vo_cache v" c] in_u64_keeps [of "vo_cache v" c] keeps_bytes [of "vo_cache v" c] by (simp add: file_ok_def)

lemma file_ok_length:
  assumes "file_ok v slot xs"
  shows "length xs \<le> U32_MAX"
proof (cases "xs = []")
  case False
  let ?l = "ft_layout (vo_fat v)"
  have "distinct xs" "\<forall>x \<in> set xs. is_cluster ?l x" using assms False is_chain_distinct by (auto simp: file_ok_def open_ok_def)
  from clusters_bound [OF this] have "length xs \<le> ly_clusters ?l" .
  also have "\<dots> \<le> MAX_CLUSTERS" using assms by (simp add: file_ok_def volume_ok_def layout_ok_def)
  finally show ?thesis by (simp add: MAX_CLUSTERS_def U32_MAX_def)
qed simp

lemma follow_ok:
  assumes "file_ok v slot xs" "at + k < length xs"
  shows "\<exists>c. follow B k (xs ! at) v = (Inr (xs ! (at + k)), v\<lparr>vo_cache := c\<rparr>) \<and> keeps (vo_cache v) c"
  using assms
proof (induction k arbitrary: v at)
  case 0
  then show ?case
    using keeps_refl by (intro exI [of _ "vo_cache v"]) (simp add: vret_def file_ok_def volume_ok_def)
next
  case (Suc k)
  let ?l = "ft_layout (vo_fat v)"
  have xs: "is_chain (link_at (logical_byte (vo_cache v)) ?l) xs" "\<forall>x \<in> set xs. is_cluster ?l x"
    using Suc.prems by (auto simp: file_ok_def open_ok_def)
  have "at < length xs" "Suc at < length xs" using Suc.prems(2) by simp_all
  with fat_next_ok [OF _ _ xs, of at] Suc.prems(1) obtain c where
    n: "fat_next B ?l (vo_cache v) (xs ! at) = (Inr (Some (xs ! Suc at)), c)" "keeps (vo_cache v) c"
    by (auto simp: file_ok_def)
  from Suc.IH [OF file_ok_cache [OF Suc.prems(1) n(2)], of "Suc at"] Suc.prems(2) obtain c' where
    "follow B k (xs ! Suc at) (v\<lparr>vo_cache := c\<rparr>) = (Inr (xs ! (at + Suc k)), v\<lparr>vo_cache := c'\<rparr>)" "keeps c c'" by auto
  then show ?case using n keeps_trans [OF n(2)]
    by (auto simp: vbind_def v_next_def on_cache_def vsome_def vret_def)
qed

lemma cluster_at_ok:
  assumes f: "file_ok v slot xs" and index: "index < length xs"
  shows "\<exists>v'. cluster_at B slot index v = (Inr (xs ! index), v') \<and> file_ok v' slot xs \<and> reads slot v v'"
proof -
  let ?f = "vo_open v ! slot"
  have o: "opened slot v = (Inr ?f, v)" using f by (simp add: opened_def vbind_def vget_def vret_def file_ok_def)
  have ok: "of_clusters ?f = length xs" "of_first ?f = xs ! 0" "of_last ?f = last xs"
    "\<forall>i c. of_pos ?f = Some (i, c) \<longrightarrow> i < length xs \<and> c = xs ! i"
    using f index by (auto simp: file_ok_def open_ok_def hd_conv_nth)
  show ?thesis
  proof (cases "index + 1 = length xs")
    case True
    have i: "index = length xs - 1" using True by simp
    have "xs \<noteq> []" using index by auto
    then have "last xs = xs ! index" unfolding i by (rule last_conv_nth)
    then have "of_last ?f = xs ! index" "\<not> of_clusters ?f \<le> index" "index + 1 = of_clusters ?f" using ok(1,3) True index by simp_all
    then have "cluster_at B slot index v = (Inr (xs ! index), v)"
      unfolding cluster_at_def vbind_def o by (simp add: vret_def)
    then show ?thesis using f reads_refl [OF f] by blast
  next
    case False
    have "\<exists>at. (case of_pos ?f of Some (at, cluster) \<Rightarrow> if at \<le> index then (at, cluster) else (0, of_first ?f)
        | None \<Rightarrow> (0, of_first ?f)) = (at, xs ! at) \<and> at \<le> index"
    proof (cases "\<exists>at cl. of_pos ?f = Some (at, cl) \<and> at \<le> index")
      case True
      then show ?thesis using ok(4) by fastforce
    next
      case False
      then show ?thesis using ok(2) by (intro exI [of _ 0]) (auto split: option.split)
    qed
    then obtain at where p: "(case of_pos ?f of Some (at, cluster) \<Rightarrow> if at \<le> index then (at, cluster) else (0, of_first ?f)
        | None \<Rightarrow> (0, of_first ?f)) = (at, xs ! at)" "at \<le> index" by blast
    have "at + (index - at) < length xs" using p(2) index by simp
    from follow_ok [OF f this] p(2) obtain c where
      fo: "follow B (index - at) (xs ! at) v = (Inr (xs ! index), v\<lparr>vo_cache := c\<rparr>)" "keeps (vo_cache v) c" by auto
    let ?v = "v\<lparr>vo_cache := c, vo_open := (vo_open v)[slot := ?f\<lparr>of_pos := Some (index, xs ! index)\<rparr>]\<rparr>"
    have slot: "slot < length (vo_open v)" using f by (simp add: file_ok_def)
    have "cluster_at B slot index v = (Inr (xs ! index), ?v)"
      using o ok(1) index False p fo slot
      by (simp add: cluster_at_def vbind_def opened_set_def opened_def vget_def vmodify_def vret_def)
    moreover have "file_ok ?v slot xs"
      using file_ok_cache [OF f fo(2)] index slot by (simp add: file_ok_def open_ok_def)
    moreover have "reads slot v ?v" using fo(2) unfolding reads_def by blast
    ultimately show ?thesis by blast
  qed
qed

lemma run_at_loop_ok:
  assumes "file_ok v slot xs" "index + n \<le> length xs" "0 < n" "\<forall>j < n. xs ! (index + j) = xs ! index + j" "prev + 1 = xs ! index + n"
  shows "\<exists>v' k. run_at_loop B slot index within remaining cb (length xs) n prev v = (Inr k, v') \<and> file_ok v' slot xs
    \<and> reads slot v v' \<and> n \<le> k \<and> index + k \<le> length xs \<and> (\<forall>j < k. xs ! (index + j) = xs ! index + j)"
  using assms
proof (induction "length xs - (index + n)" arbitrary: v n prev rule: less_induct)
  case less
  note unf = run_at_loop.simps [of B slot index within remaining cb "length xs" n prev]
  show ?case
  proof (cases "n * cb - within < remaining \<and> n * cb < RUN_BYTES \<and> index + n < length xs")
    case False
    then have "run_at_loop B slot index within remaining cb (length xs) n prev v = (Inr n, v)"
      by (subst unf) (simp only: if_False vret_def)
    then show ?thesis using less.prems reads_refl [OF less.prems(1)] by blast
  next
    case True
    obtain v1 where c: "cluster_at B slot (index + n) v = (Inr (xs ! (index + n)), v1)" "file_ok v1 slot xs" "reads slot v v1"
      using cluster_at_ok [OF less.prems(1), of "index + n"] True by blast
    show ?thesis
    proof (cases "xs ! (index + n) = prev + 1")
      case False
      then have "run_at_loop B slot index within remaining cb (length xs) n prev v = (Inr n, v1)"
        using True c(1) by (subst unf) (simp add: vbind_def vret_def)
      then show ?thesis using c(2,3) less.prems by blast
    next
      case next_one: True
      then have all: "\<forall>j < n + 1. xs ! (index + j) = xs ! index + j" using less.prems(4,5) by (auto simp: less_Suc_eq)
      have "length xs - (index + (n + 1)) < length xs - (index + n)" "index + (n + 1) \<le> length xs" using True by auto
      from less.hyps [OF this(1) c(2) this(2) _ all, of "xs ! (index + n)"] next_one less.prems(5) obtain v' k where
        r: "run_at_loop B slot index within remaining cb (length xs) (n + 1) (xs ! (index + n)) v1 = (Inr k, v')" "file_ok v' slot xs"
          "reads slot v1 v'" "n + 1 \<le> k" "index + k \<le> length xs" "\<forall>j < k. xs ! (index + j) = xs ! index + j" by auto
      have "run_at_loop B slot index within remaining cb (length xs) n prev v = (Inr k, v')"
        using True c(1) r(1) next_one by (subst unf) (simp add: vbind_def)
      moreover have "reads slot v v'" using reads_trans [OF _ c(3) r(3)] less.prems(1) by (simp add: file_ok_def)
      moreover have "n \<le> k" using r(4) by simp
      ultimately show ?thesis using r(2,5,6) by blast
    qed
  qed
qed

text \<open>What a run of adjacent clusters holds: the bytes of the file from there, in order.\<close>

lemma run_at_ok:
  assumes f: "file_ok v slot xs" and index: "index < length xs" and within: "within < ly_cluster_bytes (ft_layout (vo_fat v))" and rem: "0 < remaining"
  shows "\<exists>v' n. run_at B slot index within remaining v = (Inr (xs ! index, n), v') \<and> file_ok v' slot xs \<and> reads slot v v'
    \<and> 0 < n \<and> n \<le> remaining \<and> within + n \<le> (length xs - index) * ly_cluster_bytes (ft_layout (vo_fat v))
    \<and> (\<forall>j < n. xs ! ((index * ly_cluster_bytes (ft_layout (vo_fat v)) + within + j) div ly_cluster_bytes (ft_layout (vo_fat v)))
          = xs ! index + (within + j) div ly_cluster_bytes (ft_layout (vo_fat v)))"
proof -
  let ?cb = "ly_cluster_bytes (ft_layout (vo_fat v))"
  have cl: "of_clusters (vo_open v ! slot) = length xs" and slot: "slot < length (vo_open v)" using f by (simp_all add: file_ok_def open_ok_def)
  obtain v1 where c: "cluster_at B slot index v = (Inr (xs ! index), v1)" "file_ok v1 slot xs" "reads slot v v1"
    using cluster_at_ok [OF f index] by blast
  obtain v' k where r: "run_at_loop B slot index within remaining ?cb (length xs) 1 (xs ! index) v1 = (Inr k, v')" "file_ok v' slot xs"
    "reads slot v1 v'" "1 \<le> k" "index + k \<le> length xs" "\<forall>j < k. xs ! (index + j) = xs ! index + j"
    using run_at_loop_ok [OF c(2), of index 1 "xs ! index" within remaining ?cb] index by auto
  let ?n = "min (k * ?cb - within) remaining"
  have k: "?cb \<le> k * ?cb" "k * ?cb \<le> (length xs - index) * ?cb" using r(4,5) by (simp, intro mult_le_mono1) linarith
  have "run_at B slot index within remaining v = (Inr (xs ! index, ?n), v')"
    using slot cl c(1) r(1) by (simp add: run_at_def vbind_def cluster_bytes_def vget_def opened_def vret_def)
  moreover have "reads slot v v'" using reads_trans [OF slot c(3) r(3)] .
  moreover have "0 < ?n" using within k(1) rem unfolding min_less_iff_conj by linarith
  moreover have "within + ?n \<le> (length xs - index) * ?cb" using within k min.cobounded1 [of "k * ?cb - within" remaining] by linarith
  moreover have "xs ! ((index * ?cb + within + j) div ?cb) = xs ! index + (within + j) div ?cb" if "j < ?n" for j
  proof -
    have cb: "0 < ?cb" using within by simp
    have "within + j < k * ?cb" using that within k by linarith
    then have "(within + j) div ?cb < k" by (simp add: less_mult_imp_div_less)
    moreover have "(index * ?cb + within + j) div ?cb = index + (within + j) div ?cb" using cb by (simp add: add.assoc)
    ultimately show ?thesis using r(6) by simp
  qed
  ultimately show ?thesis using r(2) by (intro exI [of _ v'] exI [of _ ?n]) simp
qed

lemma run_at_pos:
  assumes f: "file_ok v slot xs" and p: "p < length xs * ly_cluster_bytes (ft_layout (vo_fat v))" and rem: "0 < remaining"
  defines "l \<equiv> ft_layout (vo_fat v)"
  shows "\<exists>v' n off. run_at B slot (p div ly_cluster_bytes l) (p mod ly_cluster_bytes l) remaining v
        = (Inr (xs ! (p div ly_cluster_bytes l), n), v') \<and> file_ok v' slot xs \<and> reads slot v v'
    \<and> 0 < n \<and> n \<le> remaining \<and> p + n \<le> length xs * ly_cluster_bytes l
    \<and> cluster_offset l (xs ! (p div ly_cluster_bytes l)) = Some off \<and> file_pos l xs p = off + p mod ly_cluster_bytes l
    \<and> (\<forall>j < n. file_pos l xs (p + j) = file_pos l xs p + j)
    \<and> ly_data_start l * BLOCK \<le> file_pos l xs p \<and> file_pos l xs p + n \<le> ly_sectors l * BLOCK"
proof -
  let ?cb = "ly_cluster_bytes l"
  have l: "layout_ok l" "\<forall>x \<in> set xs. is_cluster l x" using f by (simp_all add: file_ok_def volume_ok_def open_ok_def l_def)
  have "p div ?cb < length xs" using p by (simp add: less_mult_imp_div_less l_def)
  moreover have "p mod ?cb < ?cb" using cluster_bytes_pos [OF l(1)] by simp
  ultimately obtain v' n where r: "run_at B slot (p div ?cb) (p mod ?cb) remaining v = (Inr (xs ! (p div ?cb), n), v')"
    "file_ok v' slot xs" "reads slot v v'" "0 < n" "n \<le> remaining" "p mod ?cb + n \<le> (length xs - p div ?cb) * ?cb"
    "\<forall>j < n. xs ! ((p + j) div ?cb) = xs ! (p div ?cb) + (p mod ?cb + j) div ?cb"
    using run_at_ok [OF f, of "p div ?cb" "p mod ?cb" remaining] rem unfolding l_def by (auto simp: add.assoc)
  have "p div ?cb * ?cb + (p mod ?cb + n) \<le> p div ?cb * ?cb + (length xs - p div ?cb) * ?cb" using r(6) by (rule add_left_mono)
  also have "\<dots> = length xs * ?cb" using \<open>p div ?cb < length xs\<close> by (simp add: add_mult_distrib [symmetric])
  finally have fits: "p + n \<le> length xs * ?cb" by (simp add: add.assoc [symmetric])
  have run: "file_pos l xs (p + j) = file_pos l xs p + j" if "j < n" for j
    using file_pos_run [OF l, of p j] r(7) that fits by simp
  obtain off where off: "cluster_offset l (xs ! (p div ?cb)) = Some off" "file_pos l xs p = off + p mod ?cb"
    "ly_data_start l * BLOCK \<le> file_pos l xs p"
    using file_pos_in [OF l] p unfolding l_def by blast
  have "p + (n - 1) < length xs * ?cb" using fits r(4) by linarith
  from file_pos_in [OF l this] run [of "n - 1"] r(4) have "file_pos l xs p + n \<le> ly_sectors l * BLOCK" by auto
  with r(1-5) fits off run show ?thesis by blast
qed

lemma read_file_loop_ok:
  assumes "file_ok v slot xs" "offset + want \<le> length xs * ly_cluster_bytes (ft_layout (vo_fat v))" "length out \<le> want"
    "out = file_bytes (logical_byte (vo_cache v)) (ft_layout (vo_fat v)) xs offset (length out)"
  shows "\<exists>v'. read_file_loop B slot (ly_cluster_bytes (ft_layout (vo_fat v))) offset want out v
      = (Inr (file_bytes (logical_byte (vo_cache v)) (ft_layout (vo_fat v)) xs offset want), v')
    \<and> file_ok v' slot xs \<and> reads slot v v'"
  using assms
proof (induction "want - length out" arbitrary: v out rule: less_induct)
  case less
  let ?l = "ft_layout (vo_fat v)" and ?g = "logical_byte (vo_cache v)"
  let ?cb = "ly_cluster_bytes ?l" and ?p = "offset + length out"
  note unf = read_file_loop.simps [of B slot ?cb offset want out]
  show ?case
  proof (cases "want \<le> length out")
    case True
    then have "length out = want" using less.prems(3) by simp
    then have "read_file_loop B slot ?cb offset want out v = (Inr (file_bytes ?g ?l xs offset want), v)"
      using less.prems(4) by (subst unf) (simp add: vret_def)
    then show ?thesis using less.prems(1) reads_refl by blast
  next
    case False
    have p: "?p < length xs * ?cb" using False less.prems(2) by linarith
    obtain v1 n off where r: "run_at B slot (?p div ?cb) (?p mod ?cb) (want - length out) v = (Inr (xs ! (?p div ?cb), n), v1)"
      "file_ok v1 slot xs" "reads slot v v1" "0 < n" "n \<le> want - length out" "cluster_offset ?l (xs ! (?p div ?cb)) = Some off"
      "file_pos ?l xs ?p = off + ?p mod ?cb" "\<forall>j < n. file_pos ?l xs (?p + j) = file_pos ?l xs ?p + j"
      "file_pos ?l xs ?p + n \<le> ly_sectors ?l * BLOCK"
      using run_at_pos [OF less.prems(1) p, of "want - length out"] False by auto
    note same = reads_same [OF r(3)]
    have v1: "cache_ok (vo_cache v1)" "in_u64 (vo_cache v1)" "ly_sectors ?l \<le> blocks_of (vo_cache v1)"
      using r(2) same(1) by (simp_all add: file_ok_def volume_ok_def)
    have "file_pos ?l xs ?p + n \<le> blocks_of (vo_cache v1) * BLOCK" using r(9) mult_le_mono1 [OF v1(3), of BLOCK] by linarith
    from read_at_ok [OF v1(1,2) this] obtain bs c where
      rd: "read_at B (vo_cache v1) (file_pos ?l xs ?p) n = (Inr bs, c)" by blast
    from read_at_spec [OF v1(1) rd] have k: "keeps (vo_cache v1) c" and "bs = map (logical_byte (vo_cache v1)) [file_pos ?l xs ?p..<file_pos ?l xs ?p + n]"
      by simp_all
    then have "bs = map ?g [file_pos ?l xs ?p..<file_pos ?l xs ?p + n]" by (simp add: same(2))
    also have "\<dots> = file_bytes ?g ?l xs ?p n" by (rule nth_equalityI) (simp_all add: r(8))
    finally have bs: "bs = file_bytes ?g ?l xs ?p n" .
    let ?v = "v1\<lparr>vo_cache := c\<rparr>" and ?out = "out @ bs"
    have fv: "file_ok ?v slot xs" using file_ok_cache [OF r(2) k] .
    have rv: "reads slot v ?v"
      using reads_trans [OF _ r(3) reads_cache [OF _ k]] less.prems(1) same(3) by (simp add: file_ok_def)
    note same' = reads_same [OF rv]
    have n: "length bs = n" "bs \<noteq> []" using bs r(4) by auto
    have less_out: "want - length ?out < want - length out" and le_out: "length ?out \<le> want" using n(1) r(4,5) False by auto
    have "?out = file_bytes ?g ?l xs offset (length out) @ file_bytes ?g ?l xs ?p n" by (rule arg_cong2 [OF less.prems(4) bs])
    also have "\<dots> = file_bytes ?g ?l xs offset (length ?out)" by (simp only: file_bytes_append length_append n(1))
    finally obtain v' where ih: "read_file_loop B slot ?cb offset want ?out ?v = (Inr (file_bytes ?g ?l xs offset want), v')"
      "file_ok v' slot xs" "reads slot ?v v'"
      using less.hyps [OF less_out fv, unfolded same'(1,2), OF less.prems(2) le_out] by blast
    have "?p div ?cb < length xs" using p by (simp add: less_mult_imp_div_less)
    then have "\<not> U32_MAX < ?p div ?cb" using file_ok_length [OF less.prems(1)] by linarith
    then have "read_file_loop B slot ?cb offset want out v = read_file_loop B slot ?cb offset want ?out ?v"
      using False r(1,6,7) rd n(2) same(1)
      by (subst unf) (simp add: vbind_def offset_of_def v_layout_def vget_def vsome_def vret_def v_read_def on_cache_def Let_def)
    moreover have "reads slot v v'" using reads_trans [OF _ rv ih(3)] less.prems(1) by (simp add: file_ok_def)
    ultimately show ?thesis using ih(1,2) by simp
  qed
qed

end

end
