(* ===== verification/Fat_Write.thy ===== *)
theory Fat_Write
  imports Fat_File
begin

text \<open>
  What writing needs of the parts below it: looking for free clusters succeeds on a device that
  answers, the bytes of a chain are apart from each other and from the table, and a piece written at
  one place changes the bytes there and no others.
\<close>

section \<open>Finding free clusters succeeds\<close>

lemma scan_in_table:
  assumes l: "layout_ok l" and e: "entry < to" "to \<le> fat_limit l"
  shows "fat_offset l (read_copy l) (entry div ENTRIES_PER_BLOCK * ENTRIES_PER_BLOCK) + scan_blocks entry to * BLOCK \<le> ly_data_start l * BLOCK"
proof -
  have lay: "ly_data_start l = ly_fat_start l + ly_fats l * ly_fat_blocks l" "ly_clusters l + 2 \<le> ly_fat_blocks l * 128"
    using l by (simp_all add: layout_ok_def BLOCK_def)
  have "(to - 1) div 128 < ly_fat_blocks l" using e lay(2) by (intro less_mult_imp_div_less) (simp add: fat_limit_def)
  moreover have "entry div 128 \<le> (to - 1) div 128" using e by (intro div_le_mono) simp
  moreover have "scan_blocks entry to \<le> (to - 1) div 128 - entry div 128 + 1"
    by (simp add: scan_blocks_def ENTRIES_PER_BLOCK_def BLOCK_def)
  ultimately have "entry div 128 + scan_blocks entry to \<le> ly_fat_blocks l" by linarith
  then have "entry div 128 * 512 + scan_blocks entry to * 512 \<le> ly_fat_blocks l * 512"
    by (metis add_mult_distrib mult_le_mono1)
  moreover have "read_copy l + 1 \<le> ly_fats l" using copies_in(1,2) [OF l] by auto
  then have "(read_copy l + 1) * ly_fat_blocks l \<le> ly_fats l * ly_fat_blocks l" by (rule mult_le_mono1)
  then have "(read_copy l * ly_fat_blocks l + ly_fat_blocks l) * 512 \<le> ly_fats l * ly_fat_blocks l * 512" by simp
  ultimately show ?thesis
    unfolding lay(1) by (simp add: fat_offset_def ENTRIES_PER_BLOCK_def BLOCK_def algebra_simps)
qed

context answering_device
begin

lemma scan_loop_ok:
  "volume_ok l c \<Longrightarrow> in_u64 c \<Longrightarrow> to \<le> fat_limit l \<Longrightarrow> \<exists>s' c'. scan_loop B l visit c entry to s = (None, s', c')"
proof (induction "to - entry" arbitrary: c entry s rule: less_induct)
  case less
  show ?case
  proof (cases "entry < to")
    case True
    let ?first = "entry div ENTRIES_PER_BLOCK * ENTRIES_PER_BLOCK" and ?n = "scan_blocks entry to"
    have v: "layout_ok l" "cache_ok c" "ly_sectors l * BLOCK \<le> blocks_of c * BLOCK" using less.prems(1) by (auto simp: volume_ok_def)
    have "fat_offset l (read_copy l) ?first + ?n * BLOCK \<le> blocks_of c * BLOCK"
      using scan_in_table [OF v(1) True less.prems(3)] data_start_in [OF v(1)] v(3) by linarith
    from read_at_ok [OF v(2) less.prems(2) this] obtain bs c1 where
      ra: "read_at B c (fat_offset l (read_copy l) ?first) (?n * BLOCK) = (Inr bs, c1)" by blast
    have k: "keeps c c1" using read_at_spec [OF v(2) ra] by simp
    have v1: "volume_ok l c1" "in_u64 c1" using volume_ok_keeps [OF less.prems(1) k] in_u64_keeps [OF k] less.prems(2) by simp_all
    have "to - (?first + ?n * ENTRIES_PER_BLOCK) < to - entry" using scan_progress [OF True] True by linarith
    note IH = less.hyps [OF this v1 less.prems(3)]
    show ?thesis
      using IH True ra by (subst scan_loop.simps) (auto simp: Let_def split: prod.split bool.split)
  next
    case False
    then show ?thesis by (simp add: scan_loop.simps)
  qed
qed

lemma scan_ok:
  assumes "volume_ok l c" "in_u64 c"
  shows "\<exists>s' c'. scan B l c start to visit s = (None, s', c')"
  unfolding scan_def using scan_loop_ok [OF assms, of "min to (ly_clusters l + 2)"] by (simp add: fat_limit_def)

lemma free_count_ok:
  assumes v: "volume_ok (ft_layout f) c" "in_u64 c" and f: "fat_ok (logical_byte c) f"
  shows "\<exists>f' c'. free_count B f c = (Inr (card (free_set (logical_byte c) (ft_layout f))), f', c') \<and> keeps c c'
    \<and> fat_ok (logical_byte c) f' \<and> ft_layout f' = ft_layout f"
proof -
  have ok: "cache_ok c" using v(1) by (simp add: volume_ok_def)
  obtain s c1 where "scan B (ft_layout f) c 2 (ly_clusters (ft_layout f) + 2) count_free 0 = (None, s, c1)"
    using scan_ok [OF v, of 2 _ count_free 0] by blast
  then obtain n f' c' where fc: "free_count B f c = (Inr n, f', c')" by (cases "ft_free f") (simp_all add: free_count_def)
  show ?thesis using free_count_spec [OF ok f fc] fc by auto
qed

lemma find_ranges_ok:
  "volume_ok l c \<Longrightarrow> in_u64 c \<Longrightarrow> \<exists>s' c'. find_ranges B l want c rs s = (None, s', c')"
proof (induction rs arbitrary: c s)
  case (Cons r rs)
  obtain start to where r: "r = (start, to)" by (cases r)
  obtain s1 c1 where sc: "scan B l c start to (take_free want) s = (None, s1, c1)" using scan_ok [OF Cons.prems, of start to "take_free want" s] by blast
  have "keeps c c1" using scan_spec(1) [OF _ sc] Cons.prems(1) by (simp add: volume_ok_def)
  then obtain s' c' where "find_ranges B l want c1 rs s1 = (None, s', c')"
    using Cons.IH [of c1 s1] volume_ok_keeps [OF Cons.prems(1)] in_u64_keeps Cons.prems(2) by blast
  then show ?case using sc by (simp add: r)
qed simp

lemma find_free_ok:
  assumes v: "volume_ok (ft_layout f) c" "in_u64 c" and f: "fat_ok (logical_byte c) f"
  defines "free \<equiv> free_set (logical_byte c) (ft_layout f)"
  shows "\<exists>fs f' c'. find_free B f c want [] = (None, fs, f', c') \<and> keeps c c' \<and> ft_layout f' = ft_layout f
    \<and> distinct fs \<and> set fs \<subseteq> free \<and> length fs = min want (card free) \<and> fat_ok (logical_byte c) f'"
proof -
  have ok: "cache_ok c" using v(1) by (simp add: volume_ok_def)
  obtain o1 k c1 where "find_ranges B (ft_layout f) want c [(ft_cursor f, ly_clusters (ft_layout f) + 2), (2, ft_cursor f)] ([], 0)
      = (None, (o1, k), c1)"
    using find_ranges_ok [OF v] by (metis surj_pair)
  then obtain out f' c' where ff: "find_free B f c want [] = (None, out, f', c')"
    by (cases "want = 0 \<or> ft_free f = Some 0") (auto simp: find_free_def Let_def simp del: find_ranges.simps)
  show ?thesis using find_free_spec [OF ok f ff] ff unfolding free_def by auto
qed

end

section \<open>Bytes of a chain\<close>

lemma file_pos_inj:
  assumes l: "layout_ok l" and xs: "\<forall>x \<in> set xs. is_cluster l x" "distinct xs"
    and p: "p < length xs * ly_cluster_bytes l" "q < length xs * ly_cluster_bytes l" and eq: "file_pos l xs p = file_pos l xs q"
  shows "p = q"
proof -
  let ?cb = "ly_cluster_bytes l"
  have m: "p mod ?cb < ?cb" "q mod ?cb < ?cb" using cluster_bytes_pos [OF l] by simp_all
  have d: "p div ?cb < length xs" "q div ?cb < length xs" using p by (simp_all add: less_mult_imp_div_less)
  obtain a b where a: "cluster_offset l (xs ! (p div ?cb)) = Some a" "file_pos l xs p = a + p mod ?cb"
    and b: "cluster_offset l (xs ! (q div ?cb)) = Some b" "file_pos l xs q = b + q mod ?cb"
    using file_pos_in [OF l xs(1) p(1)] file_pos_in [OF l xs(1) p(2)] by blast
  have same: "xs ! (p div ?cb) = xs ! (q div ?cb)"
  proof (rule linorder_cases)
    assume lt: "xs ! (p div ?cb) < xs ! (q div ?cb)"
    show ?thesis using cluster_offset_apart [OF l a(1) b(1) lt] a(2) b(2) eq m by linarith
  next
    assume lt: "xs ! (q div ?cb) < xs ! (p div ?cb)"
    show ?thesis using cluster_offset_apart [OF l b(1) a(1) lt] a(2) b(2) eq m by linarith
  qed
  then have "p div ?cb = q div ?cb" using nth_eq_iff_index_eq [OF xs(2) d] by simp
  moreover have "p mod ?cb = q mod ?cb" using same a b eq by simp
  ultimately show ?thesis by (metis div_mult_mod_eq)
qed

lemma file_pos_append:
  "p < length xs * ly_cluster_bytes l \<Longrightarrow> file_pos l (xs @ ys) p = file_pos l xs p"
  by (simp add: file_pos_def nth_append less_mult_imp_div_less)

lemma file_pos_shift:
  assumes "layout_ok l" "k \<le> length xs"
  shows "file_pos l (drop k xs) p = file_pos l xs (k * ly_cluster_bytes l + p)"
  using assms cluster_bytes_pos [OF assms(1)] by (simp add: file_pos_def)

lemma file_pos_after: "layout_ok l \<Longrightarrow> file_pos l (xs @ ys) (length xs * ly_cluster_bytes l + p) = file_pos l ys p"
  using file_pos_shift [of l "length xs" "xs @ ys" p] by simp

section \<open>Writes in the data region\<close>

context block_device
begin

text \<open>What stays when only the table is written, and when only the bytes of a chain are.\<close>

definition chain_put :: "layout \<Rightarrow> nat list \<Rightarrow> nat \<Rightarrow> bytes \<Rightarrow> 'd cache \<Rightarrow> 'd cache \<Rightarrow> bool" where
  "chain_put l xs p data c c' \<longleftrightarrow> volume_ok l c' \<and> blocks_of c' = blocks_of c \<and> ca_writable c' = ca_writable c
     \<and> p + length data \<le> length xs * ly_cluster_bytes l
     \<and> (\<forall>i < length data. logical_byte c' (file_pos l xs (p + i)) = data ! i)
     \<and> (\<forall>q < ly_sectors l * BLOCK. q \<notin> file_pos l xs ` {p..<p + length data} \<longrightarrow> logical_byte c' q = logical_byte c q)"

lemma chain_put_nil: "volume_ok l c \<Longrightarrow> p \<le> length xs * ly_cluster_bytes l \<Longrightarrow> chain_put l xs p [] c c"
  by (simp add: chain_put_def)

lemma chain_put_trans:
  assumes xs: "\<forall>x \<in> set xs. is_cluster l x" "distinct xs"
    and a: "chain_put l xs p d1 c c1" and b: "chain_put l xs (p + length d1) d2 c1 c2"
  shows "chain_put l xs p (d1 @ d2) c c2"
proof -
  let ?cb = "ly_cluster_bytes l"
  have l: "layout_ok l" using a by (simp add: chain_put_def volume_ok_def)
  have fits: "p + length (d1 @ d2) \<le> length xs * ?cb" using b by (simp add: chain_put_def)
  have "logical_byte c2 (file_pos l xs (p + i)) = (d1 @ d2) ! i" if i: "i < length (d1 @ d2)" for i
  proof (cases "i < length d1")
    case True
    have "p + i < length xs * ?cb" using True fits by simp
    then have in_vol: "file_pos l xs (p + i) < ly_sectors l * BLOCK" using file_pos_in [OF l xs(1)] by blast
    have "file_pos l xs (p + i) \<notin> file_pos l xs ` {p + length d1..<p + length d1 + length d2}"
    proof
      assume "file_pos l xs (p + i) \<in> file_pos l xs ` {p + length d1..<p + length d1 + length d2}"
      then obtain j where j: "p + length d1 \<le> j" "j < p + length d1 + length d2" "file_pos l xs (p + i) = file_pos l xs j" by auto
      have "j < length xs * ?cb" using j(2) fits by simp
      from file_pos_inj [OF l xs \<open>p + i < length xs * ?cb\<close> this j(3)] j(1) True show False by simp
    qed
    then have "logical_byte c2 (file_pos l xs (p + i)) = logical_byte c1 (file_pos l xs (p + i))"
      using b in_vol unfolding chain_put_def by blast
    then show ?thesis using a True by (simp add: chain_put_def nth_append)
  next
    case False
    then have "i - length d1 < length d2" "p + length d1 + (i - length d1) = p + i" using i by simp_all
    then show ?thesis using b False unfolding chain_put_def by (metis nth_append)
  qed
  moreover have "logical_byte c2 q = logical_byte c q"
    if "q < ly_sectors l * BLOCK" "q \<notin> file_pos l xs ` {p..<p + length (d1 @ d2)}" for q
  proof -
    have "q \<notin> file_pos l xs ` {p..<p + length d1}" "q \<notin> file_pos l xs ` {p + length d1..<p + length d1 + length d2}"
      using that(2) by auto
    then show ?thesis using a b that(1) unfolding chain_put_def by metis
  qed
  ultimately show ?thesis using a b fits unfolding chain_put_def by metis
qed

lemma chain_put_bytes:
  assumes v: "volume_ok l c" and put: "bytes_put c at data c'" and fits: "p + length data \<le> length xs * ly_cluster_bytes l"
    and run: "\<forall>j < length data. file_pos l xs (p + j) = at + j" and vol: "at + length data \<le> ly_sectors l * BLOCK"
  shows "chain_put l xs p data c c'"
proof -
  have sect: "ly_sectors l * BLOCK \<le> blocks_of c * BLOCK" using v by (auto simp: volume_ok_def)
  have byte: "logical_byte c' q = (if at \<le> q \<and> q < at + length data then data ! (q - at) else logical_byte c q)"
    if "q < ly_sectors l * BLOCK" for q
    using put less_le_trans [OF that sect] unfolding bytes_put_def by blast
  have "logical_byte c' (file_pos l xs (p + i)) = data ! i" if "i < length data" for i
    using byte [of "at + i"] run that vol by simp
  moreover have "logical_byte c' q = logical_byte c q"
    if q: "q < ly_sectors l * BLOCK" "q \<notin> file_pos l xs ` {p..<p + length data}" for q
  proof -
    have "\<not> (at \<le> q \<and> q < at + length data)"
    proof
      assume "at \<le> q \<and> q < at + length data"
      then obtain j where j: "q = at + j" "j < length data" using le_Suc_ex [of at q] by auto
      then have "q = file_pos l xs (p + j)" "p + j \<in> {p..<p + length data}" using run by simp_all
      with q(2) show False by blast
    qed
    then show ?thesis using byte [OF q(1)] by auto
  qed
  ultimately show ?thesis using v put fits unfolding chain_put_def bytes_put_def volume_ok_def by metis
qed

lemma data_links:
  assumes l: "layout_ok l" and same: "\<forall>q < ly_data_start l * BLOCK. g' q = g q" and e: "e < fat_limit l"
  shows "link_at g' l e = link_at g l e"
proof -
  have copy: "read_copy l < ly_fats l" using copies_in(1,2) [OF l] by auto
  have "g' (fat_offset l (read_copy l) e + k) = g (fat_offset l (read_copy l) e + k)" if "k < 4" for k
    using same fat_offset_in(2) [OF l copy e [unfolded fat_limit_def]] that by simp
  from this [of 0] this [of 1] this [of 2] this [of 3] show ?thesis by (simp add: link_at_def fat_entry_def Let_def)
qed

lemma chain_put_links:
  assumes put: "chain_put l xs p data c c'" and xs: "\<forall>x \<in> set xs. is_cluster l x" and e: "e < fat_limit l"
  shows "link_at (logical_byte c') l e = link_at (logical_byte c) l e"
proof (rule data_links)
  show l: "layout_ok l" using put by (simp add: chain_put_def volume_ok_def)
  show "\<forall>q < ly_data_start l * BLOCK. logical_byte c' q = logical_byte c q"
  proof safe
    fix q assume q: "q < ly_data_start l * BLOCK"
    have "q \<notin> file_pos l xs ` {p..<p + length data}"
    proof
      assume "q \<in> file_pos l xs ` {p..<p + length data}"
      then obtain i where i: "i < p + length data" "q = file_pos l xs i" by auto
      have "i < length xs * ly_cluster_bytes l" using i(1) put by (simp add: chain_put_def)
      with file_pos_in [OF l xs] i(2) q show False by force
    qed
    moreover have "q < ly_sectors l * BLOCK" using q data_start_in [OF l] by linarith
    ultimately show "logical_byte c' q = logical_byte c q" using put unfolding chain_put_def by blast
  qed
  show "e < fat_limit l" by (rule e)
qed

end

context answering_device
begin

lemma v_flush_ok:
  assumes "cache_ok (vo_cache v)" "in_u64 (vo_cache v)"
  shows "\<exists>c. v_flush B v = (Inr (), v\<lparr>vo_cache := c\<rparr>) \<and> keeps (vo_cache v) c"
proof -
  obtain c where c: "cache_flush B (vo_cache v) = (None, c)" using flush_ok [OF assms] by blast
  with flush_spec [OF assms(1) c] show ?thesis by (auto simp: v_flush_def on_cache_def of_cache_error_def)
qed

lemma v_write_ok:
  assumes "cache_ok (vo_cache v)" "in_u64 (vo_cache v)" "ca_writable (vo_cache v)" "at + length data \<le> blocks_of (vo_cache v) * BLOCK"
  shows "\<exists>c. v_write B at data v = (Inr (), v\<lparr>vo_cache := c\<rparr>) \<and> bytes_put (vo_cache v) at data c"
proof -
  obtain c where c: "write_at B (vo_cache v) at data = (None, c)" using write_at_ok [OF assms(1,2,4,3)] by blast
  with write_at_spec [OF assms(1) c] show ?thesis by (auto simp: v_write_def on_cache_def of_cache_error_def)
qed

lemma bytes_put_nil: "cache_ok c \<Longrightarrow> bytes_put c at [] c"
  by (auto simp: bytes_put_def)

lemma write_zeros_ok:
  assumes "cache_ok (vo_cache v)" "in_u64 (vo_cache v)" "ca_writable (vo_cache v)" "at + n \<le> blocks_of (vo_cache v) * BLOCK" "0 < zeros"
  shows "\<exists>c. write_zeros B zeros at n v = (Inr (), v\<lparr>vo_cache := c\<rparr>) \<and> bytes_put (vo_cache v) at (replicate n 0) c"
  using assms
proof (induction n arbitrary: v at rule: less_induct)
  case (less n)
  show ?case
  proof (cases "n = 0")
    case True
    then show ?thesis using bytes_put_nil [OF less.prems(1)] by (intro exI [of _ "vo_cache v"]) (simp add: write_zeros.simps vret_def)
  next
    case False
    define j where "j = min n zeros"
    have k: "0 < j" "j \<le> n" using False less.prems(5) by (auto simp: j_def)
    have "at + length (replicate j (0 :: u8)) \<le> blocks_of (vo_cache v) * BLOCK" using less.prems(4) k(2) by simp
    from v_write_ok [OF less.prems(1-3) this] obtain c1 where
      w: "v_write B at (replicate j 0) v = (Inr (), v\<lparr>vo_cache := c1\<rparr>)" "bytes_put (vo_cache v) at (replicate j 0) c1" by blast
    have c1: "cache_ok c1" "in_u64 c1" "ca_writable c1" "at + j + (n - j) \<le> blocks_of c1 * BLOCK"
      using w(2) less.prems(2-4) k(2) in_u64_same [of c1 "vo_cache v"] unfolding bytes_put_def by simp_all
    have "n - j < n" using k by linarith
    from less.IH [OF this, of "v\<lparr>vo_cache := c1\<rparr>" "at + j"] c1 less.prems(5) obtain c where z: "write_zeros B zeros (at + j) (n - j) (v\<lparr>vo_cache := c1\<rparr>) = (Inr (), v\<lparr>vo_cache := c\<rparr>)"
      "bytes_put c1 (at + j) (replicate (n - j) 0) c"
      by auto
    have "bytes_put (vo_cache v) at (replicate n 0) c"
      using bytes_put_trans [of "vo_cache v" at j "replicate n 0" c1 c] w(2) z(2) k(2) by (simp add: take_replicate)
    moreover have "write_zeros B zeros at n v = write_zeros B zeros (at + j) (n - j) (v\<lparr>vo_cache := c1\<rparr>)"
      using False k(1) w(1) by (subst write_zeros.simps) (simp add: Let_def vbind_def j_def [symmetric])
    ultimately show ?thesis using z(1) by auto
  qed
qed

definition piece_bytes :: "piece \<Rightarrow> bytes" where
  "piece_bytes p = (case p of Zeros n \<Rightarrow> replicate n 0 | Data data \<Rightarrow> data)"

lemma length_piece_bytes: "length (piece_bytes p) = piece_len p"
  by (simp add: piece_bytes_def piece_len_def split: piece.split)

lemma write_piece_ok:
  assumes c: "cache_ok (vo_cache v)" "in_u64 (vo_cache v)" "ca_writable (vo_cache v)"
    and at: "at + n \<le> blocks_of (vo_cache v) * BLOCK" and n: "start + n \<le> piece_len p" and u: "start + n \<le> U64_MAX"
  shows "\<exists>c. write_piece B p ZERO_BYTES at start n v = (Inr (), v\<lparr>vo_cache := c\<rparr>)
    \<and> bytes_put (vo_cache v) at (take n (drop start (piece_bytes p))) c"
proof (cases p)
  case (Zeros k)
  then have "take n (drop start (piece_bytes p)) = replicate n 0" using n by (simp add: piece_bytes_def piece_len_def min_def)
  then show ?thesis using write_zeros_ok [OF c at, of ZERO_BYTES] Zeros by (simp add: write_piece_def ZERO_BYTES_def)
next
  case (Data data)
  have "at + length (take n (drop start data)) \<le> blocks_of (vo_cache v) * BLOCK" using at by simp
  from v_write_ok [OF c this] Data n u show ?thesis
    by (simp add: write_piece_def piece_bytes_def piece_len_def vbind_def vsome_def vret_def checked_add_def slice_def)
qed

end

end
