(* ===== verification/Fat_Link.thy ===== *)
theory Fat_Link
  imports Fat_Write
begin

text \<open>
  New clusters of a file: the chain that linking them makes, and the bytes a round of them is filled
  with before it is linked.
\<close>

section \<open>Joining chains\<close>

lemma is_chainI:
  "xs \<noteq> [] \<Longrightarrow> \<forall>i. Suc i < length xs \<longrightarrow> lk (xs ! i) = Next (xs ! Suc i) \<Longrightarrow> lk (last xs) = End \<Longrightarrow> is_chain lk xs"
proof (induction lk xs rule: is_chain.induct)
  case (3 lk x y xs)
  have "\<forall>i. Suc i < length (y # xs) \<longrightarrow> lk ((y # xs) ! i) = Next ((y # xs) ! Suc i)" using 3(3) by (metis Suc_mono length_Cons nth_Cons_Suc)
  moreover have "lk x = Next y" using 3(3) [THEN spec, of 0] by simp
  ultimately show ?case using 3(1,4) by simp
qed auto

lemma is_chain_append:
  "is_chain lk ys \<Longrightarrow> xs \<noteq> [] \<Longrightarrow> \<forall>i. Suc i < length xs \<longrightarrow> lk (xs ! i) = Next (xs ! Suc i) \<Longrightarrow> lk (last xs) = Next (hd ys) \<Longrightarrow>
     is_chain lk (xs @ ys)"
proof (induction xs)
  case (Cons x xs)
  show ?case
  proof (cases xs)
    case Nil
    then show ?thesis using Cons.prems(1,4) by (cases ys) auto
  next
    case (Cons y zs)
    have "\<forall>i. Suc i < length xs \<longrightarrow> lk (xs ! i) = Next (xs ! Suc i)" using Cons.prems(3) by (metis Suc_mono length_Cons nth_Cons_Suc)
    moreover have "lk x = Next y" using Cons.prems(3) [THEN spec, of 0] Cons by simp
    ultimately show ?thesis using Cons.IH Cons.prems(1,4) Cons by simp
  qed
qed simp

lemma classify_cluster:
  assumes "layout_ok l" "is_cluster l b"
  shows "classify l (word_of_nat b) = Next b"
proof -
  have b: "2 \<le> b" "b < 2 ^ 28" using assms by (auto simp: is_cluster_def layout_ok_def MAX_CLUSTERS_def)
  have m: "FAT_MASK = mask 28" by (simp add: FAT_MASK_def mask_eq_exp_minus_1)
  have "unat ((word_of_nat b :: u32) AND FAT_MASK) = b"
    unfolding m take_bit_eq_mask [symmetric] unsigned_take_bit_eq using b(2) by (simp add: unat_of_nat take_bit_nat_eq_self)
  moreover from this have "(word_of_nat b :: u32) AND FAT_MASK \<noteq> FAT_FREE" using b(1) by (auto simp: FAT_FREE_def)
  ultimately show ?thesis using assms(2) by (simp add: classify_def Let_def)
qed

lemma classify_last: "layout_ok l \<Longrightarrow> classify l FAT_LAST = End"
  by (simp add: classify_def FAT_LAST_def FAT_MASK_def FAT_FREE_def FAT_BAD_def END_MIN_def is_cluster_def layout_ok_def MAX_CLUSTERS_def)

text \<open>Linking: the new clusters become a chain, which the old last cluster runs on into.\<close>

lemma zip_tl_nth: "Suc i < length xs \<Longrightarrow> zip xs (tl xs) ! i = (xs ! i, xs ! Suc i)"
  by (simp add: nth_tl)

lemma map_of_zip_tl:
  assumes "distinct xs"
  shows "Suc i < length xs \<Longrightarrow> map_of (zip xs (tl xs)) (xs ! i) = Some (xs ! Suc i)"
    "map_of (zip xs (tl xs)) e = None \<longleftrightarrow> e \<notin> set (butlast xs)"
proof -
  have fst: "map fst (zip xs (tl xs)) = butlast xs" by (simp add: map_fst_zip_take butlast_conv_take)
  then have d: "distinct (map fst (zip xs (tl xs)))" using assms by (simp add: distinct_butlast)
  show "map_of (zip xs (tl xs)) (xs ! i) = Some (xs ! Suc i)" if i: "Suc i < length xs"
  proof -
    have "i < length (zip xs (tl xs))" using i by simp
    from nth_mem [OF this] have "(xs ! i, xs ! Suc i) \<in> set (zip xs (tl xs))" by (simp only: zip_tl_nth [OF i])
    then show ?thesis using d by (simp only: map_of_eq_Some_iff)
  qed
  show "map_of (zip xs (tl xs)) e = None \<longleftrightarrow> e \<notin> set (butlast xs)"
    using fst by (metis list.set_map map_of_eq_None_iff)
qed

lemma last_not_butlast: "distinct xs \<Longrightarrow> last xs \<in> set (butlast xs) \<Longrightarrow> xs = []"
  by (cases xs rule: rev_cases) auto

definition linked :: "(nat \<Rightarrow> link) \<Rightarrow> nat list \<Rightarrow> nat list \<Rightarrow> nat \<Rightarrow> link" where
  "linked lk xs ys e = (if e \<in> set (butlast ys) then the (map_option Next (map_of (zip ys (tl ys)) e))
     else if e = last ys then End else if xs \<noteq> [] \<and> e = last xs then Next (hd ys) else lk e)"

lemma linked_chain:
  assumes ys: "ys \<noteq> []" "distinct ys" and xs: "xs \<noteq> [] \<Longrightarrow> is_chain lk xs" "set xs \<inter> set ys = {}"
  shows "is_chain (linked lk xs ys) (xs @ ys)"
proof -
  have out: "last ys \<notin> set (butlast ys)" using last_not_butlast ys by blast
  have mem: "ys ! i \<in> set (butlast ys)" if "Suc i < length ys" for i using that nth_mem [of i "butlast ys"] by (simp add: nth_butlast)
  have y: "is_chain (linked lk xs ys) ys"
  proof (rule is_chainI)
    show "\<forall>i. Suc i < length ys \<longrightarrow> linked lk xs ys (ys ! i) = Next (ys ! Suc i)"
      using mem map_of_zip_tl(1) [OF ys(2)] by (simp add: linked_def)
    show "linked lk xs ys (last ys) = End" using out by (simp add: linked_def)
  qed (rule ys(1))
  show ?thesis
  proof (cases "xs = []")
    case False
    have ch: "is_chain lk xs" using xs(1) [OF False] .
    have notin: "x \<notin> set ys" "x \<notin> set (butlast ys)" "x \<noteq> last ys" if "x \<in> set xs" for x
      using that xs(2) ys(1) in_set_butlastD [of x ys] last_in_set [of ys] by auto
    show ?thesis
    proof (rule is_chain_append [OF y False])
      show "linked lk xs ys (last xs) = Next (hd ys)" using notin [of "last xs"] False by (simp add: linked_def)
      show "\<forall>i. Suc i < length xs \<longrightarrow> linked lk xs ys (xs ! i) = Next (xs ! Suc i)"
      proof safe
        fix i assume i: "Suc i < length xs"
        have "xs ! i \<noteq> last xs"
          using i is_chain_distinct [OF ch] False by (simp add: last_conv_nth nth_eq_iff_index_eq)
        then show "linked lk xs ys (xs ! i) = Next (xs ! Suc i)"
          using notin [of "xs ! i"] i is_chain_nth [OF ch, of i] by (simp add: linked_def)
      qed
    qed
  qed (use y in simp)
qed

lemma linked_other: "e \<notin> set xs \<Longrightarrow> e \<notin> set ys \<Longrightarrow> ys \<noteq> [] \<Longrightarrow> linked lk xs ys e = lk e"
  using in_set_butlastD [of e ys] last_in_set [of ys] last_in_set [of xs] by (auto simp: linked_def)

section \<open>Linking new clusters\<close>

context answering_device
begin

definition table_put :: "layout \<Rightarrow> 'a cache \<Rightarrow> 'a cache \<Rightarrow> bool" where
  "table_put l c c' \<longleftrightarrow> volume_ok l c' \<and> blocks_of c' = blocks_of c \<and> ca_writable c' = ca_writable c
     \<and> (\<forall>q < ly_sectors l * BLOCK. q < ly_fat_start l * BLOCK \<or> ly_data_start l * BLOCK \<le> q \<longrightarrow> logical_byte c' q = logical_byte c q)"

lemma table_put_refl: "volume_ok l c \<Longrightarrow> table_put l c c"
  by (simp add: table_put_def)

lemma table_put_trans: "table_put l c c1 \<Longrightarrow> table_put l c1 c2 \<Longrightarrow> table_put l c c2"
  by (simp add: table_put_def)

lemma table_put_keeps: "table_put l c c1 \<Longrightarrow> keeps c1 c2 \<Longrightarrow> table_put l c c2"
  using volume_ok_keeps [of l c1 c2] keeps_bytes [of c1 c2] by (simp add: table_put_def) (simp add: keeps_def)

lemma v_set_ok:
  assumes "volume_ok (ft_layout (vo_fat v)) (vo_cache v)" "in_u64 (vo_cache v)" "ca_writable (vo_cache v)" "is_cluster (ft_layout (vo_fat v)) a"
  shows "\<exists>c. v_set B a w v = (Inr (), v\<lparr>vo_cache := c\<rparr>) \<and> table_put (ft_layout (vo_fat v)) (vo_cache v) c
    \<and> (\<forall>e < fat_limit (ft_layout (vo_fat v)). link_at (logical_byte c) (ft_layout (vo_fat v)) e
         = (if e = a then classify (ft_layout (vo_fat v)) w else link_at (logical_byte (vo_cache v)) (ft_layout (vo_fat v)) e))"
proof -
  obtain c where c: "fat_set B (ft_layout (vo_fat v)) (vo_cache v) a w = (Inr (), c)" using fat_set_ok [OF assms] by blast
  note s = fat_set_spec [OF assms(1) c]
  have "table_put (ft_layout (vo_fat v)) (vo_cache v) c" using s(2,3,5) by (simp add: table_put_def entry_changed_def)
  then show ?thesis using c s(4) by (auto simp: v_set_def on_cache_def fat_limit_def)
qed

lemma v_sets_ok:
  assumes "volume_ok (ft_layout (vo_fat v)) (vo_cache v)" "in_u64 (vo_cache v)" "ca_writable (vo_cache v)"
    "\<forall>(a, b) \<in> set ps. is_cluster (ft_layout (vo_fat v)) a \<and> is_cluster (ft_layout (vo_fat v)) b" "distinct (map fst ps)"
  shows "\<exists>c. vfor ps (\<lambda>(a, b). v_set B a (word_of_nat b)) v = (Inr (), v\<lparr>vo_cache := c\<rparr>) \<and> table_put (ft_layout (vo_fat v)) (vo_cache v) c
    \<and> (\<forall>e < fat_limit (ft_layout (vo_fat v)). link_at (logical_byte c) (ft_layout (vo_fat v)) e
         = (case map_of ps e of Some b \<Rightarrow> Next b | None \<Rightarrow> link_at (logical_byte (vo_cache v)) (ft_layout (vo_fat v)) e))"
  using assms
proof (induction ps arbitrary: v)
  case Nil
  then show ?case using table_put_refl by (intro exI [of _ "vo_cache v"]) (simp add: vret_def)
next
  case (Cons p ps)
  obtain a b where p: "p = (a, b)" by (cases p)
  let ?l = "ft_layout (vo_fat v)"
  have ab: "is_cluster ?l a" "is_cluster ?l b" using Cons.prems(4) p by simp_all
  obtain c1 where s: "v_set B a (word_of_nat b) v = (Inr (), v\<lparr>vo_cache := c1\<rparr>)" "table_put ?l (vo_cache v) c1"
    "\<forall>e < fat_limit ?l. link_at (logical_byte c1) ?l e = (if e = a then classify ?l (word_of_nat b) else link_at (logical_byte (vo_cache v)) ?l e)"
    using v_set_ok [OF Cons.prems(1-3) ab(1), of "word_of_nat b"] by blast
  have n: "classify ?l (word_of_nat b) = Next b" using classify_cluster ab(2) Cons.prems(1) by (simp add: volume_ok_def)
  have c1: "volume_ok ?l c1" "in_u64 c1" "ca_writable c1"
    using s(2) Cons.prems(2,3) in_u64_same [of c1 "vo_cache v"] by (simp_all add: table_put_def)
  have "\<exists>c. vfor ps (\<lambda>(a, b). v_set B a (word_of_nat b)) (v\<lparr>vo_cache := c1\<rparr>) = (Inr (), v\<lparr>vo_cache := c\<rparr>) \<and> table_put ?l c1 c
    \<and> (\<forall>e < fat_limit ?l. link_at (logical_byte c) ?l e = (case map_of ps e of Some b \<Rightarrow> Next b | None \<Rightarrow> link_at (logical_byte c1) ?l e))"
    using Cons.IH [of "v\<lparr>vo_cache := c1\<rparr>"] c1 Cons.prems(4,5) by (simp cong: option.case_cong)
  then obtain c where r: "vfor ps (\<lambda>(a, b). v_set B a (word_of_nat b)) (v\<lparr>vo_cache := c1\<rparr>) = (Inr (), v\<lparr>vo_cache := c\<rparr>)"
    "table_put ?l c1 c" "\<forall>e < fat_limit ?l. link_at (logical_byte c) ?l e
         = (case map_of ps e of Some b \<Rightarrow> Next b | None \<Rightarrow> link_at (logical_byte c1) ?l e)" by blast
  have "map_of ps a = None" using Cons.prems(5) p by (auto simp: map_of_eq_None_iff)
  then have "\<forall>e < fat_limit ?l. link_at (logical_byte c) ?l e
      = (case map_of (p # ps) e of Some b \<Rightarrow> Next b | None \<Rightarrow> link_at (logical_byte (vo_cache v)) ?l e)"
    using r(3) s(3) n p by (auto split: option.split)
  then show ?case using r(1) s(1) p table_put_trans [OF s(2) r(2)] by (intro exI [of _ c]) (simp add: vbind_def)
qed

lemma maybe_flush_ok:
  assumes "cache_ok (vo_cache v)" "in_u64 (vo_cache v)"
  shows "\<exists>c. (if P then v_flush B else vret ()) v = (Inr (), v\<lparr>vo_cache := c\<rparr>) \<and> keeps (vo_cache v) c"
proof (cases P)
  case False
  then show ?thesis using keeps_refl [OF assms(1)] by (intro exI [of _ "vo_cache v"]) (simp add: vret_def)
qed (use v_flush_ok [OF assms] in simp)

lemma link_new_ok:
  fixes v :: "'a volume"
  defines "l \<equiv> ft_layout (vo_fat v)"
  assumes v: "volume_ok l (vo_cache v)" "in_u64 (vo_cache v)" "ca_writable (vo_cache v)"
    and ys: "ys \<noteq> []" "distinct ys" "\<forall>y \<in> set ys. is_cluster l y"
    and xs: "xs \<noteq> [] \<Longrightarrow> is_cluster l (last xs) \<and> last xs \<notin> set ys"
  shows "\<exists>c. link_new B (if xs = [] then None else Some (last xs)) ys v = (Inr (), v\<lparr>vo_cache := c, vo_fat := took (length ys) (vo_fat v)\<rparr>)
    \<and> table_put l (vo_cache v) c \<and> (\<forall>e < fat_limit l. link_at (logical_byte c) l e = linked (link_at (logical_byte (vo_cache v)) l) xs ys e)"
proof -
  let ?g = "logical_byte (vo_cache v)"
  have l: "layout_ok l" using v(1) by (simp add: volume_ok_def)
  have fst: "map fst (zip ys (tl ys)) = butlast ys" by (simp add: map_fst_zip_take butlast_conv_take)
  have "is_cluster l a \<and> is_cluster l b" if "(a, b) \<in> set (zip ys (tl ys))" for a b
    using that ys(1,3) set_zip_leftD [OF that] set_zip_rightD [OF that] by (meson list.set_sel(2))
  then have pairs: "\<forall>(a, b) \<in> set (zip ys (tl ys)). is_cluster l a \<and> is_cluster l b" by auto
  have d: "distinct (map fst (zip ys (tl ys)))" using ys(2) fst by (simp add: distinct_butlast)
  from v_sets_ok [OF v [unfolded l_def] pairs [unfolded l_def] d, folded l_def] obtain c1 where
    c1: "vfor (zip ys (tl ys)) (\<lambda>(a, b). v_set B a (word_of_nat b)) v = (Inr (), v\<lparr>vo_cache := c1\<rparr>)"
    "table_put l (vo_cache v) c1" "\<forall>e < fat_limit l. link_at (logical_byte c1) l e
         = (case map_of (zip ys (tl ys)) e of Some b \<Rightarrow> Next b | None \<Rightarrow> link_at ?g l e)" by blast
  have ok1: "volume_ok l c1" "in_u64 c1" "ca_writable c1" using c1(2) v(2,3) in_u64_same [of c1 "vo_cache v"] by (simp_all add: table_put_def)
  have "is_cluster l (last ys)" using ys(1,3) by simp
  with v_set_ok [of "v\<lparr>vo_cache := c1\<rparr>" "last ys" FAT_LAST] ok1 obtain c2 where
    c2: "v_set B (last ys) FAT_LAST (v\<lparr>vo_cache := c1\<rparr>) = (Inr (), v\<lparr>vo_cache := c2\<rparr>)" "table_put l c1 c2"
    "\<forall>e < fat_limit l. link_at (logical_byte c2) l e = (if e = last ys then End else link_at (logical_byte c1) l e)"
    by (auto simp: l_def [symmetric] classify_last [OF l])
  have ok2: "volume_ok l c2" "in_u64 c2" "ca_writable c2" using c2(2) ok1(2,3) in_u64_same [of c2 c1] by (simp_all add: table_put_def)
  have two: "link_at (logical_byte c2) l e = linked (link_at ?g l) [] ys e" if "e < fat_limit l" for e
    using c1(3) c2(3) that last_not_butlast [OF ys(2)] ys(1) map_of_zip_tl(2) [OF ys(2), of e] by (auto simp: linked_def split: option.splits)
  have t2: "table_put l (vo_cache v) c2" by (rule table_put_trans [OF c1(2) c2(2)])
  have new: "link_new B p ys v = vbind (case p of None \<Rightarrow> vret ()
      | Some p \<Rightarrow> vbind (if list_ex (\<lambda>cluster. cluster div ENTRIES_PER_BLOCK \<noteq> p div ENTRIES_PER_BLOCK) ys then v_flush B else vret ())
          (\<lambda>_. v_set B p (word_of_nat (hd ys))))
      (\<lambda>_. vbind (v_flush B) (\<lambda>_. vmodify (vo_fat_update (took (length ys))))) (v\<lparr>vo_cache := c2\<rparr>)" for p
    using c1(1) c2(1) ys(1) by (cases ys; cases p) (simp_all add: link_new_def vbind_def)
  show ?thesis
  proof (cases "xs = []")
    case True
    obtain c3 where c3: "v_flush B (v\<lparr>vo_cache := c2\<rparr>) = (Inr (), v\<lparr>vo_cache := c3\<rparr>)" "keeps c2 c3"
      using v_flush_ok [of "v\<lparr>vo_cache := c2\<rparr>"] ok2 by (auto simp: volume_ok_def)
    have "link_new B None ys v = (Inr (), v\<lparr>vo_cache := c3, vo_fat := took (length ys) (vo_fat v)\<rparr>)"
      unfolding new using c3(1) by (simp add: vbind_def vret_def vmodify_def)
    then show ?thesis using True table_put_keeps [OF t2 c3(2)] two keeps_bytes [OF c3(2)] by auto
  next
    case False
    let ?p = "last xs"
    obtain c3 where c3: "(if list_ex (\<lambda>cluster. cluster div ENTRIES_PER_BLOCK \<noteq> ?p div ENTRIES_PER_BLOCK) ys then v_flush B else vret ())
        (v\<lparr>vo_cache := c2\<rparr>) = (Inr (), v\<lparr>vo_cache := c3\<rparr>)" "keeps c2 c3"
      using maybe_flush_ok [of "v\<lparr>vo_cache := c2\<rparr>"] ok2 by (auto simp: volume_ok_def)
    have ok3: "volume_ok l c3" "in_u64 c3" "ca_writable c3"
      using volume_ok_keeps [OF ok2(1) c3(2)] in_u64_keeps [OF c3(2)] ok2(2,3) c3(2) by (auto simp: keeps_def)
    have "is_cluster l (hd ys)" using ys(1,3) by simp
    then have h: "classify l (word_of_nat (hd ys)) = Next (hd ys)" by (rule classify_cluster [OF l])
    from v_set_ok [of "v\<lparr>vo_cache := c3\<rparr>" ?p "word_of_nat (hd ys)"] ok3 xs [OF False] obtain c4 where
      c4: "v_set B ?p (word_of_nat (hd ys)) (v\<lparr>vo_cache := c3\<rparr>) = (Inr (), v\<lparr>vo_cache := c4\<rparr>)" "table_put l c3 c4"
      "\<forall>e < fat_limit l. link_at (logical_byte c4) l e = (if e = ?p then Next (hd ys) else link_at (logical_byte c3) l e)"
      by (auto simp: l_def [symmetric] h)
    have ok4: "volume_ok l c4" "in_u64 c4" using c4(2) ok3(2) in_u64_same [of c4 c3] by (simp_all add: table_put_def)
    obtain c5 where c5: "v_flush B (v\<lparr>vo_cache := c4\<rparr>) = (Inr (), v\<lparr>vo_cache := c5\<rparr>)" "keeps c4 c5"
      using v_flush_ok [of "v\<lparr>vo_cache := c4\<rparr>"] ok4 by (auto simp: volume_ok_def)
    have "link_new B (Some ?p) ys v = (Inr (), v\<lparr>vo_cache := c5, vo_fat := took (length ys) (vo_fat v)\<rparr>)"
      unfolding new using c3(1) c4(1) c5(1) by (simp add: vbind_def vmodify_def)
    moreover have "table_put l (vo_cache v) c5"
      using table_put_keeps [OF table_put_trans [OF table_put_keeps [OF t2 c3(2)] c4(2)] c5(2)] .
    moreover have "link_at (logical_byte c5) l e = linked (link_at ?g l) xs ys e" if e: "e < fat_limit l" for e
      using two [OF e] c4(3) e xs [OF False] keeps_bytes [OF c3(2)] keeps_bytes [OF c5(2)] False ys(1) in_set_butlastD [of e ys] last_in_set [OF ys(1)]
      by (auto simp: linked_def)
    ultimately show ?thesis using False by auto
  qed
qed

section \<open>Writing new clusters\<close>

lemma adjacent_nth: "i < Suc (adjacent (x + 1) xs) \<Longrightarrow> (x # xs) ! i = x + i"
proof (induction xs arbitrary: x i)
  case (Cons y ys)
  show ?case
  proof (cases i)
    case (Suc j)
    then have y: "y = x + 1" "j < Suc (adjacent (y + 1) ys)" using Cons.prems by (auto split: if_splits)
    then show ?thesis using Cons.IH [OF y(2)] Suc by simp
  qed simp
qed simp

lemma run_pos:
  assumes l: "layout_ok l" and zs: "\<forall>z \<in> set zs. is_cluster l z" and k: "k < length zs"
    and j: "j < Suc (adjacent (zs ! k + 1) (drop (Suc k) zs)) * ly_cluster_bytes l"
  shows "file_pos l zs (k * ly_cluster_bytes l + j) = the (cluster_offset l (zs ! k)) + j"
proof -
  let ?cb = "ly_cluster_bytes l" and ?m = "Suc (adjacent (zs ! k + 1) (drop (Suc k) zs))"
  have cb: "0 < ?cb" by (rule cluster_bytes_pos [OF l])
  have d: "zs ! k # drop (Suc k) zs = drop k zs" using k by (simp add: Cons_nth_drop_Suc)
  have jm: "j div ?cb < ?m" using j by (rule less_mult_imp_div_less)
  have "zs ! (k + j div ?cb) = zs ! k + j div ?cb" using adjacent_nth [OF jm] k unfolding d by (simp add: less_imp_le)
  moreover have "(k * ?cb + j) div ?cb = k + j div ?cb" "k * ?cb div ?cb = k" "k * ?cb mod ?cb = 0" using cb by simp_all
  moreover have "k + ?m \<le> length zs" using adjacent_le [of "zs ! k + 1" "drop (Suc k) zs"] k by simp
  then have "(k + ?m) * ?cb \<le> length zs * ?cb" by (rule mult_le_mono1)
  then have "k * ?cb + j < length zs * ?cb" using j unfolding add_mult_distrib by linarith
  ultimately have "file_pos l zs (k * ?cb + j) = file_pos l zs (k * ?cb) + j" using file_pos_run [OF l zs, of "k * ?cb" j] by simp
  then show ?thesis using cb by (simp add: file_pos_def)
qed

lemma fill_round_ok:
  fixes v :: "'a volume"
  assumes "ft_layout (vo_fat v) = l" "volume_ok l (vo_cache v)" "in_u64 (vo_cache v)" "ca_writable (vo_cache v)"
    and zs: "\<forall>z \<in> set zs. is_cluster l z" "distinct zs" "(length zs - 1) * ly_cluster_bytes l < piece_len p - at"
    and u: "piece_len p \<le> U64_MAX" and k: "k \<le> length zs" "w = min (k * ly_cluster_bytes l) (piece_len p - at)"
    and put: "chain_put l zs 0 (take w (drop at (piece_bytes p))) c0 (vo_cache v)"
  defines "W \<equiv> min (length zs * ly_cluster_bytes l) (piece_len p - at)"
  shows "\<exists>c. fill_round B p (ly_cluster_bytes l) (piece_len p) at (drop k zs) w v = (Inr W, v\<lparr>vo_cache := c\<rparr>)
    \<and> chain_put l zs 0 (take W (drop at (piece_bytes p))) c0 c"
  using assms(1-4) k put
proof (induction "length zs - k" arbitrary: v k w rule: less_induct)
  case less
  let ?cb = "ly_cluster_bytes l" and ?bs = "piece_bytes p"
  have l: "layout_ok l" "cache_ok (vo_cache v)" "ly_sectors l * BLOCK \<le> blocks_of (vo_cache v) * BLOCK"
    using less.prems(2) by (auto simp: volume_ok_def)
  show ?case
  proof (cases "k < length zs")
    case False
    then have "k = length zs" using less.prems(5) by simp
    then show ?thesis using less.prems(6,7) by (intro exI [of _ "vo_cache v"]) (simp add: fill_round.simps vret_def W_def)
  next
    case True
    define m where "m = Suc (adjacent (zs ! k + 1) (drop (Suc k) zs))"
    have m: "0 < m" "k + m \<le> length zs" using adjacent_le [of "zs ! k + 1" "drop (Suc k) zs"] True by (simp_all add: m_def)
    have "k * ?cb \<le> (length zs - 1) * ?cb" using True by (intro mult_le_mono1) simp
    then have less_tot: "k * ?cb < piece_len p - at" using zs(3) by linarith
    then have w: "w = k * ?cb" using less.prems(6) by simp
    define n where "n = min (m * ?cb) (piece_len p - at - w)"
    have "?cb \<le> m * ?cb" using m(1) by simp
    then have n: "0 < n" "n \<le> m * ?cb" "at + w + n \<le> piece_len p" "w + n = min ((k + m) * ?cb) (piece_len p - at)"
      using less_tot cluster_bytes_pos [OF l(1)] unfolding n_def w add_mult_distrib by linarith+
    have is_cl: "is_cluster l (zs ! k)" using zs(1) True by simp
    obtain off where off: "cluster_offset l (zs ! k) = Some off" using cluster_offset_in [OF l(1) is_cl] by blast
    have run: "file_pos l zs (w + j) = off + j" if "j < n" for j
      using run_pos [OF l(1) zs(1) True, of j, folded m_def] that n(2) off w by simp
    have "w + n \<le> length zs * ?cb" using n(4) mult_le_mono1 [OF m(2), of ?cb] by linarith
    then have fits: "w + length (take n (drop (at + w) ?bs)) \<le> length zs * ?cb" by simp
    have "w + (n - 1) < length zs * ?cb" using \<open>w + n \<le> length zs * ?cb\<close> n(1) by linarith
    from file_pos_in [OF l(1) zs(1) this] run [of "n - 1"] n(1) have vol: "off + n \<le> ly_sectors l * BLOCK" by auto
    have blocks: "off + n \<le> blocks_of (vo_cache v) * BLOCK" using vol l(3) by linarith
    have "at + w + n \<le> U64_MAX" using n(3) u by linarith
    from write_piece_ok [OF l(2) less.prems(3,4) blocks n(3) this] obtain c1 where
      wp: "write_piece B p ZERO_BYTES off (at + w) n v = (Inr (), v\<lparr>vo_cache := c1\<rparr>)"
        "bytes_put (vo_cache v) off (take n (drop (at + w) ?bs)) c1" by blast
    have len: "length (take w (drop at ?bs)) = w" using n(3) by (simp add: length_piece_bytes)
    have "chain_put l zs w (take n (drop (at + w) ?bs)) (vo_cache v) c1"
      using chain_put_bytes [OF less.prems(2) wp(2) fits] run vol by simp
    with chain_put_trans [OF zs(1,2) less.prems(7)] len have
      "chain_put l zs 0 (take w (drop at ?bs) @ take n (drop (at + w) ?bs)) c0 c1" by simp
    then have put1: "chain_put l zs 0 (take (w + n) (drop at ?bs)) c0 c1" by (simp only: take_add drop_drop add.commute [of at w])
    let ?v = "v\<lparr>vo_cache := c1\<rparr>"
    have v1: "volume_ok l c1" "in_u64 c1" "ca_writable c1"
      using wp(2) less.prems(2-4) in_u64_same [of c1 "vo_cache v"] by (auto simp: bytes_put_def volume_ok_def)
    have "length zs - (k + m) < length zs - k" using m True by linarith
    from less.hyps [OF this, of ?v "w + n"] less.prems(1) v1 m(2) n(4) put1 obtain c where
      r: "fill_round B p ?cb (piece_len p) at (drop (k + m) zs) (w + n) ?v = (Inr W, v\<lparr>vo_cache := c\<rparr>)"
        "chain_put l zs 0 (take W (drop at ?bs)) c0 c" by auto
    have d: "drop k zs = zs ! k # drop (Suc k) zs" using True by (simp add: Cons_nth_drop_Suc)
    have "fill_round B p ?cb (piece_len p) at (drop k zs) w v = (Inr W, v\<lparr>vo_cache := c\<rparr>)"
      unfolding d fill_round.simps Let_def m_def [symmetric] n_def [symmetric] unfolding d [symmetric]
      using wp(1) r(1) off less.prems(1)
      by (simp add: vbind_def offset_of_def v_layout_def vget_def vsome_def vret_def add.commute)
    then show ?thesis using r(2) by blast
  qed
qed

end

end
