(* ===== verification/Fat_Fill.thy ===== *)
theory Fat_Fill
  imports Fat_Link
begin

text \<open>
  Filling a file: bytes written over the clusters it has, then new clusters found, written and linked
  a round at a time.  \<open>fills\<close> says what a step of this did to the volume, and composes.
\<close>

section \<open>What filling keeps\<close>

definition same_volume :: "nat \<Rightarrow> 'd volume \<Rightarrow> 'd volume \<Rightarrow> bool" where
  "same_volume slot v v' \<longleftrightarrow> ft_layout (vo_fat v') = ft_layout (vo_fat v) \<and> vo_now v' = vo_now v \<and> vo_dirs v' = vo_dirs v
     \<and> vo_dirty_at_mount v' = vo_dirty_at_mount v \<and> vo_marked v' = vo_marked v
     \<and> length (vo_open v') = length (vo_open v) \<and> (\<forall>i. i \<noteq> slot \<longrightarrow> vo_open v' ! i = vo_open v ! i)
     \<and> of_path (vo_open v' ! slot) = of_path (vo_open v ! slot) \<and> of_size (vo_open v' ! slot) = of_size (vo_open v ! slot)
     \<and> of_entry_at (vo_open v' ! slot) = of_entry_at (vo_open v ! slot)"

lemma same_volume_trans: "same_volume slot v v1 \<Longrightarrow> same_volume slot v1 v2 \<Longrightarrow> same_volume slot v v2"
  by (simp add: same_volume_def)

lemma links_open_ok:
  assumes "\<forall>e \<in> set xs. link_at g' l e = link_at g l e"
  shows "open_ok g' l f xs = open_ok g l f xs"
  using is_chain_cong [of xs "link_at g' l" "link_at g l"] assms by (simp add: open_ok_def)

lemma links_free_set:
  assumes "\<forall>e < fat_limit l. link_at g' l e = link_at g l e"
  shows "free_set g' l = free_set g l"
  using assms by (auto simp: free_set_def is_cluster_def fat_limit_def)

context answering_device
begin

definition ready :: "nat \<Rightarrow> 'a volume \<Rightarrow> nat list \<Rightarrow> bool" where
  "ready slot v xs \<longleftrightarrow> file_ok v slot xs \<and> fat_ok (logical_byte (vo_cache v)) (vo_fat v) \<and> ca_writable (vo_cache v)"

definition fills :: "nat \<Rightarrow> 'a volume \<Rightarrow> nat list \<Rightarrow> nat \<Rightarrow> bytes \<Rightarrow> 'a volume \<Rightarrow> nat list \<Rightarrow> bool" where
  "fills slot v xs p data v' ys \<longleftrightarrow> ready slot v' (xs @ ys) \<and> same_volume slot v v'
     \<and> set ys \<subseteq> free_set (logical_byte (vo_cache v)) (ft_layout (vo_fat v))
     \<and> free_set (logical_byte (vo_cache v')) (ft_layout (vo_fat v)) = free_set (logical_byte (vo_cache v)) (ft_layout (vo_fat v)) - set ys
     \<and> p + length data \<le> length (xs @ ys) * ly_cluster_bytes (ft_layout (vo_fat v))
     \<and> (\<forall>i < length data. logical_byte (vo_cache v') (file_pos (ft_layout (vo_fat v)) (xs @ ys) (p + i)) = data ! i)
     \<and> (\<forall>q < ly_sectors (ft_layout (vo_fat v)) * BLOCK.
          (q < ly_fat_start (ft_layout (vo_fat v)) * BLOCK \<or> ly_data_start (ft_layout (vo_fat v)) * BLOCK \<le> q)
          \<and> q \<notin> file_pos (ft_layout (vo_fat v)) (xs @ ys) ` {p..<p + length data} \<longrightarrow>
          logical_byte (vo_cache v') q = logical_byte (vo_cache v) q)
     \<and> (\<forall>e < fat_limit (ft_layout (vo_fat v)). e \<notin> set (xs @ ys) \<longrightarrow>
          link_at (logical_byte (vo_cache v')) (ft_layout (vo_fat v)) e = link_at (logical_byte (vo_cache v)) (ft_layout (vo_fat v)) e)"

lemma file_okD:
  assumes "file_ok v slot xs"
  shows "slot < length (vo_open v)" "volume_ok (ft_layout (vo_fat v)) (vo_cache v)" "in_u64 (vo_cache v)" "layout_ok (ft_layout (vo_fat v))"
    "\<forall>x \<in> set xs. is_cluster (ft_layout (vo_fat v)) x" "distinct xs" "cache_ok (vo_cache v)"
proof -
  show "distinct xs" using assms is_chain_distinct by (cases "xs = []") (auto simp: file_ok_def open_ok_def)
qed (use assms in \<open>auto simp: file_ok_def open_ok_def volume_ok_def\<close>)

lemma reads_same_volume: "reads slot v v' \<Longrightarrow> slot < length (vo_open v) \<Longrightarrow> same_volume slot v v'"
  by (auto simp: reads_def same_volume_def)

lemma fills_trans:
  assumes a: "fills slot v xs p d1 v1 ys" and b: "fills slot v1 (xs @ ys) (p + length d1) d2 v2 zs"
  shows "fills slot v xs p (d1 @ d2) v2 (ys @ zs)"
proof -
  let ?l = "ft_layout (vo_fat v)" and ?g = "\<lambda>v. logical_byte (vo_cache v)"
  let ?cb = "ly_cluster_bytes ?l" and ?xs = "xs @ ys @ zs"
  have l1: "ft_layout (vo_fat v1) = ?l" and l2: "ft_layout (vo_fat v2) = ?l" using a b by (simp_all add: fills_def same_volume_def)
  have ok: "ready slot v2 ?xs" using b by (simp add: fills_def)
  then have "file_ok v2 slot ?xs" by (simp add: ready_def)
  note f2 = file_okD [OF this, unfolded l2]
  have fits: "p + length (d1 @ d2) \<le> length ?xs * ?cb" "p + length d1 \<le> length (xs @ ys) * ?cb"
    using a b l1 by (simp_all add: fills_def add.assoc)
  have same: "file_pos ?l ?xs i = file_pos ?l (xs @ ys) i" if "i < p + length d1" for i
    using file_pos_append [of i "xs @ ys" ?l zs] that fits(2) by simp
  have bytes: "?g v2 (file_pos ?l ?xs (p + i)) = (d1 @ d2) ! i" if i: "i < length (d1 @ d2)" for i
  proof (cases "i < length d1")
    case True
    have pi: "p + i < length ?xs * ?cb" using i fits(1) by simp
    obtain off where off: "ly_data_start ?l * BLOCK \<le> file_pos ?l ?xs (p + i)" "file_pos ?l ?xs (p + i) < ly_sectors ?l * BLOCK"
      using file_pos_in [OF f2(4,5) pi] by blast
    have "file_pos ?l ?xs (p + i) \<notin> file_pos ?l ?xs ` {p + length d1..<p + length d1 + length d2}"
    proof
      assume "file_pos ?l ?xs (p + i) \<in> file_pos ?l ?xs ` {p + length d1..<p + length d1 + length d2}"
      then obtain j where j: "p + length d1 \<le> j" "j < p + length d1 + length d2" "file_pos ?l ?xs (p + i) = file_pos ?l ?xs j" by auto
      have "j < length ?xs * ?cb" using j(2) fits(1) by simp
      from file_pos_inj [OF f2(4-6) pi this j(3)] j(1) True show False by simp
    qed
    then have "?g v2 (file_pos ?l ?xs (p + i)) = ?g v1 (file_pos ?l ?xs (p + i))"
      using b off unfolding fills_def l1 append_assoc by blast
    then show ?thesis using a True same [of "p + i"] by (simp add: fills_def nth_append)
  next
    case False
    then have "i - length d1 < length d2" "p + length d1 + (i - length d1) = p + i" using i by simp_all
    then show ?thesis using b False unfolding fills_def l1 append_assoc by (metis nth_append)
  qed
  have other: "?g v2 q = ?g v q" if q: "q < ly_sectors ?l * BLOCK" "q < ly_fat_start ?l * BLOCK \<or> ly_data_start ?l * BLOCK \<le> q"
    "q \<notin> file_pos ?l ?xs ` {p..<p + length (d1 @ d2)}" for q
  proof -
    have "q \<notin> file_pos ?l ?xs ` {p + length d1..<p + length d1 + length d2}" using q(3) by auto
    then have "?g v2 q = ?g v1 q" using b q(1,2) unfolding fills_def l1 append_assoc by blast
    moreover have "file_pos ?l (xs @ ys) ` {p..<p + length d1} = file_pos ?l ?xs ` {p..<p + length d1}" using same by (intro image_cong) auto
    then have "q \<notin> file_pos ?l (xs @ ys) ` {p..<p + length d1}" using q(3) by auto
    then have "?g v1 q = ?g v q" using a q(1,2) unfolding fills_def by blast
    ultimately show ?thesis by simp
  qed
  have links: "link_at (?g v2) ?l e = link_at (?g v) ?l e" if "e < fat_limit ?l" "e \<notin> set ?xs" for e
    using a b that l1 by (simp add: fills_def)
  have "set zs \<subseteq> free_set (?g v1) ?l" "set ys \<subseteq> free_set (?g v) ?l" "free_set (?g v1) ?l = free_set (?g v) ?l - set ys"
    "free_set (?g v2) ?l = free_set (?g v1) ?l - set zs" using a b l1 by (auto simp: fills_def)
  then have free: "set (ys @ zs) \<subseteq> free_set (?g v) ?l" "free_set (?g v2) ?l = free_set (?g v) ?l - set (ys @ zs)" by auto
  have "same_volume slot v v2" using a b same_volume_trans by (auto simp: fills_def)
  with ok fits bytes other links free show ?thesis unfolding fills_def by blast
qed

section \<open>A turn over clusters the file has\<close>

lemma fills_nil: "ready slot v xs \<Longrightarrow> p \<le> length xs * ly_cluster_bytes (ft_layout (vo_fat v)) \<Longrightarrow> fills slot v xs p [] v []"
  by (simp add: fills_def same_volume_def)

lemma fills_keeps:
  assumes "fills slot v xs p data v' ys" "keeps (vo_cache v') c"
  shows "fills slot v xs p data (v'\<lparr>vo_cache := c\<rparr>) ys"
  using assms file_ok_cache [of v' slot "xs @ ys" c] keeps_bytes [OF assms(2)]
  by (simp add: fills_def ready_def same_volume_def) (simp add: keeps_def)

lemma chain_put_fills:
  assumes v: "ready slot v xs" "reads slot v v1" and v1: "file_ok v1 slot xs"
    and put: "chain_put (ft_layout (vo_fat v)) xs p data (vo_cache v1) c"
  shows "fills slot v xs p data (v1\<lparr>vo_cache := c\<rparr>) []"
proof -
  let ?l = "ft_layout (vo_fat v)" and ?g = "logical_byte (vo_cache v)" and ?g' = "logical_byte c"
  note same = reads_same [OF v(2)]
  note f = file_okD [OF v1, unfolded same(1)]
  have links: "\<forall>e < fat_limit ?l. link_at ?g' ?l e = link_at ?g ?l e"
    using chain_put_links [OF put f(5)] same(2) by simp
  then have "\<forall>e \<in> set xs. link_at ?g' ?l e = link_at ?g ?l e" using f(5) by (auto simp: is_cluster_def fat_limit_def)
  then have "open_ok ?g' ?l (vo_open v1 ! slot) xs = open_ok ?g ?l (vo_open v1 ! slot) xs" by (rule links_open_ok)
  then have "open_ok ?g' ?l (vo_open v1 ! slot) xs" using v1 same(1,2) by (simp add: file_ok_def)
  then have fok: "file_ok (v1\<lparr>vo_cache := c\<rparr>) slot xs"
    using put f(1,3) same(1) in_u64_same [of c "vo_cache v1"] by (simp add: file_ok_def chain_put_def)
  have free: "free_set ?g' ?l = free_set ?g ?l" by (rule links_free_set [OF links])
  have "ca_writable c" using v put same(5) by (auto simp: ready_def chain_put_def keeps_def)
  moreover have "fat_ok ?g' (vo_fat v)" using v(1) free by (simp add: ready_def fat_ok_def)
  moreover have "same_volume slot v (v1\<lparr>vo_cache := c\<rparr>)"
    using reads_same_volume [OF v(2)] v(1) by (simp add: same_volume_def ready_def file_ok_def)
  ultimately show ?thesis using fok free links put same(1,2) by (simp add: fills_def ready_def chain_put_def)
qed

lemma overwrite_ok:
  fixes v :: "'a volume"
  defines "l \<equiv> ft_layout (vo_fat v)"
  assumes v: "ready slot v xs" and p: "p < length xs * ly_cluster_bytes l" and at: "at < piece_len pc" and u: "piece_len pc \<le> U64_MAX"
  shows "\<exists>v1 v' n off. run_at B slot (p div ly_cluster_bytes l) (p mod ly_cluster_bytes l) (piece_len pc - at) v
        = (Inr (xs ! (p div ly_cluster_bytes l), n), v1) \<and> ft_layout (vo_fat v1) = l
    \<and> cluster_offset l (xs ! (p div ly_cluster_bytes l)) = Some off
    \<and> write_piece B pc ZERO_BYTES (off + p mod ly_cluster_bytes l) at n v1 = (Inr (), v')
    \<and> 0 < n \<and> at + n \<le> piece_len pc \<and> fills slot v xs p (take n (drop at (piece_bytes pc))) v' []"
proof -
  have f: "file_ok v slot xs" "ca_writable (vo_cache v)" using v by (simp_all add: ready_def)
  obtain v1 n off where r: "run_at B slot (p div ly_cluster_bytes l) (p mod ly_cluster_bytes l) (piece_len pc - at) v
        = (Inr (xs ! (p div ly_cluster_bytes l), n), v1)" "file_ok v1 slot xs" "reads slot v v1" "0 < n" "n \<le> piece_len pc - at"
    "p + n \<le> length xs * ly_cluster_bytes l" "cluster_offset l (xs ! (p div ly_cluster_bytes l)) = Some off"
    "file_pos l xs p = off + p mod ly_cluster_bytes l" "\<forall>j < n. file_pos l xs (p + j) = file_pos l xs p + j"
    "file_pos l xs p + n \<le> ly_sectors l * BLOCK"
    using run_at_pos [OF f(1), of p "piece_len pc - at"] p at unfolding l_def by auto
  note same = reads_same [OF r(3)]
  note f1 = file_okD [OF r(2), unfolded same(1), folded l_def]
  have w: "ca_writable (vo_cache v1)" using f(2) same(5) by (simp add: keeps_def)
  have "ly_sectors l * BLOCK \<le> blocks_of (vo_cache v1) * BLOCK" using f1(2) by (auto simp: volume_ok_def)
  then have blocks: "file_pos l xs p + n \<le> blocks_of (vo_cache v1) * BLOCK" using r(10) by linarith
  have n: "at + n \<le> piece_len pc" using r(5) at by linarith
  then have "at + n \<le> U64_MAX" using u by linarith
  from write_piece_ok [OF f1(7,3) w blocks n this] obtain c where
    wp: "write_piece B pc ZERO_BYTES (file_pos l xs p) at n v1 = (Inr (), v1\<lparr>vo_cache := c\<rparr>)"
      "bytes_put (vo_cache v1) (file_pos l xs p) (take n (drop at (piece_bytes pc))) c" by blast
  have "length (take n (drop at (piece_bytes pc))) = n" using n by (simp add: length_piece_bytes)
  then have "chain_put l xs p (take n (drop at (piece_bytes pc))) (vo_cache v1) c"
    using chain_put_bytes [OF f1(2) wp(2)] r(6,9,10) by simp
  then have "fills slot v xs p (take n (drop at (piece_bytes pc))) (v1\<lparr>vo_cache := c\<rparr>) []"
    using chain_put_fills [OF v r(3,2)] by (simp add: l_def)
  then show ?thesis using r(1,4,7,8) wp(1) n same(1) by (auto simp: l_def)
qed

section \<open>A turn over new clusters\<close>

text \<open>The chain, the table and the free clusters once new clusters are linked.\<close>

lemma linked_file:
  assumes f: "open_ok g l f xs" and zs: "zs \<noteq> []" "distinct zs" "set zs \<subseteq> free_set g l"
    and links: "\<forall>e < fat_limit l. link_at g' l e = linked (link_at g l) xs zs e"
  shows "open_ok g' l (f\<lparr>of_first := (if of_clusters f = 0 then hd zs else of_first f), of_clusters := of_clusters f + length zs,
      of_last := last zs\<rparr>) (xs @ zs)" "free_set g' l = free_set g l - set zs" "set xs \<inter> set zs = {}"
proof -
  have cl: "\<forall>x \<in> set (xs @ zs). is_cluster l x" using f zs(3) by (auto simp: open_ok_def free_set_def)
  have ch: "is_chain (link_at g l) xs" if "xs \<noteq> []" using f that by (simp add: open_ok_def)
  have nf: "link_at g l x \<noteq> Free" if "x \<in> set xs" for x using is_chain_not_free ch that by fastforce
  show disj: "set xs \<inter> set zs = {}" using nf zs(3) by (auto simp: free_set_def)
  have lim: "x < fat_limit l" if "is_cluster l x" for x using that by (auto simp: is_cluster_def fat_limit_def)
  have "is_chain (linked (link_at g l) xs zs) (xs @ zs)" by (rule linked_chain [OF zs(1,2) ch disj])
  moreover have "link_at g' l x = linked (link_at g l) xs zs x" if "x \<in> set (xs @ zs)" for x using links lim cl that by blast
  ultimately have new: "is_chain (link_at g' l) (xs @ zs)" using is_chain_cong by blast
  have "\<forall>i c. of_pos f = Some (i, c) \<longrightarrow> i < length xs \<and> c = xs ! i" using f by (simp add: open_ok_def)
  then show "open_ok g' l (f\<lparr>of_first := (if of_clusters f = 0 then hd zs else of_first f), of_clusters := of_clusters f + length zs,
      of_last := last zs\<rparr>) (xs @ zs)"
    using f zs(1) new cl by (cases "xs = []") (auto simp: open_ok_def nth_append)
  have nf': "link_at g' l x \<noteq> Free" if "x \<in> set (xs @ zs)" for x using is_chain_not_free [OF new] that by blast
  show "free_set g' l = free_set g l - set zs"
  proof (intro set_eqI)
    fix e
    show "e \<in> free_set g' l \<longleftrightarrow> e \<in> free_set g l - set zs"
    proof (cases "e \<in> set (xs @ zs)")
      case True
      then show ?thesis using nf' nf by (auto simp: free_set_def)
    next
      case False
      then have "is_cluster l e \<Longrightarrow> link_at g' l e = link_at g l e" using links lim linked_other [of e xs zs] zs(1) by simp
      then show ?thesis using False by (auto simp: free_set_def)
    qed
  qed
qed

lemma took_ok:
  assumes "fat_ok g f" "free_set g' (ft_layout f) = free_set g (ft_layout f) - set zs" "set zs \<subseteq> free_set g (ft_layout f)" "distinct zs"
  shows "fat_ok g' (took (length zs) f)"
proof -
  have "card (free_set g' (ft_layout f)) = card (free_set g (ft_layout f)) - length zs"
    using card_Diff_subset [of "set zs"] assms(2-4) distinct_card by fastforce
  then show ?thesis using assms(1) by (auto simp: fat_ok_def took_def)
qed

lemma new_clusters_fills:
  fixes v :: "'a volume"
  defines "l \<equiv> ft_layout (vo_fat v)"
  assumes v: "ready slot v xs" and k1: "keeps (vo_cache v) c1" and f1: "fat_ok (logical_byte (vo_cache v)) f1" "ft_layout f1 = l"
    and zs: "zs \<noteq> []" "distinct zs" "set zs \<subseteq> free_set (logical_byte (vo_cache v)) l"
    and put: "chain_put l zs 0 data c1 c2" and k3: "keeps c2 c3" and tab: "table_put l c3 c4"
    and links: "\<forall>e < fat_limit l. link_at (logical_byte c4) l e = linked (link_at (logical_byte c3) l) xs zs e"
  shows "fills slot v xs (length xs * ly_cluster_bytes l) data (v\<lparr>vo_cache := c4, vo_fat := took (length zs) f1,
      vo_open := (vo_open v)[slot := (vo_open v ! slot)\<lparr>of_first := (if of_clusters (vo_open v ! slot) = 0 then hd zs else of_first (vo_open v ! slot)),
        of_clusters := of_clusters (vo_open v ! slot) + length zs, of_last := last zs\<rparr>]\<rparr>) zs"
proof -
  let ?g = "logical_byte (vo_cache v)" and ?cb = "ly_cluster_bytes l"
  have f: "file_ok v slot xs" "ca_writable (vo_cache v)" using v by (simp_all add: ready_def)
  note fo = file_okD [OF f(1), folded l_def]
  have zcl: "\<forall>z \<in> set zs. is_cluster l z" using zs(3) by (auto simp: free_set_def)
  have same: "logical_byte c1 = ?g" "logical_byte c3 = logical_byte c2" using keeps_bytes k1 k3 by simp_all
  have "\<forall>e < fat_limit l. link_at (logical_byte c4) l e = linked (link_at ?g l) xs zs e"
    using links chain_put_links [OF put zcl] same by (simp add: linked_def)
  note fi = linked_file [OF _ zs this, of "vo_open v ! slot"]
  have oo: "open_ok ?g l (vo_open v ! slot) xs" using f(1) by (simp add: file_ok_def l_def)
  have blocks: "blocks_of c4 = blocks_of (vo_cache v)" "ca_writable c4" "volume_ok l c4"
    using k1 put k3 tab f(2) by (auto simp: keeps_def chain_put_def table_put_def)
  have bytes: "logical_byte c4 q = logical_byte c2 q"
    if "q < ly_sectors l * BLOCK" "q < ly_fat_start l * BLOCK \<or> ly_data_start l * BLOCK \<le> q" for q
    using tab that same(2) by (auto simp: table_put_def)
  have at: "file_pos l (xs @ zs) (length xs * ?cb + i) = file_pos l zs i" for i by (rule file_pos_after [OF fo(4)])
  have img: "file_pos l (xs @ zs) ` {length xs * ?cb..<length xs * ?cb + length data} = file_pos l zs ` {0..<length data}"
  proof -
    have "{length xs * ?cb..<length xs * ?cb + length data} = (+) (length xs * ?cb) ` {0..<length data}"
      by (simp add: image_add_atLeastLessThan add.commute)
    then show ?thesis by (simp only: image_image at)
  qed
  have len: "length data \<le> length zs * ?cb" using put by (simp add: chain_put_def)
  have data: "logical_byte c4 (file_pos l zs i) = data ! i" if i: "i < length data" for i
  proof -
    have "i < length zs * ?cb" using i len by linarith
    with file_pos_in [OF fo(4) zcl] bytes have "logical_byte c4 (file_pos l zs i) = logical_byte c2 (file_pos l zs i)" by blast
    then show ?thesis using put i by (simp add: chain_put_def)
  qed
  have other: "logical_byte c4 q = ?g q"
    if "q < ly_sectors l * BLOCK" "q < ly_fat_start l * BLOCK \<or> ly_data_start l * BLOCK \<le> q" "q \<notin> file_pos l zs ` {0..<length data}" for q
    using bytes [OF that(1,2)] put that(1,3) same(1) by (simp add: chain_put_def)
  have out: "link_at (logical_byte c4) l e = link_at ?g l e" if "e < fat_limit l" "e \<notin> set (xs @ zs)" for e
    using \<open>\<forall>e < fat_limit l. link_at (logical_byte c4) l e = linked (link_at ?g l) xs zs e\<close> that linked_other zs(1) by simp
  have tk: "ft_layout (took (length zs) f1) = l" using f1(2) by (simp add: took_def)
  have "fat_ok (logical_byte c4) (took (length zs) f1)" using took_ok [OF f1(1)] fi(2) [OF oo] zs f1(2) by simp
  then show ?thesis
    using blocks fo(1,3) fi(1,2) [OF oo] oo zs(3) data other out len tk in_u64_same [OF blocks(1)]
    unfolding fills_def same_volume_def ready_def file_ok_def
    by (simp add: l_def [symmetric] at img add_mult_distrib)
qed

lemma below_div_ceil:
  assumes "0 < b" "k < div_ceil a b"
  shows "k * b < a"
proof (cases "a mod b = 0")
  case True
  then have "Suc k \<le> a div b" using assms(2) by (simp add: div_ceil_def)
  then have "Suc k * b \<le> a div b * b" by (rule mult_le_mono1)
  then show ?thesis using assms(1) div_times_less_eq_dividend [of a b] unfolding mult_Suc by linarith
next
  case False
  then have "k * b \<le> a div b * b" using assms(2) by (intro mult_le_mono1) (simp add: div_ceil_def)
  also have "\<dots> < a" using False div_mult_mod_eq [of a b] by linarith
  finally show ?thesis .
qed

lemma div_ceil_pos: "0 < a \<Longrightarrow> 0 < b \<Longrightarrow> 0 < div_ceil a b"
  by (auto simp: div_ceil_def div_eq_0_iff)

lemma extend_ok:
  fixes v :: "'a volume" and slot :: nat
  defines "l \<equiv> ft_layout (vo_fat v)" and "f \<equiv> vo_open v ! slot"
  assumes v: "ready slot v xs" and at: "at < piece_len pc" and u: "piece_len pc \<le> U64_MAX"
    and free: "free_set (logical_byte (vo_cache v)) l \<noteq> {}"
  shows "\<exists>zs v1 W v2 v3 v4 v'. v_find_free B (min (div_ceil (piece_len pc - at) (ly_cluster_bytes l)) ROUND_CLUSTERS) v = (Inr zs, v1)
    \<and> zs \<noteq> [] \<and> fill_round B pc (ly_cluster_bytes l) (piece_len pc) at zs 0 v1 = (Inr W, v2) \<and> v_flush B v2 = (Inr (), v3)
    \<and> link_new B (if of_clusters f > 0 then Some (of_last f) else None) zs v3 = (Inr (), v4)
    \<and> opened_set slot (\<lambda>g. g\<lparr>of_first := (if of_clusters f = 0 then hd zs else of_first g),
          of_clusters := of_clusters g + length zs, of_last := last zs\<rparr>) v4 = (Inr (), v')
    \<and> 0 < W \<and> at + W \<le> piece_len pc \<and> fills slot v xs (length xs * ly_cluster_bytes l) (take W (drop at (piece_bytes pc))) v' zs"
proof -
  let ?g = "logical_byte (vo_cache v)" and ?cb = "ly_cluster_bytes l"
  let ?want = "min (div_ceil (piece_len pc - at) ?cb) ROUND_CLUSTERS"
  have fo: "file_ok v slot xs" "ca_writable (vo_cache v)" "fat_ok ?g (vo_fat v)" using v by (simp_all add: ready_def)
  note fd = file_okD [OF fo(1), folded l_def]
  have cb: "0 < ?cb" by (rule cluster_bytes_pos [OF fd(4)])
  have oo: "open_ok ?g l f xs" using fo(1) by (simp add: file_ok_def l_def f_def)
  obtain zs f1 c1 where ff: "find_free B (vo_fat v) (vo_cache v) ?want [] = (None, zs, f1, c1)" "keeps (vo_cache v) c1" "ft_layout f1 = l"
    "distinct zs" "set zs \<subseteq> free_set ?g l" "length zs = min ?want (card (free_set ?g l))" "fat_ok ?g f1"
    using find_free_ok [OF fd(2) [unfolded l_def] fd(3) fo(3), of ?want] by (auto simp: l_def)
  have "0 < card (free_set ?g l)" using free finite_free_set by (simp add: card_gt_0_iff)
  moreover have "0 < div_ceil (piece_len pc - at) ?cb" using div_ceil_pos at cb by simp
  ultimately have zs: "zs \<noteq> []" "length zs \<le> div_ceil (piece_len pc - at) ?cb" using ff(6) by (auto simp: ROUND_CLUSTERS_def)
  then have zlen: "(length zs - 1) * ?cb < piece_len pc - at" using below_div_ceil [OF cb, of "length zs - 1"] by (cases zs) auto
  have zcl: "\<forall>z \<in> set zs. is_cluster l z" using ff(5) by (auto simp: free_set_def)
  let ?v1 = "v\<lparr>vo_cache := c1, vo_fat := f1\<rparr>" and ?W = "min (length zs * ?cb) (piece_len pc - at)"
  have ok1: "volume_ok l c1" "in_u64 c1" "ca_writable c1"
    using volume_ok_keeps [OF fd(2) ff(2)] in_u64_keeps [OF ff(2)] fd(3) ff(2) fo(2) by (auto simp: keeps_def)
  obtain c2 where c2: "fill_round B pc ?cb (piece_len pc) at zs 0 ?v1 = (Inr ?W, ?v1\<lparr>vo_cache := c2\<rparr>)"
    "chain_put l zs 0 (take ?W (drop at (piece_bytes pc))) c1 c2"
    using fill_round_ok [of ?v1 l zs pc at 0 0 c1] ff(3,4) ok1 zcl zlen u chain_put_nil [OF ok1(1), of 0 zs] by auto
  have ok2: "volume_ok l c2" "in_u64 c2" "ca_writable c2" using c2(2) ok1(2,3) in_u64_same [of c2 c1] by (simp_all add: chain_put_def)
  obtain c3 where c3: "v_flush B (?v1\<lparr>vo_cache := c2\<rparr>) = (Inr (), ?v1\<lparr>vo_cache := c3\<rparr>)" "keeps c2 c3"
    using v_flush_ok [of "?v1\<lparr>vo_cache := c2\<rparr>"] ok2 by (auto simp: volume_ok_def)
  have ok3: "volume_ok l c3" "in_u64 c3" "ca_writable c3"
    using volume_ok_keeps [OF ok2(1) c3(2)] in_u64_keeps [OF c3(2)] ok2(2,3) c3(2) by (auto simp: keeps_def)
  have prev: "(if of_clusters f > 0 then Some (of_last f) else None) = (if xs = [] then None else Some (last xs))"
    using oo by (auto simp: open_ok_def)
  have disj: "xs \<noteq> [] \<Longrightarrow> is_cluster l (last xs) \<and> last xs \<notin> set zs"
    using fd(5) oo ff(5) is_chain_not_free [of "link_at ?g l" xs] by (auto simp: open_ok_def free_set_def)
  obtain c4 where c4: "link_new B (if xs = [] then None else Some (last xs)) zs (?v1\<lparr>vo_cache := c3\<rparr>)
      = (Inr (), ?v1\<lparr>vo_cache := c4, vo_fat := took (length zs) f1\<rparr>)" "table_put l c3 c4"
    "\<forall>e < fat_limit l. link_at (logical_byte c4) l e = linked (link_at (logical_byte c3) l) xs zs e"
    using link_new_ok [of "?v1\<lparr>vo_cache := c3\<rparr>" zs xs] ok3 zs(1) ff(3,4) zcl disj by auto
  have "0 < ?W" "at + ?W \<le> piece_len pc" using zs(1) cb at by auto
  moreover have "opened_set slot (\<lambda>g. g\<lparr>of_first := (if of_clusters f = 0 then hd zs else of_first g),
      of_clusters := of_clusters g + length zs, of_last := last zs\<rparr>) (?v1\<lparr>vo_cache := c4, vo_fat := took (length zs) f1\<rparr>)
      = (Inr (), v\<lparr>vo_cache := c4, vo_fat := took (length zs) f1,
          vo_open := (vo_open v)[slot := f\<lparr>of_first := (if of_clusters f = 0 then hd zs else of_first f),
          of_clusters := of_clusters f + length zs, of_last := last zs\<rparr>]\<rparr>)"
    using fd(1) by (simp add: opened_set_def opened_def vbind_def vget_def vmodify_def vret_def f_def)
  moreover have "v_find_free B ?want v = (Inr zs, ?v1)" using ff(1) by (simp add: v_find_free_def on_fat_def of_fs_error_def)
  moreover note new_clusters_fills [OF v ff(2,7) ff(3) [unfolded l_def] zs(1) ff(4) ff(5) [unfolded l_def] c2(2) [unfolded l_def] c3(2)
      c4(2) [unfolded l_def] c4(3) [unfolded l_def], folded l_def f_def]
  ultimately show ?thesis unfolding prev using zs(1) c2(1) c3(1) c4(1) by blast
qed

section \<open>The loop\<close>

lemma fills_card:
  assumes "fills slot v xs p data v' ys"
  shows "card (free_set (logical_byte (vo_cache v')) (ft_layout (vo_fat v))) + length ys
    = card (free_set (logical_byte (vo_cache v)) (ft_layout (vo_fat v)))"
proof -
  have "ready slot v' (xs @ ys)" using assms by (simp add: fills_def)
  then have "distinct (xs @ ys)" unfolding ready_def using file_okD(6) by blast
  then have "card (set ys) = length ys" by (simp add: distinct_card)
  moreover have "card (set ys) \<le> card (free_set (logical_byte (vo_cache v)) (ft_layout (vo_fat v)))"
    using assms finite_free_set by (intro card_mono) (simp_all add: fills_def)
  ultimately show ?thesis using assms card_Diff_subset [of "set ys"] by (simp add: fills_def)
qed

lemma fill_loop_ok:
  assumes "ready slot v xs" "ft_layout (vo_fat v) = l" "start + at \<le> length xs * ly_cluster_bytes l" "at \<le> piece_len pc"
    "start + piece_len pc \<le> (length xs + card (free_set (logical_byte (vo_cache v)) l)) * ly_cluster_bytes l" "start + piece_len pc \<le> MAX_FILE"
  shows "\<exists>v' ys. fill_loop B slot start pc (ly_cluster_bytes l) at v = (Inr (), v')
    \<and> fills slot v xs (start + at) (drop at (piece_bytes pc)) v' ys"
  using assms
proof (induction "piece_len pc - at" arbitrary: v xs at rule: less_induct)
  case less
  let ?cb = "ly_cluster_bytes l" and ?p = "start + at" and ?bs = "piece_bytes pc" and ?f = "vo_open v ! slot"
  note unf = fill_loop.simps [of B slot start pc ?cb at]
  have fo: "file_ok v slot xs" using less.prems(1) by (simp add: ready_def)
  note fd = file_okD [OF fo, unfolded less.prems(2)]
  have cb: "0 < ?cb" by (rule cluster_bytes_pos [OF fd(4)])
  have u: "piece_len pc \<le> U64_MAX" using less.prems(6) by (simp add: MAX_FILE_def U32_MAX_def U64_MAX_def)
  have cl: "of_clusters ?f = length xs" using fo by (simp add: file_ok_def open_ok_def)
  have op: "opened slot v = (Inr ?f, v)" using fd(1) by (simp add: opened_def vbind_def vget_def vret_def)
  have "?p div ?cb \<le> ?p" by simp
  then have idx: "\<not> U32_MAX < ?p div ?cb" using less.prems(4,6) unfolding MAX_FILE_def by linarith
  show ?case
  proof (cases "piece_len pc \<le> at")
    case True
    obtain c where c: "v_flush B v = (Inr (), v\<lparr>vo_cache := c\<rparr>)" "keeps (vo_cache v) c" using v_flush_ok [OF fd(7,3)] by blast
    then have "fill_loop B slot start pc ?cb at v = (Inr (), v\<lparr>vo_cache := c\<rparr>)" using True by (subst unf) (simp add: Let_def)
    moreover have "drop at ?bs = []" using True by (simp add: length_piece_bytes)
    ultimately show ?thesis using fills_keeps [OF fills_nil [OF less.prems(1)] c(2)] less.prems(2,3) by auto
  next
    case False
    then have at: "at < piece_len pc" by simp
    have step: "\<exists>v' ys. fill_loop B slot start pc ?cb at v = (Inr (), v') \<and> fills slot v xs ?p (drop at ?bs) v' ys"
      if go: "fill_loop B slot start pc ?cb at v = fill_loop B slot start pc ?cb (at + n) v1"
        "0 < n" "at + n \<le> piece_len pc" "fills slot v xs ?p (take n (drop at ?bs)) v1 zs" for n v1 zs
    proof -
      have len: "length (take n (drop at ?bs)) = n" using go(3) by (simp add: length_piece_bytes)
      have v1: "ready slot v1 (xs @ zs)" "ft_layout (vo_fat v1) = l" "?p + n \<le> length (xs @ zs) * ?cb"
        using go(4) less.prems(2) len by (simp_all add: fills_def same_volume_def)
      have "length (xs @ zs) + card (free_set (logical_byte (vo_cache v1)) l) = length xs + card (free_set (logical_byte (vo_cache v)) l)"
        using fills_card [OF go(4)] less.prems(2) by simp
      then have space: "start + piece_len pc \<le> (length (xs @ zs) + card (free_set (logical_byte (vo_cache v1)) l)) * ?cb"
        using less.prems(5) by (simp only:)
      have "piece_len pc - (at + n) < piece_len pc - at" using go(2) at by linarith
      from less.hyps [OF this v1(1,2) _ go(3) space less.prems(6)] v1(3) obtain v' ys where
        r: "fill_loop B slot start pc ?cb (at + n) v1 = (Inr (), v')" "fills slot v1 (xs @ zs) (start + (at + n)) (drop (at + n) ?bs) v' ys"
        by (auto simp: add.assoc)
      have "fills slot v xs ?p (take n (drop at ?bs) @ drop (at + n) ?bs) v' (zs @ ys)"
        using fills_trans [OF go(4)] r(2) len by (simp add: add.assoc)
      moreover have "take n (drop at ?bs) @ drop (at + n) ?bs = drop at ?bs"
        by (metis add.commute append_take_drop_id drop_drop)
      ultimately show ?thesis using r(1) go(1) by auto
    qed
    show ?thesis
    proof (cases "?p < length xs * ?cb")
      case True
      have lt: "?p div ?cb < length xs" using True by (rule less_mult_imp_div_less)
      obtain v0 v1 n off where o: "run_at B slot (?p div ?cb) (?p mod ?cb) (piece_len pc - at) v = (Inr (xs ! (?p div ?cb), n), v0)"
        "ft_layout (vo_fat v0) = l" "cluster_offset l (xs ! (?p div ?cb)) = Some off"
        "write_piece B pc ZERO_BYTES (off + ?p mod ?cb) at n v0 = (Inr (), v1)" "0 < n" "at + n \<le> piece_len pc"
        "fills slot v xs ?p (take n (drop at ?bs)) v1 []"
        using overwrite_ok [OF less.prems(1) _ at u, unfolded less.prems(2), OF True] by blast
      have "fill_loop B slot start pc ?cb at v = fill_loop B slot start pc ?cb (at + n) v1"
        using False idx lt cl op o(1-5)
        by (subst unf) (simp add: Let_def vbind_def offset_of_def v_layout_def vget_def vsome_def vret_def)
      from step [OF this o(5-7)] show ?thesis .
    next
      case end_of: False
      then have p: "?p = length xs * ?cb" using less.prems(3) by simp
      have free: "free_set (logical_byte (vo_cache v)) l \<noteq> {}"
      proof
        assume "free_set (logical_byte (vo_cache v)) l = {}"
        then have "start + piece_len pc \<le> length xs * ?cb" using less.prems(5) by simp
        then show False using p at by linarith
      qed
      obtain zs v1 W v2 v3 v4 v5 where e: "v_find_free B (min (div_ceil (piece_len pc - at) ?cb) ROUND_CLUSTERS) v = (Inr zs, v1)"
        "zs \<noteq> []" "fill_round B pc ?cb (piece_len pc) at zs 0 v1 = (Inr W, v2)" "v_flush B v2 = (Inr (), v3)"
        "link_new B (if of_clusters ?f > 0 then Some (of_last ?f) else None) zs v3 = (Inr (), v4)"
        "opened_set slot (\<lambda>g. g\<lparr>of_first := (if of_clusters ?f = 0 then hd zs else of_first g),
          of_clusters := of_clusters g + length zs, of_last := last zs\<rparr>) v4 = (Inr (), v5)"
        "0 < W" "at + W \<le> piece_len pc" "fills slot v xs (length xs * ?cb) (take W (drop at ?bs)) v5 zs"
        using extend_ok [OF less.prems(1) at u, unfolded less.prems(2), OF free] by blast
      have "?p div ?cb = length xs" "?p mod ?cb = 0" using cb unfolding p by simp_all
      then have "fill_loop B slot start pc ?cb at v = fill_loop B slot start pc ?cb (at + W) v5"
        using False idx cl op e(1-7) by (subst unf) (simp add: Let_def vbind_def)
      from step [OF this e(7,8)] e(9) p show ?thesis by simp
    qed
  qed
qed

end

end
