(* ===== verification/Fat_Store.thy ===== *)
theory Fat_Store
  imports Fat_Fill
begin

text \<open>
  A file of the mounted volume as a list of bytes: what a write makes of it, and what a read gives.
\<close>

section \<open>Before the first write\<close>

context answering_device
begin

text \<open>A step that leaves the data region and the links of the clusters alone.\<close>

definition data_same :: "layout \<Rightarrow> 'a cache \<Rightarrow> 'a cache \<Rightarrow> bool" where
  "data_same l c c' \<longleftrightarrow> volume_ok l c' \<and> blocks_of c' = blocks_of c \<and> ca_writable c' = ca_writable c
     \<and> (\<forall>q < ly_sectors l * BLOCK. ly_data_start l * BLOCK \<le> q \<longrightarrow> logical_byte c' q = logical_byte c q)
     \<and> (\<forall>e. is_cluster l e \<longrightarrow> link_at (logical_byte c') l e = link_at (logical_byte c) l e)"

lemma data_same_keeps: "volume_ok l c \<Longrightarrow> keeps c c' \<Longrightarrow> data_same l c c'"
  using volume_ok_keeps [of l c c'] keeps_bytes [of c c'] by (simp add: data_same_def) (simp add: keeps_def)

lemma data_same_trans: "data_same l c c1 \<Longrightarrow> data_same l c1 c2 \<Longrightarrow> data_same l c c2"
  by (simp add: data_same_def)

lemma data_same_links:
  assumes "data_same l c c'"
  shows "free_set (logical_byte c') l = free_set (logical_byte c) l"
    "\<forall>x \<in> set xs. is_cluster l x \<Longrightarrow> open_ok (logical_byte c') l f xs = open_ok (logical_byte c) l f xs"
  using assms links_open_ok [of xs "logical_byte c'" l "logical_byte c" f] by (auto simp: data_same_def free_set_def)

lemma set_clean_copies_ok:
  "volume_ok l c \<Longrightarrow> in_u64 c \<Longrightarrow> ca_writable c \<Longrightarrow> set copies \<subseteq> {..<ly_fats l} \<Longrightarrow>
     \<exists>ch' c'. set_clean_copies B l c clean copies ch = (Inr ch', c') \<and> data_same l c c'"
proof (induction copies arbitrary: c ch)
  case Nil
  then show ?case using data_same_keeps keeps_refl by (simp add: volume_ok_def)
next
  case (Cons copy copies)
  have one: "copy < ly_fats l" "1 < fat_limit l" using Cons.prems(4) by (auto simp: fat_limit_def)
  obtain old c1 where rr: "read_raw B l c copy 1 = (Inr old, c1)" using read_raw_ok [OF Cons.prems(1,2) one] by blast
  have k: "keeps c c1" using read_raw_spec(1) [OF _ rr] Cons.prems(1) by (simp add: volume_ok_def)
  have ok1: "volume_ok l c1" "in_u64 c1" "ca_writable c1"
    using volume_ok_keeps [OF Cons.prems(1) k] in_u64_keeps [OF k] Cons.prems(2,3) k by (auto simp: keeps_def)
  let ?new = "if clean then old OR CLEAN_SHUTDOWN else old AND NOT CLEAN_SHUTDOWN"
  show ?case
  proof (cases "?new = old")
    case True
    obtain ch' c' where "set_clean_copies B l c1 clean copies ch = (Inr ch', c')" "data_same l c1 c'"
      using Cons.IH [OF ok1, of ch] Cons.prems(4) by auto
    then show ?thesis using rr True data_same_trans [OF data_same_keeps [OF Cons.prems(1) k]] by (auto simp: Let_def)
  next
    case False
    obtain c2 where ww: "write_raw B l c1 copy 1 ?new = (Inr (), c2)" using write_raw_ok [OF ok1 one] by blast
    note ws = write_raw_spec [OF ok1(1) one(1) one(2) [unfolded fat_limit_def] ww]
    have "read_copy l < ly_fats l" using copies_in(1,2) ok1(1) by (auto simp: volume_ok_def)
    then have ds: "data_same l c1 c2"
      using ws(1-4) by (auto simp: data_same_def link_at_def is_cluster_def)
    have ok2: "in_u64 c2" "ca_writable c2" "set copies \<subseteq> {..<ly_fats l}" using in_u64_same [of c2 c1] ws(2) ok1(2,3) Cons.prems(4) by simp_all
    from Cons.IH [OF ws(1) ok2, of True] obtain ch' c' where
      "set_clean_copies B l c2 clean copies True = (Inr ch', c')" "data_same l c2 c'" by blast
    moreover from this have "data_same l c c'"
      using data_same_trans [OF data_same_keeps [OF Cons.prems(1) k] data_same_trans [OF ds]] by blast
    moreover have "set_clean_copies B l c clean (copy # copies) ch = set_clean_copies B l c2 clean copies True"
      using rr ww False by (simp add: Let_def del: if_not_P split del: if_split)
    ultimately show ?thesis by auto
  qed
qed

lemma boot_byte_put:
  assumes v: "volume_ok l c" and put: "bytes_put c LINUX_STATE [b] c'"
  shows "data_same l c c'"
proof -
  have l: "layout_ok l" "ly_sectors l * BLOCK \<le> blocks_of c * BLOCK" "0 < ly_fat_start l" using v by (auto simp: volume_ok_def layout_ok_def)
  have same: "logical_byte c' q = logical_byte c q" if "q < ly_sectors l * BLOCK" "512 \<le> q" for q
  proof -
    have "q < blocks_of c * BLOCK" using that(1) l(2) by linarith
    then show ?thesis using put that(2) by (simp add: bytes_put_def LINUX_STATE_def)
  qed
  have first: "512 \<le> ly_fat_start l * BLOCK" using l(3) by (simp add: BLOCK_def)
  have data: "512 \<le> ly_data_start l * BLOCK" using l(1) first by (simp add: layout_ok_def BLOCK_def)
  have copy: "read_copy l < ly_fats l" using copies_in(1,2) [OF l(1)] by auto
  have "link_at (logical_byte c') l e = link_at (logical_byte c) l e" if e: "is_cluster l e" for e
  proof -
    have lim: "e < ly_clusters l + 2" using e by (auto simp: is_cluster_def)
    note at = fat_offset_in [OF l(1) copy lim]
    have "logical_byte c' (fat_offset l (read_copy l) e + k) = logical_byte c (fat_offset l (read_copy l) e + k)" if "k < 4" for k
      using same [of "fat_offset l (read_copy l) e + k"] at(1,2) first data_start_in [OF l(1)] that by linarith
    from this [of 0] this [of 1] this [of 2] this [of 3] show ?thesis by (simp add: link_at_def fat_entry_def Let_def)
  qed
  then show ?thesis using v put same data by (auto simp: data_same_def bytes_put_def volume_ok_def)
qed

lemma v_read_ok:
  assumes "cache_ok (vo_cache v)" "in_u64 (vo_cache v)" "at + n \<le> blocks_of (vo_cache v) * BLOCK"
  shows "\<exists>c. v_read B at n v = (Inr (map (logical_byte (vo_cache v)) [at..<at + n]), v\<lparr>vo_cache := c\<rparr>) \<and> keeps (vo_cache v) c"
proof -
  obtain bs c where rd: "read_at B (vo_cache v) at n = (Inr bs, c)" using read_at_ok [OF assms] by blast
  with read_at_spec [OF assms(1) rd] show ?thesis by (auto simp: v_read_def on_cache_def)
qed

lemma set_linux_state_ok:
  assumes v: "volume_ok (ft_layout (vo_fat v)) (vo_cache v)" "in_u64 (vo_cache v)" "ca_writable (vo_cache v)"
  shows "\<exists>c. set_linux_state B dirty v = (Inr (), v\<lparr>vo_cache := c\<rparr>) \<and> data_same (ft_layout (vo_fat v)) (vo_cache v) c"
proof -
  let ?l = "ft_layout (vo_fat v)"
  have ok: "cache_ok (vo_cache v)" "layout_ok ?l" "ly_sectors ?l \<le> blocks_of (vo_cache v)" using v(1) by (simp_all add: volume_ok_def)
  have "0 < ly_sectors ?l" using ok(2) by (auto simp: layout_ok_def)
  then have "1 \<le> blocks_of (vo_cache v)" using ok(3) by linarith
  then have in1: "LINUX_STATE + 1 \<le> blocks_of (vo_cache v) * BLOCK" by (simp add: LINUX_STATE_def BLOCK_def)
  define old where "old = logical_byte (vo_cache v) LINUX_STATE"
  define new where "new = (if dirty then old OR LINUX_STATE_DIRTY else old AND NOT LINUX_STATE_DIRTY)"
  obtain c1 where r: "v_read B LINUX_STATE 1 v = (Inr [old], v\<lparr>vo_cache := c1\<rparr>)" "keeps (vo_cache v) c1"
    using v_read_ok [OF ok(1) v(2) in1] by (auto simp: old_def)
  have ds1: "data_same ?l (vo_cache v) c1" by (rule data_same_keeps [OF v(1) r(2)])
  have c1: "volume_ok ?l c1" "cache_ok c1" "in_u64 c1" "ca_writable c1" "LINUX_STATE + length [new] \<le> blocks_of c1 * BLOCK"
    using volume_ok_keeps [OF v(1) r(2)] in_u64_keeps [OF r(2)] v(2,3) r(2) in1 by (auto simp: keeps_def volume_ok_def)
  have eq: "set_linux_state B dirty v = (if new \<noteq> old then v_write B LINUX_STATE [new] else vret ()) (v\<lparr>vo_cache := c1\<rparr>)"
    unfolding set_linux_state_def vbind_def r(1) new_def by (simp add: Let_def)
  show ?thesis
  proof (cases "new = old")
    case True
    then show ?thesis using ds1 eq by (auto simp: vret_def)
  next
    case False
    obtain c2 where w: "v_write B LINUX_STATE [new] (v\<lparr>vo_cache := c1\<rparr>) = (Inr (), v\<lparr>vo_cache := c2\<rparr>)" "bytes_put c1 LINUX_STATE [new] c2"
      using v_write_ok [of "v\<lparr>vo_cache := c1\<rparr>" LINUX_STATE "[new]"] c1(2-5) by auto
    then show ?thesis using eq False data_same_trans [OF ds1 boot_byte_put [OF c1(1) w(2)]] by auto
  qed
qed

lemma begin_write_ok:
  assumes v: "volume_ok (ft_layout (vo_fat v)) (vo_cache v)" "in_u64 (vo_cache v)" "ca_writable (vo_cache v)"
  shows "\<exists>c. begin_write B v = (Inr (), v\<lparr>vo_cache := c, vo_marked := True\<rparr>) \<and> data_same (ft_layout (vo_fat v)) (vo_cache v) c"
proof -
  let ?l = "ft_layout (vo_fat v)"
  have ok: "cache_ok (vo_cache v)" "layout_ok ?l" using v(1) by (simp_all add: volume_ok_def)
  note refl = data_same_keeps [OF v(1) keeps_refl [OF ok(1)]]
  show ?thesis
  proof (cases "vo_marked v")
    case True
    then have "begin_write B v = (Inr (), v\<lparr>vo_cache := vo_cache v, vo_marked := True\<rparr>)"
      using v(3) by (simp add: begin_write_def vbind_def vget_def vret_def)
    then show ?thesis using refl by blast
  next
    case False
    have "\<exists>c. (if \<not> vo_dirty_at_mount v then v_set_clean B False else vret ()) v = (Inr (), v\<lparr>vo_cache := c\<rparr>) \<and> data_same ?l (vo_cache v) c"
    proof (cases "vo_dirty_at_mount v")
      case False
      obtain ch c where "set_clean B ?l (vo_cache v) False = (Inr ch, c)" "data_same ?l (vo_cache v) c"
        unfolding set_clean_def using set_clean_copies_ok [OF v copies_in(2) [OF ok(2)]] by blast
      then show ?thesis using False by (auto simp: v_set_clean_def on_cache_def)
    qed (use refl in \<open>auto simp: vret_def intro!: exI [of _ "vo_cache v"]\<close>)
    then obtain c1 where c1: "(if \<not> vo_dirty_at_mount v then v_set_clean B False else vret ()) v = (Inr (), v\<lparr>vo_cache := c1\<rparr>)"
      "data_same ?l (vo_cache v) c1" by blast
    have ok1: "volume_ok ?l c1" "in_u64 c1" "ca_writable c1" using c1(2) v(2,3) in_u64_same [of c1 "vo_cache v"] by (simp_all add: data_same_def)
    obtain c2 where c2: "set_linux_state B True (v\<lparr>vo_cache := c1\<rparr>) = (Inr (), v\<lparr>vo_cache := c2\<rparr>)" "data_same ?l c1 c2"
      using set_linux_state_ok [of "v\<lparr>vo_cache := c1\<rparr>" True] ok1 by auto
    have ok2: "volume_ok ?l c2" "in_u64 c2" using c2(2) ok1 in_u64_same [of c2 c1] by (simp_all add: data_same_def)
    obtain c3 where c3: "v_flush B (v\<lparr>vo_cache := c2\<rparr>) = (Inr (), v\<lparr>vo_cache := c3\<rparr>)" "keeps c2 c3"
      using v_flush_ok [of "v\<lparr>vo_cache := c2\<rparr>"] ok2 by (auto simp: volume_ok_def)
    have "begin_write B v = (Inr (), v\<lparr>vo_cache := c3, vo_marked := True\<rparr>)"
      using v(3) False c1(1) c2(1) c3(1) by (simp add: begin_write_def vbind_def vget_def vmodify_def del: if_not_P)
    moreover have "data_same ?l (vo_cache v) c3"
      using data_same_trans [OF c1(2) data_same_trans [OF c2(2) data_same_keeps [OF ok2(1) c3(2)]]] .
    ultimately show ?thesis by blast
  qed
qed

end

section \<open>Bytes over a list of bytes\<close>

text \<open>What a write leaves of a file: zeros up to the place when it is past the end, then the bytes, then the rest.\<close>

definition overlay :: "bytes \<Rightarrow> nat \<Rightarrow> bytes \<Rightarrow> bytes" where
  "overlay old offset data = take offset (old @ replicate (offset - length old) 0) @ data @ drop (offset + length data) old"

lemma length_overlay: "length (overlay old offset data) = max (length old) (offset + length data)"
  by (auto simp: overlay_def)

lemma overlay_nth:
  assumes "i < max (length old) (offset + length data)"
  defines "p \<equiv> min (length old) offset"
  shows "overlay old offset data ! i = (if p \<le> i \<and> i < offset + length data then (replicate (offset - length old) 0 @ data) ! (i - p) else old ! i)"
proof -
  have t: "length (take offset (old @ replicate (offset - length old) 0)) = offset" by simp
  consider "i < p" | "p \<le> i" "i < offset" | "offset \<le> i" "i < offset + length data" | "offset + length data \<le> i" "i < length old"
    using assms(1) by (metis less_max_iff_disj linorder_not_less)
  then show ?thesis
  proof cases
    case 1
    then show ?thesis by (simp add: overlay_def nth_append p_def)
  next
    case 2
    then have "length old \<le> i" "p = length old" by (auto simp: p_def)
    then show ?thesis using 2 by (auto simp: overlay_def nth_append)
  next
    case 3
    then show ?thesis using t unfolding overlay_def by (auto simp: nth_append p_def)
  next
    case 4
    then show ?thesis using t unfolding overlay_def by (auto simp: nth_append p_def)
  qed
qed

section \<open>The directory entry of a file\<close>

text \<open>Where the entry is: in a cluster in use that is not one of the file's.\<close>

definition entry_safe :: "(nat \<Rightarrow> u8) \<Rightarrow> layout \<Rightarrow> nat \<Rightarrow> nat list \<Rightarrow> bool" where
  "entry_safe g l at xs \<longleftrightarrow> (\<exists>e \<in> {2..<fat_limit l}. is_cluster l e \<and> e \<notin> set xs \<and> link_at g l e \<noteq> Free
     \<and> the (cluster_offset l e) \<le> at \<and> at + 32 \<le> the (cluster_offset l e) + ly_cluster_bytes l)"

definition entry_file :: "raw \<Rightarrow> bool" where
  "entry_file raw \<longleftrightarrow> \<not> raw_is_long raw \<and> \<not> raw_is_dir raw \<and> raw_byte raw 0 \<noteq> FREE_MARK \<and> raw_byte raw 0 \<noteq> END_MARK"

lemma entry_safe_in:
  assumes "layout_ok l" "entry_safe g l at xs"
  shows "ly_data_start l * BLOCK \<le> at" "at + 32 \<le> ly_sectors l * BLOCK"
  using assms(2) cluster_offset_in [OF assms(1)] unfolding entry_safe_def by fastforce+

lemma entry_apart:
  assumes l: "layout_ok l" and at: "entry_safe g l at xs" and xs: "\<forall>x \<in> set (xs @ ys). is_cluster l x" and ys: "set ys \<subseteq> free_set g l"
    and i: "i < length (xs @ ys) * ly_cluster_bytes l"
  shows "file_pos l (xs @ ys) i \<notin> {at..<at + 32}"
proof
  assume f: "file_pos l (xs @ ys) i \<in> {at..<at + 32}"
  let ?cb = "ly_cluster_bytes l" and ?x = "(xs @ ys) ! (i div ly_cluster_bytes l)"
  obtain e where e: "is_cluster l e" "e \<notin> set xs" "link_at g l e \<noteq> Free"
    "the (cluster_offset l e) \<le> at" "at + 32 \<le> the (cluster_offset l e) + ?cb" using at by (auto simp: entry_safe_def)
  obtain off where off: "cluster_offset l e = Some off" using cluster_offset_in [OF l e(1)] by blast
  have "i div ?cb < length (xs @ ys)" using i by (rule less_mult_imp_div_less)
  then have x: "?x \<in> set (xs @ ys)" by (rule nth_mem)
  obtain b where b: "cluster_offset l ?x = Some b" "file_pos l (xs @ ys) i = b + i mod ?cb" using file_pos_in [OF l xs i] by blast
  have m: "i mod ?cb < ?cb" using cluster_bytes_pos [OF l] by simp
  have "?x \<noteq> e" using x e(2,3) ys by (auto simp: free_set_def)
  then show False
  proof (rule linorder_neqE_nat)
    assume "?x < e"
    with cluster_offset_apart [OF l b(1) off] e(4) f b(2) m show False unfolding off by auto
  next
    assume "e < ?x"
    with cluster_offset_apart [OF l off b(1)] e(5) f b(2) show False unfolding off by auto
  qed
qed

context answering_device
begin

lemma update_entry_ok:
  fixes v :: "'a volume" and slot :: nat
  defines "l \<equiv> ft_layout (vo_fat v)" and "at \<equiv> of_entry_at (vo_open v ! slot)"
  assumes v: "volume_ok l (vo_cache v)" "in_u64 (vo_cache v)" "ca_writable (vo_cache v)" and slot: "slot < length (vo_open v)"
    and at: "ly_data_start l * BLOCK \<le> at" "at + 32 \<le> ly_sectors l * BLOCK"
    and entry: "entry_file (map (logical_byte (vo_cache v)) [at..<at + 32])"
  shows "\<exists>c. update_entry B slot len v = (Inr (), v\<lparr>vo_cache := c, vo_open := (vo_open v)[slot := (vo_open v ! slot)\<lparr>of_size := len\<rparr>]\<rparr>)
    \<and> volume_ok l c \<and> blocks_of c = blocks_of (vo_cache v) \<and> ca_writable c = ca_writable (vo_cache v)
    \<and> (\<forall>q < ly_sectors l * BLOCK. q \<notin> {at..<at + 32} \<longrightarrow> logical_byte c q = logical_byte (vo_cache v) q)"
proof -
  let ?f = "vo_open v ! slot"
  have ok: "layout_ok l" "cache_ok (vo_cache v)" "ly_sectors l * BLOCK \<le> blocks_of (vo_cache v) * BLOCK" using v(1) by (auto simp: volume_ok_def)
  have in1: "at + 32 \<le> blocks_of (vo_cache v) * BLOCK" using at(2) ok(3) by linarith
  define bs where "bs = map (logical_byte (vo_cache v)) [at..<at + 32]"
  obtain c1 where r: "v_read B at 32 v = (Inr bs, v\<lparr>vo_cache := c1\<rparr>)" "keeps (vo_cache v) c1"
    using v_read_ok [OF ok(2) v(2) in1] by (auto simp: bs_def)
  have c1: "volume_ok l c1" "cache_ok c1" "in_u64 c1" "ca_writable c1" "logical_byte c1 = logical_byte (vo_cache v)" "blocks_of c1 = blocks_of (vo_cache v)"
    using volume_ok_keeps [OF v(1) r(2)] in_u64_keeps [OF r(2)] v(2,3) r(2) keeps_bytes [OF r(2)] by (auto simp: keeps_def volume_ok_def)
  define r1 where "r1 = raw_set_modified (raw_set_size (raw_set_cluster bs (word_of_nat (of_first ?f))) (word_of_nat len)) (stamp_encode (vo_now v))"
  define new where "new = raw_set_attr r1 (raw_attr r1 OR ATTR_ARCHIVE)"
  have len: "length new = 32" by (simp add: new_def r1_def raw_set_attr_def raw_set_modified_def raw_set_size_def raw_set_cluster_def bs_def)
  have eq: "update_entry B slot len v = vbind (if new \<noteq> bs then vbind (v_write B at new) (\<lambda>_. v_flush B) else vret ())
      (\<lambda>_. opened_set slot (of_size_update (\<lambda>_. len))) (v\<lparr>vo_cache := c1\<rparr>)"
    using entry [folded bs_def] slot r(1)
    by (simp add: update_entry_def vbind_def vget_def vret_def opened_def Let_def entry_file_def at_def new_def r1_def)
  have "\<exists>c. (if new \<noteq> bs then vbind (v_write B at new) (\<lambda>_. v_flush B) else vret ()) (v\<lparr>vo_cache := c1\<rparr>) = (Inr (), v\<lparr>vo_cache := c\<rparr>)
    \<and> volume_ok l c \<and> blocks_of c = blocks_of (vo_cache v) \<and> ca_writable c = ca_writable (vo_cache v)
    \<and> (\<forall>q < ly_sectors l * BLOCK. q \<notin> {at..<at + 32} \<longrightarrow> logical_byte c q = logical_byte (vo_cache v) q)"
  proof (cases "new = bs")
    case True
    then show ?thesis using c1 v(3) by (intro exI [of _ c1]) (simp add: vret_def)
  next
    case False
    obtain c2 where w: "v_write B at new (v\<lparr>vo_cache := c1\<rparr>) = (Inr (), v\<lparr>vo_cache := c2\<rparr>)" "bytes_put c1 at new c2"
      using v_write_ok [of "v\<lparr>vo_cache := c1\<rparr>" at new] c1 len in1 by auto
    have c2: "volume_ok l c2" "in_u64 c2" "cache_ok c2" using w(2) c1 in_u64_same [of c2 c1] by (auto simp: bytes_put_def volume_ok_def)
    obtain c3 where c3: "v_flush B (v\<lparr>vo_cache := c2\<rparr>) = (Inr (), v\<lparr>vo_cache := c3\<rparr>)" "keeps c2 c3"
      using v_flush_ok [of "v\<lparr>vo_cache := c2\<rparr>"] c2 by auto
    have "logical_byte c3 q = logical_byte (vo_cache v) q" if "q < ly_sectors l * BLOCK" "q \<notin> {at..<at + 32}" for q
    proof -
      have "q < blocks_of c1 * BLOCK" using that(1) ok(3) unfolding c1(6) by linarith
      then show ?thesis using w(2) that(2) len c1(5) keeps_bytes [OF c3(2)] by (auto simp: bytes_put_def)
    qed
    moreover have "volume_ok l c3" "blocks_of c3 = blocks_of (vo_cache v)" "ca_writable c3 = ca_writable (vo_cache v)"
      using volume_ok_keeps [OF c2(1) c3(2)] c3(2) w(2) c1 v(3) by (auto simp: keeps_def bytes_put_def)
    ultimately show ?thesis using False w(1) c3(1) by (auto simp: vbind_def)
  qed
  then obtain c where c: "(if new \<noteq> bs then vbind (v_write B at new) (\<lambda>_. v_flush B) else vret ()) (v\<lparr>vo_cache := c1\<rparr>) = (Inr (), v\<lparr>vo_cache := c\<rparr>)"
    "volume_ok l c" "blocks_of c = blocks_of (vo_cache v)" "ca_writable c = ca_writable (vo_cache v)"
    "\<forall>q < ly_sectors l * BLOCK. q \<notin> {at..<at + 32} \<longrightarrow> logical_byte c q = logical_byte (vo_cache v) q" by blast
  have "update_entry B slot len v = (Inr (), v\<lparr>vo_cache := c, vo_open := (vo_open v)[slot := ?f\<lparr>of_size := len\<rparr>]\<rparr>)"
    unfolding eq vbind_def c(1) using slot by (simp add: opened_set_def opened_def vbind_def vget_def vmodify_def vret_def)
  then show ?thesis using c(2-5) by blast
qed

lemma fills_bytes:
  assumes f: "fills slot v xs p data v' ys" and p: "p \<le> length xs * ly_cluster_bytes (ft_layout (vo_fat v))"
    and i: "i < length xs * ly_cluster_bytes (ft_layout (vo_fat v)) \<or> i < p + length data"
  shows "logical_byte (vo_cache v') (file_pos (ft_layout (vo_fat v)) (xs @ ys) i) =
    (if p \<le> i \<and> i < p + length data then data ! (i - p) else logical_byte (vo_cache v) (file_pos (ft_layout (vo_fat v)) xs i))"
proof (cases "p \<le> i \<and> i < p + length data")
  case True
  then have "i - p < length data" "p + (i - p) = i" by linarith+
  then show ?thesis using True f unfolding fills_def by metis
next
  case False
  let ?l = "ft_layout (vo_fat v)" and ?xs = "xs @ ys"
  have lay: "ft_layout (vo_fat v') = ?l" "p + length data \<le> length ?xs * ly_cluster_bytes ?l" using f by (simp_all add: fills_def same_volume_def)
  have "file_ok v' slot ?xs" using f by (simp add: fills_def ready_def)
  note fd = file_okD [OF this, unfolded lay(1)]
  have in1: "i < length xs * ly_cluster_bytes ?l" using i False p by linarith
  then have in2: "i < length ?xs * ly_cluster_bytes ?l" by (simp add: add_mult_distrib)
  have "file_pos ?l ?xs i \<notin> file_pos ?l ?xs ` {p..<p + length data}"
  proof
    assume "file_pos ?l ?xs i \<in> file_pos ?l ?xs ` {p..<p + length data}"
    then obtain j where j: "p \<le> j" "j < p + length data" "file_pos ?l ?xs i = file_pos ?l ?xs j" by auto
    have "j < length ?xs * ly_cluster_bytes ?l" using j(2) lay(2) by linarith
    from file_pos_inj [OF fd(4-6) in2 this j(3)] j(1,2) False show False by simp
  qed
  moreover obtain off where "ly_data_start ?l * BLOCK \<le> file_pos ?l ?xs i" "file_pos ?l ?xs i < ly_sectors ?l * BLOCK"
    using file_pos_in [OF fd(4,5) in2] by blast
  ultimately have "logical_byte (vo_cache v') (file_pos ?l ?xs i) = logical_byte (vo_cache v) (file_pos ?l ?xs i)"
    using f unfolding fills_def by blast
  then show ?thesis using False file_pos_append [OF in1] by auto
qed

lemma run_ok:
  assumes "op v = (Inr x, v1)" "cache_ok (vo_cache v1)" "in_u64 (vo_cache v1)"
  shows "\<exists>c. run B op v = (Inr x, v1\<lparr>vo_cache := c\<rparr>) \<and> keeps (vo_cache v1) c"
  using v_flush_ok [OF assms(2,3)] assms(1) by (auto simp: run_def vbind_def vret_def)

lemma room_ok:
  fixes v :: "'a volume"
  defines "l \<equiv> ft_layout (vo_fat v)"
  assumes v: "ready slot v xs"
  shows "\<exists>v1. room B n v = (Inr ((n + card (free_set (logical_byte (vo_cache v)) l)) * ly_cluster_bytes l), v1) \<and> ready slot v1 xs
    \<and> logical_byte (vo_cache v1) = logical_byte (vo_cache v) \<and> same_volume slot v v1 \<and> vo_open v1 = vo_open v"
proof -
  have f: "file_ok v slot xs" "fat_ok (logical_byte (vo_cache v)) (vo_fat v)" "ca_writable (vo_cache v)" using v by (simp_all add: ready_def)
  note fd = file_okD [OF f(1)]
  obtain f1 c1 where fc: "free_count B (vo_fat v) (vo_cache v) = (Inr (card (free_set (logical_byte (vo_cache v)) l)), f1, c1)"
    "keeps (vo_cache v) c1" "fat_ok (logical_byte (vo_cache v)) f1" "ft_layout f1 = l"
    using free_count_ok [OF fd(2,3) f(2)] by (auto simp: l_def)
  let ?v = "v\<lparr>vo_cache := c1, vo_fat := f1\<rparr>"
  have "room B n v = (Inr ((n + card (free_set (logical_byte (vo_cache v)) l)) * ly_cluster_bytes l), ?v)"
    using fc(1,4) by (simp add: room_def vbind_def v_free_count_def on_fat_def cluster_bytes_def vget_def vret_def)
  moreover have "ready slot ?v xs"
    using file_ok_cache [OF f(1) fc(2)] fc(2-4) f(3) keeps_bytes [OF fc(2)] by (auto simp: ready_def file_ok_def l_def keeps_def)
  moreover have "same_volume slot v ?v" using fc(4) by (simp add: same_volume_def l_def)
  ultimately show ?thesis using keeps_bytes [OF fc(2)] by auto
qed

lemma fill_file_ok:
  assumes "ready slot v xs" "start \<le> length xs * ly_cluster_bytes (ft_layout (vo_fat v))"
    "start + piece_len pc \<le> (length xs + card (free_set (logical_byte (vo_cache v)) (ft_layout (vo_fat v)))) * ly_cluster_bytes (ft_layout (vo_fat v))"
    "start + piece_len pc \<le> MAX_FILE"
  shows "\<exists>v' ys. fill_file B slot start pc v = (Inr (), v') \<and> fills slot v xs start (piece_bytes pc) v' ys"
  using fill_loop_ok [OF assms(1) refl, of start 0 pc] assms(2-4)
  by (simp add: fill_file_def vbind_def cluster_bytes_def vget_def)

lemma fill_twice_ok:
  fixes v :: "'a volume"
  defines "l \<equiv> ft_layout (vo_fat v)"
  assumes v: "ready slot v xs" and len: "len \<le> length xs * ly_cluster_bytes l" and stop: "offset + length data \<le> MAX_FILE"
    and space: "offset + length data \<le> (length xs + card (free_set (logical_byte (vo_cache v)) l)) * ly_cluster_bytes l"
  shows "\<exists>v1 v' ys. (if offset > len then fill_file B slot len (Zeros (offset - len)) else vret ()) v = (Inr (), v1)
    \<and> fill_file B slot offset (Data data) v1 = (Inr (), v') \<and> fills slot v xs (min len offset) (replicate (offset - len) 0 @ data) v' ys"
proof (cases "offset > len")
  case True
  obtain v1 ys where z: "fill_file B slot len (Zeros (offset - len)) v = (Inr (), v1)" "fills slot v xs len (replicate (offset - len) 0) v1 ys"
    using fill_file_ok [OF v, of len "Zeros (offset - len)"] len stop space True by (auto simp: l_def piece_len_def piece_bytes_def)
  have v1: "ready slot v1 (xs @ ys)" "ft_layout (vo_fat v1) = l" "offset \<le> length (xs @ ys) * ly_cluster_bytes l"
    using z(2) True by (simp_all add: fills_def same_volume_def l_def)
  have "length (xs @ ys) + card (free_set (logical_byte (vo_cache v1)) l) = length xs + card (free_set (logical_byte (vo_cache v)) l)"
    using fills_card [OF z(2)] by (simp add: l_def)
  then have "offset + length data \<le> (length (xs @ ys) + card (free_set (logical_byte (vo_cache v1)) l)) * ly_cluster_bytes l"
    using space by (simp only:)
  then obtain v' zs where d: "fill_file B slot offset (Data data) v1 = (Inr (), v')" "fills slot v1 (xs @ ys) offset data v' zs"
    using fill_file_ok [OF v1(1), of offset "Data data"] v1(2,3) stop by (auto simp: piece_len_def piece_bytes_def)
  have "fills slot v xs len (replicate (offset - len) 0 @ data) v' (ys @ zs)"
    using fills_trans [OF z(2), of data v' zs] d(2) True by simp
  moreover have "min len offset = len" using True by simp
  ultimately show ?thesis using True z(1) d(1) by auto
next
  case False
  obtain v' ys where "fill_file B slot offset (Data data) v = (Inr (), v')" "fills slot v xs offset data v' ys"
    using fill_file_ok [OF v, of offset "Data data"] len stop space False by (auto simp: l_def piece_len_def piece_bytes_def)
  moreover have "min len offset = offset" "offset - len = 0" using False by simp_all
  ultimately show ?thesis using False by (auto simp: vret_def)
qed

section \<open>Writing a file\<close>

text \<open>The steps of a write on the open file: the room there is, the mark of a volume in use, and the entry.\<close>

lemma stop_ok:
  fixes v :: "'a volume" and slot :: nat
  defines "l \<equiv> ft_layout (vo_fat v)" and "f \<equiv> vo_open v ! slot"
  assumes v: "ready slot v xs" and space: "offset < stop" "stop \<le> (length xs + card (free_set (logical_byte (vo_cache v)) l)) * ly_cluster_bytes l"
  shows "\<exists>v1. (if div_ceil stop (ly_cluster_bytes l) > of_clusters f
      then vbind (room B (of_clusters f)) (\<lambda>rm. if rm \<le> offset then vfail NoSpace else vret (min stop rm)) else vret stop) v = (Inr stop, v1)
    \<and> ready slot v1 xs \<and> logical_byte (vo_cache v1) = logical_byte (vo_cache v) \<and> ft_layout (vo_fat v1) = l \<and> vo_open v1 = vo_open v"
proof (cases "div_ceil stop (ly_cluster_bytes l) > of_clusters f")
  case True
  have cl: "of_clusters f = length xs" using v by (simp add: ready_def file_ok_def open_ok_def f_def)
  obtain v1 where r: "room B (of_clusters f) v = (Inr ((length xs + card (free_set (logical_byte (vo_cache v)) l)) * ly_cluster_bytes l), v1)"
    "ready slot v1 xs" "logical_byte (vo_cache v1) = logical_byte (vo_cache v)" "same_volume slot v v1" "vo_open v1 = vo_open v"
    using room_ok [OF v, of "of_clusters f"] cl by (auto simp: l_def)
  have "\<not> (length xs + card (free_set (logical_byte (vo_cache v)) l)) * ly_cluster_bytes l \<le> offset"
    "min stop ((length xs + card (free_set (logical_byte (vo_cache v)) l)) * ly_cluster_bytes l) = stop" using space by linarith+
  then show ?thesis using True r by (auto simp: vbind_def vret_def same_volume_def l_def)
qed (use v in \<open>auto simp: vret_def l_def\<close>)

lemma begin_ready:
  assumes v: "ready slot v xs"
  shows "\<exists>v'. begin_write B v = (Inr (), v') \<and> ready slot v' xs \<and> vo_open v' = vo_open v \<and> ft_layout (vo_fat v') = ft_layout (vo_fat v)
    \<and> data_same (ft_layout (vo_fat v)) (vo_cache v) (vo_cache v')"
proof -
  let ?l = "ft_layout (vo_fat v)"
  have f: "file_ok v slot xs" "fat_ok (logical_byte (vo_cache v)) (vo_fat v)" "ca_writable (vo_cache v)" using v by (simp_all add: ready_def)
  note fd = file_okD [OF f(1)]
  obtain c where b: "begin_write B v = (Inr (), v\<lparr>vo_cache := c, vo_marked := True\<rparr>)" "data_same ?l (vo_cache v) c"
    using begin_write_ok [OF fd(2,3) f(3)] by blast
  note links = data_same_links [OF b(2)]
  have "ready slot (v\<lparr>vo_cache := c, vo_marked := True\<rparr>) xs"
    using b(2) f fd(1,3,5) links(1) links(2) [of xs] in_u64_same [of c "vo_cache v"] by (simp add: ready_def file_ok_def data_same_def fat_ok_def)
  then show ?thesis using b by auto
qed

lemma update_ready:
  fixes v :: "'a volume" and slot :: nat
  defines "l \<equiv> ft_layout (vo_fat v)" and "at \<equiv> of_entry_at (vo_open v ! slot)"
  assumes v: "ready slot v xs" and at: "ly_data_start l * BLOCK \<le> at" "at + 32 \<le> ly_sectors l * BLOCK"
    and entry: "entry_file (map (logical_byte (vo_cache v)) [at..<at + 32])"
    and apart: "\<forall>i < length xs * ly_cluster_bytes l. file_pos l xs i \<notin> {at..<at + 32}"
  shows "\<exists>v'. update_entry B slot len v = (Inr (), v') \<and> ready slot v' xs \<and> ft_layout (vo_fat v') = l
    \<and> map of_path (vo_open v') = map of_path (vo_open v) \<and> of_size (vo_open v' ! slot) = len
    \<and> (\<forall>i < length xs * ly_cluster_bytes l. logical_byte (vo_cache v') (file_pos l xs i) = logical_byte (vo_cache v) (file_pos l xs i))"
proof -
  have f: "file_ok v slot xs" "fat_ok (logical_byte (vo_cache v)) (vo_fat v)" "ca_writable (vo_cache v)" using v by (simp_all add: ready_def)
  note fd = file_okD [OF f(1), folded l_def]
  obtain c where u: "update_entry B slot len v = (Inr (), v\<lparr>vo_cache := c, vo_open := (vo_open v)[slot := (vo_open v ! slot)\<lparr>of_size := len\<rparr>]\<rparr>)"
    "volume_ok l c" "blocks_of c = blocks_of (vo_cache v)" "ca_writable c = ca_writable (vo_cache v)"
    "\<forall>q < ly_sectors l * BLOCK. q \<notin> {at..<at + 32} \<longrightarrow> logical_byte c q = logical_byte (vo_cache v) q"
    using update_entry_ok [OF fd(2) [unfolded l_def] fd(3) f(3) fd(1) at [unfolded l_def at_def] entry [unfolded at_def], folded l_def at_def, of len]
    by blast
  let ?v = "v\<lparr>vo_cache := c, vo_open := (vo_open v)[slot := (vo_open v ! slot)\<lparr>of_size := len\<rparr>]\<rparr>"
  have "\<forall>q < ly_data_start l * BLOCK. logical_byte c q = logical_byte (vo_cache v) q"
    using u(5) at(1) data_start_in [OF fd(4)] by (meson atLeastLessThan_iff less_le_trans not_le)
  note links = data_links [OF fd(4) this]
  then have same: "\<forall>e \<in> set xs. link_at (logical_byte c) l e = link_at (logical_byte (vo_cache v)) l e" "free_set (logical_byte c) l = free_set (logical_byte (vo_cache v)) l"
    using fd(5) links_free_set by (auto simp: is_cluster_def fat_limit_def)
  have "open_ok (logical_byte c) l (vo_open v ! slot) xs" using links_open_ok [OF same(1)] f(1) by (simp add: file_ok_def l_def)
  then have "open_ok (logical_byte c) l ((vo_open v ! slot)\<lparr>of_size := len\<rparr>) xs" by (simp add: open_ok_def)
  then have "ready slot ?v xs"
    using u(2-4) f(2,3) fd(1,3) same(2) in_u64_same [OF u(3)] by (simp add: ready_def file_ok_def fat_ok_def l_def)
  moreover have "logical_byte c (file_pos l xs i) = logical_byte (vo_cache v) (file_pos l xs i)" if i: "i < length xs * ly_cluster_bytes l" for i
    using u(5) apart i file_pos_in [OF fd(4,5) i] by blast
  moreover have "map of_path (vo_open ?v) = map of_path (vo_open v)" "of_size (vo_open ?v ! slot) = len"
    using fd(1) by (simp_all add: map_update list_update_same_conv)
  ultimately show ?thesis using u(1) by (auto simp: l_def)
qed

lemma same_volume_paths: "same_volume slot v v' \<Longrightarrow> map of_path (vo_open v') = map of_path (vo_open v)"
proof (rule nth_equalityI)
  fix i
  assume "same_volume slot v v'" "i < length (map of_path (vo_open v'))"
  then show "map of_path (vo_open v') ! i = map of_path (vo_open v) ! i" by (cases "i = slot") (simp_all add: same_volume_def)
qed (simp add: same_volume_def)

lemma fills_entry:
  assumes f: "fills slot v xs p data v' ys" and l: "layout_ok (ft_layout (vo_fat v))"
    and at: "entry_safe (logical_byte (vo_cache v)) (ft_layout (vo_fat v)) at xs"
  shows "\<forall>i < length (xs @ ys) * ly_cluster_bytes (ft_layout (vo_fat v)). file_pos (ft_layout (vo_fat v)) (xs @ ys) i \<notin> {at..<at + 32}"
    "map (logical_byte (vo_cache v')) [at..<at + 32] = map (logical_byte (vo_cache v)) [at..<at + 32]"
proof -
  let ?l = "ft_layout (vo_fat v)" and ?xs = "xs @ ys"
  have lay: "ft_layout (vo_fat v') = ?l" "p + length data \<le> length ?xs * ly_cluster_bytes ?l" "set ys \<subseteq> free_set (logical_byte (vo_cache v)) ?l"
    using f by (simp_all add: fills_def same_volume_def)
  have "file_ok v' slot ?xs" using f by (simp add: fills_def ready_def)
  note fd = file_okD [OF this, unfolded lay(1)]
  show apart: "\<forall>i < length ?xs * ly_cluster_bytes ?l. file_pos ?l ?xs i \<notin> {at..<at + 32}"
    using entry_apart [OF l at fd(5) lay(3)] by blast
  have "logical_byte (vo_cache v') q = logical_byte (vo_cache v) q" if q: "q \<in> {at..<at + 32}" for q
  proof -
    have "q \<notin> file_pos ?l ?xs ` {p..<p + length data}"
    proof
      assume "q \<in> file_pos ?l ?xs ` {p..<p + length data}"
      then obtain j where j: "j < p + length data" "q = file_pos ?l ?xs j" by auto
      have "j < length ?xs * ly_cluster_bytes ?l" using j(1) lay(2) by linarith
      with apart j(2) q show False by blast
    qed
    moreover have "ly_data_start ?l * BLOCK \<le> q" "q < ly_sectors ?l * BLOCK" using entry_safe_in [OF l at] q by auto
    ultimately show ?thesis using f unfolding fills_def by blast
  qed
  then show "map (logical_byte (vo_cache v')) [at..<at + 32] = map (logical_byte (vo_cache v)) [at..<at + 32]" by simp
qed

lemma store_ok:
  fixes v :: "'a volume" and slot :: nat
  defines "l \<equiv> ft_layout (vo_fat v)" and "f \<equiv> vo_open v ! slot"
  assumes v: "ready slot v xs" and len: "of_size f \<le> length xs * ly_cluster_bytes l" and stop: "offset + length data \<le> MAX_FILE"
    and space: "offset + length data \<le> (length xs + card (free_set (logical_byte (vo_cache v)) l)) * ly_cluster_bytes l"
    and at: "entry_safe (logical_byte (vo_cache v)) l (of_entry_at f) xs"
    and entry: "entry_file (map (logical_byte (vo_cache v)) [of_entry_at f..<of_entry_at f + 32])"
  defines "n \<equiv> max (of_size f) (offset + length data)"
  shows "\<exists>v1 v2 v' ys. (if offset > of_size f then fill_file B slot (of_size f) (Zeros (offset - of_size f)) else vret ()) v = (Inr (), v1)
    \<and> fill_file B slot offset (Data data) v1 = (Inr (), v2) \<and> update_entry B slot n v2 = (Inr (), v')
    \<and> ready slot v' (xs @ ys) \<and> ft_layout (vo_fat v') = l \<and> map of_path (vo_open v') = map of_path (vo_open v)
    \<and> of_size (vo_open v' ! slot) = n \<and> n \<le> length (xs @ ys) * ly_cluster_bytes l
    \<and> file_bytes (logical_byte (vo_cache v')) l (xs @ ys) 0 n = overlay (file_bytes (logical_byte (vo_cache v)) l xs 0 (of_size f)) offset data"
proof -
  let ?g = "logical_byte (vo_cache v)" and ?cb = "ly_cluster_bytes l" and ?dat = "replicate (offset - of_size f) 0 @ data"
  let ?p = "min (of_size f) offset"
  have fo: "file_ok v slot xs" using v by (simp add: ready_def)
  note fd = file_okD [OF fo, folded l_def]
  obtain v1 v2 ys where fl: "(if offset > of_size f then fill_file B slot (of_size f) (Zeros (offset - of_size f)) else vret ()) v = (Inr (), v1)"
    "fill_file B slot offset (Data data) v1 = (Inr (), v2)" "fills slot v xs ?p ?dat v2 ys"
    using fill_twice_ok [OF v len [unfolded l_def] stop space [unfolded l_def]] by blast
  let ?xs = "xs @ ys"
  have v2: "ready slot v2 ?xs" "ft_layout (vo_fat v2) = l" "same_volume slot v v2" "?p + length ?dat \<le> length ?xs * ?cb"
    "of_entry_at (vo_open v2 ! slot) = of_entry_at f" using fl(3) by (simp_all add: fills_def same_volume_def l_def f_def)
  have ent: "ly_data_start l * BLOCK \<le> of_entry_at f" "of_entry_at f + 32 \<le> ly_sectors l * BLOCK" by (rule entry_safe_in [OF fd(4) at])+
  note fe = fills_entry [OF fl(3) fd(4) [unfolded l_def] at [unfolded l_def], folded l_def]
  obtain v' where u: "update_entry B slot n v2 = (Inr (), v')" "ready slot v' ?xs" "ft_layout (vo_fat v') = l"
    "map of_path (vo_open v') = map of_path (vo_open v2)" "of_size (vo_open v' ! slot) = n"
    "\<forall>i < length ?xs * ?cb. logical_byte (vo_cache v') (file_pos l ?xs i) = logical_byte (vo_cache v2) (file_pos l ?xs i)"
    using update_ready [OF v2(1), unfolded v2(2,5), OF ent _ fe(1), of n] entry fe(2) by auto
  have "offset + length data = ?p + length ?dat" by (simp add: min_def)
  then have n: "n \<le> length ?xs * ?cb" using v2(4) len by (simp add: n_def add_mult_distrib)
  have stop_eq: "?p + length ?dat = offset + length data" by (simp add: min_def)
  have "file_bytes (logical_byte (vo_cache v')) l ?xs 0 n = overlay (file_bytes ?g l xs 0 (of_size f)) offset data"
  proof (rule nth_equalityI)
    show "length (file_bytes (logical_byte (vo_cache v')) l ?xs 0 n) = length (overlay (file_bytes ?g l xs 0 (of_size f)) offset data)"
      by (simp add: length_overlay n_def)
    fix i
    assume "i < length (file_bytes (logical_byte (vo_cache v')) l ?xs 0 n)"
    then have i: "i < n" "i < max (length (file_bytes ?g l xs 0 (of_size f))) (offset + length data)" by (simp_all add: n_def)
    have "i < length xs * ?cb \<or> i < ?p + length ?dat" using i(1) len stop_eq by (auto simp: n_def)
    from fills_bytes [OF fl(3) _ this [unfolded l_def], folded l_def] len have
      "logical_byte (vo_cache v2) (file_pos l ?xs i) = (if ?p \<le> i \<and> i < ?p + length ?dat then ?dat ! (i - ?p) else ?g (file_pos l xs i))" by simp
    moreover have "logical_byte (vo_cache v') (file_pos l ?xs i) = logical_byte (vo_cache v2) (file_pos l ?xs i)" using u(6) i(1) n by simp
    moreover have "file_bytes ?g l xs 0 (of_size f) ! i = ?g (file_pos l xs i)" if "\<not> (?p \<le> i \<and> i < offset + length data)"
      using i(1) that by (auto simp: n_def)
    moreover have "length (file_bytes ?g l xs 0 (of_size f)) = of_size f" by simp
    ultimately show "file_bytes (logical_byte (vo_cache v')) l ?xs 0 n ! i = overlay (file_bytes ?g l xs 0 (of_size f)) offset data ! i"
      using overlay_nth [OF i(2)] i(1) stop_eq by (simp del: upt_Suc)
  qed
  moreover have "map of_path (vo_open v') = map of_path (vo_open v)" using u(4) same_volume_paths [OF v2(3)] by simp
  ultimately show ?thesis using fl(1,2) u(1-3,5) n by blast
qed

lemma data_same_file:
  assumes d: "data_same l c c'" and l: "layout_ok l" and xs: "\<forall>x \<in> set xs. is_cluster l x"
  shows "n \<le> length xs * ly_cluster_bytes l \<Longrightarrow> file_bytes (logical_byte c') l xs 0 n = file_bytes (logical_byte c) l xs 0 n"
    "entry_safe (logical_byte c') l at xs = entry_safe (logical_byte c) l at xs"
    "entry_safe (logical_byte c) l at xs \<Longrightarrow> map (logical_byte c') [at..<at + 32] = map (logical_byte c) [at..<at + 32]"
proof -
  show "file_bytes (logical_byte c') l xs 0 n = file_bytes (logical_byte c) l xs 0 n" if "n \<le> length xs * ly_cluster_bytes l"
  proof (intro map_cong refl)
    fix i
    assume "i \<in> set [0..<0 + n]"
    then have "i < length xs * ly_cluster_bytes l" using that by simp
    from file_pos_in [OF l xs this] d show "logical_byte c' (file_pos l xs i) = logical_byte c (file_pos l xs i)" by (auto simp: data_same_def)
  qed
  show "entry_safe (logical_byte c') l at xs = entry_safe (logical_byte c) l at xs" using d by (auto simp: entry_safe_def data_same_def)
  show "map (logical_byte c') [at..<at + 32] = map (logical_byte c) [at..<at + 32]" if "entry_safe (logical_byte c) l at xs"
    using entry_safe_in [OF l that] d by (auto simp: data_same_def)
qed

lemma write_file_ok:
  fixes v :: "'a volume" and slot :: nat
  defines "l \<equiv> ft_layout (vo_fat v)" and "f \<equiv> vo_open v ! slot"
  assumes h: "handle B path v0 = (Inr slot, v)" and v: "ready slot v xs"
    and len: "of_size f \<le> length xs * ly_cluster_bytes l"
    and data: "data \<noteq> []" "offset + length data \<le> MAX_FILE"
    and space: "offset + length data \<le> (length xs + card (free_set (logical_byte (vo_cache v)) l)) * ly_cluster_bytes l"
    and at: "entry_safe (logical_byte (vo_cache v)) l (of_entry_at f) xs"
    and entry: "entry_file (map (logical_byte (vo_cache v)) [of_entry_at f..<of_entry_at f + 32])"
  defines "n \<equiv> max (of_size f) (offset + length data)"
  shows "\<exists>v' ys. write_file B path offset data v0 = (Inr (length data), v') \<and> ready slot v' (xs @ ys) \<and> ft_layout (vo_fat v') = l
    \<and> map of_path (vo_open v') = map of_path (vo_open v) \<and> of_size (vo_open v' ! slot) = n \<and> n \<le> length (xs @ ys) * ly_cluster_bytes l
    \<and> file_bytes (logical_byte (vo_cache v')) l (xs @ ys) 0 n = overlay (file_bytes (logical_byte (vo_cache v)) l xs 0 (of_size f)) offset data"
proof -
  let ?g = "logical_byte (vo_cache v)" and ?stop = "offset + length data" and ?cb = "ly_cluster_bytes l"
  have fo: "file_ok v slot xs" using v by (simp add: ready_def)
  note fd = file_okD [OF fo, folded l_def]
  have op: "opened slot v = (Inr f, v)" using fd(1) by (simp add: opened_def vbind_def vget_def vret_def f_def)
  have "offset < ?stop" using data(1) by simp
  from stop_ok [OF v this space [unfolded l_def]] obtain v1 where
    v1: "(if div_ceil ?stop ?cb > of_clusters f then vbind (room B (of_clusters f)) (\<lambda>rm. if rm \<le> offset then vfail NoSpace else vret (min ?stop rm))
      else vret ?stop) v = (Inr ?stop, v1)" "ready slot v1 xs" "logical_byte (vo_cache v1) = ?g" "ft_layout (vo_fat v1) = l" "vo_open v1 = vo_open v"
    unfolding l_def f_def by blast
  from begin_ready [OF v1(2)] obtain v2 where
    v2: "begin_write B v1 = (Inr (), v2)" "ready slot v2 xs" "vo_open v2 = vo_open v" "ft_layout (vo_fat v2) = l" "data_same l (vo_cache v1) (vo_cache v2)"
    unfolding v1(4,5) by blast
  note ds = data_same_file [OF v2(5) fd(4,5), unfolded v1(3)]
  have f2: "vo_open v2 ! slot = f" by (simp add: v2(3) f_def)
  have "free_set (logical_byte (vo_cache v2)) l = free_set ?g l" using data_same_links(1) [OF v2(5)] v1(3) by simp
  then have sp: "?stop \<le> (length xs + card (free_set (logical_byte (vo_cache v2)) l)) * ?cb" using space by (simp only:)
  have at2: "entry_safe (logical_byte (vo_cache v2)) l (of_entry_at f) xs" using ds(2) at by simp
  have en2: "entry_file (map (logical_byte (vo_cache v2)) [of_entry_at f..<of_entry_at f + 32])" unfolding ds(3) [OF at] by (rule entry)
  from store_ok [OF v2(2), unfolded v2(4) f2, OF len data(2) sp at2 en2, unfolded ds(1) [OF len] v2(3), folded n_def] obtain v3 v4 v5 ys where
    s: "(if offset > of_size f then fill_file B slot (of_size f) (Zeros (offset - of_size f)) else vret ()) v2 = (Inr (), v3)"
    "fill_file B slot offset (Data data) v3 = (Inr (), v4)" "update_entry B slot n v4 = (Inr (), v5)"
    "ready slot v5 (xs @ ys)" "ft_layout (vo_fat v5) = l" "map of_path (vo_open v5) = map of_path (vo_open v)"
    "of_size (vo_open v5 ! slot) = n" "n \<le> length (xs @ ys) * ?cb"
    "file_bytes (logical_byte (vo_cache v5)) l (xs @ ys) 0 n = overlay (file_bytes ?g l xs 0 (of_size f)) offset data" by blast
  have sl: "slice data 0 (?stop - offset) = Some data" by (simp add: slice_def)
  have f5: "file_ok v5 slot (xs @ ys)" using s(4) by (simp add: ready_def)
  note fd5 = file_okD [OF f5, unfolded s(5)]
  have "\<not> (?stop > U64_MAX \<or> ?stop > MAX_FILE)" using data(2) by (simp add: MAX_FILE_def U32_MAX_def U64_MAX_def)
  then obtain op' where op': "write_file B path offset data v0 = run B op' v0" "op' v0 = (Inr (length data), v5)"
    using data(1) h op v1(1) v2(1) s(1-3) sl
    by (simp add: write_file_def Let_def vbind_def cluster_bytes_def vget_def l_def [symmetric] vsome_def vret_def n_def del: if_not_P)
  then obtain c where r: "write_file B path offset data v0 = (Inr (length data), v5\<lparr>vo_cache := c\<rparr>)" "keeps (vo_cache v5) c"
    using run_ok [of op' v0, OF op'(2) fd5(7,3)] by auto
  have "ready slot (v5\<lparr>vo_cache := c\<rparr>) (xs @ ys)"
    using s(4) file_ok_cache [OF f5 r(2)] r(2) keeps_bytes [OF r(2)] by (auto simp: ready_def keeps_def)
  then show ?thesis using r(1) s(5-9) keeps_bytes [OF r(2)]
    by (intro exI [of _ "v5\<lparr>vo_cache := c\<rparr>"] exI [of _ ys]) simp
qed

section \<open>Reading a file\<close>

lemma file_bytes_slice: "take n (drop k (file_bytes g l xs 0 m)) = file_bytes g l xs k (min (m - k) n)"
  by (rule nth_equalityI) (auto simp: min.commute)

lemma read_file_ok:
  fixes v :: "'a volume" and slot :: nat
  defines "l \<equiv> ft_layout (vo_fat v)" and "f \<equiv> vo_open v ! slot"
  assumes h: "handle B path v0 = (Inr slot, v)" and v: "file_ok v slot xs" and len: "of_size f \<le> length xs * ly_cluster_bytes l"
  shows "\<exists>v'. read_file B path k n v0 = (Inr (take n (drop k (file_bytes (logical_byte (vo_cache v)) l xs 0 (of_size f)))), v')
    \<and> file_ok v' slot xs \<and> reads slot v v'"
proof -
  let ?g = "logical_byte (vo_cache v)"
  note fd = file_okD [OF v, folded l_def]
  have op: "opened slot v = (Inr f, v)" using fd(1) by (simp add: opened_def vbind_def vget_def vret_def f_def)
  define m where "m = (\<lambda>slot. vbind (opened slot) (\<lambda>f. if k \<ge> of_size f \<or> n = 0 then vret []
    else vbind cluster_bytes (\<lambda>cb. read_file_loop B slot cb k (min (of_size f - k) n) [])))"
  have "\<exists>v1. m slot v = (Inr (file_bytes ?g l xs k (min (of_size f - k) n)), v1) \<and> file_ok v1 slot xs \<and> reads slot v v1"
  proof (cases "k \<ge> of_size f \<or> n = 0")
    case True
    then have "m slot v = (Inr (file_bytes ?g l xs k (min (of_size f - k) n)), v)" using op by (auto simp: m_def vbind_def vret_def)
    then show ?thesis using v reads_refl [OF v] by blast
  next
    case False
    have "k + min (of_size f - k) n \<le> length xs * ly_cluster_bytes l" using False len by linarith
    from read_file_loop_ok [OF v this [unfolded l_def], of "[]"] obtain v1 where
      "read_file_loop B slot (ly_cluster_bytes l) k (min (of_size f - k) n) [] v = (Inr (file_bytes ?g l xs k (min (of_size f - k) n)), v1)"
      "file_ok v1 slot xs" "reads slot v v1" by (auto simp: l_def)
    then show ?thesis using False op by (auto simp: m_def vbind_def cluster_bytes_def vget_def l_def)
  qed
  then obtain v1 where v1: "m slot v = (Inr (file_bytes ?g l xs k (min (of_size f - k) n)), v1)" "file_ok v1 slot xs" "reads slot v v1" by blast
  have "vbind (handle B path) m v0 = (Inr (file_bytes ?g l xs k (min (of_size f - k) n)), v1)" using h v1(1) by (simp add: vbind_def)
  from run_ok [of "vbind (handle B path) m", OF this file_okD(7,3) [OF v1(2)]] obtain c where
    r: "run B (vbind (handle B path) m) v0 = (Inr (file_bytes ?g l xs k (min (of_size f - k) n)), v1\<lparr>vo_cache := c\<rparr>)" "keeps (vo_cache v1) c" by blast
  have "reads slot v (v1\<lparr>vo_cache := c\<rparr>)"
    using reads_trans [OF fd(1) v1(3) reads_cache [OF file_okD(1) [OF v1(2)] r(2)]] .
  then show ?thesis using r(1) file_ok_cache [OF v1(2) r(2)] unfolding read_file_def file_bytes_slice m_def by blast
qed

end

section \<open>The open file of a path\<close>

definition opens_kept :: "('a, 'd) vol \<Rightarrow> bool" where
  "opens_kept m \<longleftrightarrow> (\<forall>v. vo_open (snd (m v)) = vo_open v)"

lemma opens_kept_bind:
  assumes m: "opens_kept m" and k: "\<And>x. opens_kept (k x)"
  shows "opens_kept (vbind m k)"
  unfolding opens_kept_def
proof
  fix v
  obtain r v1 where r: "m v = (r, v1)" by fastforce
  then have "vo_open v1 = vo_open v" using m unfolding opens_kept_def by (metis snd_conv)
  then show "vo_open (snd (vbind m k v)) = vo_open v" using r k by (cases r) (simp_all add: vbind_def opens_kept_def)
qed

lemma opens_kept_basic:
  "opens_kept (vret x)" "opens_kept (vfail e)" "opens_kept (vget h)" "opens_kept (vsome e z)" "opens_kept (on_cache f)"
  "opens_kept (v_find B d name)" "opens_kept (v_walk B c)" "opens_kept cluster_bytes" "opens_kept (remember path c)" "opens_kept (touch_dir path)"
  by (auto simp: opens_kept_def vret_def vfail_def vget_def vsome_def on_cache_def v_find_def v_walk_def cluster_bytes_def remember_def vmodify_def
      touch_dir_def Let_def split: option.splits prod.splits)

lemma opens_kept_dir_walk: "opens_kept (dir_walk B parts walked c)"
  by (induction parts arbitrary: walked c) (auto simp: Let_def subdir_cluster_def v_layout_def intro!: opens_kept_bind opens_kept_basic)

lemma opens_kept_dir_cluster: "opens_kept (dir_cluster B path)"
  unfolding dir_cluster_def
  by (auto simp: Let_def split: option.split prod.split intro!: opens_kept_bind opens_kept_basic opens_kept_dir_walk)

lemma vbind_assoc: "vbind (vbind m k) h = vbind m (\<lambda>x. vbind (k x) h)"
  by (auto simp: vbind_def fun_eq_iff split: prod.split sum.split)

lemma vbind_ret: "vbind (vret x) k = k x"
  by (simp add: vbind_def vret_def fun_eq_iff)

lemma vbind_fail: "vbind (vfail e) k = vfail e"
  by (simp add: vbind_def vfail_def fun_eq_iff)

text \<open>After \<open>handle\<close> the file of the path is the last of the list, and the only one of that path.\<close>

lemma handle_last:
  fixes B :: "'d blocks"
  assumes h: "handle B path v0 = (Inr slot, v)" and d: "distinct (map of_path (vo_open v0))"
  shows "distinct (map of_path (vo_open v)) \<and> slot + 1 = length (vo_open v) \<and> of_path (vo_open v ! slot) = path"
proof (cases "List.find (\<lambda>f. of_path f = path) (vo_open v0)")
  case None
  then have new: "path \<notin> set (map of_path (vo_open v0))" by (auto simp: find_None_iff)
  define m where "m = (let (parent, name) = split_path path in
    vbind (dir_cluster B parent) (\<lambda>dir. vbind (v_find B dir name) (\<lambda>found. vbind (vsome NotFound found) (\<lambda>found.
      if raw_is_dir (fd_raw found) then vfail IsDir
      else vbind (if unat (raw_cluster (fd_raw found)) = 0 then vret (0, 0) else v_walk B (unat (raw_cluster (fd_raw found)))) (\<lambda>(clusters, lst).
        vbind cluster_bytes (\<lambda>cb. if clusters * cb < unat (raw_size (fd_raw found)) then vfail Corrupt else
          vret (found, clusters, lst)))))))"
  define push :: "found \<times> nat \<times> nat \<Rightarrow> (nat, 'd) vol" where "push = (\<lambda>(found, clusters, lst). push_open \<lparr>of_path = path, of_first = unat (raw_cluster (fd_raw found)),
    of_size = unat (raw_size (fd_raw found)), of_entry_at = fd_at found, of_clusters = clusters, of_last = lst, of_pos = None\<rparr>)"
  have kept: "opens_kept m"
    unfolding m_def by (auto split: prod.split intro!: opens_kept_bind opens_kept_basic opens_kept_dir_cluster)
  have "handle B path v0 = vbind m push v0"
    using None by (simp add: handle_def m_def push_def vbind_def [of "touch_open path"] touch_open_def Let_def vbind_assoc vbind_ret vbind_fail
        if_distrib [of "\<lambda>m. vbind m _"] prod.case_distrib [of "\<lambda>m. vbind m _"] cong: if_cong prod.case_cong split: prod.split)
  then obtain x v1 where x: "m v0 = (Inr x, v1)" "push x v1 = (Inr slot, v)" using h by (auto simp: vbind_def split: prod.splits sum.splits)
  have "vo_open v1 = vo_open v0" using kept x(1) unfolding opens_kept_def by (metis snd_conv)
  moreover obtain found clusters lst where "x = (found, clusters, lst)" by (cases x)
  ultimately show ?thesis
    using x(2) new d distinct_tl [OF d] by (cases "vo_open v0") (auto simp: push_def push_open_def Let_def nth_append map_tl MAX_OPEN_def split: if_splits)
next
  case (Some f)
  then have f: "f \<in> set (vo_open v0)" "of_path f = path" by (auto simp: find_Some_iff)
  have v: "slot = length (vo_open v0) - 1" "vo_open v = remove1 f (vo_open v0) @ [f]"
    using h Some by (auto simp: handle_def vbind_def touch_open_def vret_def)
  obtain a b where ab: "vo_open v0 = a @ f # b" "f \<notin> set a" using split_list_first [OF f(1)] by blast
  then have "remove1 f (vo_open v0) = a @ b" by (simp add: remove1_append)
  then have "distinct (map of_path (f # remove1 f (vo_open v0)))" using d ab(1) by auto
  then show ?thesis using v f by (auto simp: length_remove1 nth_append)
qed

lemma find_append: "List.find P (xs @ ys) = (case List.find P xs of Some x \<Rightarrow> Some x | None \<Rightarrow> List.find P ys)"
  by (induction xs) auto

lemma handle_again:
  assumes "distinct (map of_path (vo_open v))" "slot + 1 = length (vo_open v)" "of_path (vo_open v ! slot) = path"
  shows "handle B path v = (Inr slot, v)"
proof -
  obtain fs f where fs: "vo_open v = fs @ [f]" using assms(2) by (cases "vo_open v" rule: rev_cases) auto
  then have f: "of_path f = path" "slot = length fs" using assms(2,3) by auto
  have "\<forall>x \<in> set fs. of_path x \<noteq> path" using assms(1) fs f by (auto simp: image_iff)
  then have "List.find (\<lambda>f. of_path f = path) fs = None" "f \<notin> set fs" using f by (auto simp: find_None_iff)
  then have "List.find (\<lambda>f. of_path f = path) (vo_open v) = Some f" "remove1 f (vo_open v) = fs"
    using fs f by (simp_all add: remove1_append find_append)
  then show ?thesis using fs f(2) by (simp add: handle_def vbind_def touch_open_def vret_def)
qed

section \<open>Properties\<close>

text \<open>C2 (writing and reading a file): on a device that answers, writing bytes at an offset of a file
  whose chain and directory entry are sound, on a volume with room for them, writes them all, and
  reading the file afterwards, from any place and for any length, gives the old contents with zeros
  up to the offset if it was past the end and the bytes written over them.  New clusters are taken
  only from free ones, so this holds whatever rounds and runs the bytes were moved in.\<close>

theorem file_write_read:
  fixes v0 v :: "bytes volume" and slot :: nat
  defines "l \<equiv> ft_layout (vo_fat v)" and "f \<equiv> vo_open v ! slot" and "g \<equiv> memory.logical_byte (vo_cache v)"
  assumes "handle memory_blocks path v0 = (Inr slot, v)" "distinct (map of_path (vo_open v0))" "memory.ready slot v xs"
    and "of_size f \<le> length xs * ly_cluster_bytes l" "offset + length data \<le> MAX_FILE" "data \<noteq> []"
    and "offset + length data \<le> (length xs + card (free_set g l)) * ly_cluster_bytes l"
    and "entry_safe g l (of_entry_at f) xs" "entry_file (map g [of_entry_at f..<of_entry_at f + 32])"
  shows "\<exists>v'. write_file memory_blocks path offset data v0 = (Inr (length data), v')
    \<and> (\<forall>k n. \<exists>v''. read_file memory_blocks path k n v'
          = (Inr (take n (drop k (overlay (file_bytes g l xs 0 (of_size f)) offset data))), v''))"
proof -
  obtain v' ys where w: "write_file memory_blocks path offset data v0 = (Inr (length data), v')" "memory.ready slot v' (xs @ ys)"
    "ft_layout (vo_fat v') = l" "map of_path (vo_open v') = map of_path (vo_open v)"
    "of_size (vo_open v' ! slot) \<le> length (xs @ ys) * ly_cluster_bytes l"
    "file_bytes (memory.logical_byte (vo_cache v')) l (xs @ ys) 0 (of_size (vo_open v' ! slot)) = overlay (file_bytes g l xs 0 (of_size f)) offset data"
    using memory.write_file_ok [of path v0 slot v xs data offset] assms unfolding l_def f_def g_def by (metis (no_types, lifting))
  note hl = handle_last [OF assms(4,5)]
  have "slot < length (vo_open v')" "length (vo_open v') = length (vo_open v)"
    using w(2) arg_cong [OF w(4), of length] by (simp_all add: memory.ready_def memory.file_ok_def)
  then have "of_path (vo_open v' ! slot) = path" using hl arg_cong [OF w(4), of "\<lambda>xs. xs ! slot"] by simp
  then have "handle memory_blocks path v' = (Inr slot, v')"
    using handle_again [of v' slot path] hl w(4) \<open>length (vo_open v') = length (vo_open v)\<close> by simp
  then have "\<exists>v''. read_file memory_blocks path k n v' = (Inr (take n (drop k (overlay (file_bytes g l xs 0 (of_size f)) offset data))), v'')" for k n
    using memory.read_file_ok [of path v' slot v' "xs @ ys" k n] w(2,3,5,6) by (auto simp: memory.ready_def)
  then show ?thesis using w(1) by blast
qed

text \<open>A volume with one empty file, whose entry is the first of the root directory.\<close>

definition sample_file :: bytes where
  "sample_file = sample_volume[1064960 := 65]"

definition sample_mounted :: "bytes volume" where
  "sample_mounted = \<lparr>vo_cache = set_writable True (cache_new sample_file), vo_fat = fat_new sample_layout 2, vo_now = 0,
     vo_open = [\<lparr>of_path = [65], of_first = 0, of_size = 0, of_entry_at = 1064960, of_clusters = 0, of_last = 0, of_pos = None\<rparr>],
     vo_dirs = [], vo_dirty_at_mount = False, vo_marked = False\<rparr>"

lemma sample_file_byte: "p < 67108864 \<Longrightarrow> memory.logical_byte (vo_cache sample_mounted) p = sample_file ! p"
proof -
  assume "p < 67108864"
  then have "p div SECTOR < length sample_file div SECTOR" by (simp add: sample_file_def sample_volume_def SECTOR_def)
  from cache_new_byte [OF this] show ?thesis by (simp add: sample_mounted_def memory.logical_byte_def memory.set_writable_ok)
qed

lemma sample_file_links:
  "link_at (memory.logical_byte (vo_cache sample_mounted)) sample_layout 2 = End"
  "link_at (memory.logical_byte (vo_cache sample_mounted)) sample_layout 3 = Free"
proof -
  have two: "fat_entry (memory.logical_byte (vo_cache sample_mounted)) sample_layout 0 2 = 0x0FFFFFFF"
    by (simp add: fat_entry_def fat_offset_def sample_layout_def BLOCK_def sample_file_byte Let_def)
      (simp add: sample_file_def sample_volume_def u32_of_bytes_def)
  have three: "fat_entry (memory.logical_byte (vo_cache sample_mounted)) sample_layout 0 3 = 0"
    by (simp add: fat_entry_def fat_offset_def sample_layout_def BLOCK_def sample_file_byte Let_def)
      (simp add: sample_file_def sample_volume_def u32_of_bytes_def)
  show "link_at (memory.logical_byte (vo_cache sample_mounted)) sample_layout 2 = End"
    using two by (simp add: link_at_def read_copy_def sample_layout_def classify_def FAT_MASK_def FAT_FREE_def FAT_BAD_def END_MIN_def is_cluster_def)
  show "link_at (memory.logical_byte (vo_cache sample_mounted)) sample_layout 3 = Free"
    using three by (simp add: link_at_def read_copy_def sample_layout_def classify_def FAT_MASK_def FAT_FREE_def)
qed

lemma sample_ready: "memory.ready 0 sample_mounted []"
proof -
  have "memory.blocks_of (vo_cache sample_mounted) = 131072"
    by (simp add: memory_blocks_of sample_mounted_def set_writable_def cache_new_def sample_file_def sample_volume_def SECTOR_def)
  moreover have "layout_ok sample_layout" "ly_sectors sample_layout = 131072"
    using boot_parse_ok [OF sample_boot_parse] by (simp_all add: sample_layout_def)
  ultimately have "memory.volume_ok sample_layout (vo_cache sample_mounted)" "memory.in_u64 (vo_cache sample_mounted)"
    by (simp_all add: memory.volume_ok_def memory.in_u64_def memory.set_writable_ok memory.cache_new_ok BLOCK_def U64_MAX_def sample_mounted_def)
  moreover have "is_cluster sample_layout 2" by (simp add: is_cluster_def sample_layout_def)
  ultimately show ?thesis
    by (simp add: memory.ready_def memory.file_ok_def open_ok_def fat_ok_def)
      (simp add: sample_mounted_def fat_new_def set_writable_def is_cluster_def)
qed

theorem file_write_read_witness:
  "\<exists>v' v''. write_file memory_blocks [65] 0 [104, 105] sample_mounted = (Inr 2, v')
    \<and> read_file memory_blocks [65] 0 9 v' = (Inr [104, 105], v'')"
proof -
  let ?g = "memory.logical_byte (vo_cache sample_mounted)"
  have h: "handle memory_blocks [65] sample_mounted = (Inr 0, sample_mounted)"
    by (rule handle_again) (simp_all add: sample_mounted_def)
  have l: "ft_layout (vo_fat sample_mounted) = sample_layout" by (simp add: sample_mounted_def fat_new_def)
  have f: "vo_open sample_mounted ! 0 = \<lparr>of_path = [65], of_first = 0, of_size = 0, of_entry_at = 1064960, of_clusters = 0, of_last = 0, of_pos = None\<rparr>"
    by (simp add: sample_mounted_def)
  have "3 \<in> free_set ?g sample_layout" using sample_file_links(2) by (simp add: free_set_def is_cluster_def sample_layout_def)
  then have "1 \<le> card (free_set ?g sample_layout)" using finite_free_set by (metis One_nat_def Suc_leI card_gt_0_iff empty_iff)
  then have space: "0 + length [104, 105 :: u8] \<le> (length ([] :: nat list) + card (free_set ?g sample_layout)) * ly_cluster_bytes sample_layout"
    by (simp add: sample_layout_def)
  have at: "entry_safe ?g sample_layout 1064960 []"
    unfolding entry_safe_def using sample_file_links(1)
    by (intro bexI [of _ 2]) (simp_all add: is_cluster_def cluster_offset_def sample_layout_def BLOCK_def fat_limit_def)
  have b0: "raw_byte (map ?g [1064960..<1064960 + 32]) 0 = 65" "raw_attr (map ?g [1064960..<1064960 + 32]) = 0"
    by (simp_all add: raw_byte_def raw_attr_def sample_file_byte) (simp_all add: sample_file_def sample_volume_def)
  then have entry: "entry_file (map ?g [1064960..<1064960 + 32])"
    by (simp add: entry_file_def raw_is_long_def raw_is_dir_def FREE_MARK_def END_MARK_def ATTR_LONG_NAME_MASK_def ATTR_LONG_NAME_def ATTR_DIRECTORY_def)
  have d: "distinct (map of_path (vo_open sample_mounted))" by (simp add: sample_mounted_def)
  have len: "0 \<le> length ([] :: nat list) * ly_cluster_bytes sample_layout" "0 + length [104, 105 :: u8] \<le> MAX_FILE" "[104, 105 :: u8] \<noteq> []"
    by (simp_all add: MAX_FILE_def U32_MAX_def)
  from file_write_read [OF h d sample_ready, unfolded l f open_file.select_convs, OF len space at entry]
  obtain v' where w: "write_file memory_blocks [65] 0 [104, 105] sample_mounted = (Inr (length [104, 105 :: u8]), v')"
    "\<forall>k n. \<exists>v''. read_file memory_blocks [65] k n v' = (Inr (take n (drop k (overlay (file_bytes ?g sample_layout [] 0 0) 0 [104, 105]))), v'')"
    by blast
  have o: "take 9 (drop 0 (overlay (file_bytes ?g sample_layout [] 0 0) 0 [104, 105 :: u8])) = [104, 105]" by (simp add: overlay_def)
  obtain v'' where "read_file memory_blocks [65] 0 9 v' = (Inr [104, 105], v'')"
    using w(2) [THEN spec, THEN spec, of 0 9] unfolding o by blast
  moreover have "length [104, 105 :: u8] = 2" by simp
  ultimately show ?thesis using w(1) by auto
qed

end
