(* ===== verification/Fat_Path.thy ===== *)
theory Fat_Path
  imports Fat_Store
begin

text \<open>
  Files by path: what a path of names leads to in the tree of directories on a volume, and that a
  volume just mounted opens and reads the file there.
\<close>

section \<open>The tree of directories\<close>

definition dir_chain :: "(nat \<Rightarrow> u8) \<Rightarrow> layout \<Rightarrow> nat list \<Rightarrow> bool" where
  "dir_chain g l ds \<longleftrightarrow> is_chain (link_at g l) ds \<and> is_cluster l (hd ds) \<and> length ds * slots_per l \<le> MAX_ENTRIES"

definition dir_lookup :: "(nat \<Rightarrow> u8) \<Rightarrow> layout \<Rightarrow> nat list \<Rightarrow> ustring \<Rightarrow> found option" where
  "dir_lookup g l ds name = List.find (\<lambda>f. names_entry f name (short_of name)) (dir_entries (dir_items g l ds))"

inductive dir_at :: "(nat \<Rightarrow> u8) \<Rightarrow> layout \<Rightarrow> nat \<Rightarrow> ustring list \<Rightarrow> nat \<Rightarrow> bool" for g l where
  dir_here: "dir_at g l c [] c"
| dir_down: "dir_chain g l ds \<Longrightarrow> dir_lookup g l ds part = Some f \<Longrightarrow> raw_is_dir (fd_raw f) \<Longrightarrow>
    is_cluster l (unat (raw_cluster (fd_raw f))) \<Longrightarrow> dir_at g l (unat (raw_cluster (fd_raw f))) parts c \<Longrightarrow>
    dir_at g l (hd ds) (part # parts) c"

inductive_cases dir_at_NilE: "dir_at g l c [] c'"

text \<open>The entry of a file and the clusters of its contents.\<close>

definition file_at :: "(nat \<Rightarrow> u8) \<Rightarrow> layout \<Rightarrow> ustring \<Rightarrow> found \<Rightarrow> nat list \<Rightarrow> bool" where
  "file_at g l path f xs \<longleftrightarrow> (\<exists>ds. dir_at g l (ly_root_cluster l) (path_parts (fst (split_path path))) (hd ds) \<and> dir_chain g l ds
     \<and> dir_lookup g l ds (snd (split_path path)) = Some f \<and> \<not> raw_is_dir (fd_raw f)
     \<and> (if unat (raw_cluster (fd_raw f)) = 0 then xs = []
        else is_chain (link_at g l) xs \<and> hd xs = unat (raw_cluster (fd_raw f)) \<and> is_cluster l (hd xs))
     \<and> unat (raw_size (fd_raw f)) \<le> length xs * ly_cluster_bytes l)"

section \<open>Opening by path\<close>

context answering_device
begin

text \<open>A step that looks: the contents, the table and the open files stay.\<close>

definition looks :: "'a volume \<Rightarrow> 'a volume \<Rightarrow> bool" where
  "looks v v' \<longleftrightarrow> (\<exists>c ds. keeps (vo_cache v) c \<and> v' = v\<lparr>vo_cache := c, vo_dirs := ds\<rparr>)"

lemma looks_trans: "looks v v1 \<Longrightarrow> looks v1 v2 \<Longrightarrow> looks v v2"
  unfolding looks_def using keeps_trans by fastforce

lemma looks_cache: "keeps (vo_cache v) c \<Longrightarrow> looks v (v\<lparr>vo_cache := c\<rparr>)"
  unfolding looks_def by (rule exI [of _ c], rule exI [of _ "vo_dirs v"]) simp

definition sound :: "layout \<Rightarrow> (nat \<Rightarrow> u8) \<Rightarrow> 'a volume \<Rightarrow> bool" where
  "sound l g v \<longleftrightarrow> ft_layout (vo_fat v) = l \<and> volume_ok l (vo_cache v) \<and> in_u64 (vo_cache v) \<and> logical_byte (vo_cache v) = g"

lemma looks_refl: "sound l g v \<Longrightarrow> looks v v"
  using looks_cache [OF keeps_refl, of v] by (simp add: sound_def volume_ok_def)

lemma looks_sound: "looks v v' \<Longrightarrow> sound l g v \<Longrightarrow> sound l g v'"
  using volume_ok_keeps in_u64_keeps keeps_bytes by (auto simp: looks_def sound_def)

lemma v_find_ok:
  assumes v: "sound l g v" and d: "dir_chain g l ds"
  shows "\<exists>v'. v_find B (hd ds) name v = (Inr (dir_lookup g l ds name), v') \<and> looks v v'"
proof -
  have "dir_ok l (vo_cache v) ds" using v d by (simp add: dir_ok_def sound_def dir_chain_def)
  from dir_find_ok [OF this, of name] v obtain c where
    "dir_find B l (vo_cache v) (hd ds) name = (Inr (dir_lookup g l ds name), c)" "keeps (vo_cache v) c"
    by (auto simp: sound_def dir_lookup_def)
  then show ?thesis using v looks_cache by (auto simp: v_find_def on_cache_def sound_def)
qed

lemma dir_walk_ok:
  assumes "dir_at g l c parts c'"
  shows "sound l g v \<Longrightarrow> \<exists>v'. dir_walk B parts walked c v = (Inr c', v') \<and> looks v v'"
  using assms
proof (induction arbitrary: v walked rule: dir_at.induct)
  case (dir_here c)
  then show ?case using looks_refl by (simp add: vret_def)
next
  case (dir_down ds part f parts c)
  obtain v1 where v1: "v_find B (hd ds) part v = (Inr (Some f), v1)" "looks v v1" using v_find_ok [OF dir_down.prems dir_down.hyps(1)] dir_down.hyps(2) by metis
  have s1: "sound l g v1" by (rule looks_sound [OF v1(2) dir_down.prems])
  let ?c = "unat (raw_cluster (fd_raw f))" and ?w = "fat_join walked (fd_name f)"
  obtain v2 where v2: "remember ?w ?c v1 = (Inr (), v2)" "looks v1 v2"
  proof -
    have "keeps (vo_cache v1) (vo_cache v1)" using s1 keeps_refl by (simp add: sound_def volume_ok_def)
    then have "looks v1 (v1\<lparr>vo_dirs := ds\<rparr>)" for ds unfolding looks_def by (intro exI [of _ "vo_cache v1"] exI [of _ ds]) simp
    then show ?thesis using that by (simp add: remember_def vmodify_def Let_def)
  qed
  obtain v3 where v3: "dir_walk B parts ?w ?c v2 = (Inr c, v3)" "looks v2 v3"
    using dir_down.IH [OF looks_sound [OF v2(2) s1]] by blast
  have "dir_walk B (part # parts) walked (hd ds) v = (Inr c, v3)"
    using v1(1) v2(1) v3(1) dir_down.hyps(3,4) s1
    by (simp add: vbind_def vsome_def vret_def subdir_cluster_def v_layout_def vget_def Let_def sound_def)
  then show ?case using looks_trans [OF v1(2) looks_trans [OF v2(2) v3(2)]] by blast
qed

lemma dir_cluster_ok:
  assumes "sound l g v" "vo_dirs v = []" "dir_at g l (ly_root_cluster l) (path_parts path) c"
  shows "\<exists>v'. dir_cluster B path v = (Inr c, v') \<and> looks v v'"
proof (cases "path = []")
  case True
  then have "c = ly_root_cluster l" using assms(3) by (auto simp: path_parts.simps elim: dir_at_NilE)
  then show ?thesis using True assms(1) looks_refl [OF assms(1)]
    by (auto simp: dir_cluster_def vbind_def vget_def vret_def sound_def)
next
  case False
  then show ?thesis using dir_walk_ok [OF assms(3,1), of "[]"] assms(1,2)
    by (simp add: dir_cluster_def vbind_def vget_def touch_dir_def deepest_def sound_def)
qed

lemma fat_walk_ok:
  assumes v: "volume_ok l c" "in_u64 c" and xs: "is_chain (link_at (logical_byte c) l) xs" "is_cluster l (hd xs)"
  shows "\<exists>c'. fat_walk B l c (hd xs) = (Inr (length xs, last xs), c') \<and> keeps c c'"
proof -
  obtain r c' where w: "walk_loop B l c 1 (hd xs) = (r, c')" by fastforce
  have "1 + length xs \<le> ly_clusters l + 1"
    using clusters_bound [OF is_chain_distinct [OF xs(1)] is_chain_clusters [OF xs]] by simp
  then have "r = Inr (length xs, last xs)" using walk_loop_answers [OF v xs(2) w] xs(1) by auto
  moreover have "keeps c c'" using walk_loop_spec [OF _ w] v(1) by (simp add: volume_ok_def)
  ultimately show ?thesis using w xs(2) by (simp add: fat_walk_def)
qed

lemma handle_ok:
  assumes v: "sound l g v" "vo_dirs v = []" "vo_open v = []" and f: "file_at g l path f xs"
  shows "\<exists>v' w. handle B path v = (Inr 0, v') \<and> looks v w \<and> v' = w\<lparr>vo_open := [\<lparr>of_path = path, of_first = unat (raw_cluster (fd_raw f)),
      of_size = unat (raw_size (fd_raw f)), of_entry_at = fd_at f, of_clusters = length xs,
      of_last = (if xs = [] then 0 else last xs), of_pos = None\<rparr>]\<rparr> \<and> file_ok v' 0 xs"
proof -
  obtain parent name where sp: "split_path path = (parent, name)" by fastforce
  obtain ds where ds: "dir_at g l (ly_root_cluster l) (path_parts parent) (hd ds)" "dir_chain g l ds" "dir_lookup g l ds name = Some f"
    "\<not> raw_is_dir (fd_raw f)" "unat (raw_size (fd_raw f)) \<le> length xs * ly_cluster_bytes l"
    and xs: "if unat (raw_cluster (fd_raw f)) = 0 then xs = []
        else is_chain (link_at g l) xs \<and> hd xs = unat (raw_cluster (fd_raw f)) \<and> is_cluster l (hd xs)"
    using f sp by (auto simp: file_at_def)
  obtain v1 where v1: "dir_cluster B parent v = (Inr (hd ds), v1)" "looks v v1" using dir_cluster_ok [OF v(1,2) ds(1)] by blast
  have s1: "sound l g v1" by (rule looks_sound [OF v1(2) v(1)])
  obtain v2 where v2: "v_find B (hd ds) name v1 = (Inr (Some f), v2)" "looks v1 v2" using v_find_ok [OF s1 ds(2), of name] ds(3) by metis
  have s2: "sound l g v2" by (rule looks_sound [OF v2(2) s1])
  let ?first = "unat (raw_cluster (fd_raw f))" and ?last = "if xs = [] then 0 else last xs"
  obtain v3 where v3: "(if ?first = 0 then vret (0, 0) else v_walk B ?first) v2 = (Inr (length xs, ?last), v3)" "looks v2 v3"
  proof (cases "?first = 0")
    case True
    then show ?thesis using that xs looks_refl [OF s2] by (simp add: vret_def)
  next
    case False
    then have x: "is_chain (link_at g l) xs" "hd xs = ?first" "is_cluster l (hd xs)" using xs by auto
    have "is_chain (link_at (logical_byte (vo_cache v2)) l) xs" using x(1) s2 by (simp add: sound_def)
    from fat_walk_ok [OF _ _ this x(3)] s2 obtain c where "fat_walk B l (vo_cache v2) (hd xs) = (Inr (length xs, last xs), c)" "keeps (vo_cache v2) c"
      by (auto simp: sound_def)
    moreover have "xs \<noteq> []" using x(1) by auto
    ultimately show ?thesis using that x(2) False s2 looks_cache by (simp add: v_walk_def on_cache_def sound_def)
  qed
  have lk: "looks v v3" using looks_trans [OF v1(2) looks_trans [OF v2(2) v3(2)]] .
  have s3: "sound l g v3" by (rule looks_sound [OF v3(2) s2])
  let ?f = "\<lparr>of_path = path, of_first = ?first, of_size = unat (raw_size (fd_raw f)), of_entry_at = fd_at f, of_clusters = length xs,
      of_last = ?last, of_pos = None\<rparr>"
  have o3: "vo_open v3 = []" using lk v(3) by (auto simp: looks_def)
  have "handle B path v = (Inr 0, v3\<lparr>vo_open := [?f]\<rparr>)"
    using v(3) v1(1) v2(1) v3(1) sp ds(4,5) s3 o3
    by (simp add: handle_def vbind_def touch_open_def vsome_def vret_def Let_def cluster_bytes_def vget_def push_open_def MAX_OPEN_def sound_def del: if_not_P)
  moreover have "open_ok g l ?f xs"
    using xs is_chain_clusters [of g l xs] by (auto simp: open_ok_def split: if_splits)
  then have "file_ok (v3\<lparr>vo_open := [?f]\<rparr>) 0 xs" using s3 by (simp add: file_ok_def sound_def)
  ultimately show ?thesis using lk by blast
qed

section \<open>Mounting\<close>

lemma mount_ok:
  assumes l: "layout_ok l" "ly_sectors l \<le> bk_count B d" and u: "bk_count B d * BLOCK \<le> U64_MAX"
  shows "\<exists>v. mount B d l now = Inr v \<and> sound l (logical_byte (cache_new d)) v \<and> vo_open v = [] \<and> vo_dirs v = []
    \<and> fat_ok (logical_byte (cache_new d)) (vo_fat v)"
proof -
  have ok: "volume_ok l (cache_new d)" "in_u64 (cache_new d)"
    using l u cache_new_ok by (simp_all add: volume_ok_def in_u64_def blocks_of_def cache_new_def)
  have "\<exists>hint c. (case ly_fsinfo l of None \<Rightarrow> (Inr FSI_UNKNOWN, cache_new d)
      | Some sector \<Rightarrow> (case read_at B (cache_new d) (sector * BLOCK) BLOCK of
           (Inl e, c) \<Rightarrow> (Inl (fs_of_cache e), c)
         | (Inr bs, c) \<Rightarrow> (Inr (case fsinfo_hints bs of Some (_, next) \<Rightarrow> unat next | None \<Rightarrow> FSI_UNKNOWN), c))) = (Inr hint, c)
    \<and> keeps (cache_new d) c"
  proof (cases "ly_fsinfo l")
    case None
    then show ?thesis using keeps_refl ok(1) by (simp add: volume_ok_def)
  next
    case (Some s)
    have "s + 1 \<le> ly_sectors l" using l(1) Some by (auto simp: layout_ok_def)
    then have "(s + 1) * BLOCK \<le> blocks_of (cache_new d) * BLOCK" using ok(1) by (intro mult_le_mono1) (simp add: volume_ok_def)
    then obtain bs c where rd: "read_at B (cache_new d) (s * BLOCK) BLOCK = (Inr bs, c)"
      using read_at_ok [of "cache_new d" "s * BLOCK" BLOCK] ok by (auto simp: volume_ok_def)
    then show ?thesis using Some read_at_spec [OF _ rd] ok(1) by (simp add: volume_ok_def)
  qed
  then obtain hint c where h: "(case ly_fsinfo l of None \<Rightarrow> (Inr FSI_UNKNOWN, cache_new d)
      | Some sector \<Rightarrow> (case read_at B (cache_new d) (sector * BLOCK) BLOCK of
           (Inl e, c) \<Rightarrow> (Inl (fs_of_cache e), c)
         | (Inr bs, c) \<Rightarrow> (Inr (case fsinfo_hints bs of Some (_, next) \<Rightarrow> unat next | None \<Rightarrow> FSI_UNKNOWN), c))) = (Inr hint, c)"
    "keeps (cache_new d) c" by blast
  have ok1: "volume_ok l c" "in_u64 c" using volume_ok_keeps [OF ok(1) h(2)] in_u64_keeps [OF h(2)] ok(2) by simp_all
  have "read_copy l < ly_fats l" "1 < fat_limit l" using copies_in(1,2) [OF l(1)] by (auto simp: fat_limit_def)
  from read_raw_ok [OF ok1 this] obtain x c2 where rr: "read_raw B l c (read_copy l) 1 = (Inr x, c2)" by blast
  have k: "keeps c c2" using read_raw_spec(1) [OF _ rr] ok1(1) by (simp add: volume_ok_def)
  have ok2: "volume_ok l c2" "in_u64 c2" "logical_byte c2 = logical_byte (cache_new d)"
    using volume_ok_keeps [OF ok1(1) k] in_u64_keeps [OF k] ok1(2) keeps_bytes [OF k] keeps_bytes [OF h(2)] by simp_all
  have "is_cluster l 2" using l(1) by (auto simp: layout_ok_def is_cluster_def MIN_CLUSTERS_def)
  then have "fat_ok g (fat_new l hint)" for g by (simp add: fat_ok_def fat_new_def)
  then show ?thesis using h(1) rr ok2 unfolding mount_def Let_def h(1)
    by (simp add: fat_clean_def sound_def fat_new_def)
qed

end

section \<open>Properties\<close>

text \<open>C13 (files by path): on a device that answers, a volume with a sound layout mounts, and reading the
  file a path names, from any place and for any length, gives the bytes of its clusters in the order
  of its chain, up to the length its directory entry has; nothing on the volume changes.  The path is
  followed through the directories as the entries on the volume name them.\<close>

theorem mounted_file_reads:
  fixes d :: bytes
  defines "g \<equiv> memory.logical_byte (cache_new d)"
  assumes "layout_ok l" "ly_sectors l \<le> bk_count memory_blocks d" "bk_count memory_blocks d * BLOCK \<le> U64_MAX" "file_at g l path f xs"
  shows "\<exists>v v'. mount memory_blocks d l now = Inr v \<and> memory.logical_byte (vo_cache v') = g
    \<and> read_file memory_blocks path k n v = (Inr (take n (drop k (file_bytes g l xs 0 (unat (raw_size (fd_raw f)))))), v')"
proof -
  obtain v where v: "mount memory_blocks d l now = Inr v" "memory.sound l g v" "vo_open v = []" "vo_dirs v = []"
    using memory.mount_ok [OF assms(2-4), of now] by (auto simp: g_def)
  obtain v1 w where h: "handle memory_blocks path v = (Inr 0, v1)" "memory.looks v w" "memory.file_ok v1 0 xs"
    "v1 = w\<lparr>vo_open := [\<lparr>of_path = path, of_first = unat (raw_cluster (fd_raw f)), of_size = unat (raw_size (fd_raw f)), of_entry_at = fd_at f,
      of_clusters = length xs, of_last = (if xs = [] then 0 else last xs), of_pos = None\<rparr>]\<rparr>"
    using memory.handle_ok [OF v(2,4,3) assms(5)] by blast
  have "memory.sound l g w" by (rule memory.looks_sound [OF h(2) v(2)])
  then have s: "ft_layout (vo_fat v1) = l" "memory.logical_byte (vo_cache v1) = g" "of_size (vo_open v1 ! 0) = unat (raw_size (fd_raw f))"
    using h(4) by (simp_all add: memory.sound_def)
  have "unat (raw_size (fd_raw f)) \<le> length xs * ly_cluster_bytes l" using assms(5) by (auto simp: file_at_def)
  then obtain v' where "read_file memory_blocks path k n v = (Inr (take n (drop k (file_bytes g l xs 0 (unat (raw_size (fd_raw f)))))), v')"
    "memory.reads 0 v1 v'"
    using memory.read_file_ok [OF h(1,3), of k n] s by auto
  then show ?thesis using v(1) memory.reads_same(2) [of 0 v1 v'] s(2) by auto
qed

text \<open>A volume with the file \<open>A\<close> of two bytes in its root directory.\<close>

definition named_record :: raw where
  "named_record = [65, 32, 32, 32, 32, 32, 32, 32, 32, 32, 32, 0, 0, 0, 0, 0, 0, 0, 0, 0, 0, 0, 0, 0, 0, 0, 3, 0, 2, 0, 0, 0]"

definition named_volume :: bytes where
  "named_volume = replicate 16392 0 @ [0xFF, 0xFF, 0xFF, 0x0F, 0xFF, 0xFF, 0xFF, 0x0F] @ replicate 1048560 0
     @ named_record @ replicate 480 0 @ [104, 105] @ replicate 66043390 0"

definition named_found :: found where
  "named_found = \<lparr>fd_name = [65], fd_raw = named_record, fd_index = 0, fd_at = 1064960,
     fd_long_at = replicate MAX_LONG_ENTRIES 0, fd_long_count = 0\<rparr>"

lemma named_volume_byte:
  assumes "p < 67108864"
  shows "memory.logical_byte (cache_new named_volume) p = named_volume ! p"
proof -
  have "p div SECTOR < length named_volume div SECTOR" using assms by (simp add: named_volume_def named_record_def SECTOR_def)
  from cache_new_byte [OF this] show ?thesis .
qed

lemma named_links:
  "link_at (memory.logical_byte (cache_new named_volume)) sample_layout 2 = End"
  "link_at (memory.logical_byte (cache_new named_volume)) sample_layout 3 = End"
proof -
  have "fat_entry (memory.logical_byte (cache_new named_volume)) sample_layout 0 2 = 0x0FFFFFFF"
    "fat_entry (memory.logical_byte (cache_new named_volume)) sample_layout 0 3 = 0x0FFFFFFF"
    by (simp_all add: fat_entry_def fat_offset_def sample_layout_def BLOCK_def named_volume_byte Let_def)
      (simp_all add: named_volume_def nth_append u32_of_bytes_def)
  then show "link_at (memory.logical_byte (cache_new named_volume)) sample_layout 2 = End"
    "link_at (memory.logical_byte (cache_new named_volume)) sample_layout 3 = End"
    by (simp_all add: link_at_def read_copy_def sample_layout_def classify_def FAT_MASK_def FAT_FREE_def FAT_BAD_def END_MIN_def is_cluster_def)
qed

lemma named_slot:
  "scan_slot dir_start 0 1064960 named_record = (Some (Entry named_found), dir_start\<lparr>ds_long := long_reset long_new\<rparr>)"
  by (simp add: scan_slot_def dir_start_def named_record_def raw_byte_def END_MARK_def FREE_MARK_def raw_is_long_def raw_attr_def
      ATTR_LONG_NAME_MASK_def ATTR_LONG_NAME_def ATTR_VOLUME_ID_def raw_short_def long_take_def long_new_def DOT_def DOTDOT_def raw_is_volume_def
      shown_def unpadded_def oem_char_def raw_lower_def named_found_def Let_def LOWER_BASE_def)

lemma named_lookup: "dir_lookup (memory.logical_byte (cache_new named_volume)) sample_layout [2] [65] = Some named_found"
proof -
  let ?g = "memory.logical_byte (cache_new named_volume)"
  have per: "length [2 :: nat] * slots_per sample_layout = 16" by (simp add: slots_per_def sample_layout_def ENTRY_BYTES_def)
  have at: "slot_at sample_layout [2] 0 = 1064960" "slot_at sample_layout [2] 1 = 1064992"
    by (simp_all add: slot_at_def slots_per_def cluster_offset_def is_cluster_def sample_layout_def BLOCK_def ENTRY_BYTES_def)
  have "map ?g [1064960..<1064960 + ENTRY_BYTES] = named_record"
    by (simp add: ENTRY_BYTES_def upt_conv_Cons named_volume_byte) (simp add: named_volume_def nth_append named_record_def)
  then have s0: "chain_slot ?g sample_layout [2] 0 = (0, 1064960, named_record)" by (simp add: chain_slot_def at)
  have "?g 1064992 = 0" by (simp add: named_volume_byte) (simp add: named_volume_def nth_append named_record_def)
  moreover have "[1064992..<1064992 + ENTRY_BYTES] = 1064992 # [1064993..<1064992 + ENTRY_BYTES]" by (simp add: ENTRY_BYTES_def upt_conv_Cons)
  ultimately have s1: "chain_slot ?g sample_layout [2] 1 = (1, 1064992, 0 # map ?g [1064993..<1064992 + ENTRY_BYTES])"
    unfolding chain_slot_def at(2) by simp
  have "[0..<16] = 0 # 1 # [2..<16::nat]" by (simp add: upt_conv_Cons)
  then have "chain_slots ?g sample_layout [2] = chain_slot ?g sample_layout [2] 0 # chain_slot ?g sample_layout [2] 1
      # map (chain_slot ?g sample_layout [2]) [2..<16]"
    unfolding chain_slots_def per by simp
  then have "dir_items ?g sample_layout [2] = Entry named_found # EndSlot 1 # map FreeSlot [2..<16]"
    unfolding dir_items_def s0 s1
    by (simp add: named_slot) (simp add: scan_slot_def dir_start_def raw_byte_def END_MARK_def scan_ended comp_def chain_slot_def)
  moreover have "names_entry named_found [65] z" for z by (simp add: names_entry_def same_name_def named_found_def)
  ultimately show ?thesis by (simp add: dir_lookup_def dir_entries_def List.map_filter_simps)
qed

theorem mounted_file_reads_witness:
  "\<exists>v v'. mount memory_blocks named_volume sample_layout 0 = Inr v \<and> read_file memory_blocks [65] 0 100 v = (Inr [104, 105], v')"
proof -
  let ?g = "memory.logical_byte (cache_new named_volume)"
  have len: "length named_volume = 67108864" by (simp add: named_volume_def named_record_def)
  have l: "layout_ok sample_layout" "ly_sectors sample_layout \<le> bk_count memory_blocks named_volume" "bk_count memory_blocks named_volume * BLOCK \<le> U64_MAX"
    using boot_parse_ok [OF sample_boot_parse] len by (simp_all add: memory_blocks_def sample_layout_def SECTOR_def BLOCK_def U64_MAX_def)
  have raw: "unat (raw_cluster (fd_raw named_found)) = 3" "unat (raw_size (fd_raw named_found)) = 2" "\<not> raw_is_dir (fd_raw named_found)"
    by (simp_all add: named_found_def named_record_def raw_cluster_def raw_size_def raw_is_dir_def raw_attr_def raw_byte_def ATTR_DIRECTORY_def
        le16_def le32_def u16_of_bytes_def u32_of_bytes_def slice_def)
  have "split_path [65] = ([], [65])" by (simp add: split_path_def rsplit_once_def)
  then have "file_at ?g sample_layout [65] named_found [3]"
    unfolding file_at_def using named_links named_lookup raw dir_here
    by (auto simp: dir_chain_def slots_per_def sample_layout_def is_cluster_def ENTRY_BYTES_def MAX_ENTRIES_def path_parts.simps intro!: exI [of _ "[2]"])
  from mounted_file_reads [OF l this, where now = 0 and k = 0 and n = 100, unfolded raw(2)] obtain v v' where
    "mount memory_blocks named_volume sample_layout 0 = Inr v"
    "read_file memory_blocks [65] 0 100 v = (Inr (take 100 (drop 0 (file_bytes ?g sample_layout [3] 0 2))), v')" by blast
  moreover have "take 100 (drop 0 (file_bytes ?g sample_layout [3] 0 2)) = [104, 105]"
    by (simp add: upt_rec numeral_2_eq_2 file_pos_def cluster_offset_def is_cluster_def sample_layout_def BLOCK_def named_volume_byte)
      (simp add: named_volume_def nth_append named_record_def)
  ultimately show ?thesis by auto
qed

end
