(* ===== verification/Net_Wire.thy ===== *)
theory Net_Wire
  imports Prelude
begin

text \<open>
  What the network stack puts on the wire: Ethernet frames (\<open>kernel/src/net/ether.rs\<close>), the
  ones' complement checksum, the IPv4 header and its addresses (\<open>kernel/src/net/ip.rs\<close>), ICMP
  messages (\<open>kernel/src/net/icmp.rs\<close>) and UDP datagrams (\<open>kernel/src/net/udp.rs\<close>), with the
  round trips between building and parsing and what the checksum catches.

  Byte strings are lists of 8-bit words.  The running sum is exact: the kernel is built with
  overflow checks, and \<open>net_sum_fits\<close> shows that no byte string the stack sums reaches the
  limit of \<open>u32\<close>.
\<close>

section \<open>Byte order\<close>

definition u16_from_be :: "u8 \<Rightarrow> u8 \<Rightarrow> u16" where
  "u16_from_be a b = push_bit 8 (ucast a) OR ucast b"

definition be16 :: "u16 \<Rightarrow> bytes" where
  "be16 v = [ucast (drop_bit 8 v), ucast v]"

definition u32_from_be :: "u8 \<Rightarrow> u8 \<Rightarrow> u8 \<Rightarrow> u8 \<Rightarrow> u32" where
  "u32_from_be a b c d =
     push_bit 24 (ucast a) OR push_bit 16 (ucast b) OR push_bit 8 (ucast c) OR ucast d"

definition be32 :: "u32 \<Rightarrow> bytes" where
  "be32 v = [ucast (drop_bit 24 v), ucast (drop_bit 16 v), ucast (drop_bit 8 v), ucast v]"

text \<open>\<open>out[at..at + data.len()].copy_from_slice(data)\<close>, for a range inside \<open>out\<close>.\<close>

definition copy_into :: "bytes \<Rightarrow> nat \<Rightarrow> bytes \<Rightarrow> bytes" where
  "copy_into out at data = take at out @ data @ drop (at + length data) out"

section \<open>Ethernet frames\<close>

definition ETHER_HEADER_LEN :: nat where
  "ETHER_HEADER_LEN = 14"

definition MIN_FRAME_LEN :: nat where
  "MIN_FRAME_LEN = 60"

definition MTU :: nat where
  "MTU = 1500"

definition ETHERTYPE_IPV4 :: u16 where
  "ETHERTYPE_IPV4 = 0x0800"

definition ETHERTYPE_ARP :: u16 where
  "ETHERTYPE_ARP = 0x0806"

definition MAC_BROADCAST :: bytes where
  "MAC_BROADCAST = replicate 6 0xFF"

record ether_frame =
  fr_destination :: bytes
  fr_source :: bytes
  fr_ethertype :: u16
  fr_payload :: bytes

definition ether_parse :: "bytes \<Rightarrow> ether_frame option" where
  "ether_parse bs =
     (if length bs < ETHER_HEADER_LEN then None
      else Some \<lparr>fr_destination = take 6 bs, fr_source = take 6 (drop 6 bs),
                 fr_ethertype = u16_from_be (bs ! 12) (bs ! 13),
                 fr_payload = drop ETHER_HEADER_LEN bs\<rparr>)"

function pad_frame :: "bytes \<Rightarrow> bytes" where
  "pad_frame frame = (if length frame < MIN_FRAME_LEN then pad_frame (frame @ [0]) else frame)"
  by auto
termination by (relation "measure (\<lambda>frame. MIN_FRAME_LEN - length frame)") auto

declare pad_frame.simps [simp del]

definition ether_build :: "bytes \<Rightarrow> bytes \<Rightarrow> u16 \<Rightarrow> bytes \<Rightarrow> bytes" where
  "ether_build destination source ethertype payload =
     pad_frame (destination @ source @ be16 ethertype @ payload)"

definition is_group :: "bytes \<Rightarrow> bool" where
  "is_group address = (address ! 0 AND 1 \<noteq> 0)"

section \<open>IPv4 addresses\<close>

text \<open>\<open>Ipv4Addr\<close> wraps a \<open>u32\<close> in host byte order.\<close>

type_synonym ipv4_addr = u32

definition ipv4_new :: "u8 \<Rightarrow> u8 \<Rightarrow> u8 \<Rightarrow> u8 \<Rightarrow> ipv4_addr" where
  "ipv4_new a b c d = u32_from_be a b c d"

definition is_unspecified :: "ipv4_addr \<Rightarrow> bool" where
  "is_unspecified a = (a = 0)"

definition is_broadcast :: "ipv4_addr \<Rightarrow> bool" where
  "is_broadcast a = (a = 0xFFFFFFFF)"

definition is_multicast :: "ipv4_addr \<Rightarrow> bool" where
  "is_multicast a = (drop_bit 28 a = 0xE)"

definition is_loopback :: "ipv4_addr \<Rightarrow> bool" where
  "is_loopback a = (drop_bit 24 a = 127)"

section \<open>The checksum\<close>

fun net_sum :: "bytes \<Rightarrow> nat \<Rightarrow> nat" where
  "net_sum (a # b # rest) start = net_sum rest (start + unat (u16_from_be a b))"
| "net_sum [a] start = start + unat a * 2 ^ 8"
| "net_sum [] start = start"

function net_fold_total :: "nat \<Rightarrow> nat" where
  "net_fold_total t =
     (if t div 2 ^ 16 \<noteq> 0 then net_fold_total (t mod 2 ^ 16 + t div 2 ^ 16) else t)"
  by auto
termination
proof (relation "measure id")
  fix t :: nat
  assume "t div 2 ^ 16 \<noteq> 0"
  then have "1 \<le> t div 2 ^ 16"
    by linarith
  moreover have "t div 2 ^ 16 * 65536 + t mod 2 ^ 16 = t"
    using div_mult_mod_eq [of t "2 ^ 16"] by simp
  ultimately have "t mod 2 ^ 16 + t div 2 ^ 16 < t"
    by linarith
  then show "(t mod 2 ^ 16 + t div 2 ^ 16, t) \<in> measure id"
    by simp
qed simp

declare net_fold_total.simps [simp del]

definition net_fold :: "nat \<Rightarrow> u16" where
  "net_fold t = NOT (word_of_nat (net_fold_total t))"

definition net_checksum :: "bytes \<Rightarrow> u16" where
  "net_checksum bs = net_fold (net_sum bs 0)"

definition pseudo_sum :: "ipv4_addr \<Rightarrow> ipv4_addr \<Rightarrow> u8 \<Rightarrow> nat \<Rightarrow> nat" where
  "pseudo_sum source destination protocol len =
     unat (drop_bit 16 source) + unat (source AND 0xFFFF) +
     unat (drop_bit 16 destination) + unat (destination AND 0xFFFF) + unat protocol + len"

section \<open>IPv4 datagrams\<close>

definition PROTO_ICMP :: u8 where
  "PROTO_ICMP = 1"

definition PROTO_TCP :: u8 where
  "PROTO_TCP = 6"

definition PROTO_UDP :: u8 where
  "PROTO_UDP = 17"

definition IP_HEADER_LEN :: nat where
  "IP_HEADER_LEN = 20"

definition DEFAULT_TTL :: u8 where
  "DEFAULT_TTL = 64"

definition FLAG_DONT_FRAGMENT :: u16 where
  "FLAG_DONT_FRAGMENT = 0x4000"

definition FLAG_MORE_FRAGMENTS :: u16 where
  "FLAG_MORE_FRAGMENTS = 0x2000"

definition FRAGMENT_OFFSET_MASK :: u16 where
  "FRAGMENT_OFFSET_MASK = 0x1FFF"

record ip_header =
  ih_ihl :: nat
  ih_total_length :: nat
  ih_identification :: u16
  ih_flags_and_offset :: u16
  ih_ttl :: u8
  ih_protocol :: u8
  ih_source :: ipv4_addr
  ih_destination :: ipv4_addr

definition is_fragment :: "ip_header \<Rightarrow> bool" where
  "is_fragment h \<longleftrightarrow> ih_flags_and_offset h AND FLAG_MORE_FRAGMENTS \<noteq> 0 \<or>
     ih_flags_and_offset h AND FRAGMENT_OFFSET_MASK \<noteq> 0"

definition ip_parse :: "bytes \<Rightarrow> (ip_header \<times> bytes) option" where
  "ip_parse bs =
     (if length bs < IP_HEADER_LEN then None
      else if drop_bit 4 (bs ! 0) \<noteq> 4 then None
      else
        let ihl = unat (bs ! 0 AND 0x0F) * 4 in
        if ihl < IP_HEADER_LEN \<or> length bs < ihl then None
        else if net_checksum (take ihl bs) \<noteq> 0 then None
        else
          let total_length = unat (u16_from_be (bs ! 2) (bs ! 3)) in
          if total_length < ihl \<or> total_length > length bs then None
          else Some (\<lparr>ih_ihl = ihl, ih_total_length = total_length,
                      ih_identification = u16_from_be (bs ! 4) (bs ! 5),
                      ih_flags_and_offset = u16_from_be (bs ! 6) (bs ! 7),
                      ih_ttl = bs ! 8, ih_protocol = bs ! 9,
                      ih_source = u32_from_be (bs ! 12) (bs ! 13) (bs ! 14) (bs ! 15),
                      ih_destination = u32_from_be (bs ! 16) (bs ! 17) (bs ! 18) (bs ! 19)\<rparr>,
                     drop ihl (take total_length bs)))"

text \<open>
  The identification comes from \<open>NEXT_ID\<close>; the caller passes its value and keeps the counter.
\<close>

definition ip_build :: "u16 \<Rightarrow> ipv4_addr \<Rightarrow> ipv4_addr \<Rightarrow> u8 \<Rightarrow> bytes \<Rightarrow> bytes" where
  "ip_build ident source destination protocol payload =
     (let total_length = IP_HEADER_LEN + length payload;
          out = [0x45, 0] @ be16 (word_of_nat total_length) @ be16 ident @ be16 FLAG_DONT_FRAGMENT @
            [DEFAULT_TTL, protocol] @ [0, 0] @ be32 source @ be32 destination;
          header_checksum = net_checksum (take IP_HEADER_LEN out);
          out = copy_into out 10 (be16 header_checksum)
      in out @ payload)"

section \<open>ICMP messages\<close>

definition TYPE_ECHO_REPLY :: u8 where
  "TYPE_ECHO_REPLY = 0"

definition TYPE_ECHO_REQUEST :: u8 where
  "TYPE_ECHO_REQUEST = 8"

definition ICMP_HEADER_LEN :: nat where
  "ICMP_HEADER_LEN = 8"

definition icmp_build :: "u8 \<Rightarrow> u8 \<Rightarrow> bytes \<Rightarrow> bytes \<Rightarrow> bytes" where
  "icmp_build kind code rest body =
     (let message = [kind, code] @ [0, 0] @ rest @ body
      in copy_into message 2 (be16 (net_checksum message)))"

section \<open>UDP datagrams\<close>

record endpoint =
  ep_address :: ipv4_addr
  ep_port :: u16

definition endpoint_new :: "ipv4_addr \<Rightarrow> u16 \<Rightarrow> endpoint" where
  "endpoint_new address port = \<lparr>ep_address = address, ep_port = port\<rparr>"

definition ENDPOINT_UNSPECIFIED :: endpoint where
  "ENDPOINT_UNSPECIFIED = endpoint_new 0 0"

definition UDP_HEADER_LEN :: nat where
  "UDP_HEADER_LEN = 8"

definition udp_build :: "endpoint \<Rightarrow> endpoint \<Rightarrow> bytes \<Rightarrow> bytes" where
  "udp_build source destination payload =
     (let len = UDP_HEADER_LEN + length payload;
          datagram = be16 (ep_port source) @ be16 (ep_port destination) @
            be16 (word_of_nat len) @ [0, 0] @ payload;
          pseudo = pseudo_sum (ep_address source) (ep_address destination) PROTO_UDP len;
          checksum = net_fold (net_sum datagram pseudo);
          checksum = (if checksum = 0 then 0xFFFF else checksum)
      in copy_into datagram 6 (be16 checksum))"

text \<open>The part of \<open>udp::receive\<close> before the socket is looked up.\<close>

definition udp_accept :: "ipv4_addr \<Rightarrow> ipv4_addr \<Rightarrow> bytes \<Rightarrow> (endpoint \<times> endpoint \<times> bytes) option" where
  "udp_accept source destination datagram =
     (if length datagram < UDP_HEADER_LEN then None
      else
        let len = unat (u16_from_be (datagram ! 4) (datagram ! 5)) in
        if len < UDP_HEADER_LEN \<or> len > length datagram then None
        else
          let datagram = take len datagram;
              carried = u16_from_be (datagram ! 6) (datagram ! 7);
              pseudo = pseudo_sum source destination PROTO_UDP len
          in if carried \<noteq> 0 \<and> net_fold (net_sum datagram pseudo) \<noteq> 0 then None
             else Some (endpoint_new source (u16_from_be (datagram ! 0) (datagram ! 1)),
                        endpoint_new destination (u16_from_be (datagram ! 2) (datagram ! 3)),
                        drop UDP_HEADER_LEN datagram))"


section \<open>Byte order, padding and slices\<close>

lemma u16_from_be_be16 [simp]: "u16_from_be (ucast (drop_bit 8 v)) (ucast v) = v"
  by (rule bit_word_eqI) (auto simp: u16_from_be_def bit_simps)

lemma u32_from_be_be32 [simp]:
  "u32_from_be (ucast (drop_bit 24 v)) (ucast (drop_bit 16 v)) (ucast (drop_bit 8 v)) (ucast v) = v"
proof (rule bit_word_eqI)
  fix n assume "n < LENGTH(32)"
  then show "bit (u32_from_be (ucast (drop_bit 24 v)) (ucast (drop_bit 16 v)) (ucast (drop_bit 8 v)) (ucast v)) n
      = bit v n"
    by (cases "n < 8"; cases "n < 16"; cases "n < 24") (auto simp: u32_from_be_def bit_simps)
qed

lemma length_be16 [simp]: "length (be16 v) = 2"
  by (simp add: be16_def)

lemma length_be32 [simp]: "length (be32 v) = 4"
  by (simp add: be32_def)

lemma pad_frame_eq: "pad_frame frame = frame @ replicate (MIN_FRAME_LEN - length frame) 0"
proof (induction frame rule: pad_frame.induct)
  case (1 frame)
  then show ?case
  proof (cases "length frame < MIN_FRAME_LEN")
    case True
    then have "MIN_FRAME_LEN - length frame = Suc (MIN_FRAME_LEN - length (frame @ [0]))"
      by simp
    with True 1 show ?thesis
      by (subst pad_frame.simps) simp
  qed (subst pad_frame.simps, simp)
qed

lemma ether_roundtrip:
  assumes "length destination = 6" and "length source = 6"
  obtains padding where "ether_parse (ether_build destination source ethertype payload) =
    Some \<lparr>fr_destination = destination, fr_source = source, fr_ethertype = ethertype,
          fr_payload = payload @ padding\<rparr>"
proof -
  let ?frame = "destination @ source @ be16 ethertype @ payload"
  obtain padding where p: "ether_build destination source ethertype payload =
      destination @ source @ be16 ethertype @ payload @ padding"
    by (metis (no_types) append.assoc ether_build_def pad_frame_eq)
  have "ether_parse (ether_build destination source ethertype payload) =
    Some \<lparr>fr_destination = destination, fr_source = source, fr_ethertype = ethertype,
          fr_payload = payload @ padding\<rparr>"
    using assms by (simp add: p ether_parse_def ETHER_HEADER_LEN_def be16_def nth_append)
  then show thesis by (rule that)
qed

section \<open>The ones' complement sum\<close>

lemma unat_u16_from_be: "unat (u16_from_be a b) = 256 * unat a + unat b"
proof -
  have "u16_from_be a b = push_bit 8 (ucast a) + ucast b"
    unfolding u16_from_be_def
    by (rule disjunctive_add [symmetric]) (auto simp: bit_simps dest: bit_imp_le_length)
  also have "\<dots> = word_of_nat (256 * unat a + unat b)"
    by (simp add: push_bit_eq_mult unsigned_ucast_eq)
  finally have "u16_from_be a b = word_of_nat (256 * unat a + unat b)" .
  moreover have "256 * unat a + unat b < 65536"
    using unsigned_less [of a, where 'a = nat] unsigned_less [of b, where 'a = nat] by simp
  ultimately show ?thesis
    by (simp only: unat_of_nat) simp
qed

lemma net_sum_start: "net_sum bs s = s + net_sum bs 0"
proof (induction bs arbitrary: s rule: induct_list012)
  case (3 a b rest)
  show ?case
    using 3(1) [of "s + unat (u16_from_be a b)"] 3(1) [of "unat (u16_from_be a b)"] by simp
qed simp_all

lemma net_sum_append: "even (length xs) \<Longrightarrow> net_sum (xs @ ys) s = net_sum ys (net_sum xs s)"
  by (induction xs s rule: net_sum.induct) simp_all

lemma net_sum_be16: "net_sum (be16 v) s = s + unat v"
  by (simp add: be16_def)

lemma net_sum_bound: "net_sum bs s \<le> s + 65535 * ((length bs + 1) div 2)"
proof (induction bs s rule: net_sum.induct)
  case (1 a b rest start)
  have "unat (u16_from_be a b) \<le> 65535"
    using unsigned_less [of "u16_from_be a b", where 'a = nat] by simp
  with 1 show ?case by simp
next
  case (2 a start)
  have "unat a \<le> 255"
    using unsigned_less [of a, where 'a = nat] by simp
  then show ?case by simp
qed simp

lemma pseudo_sum_bound: "pseudo_sum s d p len \<le> 4 * 65535 + 255 + len"
proof -
  have halves: "unat (drop_bit 16 x) \<le> 65535" "unat (x AND 0xFFFF) \<le> 65535" for x :: u32
  proof -
    show "unat (drop_bit 16 x) \<le> 65535"
      using unsigned_less [of x, where 'a = nat]
      by (simp add: unsigned_drop_bit_eq drop_bit_eq_div [where 'a = nat] take_bit_nat_eq_self
          less_mult_imp_div_less less_Suc_eq_le [symmetric])
    have "x AND 0xFFFF \<le> 0xFFFF"
      by (rule word_and_le1)
    then show "unat (x AND 0xFFFF) \<le> 65535"
      by (simp add: word_le_nat_alt)
  qed
  have "unat p \<le> 255"
    using unsigned_less [of p, where 'a = nat] by simp
  then show ?thesis
    using halves [of s] halves [of d] unfolding pseudo_sum_def by linarith
qed

lemma net_sum_fits:
  assumes "length bs \<le> 65535"
  shows "net_sum bs (pseudo_sum s d p len) < len + 2 ^ 32"
proof -
  have "net_sum bs (pseudo_sum s d p len) \<le> pseudo_sum s d p len + 65535 * ((length bs + 1) div 2)"
    by (rule net_sum_bound)
  moreover have "(length bs + 1) div 2 \<le> 32768"
    using assms by simp
  ultimately show ?thesis
    using pseudo_sum_bound [of s d p len] by simp
qed

lemma net_fold_total_spec:
  "net_fold_total t < 65536 \<and> net_fold_total t mod 65535 = t mod 65535 \<and> (net_fold_total t = 0 \<longleftrightarrow> t = 0)"
proof (induction t rule: net_fold_total.induct)
  case (1 t)
  show ?case
  proof (cases "t div 2 ^ 16 = 0")
    case True
    then have "t < 65536" by (simp add: div_eq_0_iff)
    with True show ?thesis by (simp add: net_fold_total.simps [of t])
  next
    case False
    let ?u = "t mod 2 ^ 16 + t div 2 ^ 16"
    have "t = ?u + 65535 * (t div 2 ^ 16)"
      using div_mult_mod_eq [of t "2 ^ 16"] by simp
    then have "t mod 65535 = ?u mod 65535"
      by (metis mod_mult_self2)
    moreover have "?u \<noteq> 0" "t \<noteq> 0"
      using False by auto
    ultimately show ?thesis
      using 1 False by (simp add: net_fold_total.simps [of t])
  qed
qed

lemma unat_net_fold: "unat (net_fold t) = 65535 - net_fold_total t"
proof -
  have lt: "net_fold_total t < 65536"
    using net_fold_total_spec by blast
  have "unat (NOT x) = 65535 - unat x" for x :: u16
  proof -
    have "NOT x = - 1 - x"
      by (simp add: not_eq_complement)
    moreover have "unat (- 1 :: u16) = 65535"
      by (simp add: unsigned_minus_1_eq_mask mask_eq_exp_minus_1)
    moreover have "x \<le> - 1"
      by (rule word_order.extremum)
    ultimately show ?thesis
      by (simp only: unat_sub)
  qed
  then show ?thesis
    using lt by (simp add: net_fold_def unat_of_nat)
qed

lemma net_fold_zero: "net_fold t = 0 \<longleftrightarrow> 0 < t \<and> 65535 dvd t"
proof -
  let ?f = "net_fold_total t"
  have f: "?f < 65536" "?f mod 65535 = t mod 65535" "?f = 0 \<longleftrightarrow> t = 0"
    using net_fold_total_spec [of t] by auto
  have "net_fold t = 0 \<longleftrightarrow> unat (net_fold t) = 0"
    by (simp add: unat_eq_zero)
  also have "\<dots> \<longleftrightarrow> ?f = 65535"
    using f(1) unat_net_fold [of t] by linarith
  also have "\<dots> \<longleftrightarrow> ?f \<noteq> 0 \<and> ?f mod 65535 = 0"
    using f(1) by (cases "?f = 65535") auto
  finally show ?thesis
    using f by (simp add: mod_eq_0_iff_dvd)
qed

text \<open>Adding the folded complement of a sum to that sum makes the fold come out zero.\<close>

lemma net_fold_verifies: "net_fold (t + unat (net_fold t)) = 0"
proof -
  have f: "net_fold_total t < 65536" "net_fold_total t mod 65535 = t mod 65535"
    "net_fold_total t = 0 \<longleftrightarrow> t = 0"
    using net_fold_total_spec [of t] by auto
  have "(t + (65535 - net_fold_total t)) mod 65535 = (net_fold_total t + (65535 - net_fold_total t)) mod 65535"
    using f(2) by (metis mod_add_left_eq)
  also have "\<dots> = 0"
    using f(1) by simp
  finally have "65535 dvd t + (65535 - net_fold_total t)"
    by (simp add: dvd_eq_mod_eq_0)
  moreover have "0 < t + (65535 - net_fold_total t)"
    using f(3) by (cases "t = 0") auto
  ultimately show ?thesis
    by (simp add: net_fold_zero unat_net_fold)
qed


section \<open>Building and parsing agree\<close>

text \<open>An IPv4 header without options that carries the checksum \<open>c\<close>.\<close>

definition plain_header :: "u16 \<Rightarrow> u16 \<Rightarrow> u8 \<Rightarrow> u16 \<Rightarrow> ipv4_addr \<Rightarrow> ipv4_addr \<Rightarrow> bytes" where
  "plain_header len ident protocol c source destination =
     [0x45, 0] @ be16 len @ be16 ident @ be16 FLAG_DONT_FRAGMENT @
       [DEFAULT_TTL, protocol] @ be16 c @ be32 source @ be32 destination"

lemma length_plain_header [simp]: "length (plain_header l i p c s d) = 20"
  by (simp add: plain_header_def)

lemma be16_zero: "be16 0 = [0, 0]"
  by (simp add: be16_def)

lemma net_sum_checksum_word:
  assumes "even (length xs)"
  shows "net_sum (xs @ be16 c @ ys) s = net_sum (xs @ be16 0 @ ys) s + unat c"
  using assms net_sum_start [of ys "net_sum xs s + unat c"] net_sum_start [of ys "net_sum xs s"]
  by (simp add: net_sum_append net_sum_be16)

lemma ip_build_eq:
  "ip_build ident s d p payload =
     (let len = word_of_nat (20 + length payload)
      in plain_header len ident p (net_checksum (plain_header len ident p 0 s d)) s d @ payload)"
proof -
  let ?len = "word_of_nat (20 + length payload) :: u16"
  have out: "[0x45, 0] @ be16 l @ be16 ident @ be16 FLAG_DONT_FRAGMENT @ [DEFAULT_TTL, p] @ [0, 0] @
      be32 s @ be32 d = plain_header l ident p 0 s d" for l
    by (simp only: plain_header_def be16_zero)
  have put: "copy_into (plain_header l ident p 0 s d) 10 (be16 c) = plain_header l ident p c s d" for l c
    by (simp add: plain_header_def copy_into_def)
  show ?thesis
    unfolding ip_build_def IP_HEADER_LEN_def Let_def out put
    by simp
qed

lemma plain_header_verifies:
  "net_checksum (plain_header l i p (net_checksum (plain_header l i p 0 s d)) s d) = 0"
proof -
  have sum: "net_sum (plain_header l i p c s d) 0 = net_sum (plain_header l i p 0 s d) 0 + unat c" for c
    using net_sum_checksum_word [of "[0x45, 0] @ be16 l @ be16 i @ be16 FLAG_DONT_FRAGMENT @ [DEFAULT_TTL, p]"
        c "be32 s @ be32 d" 0]
    by (simp add: plain_header_def)
  show ?thesis
    unfolding net_checksum_def by (rule trans [OF arg_cong [where f = net_fold, OF sum] net_fold_verifies])
qed

lemma ip_roundtrip:
  assumes fits: "20 + length payload < 65536"
  shows "ip_parse (ip_build ident s d p payload @ padding) =
    Some (\<lparr>ih_ihl = 20, ih_total_length = 20 + length payload, ih_identification = ident,
           ih_flags_and_offset = FLAG_DONT_FRAGMENT, ih_ttl = DEFAULT_TTL, ih_protocol = p,
           ih_source = s, ih_destination = d\<rparr>, payload)"
proof -
  let ?len = "word_of_nat (20 + length payload) :: u16"
  let ?c = "net_checksum (plain_header ?len ident p 0 s d)"
  let ?h = "plain_header ?len ident p ?c s d"
  have b: "ip_build ident s d p payload @ padding = ?h @ payload @ padding"
    by (simp add: ip_build_eq Let_def)
  have at: "(?h @ payload @ padding) ! n = ?h ! n" if "n < 20" for n
    using that by (simp add: nth_append)
  have field: "?h ! 0 = 0x45" "?h ! 8 = DEFAULT_TTL" "?h ! 9 = p"
    "u16_from_be (?h ! 2) (?h ! 3) = ?len" "u16_from_be (?h ! 4) (?h ! 5) = ident"
    "u16_from_be (?h ! 6) (?h ! 7) = FLAG_DONT_FRAGMENT"
    "u32_from_be (?h ! 12) (?h ! 13) (?h ! 14) (?h ! 15) = s"
    "u32_from_be (?h ! 16) (?h ! 17) (?h ! 18) (?h ! 19) = d"
    by (simp_all add: plain_header_def be16_def be32_def)
  have len: "unat ?len = 20 + length payload"
    using fits by (simp only: unat_of_nat) simp
  have first: "drop_bit 4 (0x45 :: u8) = 4" "unat (0x45 AND 0x0F :: u8) * 4 = 20"
    by simp_all
  show ?thesis
    unfolding b ip_parse_def
    by (simp only: at field first len IP_HEADER_LEN_def Let_def length_append length_plain_header)
      (simp add: at field len plain_header_verifies)
qed

lemma net_sum_word_at:
  assumes "even i" and "i + 2 \<le> length bs"
  shows "net_sum bs 0 =
    net_sum (take i bs) 0 + unat (u16_from_be (bs ! i) (bs ! (i + 1))) + net_sum (drop (i + 2) bs) 0"
proof -
  have "bs = take i bs @ [bs ! i, bs ! (i + 1)] @ drop (i + 2) bs"
    using assms(2) by (simp add: Cons_nth_drop_Suc add.commute [of i] id_take_nth_drop)
  then have "net_sum bs 0 = net_sum (take i bs @ [bs ! i, bs ! (i + 1)] @ drop (i + 2) bs) 0"
    by simp
  also have "\<dots> = net_sum (take i bs) 0 + unat (u16_from_be (bs ! i) (bs ! (i + 1))) + net_sum (drop (i + 2) bs) 0"
    using assms net_sum_start [of "drop (i + 2) bs"
        "net_sum (take i bs) 0 + unat (u16_from_be (bs ! i) (bs ! (i + 1)))"]
    by (simp add: net_sum_append)
  finally show ?thesis .
qed

lemma udp_roundtrip:
  assumes fits: "8 + length payload < 65536"
  shows "udp_accept (ep_address a) (ep_address b) (udp_build a b payload) = Some (a, b, payload)"
proof -
  let ?len = "word_of_nat (8 + length payload) :: u16"
  let ?pseudo = "pseudo_sum (ep_address a) (ep_address b) PROTO_UDP (8 + length payload)"
  define g where "g c = (be16 (ep_port a) @ be16 (ep_port b) @ be16 ?len) @ be16 c @ payload" for c
  define c where "c = net_fold (net_sum (g 0) ?pseudo)"
  define d where "d = (if c = 0 then 0xFFFF else c)"
  have b: "udp_build a b payload = g d"
    by (simp add: udp_build_def Let_def UDP_HEADER_LEN_def be16_zero copy_into_def d_def c_def g_def)
  have len: "unat ?len = 8 + length payload"
    using fits by (simp only: unat_of_nat) simp
  have field: "g d ! 0 = ucast (drop_bit 8 (ep_port a))" "g d ! 1 = ucast (ep_port a)"
    "g d ! 2 = ucast (drop_bit 8 (ep_port b))" "g d ! 3 = ucast (ep_port b)"
    "g d ! 4 = ucast (drop_bit 8 ?len)" "g d ! 5 = ucast ?len"
    "drop 8 (g d) = payload" "length (g d) = 8 + length payload"
    by (simp_all add: g_def be16_def)
  have "net_sum (g d) ?pseudo = net_sum (g 0) ?pseudo + unat d"
    unfolding g_def by (rule net_sum_checksum_word) simp
  moreover have "net_fold (net_sum (g 0) ?pseudo + unat d) = 0"
  proof (cases "c = 0")
    case True
    then show ?thesis by (simp add: c_def d_def net_fold_zero)
  next
    case False
    then show ?thesis using net_fold_verifies [of "net_sum (g 0) ?pseudo"] by (simp add: c_def d_def)
  qed
  ultimately have ok: "net_fold (net_sum (g d) ?pseudo) = 0"
    by simp
  have port: "u16_from_be (g d ! 0) (g d ! 1) = ep_port a" "u16_from_be (g d ! 2) (g d ! 3) = ep_port b"
    "u16_from_be (g d ! 4) (g d ! 5) = ?len"
    by (simp_all only: field u16_from_be_be16)
  show ?thesis
    unfolding b udp_accept_def Let_def
    by (simp only: port field(7,8) len ok UDP_HEADER_LEN_def take_all order_refl) (simp add: port endpoint_new_def)
qed

lemma icmp_verifies:
  assumes "length rest = 4"
  shows "net_checksum (icmp_build kind code rest body) = 0"
    and "length (icmp_build kind code rest body) = 8 + length body"
    and "icmp_build kind code rest body ! 0 = kind" and "icmp_build kind code rest body ! 1 = code"
    and "take 4 (drop 4 (icmp_build kind code rest body)) = rest"
    and "drop 8 (icmp_build kind code rest body) = body"
proof -
  define c where "c = net_checksum ([kind, code] @ be16 0 @ rest @ body)"
  have b: "icmp_build kind code rest body = [kind, code] @ be16 c @ rest @ body"
    by (simp add: icmp_build_def be16_zero copy_into_def c_def)
  have "net_sum ([kind, code] @ be16 c @ rest @ body) 0 = net_sum ([kind, code] @ be16 0 @ rest @ body) 0 + unat c"
    by (rule net_sum_checksum_word) simp
  then show "net_checksum (icmp_build kind code rest body) = 0"
    unfolding b by (simp only: net_checksum_def net_fold_verifies c_def)
  show "length (icmp_build kind code rest body) = 8 + length body"
    "icmp_build kind code rest body ! 0 = kind" "icmp_build kind code rest body ! 1 = code"
    "take 4 (drop 4 (icmp_build kind code rest body)) = rest"
    "drop 8 (icmp_build kind code rest body) = body"
    using assms by (simp_all add: b be16_def)
qed

section \<open>What the header checksum catches\<close>

lemma mod_add_cancel_nat: "(a + c) mod m = b' \<Longrightarrow> b' = (b + c) mod m \<Longrightarrow> a mod m = b mod m"
  for a b c m :: nat
proof (cases "b \<le> a")
  case True
  assume "(a + c) mod m = b'" "b' = (b + c) mod m"
  then have "m dvd (a + c) - (b + c)"
    using True mod_eq_dvd_iff_nat [of "b + c" "a + c" m] by simp
  then show ?thesis
    using True by (simp add: mod_eq_dvd_iff_nat)
next
  case False
  assume "(a + c) mod m = b'" "b' = (b + c) mod m"
  then have "m dvd (b + c) - (a + c)"
    using False mod_eq_dvd_iff_nat [of "a + c" "b + c" m] by simp
  then show ?thesis
    using False mod_eq_dvd_iff_nat [of a b m] by simp
qed

lemma checksum_catches_word:
  assumes ok: "net_checksum bs = 0" and i: "even i" "i + 2 \<le> length bs"
    and changed: "unat w mod 65535 \<noteq> unat (u16_from_be (bs ! i) (bs ! (i + 1))) mod 65535"
  shows "net_checksum (copy_into bs i (be16 w)) \<noteq> 0"
proof
  let ?A = "net_sum (take i bs) 0" and ?B = "net_sum (drop (i + 2) bs) 0"
  let ?v = "u16_from_be (bs ! i) (bs ! (i + 1))"
  let ?cs = "copy_into bs i (be16 w)"
  assume "net_checksum ?cs = 0"
  moreover have "net_sum ?cs 0 = ?A + unat w + ?B"
  proof -
    have "take i ?cs = take i bs" "drop (i + 2) ?cs = drop (i + 2) bs" "i + 2 \<le> length ?cs"
      "u16_from_be (?cs ! i) (?cs ! (i + 1)) = w"
      using i by (simp_all add: copy_into_def be16_def nth_append)
    then show ?thesis
      using net_sum_word_at [of i ?cs] i by simp
  qed
  moreover have "net_sum bs 0 = ?A + unat ?v + ?B"
    by (rule net_sum_word_at [OF i])
  ultimately have "65535 dvd ?A + unat w + ?B" "65535 dvd ?A + unat ?v + ?B"
    using ok by (simp_all add: net_checksum_def net_fold_zero)
  then have "(unat w + (?A + ?B)) mod 65535 = (unat ?v + (?A + ?B)) mod 65535"
    by (simp add: add.commute add.left_commute dvd_eq_mod_eq_0)
  then have "unat w mod 65535 = unat ?v mod 65535"
    by (rule mod_add_cancel_nat) simp
  with changed show False by simp
qed

lemma word_mod_65535:
  fixes w v :: u16
  assumes "w \<noteq> v" and "{w, v} \<noteq> {0, 0xFFFF}"
  shows "unat w mod 65535 \<noteq> unat v mod 65535"
proof
  assume eq: "unat w mod 65535 = unat v mod 65535"
  have lt: "unat w < 65536" "unat v < 65536"
    using unsigned_less [of w, where 'a = nat] unsigned_less [of v, where 'a = nat] by simp_all
  have ne: "unat w \<noteq> unat v"
    using assms(1) word_unat_eq_iff [of w v] by blast
  have "unat w = 0 \<and> unat v = 65535 \<or> unat w = 65535 \<and> unat v = 0"
    using eq lt ne by (cases "unat w < 65535"; cases "unat v < 65535") (auto simp: le_mod_geq)
  then have "w = 0 \<and> v = 0xFFFF \<or> w = 0xFFFF \<and> v = 0"
    by (auto simp: word_unat_eq_iff)
  with assms(2) show False by auto
qed

text \<open>
  A changed header is refused: take any datagram the parser accepts and change one of the
  sixteen bit words of its header, other than the first, to a value that is not the same number in
  ones' complement (that is, not \<open>0x0000\<close> for \<open>0xFFFF\<close> or the reverse): the parser refuses it.
\<close>

theorem ip_parse_refuses_changed_header:
  assumes "ip_parse bs = Some (h, payload)"
    and "even i" and "2 \<le> i" and "i + 2 \<le> ih_ihl h"
    and "w \<noteq> u16_from_be (bs ! i) (bs ! (i + 1))"
    and "{w, u16_from_be (bs ! i) (bs ! (i + 1))} \<noteq> {0, 0xFFFF}"
  shows "ip_parse (copy_into bs i (be16 w)) = None"
proof -
  let ?v = "u16_from_be (bs ! i) (bs ! (i + 1))" and ?cs = "copy_into bs i (be16 w)"
  let ?ihl = "unat (bs ! 0 AND 0x0F) * 4"
  have bs: "ih_ihl h = ?ihl" "?ihl \<le> length bs" "net_checksum (take ?ihl bs) = 0"
    using assms(1) by (auto simp: ip_parse_def Let_def split: if_splits)
  have i: "i + 2 \<le> ?ihl"
    using assms(4) bs(1) by simp
  have same: "?cs ! 0 = bs ! 0" "take ?ihl ?cs = copy_into (take ?ihl bs) i (be16 w)"
    using i assms(3) bs(2) by (simp_all add: copy_into_def nth_append min_def drop_take)
  have "unat w mod 65535 \<noteq> unat ?v mod 65535"
    by (rule word_mod_65535) (use assms(5,6) in simp_all)
  then have "net_checksum (take ?ihl ?cs) \<noteq> 0"
    unfolding same(2) using checksum_catches_word [of "take ?ihl bs" i w] bs assms(2) i by simp
  then show ?thesis
    by (simp add: ip_parse_def Let_def same(1))
qed

theorem ip_parse_refuses_changed_header_witness:
  "let bs = [0x45, 0, 0, 21, 0, 1, 0x40, 0, 64, 17, 0x26, 0xD5, 10, 0, 0, 1, 10, 0, 0, 2, 7]
   in ip_parse bs \<noteq> None \<and> ip_parse (copy_into bs 18 (be16 3)) = None"
proof -
  let ?bs = "[0x45, 0, 0, 21, 0, 1, 0x40, 0, 64, 17, 0x26, 0xD5, 10, 0, 0, 1, 10, 0, 0, 2, 7] :: bytes"
  let ?h = "\<lparr>ih_ihl = 20, ih_total_length = 21, ih_identification = 1, ih_flags_and_offset = 0x4000, ih_ttl = 64,
    ih_protocol = 17, ih_source = 0x0A000001, ih_destination = 0x0A000002\<rparr>"
  have p: "ip_parse ?bs = Some (?h, [7])"
    by (simp add: ip_parse_def Let_def net_checksum_def net_fold_def net_fold_total.simps u16_from_be_def u32_from_be_def IP_HEADER_LEN_def)
  have "ip_parse (copy_into ?bs 18 (be16 3)) = None"
    by (rule ip_parse_refuses_changed_header [OF p]) (simp_all add: u16_from_be_def doubleton_eq_iff)
  with p show ?thesis by (simp add: Let_def)
qed

end
