(* ===== verification/Net_Config.thy ===== *)
theory Net_Config
  imports Net_Wire
begin

text \<open>
  The addresses of this machine (\<open>Config\<close> in \<open>kernel/src/net/mod.rs\<close>) and the dotted quad
  notation they are written in on the kernel command line and in \<open>/etc/resolv.conf\<close>
  (\<open>kernel/src/net/ip.rs\<close>).
\<close>

section \<open>Dotted quads\<close>

fun split_char :: "char \<Rightarrow> string \<Rightarrow> string list" where
  "split_char c [] = [[]]"
| "split_char c (x # xs) =
     (if x = c then [] # split_char c xs
      else case split_char c xs of w # ws \<Rightarrow> (x # w) # ws | [] \<Rightarrow> [[x]])"

text \<open>
  \<open>str::parse::<u8>\<close>: an optional plus sign, then at least one decimal digit, with the value
  checked against the width at every digit.
\<close>

definition digit_value :: "char \<Rightarrow> nat option" where
  "digit_value c = (let n = of_char c in if 48 \<le> n \<and> n \<le> 57 then Some (n - 48) else None)"

fun parse_digits :: "string \<Rightarrow> nat \<Rightarrow> nat option" where
  "parse_digits [] acc = Some acc"
| "parse_digits (c # cs) acc =
     (case digit_value c of
        None \<Rightarrow> None
      | Some d \<Rightarrow> if acc * 10 + d < 256 then parse_digits cs (acc * 10 + d) else None)"

definition parse_u8 :: "string \<Rightarrow> u8 option" where
  "parse_u8 text =
     (let digits = (case text of c # cs \<Rightarrow> if c = CHR ''+'' then cs else text | [] \<Rightarrow> []) in
      if digits = [] then None else map_option word_of_nat (parse_digits digits 0))"

fun parse_parts :: "string list \<Rightarrow> u8 list \<Rightarrow> nat \<Rightarrow> (u8 list \<times> nat) option" where
  "parse_parts [] octets seen = Some (octets, seen)"
| "parse_parts (part # parts) octets seen =
     (if seen = 4 \<or> part = [] \<or> length part > 3 then None
      else case parse_u8 part of
             None \<Rightarrow> None
           | Some v \<Rightarrow> parse_parts parts (octets[seen := v]) (seen + 1))"

definition parse_address :: "string \<Rightarrow> ipv4_addr option" where
  "parse_address text =
     (case parse_parts (split_char (CHR ''.'') text) [0, 0, 0, 0] 0 of
        None \<Rightarrow> None
      | Some (octets, seen) \<Rightarrow>
          if seen \<noteq> 4 then None
          else Some (u32_from_be (octets ! 0) (octets ! 1) (octets ! 2) (octets ! 3)))"

fun decimal :: "nat \<Rightarrow> string" where
  "decimal n = (if n < 10 then [char_of (48 + n)] else decimal (n div 10) @ [char_of (48 + n mod 10)])"

declare decimal.simps [simp del]

definition display_address :: "ipv4_addr \<Rightarrow> string" where
  "display_address a =
     (let b = be32 a in
      decimal (unat (b ! 0)) @ ''.'' @ decimal (unat (b ! 1)) @ ''.'' @
      decimal (unat (b ! 2)) @ ''.'' @ decimal (unat (b ! 3)))"

section \<open>The configuration\<close>

definition MAX_NAMESERVERS :: nat where
  "MAX_NAMESERVERS = 3"

record net_config =
  cf_address :: ipv4_addr
  cf_netmask :: ipv4_addr
  cf_gateway :: "ipv4_addr option"
  cf_nameservers :: "ipv4_addr list"
  cf_nameserver_count :: nat

definition is_host_address :: "ipv4_addr \<Rightarrow> bool" where
  "is_host_address address =
     (let first = drop_bit 24 address in first \<noteq> 0 \<and> first \<noteq> 127 \<and> first < 224)"

definition on_link :: "net_config \<Rightarrow> ipv4_addr \<Rightarrow> bool" where
  "on_link c other \<longleftrightarrow> other AND cf_netmask c = cf_address c AND cf_netmask c"

definition broadcast :: "net_config \<Rightarrow> ipv4_addr" where
  "broadcast c = cf_address c OR NOT (cf_netmask c)"

definition next_hop :: "net_config \<Rightarrow> ipv4_addr \<Rightarrow> ipv4_addr option" where
  "next_hop c destination =
     (if is_broadcast destination \<or> is_multicast destination \<or> on_link c destination
      then Some destination else cf_gateway c)"

fun add_nameservers :: "ipv4_addr list \<Rightarrow> net_config \<Rightarrow> net_config" where
  "add_nameservers [] c = c"
| "add_nameservers (server # servers) c =
     (if cf_nameserver_count c = MAX_NAMESERVERS then c
      else if is_unspecified server \<or> is_broadcast server \<or> is_multicast server
      then add_nameservers servers c
      else add_nameservers servers
        (c\<lparr>cf_nameservers := (cf_nameservers c)[cf_nameserver_count c := server],
           cf_nameserver_count := cf_nameserver_count c + 1\<rparr>))"

definition config_new ::
  "ipv4_addr \<Rightarrow> ipv4_addr \<Rightarrow> ipv4_addr option \<Rightarrow> ipv4_addr list \<Rightarrow> string + net_config" where
  "config_new address netmask gateway nameservers =
     (if \<not> is_host_address address then Inl ''the address is not one a host can hold''
      else
        let host_bits = NOT netmask in
        if netmask = 0 \<or> host_bits AND (host_bits + 1) \<noteq> 0
        then Inl ''the netmask is not a run of ones followed by zeroes''
        else if host_bits > 1 \<and> (address AND host_bits = 0 \<or> address AND host_bits = host_bits)
        then Inl ''the address is its subnet's network or broadcast address''
        else
          let config = \<lparr>cf_address = address, cf_netmask = netmask, cf_gateway = None,
                        cf_nameservers = replicate MAX_NAMESERVERS 0, cf_nameserver_count = 0\<rparr> in
          case gateway of
            Some g \<Rightarrow>
              if g = address \<or> \<not> is_host_address g \<or> \<not> on_link config g
              then Inl ''the gateway is not another host on the address's subnet''
              else Inr (add_nameservers nameservers (config\<lparr>cf_gateway := Some g\<rparr>))
          | None \<Rightarrow> Inr (add_nameservers nameservers config))"

definition class_netmask :: "ipv4_addr \<Rightarrow> ipv4_addr" where
  "class_netmask address =
     (let first = unat (drop_bit 24 address) in
      if first \<le> 127 then ipv4_new 255 0 0 0
      else if first \<le> 191 then ipv4_new 255 255 0 0
      else ipv4_new 255 255 255 0)"

definition nameservers :: "net_config \<Rightarrow> ipv4_addr list" where
  "nameservers c = take (cf_nameserver_count c) (cf_nameservers c)"

definition prefix_len :: "net_config \<Rightarrow> nat" where
  "prefix_len c = length (takeWhile (bit (cf_netmask c)) (rev [0..<32]))"

section \<open>A parsed display\<close>

lemma digit_value_char [simp]: "d < 10 \<Longrightarrow> digit_value (char_of (48 + d)) = Some d"
  by (simp add: digit_value_def)

lemma digit_not_special:
  fixes d :: nat
  assumes "d < 10"
  shows "char_of (48 + d) \<noteq> CHR ''.''" and "char_of (48 + d) \<noteq> CHR ''+''"
proof -
  have "of_char (char_of (48 + d) :: char) = 48 + d"
    using assms by simp
  moreover have "of_char (CHR ''.'') = (46 :: nat)" "of_char (CHR ''+'') = (43 :: nat)"
    by simp_all
  ultimately have "of_char (char_of (48 + d) :: char) \<noteq> (of_char (CHR ''.'') :: nat)"
    "of_char (char_of (48 + d) :: char) \<noteq> (of_char (CHR ''+'') :: nat)"
    by linarith+
  then show "char_of (48 + d) \<noteq> CHR ''.''" and "char_of (48 + d) \<noteq> CHR ''+''"
    by metis+
qed

lemma decimal_parses:
  assumes n: "n < 256"
  shows "parse_u8 (decimal n) = Some (word_of_nat n)" and "CHR ''.'' \<notin> set (decimal n)"
    and "decimal n \<noteq> []" and "length (decimal n) \<le> 3"
proof -
  have arith: "n div 10 * 10 + n mod 10 = n" "n div 100 * 10 + n div 10 mod 10 = n div 10"
    using div_mult_mod_eq [of n 10] div_mult_mod_eq [of "n div 10" 10] div_mult2_eq [of n 10 10] by simp_all
  have "parse_u8 (decimal n) = Some (word_of_nat n) \<and> CHR ''.'' \<notin> set (decimal n) \<and>
    decimal n \<noteq> [] \<and> length (decimal n) \<le> 3"
  proof (cases "n < 10")
    case True
    then show ?thesis
      by (simp add: decimal.simps [of n] parse_u8_def digit_not_special digit_not_special [symmetric])
  next
    case big: False
    show ?thesis
    proof (cases "n < 100")
      case True
      then have "n div 10 < 10" by simp
      then show ?thesis
        using big arith(1) n
        by (simp add: decimal.simps [of n] decimal.simps [of "n div 10"] parse_u8_def
            digit_not_special digit_not_special [symmetric])
    next
      case False
      have d: "n div 100 < 10" "\<not> n div 10 < 10" "n div 10 < 256"
        using False n by simp_all
      have "decimal n = decimal (n div 10) @ [char_of (48 + n mod 10)]"
        using big by (simp add: decimal.simps [of n])
      moreover have "decimal (n div 10) = decimal (n div 100) @ [char_of (48 + n div 10 mod 10)]"
        using d(2) by (subst decimal.simps) (simp add: div_mult2_eq [of n 10 10, simplified])
      moreover have "decimal (n div 100) = [char_of (48 + n div 100)]"
        using d(1) by (subst decimal.simps) simp
      ultimately have "decimal n =
          [char_of (48 + n div 100), char_of (48 + n div 10 mod 10), char_of (48 + n mod 10)]"
        by simp
      then show ?thesis
        using d arith n
        by (simp add: parse_u8_def digit_not_special digit_not_special [symmetric])
    qed
  qed
  then show "parse_u8 (decimal n) = Some (word_of_nat n)" "CHR ''.'' \<notin> set (decimal n)"
    "decimal n \<noteq> []" "length (decimal n) \<le> 3"
    by blast+
qed

lemma split_char_word: "c \<notin> set w \<Longrightarrow> split_char c w = [w]"
  by (induction w) auto

lemma split_char_append: "c \<notin> set w \<Longrightarrow> split_char c (w @ c # rest) = w # split_char c rest"
  by (induction w) auto

lemma address_display_roundtrip: "parse_address (display_address a) = Some a"
proof -
  have byte: "unat b < 256" for b :: u8
    using unsigned_less [of b, where 'a = nat] by simp
  let ?d = "\<lambda>i. decimal (unat (be32 a ! i))"
  have "split_char (CHR ''.'') (display_address a) = [?d 0, ?d 1, ?d 2, ?d 3]"
    by (simp add: display_address_def Let_def split_char_append split_char_word decimal_parses(2) byte)
  moreover have "parse_u8 (?d i) = Some (be32 a ! i)" for i
    using decimal_parses(1) [OF byte, of "be32 a ! i"] by simp
  ultimately show ?thesis
    by (simp add: parse_address_def decimal_parses(3,4) byte not_less)
      (simp add: be32_def)
qed

section \<open>What a configuration is\<close>

text \<open>
  The promise of the comment on \<open>Config\<close>: an address a host can hold, a netmask that is ones
  followed by zeroes, an address that is not its subnet's network or broadcast address (on a
  subnet that has them), a gateway that is another host of the same subnet, and at most three
  name servers something could answer on, in the first slots.
\<close>

definition netmask_of :: "nat \<Rightarrow> ipv4_addr" where
  "netmask_of k = NOT (mask (32 - k))"

definition servers_ok :: "net_config \<Rightarrow> bool" where
  "servers_ok c \<longleftrightarrow>
     length (cf_nameservers c) = MAX_NAMESERVERS \<and> cf_nameserver_count c \<le> MAX_NAMESERVERS \<and>
     (\<forall>s \<in> set (nameservers c). \<not> is_unspecified s \<and> \<not> is_broadcast s \<and> \<not> is_multicast s) \<and>
     (\<forall>s \<in> set (drop (cf_nameserver_count c) (cf_nameservers c)). s = 0)"

definition config_ok :: "net_config \<Rightarrow> bool" where
  "config_ok c \<longleftrightarrow>
     is_host_address (cf_address c) \<and>
     (\<exists>k \<in> {1..32}. cf_netmask c = netmask_of k \<and> prefix_len c = k \<and>
        (k < 31 \<longrightarrow> cf_address c \<noteq> cf_address c AND netmask_of k \<and> cf_address c \<noteq> broadcast c)) \<and>
     (\<forall>g. cf_gateway c = Some g \<longrightarrow> g \<noteq> cf_address c \<and> is_host_address g \<and> on_link c g) \<and>
     servers_ok c"

lemma and_succ_zero_nat: "(n::nat) AND (n + 1) = 0 \<Longrightarrow> \<exists>k. n = mask k"
proof (induction n rule: less_induct)
  case (less n)
  show ?case
  proof (cases "n = 0")
    case True
    then have "n = mask 0" by simp
    then show ?thesis by blast
  next
    case False
    have "odd n"
    proof (rule ccontr)
      assume "\<not> odd n"
      then have "n AND (n + 1) = n"
        by (simp add: and_rec [of n])
      with less(2) False show False by simp
    qed
    then obtain m where m: "n = 2 * m + 1" by (elim oddE)
    have "m AND (m + 1) = 0"
    proof -
      have "n AND (n + 1) = 2 * (m AND (m + 1))"
        by (subst and_rec) (simp add: m)
      then show ?thesis using less(2) by simp
    qed
    then obtain k where "m = mask k"
      using less(1) [of m] m by auto
    then have "n = mask (Suc k)"
      using m one_le_power [of "2 :: nat" k] unfolding mask_eq_exp_minus_1 power_Suc by linarith
    then show ?thesis by blast
  qed
qed

lemma unat_mask: "k \<le> 32 \<Longrightarrow> unat (mask k :: ipv4_addr) = mask k"
  by (rule bit_eqI) (auto simp: bit_simps)

lemma netmask_run:
  fixes m :: ipv4_addr
  assumes "m \<noteq> 0" and "NOT m AND (NOT m + 1) = 0"
  obtains k where "k \<in> {1..32}" and "m = netmask_of k"
proof -
  let ?x = "NOT m"
  have "?x \<noteq> - 1"
    using assms(1) by (metis bit.compl_zero bit.double_compl)
  then have "unat ?x \<noteq> unat (- 1 :: ipv4_addr)"
    by (metis word_unat_eq_iff)
  then have "unat ?x + 1 < 2 ^ 32"
    using unsigned_less [of ?x, where 'a = nat] by (simp add: unsigned_minus_1_eq_mask mask_eq_exp_minus_1)
  then have succ: "unat (?x + 1) = unat ?x + 1"
    by (simp add: unat_word_ariths)
  have "unat ?x AND (unat ?x + 1) = unat (?x AND (?x + 1))"
    by (simp only: unsigned_and_eq succ)
  then have "unat ?x AND (unat ?x + 1) = 0"
    by (simp only: assms(2) unsigned_0)
  then obtain k where k: "unat ?x = mask k"
    using and_succ_zero_nat by blast
  have "k < 32"
  proof (rule ccontr)
    assume "\<not> k < 32"
    then have "(2 :: nat) ^ 32 \<le> 2 ^ k"
      by (intro power_increasing) simp_all
    then have "mask 32 \<le> (mask k :: nat)"
      unfolding mask_eq_exp_minus_1 by (rule diff_le_mono)
    then have "2 ^ 32 \<le> unat (?x + 1)"
      using k succ by (simp add: mask_eq_exp_minus_1)
    then show False
      using unsigned_less [of "?x + 1", where 'a = nat] by simp
  qed
  have "?x = mask k"
    using k \<open>k < 32\<close> by (simp add: word_unat_eq_iff unat_mask)
  then have "m = NOT (mask k)"
    by (metis bit.double_compl)
  then have "m = netmask_of (32 - k)" "32 - k \<in> {1..32}"
    using \<open>k < 32\<close> by (simp_all add: netmask_of_def)
  then show thesis using that by blast
qed

lemma prefix_len_netmask_of:
  assumes "cf_netmask c = netmask_of k" and "k \<le> 32"
  shows "prefix_len c = k"
proof -
  have "rev [0..<32] = rev [32 - k..<32] @ rev [0..<32 - k]"
    using upt_add_eq_append [of 0 "32 - k" k] assms(2) by (metis le0 le_add_diff_inverse2 rev_append)
  moreover have "takeWhile (bit (netmask_of k)) (rev [32 - k..<32] @ rev [0..<32 - k]) = rev [32 - k..<32]"
  proof -
    have in_run: "bit (netmask_of k) i" if "i \<in> set (rev [32 - k..<32])" for i
      using that by (simp add: netmask_of_def bit_simps)
    have "\<not> bit (netmask_of k) i" if "i \<in> set (rev [0..<32 - k])" for i
      using that by (simp add: netmask_of_def bit_simps)
    then have "takeWhile (bit (netmask_of k)) (rev [0..<32 - k]) = []"
      by (metis list.set_sel(1) takeWhile_eq_Nil_iff)
    then show ?thesis
      using in_run by (simp only: takeWhile_append2) simp
  qed
  ultimately show ?thesis
    using assms by (simp add: prefix_len_def)
qed

lemma mask_above_one:
  assumes "k < 31"
  shows "(1 :: ipv4_addr) < mask (32 - k)"
proof -
  have "(2 :: nat) ^ 2 \<le> 2 ^ (32 - k)"
    using assms by (intro power_increasing) simp_all
  then have "1 < unat (mask (32 - k) :: ipv4_addr)"
    using unat_mask [of "32 - k"] by (simp add: mask_eq_exp_minus_1 [where 'a = nat])
  then show ?thesis
    by (simp add: word_less_nat_alt)
qed

lemma host_part_ends:
  fixes a h :: ipv4_addr
  shows "a AND h = 0 \<longleftrightarrow> a = a AND NOT h" and "a AND h = h \<longleftrightarrow> a = a OR h"
  by (auto simp: bit_eq_iff bit_simps)

lemma add_nameservers_frame:
  "cf_address (add_nameservers ns c) = cf_address c \<and> cf_netmask (add_nameservers ns c) = cf_netmask c \<and>
   cf_gateway (add_nameservers ns c) = cf_gateway c"
  by (induction ns c rule: add_nameservers.induct) auto

lemma servers_ok_push:
  assumes "servers_ok c" "cf_nameserver_count c < MAX_NAMESERVERS"
    and "\<not> (is_unspecified server \<or> is_broadcast server \<or> is_multicast server)"
  shows "servers_ok (c\<lparr>cf_nameservers := (cf_nameservers c)[cf_nameserver_count c := server],
    cf_nameserver_count := cf_nameserver_count c + 1\<rparr>)"
proof -
  let ?n = "cf_nameserver_count c" and ?ns = "cf_nameservers c"
  have "take (?n + 1) (?ns[?n := server]) = nameservers c @ [server]"
    using assms by (simp add: nameservers_def servers_ok_def take_Suc_conv_app_nth)
  moreover have "set (drop (?n + 1) (?ns[?n := server])) \<subseteq> set (drop ?n ?ns)"
    using set_drop_subset_set_drop [of ?n "?n + 1" ?ns] by simp
  ultimately show ?thesis
    using assms unfolding servers_ok_def nameservers_def by (auto simp del: drop_update_cancel take_update_cancel)
qed

lemma add_nameservers_slots: "servers_ok c \<Longrightarrow> servers_ok (add_nameservers ns c)"
proof (induction ns c rule: add_nameservers.induct)
  case (2 server servers c)
  then have "cf_nameserver_count c \<le> MAX_NAMESERVERS"
    by (simp only: servers_ok_def)
  then show ?case
    using 2 servers_ok_push [of c server] by simp
qed simp

text \<open>
  C35 (a \<open>Config\<close> is what its comment promises): whatever \<open>Config::new\<close> accepts satisfies
  \<open>config_ok\<close>, keeps the address and the netmask it was given, and every next hop it names is
  the broadcast address, a multicast address or a host of the machine's own subnet, so what is
  handed to address resolution is always something on the link.
\<close>

theorem config_new_ok:
  assumes "config_new address netmask gateway servers = Inr c"
  shows "config_ok c \<and> cf_address c = address \<and> cf_netmask c = netmask \<and> cf_gateway c = gateway \<and>
    (\<forall>d h. next_hop c d = Some h \<longrightarrow> is_broadcast h \<or> is_multicast h \<or> on_link c h)"
proof -
  have ok: "is_host_address address" "netmask \<noteq> 0" "NOT netmask AND (NOT netmask + 1) = 0"
    "NOT netmask > 1 \<Longrightarrow> address AND NOT netmask \<noteq> 0 \<and> address AND NOT netmask \<noteq> NOT netmask"
    using assms by (auto simp: config_new_def Let_def split: if_splits)
  let ?base = "\<lparr>cf_address = address, cf_netmask = netmask, cf_gateway = gateway,
      cf_nameservers = replicate MAX_NAMESERVERS 0, cf_nameserver_count = 0\<rparr>"
  have c: "c = add_nameservers servers ?base"
    and gw: "\<forall>g. gateway = Some g \<longrightarrow> g \<noteq> address \<and> is_host_address g \<and> on_link ?base g"
    using assms by (auto simp: config_new_def Let_def on_link_def split: if_splits option.splits)
  have frame: "cf_address c = address" "cf_netmask c = netmask" "cf_gateway c = gateway"
    using add_nameservers_frame [of servers ?base] by (simp_all add: c)
  obtain k where k: "k \<in> {1..32}" "netmask = netmask_of k"
    using netmask_run ok(2,3) by blast
  have ends: "cf_address c \<noteq> cf_address c AND netmask_of k \<and> cf_address c \<noteq> broadcast c" if "k < 31"
    using ok(4) mask_above_one [OF that] k(2) host_part_ends [of address "mask (32 - k)"]
    by (simp add: frame broadcast_def netmask_of_def)
  have "servers_ok ?base"
    by (simp add: servers_ok_def nameservers_def)
  then have slots: "servers_ok c"
    unfolding c by (rule add_nameservers_slots)
  have "config_ok c"
    unfolding config_ok_def frame
    using ok(1) k ends prefix_len_netmask_of [of c k] gw slots
    by (auto simp: frame on_link_def)
  moreover have "is_broadcast h \<or> is_multicast h \<or> on_link c h" if "next_hop c d = Some h" for d h
    using that gw by (auto simp: next_hop_def frame on_link_def split: if_splits)
  ultimately show ?thesis
    using frame by blast
qed

theorem config_new_ok_witness:
  "\<exists>c. config_new 0xC0A80002 0xFFFFFF00 (Some 0xC0A80001) [0x08080808] = Inr c \<and> config_ok c"
proof -
  let ?c = "\<lparr>cf_address = 0xC0A80002, cf_netmask = 0xFFFFFF00, cf_gateway = Some 0xC0A80001,
      cf_nameservers = [0x08080808, 0, 0], cf_nameserver_count = 1\<rparr>"
  have "config_new 0xC0A80002 0xFFFFFF00 (Some 0xC0A80001) [0x08080808] = Inr ?c"
    by (simp add: config_new_def Let_def is_host_address_def on_link_def MAX_NAMESERVERS_def is_unspecified_def is_broadcast_def is_multicast_def numeral_3_eq_3)
  then show ?thesis
    using config_new_ok by blast
qed

end
