(* ===== verification/Tcp.thy ===== *)
theory Tcp
  imports Net_Config
begin

text \<open>
  \<open>kernel/src/net/tcp.rs\<close>: segments on the wire and the transmission control block with every
  operation on it.

  Sequence numbers are 32-bit words and wrap; windows, counters and clocks are \<open>nat\<close> with the
  saturating and truncating operations of the source written out.  An operation takes the
  control block and the surroundings it touches: the clocks, the configuration the source
  address comes from, the count of held bytes every connection shares, the secret of the
  initial sequence numbers, and the calls of \<open>ip::send_from\<close> it has made, whose results the
  source throws away.
\<close>

section \<open>Sequence numbers\<close>

definition seq_lt :: "u32 \<Rightarrow> u32 \<Rightarrow> bool" where
  "seq_lt a b \<longleftrightarrow> sint (a - b) < 0"

definition seq_le :: "u32 \<Rightarrow> u32 \<Rightarrow> bool" where
  "seq_le a b \<longleftrightarrow> sint (a - b) \<le> 0"

definition seq_gt :: "u32 \<Rightarrow> u32 \<Rightarrow> bool" where
  "seq_gt a b \<longleftrightarrow> sint (a - b) > 0"

section \<open>Segments\<close>

definition FIN :: u8 where
  "FIN = 0x01"

definition SYN :: u8 where
  "SYN = 0x02"

definition RST :: u8 where
  "RST = 0x04"

definition PSH :: u8 where
  "PSH = 0x08"

definition ACK :: u8 where
  "ACK = 0x10"

definition TCP_HEADER_LEN :: nat where
  "TCP_HEADER_LEN = 20"

definition MSS :: nat where
  "MSS = 1460"

definition MIN_MSS :: nat where
  "MIN_MSS = 536"

definition RECEIVE_WINDOW :: nat where
  "RECEIVE_WINDOW = 65535"

definition SEND_BUFFER :: nat where
  "SEND_BUFFER = 64 * 1024"

definition INITIAL_RTO :: nat where
  "INITIAL_RTO = 100"

definition MIN_RTO :: nat where
  "MIN_RTO = 20"

definition MAX_RTO :: nat where
  "MAX_RTO = 600"

definition MAX_RETRIES :: nat where
  "MAX_RETRIES = 8"

definition DUPLICATE_ACK_THRESHOLD :: nat where
  "DUPLICATE_ACK_THRESHOLD = 3"

definition SYN_RETRIES :: nat where
  "SYN_RETRIES = 5"

definition TIME_WAIT_TICKS :: nat where
  "TIME_WAIT_TICKS = 1000"

definition FIN_WAIT_2_TICKS :: nat where
  "FIN_WAIT_2_TICKS = 6000"

definition REASSEMBLY_TICKS :: nat where
  "REASSEMBLY_TICKS = 3000"

definition MAX_HELD_RUNS :: nat where
  "MAX_HELD_RUNS = 16"

definition REASSEMBLY_LIMIT :: nat where
  "REASSEMBLY_LIMIT = 128 * 1024"

datatype tcp_state =
    Closed | Listen | SynSent | SynReceived | Established | FinWait1 | FinWait2 | CloseWait
  | Closing | LastAck | TimeWait

definition is_synchronised :: "tcp_state \<Rightarrow> bool" where
  "is_synchronised s \<longleftrightarrow>
     s \<in> {Established, FinWait1, FinWait2, CloseWait, Closing, LastAck, TimeWait}"

definition can_output :: "tcp_state \<Rightarrow> bool" where
  "can_output s \<longleftrightarrow> s \<in> {Established, CloseWait, FinWait1, Closing, LastAck}"

record segment =
  sg_source_port :: u16
  sg_destination_port :: u16
  sg_sequence :: u32
  sg_acknowledgement :: u32
  sg_flags :: u8
  sg_window :: u16
  sg_mss :: "u16 option"
  sg_payload :: bytes

text \<open>The option list, from byte \<open>i\<close> of the header to its end.\<close>

function parse_options :: "bytes \<Rightarrow> nat \<Rightarrow> nat \<Rightarrow> u16 option \<Rightarrow> u16 option" where
  "parse_options bs i offset mss =
     (if i < offset then
        if bs ! i = 0 then mss
        else if bs ! i = 1 then parse_options bs (i + 1) offset mss
        else if i + 1 \<ge> offset then mss
        else
          let len = unat (bs ! (i + 1)) in
          if len < 2 \<or> i + len > offset then mss
          else parse_options bs (i + len) offset
            (if bs ! i = 2 \<and> len = 4 then Some (u16_from_be (bs ! (i + 2)) (bs ! (i + 3))) else mss)
      else mss)"
  by pat_completeness auto
termination by (relation "measure (\<lambda>(bs, i, offset, mss). offset - i)") auto

declare parse_options.simps [simp del]

definition segment_parse :: "bytes \<Rightarrow> segment option" where
  "segment_parse bs =
     (if length bs < TCP_HEADER_LEN then None
      else
        let offset = unat (drop_bit 4 (bs ! 12)) * 4 in
        if offset < TCP_HEADER_LEN \<or> length bs < offset then None
        else Some
          \<lparr>sg_source_port = u16_from_be (bs ! 0) (bs ! 1),
           sg_destination_port = u16_from_be (bs ! 2) (bs ! 3),
           sg_sequence = u32_from_be (bs ! 4) (bs ! 5) (bs ! 6) (bs ! 7),
           sg_acknowledgement = u32_from_be (bs ! 8) (bs ! 9) (bs ! 10) (bs ! 11),
           sg_flags = bs ! 13,
           sg_window = u16_from_be (bs ! 14) (bs ! 15),
           sg_mss = parse_options bs TCP_HEADER_LEN offset None,
           sg_payload = drop offset bs\<rparr>)"

definition segment_length :: "segment \<Rightarrow> nat" where
  "segment_length s = length (sg_payload s) + of_bool (sg_flags s AND SYN \<noteq> 0)
     + of_bool (sg_flags s AND FIN \<noteq> 0)"

definition segment_build ::
  "endpoint \<Rightarrow> endpoint \<Rightarrow> u32 \<Rightarrow> u32 \<Rightarrow> u8 \<Rightarrow> u16 \<Rightarrow> u16 option \<Rightarrow> bytes \<Rightarrow> bytes" where
  "segment_build source destination sequence acknowledgement flags window mss payload =
     (let options = (if mss \<noteq> None then 4 else 0);
          offset = TCP_HEADER_LEN + options;
          segment = be16 (ep_port source) @ be16 (ep_port destination) @ be32 sequence @
            be32 acknowledgement @ [push_bit 4 (word_of_nat (offset div 4)), flags] @ be16 window @
            [0, 0] @ [0, 0] @
            (case mss of Some m \<Rightarrow> [2, 4] @ be16 m | None \<Rightarrow> []) @ payload;
          pseudo = pseudo_sum (ep_address source) (ep_address destination) PROTO_TCP (length segment);
          checksum = net_fold (net_sum segment pseudo)
      in copy_into segment 16 (be16 checksum))"

section \<open>The control block\<close>

record held_run =
  hr_sequence :: u32
  hr_data :: bytes

definition held_end :: "held_run \<Rightarrow> u32" where
  "held_end r = hr_sequence r + word_of_nat (length (hr_data r))"

record tcb =
  t_state :: tcp_state
  t_local :: endpoint
  t_remote :: endpoint
  t_bound :: bool
  t_iss :: u32
  t_send_unacknowledged :: u32
  t_send_next :: u32
  t_send_high :: u32
  t_send_window :: nat
  t_window_sequence :: u32
  t_window_ack :: u32
  t_irs :: u32
  t_receive_next :: u32
  t_receive_high :: u32
  t_out_of_order :: "held_run list"
  t_held :: nat
  t_held_fin :: "u32 option"
  t_reassembly_expire_at :: nat
  t_pending :: bytes
  t_received :: bytes
  t_fin_queued :: bool
  t_fin_sequence :: "u32 option"
  t_fin_acknowledged :: bool
  t_fin_received :: bool
  t_read_shutdown :: bool
  t_abandoned :: bool
  t_error :: "errno option"
  t_peer_mss :: nat
  t_retransmit_at :: nat
  t_rto :: nat
  t_srtt :: nat
  t_rttvar :: nat
  t_timed :: "u32 option"
  t_timed_at :: nat
  t_retries :: nat
  t_expire_at :: nat
  t_congestion_window :: nat
  t_slow_start_threshold :: nat
  t_duplicate_acks :: nat
  t_recover :: "u32 option"
  t_fast_retransmits :: nat
  t_timeouts :: nat
  t_backlog :: nat
  t_children :: "nat list"

definition tcb_new :: tcb where
  "tcb_new =
     \<lparr>t_state = Closed, t_local = ENDPOINT_UNSPECIFIED, t_remote = ENDPOINT_UNSPECIFIED,
      t_bound = False, t_iss = 0, t_send_unacknowledged = 0, t_send_next = 0, t_send_high = 0,
      t_send_window = MSS, t_window_sequence = 0, t_window_ack = 0, t_irs = 0, t_receive_next = 0,
      t_receive_high = 0, t_out_of_order = [], t_held = 0, t_held_fin = None,
      t_reassembly_expire_at = 0, t_pending = [], t_received = [], t_fin_queued = False,
      t_fin_sequence = None, t_fin_acknowledged = False, t_fin_received = False,
      t_read_shutdown = False, t_abandoned = False, t_error = None, t_peer_mss = MSS,
      t_retransmit_at = 0, t_rto = INITIAL_RTO, t_srtt = 0, t_rttvar = 0, t_timed = None,
      t_timed_at = 0, t_retries = 0, t_expire_at = 0, t_congestion_window = MSS,
      t_slow_start_threshold = 64 * 1024, t_duplicate_acks = 0, t_recover = None,
      t_fast_retransmits = 0, t_timeouts = 0, t_backlog = 1, t_children = []\<rparr>"

section \<open>The surroundings of a connection\<close>

text \<open>
  \<open>te_random\<close> is what \<open>rng::next_u64\<close> would return, \<open>te_held_bytes\<close> is \<open>HELD_BYTES\<close>, and
  \<open>te_sent\<close> lists the calls of \<open>ip::send_from\<close> as source, destination, protocol and payload.
\<close>

record tcp_env =
  te_ticks :: nat
  te_monotonic_ns :: nat
  te_config :: "net_config option"
  te_held_bytes :: nat
  te_isn_secret :: u64
  te_random :: u64
  te_sent :: "(ipv4_addr \<times> ipv4_addr \<times> u8 \<times> bytes) list"

definition source_for :: "net_config option \<Rightarrow> ipv4_addr \<Rightarrow> errno + ipv4_addr" where
  "source_for config destination =
     (if is_loopback destination then Inr (ipv4_new 127 0 0 1)
      else case config of
             Some c \<Rightarrow> Inr (cf_address c)
           | None \<Rightarrow> if is_broadcast destination then Inr 0 else Inl ENETUNREACH)"

definition isn_secret :: "tcp_env \<Rightarrow> u64 \<times> tcp_env" where
  "isn_secret e =
     (if te_isn_secret e \<noteq> 0 then (te_isn_secret e, e)
      else let drawn = te_random e OR 1 in (drawn, e\<lparr>te_isn_secret := drawn\<rparr>))"

definition isn_mix :: "u64 \<Rightarrow> u64" where
  "isn_mix x =
     (let x = x XOR drop_bit 30 x;
          x = x * 0xBF58476D1CE4E5B9;
          x = x XOR drop_bit 27 x;
          x = x * 0x94D049BB133111EB
      in x XOR drop_bit 31 x)"

definition initial_sequence :: "endpoint \<Rightarrow> endpoint \<Rightarrow> tcp_env \<Rightarrow> u32 \<times> tcp_env" where
  "initial_sequence local_end remote_end e =
     (let clock = word_of_nat (te_monotonic_ns e div 4000) :: u32;
          addresses = push_bit 32 (ucast (ep_address local_end)) OR ucast (ep_address remote_end) :: u64;
          ports = push_bit 16 (ucast (ep_port local_end)) OR ucast (ep_port remote_end) :: u64;
          (secret, e) = isn_secret e;
          hash = isn_mix (isn_mix (secret XOR addresses) XOR ports)
      in (clock + ucast hash, e))"

section \<open>Windows, segments and timers\<close>

definition effective_mss :: "tcb \<Rightarrow> nat" where
  "effective_mss t = min (t_peer_mss t) MSS"

definition source_address :: "tcb \<Rightarrow> tcp_env \<Rightarrow> errno + ipv4_addr" where
  "source_address t e =
     (if is_unspecified (ep_address (t_local t)) then source_for (te_config e) (ep_address (t_remote t))
      else Inr (ep_address (t_local t)))"

definition advertised_window :: "tcb \<Rightarrow> nat" where
  "advertised_window t =
     (if seq_le (t_receive_high t) (t_receive_next t) then 0
      else min (unat (t_receive_high t - t_receive_next t)) U16_MAX)"

definition open_window :: "bool \<Rightarrow> tcb \<Rightarrow> tcb" where
  "open_window advanced t =
     (let t = (if seq_lt (t_receive_high t) (t_receive_next t)
               then t\<lparr>t_receive_high := t_receive_next t\<rparr> else t);
          free = RECEIVE_WINDOW - length (t_received t);
          wanted = t_receive_next t + word_of_nat free;
          step = min MSS (RECEIVE_WINDOW div 2)
      in if \<not> seq_gt wanted (t_receive_high t) \<or> unat (wanted - t_receive_high t) < step then t
         else if advanced \<or> advertised_window t < step then t\<lparr>t_receive_high := wanted\<rparr>
         else t)"

definition send_segment :: "tcb \<Rightarrow> u8 \<Rightarrow> u32 \<Rightarrow> bytes \<Rightarrow> bool \<Rightarrow> tcp_env \<Rightarrow> tcp_env" where
  "send_segment t flags sequence payload with_mss e =
     (case source_address t e of
        Inl _ \<Rightarrow> e
      | Inr address \<Rightarrow>
          let source = endpoint_new address (ep_port (t_local t));
              segment = segment_build source (t_remote t) sequence
                (if flags AND ACK \<noteq> 0 then t_receive_next t else 0) flags
                (word_of_nat (advertised_window t))
                (if with_mss then Some (word_of_nat MSS) else None) payload
          in e\<lparr>te_sent := te_sent e @ [(address, ep_address (t_remote t), PROTO_TCP, segment)]\<rparr>)"

definition acknowledge :: "tcb \<Rightarrow> tcp_env \<Rightarrow> tcp_env" where
  "acknowledge t e = send_segment t ACK (t_send_next t) [] False e"

definition arm_retransmit :: "tcp_env \<Rightarrow> tcb \<Rightarrow> tcb" where
  "arm_retransmit e t =
     (if t_retransmit_at t = 0 then t\<lparr>t_retransmit_at := te_ticks e + t_rto t\<rparr> else t)"

definition send_syn_ack :: "tcb \<times> tcp_env \<Rightarrow> tcb \<times> tcp_env" where
  "send_syn_ack te =
     (let (t, e) = te; e = send_segment t (SYN OR ACK) (t_iss t) [] True e in (arm_retransmit e t, e))"

definition sent_through :: "u32 \<Rightarrow> tcb \<Rightarrow> tcb" where
  "sent_through sequence t =
     (let t = t\<lparr>t_send_next := sequence\<rparr>
      in if seq_lt (t_send_high t) sequence then t\<lparr>t_send_high := sequence\<rparr> else t)"

definition TICK_HZ :: nat where
  "TICK_HZ = 100"

definition ns_to_ticks :: "nat \<Rightarrow> nat" where
  "ns_to_ticks ns = (let per_tick = 1000000000 div TICK_HZ in (ns + per_tick - 1) div per_tick)"

definition nat_clamp :: "nat \<Rightarrow> nat \<Rightarrow> nat \<Rightarrow> nat" where
  "nat_clamp lo hi v = min (max v lo) hi"

definition estimated_rto :: "tcb \<Rightarrow> nat" where
  "estimated_rto t =
     (let granularity = 1000000 div TICK_HZ;
          slack = max (saturating_mul U32_MAX (t_rttvar t) 4) granularity;
          microseconds = saturating_add U32_MAX (t_srtt t) slack
      in nat_clamp MIN_RTO MAX_RTO (ns_to_ticks (microseconds * 1000)))"

definition measure_rtt :: "nat \<Rightarrow> tcb \<Rightarrow> tcb" where
  "measure_rtt microseconds t =
     (let sample = max microseconds 1;
          t = (if t_srtt t = 0 then t\<lparr>t_srtt := sample, t_rttvar := sample div 2\<rparr>
               else
                 let difference = (if t_srtt t < sample then sample - t_srtt t else t_srtt t - sample)
                 in t\<lparr>t_rttvar := (t_rttvar t * 3 + difference) div 4 mod 2 ^ 32,
                      t_srtt := (t_srtt t * 7 + sample) div 8 mod 2 ^ 32\<rparr>)
      in t\<lparr>t_rto := estimated_rto t\<rparr>)"

definition time_segment :: "tcp_env \<Rightarrow> u32 \<Rightarrow> tcb \<Rightarrow> tcb" where
  "time_segment e sequence t =
     (if t_timed t = None then t\<lparr>t_timed := Some sequence, t_timed_at := te_monotonic_ns e\<rparr> else t)"

section \<open>Opening\<close>

definition tcp_open :: "tcb \<times> tcp_env \<Rightarrow> tcb \<times> tcp_env" where
  "tcp_open te =
     (let (t, e) = te;
          t = t\<lparr>t_receive_high := t_receive_next t + word_of_nat RECEIVE_WINDOW\<rparr>;
          (iss, e) = initial_sequence (t_local t) (t_remote t) e;
          t = t\<lparr>t_iss := iss, t_send_unacknowledged := iss, t_send_next := iss, t_send_high := iss,
                t_state := SynSent, t_congestion_window := MSS, t_rto := INITIAL_RTO, t_retries := 0\<rparr>;
          e = send_segment t SYN iss [] True e;
          t = sent_through (iss + 1) t;
          t = time_segment e (iss + 1) t
      in (arm_retransmit e t, e))"

definition take_mss :: "segment \<Rightarrow> tcb \<Rightarrow> tcb" where
  "take_mss seg t =
     (case sg_mss seg of
        Some mss \<Rightarrow> t\<lparr>t_peer_mss := nat_clamp MIN_MSS MSS (unat mss)\<rparr>
      | None \<Rightarrow> t)"

definition accept_open :: "segment \<Rightarrow> tcb \<times> tcp_env \<Rightarrow> tcb \<times> tcp_env" where
  "accept_open seg te =
     (let (t, e) = te;
          t = t\<lparr>t_irs := sg_sequence seg, t_receive_next := sg_sequence seg + 1,
                t_receive_high := sg_sequence seg + 1 + word_of_nat RECEIVE_WINDOW\<rparr>;
          t = take_mss seg t;
          t = t\<lparr>t_send_window := unat (sg_window seg), t_window_sequence := sg_sequence seg\<rparr>;
          (iss, e) = initial_sequence (t_local t) (t_remote t) e;
          t = t\<lparr>t_iss := iss, t_send_unacknowledged := iss, t_send_high := iss\<rparr>;
          t = sent_through (iss + 1) t;
          t = time_segment e (iss + 1) t
      in (t\<lparr>t_window_ack := iss, t_state := SynReceived, t_congestion_window := MSS,
            t_rto := INITIAL_RTO\<rparr>, e))"

section \<open>What is held past a gap\<close>

definition held_total :: "held_run list \<Rightarrow> nat" where
  "held_total runs = sum_list (map (\<lambda>r. length (hr_data r)) runs)"

definition account :: "tcb \<times> tcp_env \<Rightarrow> tcb \<times> tcp_env" where
  "account te =
     (let (t, e) = te;
          held = held_total (t_out_of_order t);
          e = (if held > t_held t then e\<lparr>te_held_bytes := (te_held_bytes e + (held - t_held t)) mod 2 ^ 64\<rparr>
               else e\<lparr>te_held_bytes := (te_held_bytes e + 2 ^ 64 - (t_held t - held)) mod 2 ^ 64\<rparr>)
      in (t\<lparr>t_held := held\<rparr>, e))"

definition drop_out_of_order :: "tcb \<times> tcp_env \<Rightarrow> tcb \<times> tcp_env" where
  "drop_out_of_order te =
     (let (t, e) = te
      in account (t\<lparr>t_out_of_order := [], t_held_fin := None, t_reassembly_expire_at := 0\<rparr>, e))"

definition arm_reassembly :: "tcp_env \<Rightarrow> tcb \<Rightarrow> tcb" where
  "arm_reassembly e t = t\<lparr>t_reassembly_expire_at := te_ticks e + REASSEMBLY_TICKS\<rparr>"

text \<open>
  One run against those already joined, of which the last is looked at.  Runs are sorted by their
  distance from the byte wanted next; a list this short is sorted by insertion, which keeps equal
  keys in order.
\<close>

definition join_run :: "held_run list \<Rightarrow> held_run \<Rightarrow> held_run list" where
  "join_run joined run =
     (case rev joined of
        l # before \<Rightarrow>
          if seq_le (hr_sequence run) (held_end l)
          then
            let overlap = unat (held_end l - hr_sequence run) in
            if overlap < length (hr_data run)
            then rev (l\<lparr>hr_data := hr_data l @ drop overlap (hr_data run)\<rparr> # before)
            else joined
          else joined @ [run]
      | [] \<Rightarrow> [run])"

definition coalesce :: "tcb \<Rightarrow> tcb" where
  "coalesce t =
     (let base = t_receive_next t;
          runs = sort_key (\<lambda>run. unat (hr_sequence run - base)) (t_out_of_order t)
      in t\<lparr>t_out_of_order := foldl join_run [] runs\<rparr>)"

definition hold_run :: "u32 \<Rightarrow> bytes \<Rightarrow> tcb \<times> tcp_env \<Rightarrow> tcb \<times> tcp_env" where
  "hold_run sequence payload te =
     (let (t, e) = te;
          right = t_receive_next t + word_of_nat (advertised_window t)
      in if \<not> seq_lt sequence right then (t, e)
         else
           let room = unat (right - sequence);
               payload = take (min (length payload) room) payload
           in if payload = [] then (t, e)
              else if te_held_bytes e + length payload > REASSEMBLY_LIMIT then (t, e)
              else
                let t = t\<lparr>t_out_of_order := t_out_of_order t @ [\<lparr>hr_sequence = sequence, hr_data = payload\<rparr>]\<rparr>;
                    t = coalesce t;
                    t = (if length (t_out_of_order t) > MAX_HELD_RUNS
                         then t\<lparr>t_out_of_order := butlast (t_out_of_order t)\<rparr> else t);
                    (t, e) = account (t, e)
                in (arm_reassembly e t, e))"

fun deliver_runs :: "held_run list \<Rightarrow> u32 \<Rightarrow> bytes \<Rightarrow> held_run list \<times> u32 \<times> bytes" where
  "deliver_runs [] receive_next received = ([], receive_next, received)"
| "deliver_runs (run # runs) receive_next received =
     (if seq_gt (hr_sequence run) receive_next then (run # runs, receive_next, received)
      else
        let skip = unat (receive_next - hr_sequence run) in
        if skip \<ge> length (hr_data run) then deliver_runs runs receive_next received
        else
          let free = RECEIVE_WINDOW - length received;
              n = min (length (hr_data run) - skip) free;
              received = received @ take n (drop skip (hr_data run));
              receive_next = receive_next + word_of_nat n
          in if skip + n < length (hr_data run)
             then (\<lparr>hr_sequence = receive_next, hr_data = drop (skip + n) (hr_data run)\<rparr> # runs,
                   receive_next, received)
             else deliver_runs runs receive_next received)"

definition deliver_held :: "tcb \<times> tcp_env \<Rightarrow> tcb \<times> tcp_env" where
  "deliver_held te =
     (let (t, e) = te;
          (runs, receive_next, received) = deliver_runs (t_out_of_order t) (t_receive_next t) (t_received t);
          t = t\<lparr>t_out_of_order := runs, t_receive_next := receive_next, t_received := received\<rparr>;
          (t, e) = account (t, e)
      in if t_out_of_order t = [] \<and> t_held_fin t = None then (t\<lparr>t_reassembly_expire_at := 0\<rparr>, e)
         else (arm_reassembly e t, e))"

section \<open>Output\<close>

text \<open>One round of the loop; the third part says whether there is another.\<close>

definition output_round :: "u32 \<Rightarrow> tcb \<Rightarrow> tcp_env \<Rightarrow> tcb \<times> tcp_env \<times> bool" where
  "output_round limit t e =
     (let offset = unat (t_send_next t - t_send_unacknowledged t);
          available = length (t_pending t) - offset
      in if available > 0 then
           if \<not> seq_lt (t_send_next t) limit then (t, e, False)
           else
             let room = unat (limit - t_send_next t);
                 n = min (min available (effective_mss t)) room
             in if n = 0 then (t, e, False)
                else
                  let chunk = take n (drop offset (t_pending t));
                      sequence = t_send_next t;
                      is_last = (offset + n = length (t_pending t));
                      flags = ACK OR (if is_last then PSH else 0);
                      until = sequence + word_of_nat n;
                      first_time = seq_lt (t_send_high t) until;
                      e = send_segment t flags sequence chunk False e;
                      t = sent_through until t;
                      t = (if first_time then time_segment e until t else t)
                  in (arm_retransmit e t, e, True)
         else if t_fin_queued t \<and> t_fin_sequence t = None then
           let sequence = t_send_next t;
               e = send_segment t (FIN OR ACK) sequence [] False e;
               t = sent_through (sequence + 1) (t\<lparr>t_fin_sequence := Some sequence\<rparr>)
           in (arm_retransmit e t, e, False)
         else (t, e, False))"

text \<open>Every round but the last sends at least one byte of the room that is left in the window.\<close>

lemma send_next_kept [simp]:
  "t_send_next (arm_retransmit e t) = t_send_next t"
  "t_send_next (time_segment e q t) = t_send_next t"
  "t_send_next (sent_through q t) = q"
  by (simp_all add: arm_retransmit_def time_segment_def sent_through_def Let_def)

lemma room_shrinks:
  fixes limit s :: u32
  assumes "n \<le> unat (limit - s)"
  shows "unat (limit - (s + word_of_nat n)) = unat (limit - s) - n"
proof -
  have n: "unat (word_of_nat n :: u32) = n"
    using assms unsigned_less [of "limit - s", where 'a = nat] by (simp add: unat_of_nat)
  have "limit - (s + word_of_nat n) = (limit - s) - word_of_nat n"
    by simp
  moreover have "word_of_nat n \<le> limit - s"
    using assms n by (simp add: word_le_nat_alt)
  ultimately show ?thesis
    using n by (simp only: unat_sub)
qed

lemma output_round_shrinks:
  assumes "output_round limit t e = (t', e', True)"
  shows "unat (limit - t_send_next t') < unat (limit - t_send_next t)"
proof -
  define n where "n = min (min (length (t_pending t) - unat (t_send_next t - t_send_unacknowledged t))
    (effective_mss t)) (unat (limit - t_send_next t))"
  have "n \<noteq> 0 \<and> t_send_next t' = t_send_next t + word_of_nat n"
    using assms unfolding output_round_def Let_def n_def [symmetric]
    by (simp split: if_split_asm) auto
  moreover have "n \<le> unat (limit - t_send_next t)"
    by (simp add: n_def)
  ultimately show ?thesis
    by (simp add: room_shrinks)
qed

function output_loop :: "u32 \<Rightarrow> tcb \<Rightarrow> tcp_env \<Rightarrow> tcb \<times> tcp_env" where
  "output_loop limit t e =
     (case output_round limit t e of
        (t', e', again) \<Rightarrow> if again then output_loop limit t' e' else (t', e'))"
  by pat_completeness auto
termination
  by (relation "measure (\<lambda>(limit, t, e). unat (limit - t_send_next t))")
    (auto dest: output_round_shrinks [OF sym])

declare output_loop.simps [simp del]

definition tcp_output :: "tcb \<times> tcp_env \<Rightarrow> tcb \<times> tcp_env" where
  "tcp_output te =
     (let (t, e) = te in
      if \<not> can_output (t_state t) then (t, e)
      else
        let usable = min (t_send_window t) (t_congestion_window t);
            limit = t_send_unacknowledged t + word_of_nat usable
        in output_loop limit t e)"

end
