(* ===== verification/Tcp_Control.thy ===== *)
theory Tcp_Control
  imports Tcp
begin

text \<open>
  \<open>kernel/src/net/tcp.rs\<close>, continued: what the user of a connection asks of it, what an arriving
  segment does to it, and what its timers do.  \<open>on_segment\<close> is one function of the source; its
  parts are separate definitions here, in the order the function runs them.
\<close>

section \<open>What the user asks\<close>

definition tcp_write :: "bytes \<Rightarrow> tcb \<times> tcp_env \<Rightarrow> (errno + nat) \<times> tcb \<times> tcp_env" where
  "tcp_write buf te =
     (let (t, e) = te in
      if t_state t = Established \<or> t_state t = CloseWait then
        if t_fin_queued t then (Inl EPIPE, t, e)
        else
          let room = SEND_BUFFER - length (t_pending t) in
          if room = 0 then (Inl EAGAIN, t, e)
          else
            let n = min room (length buf);
                te = tcp_output (t\<lparr>t_pending := t_pending t @ take n buf\<rparr>, e)
            in (Inr n, te)
      else if t_state t = SynSent \<or> t_state t = SynReceived then (Inl EAGAIN, t, e)
      else if t_state t = Closed then
        (Inl (case t_error t of Some err \<Rightarrow> err | None \<Rightarrow> ENOTCONN), t\<lparr>t_error := None\<rparr>, e)
      else if t_state t = Listen then (Inl ENOTCONN, t, e)
      else (Inl EPIPE, t, e))"

text \<open>The bytes put into a buffer of \<open>len\<close> bytes are the result.\<close>

definition tcp_read :: "nat \<Rightarrow> bool \<Rightarrow> tcb \<times> tcp_env \<Rightarrow> (errno + bytes) \<times> tcb \<times> tcp_env" where
  "tcp_read len peek te =
     (let (t, e) = te in
      if t_received t \<noteq> [] then
        let n = min len (length (t_received t));
            taken = take n (t_received t)
        in if peek then (Inr taken, t, e)
           else
             let t = t\<lparr>t_received := drop n (t_received t)\<rparr>;
                 offered_before = advertised_window t;
                 t = open_window False t
             in (Inr taken, t,
                 if offered_before < advertised_window t \<and> is_synchronised (t_state t)
                 then acknowledge t e else e)
      else if len = 0 then (Inr [], t, e)
      else if t_fin_received t \<or> t_read_shutdown t then (Inr [], t, e)
      else if t_state t = Closed then
        (case t_error t of Some err \<Rightarrow> Inl err | None \<Rightarrow> Inr [], t\<lparr>t_error := None\<rparr>, e)
      else if t_state t = Listen then (Inl ENOTCONN, t, e)
      else (Inl EAGAIN, t, e))"

definition shutdown_write :: "tcb \<times> tcp_env \<Rightarrow> tcb \<times> tcp_env" where
  "shutdown_write te =
     (let (t, e) = te in
      if t_fin_queued t then (t, e)
      else if t_state t = Established \<or> t_state t = SynReceived
      then tcp_output (t\<lparr>t_fin_queued := True, t_state := FinWait1\<rparr>, e)
      else if t_state t = CloseWait
      then tcp_output (t\<lparr>t_fin_queued := True, t_state := LastAck\<rparr>, e)
      else if t_state t = SynSent \<or> t_state t = Listen \<or> t_state t = Closed
      then (t\<lparr>t_state := Closed, t_retransmit_at := 0\<rparr>, e)
      else (t, e))"

definition tcp_abort :: "tcb \<times> tcp_env \<Rightarrow> tcb \<times> tcp_env" where
  "tcp_abort te =
     (let (t, e) = te;
          e = (if is_synchronised (t_state t) \<or> t_state t = SynReceived
               then send_segment t (RST OR ACK) (t_send_next t) [] False e else e)
      in drop_out_of_order
           (t\<lparr>t_state := Closed, t_retransmit_at := 0, t_pending := [], t_fin_queued := False\<rparr>, e))"

section \<open>Recovering from a loss\<close>

definition restart_timer :: "tcb \<times> tcp_env \<Rightarrow> tcb \<times> tcp_env" where
  "restart_timer te =
     (let (t, e) = te in (t\<lparr>t_timed := None, t_retransmit_at := te_ticks e + t_rto t\<rparr>, e))"

definition retransmit_head :: "tcb \<times> tcp_env \<Rightarrow> tcb \<times> tcp_env" where
  "retransmit_head te =
     (let (t, e) = te;
          n = min (length (t_pending t)) (effective_mss t)
      in if n = 0 then
           case t_fin_sequence t of
             Some sequence \<Rightarrow>
               if \<not> t_fin_acknowledged t
               then restart_timer (t, send_segment t (FIN OR ACK) sequence [] False e)
               else (t, e)
           | None \<Rightarrow> (t, e)
         else
           let chunk = take n (t_pending t);
               flags = ACK OR (if n = length (t_pending t) then PSH else 0)
           in restart_timer (t, send_segment t flags (t_send_unacknowledged t) chunk False e))"

definition halved_flight :: "tcb \<Rightarrow> nat" where
  "halved_flight t = max (unat (t_send_high t - t_send_unacknowledged t) div 2) (2 * MSS)"

definition enter_recovery :: "tcb \<times> tcp_env \<Rightarrow> tcb \<times> tcp_env" where
  "enter_recovery te =
     (let (t, e) = te;
          t = t\<lparr>t_slow_start_threshold := halved_flight t, t_recover := Some (t_send_high t),
                t_fast_retransmits := t_fast_retransmits t + 1\<rparr>;
          (t, e) = retransmit_head (t, e)
      in (t\<lparr>t_congestion_window :=
              saturating_add U32_MAX (t_slow_start_threshold t) (DUPLICATE_ACK_THRESHOLD * MSS)\<rparr>, e))"

section \<open>Closing\<close>

definition enter_time_wait :: "tcb \<times> tcp_env \<Rightarrow> tcb \<times> tcp_env" where
  "enter_time_wait te =
     (let (t, e) = te;
          (t, e) = drop_out_of_order (t\<lparr>t_state := TimeWait\<rparr>, e);
          t = t\<lparr>t_expire_at := te_ticks e + TIME_WAIT_TICKS, t_retransmit_at := 0, t_pending := [],
                t_read_shutdown := True\<rparr>
      in (if t_abandoned t then t\<lparr>t_received := []\<rparr> else t, e))"

definition enter_fin_wait_2 :: "tcb \<times> tcp_env \<Rightarrow> tcb \<times> tcp_env" where
  "enter_fin_wait_2 te =
     (let (t, e) = te; t = t\<lparr>t_state := FinWait2\<rparr>
      in (if t_abandoned t then t\<lparr>t_expire_at := te_ticks e + FIN_WAIT_2_TICKS\<rparr> else t, e))"

definition tcp_abandon :: "tcb \<times> tcp_env \<Rightarrow> tcb \<times> tcp_env" where
  "tcp_abandon te =
     (let (t, e) = te;
          (t, e) = drop_out_of_order (t\<lparr>t_abandoned := True\<rparr>, e)
      in (if t_state t = FinWait2 \<and> t_expire_at t = 0
          then t\<lparr>t_expire_at := te_ticks e + FIN_WAIT_2_TICKS\<rparr> else t, e))"

definition can_receive :: "tcb \<Rightarrow> bool" where
  "can_receive t \<longleftrightarrow>
     \<not> t_read_shutdown t \<and> \<not> t_abandoned t \<and> t_state t \<in> {Established, FinWait1, FinWait2}"

definition take_fin :: "tcb \<times> tcp_env \<Rightarrow> bool \<times> tcb \<times> tcp_env" where
  "take_fin te =
     (let (t, e) = te;
          t = t\<lparr>t_held_fin := None\<rparr>;
          t = (if t_out_of_order t = [] then t\<lparr>t_reassembly_expire_at := 0\<rparr> else t)
      in if t_fin_received t then (False, t, e)
         else
           let t = t\<lparr>t_fin_received := True, t_receive_next := t_receive_next t + 1\<rparr>
           in (True,
               if t_state t = Established then (t\<lparr>t_state := CloseWait\<rparr>, e)
               else if t_state t = FinWait1 then (t\<lparr>t_state := Closing\<rparr>, e)
               else if t_state t = FinWait2 then enter_time_wait (t, e)
               else (t, e)))"

section \<open>An arriving segment\<close>

definition acceptable :: "tcb \<Rightarrow> segment \<Rightarrow> bool" where
  "acceptable t seg =
     (let window = advertised_window t;
          len = segment_length seg;
          first = sg_sequence seg
      in if len = 0 then
           if window = 0 then first = t_receive_next t
           else seq_le (t_receive_next t) first \<and> seq_lt first (t_receive_next t + word_of_nat window)
         else if window = 0 then False
         else
           let final = first + word_of_nat (len - 1);
               right = t_receive_next t + word_of_nat window
           in seq_le (t_receive_next t) first \<and> seq_lt first right \<or>
              seq_le (t_receive_next t) final \<and> seq_lt final right)"

definition on_unacceptable :: "segment \<Rightarrow> tcb \<times> tcp_env \<Rightarrow> tcb \<times> tcp_env" where
  "on_unacceptable seg te =
     (let (t, e) = te in
      if sg_flags seg AND RST \<noteq> 0 then (t, e)
      else if t_state t = SynReceived \<and> sg_flags seg AND SYN \<noteq> 0 \<and> sg_flags seg AND ACK = 0 \<and>
        sg_sequence seg = t_irs t
      then send_syn_ack (t\<lparr>t_timed := None\<rparr>, e)
      else (t, acknowledge t e))"

definition on_reset :: "segment \<Rightarrow> tcb \<times> tcp_env \<Rightarrow> bool \<times> tcb \<times> tcp_env" where
  "on_reset seg te =
     (let (t, e) = te in
      if sg_sequence seg \<noteq> t_receive_next t then (False, t, acknowledge t e)
      else
        let t = t\<lparr>t_state := Closed, t_retransmit_at := 0, t_pending := []\<rparr>;
            (t, e) = drop_out_of_order (t, e)
        in (True, if t_error t = None then t\<lparr>t_error := Some ECONNRESET\<rparr> else t, e))"

definition is_duplicate_ack :: "segment \<Rightarrow> tcb \<Rightarrow> bool" where
  "is_duplicate_ack seg t \<longleftrightarrow>
     sg_payload seg = [] \<and> sg_flags seg AND (SYN OR FIN) = 0 \<and>
     sg_acknowledgement seg = t_send_unacknowledged t \<and>
     seq_lt (t_send_unacknowledged t) (t_send_high t) \<and>
     unat (sg_window seg) = t_send_window t"

text \<open>What an acknowledgement of something new does to the congestion window.\<close>

definition grow_window :: "u32 \<Rightarrow> nat \<Rightarrow> tcb \<times> tcp_env \<Rightarrow> tcb \<times> tcp_env" where
  "grow_window acknowledgement acked te =
     (let (t, e) = te in
      case t_recover t of
        Some recover \<Rightarrow>
          if seq_lt acknowledgement recover then
            retransmit_head
              (t\<lparr>t_congestion_window :=
                   max (saturating_add U32_MAX (t_congestion_window t - acked mod 2 ^ 32) MSS) MSS,
                 t_fast_retransmits := t_fast_retransmits t + 1\<rparr>, e)
          else (t\<lparr>t_recover := None, t_congestion_window := t_slow_start_threshold t\<rparr>, e)
      | None \<Rightarrow>
          if t_congestion_window t < t_slow_start_threshold t
          then (t\<lparr>t_congestion_window := saturating_add U32_MAX (t_congestion_window t) MSS\<rparr>, e)
          else
            let increment = MSS * MSS div max (t_congestion_window t) 1
            in (t\<lparr>t_congestion_window :=
                    saturating_add U32_MAX (t_congestion_window t) (max increment 1)\<rparr>, e))"

definition fin_covered :: "u32 \<Rightarrow> tcb \<Rightarrow> bool" where
  "fin_covered acknowledgement t =
     (case t_fin_sequence t of
        Some fin_sequence \<Rightarrow> seq_lt fin_sequence acknowledgement \<and> \<not> t_fin_acknowledged t
      | None \<Rightarrow> False)"

definition sample_round_trip :: "u32 \<Rightarrow> tcp_env \<Rightarrow> tcb \<Rightarrow> tcb" where
  "sample_round_trip acknowledgement e t =
     (case t_timed t of
        Some timed \<Rightarrow>
          if seq_le timed acknowledgement then
            let elapsed = te_monotonic_ns e - t_timed_at t
            in measure_rtt (min (elapsed div 1000) U32_MAX) (t\<lparr>t_timed := None\<rparr>)
          else t
      | None \<Rightarrow> t)"

definition on_new_ack :: "u32 \<Rightarrow> tcb \<times> tcp_env \<Rightarrow> tcb \<times> tcp_env" where
  "on_new_ack acknowledgement te =
     (let (t, e) = te;
          acked = unat (acknowledgement - t_send_unacknowledged t);
          acked = (if fin_covered acknowledgement t then acked - 1 else acked);
          t = t\<lparr>t_fin_acknowledged := t_fin_acknowledged t \<or> fin_covered acknowledgement t,
                t_pending := drop (min acked (length (t_pending t))) (t_pending t),
                t_send_unacknowledged := acknowledgement\<rparr>;
          t = sample_round_trip acknowledgement e t;
          t = (if seq_lt (t_send_next t) (t_send_unacknowledged t)
               then t\<lparr>t_send_next := t_send_unacknowledged t\<rparr> else t);
          t = t\<lparr>t_retries := 0, t_duplicate_acks := 0,
                t_retransmit_at := (if t_send_unacknowledged t = t_send_next t then 0
                                    else te_ticks e + t_rto t)\<rparr>
      in grow_window acknowledgement acked (t, e))"

definition on_duplicate_ack :: "tcb \<times> tcp_env \<Rightarrow> tcb \<times> tcp_env" where
  "on_duplicate_ack te =
     (let (t, e) = te;
          t = t\<lparr>t_duplicate_acks := t_duplicate_acks t + 1\<rparr>
      in if t_duplicate_acks t = DUPLICATE_ACK_THRESHOLD \<and> t_recover t = None
         then enter_recovery (t, e)
         else if t_duplicate_acks t > DUPLICATE_ACK_THRESHOLD
         then (t\<lparr>t_congestion_window := saturating_add U32_MAX (t_congestion_window t) MSS\<rparr>, e)
         else (t, e))"

definition update_send_window :: "segment \<Rightarrow> tcb \<Rightarrow> tcb" where
  "update_send_window seg t =
     (if seq_lt (t_window_sequence t) (sg_sequence seg) \<or>
         t_window_sequence t = sg_sequence seg \<and> seq_le (t_window_ack t) (sg_acknowledgement seg)
      then t\<lparr>t_send_window := unat (sg_window seg), t_window_sequence := sg_sequence seg,
             t_window_ack := sg_acknowledgement seg\<rparr>
      else t)"

definition on_fin_acknowledged :: "tcb \<times> tcp_env \<Rightarrow> bool \<times> tcb \<times> tcp_env" where
  "on_fin_acknowledged te =
     (let (t, e) = te in
      if \<not> t_fin_acknowledged t then (False, t, e)
      else if t_state t = FinWait1 then (False, enter_fin_wait_2 (t, e))
      else if t_state t = Closing then (True, enter_time_wait (t, e))
      else if t_state t = LastAck then (True, t\<lparr>t_state := Closed, t_retransmit_at := 0\<rparr>, e)
      else (False, t, e))"

text \<open>The data a segment carries that has not been taken yet, and where it begins.\<close>

definition fresh_payload :: "segment \<Rightarrow> tcb \<Rightarrow> bytes \<times> u32" where
  "fresh_payload seg t =
     (if seq_lt (sg_sequence seg) (t_receive_next t)
      then (drop (unat (t_receive_next t - sg_sequence seg)) (sg_payload seg), t_receive_next t)
      else (sg_payload seg, sg_sequence seg))"

definition on_data :: "bytes \<Rightarrow> u32 \<Rightarrow> tcb \<times> tcp_env \<Rightarrow> bool \<times> tcb \<times> tcp_env" where
  "on_data payload sequence te =
     (let (t, e) = te in
      if payload = [] then (False, t, e)
      else if \<not> can_receive t then
        (False, if sequence = t_receive_next t
                then t\<lparr>t_receive_next := t_receive_next t + word_of_nat (length payload)\<rparr> else t, e)
      else if sequence = t_receive_next t then
        let free = RECEIVE_WINDOW - length (t_received t);
            n = min (length payload) free;
            t = t\<lparr>t_received := t_received t @ take n payload,
                  t_receive_next := t_receive_next t + word_of_nat n\<rparr>
        in (True, deliver_held (t, e))
      else (False, hold_run sequence payload (t, e)))"

definition on_finish :: "u32 \<Rightarrow> tcb \<times> tcp_env \<Rightarrow> tcb \<times> tcp_env" where
  "on_finish finish te =
     (let (t, e) = te in
      if finish = t_receive_next t then (t\<lparr>t_held_fin := Some finish\<rparr>, e)
      else if seq_gt finish (t_receive_next t) \<and> can_receive t
      then (arm_reassembly e (t\<lparr>t_held_fin := Some finish\<rparr>), e)
      else (t, e))"

text \<open>Everything after the acknowledgement has been dealt with.\<close>

definition on_payload :: "segment \<Rightarrow> u32 \<Rightarrow> tcb \<times> tcp_env \<Rightarrow> bool \<times> tcb \<times> tcp_env" where
  "on_payload seg wanted_before te =
     (let (t, e) = te;
          (payload, sequence) = fresh_payload seg t;
          (woke, t, e) = on_data payload sequence (t, e);
          is_fin = (sg_flags seg AND FIN \<noteq> 0);
          (t, e) = (if is_fin then on_finish (sequence + word_of_nat (length payload)) (t, e) else (t, e));
          (woke', t, e) = (if t_held_fin t = Some (t_receive_next t) then take_fin (t, e) else (False, t, e));
          need_ack = (sg_payload seg \<noteq> [] \<or> is_fin)
      in if need_ack \<and> t_state t \<noteq> Closed then
           let t = open_window (t_receive_next t \<noteq> wanted_before) t
           in (woke \<or> woke', tcp_output (t, acknowledge t e))
         else (woke \<or> woke', tcp_output (t, e)))"

definition on_syn_sent :: "segment \<Rightarrow> tcb \<times> tcp_env \<Rightarrow> bool \<times> tcb \<times> tcp_env" where
  "on_syn_sent seg te =
     (let (t, e) = te in
      if sg_flags seg AND ACK \<noteq> 0 \<and>
         \<not> (seq_lt (t_iss t) (sg_acknowledgement seg) \<and> seq_le (sg_acknowledgement seg) (t_send_next t))
      then (False, t, if sg_flags seg AND RST = 0
                      then send_segment t RST (sg_acknowledgement seg) [] False e else e)
      else if sg_flags seg AND RST \<noteq> 0
      then (True, t\<lparr>t_state := Closed, t_retransmit_at := 0, t_error := Some ECONNREFUSED\<rparr>, e)
      else if sg_flags seg AND SYN = 0 then (False, t, e)
      else
        let t = t\<lparr>t_irs := sg_sequence seg, t_receive_next := sg_sequence seg + 1,
                  t_receive_high := sg_sequence seg + 1 + word_of_nat RECEIVE_WINDOW\<rparr>;
            t = take_mss seg t;
            t = t\<lparr>t_send_window := unat (sg_window seg), t_window_sequence := sg_sequence seg\<rparr>
        in if sg_flags seg AND ACK \<noteq> 0 then
             let t = t\<lparr>t_send_unacknowledged := sg_acknowledgement seg,
                       t_window_ack := sg_acknowledgement seg, t_state := Established,
                       t_retransmit_at := 0, t_retries := 0\<rparr>
             in (True, tcp_output (t, acknowledge t e))
           else (False, send_syn_ack (t\<lparr>t_state := SynReceived\<rparr>, e)))"

text \<open>The part of \<open>on_segment\<close> from the acknowledgement on, in a state past the handshake.\<close>

definition on_established ::
  "segment \<Rightarrow> bool \<Rightarrow> bool \<Rightarrow> tcb \<times> tcp_env \<Rightarrow> bool \<times> tcb \<times> tcp_env" where
  "on_established seg duplicate woke te =
     (let (t, e) = te;
          acknowledgement = sg_acknowledgement seg;
          wanted_before = t_receive_next t;
          fresh_ack = (seq_gt acknowledgement (t_send_unacknowledged t) \<and>
                       seq_le acknowledgement (t_send_high t));
          (t, e) = (if fresh_ack then on_new_ack acknowledgement (t, e) else (t, e));
          (t, e) = (if duplicate then on_duplicate_ack (t, e) else (t, e));
          t = update_send_window seg t;
          (woke', t, e) = on_fin_acknowledged (t, e);
          (woke'', t, e) = on_payload seg wanted_before (t, e)
      in (woke \<or> fresh_ack \<or> woke' \<or> woke'', t, e))"

definition on_segment :: "segment \<Rightarrow> tcb \<times> tcp_env \<Rightarrow> bool \<times> tcb \<times> tcp_env" where
  "on_segment seg te =
     (let (t, e) = te in
      if t_state t = SynSent then on_syn_sent seg (t, e)
      else if t_state t = Closed \<or> t_state t = Listen then (False, t, e)
      else if \<not> acceptable t seg then (False, on_unacceptable seg (t, e))
      else if sg_flags seg AND RST \<noteq> 0 then on_reset seg (t, e)
      else if sg_flags seg AND SYN \<noteq> 0 then (False, t, acknowledge t e)
      else if sg_flags seg AND ACK = 0 then (False, t, e)
      else
        let duplicate = is_duplicate_ack seg t in
        if t_state t = SynReceived then
          if seq_lt (t_send_unacknowledged t) (sg_acknowledgement seg) \<and>
             seq_le (sg_acknowledgement seg) (t_send_high t)
          then on_established seg duplicate True
                 (t\<lparr>t_state := Established, t_retransmit_at := 0, t_retries := 0\<rparr>, e)
          else (False, t, send_segment t RST (sg_acknowledgement seg) [] False e)
        else on_established seg duplicate False (t, e))"

section \<open>Timers\<close>

definition tcb_next_deadline :: "tcb \<Rightarrow> nat" where
  "tcb_next_deadline t =
     (let earliest = U64_MAX;
          earliest = (if t_expire_at t \<noteq> 0 then t_expire_at t else earliest);
          earliest = (if t_retransmit_at t \<noteq> 0 then min earliest (t_retransmit_at t) else earliest)
      in if t_reassembly_expire_at t \<noteq> 0 then min earliest (t_reassembly_expire_at t) else earliest)"

text \<open>The retransmission timer has run out and the connection has not been given up.\<close>

definition on_timeout :: "nat \<Rightarrow> tcb \<times> tcp_env \<Rightarrow> tcb \<times> tcp_env" where
  "on_timeout now te =
     (let (t, e) = te;
          rto = min (t_rto t * 2) MAX_RTO;
          t = t\<lparr>t_rto := rto, t_timed := None, t_retransmit_at := now + rto,
                t_slow_start_threshold := halved_flight t, t_congestion_window := MSS,
                t_recover := None, t_duplicate_acks := 0, t_timeouts := t_timeouts t + 1\<rparr>
      in if t_state t = SynSent then (t, send_segment t SYN (t_iss t) [] True e)
         else if t_state t = SynReceived then (t, send_segment t (SYN OR ACK) (t_iss t) [] True e)
         else
           let t = t\<lparr>t_send_next := t_send_unacknowledged t, t_fin_sequence := None\<rparr>
           in if t_send_window t = 0 \<and> t_pending t \<noteq> [] then
                let sequence = t_send_next t;
                    e = send_segment t ACK sequence [hd (t_pending t)] False e
                in (sent_through (sequence + 1) t, e)
              else tcp_output (t, e))"

definition on_timer :: "nat \<Rightarrow> tcb \<times> tcp_env \<Rightarrow> bool \<times> tcb \<times> tcp_env" where
  "on_timer now te =
     (let (t, e) = te;
          (t, e) = (if t_reassembly_expire_at t \<noteq> 0 \<and> now \<ge> t_reassembly_expire_at t
                    then drop_out_of_order (t, e) else (t, e))
      in if t_expire_at t \<noteq> 0 then
           if now \<ge> t_expire_at t
           then (True, t\<lparr>t_state := Closed, t_expire_at := 0, t_retransmit_at := 0, t_pending := []\<rparr>, e)
           else (False, t, e)
         else if t_retransmit_at t = 0 \<or> now < t_retransmit_at t then (False, t, e)
         else
           let t = t\<lparr>t_retries := t_retries t + 1\<rparr>;
               limit = (if t_state t = SynSent \<or> t_state t = SynReceived then SYN_RETRIES else MAX_RETRIES)
           in if t_retries t > limit then
                let (t, e) = tcp_abort (t, e) in (True, t\<lparr>t_error := Some ETIMEDOUT\<rparr>, e)
              else (False, on_timeout now (t, e)))"

end
