(* ===== verification/Tcp_Machinery.thy ===== *)
theory Tcp_Machinery
  imports Tcp_Control
begin

text \<open>
  What the parts of \<open>kernel/src/net/tcp.rs\<close> that decide what to send, and when, leave alone.
\<close>

section \<open>The machinery of sending\<close>

text \<open>
  The fields that deciding what to send, and when, changes: everything else of \<open>t'\<close> is as in
  \<open>t\<close>.
\<close>

definition machinery :: "tcb \<Rightarrow> tcb \<Rightarrow> bool" where
  "machinery t t' \<longleftrightarrow>
     t' = t\<lparr>t_send_next := t_send_next t', t_send_high := t_send_high t', t_timed := t_timed t',
             t_timed_at := t_timed_at t', t_retransmit_at := t_retransmit_at t',
             t_fin_sequence := t_fin_sequence t', t_rto := t_rto t', t_srtt := t_srtt t',
             t_rttvar := t_rttvar t', t_retries := t_retries t',
             t_congestion_window := t_congestion_window t',
             t_slow_start_threshold := t_slow_start_threshold t',
             t_duplicate_acks := t_duplicate_acks t', t_recover := t_recover t',
             t_fast_retransmits := t_fast_retransmits t', t_timeouts := t_timeouts t'\<rparr>"

lemma machinery_refl [simp]: "machinery t t"
  by (simp add: machinery_def)

lemma machinery_trans [trans]:
  assumes "machinery t u" and "machinery u v"
  shows "machinery t v"
proof -
  obtain a1 a2 a3 a4 a5 a6 a7 a8 a9 b1 b2 b3 b4 b5 b6 b7 where u: "u = t\<lparr>t_send_next := a1,
      t_send_high := a2, t_timed := a3, t_timed_at := a4, t_retransmit_at := a5, t_fin_sequence := a6,
      t_rto := a7, t_srtt := a8, t_rttvar := a9, t_retries := b1, t_congestion_window := b2,
      t_slow_start_threshold := b3, t_duplicate_acks := b4, t_recover := b5, t_fast_retransmits := b6,
      t_timeouts := b7\<rparr>"
    using assms(1) unfolding machinery_def by blast
  show ?thesis
    using assms(2) unfolding machinery_def u by simp
qed

text \<open>What it leaves alone.\<close>

lemma machinery_keeps:
  assumes "machinery t t'"
  shows "t_state t' = t_state t" "t_local t' = t_local t" "t_remote t' = t_remote t" "t_iss t' = t_iss t"
    "t_send_unacknowledged t' = t_send_unacknowledged t" "t_pending t' = t_pending t"
    "t_fin_queued t' = t_fin_queued t" "t_receive_next t' = t_receive_next t"
    "t_received t' = t_received t" "t_out_of_order t' = t_out_of_order t"
    "t_read_shutdown t' = t_read_shutdown t" "t_abandoned t' = t_abandoned t"
    "t_fin_received t' = t_fin_received t" "t_held_fin t' = t_held_fin t"
    "t_receive_high t' = t_receive_high t" "t_fin_acknowledged t' = t_fin_acknowledged t"
    "t_held t' = t_held t" "t_peer_mss t' = t_peer_mss t"
  by (subst assms [unfolded machinery_def], simp)+

named_theorems machinery_intros \<open>operations that change only the machinery of sending\<close>

lemma machinery_simple [machinery_intros, simp]:
  "machinery t (sent_through q t)" "machinery t (time_segment e q t)" "machinery t (arm_retransmit e t)"
  "machinery t (measure_rtt us t)"
  by (simp_all add: machinery_def sent_through_def time_segment_def arm_retransmit_def measure_rtt_def Let_def)

lemma machinery_updates [simp]:
  "machinery t (t\<lparr>t_fin_sequence := f\<rparr>)" "machinery t (t\<lparr>t_send_next := n\<rparr>)"
  "machinery t (t\<lparr>t_congestion_window := c\<rparr>)" "machinery t (t\<lparr>t_timed := ti\<rparr>)"
  "machinery t (t\<lparr>t_duplicate_acks := d\<rparr>)"
  "machinery t (t\<lparr>t_timed := ti, t_retransmit_at := ra\<rparr>)"
  "machinery t (t\<lparr>t_recover := re, t_congestion_window := c\<rparr>)"
  "machinery t (t\<lparr>t_congestion_window := c, t_fast_retransmits := fr\<rparr>)"
  "machinery t (t\<lparr>t_slow_start_threshold := ss, t_recover := re, t_fast_retransmits := fr\<rparr>)"
  "machinery t (t\<lparr>t_retries := rt, t_duplicate_acks := d, t_retransmit_at := ra\<rparr>)"
  by (simp_all add: machinery_def)

lemma restart_timer_machinery [machinery_intros]: "machinery (fst te) (fst (restart_timer te))"
  by (cases te) (simp add: restart_timer_def)

lemma retransmit_head_machinery [machinery_intros]: "machinery (fst te) (fst (retransmit_head te))"
proof (cases te)
  case (Pair t e)
  have "machinery t (fst (restart_timer (t, e')))" for e'
    using restart_timer_machinery [of "(t, e')"] by simp
  then show ?thesis
    by (simp add: Pair retransmit_head_def Let_def split: option.split)
qed

lemma enter_recovery_machinery [machinery_intros]: "machinery (fst te) (fst (enter_recovery te))"
proof (cases te)
  case (Pair t e)
  let ?u = "t\<lparr>t_slow_start_threshold := halved_flight t, t_recover := Some (t_send_high t),
    t_fast_retransmits := t_fast_retransmits t + 1\<rparr>"
  obtain v e' where v: "retransmit_head (?u, e) = (v, e')" by force
  have "machinery t ?u" by simp
  also have "machinery ?u v" using retransmit_head_machinery [of "(?u, e)"] v by simp
  also have "machinery v (v\<lparr>t_congestion_window := c\<rparr>)" for c by simp
  finally show ?thesis
    unfolding Pair enter_recovery_def Let_def prod.case v by simp
qed

lemma grow_window_machinery [machinery_intros]: "machinery (fst te) (fst (grow_window a n te))"
proof (cases te)
  case (Pair t e)
  have "machinery t (fst (retransmit_head (t\<lparr>t_congestion_window := c, t_fast_retransmits := f\<rparr>, e)))" for c f
    by (rule machinery_trans [OF _ retransmit_head_machinery [of "(t\<lparr>t_congestion_window := c, t_fast_retransmits := f\<rparr>, e)", simplified fst_conv]]) simp
  then show ?thesis
    by (simp add: Pair grow_window_def Let_def split: option.split)
qed

lemma on_duplicate_ack_machinery [machinery_intros]: "machinery (fst te) (fst (on_duplicate_ack te))"
proof (cases te)
  case (Pair t e)
  have "machinery t (fst (enter_recovery (t\<lparr>t_duplicate_acks := d\<rparr>, e)))"
    "machinery t (t\<lparr>t_duplicate_acks := d, t_congestion_window := c\<rparr>)" for c d
    by (rule machinery_trans [OF _ enter_recovery_machinery [of "(t\<lparr>t_duplicate_acks := d\<rparr>, e)", simplified fst_conv]], simp)
      (simp add: machinery_def)
  then show ?thesis
    by (simp add: Pair on_duplicate_ack_def Let_def)
qed

lemma output_round_machinery:
  assumes "output_round limit t e = (t', e', again)"
  shows "machinery t t'"
proof -
  define n where "n = min (min (length (t_pending t) - unat (t_send_next t - t_send_unacknowledged t))
    (effective_mss t)) (unat (limit - t_send_next t))"
  have data: "machinery t (arm_retransmit e1 (time_segment e2 q (sent_through q t)))"
    "machinery t (arm_retransmit e1 (sent_through q t))" for e1 e2 q
    by (blast intro: machinery_trans machinery_simple)+
  have fin: "machinery t (arm_retransmit e1 (sent_through q (t\<lparr>t_fin_sequence := f\<rparr>)))" for e1 q f
    by (rule machinery_trans [OF _ machinery_simple(3)], rule machinery_trans [OF _ machinery_simple(1)]) simp
  show ?thesis
    using assms data fin unfolding output_round_def Let_def n_def [symmetric]
    by (simp split: if_split_asm) auto
qed

lemma output_loop_machinery: "machinery t (fst (output_loop limit t e))"
proof (induction limit t e rule: output_loop.induct)
  case (1 limit t e)
  obtain t' e' again where r: "output_round limit t e = (t', e', again)"
    by (metis prod_cases3)
  show ?case
    using 1 [OF r [symmetric] refl] output_round_machinery [OF r] r
    by (subst output_loop.simps) (auto intro: machinery_trans)
qed

lemma tcp_output_machinery [machinery_intros]: "machinery (fst te) (fst (tcp_output te))"
  by (cases te) (simp add: tcp_output_def output_loop_machinery Let_def)

lemma send_syn_ack_machinery [machinery_intros]: "machinery (fst te) (fst (send_syn_ack te))"
  by (cases te) (simp add: send_syn_ack_def Let_def)

lemma sample_round_trip_machinery [machinery_intros]: "machinery t (sample_round_trip a e t)"
  by (auto simp: sample_round_trip_def Let_def split: option.split
      intro: machinery_trans [OF machinery_updates(4) machinery_simple(4)])

text \<open>Beside the machinery, a new acknowledgement takes off what it covers.\<close>

definition acked_by :: "u32 \<Rightarrow> tcb \<Rightarrow> tcb" where
  "acked_by a t =
     (let acked = unat (a - t_send_unacknowledged t);
          acked = (if fin_covered a t then acked - 1 else acked)
      in t\<lparr>t_fin_acknowledged := t_fin_acknowledged t \<or> fin_covered a t,
            t_pending := drop (min acked (length (t_pending t))) (t_pending t),
            t_send_unacknowledged := a\<rparr>)"

lemma on_new_ack_machinery: "machinery (acked_by a t) (fst (on_new_ack a (t, e)))"
proof -
  let ?u = "sample_round_trip a e (acked_by a t)"
  let ?v = "if seq_lt (t_send_next ?u) (t_send_unacknowledged ?u)
    then ?u\<lparr>t_send_next := t_send_unacknowledged ?u\<rparr> else ?u"
  let ?w = "?v\<lparr>t_retries := 0, t_duplicate_acks := 0,
    t_retransmit_at := (if t_send_unacknowledged ?v = t_send_next ?v then 0 else te_ticks e + t_rto ?v)\<rparr>"
  have "machinery (acked_by a t) ?u" by (rule sample_round_trip_machinery)
  also have "machinery ?u ?v" by simp
  also have "machinery ?v ?w" by simp
  also have "machinery ?w (fst (grow_window a n (?w, e)))" for n
    using grow_window_machinery [of "(?w, e)"] by simp
  finally show ?thesis
    by (simp only: on_new_ack_def acked_by_def Let_def prod.case)
qed

end
