(* ===== verification/Tcp_Reassembly.thy ===== *)
theory Tcp_Reassembly
  imports Tcp_Machinery
begin

text \<open>
  What a connection hands to its reader: the bytes the other end sent, in order, whatever the
  network does to the segments that carry them.
\<close>

section \<open>Sequence numbers as positions\<close>

text \<open>The sequence number of byte \<open>x\<close> of a stream whose first byte has the number \<open>b\<close>.\<close>

definition seq_at :: "u32 \<Rightarrow> int \<Rightarrow> u32" where
  "seq_at b x = b + word_of_int x"

lemma seq_at_diff: "seq_at b x - seq_at b y = word_of_int (x - y)"
  by (simp add: seq_at_def)

lemma seq_at_add [simp]: "seq_at b x + word_of_nat n = seq_at b (x + int n)"
  by (simp add: seq_at_def)

lemma seq_at_zero [simp]: "seq_at b 0 = b"
  by (simp add: seq_at_def)

lemma sint_small: "- (2 ^ 31) \<le> x \<Longrightarrow> x < 2 ^ 31 \<Longrightarrow> sint (word_of_int x :: u32) = x"
  by (simp add: signed_of_int signed_take_bit_int_eq_self)

lemma seq_cmp:
  assumes "- (2 ^ 31) \<le> x - y" and "x - y < 2 ^ 31"
  shows "seq_lt (seq_at b x) (seq_at b y) \<longleftrightarrow> x < y"
    and "seq_le (seq_at b x) (seq_at b y) \<longleftrightarrow> x \<le> y"
    and "seq_gt (seq_at b x) (seq_at b y) \<longleftrightarrow> x > y"
proof -
  have "sint (seq_at b x - seq_at b y) = x - y"
    unfolding seq_at_diff by (rule sint_small [OF assms])
  then show "seq_lt (seq_at b x) (seq_at b y) \<longleftrightarrow> x < y"
    "seq_le (seq_at b x) (seq_at b y) \<longleftrightarrow> x \<le> y" "seq_gt (seq_at b x) (seq_at b y) \<longleftrightarrow> x > y"
    by (simp_all add: seq_lt_def seq_le_def seq_gt_def)
qed

lemma seq_dist:
  assumes "y \<le> x" "x - y < 2 ^ 32"
  shows "unat (seq_at b x - seq_at b y) = nat (x - y)"
proof -
  have "take_bit 32 (x - y) = x - y"
    using assms by (simp add: take_bit_int_eq_self)
  then show ?thesis
    unfolding seq_at_diff by (simp only: unsigned_of_int) simp
qed

lemma seq_eq:
  assumes "\<bar>x - y\<bar> < 2 ^ 31"
  shows "seq_at b x = seq_at b y \<longleftrightarrow> x = y"
proof
  assume eq: "seq_at b x = seq_at b y"
  have "- (2 ^ 31) \<le> x - y" "x - y < 2 ^ 31" "- (2 ^ 31) \<le> y - x" "y - x < 2 ^ 31"
    using assms by linarith+
  moreover have "seq_le (seq_at b x) (seq_at b y)" "seq_le (seq_at b y) (seq_at b x)"
    by (simp_all add: eq seq_le_def)
  ultimately show "x = y"
    using seq_cmp(2) [of x y b] seq_cmp(2) [of y x b] by simp
qed simp

section \<open>Runs held past a gap\<close>

type_synonym stream = "nat \<Rightarrow> u8"

definition stretch :: "stream \<Rightarrow> nat \<Rightarrow> nat \<Rightarrow> bytes" where
  "stretch S o' n = map S [o'..<o' + n]"

lemma length_stretch [simp]: "length (stretch S i n) = n"
  by (simp add: stretch_def)

lemma stretch_append: "stretch S i m @ stretch S (i + m) n = stretch S i (m + n)"
  unfolding stretch_def map_append [symmetric]
  using upt_add_eq_append [of i "i + m" n] by (simp add: add.assoc)

lemma drop_stretch: "drop k (stretch S i n) = stretch S (i + k) (n - k)"
  by (cases "k \<le> n") (simp_all add: stretch_def drop_map)

lemma take_stretch: "take k (stretch S i n) = stretch S i (min k n)"
  by (simp add: stretch_def take_map take_upt min_def)

definition run_of :: "stream \<Rightarrow> u32 \<Rightarrow> nat \<times> nat \<Rightarrow> held_run" where
  "run_of S b r = \<lparr>hr_sequence = seq_at b (int (fst r)), hr_data = stretch S (fst r) (snd r)\<rparr>"

lemma run_of_fields [simp]:
  "hr_sequence (run_of S b (i, n)) = seq_at b (int i)" "hr_data (run_of S b (i, n)) = stretch S i n"
  by (simp_all add: run_of_def)

lemma run_of_fold: "\<lparr>hr_sequence = seq_at b (int i), hr_data = stretch S i n\<rparr> = run_of S b (i, n)"
  by (simp add: run_of_def)

text \<open>Runs in order, none empty and none overlapping the one before.\<close>

fun spaced :: "nat \<Rightarrow> (nat \<times> nat) list \<Rightarrow> bool" where
  "spaced lo [] = True"
| "spaced lo ((i, n) # rs) \<longleftrightarrow> lo \<le> i \<and> 0 < n \<and> spaced (i + n) rs"

definition runs_ok :: "stream \<Rightarrow> u32 \<Rightarrow> nat \<Rightarrow> held_run list \<Rightarrow> bool" where
  "runs_ok S b p runs \<longleftrightarrow>
     (\<exists>rs. runs = map (run_of S b) rs \<and> spaced p rs \<and> (\<forall>(i, n) \<in> set rs. i + n \<le> p + 65535))"

lemma spaced_starts: "spaced lo rs \<Longrightarrow> (i, n) \<in> set rs \<Longrightarrow> lo \<le> i \<and> 0 < n"
  by (induction rs arbitrary: lo) force+

lemma runs_ok_Nil [simp]: "runs_ok S b p []"
  by (simp add: runs_ok_def)

lemma held_end_run_of: "held_end (run_of S b (i, n)) = seq_at b (int (i + n))"
  by (simp add: held_end_def run_of_def)

lemma spaced_mono: "spaced lo rs \<Longrightarrow> lo' \<le> lo \<Longrightarrow> spaced lo' rs"
  by (induction rs) auto

lemma spaced_butlast: "spaced lo rs \<Longrightarrow> spaced lo (butlast rs)"
  by (induction rs arbitrary: lo) auto

lemma spaced_append:
  "spaced lo (rs @ qs) \<longleftrightarrow> spaced lo rs \<and> spaced (if rs = [] then lo else fst (last rs) + snd (last rs)) qs"
  by (induction rs arbitrary: lo) auto

section \<open>Delivering what follows on\<close>

lemma deliver_runs_ok:
  assumes "deliver_runs (map (run_of S b) rs) (seq_at b (int q)) recv = (runs', next', recv')"
    and "spaced lo rs" and "\<forall>(i, n) \<in> set rs. i + n \<le> lo + 2 ^ 30 \<and> i + n \<le> hi"
    and "lo \<le> q" and "q \<le> lo + 2 ^ 30"
  shows "\<exists>m rs'. recv' = recv @ stretch S q m \<and> next' = seq_at b (int (q + m)) \<and>
    runs' = map (run_of S b) rs' \<and> spaced (q + m) rs' \<and> (\<forall>(i, n) \<in> set rs'. i + n \<le> hi)"
  using assms
proof (induction rs arbitrary: q recv lo)
  case Nil
  then show ?case by (intro exI [of _ 0] exI [of _ "[]"]) (simp add: stretch_def)
next
  case (Cons r rs)
  obtain i n where r: "r = (i, n)" by force
  have i: "lo \<le> i" "0 < n" "spaced (i + n) rs" "i + n \<le> lo + 2 ^ 30" "i + n \<le> hi"
    using Cons.prems(2,3) r by auto
  have gt: "seq_gt (hr_sequence (run_of S b r)) (seq_at b (int q)) \<longleftrightarrow> i > q"
    using i Cons.prems(4,5) by (simp add: r run_of_def seq_cmp)
  show ?case
  proof (cases "i > q")
    case True
    then show ?thesis
      using Cons.prems gt i r
      by (intro exI [of _ 0] exI [of _ "r # rs"]) (auto simp: stretch_def)
  next
    case False
    then have skip: "unat (seq_at b (int q) - hr_sequence (run_of S b r)) = q - i"
      using i Cons.prems(5) by (simp add: r run_of_def seq_dist)
    have sub: "\<forall>(i', n') \<in> set rs. i' + n' \<le> i + n + 2 ^ 30 \<and> i' + n' \<le> hi"
      using Cons.prems(3) i(1) by (auto)
    show ?thesis
    proof (cases "n \<le> q - i")
      case True
      then have "deliver_runs (map (run_of S b) rs) (seq_at b (int q)) recv = (runs', next', recv')"
        using Cons.prems(1) False gt skip by (simp add: Let_def r)
      moreover have "i + n \<le> q" using True False i(2) by linarith
      moreover have "q \<le> i + n + 2 ^ 30" using i(1) Cons.prems(5) by linarith
      ultimately show ?thesis
        using Cons.IH [of q recv "i + n"] i(3) sub by blast
    next
      case small: False
      define m where "m = min (n - (q - i)) (RECEIVE_WINDOW - length recv)"
      have data: "hr_data (run_of S b r) = stretch S i n" by (simp add: r run_of_def)
      have got: "take m (drop (q - i) (stretch S i n)) = stretch S q m"
        using False small by (simp add: drop_stretch take_stretch m_def)
      have step: "deliver_runs (map (run_of S b) (r # rs)) (seq_at b (int q)) recv =
          (if q - i + m < n
           then (\<lparr>hr_sequence = seq_at b (int q + int m), hr_data = drop (q - i + m) (stretch S i n)\<rparr> #
               map (run_of S b) rs, seq_at b (int q + int m), recv @ stretch S q m)
           else deliver_runs (map (run_of S b) rs) (seq_at b (int q + int m)) (recv @ stretch S q m))"
        unfolding list.map deliver_runs.simps Let_def skip data length_stretch m_def [symmetric] got seq_at_add
        using gt False small by simp
      show ?thesis
      proof (cases "q - i + m < n")
        case True
        have "drop (q - i + m) (stretch S i n) = stretch S (q + m) (n - (q - i + m))"
          using False by (simp add: drop_stretch)
        then have "runs' = run_of S b (q + m, n - (q - i + m)) # map (run_of S b) rs"
          "next' = seq_at b (int (q + m))" "recv' = recv @ stretch S q m"
          using Cons.prems(1) True unfolding step by (auto simp: run_of_def)
        moreover have "spaced (n + i) rs"
          using i(3) by (simp add: add.commute)
        ultimately show ?thesis
          using i False True sub
          by (intro exI [of _ m] exI [of _ "(q + m, n - (q - i + m)) # rs"]) auto
      next
        case whole: False
        then have m: "q + m = i + n" using False small m_def by linarith
        have "deliver_runs (map (run_of S b) rs) (seq_at b (int (q + m))) (recv @ stretch S q m) =
            (runs', next', recv')"
          using Cons.prems(1) whole unfolding step by simp
        then obtain m' rs' where "recv' = (recv @ stretch S q m) @ stretch S (q + m) m'"
          "next' = seq_at b (int (q + m + m'))" "runs' = map (run_of S b) rs'" "spaced (q + m + m') rs'"
          "\<forall>(i, n) \<in> set rs'. i + n \<le> hi"
          using Cons.IH [of "q + m" "recv @ stretch S q m" "i + n"] i(3) sub m by fastforce
        then show ?thesis
          by (intro exI [of _ "m + m'"] exI [of _ rs']) (simp add: stretch_append add.assoc)
      qed
    qed
  qed
qed

section \<open>Joining runs\<close>

text \<open>Every run is inside a stretch of \<open>2 ^ 30\<close> bytes, starting at \<open>lo\<close>.\<close>

definition within :: "nat \<Rightarrow> nat \<Rightarrow> nat \<times> nat \<Rightarrow> bool" where
  "within lo hi r \<longleftrightarrow> lo \<le> fst r \<and> 0 < snd r \<and> fst r + snd r \<le> hi"

lemma join_run_ok:
  assumes qs: "spaced lo qs" "\<forall>q \<in> set qs. within lo hi q" and r: "within lo hi (i, n)"
    and order: "qs \<noteq> [] \<Longrightarrow> fst (last qs) \<le> i" and hi: "hi \<le> lo + 2 ^ 30"
  shows "\<exists>qs'. join_run (map (run_of S b) qs) (run_of S b (i, n)) = map (run_of S b) qs' \<and>
    qs' \<noteq> [] \<and> spaced lo qs' \<and> (\<forall>q \<in> set qs'. within lo hi q) \<and> fst (last qs') \<le> i"
proof (cases qs rule: rev_cases)
  case Nil
  then show ?thesis
    using r by (intro exI [of _ "[(i, n)]"]) (simp add: join_run_def within_def)
next
  case (snoc before l)
  obtain j m where l: "l = (j, m)" by force
  have j: "lo \<le> j" "0 < m" "j + m \<le> hi" "j \<le> i" "lo \<le> i" "0 < n" "i + n \<le> hi"
    using qs(2) r order snoc l by (auto simp: within_def)
  have le: "seq_le (seq_at b (int i)) (seq_at b (int (j + m))) \<longleftrightarrow> i \<le> j + m"
    using j hi by (subst seq_cmp) auto
  have eq: "join_run (map (run_of S b) qs) (run_of S b (i, n)) =
      (if i \<le> j + m
       then let overlap = unat (seq_at b (int (j + m)) - seq_at b (int i)) in
         if overlap < n
         then map (run_of S b) before @ [(run_of S b l)\<lparr>hr_data := stretch S j m @ drop overlap (stretch S i n)\<rparr>]
         else map (run_of S b) qs
       else map (run_of S b) (qs @ [(i, n)]))"
    using le by (simp add: join_run_def snoc l held_end_run_of Let_def del: of_nat_add)
  show ?thesis
  proof (cases "i \<le> j + m")
    case True
    have d: "unat (seq_at b (int (j + m)) - seq_at b (int i)) = j + m - i"
      using True j hi by (subst seq_dist) auto
    show ?thesis
    proof (cases "j + m - i < n")
      case ext: True
      have "stretch S j m @ drop (j + m - i) (stretch S i n) = stretch S j (i + n - j)"
        using True j ext stretch_append [of S j m "n - (j + m - i)"] by (simp add: drop_stretch add.commute)
      then have "join_run (map (run_of S b) qs) (run_of S b (i, n)) = map (run_of S b) (before @ [(j, i + n - j)])"
        using True ext unfolding eq d by (simp add: run_of_def l)
      moreover have "spaced lo (before @ [(j, i + n - j)])"
        using qs(1) j snoc l by (auto simp: spaced_append)
      ultimately show ?thesis
        using qs(2) j snoc l
        by (intro exI [of _ "before @ [(j, i + n - j)]"]) (auto simp: within_def)
    next
      case False
      then show ?thesis
        using True qs j snoc l unfolding eq d
        by (intro exI [of _ qs]) auto
    qed
  next
    case False
    then show ?thesis
      using qs r j snoc l unfolding eq
      by (intro exI [of _ "qs @ [(i, n)]"]) (auto simp: spaced_append)
  qed
qed

lemma foldl_join_ok:
  assumes "spaced lo qs" "\<forall>q \<in> set qs. within lo hi q" "\<forall>r \<in> set rs. within lo hi r"
    and "sorted (map fst rs)" and "qs \<noteq> [] \<Longrightarrow> \<forall>r \<in> set rs. fst (last qs) \<le> fst r" and hi: "hi \<le> lo + 2 ^ 30"
  shows "\<exists>qs'. foldl join_run (map (run_of S b) qs) (map (run_of S b) rs) = map (run_of S b) qs' \<and>
    spaced lo qs' \<and> (\<forall>q \<in> set qs'. within lo hi q)"
  using assms(1-5)
proof (induction rs arbitrary: qs)
  case (Cons r rs)
  obtain i n where r: "r = (i, n)" by force
  have "\<exists>qs'. join_run (map (run_of S b) qs) (run_of S b (i, n)) = map (run_of S b) qs' \<and>
    qs' \<noteq> [] \<and> spaced lo qs' \<and> (\<forall>q \<in> set qs'. within lo hi q) \<and> fst (last qs') \<le> i"
    by (rule join_run_ok [OF Cons.prems(1,2) _ _ hi]) (use Cons.prems(3,5) r in auto)
  then obtain qs' where qs': "join_run (map (run_of S b) qs) (run_of S b r) = map (run_of S b) qs'"
    "qs' \<noteq> []" "spaced lo qs'" "\<forall>q \<in> set qs'. within lo hi q" "fst (last qs') \<le> fst r"
    unfolding r by auto
  have "\<forall>x \<in> set rs. fst (last qs') \<le> fst x"
    using qs'(5) Cons.prems(4) by (auto intro: order_trans)
  then show ?case
    using Cons.IH [OF qs'(3,4)] Cons.prems(3,4) qs'(1) by simp
qed auto

lemma map_preimage:
  assumes "\<forall>y \<in> set ys. \<exists>x \<in> A. y = f x"
  shows "\<exists>xs. ys = map f xs \<and> set xs \<subseteq> A"
  using assms
proof (induction ys)
  case (Cons y ys)
  then obtain x xs where "y = f x" "x \<in> A" "ys = map f xs" "set xs \<subseteq> A"
    by auto
  then show ?case by (intro exI [of _ "x # xs"]) simp
qed simp

lemma sorted_map_shift:
  fixes L :: "(nat \<times> nat) list"
  assumes "sorted (map (\<lambda>r. fst r - p) L)" and "\<forall>r \<in> set L. p \<le> fst r"
  shows "sorted (map fst L)"
  using assms by (induction L) (force simp: le_diff_iff)+

lemma coalesce_ok:
  assumes "t_receive_next t = seq_at b (int p)" and runs: "t_out_of_order t = map (run_of S b) rs"
    and rs: "\<forall>r \<in> set rs. within p hi r" and hi: "hi \<le> p + 2 ^ 30"
  shows "\<exists>qs. t_out_of_order (coalesce t) = map (run_of S b) qs \<and> spaced p qs \<and> (\<forall>q \<in> set qs. within p hi q)"
proof -
  let ?key = "\<lambda>run. unat (hr_sequence run - seq_at b (int p))"
  have key: "?key (run_of S b r) = fst r - p" if "r \<in> set rs" for r
    using rs that hi by (cases r) (force simp: within_def seq_dist)
  let ?R = "sort_key ?key (map (run_of S b) rs)"
  have "\<forall>y \<in> set ?R. \<exists>x \<in> set rs. y = run_of S b x"
    by auto
  then obtain L where L: "?R = map (run_of S b) L" "set L \<subseteq> set rs"
    using map_preimage [of ?R "set rs" "run_of S b"] by blast
  have "sorted (map ?key ?R)"
    by simp
  then have "sorted (map (\<lambda>r. fst r - p) L)"
    unfolding L(1) map_map using key L(2)
    by (metis (mono_tags, lifting) comp_apply map_cong subsetD)
  then have "sorted (map fst L)"
  proof (rule sorted_map_shift)
    show "\<forall>r \<in> set L. p \<le> fst r"
      using L(2) rs by (auto simp: within_def)
  qed
  then have "\<exists>qs'. foldl join_run (map (run_of S b) []) (map (run_of S b) L) = map (run_of S b) qs' \<and>
    spaced p qs' \<and> (\<forall>q \<in> set qs'. within p hi q)"
    using L(2) rs by (intro foldl_join_ok [OF _ _ _ _ _ hi]) auto
  then show ?thesis
    using assms(1) runs L(1) by (simp add: coalesce_def Let_def)
qed

end
