(* ===== verification/Tcp_Stream.thy ===== *)
theory Tcp_Stream
  imports Tcp_Reassembly
begin

text \<open>
  The reader's side of a connection: whatever segments arrive, in whatever order and however
  often, what the reader is handed is the other end's stream from its first byte on.
\<close>

section \<open>The invariant\<close>

definition live :: "tcb \<Rightarrow> bool" where
  "live t \<longleftrightarrow> \<not> t_read_shutdown t \<and> \<not> t_abandoned t \<and>
     t_state t \<in> {SynReceived, Established, FinWait1, FinWait2}"

text \<open>How far the stream has been taken, given what the reader has been handed already.\<close>

definition taken :: "bytes \<Rightarrow> tcb \<Rightarrow> nat" where
  "taken got t = length got + length (t_received t)"

definition rcv_ok :: "stream \<Rightarrow> u32 \<Rightarrow> bytes \<Rightarrow> tcb \<Rightarrow> bool" where
  "rcv_ok S b got t \<longleftrightarrow>
     got @ t_received t = stretch S 0 (taken got t) \<and>
     (live t \<longrightarrow> t_receive_next t = seq_at b (int (taken got t)) \<and>
        runs_ok S b (taken got t) (t_out_of_order t))"

definition rsame :: "tcb \<Rightarrow> tcb \<Rightarrow> bool" where
  "rsame t t' \<longleftrightarrow> t_received t' = t_received t \<and> t_receive_next t' = t_receive_next t \<and>
     t_out_of_order t' = t_out_of_order t \<and> t_state t' = t_state t \<and>
     t_read_shutdown t' = t_read_shutdown t \<and> t_abandoned t' = t_abandoned t"

lemma rsame_refl [simp]: "rsame t t"
  by (simp add: rsame_def)

lemma rsame_trans [trans]: "rsame t u \<Longrightarrow> rsame u v \<Longrightarrow> rsame t v"
  by (simp add: rsame_def)

lemma rsame_machinery: "machinery t t' \<Longrightarrow> rsame t t'"
  by (simp add: rsame_def machinery_keeps)

lemma rsame_live: "rsame t t' \<Longrightarrow> live t' = live t"
  by (simp add: rsame_def live_def)

lemma rsame_rcv_ok: "rsame t t' \<Longrightarrow> rcv_ok S b got t' = rcv_ok S b got t"
  by (simp add: rcv_ok_def taken_def rsame_def live_def)

text \<open>A connection that takes nothing more keeps what it has, or lets go of all of it.\<close>

lemma rcv_ok_dead:
  assumes "rcv_ok S b got t" and "\<not> live t'" and "t_received t' = t_received t \<or> t_received t' = []"
  shows "rcv_ok S b got t'"
proof -
  have "take (length got) (got @ t_received t) = take (length got) (stretch S 0 (taken got t))"
    using assms(1) by (simp only: rcv_ok_def)
  then have "got = stretch S 0 (length got)"
    by (simp add: take_stretch taken_def)
  then show ?thesis
    using assms by (auto simp: rcv_ok_def taken_def)
qed

lemma rcv_ok_dropped:
  assumes "rcv_ok S b got t" and "t_received t' = t_received t" and "t_receive_next t' = t_receive_next t"
    and "t_out_of_order t' = t_out_of_order t \<or> t_out_of_order t' = []" and "live t' \<Longrightarrow> live t"
  shows "rcv_ok S b got t'"
  using assms by (auto simp: rcv_ok_def taken_def)

section \<open>The parts of the code\<close>

lemma account_rsame [simp]: "rsame (fst te) (fst (account te))"
  by (cases te) (simp add: rsame_def account_def Let_def)

lemma arm_reassembly_rsame [simp]: "rsame t (arm_reassembly e t)"
  by (simp add: rsame_def arm_reassembly_def)

lemma open_window_rsame [simp]: "rsame t (open_window a t)"
  by (simp add: rsame_def open_window_def Let_def)

lemma update_send_window_rsame [simp]: "rsame t (update_send_window seg t)"
  by (simp add: rsame_def update_send_window_def)

lemma drop_out_of_order_keeps:
  assumes "drop_out_of_order (t, e) = (t', e')"
  shows "t' = t\<lparr>t_out_of_order := [], t_held_fin := None, t_reassembly_expire_at := 0, t_held := 0\<rparr>"
  using assms by (auto simp: drop_out_of_order_def account_def Let_def held_total_def)

lemma on_new_ack_rsame [simp]: "rsame (fst te) (fst (on_new_ack a te))"
proof (cases te)
  case (Pair t e)
  have "rsame t (acked_by a t)"
    by (simp add: rsame_def acked_by_def Let_def)
  also have "rsame (acked_by a t) (fst (on_new_ack a (t, e)))"
    by (rule rsame_machinery [OF on_new_ack_machinery])
  finally show ?thesis by (simp add: Pair)
qed

lemma hold_run_ok:
  assumes nx: "t_receive_next t = seq_at b (int p)" and runs: "runs_ok S b p (t_out_of_order t)"
    and i: "p \<le> i" "i < p + 2 ^ 31"
    and h: "hold_run (seq_at b (int i)) (stretch S i n) (t, e) = (t', e')"
  shows "runs_ok S b p (t_out_of_order t') \<and> rsame (t\<lparr>t_out_of_order := t_out_of_order t'\<rparr>) t'"
proof -
  let ?w = "advertised_window t"
  let ?right = "t_receive_next t + word_of_nat ?w"
  let ?room = "unat (?right - seq_at b (int i))"
  have w: "?w \<le> 65535"
    by (simp add: advertised_window_def U16_MAX_def)
  have right: "?right = seq_at b (int (p + ?w))"
    by (simp add: nx)
  have lt: "seq_lt (seq_at b (int i)) ?right \<longleftrightarrow> i < p + ?w"
    unfolding right using i w by (subst seq_cmp) auto
  show ?thesis
  proof (cases "i < p + ?w \<and> 0 < n \<and> te_held_bytes e + min n (p + ?w - i) \<le> REASSEMBLY_LIMIT")
    case False
    have room: "?room = p + ?w - i" if "i < p + ?w"
      unfolding right using that i w by (subst seq_dist) auto
    have "t' = t"
      using h False lt room
      by (cases "i < p + ?w") (auto simp: hold_run_def Let_def take_stretch stretch_def split: if_splits)
    then show ?thesis using runs by (simp add: rsame_def)
  next
    case True
    have room: "?room = p + ?w - i"
      unfolding right using True i w by (subst seq_dist) auto
    let ?m = "min n (p + ?w - i)"
    let ?u = "t\<lparr>t_out_of_order := t_out_of_order t @ [run_of S b (i, ?m)]\<rparr>"
    let ?v = "coalesce ?u"
    let ?x = "if length (t_out_of_order ?v) > MAX_HELD_RUNS
      then ?v\<lparr>t_out_of_order := butlast (t_out_of_order ?v)\<rparr> else ?v"
    obtain rs where rs: "t_out_of_order t = map (run_of S b) rs" "spaced p rs"
      "\<forall>(i, n) \<in> set rs. i + n \<le> p + 65535"
      using runs unfolding runs_ok_def by blast
    have "\<exists>qs. t_out_of_order (coalesce ?u) = map (run_of S b) qs \<and> spaced p qs \<and> (\<forall>q \<in> set qs. within p (p + 65535) q)"
    proof (rule coalesce_ok)
      show "t_out_of_order ?u = map (run_of S b) (rs @ [(i, ?m)])" by (simp add: rs(1))
      show "\<forall>r \<in> set (rs @ [(i, ?m)]). within p (p + 65535) r"
        using rs(2,3) True i w spaced_starts [OF rs(2)] by (auto simp: within_def)
    qed (simp_all add: nx)
    then obtain qs where qs: "t_out_of_order ?v = map (run_of S b) qs" "spaced p qs"
      "\<forall>q \<in> set qs. within p (p + 65535) q" by blast
    have x: "runs_ok S b p (t_out_of_order ?x)"
    proof (cases "length (t_out_of_order ?v) > MAX_HELD_RUNS")
      case True
      have "\<forall>(i, n) \<in> set (butlast qs). i + n \<le> p + 65535"
        using qs(3) by (auto simp: within_def dest!: in_set_butlastD)
      then show ?thesis
        using True qs(1) spaced_butlast [OF qs(2)] unfolding runs_ok_def
        by (intro exI [of _ "butlast qs"]) (simp add: map_butlast)
    next
      case False
      then show ?thesis
        using qs unfolding runs_ok_def by (intro exI [of _ qs]) (auto simp: within_def)
    qed
    obtain y e1 where y: "account (?x, e) = (y, e1)" by force
    have pl: "take (min (length (stretch S i n)) ?room) (stretch S i n) = stretch S i ?m"
      by (simp add: take_stretch room)
    have ne: "stretch S i ?m \<noteq> []"
      using True by (simp add: stretch_def)
    have "hold_run (seq_at b (int i)) (stretch S i n) (t, e) = (arm_reassembly e1 y, e1)"
      unfolding hold_run_def Let_def prod.case pl run_of_fold y
      using True lt ne by simp
    then have "t' = arm_reassembly e1 y" using h by simp
    moreover have "rsame ?x y" using account_rsame [of "(?x, e)"] y by simp
    ultimately have "rsame ?x t'" using rsame_trans arm_reassembly_rsame by blast
    then show ?thesis
      using x by (auto simp: rsame_def coalesce_def Let_def)
  qed
qed

section \<open>An arriving segment\<close>

text \<open>
  What a segment may carry: bytes of the stream, at the position its sequence number names.  The
  position is within half the sequence space of what is wanted next, as the code has no
  timestamps to tell older segments apart.
\<close>

definition carries :: "stream \<Rightarrow> u32 \<Rightarrow> nat \<Rightarrow> segment \<Rightarrow> bool" where
  "carries S b p seg \<longleftrightarrow>
     (\<exists>x. sg_sequence seg = seq_at b x \<and> - (2 ^ 31) \<le> x - int p \<and> x - int p < 2 ^ 31 \<and>
        (\<forall>k < length (sg_payload seg). 0 \<le> x + int k \<longrightarrow> sg_payload seg ! k = S (nat (x + int k))))"

lemma fresh_payload_ok:
  assumes nx: "t_receive_next t = seq_at b (int p)" and c: "carries S b p seg"
    and f: "fresh_payload seg t = (payload, sequence)"
  shows "\<exists>i \<ge> p. i < p + 2 ^ 31 \<and> sequence = seq_at b (int i) \<and> payload = stretch S i (length payload)"
proof -
  obtain x where x: "sg_sequence seg = seq_at b x" "- (2 ^ 31) \<le> x - int p" "x - int p < 2 ^ 31"
    and data: "\<And>k. k < length (sg_payload seg) \<Longrightarrow> 0 \<le> x + int k \<Longrightarrow> sg_payload seg ! k = S (nat (x + int k))"
    using c unfolding carries_def by blast
  have lt: "seq_lt (sg_sequence seg) (t_receive_next t) \<longleftrightarrow> x < int p"
    unfolding x(1) nx using x(2,3) by (rule seq_cmp)
  show ?thesis
  proof (cases "x < int p")
    case True
    have d: "unat (t_receive_next t - sg_sequence seg) = nat (int p - x)"
      unfolding x(1) nx using x(2) True by (intro seq_dist) auto
    have "payload = drop (nat (int p - x)) (sg_payload seg)" "sequence = seq_at b (int p)"
      using f True lt nx by (auto simp: fresh_payload_def d)
    moreover have "drop (nat (int p - x)) (sg_payload seg) = stretch S p (length (sg_payload seg) - nat (int p - x))"
    proof (rule nth_equalityI)
      fix k assume "k < length (drop (nat (int p - x)) (sg_payload seg))"
      then have k: "nat (int p - x) + k < length (sg_payload seg)" and pos: "x + int (nat (int p - x) + k) = int (p + k)"
        using True by auto
      have "sg_payload seg ! (nat (int p - x) + k) = S (p + k)"
        using data [OF k] unfolding pos nat_int by simp
      then show "drop (nat (int p - x)) (sg_payload seg) ! k = stretch S p (length (sg_payload seg) - nat (int p - x)) ! k"
        using k by (simp add: stretch_def)
    qed simp
    ultimately show ?thesis by (intro exI [of _ p]) simp
  next
    case False
    then have "payload = sg_payload seg" "sequence = seq_at b (int (nat x))"
      using f lt x(1) by (auto simp: fresh_payload_def)
    moreover have "sg_payload seg = stretch S (nat x) (length (sg_payload seg))"
    proof (rule nth_equalityI)
      fix k assume "k < length (sg_payload seg)"
      then show "sg_payload seg ! k = stretch S (nat x) (length (sg_payload seg)) ! k"
        using data [of k] False by (simp add: stretch_def nat_add_distrib)
    qed simp
    ultimately show ?thesis
      using False x(3) by (intro exI [of _ "nat x"]) auto
  qed
qed

lemma deliver_held_ok:
  assumes got: "got @ t_received t = stretch S 0 (taken got t)"
    and nx: "t_receive_next t = seq_at b (int (taken got t))"
    and runs: "t_out_of_order t = map (run_of S b) rs" "spaced p rs" "\<forall>(i, n) \<in> set rs. i + n \<le> p + 65535"
    and p: "p \<le> taken got t" "taken got t \<le> p + 65535"
    and d: "deliver_held (t, e) = (t', e')"
  shows "rcv_ok S b got t' \<and> t_state t' = t_state t \<and> t_read_shutdown t' = t_read_shutdown t \<and>
    t_abandoned t' = t_abandoned t"
proof -
  let ?q = "taken got t"
  obtain runs' next' recv' where del: "deliver_runs (t_out_of_order t) (t_receive_next t) (t_received t) =
      (runs', next', recv')" by (metis prod_cases3)
  then obtain m rs' where m: "recv' = t_received t @ stretch S ?q m" "next' = seq_at b (int (?q + m))"
    "runs' = map (run_of S b) rs'" "spaced (?q + m) rs'" "\<forall>(i, n) \<in> set rs'. i + n \<le> p + 65535"
    using deliver_runs_ok [of S b rs ?q "t_received t" runs' next' recv' p "p + 65535"] runs p
    unfolding runs(1) nx by fastforce
  let ?u = "t\<lparr>t_out_of_order := runs', t_receive_next := next', t_received := recv'\<rparr>"
  obtain v e1 where v: "account (?u, e) = (v, e1)" by force
  have "rsame ?u v" using account_rsame [of "(?u, e)"] v by simp
  moreover have "rsame v t'"
    using d v del unfolding deliver_held_def Let_def
    by (auto simp: rsame_def arm_reassembly_def split: if_splits)
  ultimately have same: "rsame ?u t'" by (rule rsame_trans)
  have tk: "taken got ?u = ?q + m" by (simp add: taken_def m(1))
  have "got @ recv' = stretch S 0 (?q + m)"
    using got stretch_append [of S 0 ?q m] by (simp add: m(1) flip: append_assoc)
  moreover have "runs_ok S b (?q + m) runs'"
    unfolding runs_ok_def using m(3-5) p(1) by (intro exI [of _ rs']) fastforce
  ultimately have "rcv_ok S b got ?u"
    unfolding rcv_ok_def tk by (simp add: m(2))
  then show ?thesis
    using same rsame_rcv_ok [OF same] by (simp add: rsame_def)
qed

lemma on_data_ok:
  assumes ok: "rcv_ok S b got t" and st: "t_state t \<noteq> SynReceived"
    and pl: "payload = stretch S i (length payload)" "taken got t \<le> i" "i < taken got t + 2 ^ 31"
    and d: "on_data payload (seq_at b (int i)) (t, e) = (w, t', e')"
  shows "rcv_ok S b got t' \<and> t_state t' = t_state t \<and> t_read_shutdown t' = t_read_shutdown t \<and>
    t_abandoned t' = t_abandoned t"
proof (cases "can_receive t \<and> payload \<noteq> []")
  case False
  then have "t' = t \<or> \<not> live t \<and> t' = t\<lparr>t_receive_next := t_receive_next t + word_of_nat (length payload)\<rparr>"
    using d st by (auto simp: on_data_def Let_def can_receive_def live_def split: if_splits)
  then show ?thesis
    using ok rcv_ok_dead [OF ok, of t'] by (auto simp: live_def)
next
  case True
  then have "live t" by (auto simp: live_def can_receive_def)
  then have nx: "t_receive_next t = seq_at b (int (taken got t))" and runs: "runs_ok S b (taken got t) (t_out_of_order t)"
    and got: "got @ t_received t = stretch S 0 (taken got t)"
    using ok by (auto simp: rcv_ok_def)
  have eq: "seq_at b (int i) = t_receive_next t \<longleftrightarrow> i = taken got t"
    unfolding nx using pl by (subst seq_eq) auto
  show ?thesis
  proof (cases "i = taken got t")
    case False
    then have "hold_run (seq_at b (int i)) payload (t, e) = (t', e')"
      using d True eq by (auto simp: on_data_def)
    then have h: "runs_ok S b (taken got t) (t_out_of_order t')" "rsame (t\<lparr>t_out_of_order := t_out_of_order t'\<rparr>) t'"
      using hold_run_ok [OF nx runs pl(2,3), of "length payload" e t' e'] pl(1) by auto
    then show ?thesis
      using nx got by (auto simp: rcv_ok_def taken_def rsame_def)
  next
    case in_order: True
    define n where "n = min (length payload) (RECEIVE_WINDOW - length (t_received t))"
    let ?u = "t\<lparr>t_received := t_received t @ take n payload, t_receive_next := t_receive_next t + word_of_nat n\<rparr>"
    have dh: "deliver_held (?u, e) = (t', e')"
      using d True eq in_order by (auto simp: on_data_def Let_def n_def)
    have tk: "taken got ?u = taken got t + n"
      by (simp add: taken_def n_def)
    have "take n payload = stretch S (taken got t) n"
      by (subst pl(1)) (simp add: take_stretch n_def in_order)
    then have "got @ t_received ?u = stretch S 0 (taken got ?u)"
      using got stretch_append [of S 0 "taken got t" n] unfolding tk by (simp flip: append_assoc)
    moreover have "t_receive_next ?u = seq_at b (int (taken got ?u))"
      unfolding tk by (simp add: nx)
    moreover obtain rs where "t_out_of_order ?u = map (run_of S b) rs" "spaced (taken got t) rs"
      "\<forall>(i, n) \<in> set rs. i + n \<le> taken got t + 65535"
      using runs unfolding runs_ok_def by auto
    moreover have "n \<le> 65535" by (simp add: n_def RECEIVE_WINDOW_def)
    ultimately show ?thesis
      using deliver_held_ok [of got ?u S b rs "taken got t" e t' e'] dh tk by simp
  qed
qed

lemma on_finish_rsame:
  assumes "on_finish f (t, e) = (t', e')"
  shows "rsame t t'"
  using assms by (auto simp: on_finish_def rsame_def arm_reassembly_def Let_def split: if_splits)

lemma enter_time_wait_dead:
  assumes "enter_time_wait (t, e) = (t', e')"
  shows "t_state t' = TimeWait \<and> (t_received t' = t_received t \<or> t_received t' = [])"
proof -
  obtain u e1 where u: "drop_out_of_order (t\<lparr>t_state := TimeWait\<rparr>, e) = (u, e1)" by force
  show ?thesis
    using assms u drop_out_of_order_keeps [OF u]
    by (auto simp: enter_time_wait_def Let_def split: if_splits)
qed

lemma take_fin_ok:
  assumes ok: "rcv_ok S b got t" and st: "t_state t \<noteq> SynReceived"
    and f: "take_fin (t, e) = (w, t', e')"
  shows "rcv_ok S b got t' \<and> t_state t' \<noteq> SynReceived"
proof (cases "t_fin_received t")
  case True
  then have "rsame t t'"
    using f by (auto simp: take_fin_def Let_def rsame_def split: if_splits)
  then show ?thesis
    using ok st rsame_rcv_ok [of t t'] by (simp add: rsame_def)
next
  case False
  define u where "u = (let t = t\<lparr>t_held_fin := None\<rparr>;
    t = (if t_out_of_order t = [] then t\<lparr>t_reassembly_expire_at := 0\<rparr> else t)
    in t\<lparr>t_fin_received := True, t_receive_next := t_receive_next t + 1\<rparr>)"
  have u: "t_received u = t_received t" "t_state u = t_state t"
    by (auto simp: u_def Let_def)
  have f': "(t', e') = (if t_state u = Established then (u\<lparr>t_state := CloseWait\<rparr>, e)
    else if t_state u = FinWait1 then (u\<lparr>t_state := Closing\<rparr>, e)
    else if t_state u = FinWait2 then enter_time_wait (u, e) else (u, e))"
    using f False by (auto simp: take_fin_def u_def Let_def)
  have "t_state t' \<notin> {SynReceived, Established, FinWait1, FinWait2} \<and>
      (t_received t' = t_received t \<or> t_received t' = [])"
  proof (cases "t_state u = FinWait2")
    case True
    then show ?thesis
      using f' u enter_time_wait_dead [of u e t' e'] by simp
  next
    case False
    then show ?thesis
      using f' u st by (auto split: if_splits)
  qed
  then show ?thesis
    using rcv_ok_dead [OF ok, of t'] by (auto simp: live_def)
qed

lemma on_payload_ok:
  assumes ok: "rcv_ok S b got t" and st: "t_state t \<noteq> SynReceived"
    and c: "live t \<Longrightarrow> carries S b (taken got t) seg"
    and p: "on_payload seg wanted (t, e) = (w, t', e')"
  shows "rcv_ok S b got t' \<and> t_state t' \<noteq> SynReceived"
proof -
  obtain payload sequence where fp: "fresh_payload seg t = (payload, sequence)" by force
  obtain w1 t1 e1 where d: "on_data payload sequence (t, e) = (w1, t1, e1)" by (metis prod_cases3)
  obtain t2 e2 where fin: "(if sg_flags seg AND FIN \<noteq> 0
      then on_finish (sequence + word_of_nat (length payload)) (t1, e1) else (t1, e1)) = (t2, e2)" by force
  obtain w3 t3 e3 where tf: "(if t_held_fin t2 = Some (t_receive_next t2) then take_fin (t2, e2)
      else (False, t2, e2)) = (w3, t3, e3)" by (metis prod_cases3)
  have t1: "rcv_ok S b got t1 \<and> t_state t1 = t_state t"
  proof (cases "live t")
    case True
    then obtain i where "taken got t \<le> i" "i < taken got t + 2 ^ 31" "sequence = seq_at b (int i)"
      "payload = stretch S i (length payload)"
      using fresh_payload_ok [OF _ c fp] ok by (auto simp: rcv_ok_def)
    then show ?thesis
      using on_data_ok [OF ok st] d by blast
  next
    case False
    then have "\<not> can_receive t"
      by (auto simp: live_def can_receive_def)
    then have "t_received t1 = t_received t \<and> t_state t1 = t_state t \<and> \<not> live t1"
      using d False by (auto simp: on_data_def Let_def live_def split: if_splits)
    then show ?thesis
      using rcv_ok_dead [OF ok] by blast
  qed
  have same: "rsame t1 t2"
    using fin on_finish_rsame by (auto split: if_splits)
  then have "t_state t2 = t_state t1"
    by (simp add: rsame_def)
  with same have t2: "rcv_ok S b got t2" "t_state t2 \<noteq> SynReceived"
    using t1 st rsame_rcv_ok [OF same] by simp_all
  then have t3: "rcv_ok S b got t3" "t_state t3 \<noteq> SynReceived"
    using tf take_fin_ok [OF t2] by (auto split: if_splits)
  have last_part: "rsame t3 t'"
  proof -
    have out: "rsame t3 (fst (tcp_output (t4, e4)))" if "rsame t3 t4" for t4 e4
      using rsame_trans [OF that rsame_machinery [OF tcp_output_machinery [of "(t4, e4)", simplified fst_conv]]] .
    have "(t', e') = (if (sg_payload seg \<noteq> [] \<or> sg_flags seg AND FIN \<noteq> 0) \<and> t_state t3 \<noteq> Closed
        then tcp_output (open_window (t_receive_next t3 \<noteq> wanted) t3,
               acknowledge (open_window (t_receive_next t3 \<noteq> wanted) t3) e3)
        else tcp_output (t3, e3))"
      using p unfolding on_payload_def Let_def prod.case fp d fin tf by (auto split: if_splits)
    then show ?thesis
      using out [of t3 e3] out [OF open_window_rsame] by (metis fst_conv rsame_refl)
  qed
  have "t_state t' = t_state t3"
    using last_part by (simp add: rsame_def)
  then show ?thesis
    using t3 rsame_rcv_ok [OF last_part] by simp
qed

lemma on_fin_acknowledged_ok:
  assumes ok: "rcv_ok S b got t" and st: "t_state t \<noteq> SynReceived"
    and f: "on_fin_acknowledged (t, e) = (w, t', e')"
  shows "rcv_ok S b got t' \<and> t_state t' \<noteq> SynReceived \<and> (live t' \<longrightarrow> live t \<and> t_received t' = t_received t)"
proof -
  consider "\<not> (t_fin_acknowledged t \<and> t_state t \<in> {FinWait1, Closing, LastAck})"
    | "t_fin_acknowledged t" "t_state t = FinWait1" | "t_fin_acknowledged t" "t_state t = Closing"
    | "t_fin_acknowledged t" "t_state t = LastAck"
    by blast
  then show ?thesis
  proof cases
    case 1
    then have "t' = t" using f by (auto simp: on_fin_acknowledged_def split: if_splits)
    with ok st show ?thesis by simp
  next
    case 2
    then have "(t', e') = enter_fin_wait_2 (t, e)" using f by (simp add: on_fin_acknowledged_def)
    then have t': "t_received t' = t_received t" "t_receive_next t' = t_receive_next t"
      "t_out_of_order t' = t_out_of_order t" "t_state t' = FinWait2"
      "t_read_shutdown t' = t_read_shutdown t" "t_abandoned t' = t_abandoned t"
      by (auto simp: enter_fin_wait_2_def Let_def split: if_splits)
    then have "live t' = live t" using 2 by (simp add: live_def)
    with t' show ?thesis
      using rcv_ok_dropped [OF ok t'(1,2)] by simp
  next
    case 3
    then have "enter_time_wait (t, e) = (t', e')" using f by (simp add: on_fin_acknowledged_def)
    then show ?thesis
      using enter_time_wait_dead [of t e t' e'] rcv_ok_dead [OF ok, of t'] by (auto simp: live_def)
  next
    case 4
    then have "t' = t\<lparr>t_state := Closed, t_retransmit_at := 0\<rparr>"
      using f by (simp add: on_fin_acknowledged_def)
    then show ?thesis
      using rcv_ok_dead [OF ok, of t'] by (auto simp: live_def)
  qed
qed

lemma on_established_ok:
  assumes ok: "rcv_ok S b got t" and st: "t_state t \<noteq> SynReceived"
    and c: "live t \<Longrightarrow> carries S b (taken got t) seg"
    and p: "on_established seg dup woke (t, e) = (w, t', e')"
  shows "rcv_ok S b got t' \<and> t_state t' \<noteq> SynReceived"
proof -
  let ?a = "sg_acknowledgement seg"
  let ?fresh = "seq_gt ?a (t_send_unacknowledged t) \<and> seq_le ?a (t_send_high t)"
  obtain t1 e1 where a1: "(if ?fresh then on_new_ack ?a (t, e) else (t, e)) = (t1, e1)" by force
  obtain t2 e2 where a2: "(if dup then on_duplicate_ack (t1, e1) else (t1, e1)) = (t2, e2)" by force
  let ?t3 = "update_send_window seg t2"
  obtain w4 t4 e4 where a4: "on_fin_acknowledged (?t3, e2) = (w4, t4, e4)" by (metis prod_cases3)
  obtain w5 t5 e5 where a5: "on_payload seg (t_receive_next t) (t4, e4) = (w5, t5, e5)" by (metis prod_cases3)
  have "rsame t t1"
    using a1 on_new_ack_rsame [of "(t, e)" ?a] by (auto split: if_splits)
  also have "rsame t1 t2"
    using a2 rsame_machinery [OF on_duplicate_ack_machinery [of "(t1, e1)"]] by (auto split: if_splits)
  also have "rsame t2 ?t3"
    by simp
  finally have same: "rsame t ?t3" .
  have t3: "rcv_ok S b got ?t3" "t_state ?t3 \<noteq> SynReceived"
    using rsame_rcv_ok [OF same] ok st same by (simp_all add: rsame_def)
  have t4: "rcv_ok S b got t4" "t_state t4 \<noteq> SynReceived" "live t4 \<Longrightarrow> live ?t3 \<and> t_received t4 = t_received ?t3"
    using on_fin_acknowledged_ok [OF t3 a4] by auto
  have c4: "carries S b (taken got t4) seg" if "live t4"
  proof -
    have "live t" "t_received t4 = t_received t"
      using t4(3) [OF that] rsame_live [OF same] same by (simp_all add: rsame_def)
    then show ?thesis using c by (simp add: taken_def)
  qed
  have "t' = t5"
    using p unfolding on_established_def Let_def prod.case a1 a2 a4 a5 by simp
  then show ?thesis
    using on_payload_ok [OF t4(1,2) c4 a5] by simp
qed

lemma on_unacceptable_rsame: "rsame t (fst (on_unacceptable seg (t, e)))"
proof -
  have "rsame t (fst (send_syn_ack (t\<lparr>t_timed := None\<rparr>, e)))"
    using rsame_machinery [OF machinery_trans [OF machinery_updates(4) send_syn_ack_machinery [of "(t\<lparr>t_timed := None\<rparr>, e)", simplified fst_conv]]] .
  then show ?thesis
    by (simp add: on_unacceptable_def)
qed

lemma on_reset_ok:
  assumes ok: "rcv_ok S b got t" and r: "on_reset seg (t, e) = (w, t', e')"
  shows "rcv_ok S b got t'"
proof (cases "sg_sequence seg = t_receive_next t")
  case False
  then have "t' = t" using r by (simp add: on_reset_def)
  with ok show ?thesis by simp
next
  case True
  obtain u e1 where u: "drop_out_of_order (t\<lparr>t_state := Closed, t_retransmit_at := 0, t_pending := []\<rparr>, e) = (u, e1)"
    by force
  have "t' = (if t_error u = None then u\<lparr>t_error := Some ECONNRESET\<rparr> else u)"
    using r True u by (simp add: on_reset_def)
  then have "t_state t' = Closed \<and> t_received t' = t_received t"
    using drop_out_of_order_keeps [OF u] by simp
  then show ?thesis
    using rcv_ok_dead [OF ok, of t'] by (simp add: live_def)
qed

lemma on_segment_ok:
  assumes ok: "rcv_ok S b got t" and st: "t_state t \<noteq> SynSent"
    and c: "live t \<Longrightarrow> carries S b (taken got t) seg"
    and s: "on_segment seg (t, e) = (w, t', e')"
  shows "rcv_ok S b got t'"
proof -
  let ?u = "t\<lparr>t_state := Established, t_retransmit_at := 0, t_retries := 0\<rparr>"
  consider "t' = t" | "t' = fst (on_unacceptable seg (t, e))" | "on_reset seg (t, e) = (w, t', e')"
    | "t_state t = SynReceived" "on_established seg (is_duplicate_ack seg t) True (?u, e) = (w, t', e')"
    | "t_state t \<noteq> SynReceived" "on_established seg (is_duplicate_ack seg t) False (t, e) = (w, t', e')"
    using s st unfolding on_segment_def Let_def prod.case
    by (auto split: if_splits dest: arg_cong [where f = fst])
  then show ?thesis
  proof cases
    case 1
    with ok show ?thesis by simp
  next
    case 2
    then show ?thesis using ok rsame_rcv_ok [OF on_unacceptable_rsame [of t seg e]] by simp
  next
    case 3
    then show ?thesis using on_reset_ok [OF ok] by simp
  next
    case 4
    have "live ?u = live t" "taken got ?u = taken got t" "rcv_ok S b got ?u = rcv_ok S b got t"
      using 4 by (simp_all add: rcv_ok_def live_def taken_def)
    then show ?thesis using on_established_ok [OF _ _ _ 4(2)] ok c by simp
  next
    case 5
    then show ?thesis using on_established_ok [OF ok 5(1) c] by simp
  qed
qed

section \<open>Everything that can happen to a connection\<close>

text \<open>
  A segment arriving, what a socket's user asks (\<open>kernel/src/net/socket.rs\<close> hands each call to
  the control block under its lock), the clock, and the surroundings changing in between.
\<close>

datatype conn_op =
    Arrive segment
  | Read nat bool
  | Write bytes
  | Shutdown_Read
  | Shutdown_Write
  | Abort
  | Abandon
  | Timer nat
  | Surroundings tcp_env

text \<open>The bytes handed to the reader and the bytes taken from the writer, and the state after.\<close>

fun conn_do :: "conn_op \<Rightarrow> tcb \<times> tcp_env \<Rightarrow> bytes \<times> bytes \<times> tcb \<times> tcp_env" where
  "conn_do (Arrive seg) te = (let (_, te') = on_segment seg te in ([], [], te'))"
| "conn_do (Read len peek) te =
     (case tcp_read len peek te of
        (Inr bs, te') \<Rightarrow> (if peek then [] else bs, [], te')
      | (Inl _, te') \<Rightarrow> ([], [], te'))"
| "conn_do (Write buf) te =
     (case tcp_write buf te of
        (Inr n, te') \<Rightarrow> ([], take n buf, te')
      | (Inl _, te') \<Rightarrow> ([], [], te'))"
| "conn_do Shutdown_Read te = ([], [], (fst te)\<lparr>t_read_shutdown := True\<rparr>, snd te)"
| "conn_do Shutdown_Write te = ([], [], shutdown_write te)"
| "conn_do Abort te = ([], [], tcp_abort te)"
| "conn_do Abandon te = ([], [], tcp_abandon te)"
| "conn_do (Timer now) te = (let (_, te') = on_timer now te in ([], [], te'))"
| "conn_do (Surroundings e) te = ([], [], fst te, e\<lparr>te_sent := te_sent (snd te)\<rparr>)"

lemma tcp_read_ok:
  assumes ok: "rcv_ok S b got t" and r: "conn_do (Read len peek) (t, e) = (out, wrote, t', e')"
  shows "rcv_ok S b (got @ out) t'"
proof (cases "t_received t \<noteq> [] \<and> \<not> peek")
  case True
  let ?n = "min len (length (t_received t))"
  let ?u = "t\<lparr>t_received := drop ?n (t_received t)\<rparr>"
  have out: "out = take ?n (t_received t)" and t': "t' = open_window False ?u"
    using r True by (simp_all add: tcp_read_def Let_def)
  have tk: "taken (got @ out) ?u = taken got t" and all: "(got @ out) @ t_received ?u = got @ t_received t"
    and lv: "live ?u = live t"
    by (simp_all add: taken_def out live_def)
  have "rcv_ok S b (got @ out) ?u"
    using ok unfolding rcv_ok_def tk all lv by simp
  then show ?thesis
    using rsame_rcv_ok [OF open_window_rsame] t' by simp
next
  case False
  then have "out = [] \<and> rsame t t'"
    using r by (cases "t_error t") (auto simp: tcp_read_def Let_def rsame_def split: if_splits)
  then show ?thesis
    using ok rsame_rcv_ok [of t t'] by simp
qed

lemma tcp_write_rsame:
  assumes "tcp_write buf (t, e) = (res, t', e')"
  shows "rsame t t'"
proof -
  have out: "rsame t t''" if "tcp_output (t\<lparr>t_pending := pd\<rparr>, e) = (t'', e'')" for pd t'' e''
    using rsame_trans [of t "t\<lparr>t_pending := pd\<rparr>"] that
      rsame_machinery [OF tcp_output_machinery [of "(t\<lparr>t_pending := pd\<rparr>, e)"]] by (simp add: rsame_def)
  show ?thesis
    using assms out unfolding tcp_write_def Let_def prod.case
    by (auto split: if_splits simp: rsame_def)
qed

lemma shutdown_write_ok:
  assumes ok: "rcv_ok S b got t" and r: "shutdown_write (t, e) = (t', e')"
  shows "rcv_ok S b got t'"
proof -
  have out: "rcv_ok S b got t'" if "rcv_ok S b got u" "tcp_output (u, e) = (t', e')" for u
    using rsame_rcv_ok [OF rsame_machinery [OF tcp_output_machinery [of "(u, e)"]]] that by simp
  have "rcv_ok S b got (t\<lparr>t_fin_queued := True, t_state := FinWait1\<rparr>)" if "t_state t \<in> {Established, SynReceived}"
    using rcv_ok_dropped [OF ok, of "t\<lparr>t_fin_queued := True, t_state := FinWait1\<rparr>"] that by (auto simp: live_def)
  moreover have "rcv_ok S b got (t\<lparr>t_fin_queued := True, t_state := LastAck\<rparr>)"
    "rcv_ok S b got (t\<lparr>t_state := Closed, t_retransmit_at := 0\<rparr>)"
    by (rule rcv_ok_dead [OF ok]; simp add: live_def)+
  ultimately show ?thesis
    using r ok out unfolding shutdown_write_def Let_def prod.case by (auto split: if_splits)
qed

lemma tcp_abort_ok:
  assumes ok: "rcv_ok S b got t" and r: "tcp_abort (t, e) = (t', e')"
  shows "rcv_ok S b got t' \<and> t_state t' = Closed"
proof -
  let ?u = "t\<lparr>t_state := Closed, t_retransmit_at := 0, t_pending := [], t_fin_queued := False\<rparr>"
  obtain e0 where "drop_out_of_order (?u, e0) = (t', e')"
    using r unfolding tcp_abort_def Let_def by auto
  then have t': "t_state t' = Closed" "t_received t' = t_received t"
    using drop_out_of_order_keeps by fastforce+
  then show ?thesis
    using rcv_ok_dead [OF ok, of t'] by (simp add: live_def)
qed

lemma tcp_abandon_ok:
  assumes ok: "rcv_ok S b got t" and r: "tcp_abandon (t, e) = (t', e')"
  shows "rcv_ok S b got t'"
proof -
  obtain u e1 where u: "drop_out_of_order (t\<lparr>t_abandoned := True\<rparr>, e) = (u, e1)" by force
  have "t_abandoned t' \<and> t_received t' = t_received t"
    using r drop_out_of_order_keeps [OF u] by (auto simp: tcp_abandon_def u split: if_splits)
  then show ?thesis
    using rcv_ok_dead [OF ok, of t'] by (simp add: live_def)
qed

lemma on_timeout_machinery: "machinery t (fst (on_timeout now (t, e)))"
proof -
  let ?rto = "min (t_rto t * 2) MAX_RTO"
  let ?u = "t\<lparr>t_rto := ?rto, t_timed := None, t_retransmit_at := now + ?rto,
    t_slow_start_threshold := halved_flight t, t_congestion_window := MSS,
    t_recover := None, t_duplicate_acks := 0, t_timeouts := t_timeouts t + 1\<rparr>"
  let ?v = "?u\<lparr>t_send_next := t_send_unacknowledged ?u, t_fin_sequence := None\<rparr>"
  have u: "machinery t ?u" and v: "machinery t ?v" by (simp_all add: machinery_def)
  have "machinery t (fst (tcp_output (?v, e)))"
    using machinery_trans [OF v] tcp_output_machinery [of "(?v, e)"] by simp
  moreover have "machinery t (sent_through q ?v)" for q
    by (rule machinery_trans [OF v machinery_simple(1)])
  ultimately show ?thesis
    using u unfolding on_timeout_def Let_def prod.case by simp
qed

lemma on_timer_ok:
  assumes ok: "rcv_ok S b got t" and r: "on_timer now (t, e) = (w, t', e')"
  shows "rcv_ok S b got t'"
proof -
  obtain u e1 where u: "(if t_reassembly_expire_at t \<noteq> 0 \<and> now \<ge> t_reassembly_expire_at t
      then drop_out_of_order (t, e) else (t, e)) = (u, e1)" by force
  have ok_u: "rcv_ok S b got u"
  proof (cases "t_reassembly_expire_at t \<noteq> 0 \<and> now \<ge> t_reassembly_expire_at t")
    case True
    then have "u = t\<lparr>t_out_of_order := [], t_held_fin := None, t_reassembly_expire_at := 0, t_held := 0\<rparr>"
      using u drop_out_of_order_keeps [of t e u e1] by simp
    then show ?thesis
      using rcv_ok_dropped [OF ok, of u] by (simp add: live_def)
  next
    case False
    with u ok show ?thesis by auto
  qed
  let ?v = "u\<lparr>t_retries := t_retries u + 1\<rparr>"
  have v: "rcv_ok S b got ?v"
    using rsame_rcv_ok [of u ?v] ok_u by (simp add: rsame_def)
  consider "t' = u" | "t_state t' = Closed" "t_received t' = t_received u" | "t' = fst (on_timeout now (?v, e1))"
    | t2 e2 where "tcp_abort (?v, e1) = (t2, e2)" "t' = t2\<lparr>t_error := Some ETIMEDOUT\<rparr>"
  proof -
    assume a: "t' = u \<Longrightarrow> thesis" "t_state t' = Closed \<Longrightarrow> t_received t' = t_received u \<Longrightarrow> thesis"
      "t' = fst (on_timeout now (?v, e1)) \<Longrightarrow> thesis"
      "\<And>t2 e2. tcp_abort (?v, e1) = (t2, e2) \<Longrightarrow> t' = t2\<lparr>t_error := Some ETIMEDOUT\<rparr> \<Longrightarrow> thesis"
    obtain t2 e2 where ab: "tcp_abort (?v, e1) = (t2, e2)" by force
    obtain t3 e3 where ot: "on_timeout now (?v, e1) = (t3, e3)" by force
    show thesis
      using r a(1,2,3) a(4) [OF ab] unfolding on_timer_def Let_def prod.case u ab ot
      by (auto split: if_splits)
  qed
  then show ?thesis
  proof cases
    case 1
    with ok_u show ?thesis by simp
  next
    case 2
    then show ?thesis using rcv_ok_dead [OF ok_u, of t'] by (simp add: live_def)
  next
    case 3
    then show ?thesis
      using v rsame_rcv_ok [OF rsame_machinery [OF on_timeout_machinery [of ?v now e1]]] by simp
  next
    case 4
    then show ?thesis
      using tcp_abort_ok [OF v 4(1)] rsame_rcv_ok [of t2 t'] by (simp add: rsame_def)
  qed
qed

lemma conn_do_receives:
  assumes ok: "rcv_ok S b got t" and st: "t_state t \<noteq> SynSent"
    and c: "\<And>seg. op = Arrive seg \<Longrightarrow> live t \<Longrightarrow> carries S b (taken got t) seg"
    and r: "conn_do op (t, e) = (out, wrote, t', e')"
  shows "rcv_ok S b (got @ out) t'"
proof (cases op)
  case (Arrive seg)
  obtain w t2 e2 where seg: "on_segment seg (t, e) = (w, t2, e2)" by (metis prod_cases3)
  have "rcv_ok S b got t2"
    by (rule on_segment_ok [OF ok st _ seg]) (use c Arrive in simp)
  then show ?thesis
    using r Arrive seg by simp
next
  case (Read len peek)
  then show ?thesis using tcp_read_ok [OF ok] r by simp
next
  case (Write buf)
  obtain res t2 e2 where w: "tcp_write buf (t, e) = (res, t2, e2)" by (metis prod_cases3)
  then have "t' = t2" "out = []"
    using r Write by (auto split: sum.splits)
  then show ?thesis using rsame_rcv_ok [OF tcp_write_rsame [OF w]] ok by simp
next
  case Shutdown_Read
  then show ?thesis using r rcv_ok_dead [OF ok, of t'] by (auto simp: live_def)
next
  case Shutdown_Write
  then show ?thesis using r shutdown_write_ok [OF ok] by auto
next
  case Abort
  then show ?thesis using r tcp_abort_ok [OF ok] by auto
next
  case Abandon
  then show ?thesis using r tcp_abandon_ok [OF ok] by auto
next
  case (Timer now)
  obtain w t2 e2 where "on_timer now (t, e) = (w, t2, e2)" by (metis prod_cases3)
  then show ?thesis using r Timer on_timer_ok [OF ok] by auto
next
  case (Surroundings e2)
  then show ?thesis using r ok by auto
qed

end
