(* ===== verification/Tcp_States.thy ===== *)
theory Tcp_States
  imports Tcp_Stream
begin

text \<open>
  The states of a connection: every operation moves it along the edges of the state diagram of
  RFC 793, and nothing takes it back to an earlier state.
\<close>

section \<open>The state diagram\<close>

fun tcp_edge :: "tcp_state \<Rightarrow> tcp_state \<Rightarrow> bool" where
  "tcp_edge Closed s \<longleftrightarrow> False"
| "tcp_edge Listen s \<longleftrightarrow> s = Closed"
| "tcp_edge SynSent s \<longleftrightarrow> s \<in> {SynReceived, Established, Closed}"
| "tcp_edge SynReceived s \<longleftrightarrow> s \<in> {Established, FinWait1, Closed}"
| "tcp_edge Established s \<longleftrightarrow> s \<in> {FinWait1, CloseWait, Closed}"
| "tcp_edge FinWait1 s \<longleftrightarrow> s \<in> {FinWait2, Closing, Closed}"
| "tcp_edge FinWait2 s \<longleftrightarrow> s \<in> {TimeWait, Closed}"
| "tcp_edge CloseWait s \<longleftrightarrow> s \<in> {LastAck, Closed}"
| "tcp_edge Closing s \<longleftrightarrow> s \<in> {TimeWait, Closed}"
| "tcp_edge LastAck s \<longleftrightarrow> s = Closed"
| "tcp_edge TimeWait s \<longleftrightarrow> s = Closed"

definition leads_to :: "tcb \<Rightarrow> tcb \<Rightarrow> bool" where
  "leads_to t t' \<longleftrightarrow> tcp_edge\<^sup>*\<^sup>* (t_state t) (t_state t')"

lemma leads_to_same: "t_state t' = t_state t \<Longrightarrow> leads_to t t'"
  by (simp add: leads_to_def)

lemma leads_to_edge: "tcp_edge (t_state t) (t_state t') \<Longrightarrow> leads_to t t'"
  by (simp add: leads_to_def)

lemma leads_to_trans [trans]: "leads_to t u \<Longrightarrow> leads_to u v \<Longrightarrow> leads_to t v"
  unfolding leads_to_def by (rule rtranclp_trans)

lemma leads_to_rsame: "rsame t t' \<Longrightarrow> leads_to t t'"
  by (simp add: leads_to_same rsame_def)

lemma leads_to_machinery: "machinery t t' \<Longrightarrow> leads_to t t'"
  by (simp add: leads_to_same machinery_keeps)

lemma leads_to_closed: "t_state t' = Closed \<Longrightarrow> leads_to t t'"
  unfolding leads_to_def by (cases "t_state t") auto

section \<open>The operations\<close>

lemma on_data_state:
  assumes "on_data payload sequence (t, e) = (w, t', e')"
  shows "t_state t' = t_state t"
proof -
  have "t_state (fst (deliver_held (u, e))) = t_state u" for u
    by (simp add: deliver_held_def account_def arm_reassembly_def Let_def split: prod.split)
  moreover have "t_state (fst (hold_run q pl (t, e))) = t_state t" for q pl
    by (simp add: hold_run_def account_def arm_reassembly_def coalesce_def Let_def)
  ultimately show ?thesis
    using assms unfolding on_data_def Let_def prod.case
    by (auto split: if_splits dest!: arg_cong [where f = "\<lambda>x. t_state (fst x)"])
qed

lemma take_fin_leads:
  assumes "take_fin (t, e) = (w, t', e')"
  shows "leads_to t t'"
proof -
  have "t_state (fst (enter_time_wait (u, e))) = TimeWait" for u
    using enter_time_wait_dead [of u e] by (metis prod.collapse)
  then have "t_state t' = t_state t \<or> tcp_edge (t_state t) (t_state t')"
    using assms unfolding take_fin_def Let_def prod.case
    by (auto split: if_splits dest!: arg_cong [where f = "\<lambda>x. t_state (fst x)"])
  then show ?thesis
    using leads_to_same leads_to_edge by blast
qed

lemma tcp_output_leads: "tcp_output (u, e) = (t', e') \<Longrightarrow> leads_to u t'"
  using leads_to_machinery [OF tcp_output_machinery [of "(u, e)"]] by simp

lemma on_payload_leads:
  assumes p: "on_payload seg wanted (t, e) = (w, t', e')"
  shows "leads_to t t'"
proof -
  obtain payload sequence where fp: "fresh_payload seg t = (payload, sequence)" by force
  obtain w1 t1 e1 where d: "on_data payload sequence (t, e) = (w1, t1, e1)" by (metis prod_cases3)
  obtain t2 e2 where fin: "(if sg_flags seg AND FIN \<noteq> 0
      then on_finish (sequence + word_of_nat (length payload)) (t1, e1) else (t1, e1)) = (t2, e2)" by force
  obtain w3 t3 e3 where tf: "(if t_held_fin t2 = Some (t_receive_next t2) then take_fin (t2, e2)
      else (False, t2, e2)) = (w3, t3, e3)" by (metis prod_cases3)
  have "leads_to t t1"
    by (rule leads_to_same [OF on_data_state [OF d]])
  also have "leads_to t1 t2"
    using fin by (auto split: if_splits intro: leads_to_same leads_to_rsame [OF on_finish_rsame])
  also have "leads_to t2 t3"
    using tf by (auto split: if_splits intro: leads_to_same take_fin_leads)
  also have "leads_to t3 t'"
  proof -
    let ?u = "open_window (t_receive_next t3 \<noteq> wanted) t3"
    have "tcp_output (t3, e3) = (t', e') \<or> tcp_output (?u, acknowledge ?u e3) = (t', e')"
      using p unfolding on_payload_def Let_def prod.case fp d fin tf by (auto split: if_splits)
    then show ?thesis
      using tcp_output_leads leads_to_trans [OF leads_to_rsame [OF open_window_rsame]] by blast
  qed
  finally show ?thesis .
qed

lemma on_fin_acknowledged_leads:
  assumes "on_fin_acknowledged (t, e) = (w, t', e')"
  shows "leads_to t t'"
proof -
  have "t_state (fst (enter_time_wait (t, e))) = TimeWait" "t_state (fst (enter_fin_wait_2 (t, e))) = FinWait2"
    using enter_time_wait_dead [of t e] by (metis prod.collapse) (simp add: enter_fin_wait_2_def Let_def)
  then have "t_state t' = t_state t \<or> tcp_edge (t_state t) (t_state t')"
    using assms unfolding on_fin_acknowledged_def Let_def prod.case
    by (auto split: if_splits dest!: arg_cong [where f = "\<lambda>x. t_state (fst x)"])
  then show ?thesis
    using leads_to_same leads_to_edge by blast
qed

lemma on_established_leads:
  assumes p: "on_established seg dup woke (t, e) = (w, t', e')"
  shows "leads_to t t'"
proof -
  let ?a = "sg_acknowledgement seg"
  let ?fresh = "seq_gt ?a (t_send_unacknowledged t) \<and> seq_le ?a (t_send_high t)"
  obtain t1 e1 where a1: "(if ?fresh then on_new_ack ?a (t, e) else (t, e)) = (t1, e1)" by force
  obtain t2 e2 where a2: "(if dup then on_duplicate_ack (t1, e1) else (t1, e1)) = (t2, e2)" by force
  let ?t3 = "update_send_window seg t2"
  obtain w4 t4 e4 where a4: "on_fin_acknowledged (?t3, e2) = (w4, t4, e4)" by (metis prod_cases3)
  obtain w5 t5 e5 where a5: "on_payload seg (t_receive_next t) (t4, e4) = (w5, t5, e5)" by (metis prod_cases3)
  have "leads_to t t1"
    using a1 leads_to_rsame [OF on_new_ack_rsame [of "(t, e)" ?a]] by (auto split: if_splits simp: leads_to_same)
  also have "leads_to t1 t2"
    using a2 leads_to_machinery [OF on_duplicate_ack_machinery [of "(t1, e1)"]]
    by (auto split: if_splits simp: leads_to_same)
  also have "leads_to t2 ?t3"
    by (rule leads_to_rsame) simp
  also have "leads_to ?t3 t4"
    by (rule on_fin_acknowledged_leads [OF a4])
  also have "leads_to t4 t5"
    by (rule on_payload_leads [OF a5])
  finally show ?thesis
    using p unfolding on_established_def Let_def prod.case a1 a2 a4 a5 by simp
qed

lemma on_syn_sent_leads:
  assumes st: "t_state t = SynSent" and s: "on_syn_sent seg (t, e) = (w, t', e')"
  shows "leads_to t t'"
proof -
  have out: "t_state (fst (tcp_output (u, e1))) = t_state u" "t_state (fst (send_syn_ack (u, e1))) = t_state u" for u e1
    using tcp_output_machinery [of "(u, e1)"] send_syn_ack_machinery [of "(u, e1)"]
    by (simp_all add: machinery_keeps)
  have "t_state t' \<in> {SynSent, SynReceived, Established, Closed}"
    using s st unfolding on_syn_sent_def Let_def prod.case
    by (auto split: if_splits simp: out dest!: arg_cong [where f = "\<lambda>x. t_state (fst x)"])
  then show ?thesis
    using st by (auto intro: leads_to_same leads_to_edge)
qed

lemma on_segment_leads:
  assumes s: "on_segment seg (t, e) = (w, t', e')"
  shows "leads_to t t'"
proof -
  let ?u = "t\<lparr>t_state := Established, t_retransmit_at := 0, t_retries := 0\<rparr>"
  consider "t' = t" | "t_state t = SynSent" "on_syn_sent seg (t, e) = (w, t', e')"
    | "t' = fst (on_unacceptable seg (t, e))" | "on_reset seg (t, e) = (w, t', e')"
    | "t_state t = SynReceived" "on_established seg (is_duplicate_ack seg t) True (?u, e) = (w, t', e')"
    | "on_established seg (is_duplicate_ack seg t) False (t, e) = (w, t', e')"
    using s unfolding on_segment_def Let_def prod.case
    by (auto split: if_splits dest: arg_cong [where f = fst])
  then show ?thesis
  proof cases
    case 4
    have "t' = t \<or> t_state t' = Closed"
      using 4 drop_out_of_order_keeps [of "t\<lparr>t_state := Closed, t_retransmit_at := 0, t_pending := []\<rparr>" e]
      by (auto simp: on_reset_def Let_def split: if_splits prod.splits)
    then show ?thesis by (auto intro: leads_to_same leads_to_closed)
  next
    case 5
    have "leads_to t ?u" using 5 by (intro leads_to_edge) simp
    also have "leads_to ?u t'" by (rule on_established_leads [OF 5(2)])
    finally show ?thesis .
  qed (auto intro: leads_to_same on_syn_sent_leads leads_to_rsame [OF on_unacceptable_rsame] on_established_leads)
qed

lemma tcp_abort_closes: "t_state (fst (tcp_abort (t, e))) = Closed"
  by (simp add: tcp_abort_def drop_out_of_order_def account_def Let_def)

lemma on_timer_leads:
  assumes r: "on_timer now (t, e) = (w, t', e')"
  shows "leads_to t t'"
proof -
  have drop: "t_state (fst (drop_out_of_order (t, e))) = t_state t"
    by (simp add: drop_out_of_order_def account_def Let_def)
  have "t_state (fst (on_timeout now (u, e1))) = t_state u" for u e1
    using on_timeout_machinery [of u now e1] by (simp add: machinery_keeps)
  then have "t_state t' = Closed \<or> t_state t' = t_state t"
    using r drop tcp_abort_closes unfolding on_timer_def Let_def
    by (auto split: if_splits prod.splits dest!: arg_cong [where f = "\<lambda>x. t_state (fst x)"])
  then show ?thesis
    by (auto intro: leads_to_same leads_to_closed)
qed

lemma shutdown_write_leads:
  assumes r: "shutdown_write (t, e) = (t', e')"
  shows "leads_to t t'"
proof -
  have "t_state (fst (tcp_output (u, e1))) = t_state u" for u e1
    using tcp_output_machinery [of "(u, e1)"] by (simp add: machinery_keeps)
  then have "t_state t' = t_state t \<or> tcp_edge (t_state t) (t_state t')"
    using r unfolding shutdown_write_def Let_def prod.case
    by (auto split: if_splits dest!: arg_cong [where f = "\<lambda>x. t_state (fst x)"])
  then show ?thesis
    using leads_to_same leads_to_edge by blast
qed

lemma conn_do_leads:
  assumes r: "conn_do op (t, e) = (out, wrote, t', e')"
  shows "leads_to t t'"
proof (cases op)
  case (Arrive seg)
  then show ?thesis using r on_segment_leads by (auto split: prod.splits)
next
  case (Read len peek)
  have "t_state (open_window a u) = t_state u" for a u
    by (simp add: open_window_def Let_def)
  then have "t_state (fst (snd (tcp_read len peek (t, e)))) = t_state t"
    by (simp add: tcp_read_def Let_def)
  then show ?thesis using r Read by (auto intro: leads_to_same split: prod.splits sum.splits)
next
  case (Write buf)
  then show ?thesis
    using r leads_to_rsame [OF tcp_write_rsame] by (auto split: prod.splits sum.splits)
next
  case Shutdown_Write
  then show ?thesis using r shutdown_write_leads by auto
next
  case Abort
  then show ?thesis using r tcp_abort_closes [of t e] by (auto intro: leads_to_closed)
next
  case Abandon
  then show ?thesis
    using r by (auto intro!: leads_to_same simp: tcp_abandon_def drop_out_of_order_def account_def Let_def split: if_splits)
next
  case (Timer now)
  then show ?thesis using r on_timer_leads by (auto split: prod.splits)
qed (use r in \<open>auto intro: leads_to_same\<close>)


lemma handshake_over:
  assumes "conn_do op (t, e) = (out, wrote, t', e')" and "t_state t \<noteq> SynSent"
  shows "t_state t' \<noteq> SynSent"
proof
  have into: "s' \<noteq> SynSent" if "tcp_edge s s'" for s s'
    using that by (cases s) auto
  assume "t_state t' = SynSent"
  moreover have "tcp_edge\<^sup>*\<^sup>* (t_state t) (t_state t')"
    using conn_do_leads [OF assms(1)] by (simp add: leads_to_def)
  ultimately show False
    using assms(2) into by (metis rtranclp.cases)
qed

end
