(* ===== verification/Tcp_Sender.thy ===== *)
theory Tcp_Sender
  imports Tcp_States
begin

text \<open>
  The writer's side of a connection: every byte a segment carries is the byte of the written
  stream its sequence number names.
\<close>

section \<open>Segments on the wire\<close>

lemma parse_options_none: "parse_options bs 20 20 None = None"
  by (subst parse_options.simps) simp

lemma parse_options_mss:
  assumes "bs ! 20 = 2" "bs ! 21 = 4"
  shows "parse_options bs 20 24 None = Some (u16_from_be (bs ! 22) (bs ! 23))"
  by (subst parse_options.simps, subst parse_options.simps) (simp add: assms)

text \<open>The bytes of a segment, with the checksum \<open>c\<close>.\<close>

definition segment_bytes ::
  "endpoint \<Rightarrow> endpoint \<Rightarrow> u32 \<Rightarrow> u32 \<Rightarrow> u8 \<Rightarrow> u16 \<Rightarrow> u16 option \<Rightarrow> u16 \<Rightarrow> bytes \<Rightarrow> bytes" where
  "segment_bytes s d q a f w mss c payload =
     (be16 (ep_port s) @ be16 (ep_port d) @ be32 q @ be32 a @
       [push_bit 4 (word_of_nat ((if mss = None then 20 else 24) div 4)), f] @ be16 w) @ be16 c @
     ([0, 0] @ (case mss of Some m \<Rightarrow> [2, 4] @ be16 m | None \<Rightarrow> []) @ payload)"

lemma segment_build_eq:
  "segment_build s d q a f w mss payload =
     segment_bytes s d q a f w mss
       (net_fold (net_sum (segment_bytes s d q a f w mss 0 payload)
          (pseudo_sum (ep_address s) (ep_address d) PROTO_TCP
             (length (segment_bytes s d q a f w mss 0 payload))))) payload"
  by (cases mss) (simp_all add: segment_build_def segment_bytes_def Let_def TCP_HEADER_LEN_def be16_zero copy_into_def)

lemma segment_bytes_parse:
  "segment_parse (segment_bytes s d q a f w mss c payload) =
     Some \<lparr>sg_source_port = ep_port s, sg_destination_port = ep_port d, sg_sequence = q,
           sg_acknowledgement = a, sg_flags = f, sg_window = w, sg_mss = mss, sg_payload = payload\<rparr>"
  apply (cases mss)
  subgoal
    by (simp add: segment_parse_def segment_bytes_def Let_def TCP_HEADER_LEN_def parse_options_none be16_def be32_def)
  subgoal
    by (simp add: segment_parse_def segment_bytes_def Let_def TCP_HEADER_LEN_def parse_options_mss be16_def be32_def)
  done

section \<open>The invariant\<close>

text \<open>Before the handshake is over there is nothing to send but the connection request.\<close>

definition greeting :: "bytes \<Rightarrow> u32 \<Rightarrow> tcb \<Rightarrow> bool" where
  "greeting W b t \<longleftrightarrow> t_state t \<in> {SynSent, SynReceived} \<and> W = [] \<and> t_send_unacknowledged t = b - 1 \<and>
     t_send_next t = b \<and> t_send_high t = b \<and> t_pending t = [] \<and> \<not> t_fin_queued t \<and> t_fin_sequence t = None"

text \<open>
  While there may be something to send: \<open>a\<close> bytes of what was written have been acknowledged and
  the rest is pending.
\<close>

definition sending :: "bytes \<Rightarrow> u32 \<Rightarrow> tcb \<Rightarrow> bool" where
  "sending W b t \<longleftrightarrow>
     (\<exists>a k h. a \<le> length W \<and> t_pending t = drop a W \<and> length W \<le> a + SEND_BUFFER \<and>
        t_send_unacknowledged t = seq_at b (int a) \<and>
        t_send_next t = seq_at b (int (a + k)) \<and> a + k \<le> length W + of_bool (t_fin_sequence t \<noteq> None) \<and>
        t_send_high t = seq_at b (int (a + h)) \<and> a + h \<le> length W + of_bool (t_fin_queued t) \<and>
        (\<forall>f. t_fin_sequence t = Some f \<longrightarrow> t_fin_queued t \<and> f = seq_at b (int (length W)))) \<and>
     t_state t \<notin> {SynSent, SynReceived}"

text \<open>Nothing is left to send and nothing more will be taken from the writer.\<close>

definition finished :: "tcb \<Rightarrow> bool" where
  "finished t \<longleftrightarrow> t_pending t = [] \<and> t_state t \<notin> {SynSent, SynReceived} \<and>
     (t_fin_queued t \<or> t_state t \<notin> {Established, CloseWait})"

definition snd_ok :: "bytes \<Rightarrow> u32 \<Rightarrow> tcb \<Rightarrow> bool" where
  "snd_ok W b t \<longleftrightarrow> t_iss t = b - 1 \<and> (greeting W b t \<or> sending W b t \<or> finished t)"

text \<open>What a segment that was sent may carry.\<close>

definition payload_ok :: "bytes \<Rightarrow> u32 \<Rightarrow> u32 \<Rightarrow> u8 \<Rightarrow> bytes \<Rightarrow> bool" where
  "payload_ok W b q f payload \<longleftrightarrow>
     (payload \<noteq> [] \<longrightarrow> (\<exists>x. q = seq_at b (int x) \<and> x + length payload \<le> length W \<and>
        payload = take (length payload) (drop x W))) \<and>
     (f AND SYN \<noteq> 0 \<longrightarrow> q = b - 1 \<and> payload = [])"

definition truthful :: "bytes \<Rightarrow> u32 \<Rightarrow> bytes \<Rightarrow> bool" where
  "truthful W b bs \<longleftrightarrow>
     (\<exists>s d q a f w mss c payload. bs = segment_bytes s d q a f w mss c payload \<and> payload_ok W b q f payload)"

definition sent_ok :: "bytes \<Rightarrow> u32 \<Rightarrow> tcp_env \<Rightarrow> bool" where
  "sent_ok W b e \<longleftrightarrow> (\<forall>(s, d, p, bs) \<in> set (te_sent e). truthful W b bs)"

lemma payload_ok_more: "payload_ok W b q f payload \<Longrightarrow> payload_ok (W @ V) b q f payload"
proof -
  assume ok: "payload_ok W b q f payload"
  have "\<exists>x. q = seq_at b (int x) \<and> x + length payload \<le> length (W @ V) \<and>
      payload = take (length payload) (drop x (W @ V))" if "payload \<noteq> []"
  proof -
    obtain x where "q = seq_at b (int x)" "x + length payload \<le> length W" "payload = take (length payload) (drop x W)"
      using ok \<open>payload \<noteq> []\<close> unfolding payload_ok_def by blast
    then show ?thesis by (intro exI [of _ x]) simp
  qed
  then show ?thesis using ok by (simp add: payload_ok_def)
qed

lemma sent_ok_more: "sent_ok W b e \<Longrightarrow> sent_ok (W @ V) b e"
  unfolding sent_ok_def truthful_def using payload_ok_more by fastforce

lemma sent_ok_cong: "te_sent e' = te_sent e \<Longrightarrow> sent_ok W b e' = sent_ok W b e"
  by (simp add: sent_ok_def)

lemma send_segment_ok:
  assumes "sent_ok W b e" and "payload_ok W b q f payload"
  shows "sent_ok W b (send_segment t f q payload m e)"
proof (cases "source_address t e")
  case (Inr address)
  have "truthful W b (segment_build s d q a f w mss payload)" for s d a w mss
    unfolding truthful_def segment_build_eq using assms(2) by blast
  with Inr assms(1) show ?thesis
    by (simp add: send_segment_def sent_ok_def Let_def)
qed (simp add: send_segment_def assms)

lemma payload_ok_empty: "f AND SYN = 0 \<or> q = b - 1 \<Longrightarrow> payload_ok W b q f []"
  by (auto simp: payload_ok_def)

lemma no_syn [simp]:
  "ACK AND SYN = 0" "(FIN OR ACK) AND SYN = 0" "(RST OR ACK) AND SYN = 0" "RST AND SYN = 0"
  "(ACK OR PSH) AND SYN = 0"
  by (simp_all add: ACK_def SYN_def FIN_def RST_def PSH_def)

lemma acknowledge_ok: "sent_ok W b e \<Longrightarrow> sent_ok W b (acknowledge t e)"
  by (simp add: acknowledge_def send_segment_ok payload_ok_empty)

section \<open>What leaves the writer's side alone\<close>

definition psame :: "tcb \<Rightarrow> tcb \<Rightarrow> bool" where
  "psame t t' \<longleftrightarrow> t_iss t' = t_iss t \<and> t_send_unacknowledged t' = t_send_unacknowledged t \<and>
     t_send_next t' = t_send_next t \<and> t_send_high t' = t_send_high t \<and> t_pending t' = t_pending t \<and>
     t_fin_queued t' = t_fin_queued t \<and> t_fin_sequence t' = t_fin_sequence t"

lemma psame_refl [simp]: "psame t t"
  by (simp add: psame_def)

lemma psame_trans [trans]: "psame t u \<Longrightarrow> psame u v \<Longrightarrow> psame t v"
  by (simp add: psame_def)

lemma snd_ok_same: "psame t t' \<Longrightarrow> t_state t' = t_state t \<Longrightarrow> snd_ok W b t \<Longrightarrow> snd_ok W b t'"
  by (simp add: psame_def snd_ok_def greeting_def sending_def finished_def)

lemma late_states:
  assumes "tcp_edge\<^sup>*\<^sup>* s s'" and "s \<notin> {SynSent, SynReceived}"
  shows "s' \<notin> {SynSent, SynReceived} \<and> (s \<notin> {Established, CloseWait} \<longrightarrow> s' \<notin> {Established, CloseWait})"
  using assms
proof (induction rule: rtranclp_induct)
  case (step u v)
  then show ?case by (cases u) auto
qed auto

lemma snd_ok_move:
  assumes "psame t t'" and "leads_to t t'" and "t_state t \<notin> {SynSent, SynReceived}" and "snd_ok W b t"
  shows "snd_ok W b t'"
proof -
  have st: "t_state t' \<notin> {SynSent, SynReceived}"
    "t_state t \<notin> {Established, CloseWait} \<Longrightarrow> t_state t' \<notin> {Established, CloseWait}"
    using late_states assms(2,3) unfolding leads_to_def by blast+
  have "\<not> greeting W b t"
    using assms(3) by (simp add: greeting_def)
  moreover have "sending W b t \<Longrightarrow> sending W b t'"
    using assms(1) st(1) by (simp add: sending_def psame_def)
  moreover have "finished t \<Longrightarrow> finished t'"
    using assms(1) st by (auto simp: finished_def psame_def)
  ultimately show ?thesis
    using assms(1,4) by (auto simp: snd_ok_def psame_def)
qed

lemma snd_ok_cleared:
  assumes "snd_ok W b t" and "t_iss t' = t_iss t" and "t_pending t' = []" and "t_state t' \<in> {Closed, TimeWait}"
  shows "snd_ok W b t'"
  using assms by (auto simp: snd_ok_def finished_def)

lemma psame_step [simp]:
  "psame t (time_segment e q t)" "psame t (arm_retransmit e t)" "psame t (open_window x t)"
  "psame t (measure_rtt us t)" "psame t (update_send_window seg t)" "psame t (arm_reassembly e t)"
  "psame t (take_mss seg t)"
  by (simp_all add: psame_def time_segment_def arm_retransmit_def open_window_def measure_rtt_def
      update_send_window_def arm_reassembly_def take_mss_def Let_def split: option.split)

lemma account_keeps:
  assumes "account (t, e) = (t', e')"
  shows "psame t t'" "te_sent e' = te_sent e"
  using assms by (auto simp: account_def psame_def Let_def)

lemma drop_out_of_order_env: "te_sent (snd (drop_out_of_order (t, e))) = te_sent e"
  by (simp add: drop_out_of_order_def account_def Let_def)

section \<open>Output\<close>

lemma sent_through_keeps:
  "t_send_high (sent_through q t) = t_send_high t \<or> t_send_high (sent_through q t) = q"
  "t_fin_sequence (sent_through q t) = t_fin_sequence t"
  by (auto simp: sent_through_def Let_def)

lemma sendingI:
  assumes "a \<le> length W" "t_pending t = drop a W" "length W \<le> a + SEND_BUFFER"
    "t_send_unacknowledged t = seq_at b (int a)"
    "t_send_next t = seq_at b (int (a + k))" "a + k \<le> length W + of_bool (t_fin_sequence t \<noteq> None)"
    "t_send_high t = seq_at b (int (a + h))" "a + h \<le> length W + of_bool (t_fin_queued t)"
    "\<And>f. t_fin_sequence t = Some f \<Longrightarrow> t_fin_queued t \<and> f = seq_at b (int (length W))"
    "t_state t \<notin> {SynSent, SynReceived}"
  shows "sending W b t"
  using assms unfolding sending_def by blast

text \<open>Sending goes on from \<open>send_next\<close>, either through pending bytes or through the finish.\<close>

lemma sending_advance:
  assumes snd: "a \<le> length W" "t_pending t = drop a W" "length W \<le> a + SEND_BUFFER"
    "t_send_unacknowledged t = seq_at b (int a)" "t_send_high t = seq_at b (int (a + h))"
    "a + h \<le> length W + of_bool (t_fin_queued t)" "t_state t \<notin> {SynSent, SynReceived}"
    and m: "machinery t t'" and next': "t_send_next t' = seq_at b (int (a + k))"
    and high': "t_send_high t' = t_send_high t \<or> t_send_high t' = t_send_next t'"
    and k: "a + k \<le> length W + of_bool (t_fin_sequence t' \<noteq> None)"
    and fin: "\<And>f. t_fin_sequence t' = Some f \<Longrightarrow> t_fin_queued t \<and> f = seq_at b (int (length W))"
  shows "sending W b t'"
proof -
  have "\<exists>h. t_send_high t' = seq_at b (int (a + h)) \<and> a + h \<le> length W + of_bool (t_fin_queued t)"
  proof (cases "t_send_high t' = t_send_high t")
    case True
    with snd show ?thesis by metis
  next
    case False
    then have "t_send_high t' = seq_at b (int (a + k))" using high' next' by simp
    moreover have "a + k \<le> length W + of_bool (t_fin_queued t)"
      using k fin by (cases "t_fin_sequence t'") auto
    ultimately show ?thesis by blast
  qed
  then obtain h' where "t_send_high t' = seq_at b (int (a + h'))" "a + h' \<le> length W + of_bool (t_fin_queued t)"
    by blast
  then show ?thesis
    using snd next' k fin by (intro sendingI [of a W t' b k h']) (simp_all add: machinery_keeps [OF m])
qed

lemma finished_machinery: "machinery t t' \<Longrightarrow> finished t \<Longrightarrow> finished t'"
  by (simp add: finished_def machinery_keeps)

lemma SEND_BUFFER_small: "SEND_BUFFER + 1 < 2 ^ 31"
  by (simp add: SEND_BUFFER_def)

lemma output_round_cases:
  assumes r: "output_round limit t e = (t', e', again)"
  defines "off \<equiv> unat (t_send_next t - t_send_unacknowledged t)"
  obtains (data) n f where "off < length (t_pending t)" "n \<le> length (t_pending t) - off"
      "t_send_next t' = t_send_next t + word_of_nat n" "t_fin_sequence t' = t_fin_sequence t"
      "t_send_high t' = t_send_high t \<or> t_send_high t' = t_send_next t'"
      "f AND SYN = 0" "e' = send_segment t f (t_send_next t) (take n (drop off (t_pending t))) False e"
    | (fin) "length (t_pending t) \<le> off" "t_fin_queued t" "t_fin_sequence t = None"
      "t_send_next t' = t_send_next t + 1" "t_fin_sequence t' = Some (t_send_next t)"
      "t_send_high t' = t_send_high t \<or> t_send_high t' = t_send_next t'"
      "e' = send_segment t (FIN OR ACK) (t_send_next t) [] False e"
    | (stop) "t' = t" "e' = e"
proof -
  define n where "n = min (min (length (t_pending t) - off) (effective_mss t)) (unat (limit - t_send_next t))"
  have keep: "t_fin_sequence (arm_retransmit x u) = t_fin_sequence u" "t_send_high (arm_retransmit x u) = t_send_high u"
    "t_fin_sequence (time_segment x q u) = t_fin_sequence u" "t_send_high (time_segment x q u) = t_send_high u" for x q u
    by (simp_all add: arm_retransmit_def time_segment_def)
  consider "off < length (t_pending t)" "seq_lt (t_send_next t) limit" "n \<noteq> 0"
    | "length (t_pending t) \<le> off" "t_fin_queued t" "t_fin_sequence t = None"
    | "off < length (t_pending t)" "\<not> (seq_lt (t_send_next t) limit \<and> n \<noteq> 0)"
    | "length (t_pending t) \<le> off" "\<not> (t_fin_queued t \<and> t_fin_sequence t = None)"
    by linarith
  then show thesis
  proof cases
    case 1
    define f where "f = ACK OR (if off + n = length (t_pending t) then PSH else 0)"
    define q where "q = t_send_next t + word_of_nat n"
    define e1 where "e1 = send_segment t f (t_send_next t) (take n (drop off (t_pending t))) False e"
    have "f AND SYN = 0" by (simp add: f_def)
    have eq: "output_round limit t e = (arm_retransmit e1 (if seq_lt (t_send_high t) q
        then time_segment e1 q (sent_through q t) else sent_through q t), e1, True)"
      unfolding output_round_def Let_def off_def [symmetric] n_def [symmetric] f_def [symmetric] q_def [symmetric]
        e1_def [symmetric]
      using 1 by simp
    have "t_send_next t' = q" "t_fin_sequence t' = t_fin_sequence t" "t_send_high t' = t_send_high t \<or> t_send_high t' = q"
      "e' = e1"
      using r eq sent_through_keeps [of q t] by (auto simp: keep split: if_splits)
    then show thesis
      using data [of n f] 1 \<open>f AND SYN = 0\<close> by (simp add: q_def e1_def n_def)
  next
    case 2
    let ?e = "send_segment t (FIN OR ACK) (t_send_next t) [] False e"
    let ?u = "sent_through (t_send_next t + 1) (t\<lparr>t_fin_sequence := Some (t_send_next t)\<rparr>)"
    have "output_round limit t e = (arm_retransmit ?e ?u, ?e, False)"
      unfolding output_round_def Let_def off_def [symmetric] using 2 by simp
    then have "t' = arm_retransmit ?e ?u" "e' = ?e" using r by simp_all
    then show thesis
      using fin 2 sent_through_keeps [of "t_send_next t + 1" "t\<lparr>t_fin_sequence := Some (t_send_next t)\<rparr>"]
      by (simp add: keep)
  next
    case 3
    then have "output_round limit t e = (t, e, False)"
      unfolding output_round_def Let_def off_def [symmetric] n_def [symmetric] by auto
    then show thesis using stop r by simp
  next
    case 4
    then have "output_round limit t e = (t, e, False)"
      unfolding output_round_def Let_def off_def [symmetric] by auto
    then show thesis using stop r by simp
  qed
qed

lemma output_round_ok:
  assumes ok: "snd_ok W b t" and e: "sent_ok W b e" and st: "t_state t \<notin> {SynSent, SynReceived}"
    and r: "output_round limit t e = (t', e', again)"
  shows "snd_ok W b t' \<and> sent_ok W b e'"
proof -
  have m: "machinery t t'" by (rule output_round_machinery [OF r])
  have iss: "t_iss t' = b - 1"
    using ok machinery_keeps(4) [OF m] by (simp add: snd_ok_def)
  have fin_sent: "sent_ok W b (send_segment t (FIN OR ACK) q [] x e)" for q x
    by (rule send_segment_ok [OF e payload_ok_empty]) simp
  have "\<not> greeting W b t" using st by (simp add: greeting_def)
  then consider "sending W b t" | "finished t" using ok by (auto simp: snd_ok_def)
  then show ?thesis
  proof cases
    case 1
    then obtain a k h where s: "a \<le> length W" "t_pending t = drop a W" "length W \<le> a + SEND_BUFFER"
      "t_send_unacknowledged t = seq_at b (int a)" "t_send_next t = seq_at b (int (a + k))"
      "a + k \<le> length W + of_bool (t_fin_sequence t \<noteq> None)" "t_send_high t = seq_at b (int (a + h))"
      "a + h \<le> length W + of_bool (t_fin_queued t)"
      "\<And>f. t_fin_sequence t = Some f \<Longrightarrow> t_fin_queued t \<and> f = seq_at b (int (length W))"
      unfolding sending_def by blast
    have off: "unat (t_send_next t - t_send_unacknowledged t) = k"
    proof -
      have "k \<le> SEND_BUFFER + 1" using s(3,6) by (cases "t_fin_sequence t") auto
      then show ?thesis unfolding s(4,5) using SEND_BUFFER_small by (subst seq_dist) auto
    qed
    note adv = sending_advance [OF s(1-4) s(7,8) st m]
    from r show ?thesis
    proof (cases rule: output_round_cases)
      case (data n f)
      have kn: "a + (k + n) \<le> length W" using data(1,2) off s(1,2) by simp
      have "sending W b t'"
        by (rule adv [of "k + n"]) (use data(3-5) s(5,9) kn in \<open>auto simp: add.assoc\<close>)
      moreover have "payload_ok W b (t_send_next t) f (take n (drop k (t_pending t)))"
        unfolding payload_ok_def using data(6) s(2,5) kn
        by (auto intro!: exI [of _ "a + k"] simp: add.commute)
      ultimately show ?thesis
        using iss data(7) off send_segment_ok [OF e] by (simp add: snd_ok_def)
    next
      case fin
      then have k: "a + k = length W" using off s(1,2,6) by simp
      have nx: "t_send_next t' = seq_at b (int (a + (k + 1)))"
        using fin(4) s(5) seq_at_add [of b "int (a + k)" 1] by (simp add: algebra_simps)
      have "sending W b t'"
        by (rule adv [OF nx]) (use fin k s(5) in auto)
      then show ?thesis
        using iss fin(7) fin_sent by (simp add: snd_ok_def)
    next
      case stop
      then show ?thesis using ok e by simp
    qed
  next
    case 2
    have "finished t'" by (rule finished_machinery [OF m 2])
    moreover from r have "sent_ok W b e'"
    proof (cases rule: output_round_cases)
      case (data n f)
      with 2 show ?thesis by (simp add: finished_def)
    qed (use e fin_sent in simp_all)
    ultimately show ?thesis using iss by (simp add: snd_ok_def)
  qed
qed

lemma output_loop_ok:
  assumes "snd_ok W b t" "sent_ok W b e" "t_state t \<notin> {SynSent, SynReceived}"
  shows "snd_ok W b (fst (output_loop limit t e)) \<and> sent_ok W b (snd (output_loop limit t e))"
  using assms
proof (induction limit t e rule: output_loop.induct)
  case (1 limit t e)
  obtain t' e' again where r: "output_round limit t e = (t', e', again)"
    by (metis prod_cases3)
  have "t_state t' = t_state t"
    by (rule machinery_keeps(1) [OF output_round_machinery [OF r]])
  then show ?case
    using 1(1) [OF r [symmetric] refl] output_round_ok [OF 1(2-4) r] 1(4) r
    by (subst (1 2) output_loop.simps) auto
qed

lemma tcp_output_ok:
  assumes ok: "snd_ok W b t" "sent_ok W b e" and r: "tcp_output (t, e) = (t', e')"
  shows "snd_ok W b t' \<and> sent_ok W b e'"
proof (cases "can_output (t_state t)")
  case True
  then have "t_state t \<notin> {SynSent, SynReceived}" by (auto simp: can_output_def)
  then show ?thesis
    using output_loop_ok [OF ok, of "t_send_unacknowledged t + word_of_nat (min (t_send_window t) (t_congestion_window t))"]
      r True by (simp add: tcp_output_def Let_def)
next
  case False
  then show ?thesis using ok r by (simp add: tcp_output_def)
qed

end
