(* ===== verification/Tcp_Acks.thy ===== *)
theory Tcp_Acks
  imports Tcp_Sender
begin

text \<open>
  The writer's side of a connection, continued: retransmission, acknowledgements and every other
  operation keep the invariant of \<open>Tcp_Sender\<close>.
\<close>

section \<open>Sending again\<close>

definition quiet :: "bytes \<Rightarrow> u32 \<Rightarrow> tcb \<Rightarrow> tcb \<times> tcp_env \<Rightarrow> bool" where
  "quiet W b t te \<longleftrightarrow> psame t (fst te) \<and> t_state (fst te) = t_state t \<and> sent_ok W b (snd te)"

lemma quiet_snd_ok: "quiet W b t te \<Longrightarrow> snd_ok W b t \<Longrightarrow> snd_ok W b (fst te)"
  unfolding quiet_def using snd_ok_same by blast

lemma restart_timer_quiet: "sent_ok W b e \<Longrightarrow> quiet W b t (restart_timer (t, e))"
  by (simp add: quiet_def restart_timer_def psame_def)

lemma retransmit_head_quiet:
  assumes ok: "snd_ok W b t" and e: "sent_ok W b e"
  shows "quiet W b t (retransmit_head (t, e))"
proof -
  have fin: "sent_ok W b (send_segment t (FIN OR ACK) q [] x e)" for q x
    by (rule send_segment_ok [OF e payload_ok_empty]) simp
  have data: "sent_ok W b (send_segment t f (t_send_unacknowledged t) (take n (t_pending t)) x e)"
    if "f AND SYN = 0" "n \<le> length (t_pending t)" "n \<noteq> 0" for f n x
  proof (rule send_segment_ok [OF e])
    have "t_pending t \<noteq> []" using that by auto
    then have "sending W b t" using ok by (auto simp: snd_ok_def greeting_def finished_def)
    then obtain a where "t_pending t = drop a W" "t_send_unacknowledged t = seq_at b (int a)" "a \<le> length W"
      unfolding sending_def by blast
    then show "payload_ok W b (t_send_unacknowledged t) f (take n (t_pending t))"
      using that unfolding payload_ok_def by (auto intro!: exI [of _ a])
  qed
  have flags: "(ACK OR (if c then PSH else 0)) AND SYN = 0" for c
    by simp
  let ?n = "min (length (t_pending t)) (effective_mss t)"
  show ?thesis
  proof (cases "?n = 0")
    case True
    have "quiet W b t (restart_timer (t, send_segment t (FIN OR ACK) q [] False e))" for q
      by (rule restart_timer_quiet [OF fin])
    moreover have "quiet W b t (t, e)"
      using e by (simp add: quiet_def)
    ultimately show ?thesis
      using True by (simp add: retransmit_head_def Let_def split: option.split)
  next
    case False
    have "sent_ok W b (send_segment t (ACK OR (if ?n = length (t_pending t) then PSH else 0))
        (t_send_unacknowledged t) (take ?n (t_pending t)) False e)"
      by (rule data [OF flags]) (use False in auto)
    then show ?thesis
      using False restart_timer_quiet unfolding retransmit_head_def Let_def prod.case by (simp only: if_False)
  qed
qed

lemma quiet_trans: "quiet W b t (u, e) \<Longrightarrow> quiet W b u te \<Longrightarrow> quiet W b t te"
  unfolding quiet_def using psame_trans by auto

lemma quiet_start: "psame t u \<Longrightarrow> t_state u = t_state t \<Longrightarrow> sent_ok W b e \<Longrightarrow> quiet W b t (u, e)"
  by (simp add: quiet_def)

lemma retransmit_after:
  assumes "snd_ok W b t" "sent_ok W b e" "psame t u" "t_state u = t_state t"
  shows "quiet W b t (retransmit_head (u, e))"
  using quiet_trans [OF quiet_start [OF assms(3,4,2)]]
    retransmit_head_quiet [OF snd_ok_same [OF assms(3,4,1)] assms(2)] by blast

lemma enter_recovery_quiet:
  assumes "snd_ok W b t" "sent_ok W b e"
  shows "quiet W b t (enter_recovery (t, e))"
proof -
  let ?u = "t\<lparr>t_slow_start_threshold := halved_flight t, t_recover := Some (t_send_high t),
    t_fast_retransmits := t_fast_retransmits t + 1\<rparr>"
  obtain v e' where v: "retransmit_head (?u, e) = (v, e')" by force
  have "quiet W b t (retransmit_head (?u, e))"
    by (rule retransmit_after [OF assms]) (simp_all add: psame_def)
  then show ?thesis
    unfolding enter_recovery_def Let_def prod.case v by (simp add: quiet_def psame_def)
qed

lemma grow_window_quiet:
  assumes "snd_ok W b t" "sent_ok W b e"
  shows "quiet W b t (grow_window a n (t, e))"
proof -
  have "quiet W b t (retransmit_head (t\<lparr>t_congestion_window := c, t_fast_retransmits := f\<rparr>, e))" for c f
    by (rule retransmit_after [OF assms]) (simp_all add: psame_def)
  then show ?thesis
    using assms(2) by (auto simp: grow_window_def Let_def quiet_def psame_def split: option.split)
qed

lemma on_duplicate_ack_quiet:
  assumes "snd_ok W b t" "sent_ok W b e"
  shows "quiet W b t (on_duplicate_ack (t, e))"
proof -
  let ?u = "t\<lparr>t_duplicate_acks := t_duplicate_acks t + 1\<rparr>"
  have u: "psame t ?u" "t_state ?u = t_state t" by (simp_all add: psame_def)
  have "quiet W b t (enter_recovery (?u, e))"
    using quiet_trans [OF quiet_start [OF u assms(2)]] enter_recovery_quiet [OF snd_ok_same [OF u assms(1)] assms(2)]
    by blast
  then show ?thesis
    using assms(2) unfolding on_duplicate_ack_def Let_def prod.case by (auto simp: quiet_def psame_def)
qed

section \<open>A new acknowledgement\<close>

definition answered :: "bytes \<Rightarrow> u32 \<Rightarrow> tcb \<Rightarrow> bool" where
  "answered W b t \<longleftrightarrow> W = [] \<and> t_send_unacknowledged t = b - 1 \<and> t_send_next t = b \<and> t_send_high t = b \<and>
     t_pending t = [] \<and> \<not> t_fin_queued t \<and> t_fin_sequence t = None"

definition pulled :: "tcb \<Rightarrow> tcb" where
  "pulled t = (if seq_lt (t_send_next t) (t_send_unacknowledged t)
     then t\<lparr>t_send_next := t_send_unacknowledged t\<rparr> else t)"

lemma pulled_psame:
  assumes "psame t u" "t_state u = t_state t"
  shows "psame (pulled t) (pulled u)" "t_state (pulled u) = t_state (pulled t)"
  using assms by (simp_all add: psame_def pulled_def)

lemma sample_round_trip_psame: "psame t (sample_round_trip q e t)"
proof -
  have "psame t (t\<lparr>t_timed := None\<rparr>)" by (simp add: psame_def)
  then have "psame t (measure_rtt us (t\<lparr>t_timed := None\<rparr>))" for us
    by (rule psame_trans) simp
  then show ?thesis
    by (simp add: sample_round_trip_def Let_def split: option.split)
qed

lemma psame_timers: "psame t (t\<lparr>t_retries := x, t_duplicate_acks := y, t_retransmit_at := z\<rparr>)"
  by (simp add: psame_def)

text \<open>An acknowledgement of something new lies between what was acknowledged and what was sent.\<close>

lemma new_ack_position:
  assumes gt: "seq_gt q (seq_at b x)" and le: "seq_le q (seq_at b (x + int h))" and h: "h < 2 ^ 30"
  obtains d where "q = seq_at b (x + int d)" "1 \<le> d" "d \<le> h"
proof -
  define d where "d = sint (q - seq_at b x)"
  have d: "0 < d" "d < 2 ^ 31"
    using gt sint_lt [of "q - seq_at b x"] by (simp_all add: seq_gt_def d_def)
  have "q - seq_at b x = word_of_int d"
    by (simp add: d_def)
  then have q: "q = seq_at b (x + d)"
    by (simp add: seq_at_def algebra_simps)
  have "x + d \<le> x + int h"
    using le d h unfolding q by (subst (asm) seq_cmp) auto
  then show thesis
    using that [of "nat d"] d q by simp
qed

lemma acked_by_pulled:
  assumes "iss": "t_iss t = b - 1" and st: "t_state t \<notin> {SynSent, SynReceived}"
    and t: "answered W b t \<or> snd_ok W b t"
    and gt: "seq_gt q (t_send_unacknowledged t)" and le: "seq_le q (t_send_high t)"
  shows "snd_ok W b (pulled (acked_by q t))"
proof -
  let ?u = "pulled (acked_by q t)"
  have base: "t_iss ?u = b - 1" "t_state ?u \<notin> {SynSent, SynReceived}" "t_fin_queued ?u = t_fin_queued t"
    "t_fin_sequence ?u = t_fin_sequence t" "t_send_high ?u = t_send_high t" "t_state ?u = t_state t"
    "t_send_unacknowledged ?u = q" "t_pending ?u = t_pending (acked_by q t)"
    using "iss" st by (auto simp: pulled_def acked_by_def Let_def)
  have empty: "t_pending ?u = []" if "t_pending t = []"
    unfolding base(8) using that by (simp add: acked_by_def Let_def)
  have "\<not> greeting W b t" using st by (simp add: greeting_def)
  then consider "answered W b t" | "finished t" | "sending W b t"
    using t by (auto simp: snd_ok_def)
  then show ?thesis
  proof cases
    case 1
    then have "t_send_unacknowledged t = seq_at b (- 1)" "t_send_high t = seq_at b (- 1 + int 1)"
      by (simp_all add: answered_def seq_at_def)
    then obtain d where "q = seq_at b (- 1 + int d)" "1 \<le> d" "d \<le> 1"
      using new_ack_position [of q b "- 1" 1] gt le by auto
    then have "d = 1" "q = b" by simp_all
    moreover have "t_send_next ?u = b"
      using 1 \<open>q = b\<close> by (simp add: pulled_def acked_by_def answered_def Let_def)
    ultimately have "sending W b ?u"
      using 1 base empty by (intro sendingI [of 0 W ?u b 0 0]) (auto simp: answered_def)
    then show ?thesis using base by (simp add: snd_ok_def)
  next
    case 2
    then show ?thesis using base empty by (auto simp: snd_ok_def finished_def)
  next
    case 3
    then obtain a k h where s: "a \<le> length W" "t_pending t = drop a W" "length W \<le> a + SEND_BUFFER"
      "t_send_unacknowledged t = seq_at b (int a)" "t_send_next t = seq_at b (int (a + k))"
      "a + k \<le> length W + of_bool (t_fin_sequence t \<noteq> None)" "t_send_high t = seq_at b (int (a + h))"
      "a + h \<le> length W + of_bool (t_fin_queued t)"
      "\<And>f. t_fin_sequence t = Some f \<Longrightarrow> t_fin_queued t \<and> f = seq_at b (int (length W))"
      unfolding sending_def by blast
    have small: "h \<le> SEND_BUFFER + 1" "k \<le> SEND_BUFFER + 1"
      using s(3,6,8) by (cases "t_fin_queued t"; cases "t_fin_sequence t"; auto)+
    obtain d where d: "q = seq_at b (int a + int d)" "1 \<le> d" "d \<le> h"
      using new_ack_position [of q b "int a" h] gt le small(1) s(4,7) by (auto simp: SEND_BUFFER_def)
    have acked: "unat (q - t_send_unacknowledged t) = d"
      unfolding d(1) s(4) using d(3) small(1) by (subst seq_dist) (auto simp: SEND_BUFFER_def)
    show ?thesis
    proof (cases "a + d \<le> length W")
      case True
      have "\<not> fin_covered q t"
      proof
        assume "fin_covered q t"
        then obtain f where "t_fin_sequence t = Some f" "seq_lt f q"
          by (auto simp: fin_covered_def split: option.splits)
        then have "int (length W) < int a + int d"
          using s(3,9) True d(1) by (subst (asm) d(1)) (auto simp: seq_cmp SEND_BUFFER_def)
        with True show False by simp
      qed
      then have pend: "t_pending ?u = drop (a + d) W"
        unfolding base(8) using True acked s(2) by (simp add: acked_by_def Let_def add.commute)
      have lt: "seq_lt (t_send_next t) q \<longleftrightarrow> k < d"
        unfolding d(1) s(5) using small d(3) by (subst seq_cmp) (auto simp: SEND_BUFFER_def)
      have nx: "t_send_next ?u = seq_at b (int ((a + d) + (if k < d then 0 else k - d)))"
        using lt d(1) s(5) by (auto simp: pulled_def acked_by_def Let_def)
      have kk: "a + d + (if k < d then 0 else k - d) \<le> length W + of_bool (t_fin_sequence t \<noteq> None)"
        using s(6) True by auto
      have "sending W b ?u"
        using sendingI [of "a + d" W ?u b "if k < d then 0 else k - d" "h - d"] True pend s(3,7,8,9) nx kk base d st
        by simp
      then show ?thesis using base by (simp add: snd_ok_def)
    next
      case False
      then have fq: "t_fin_queued t" and dd: "d = length W - a + 1"
        using d(3) s(1,8) by (cases "t_fin_queued t"; simp)+
      have "t_pending ?u = []"
        unfolding base(8) using acked dd s(2) by (simp add: acked_by_def Let_def)
      then show ?thesis
        using base fq by (simp add: snd_ok_def finished_def)
    qed
  qed
qed

lemma on_new_ack_ok:
  assumes "iss": "t_iss t = b - 1" and st: "t_state t \<notin> {SynSent, SynReceived}"
    and t: "answered W b t \<or> snd_ok W b t" and e: "sent_ok W b e"
    and q: "seq_gt q (t_send_unacknowledged t)" "seq_le q (t_send_high t)"
    and r: "on_new_ack q (t, e) = (t', e')"
  shows "snd_ok W b t' \<and> sent_ok W b e'"
proof -
  let ?a = "acked_by q t"
  let ?s = "sample_round_trip q e ?a"
  let ?w = "(pulled ?s)\<lparr>t_retries := 0, t_duplicate_acks := 0,
    t_retransmit_at := (if t_send_unacknowledged (pulled ?s) = t_send_next (pulled ?s) then 0
      else te_ticks e + t_rto (pulled ?s))\<rparr>"
  have s: "psame ?a ?s" "t_state ?s = t_state ?a"
    by (rule sample_round_trip_psame) (rule machinery_keeps(1) [OF sample_round_trip_machinery])
  have w: "psame (pulled ?a) ?w" "t_state ?w = t_state (pulled ?a)"
    using psame_trans [OF pulled_psame(1) [OF s] psame_timers] pulled_psame(2) [OF s] by simp_all
  have "snd_ok W b ?w"
    by (rule snd_ok_same [OF w acked_by_pulled [OF "iss" st t q]])
  moreover have "\<exists>n. on_new_ack q (t, e) = grow_window q n (?w, e)"
    unfolding on_new_ack_def Let_def prod.case acked_by_def [unfolded Let_def, symmetric] pulled_def [symmetric]
    by (rule exI) (rule refl)
  ultimately show ?thesis
    using grow_window_quiet [OF _ e] quiet_snd_ok r unfolding quiet_def by (metis fst_conv snd_conv)
qed

section \<open>The reader's part of a segment\<close>

definition aside :: "tcb \<times> tcp_env \<Rightarrow> tcb \<times> tcp_env \<Rightarrow> bool" where
  "aside te te' \<longleftrightarrow> psame (fst te) (fst te') \<and> te_sent (snd te') = te_sent (snd te)"

lemma aside_trans: "aside te ue \<Longrightarrow> aside ue ve \<Longrightarrow> aside te ve"
  unfolding aside_def using psame_trans by auto

lemma account_aside: "aside te (account te)"
  by (cases te) (simp add: aside_def account_def psame_def Let_def)

lemma hold_run_aside: "aside (t, e) (hold_run q pl (t, e))"
proof -
  have held: "aside (t, e) (arm_reassembly e1 u, e1)" if "account (v, e) = (u, e1)" "psame t v" for u v e1
    using account_keeps [OF that(1)] that(2) psame_trans unfolding aside_def by (auto simp: psame_def arm_reassembly_def)
  have one: "psame t (coalesce (t\<lparr>t_out_of_order := x\<rparr>))"
    and two: "psame t ((coalesce (t\<lparr>t_out_of_order := x\<rparr>))\<lparr>t_out_of_order := y\<rparr>)" for x y
    by (simp_all add: psame_def coalesce_def Let_def)
  have none: "aside (t, e) (t, e)" by (simp add: aside_def)
  show ?thesis
    unfolding hold_run_def Let_def prod.case
    using none by (auto split: prod.split intro: held [OF _ one] held [OF _ two])
qed

lemma deliver_held_aside: "aside (t, e) (deliver_held (t, e))"
proof -
  obtain runs nx recv where d: "deliver_runs (t_out_of_order t) (t_receive_next t) (t_received t) = (runs, nx, recv)"
    by (metis prod_cases3)
  let ?u = "t\<lparr>t_out_of_order := runs, t_receive_next := nx, t_received := recv\<rparr>"
  obtain v e1 where v: "account (?u, e) = (v, e1)" by force
  have "psame t ?u" by (simp add: psame_def)
  also have "psame ?u v" by (rule account_keeps(1) [OF v])
  finally have "psame t v" .
  then show ?thesis
    using account_keeps(2) [OF v]
    by (auto simp: deliver_held_def d v aside_def psame_def arm_reassembly_def)
qed

lemma on_data_aside:
  assumes d: "on_data payload q (t, e) = (w, t', e')"
  shows "aside (t, e) (t', e')"
proof (cases "payload \<noteq> [] \<and> can_receive t")
  case False
  then show ?thesis
    using d by (auto simp: on_data_def aside_def psame_def split: if_splits)
next
  case True
  show ?thesis
  proof (cases "q = t_receive_next t")
    case False
    then have "hold_run q payload (t, e) = (t', e')"
      using True d by (simp add: on_data_def)
    then show ?thesis using hold_run_aside [of t e q payload] by simp
  next
    case in_order: True
    define n where "n = min (length payload) (RECEIVE_WINDOW - length (t_received t))"
    define x y where "x = t_received t @ take n payload" and "y = t_receive_next t + word_of_nat n"
    have "on_data payload q (t, e) = (True, deliver_held (t\<lparr>t_received := x, t_receive_next := y\<rparr>, e))"
      unfolding on_data_def Let_def prod.case n_def [symmetric] x_def [symmetric] y_def [symmetric]
      using True in_order by simp
    then have "deliver_held (t\<lparr>t_received := x, t_receive_next := y\<rparr>, e) = (t', e')"
      using d by simp
    moreover have "aside (t, e) (t\<lparr>t_received := x, t_receive_next := y\<rparr>, e)"
      by (simp add: aside_def psame_def)
    ultimately show ?thesis
      using aside_trans [OF _ deliver_held_aside [of "t\<lparr>t_received := x, t_receive_next := y\<rparr>" e]] by simp
  qed
qed

lemma on_finish_aside:
  assumes "on_finish f (t, e) = (t', e')"
  shows "aside (t, e) (t', e')"
  using assms by (auto simp: on_finish_def aside_def psame_def arm_reassembly_def Let_def split: if_splits)

lemma enter_time_wait_cleared:
  assumes "enter_time_wait (t, e) = (t', e')"
  shows "t_iss t' = t_iss t" "t_pending t' = []" "t_state t' = TimeWait" "te_sent e' = te_sent e"
proof -
  obtain u e1 where u: "drop_out_of_order (t\<lparr>t_state := TimeWait\<rparr>, e) = (u, e1)" by force
  have "t_iss u = t_iss t" "t_state u = TimeWait"
    using drop_out_of_order_keeps [OF u] by simp_all
  moreover have "te_sent e1 = te_sent e"
    using drop_out_of_order_env [of "t\<lparr>t_state := TimeWait\<rparr>" e] u by simp
  ultimately show "t_iss t' = t_iss t" "t_pending t' = []" "t_state t' = TimeWait" "te_sent e' = te_sent e"
    using assms by (auto simp: enter_time_wait_def u Let_def split: if_splits)
qed

definition sender_ok :: "bytes \<Rightarrow> u32 \<Rightarrow> tcb \<times> tcp_env \<Rightarrow> bool" where
  "sender_ok W b te \<longleftrightarrow> snd_ok W b (fst te) \<and> sent_ok W b (snd te)"

abbreviation past_greeting :: "tcb \<Rightarrow> bool" where
  "past_greeting t \<equiv> t_state t \<notin> {SynSent, SynReceived}"

lemma past_greeting_leads: "past_greeting t \<Longrightarrow> leads_to t t' \<Longrightarrow> past_greeting t'"
  using late_states unfolding leads_to_def by blast

lemma sender_ok_aside:
  assumes "sender_ok W b te" "aside te te'" "past_greeting (fst te)" "leads_to (fst te) (fst te')"
  shows "sender_ok W b te'"
  using assms snd_ok_move [of "fst te" "fst te'"] sent_ok_cong [of "snd te'" "snd te"]
  by (simp add: sender_ok_def aside_def)

lemma sender_ok_cleared:
  assumes "sender_ok W b te" "t_iss (fst te') = t_iss (fst te)" "t_pending (fst te') = []"
    "t_state (fst te') \<in> {Closed, TimeWait}" "te_sent (snd te') = te_sent (snd te)"
  shows "sender_ok W b te'"
  using assms snd_ok_cleared [of W b "fst te" "fst te'"] sent_ok_cong [of "snd te'" "snd te"]
  by (simp add: sender_ok_def)

lemma take_fin_sender:
  assumes ok: "sender_ok W b (t, e)" and st: "past_greeting t" and f: "take_fin (t, e) = (w, t', e')"
  shows "sender_ok W b (t', e')"
proof -
  define u where "u = (let t = t\<lparr>t_held_fin := None\<rparr>;
    t = (if t_out_of_order t = [] then t\<lparr>t_reassembly_expire_at := 0\<rparr> else t)
    in t\<lparr>t_fin_received := True, t_receive_next := t_receive_next t + 1\<rparr>)"
  have u: "psame t u" "t_state u = t_state t"
    by (auto simp: u_def psame_def Let_def)
  show ?thesis
  proof (cases "\<not> t_fin_received t \<and> t_state t = FinWait2")
    case True
    then have tw: "enter_time_wait (u, e) = (t', e')"
      using f u(2) by (auto simp: take_fin_def u_def Let_def)
    show ?thesis
      by (rule sender_ok_cleared [OF ok])
        (use enter_time_wait_cleared [OF tw] u(1) in \<open>simp_all add: psame_def\<close>)
  next
    case False
    then have "aside (t, e) (t', e')"
      using f by (auto simp: take_fin_def aside_def psame_def Let_def split: if_splits)
    then show ?thesis
      using sender_ok_aside [OF ok] st take_fin_leads [OF f] by simp
  qed
qed

lemma on_fin_acknowledged_sender:
  assumes ok: "sender_ok W b (t, e)" and st: "past_greeting t" and f: "on_fin_acknowledged (t, e) = (w, t', e')"
  shows "sender_ok W b (t', e')"
proof (cases "t_fin_acknowledged t \<and> t_state t = Closing")
  case True
  then have tw: "enter_time_wait (t, e) = (t', e')"
    using f by (simp add: on_fin_acknowledged_def)
  show ?thesis
    by (rule sender_ok_cleared [OF ok]) (use enter_time_wait_cleared [OF tw] in simp_all)
next
  case False
  then have "aside (t, e) (t', e')"
    using f by (auto simp: on_fin_acknowledged_def enter_fin_wait_2_def aside_def psame_def Let_def split: if_splits)
  then show ?thesis
    using sender_ok_aside [OF ok] st on_fin_acknowledged_leads [OF f] by simp
qed

lemma tcp_output_sender:
  assumes "sender_ok W b (t, e)"
  shows "sender_ok W b (tcp_output (t, e))"
  using assms tcp_output_ok [of W b t e] by (metis fst_conv prod.collapse sender_ok_def snd_conv)

lemma acknowledge_sender:
  assumes "sender_ok W b (t, e)"
  shows "sender_ok W b (t, acknowledge t e)"
  using assms by (simp add: sender_ok_def acknowledge_ok)

lemma on_payload_sender:
  assumes ok: "sender_ok W b (t, e)" and st: "past_greeting t"
    and p: "on_payload seg wanted (t, e) = (w, t', e')"
  shows "sender_ok W b (t', e')"
proof -
  obtain payload q where fp: "fresh_payload seg t = (payload, q)" by force
  obtain w1 t1 e1 where d: "on_data payload q (t, e) = (w1, t1, e1)" by (metis prod_cases3)
  obtain t2 e2 where fin: "(if sg_flags seg AND FIN \<noteq> 0
      then on_finish (q + word_of_nat (length payload)) (t1, e1) else (t1, e1)) = (t2, e2)" by force
  obtain w3 t3 e3 where tf: "(if t_held_fin t2 = Some (t_receive_next t2) then take_fin (t2, e2)
      else (False, t2, e2)) = (w3, t3, e3)" by (metis prod_cases3)
  have t1: "sender_ok W b (t1, e1)" "past_greeting t1"
    using sender_ok_aside [OF ok on_data_aside [OF d]] st on_data_state [OF d] by (simp_all add: leads_to_same)
  have t2: "sender_ok W b (t2, e2)" "past_greeting t2"
  proof -
    have "aside (t1, e1) (t2, e2)" "t_state t2 = t_state t1"
      using fin on_finish_aside on_finish_rsame by (auto split: if_splits simp: aside_def rsame_def)
    then show "sender_ok W b (t2, e2)" "past_greeting t2"
      using sender_ok_aside [OF t1(1)] t1(2) by (simp_all add: leads_to_same)
  qed
  have t3: "sender_ok W b (t3, e3)"
    using tf t2 take_fin_sender [OF t2] by (auto split: if_splits)
  let ?u = "open_window (t_receive_next t3 \<noteq> wanted) t3"
  have "snd_ok W b ?u"
    by (rule snd_ok_same [of t3])
      (use t3 open_window_rsame [of t3] in \<open>simp_all add: sender_ok_def rsame_def\<close>)
  then have u: "sender_ok W b (?u, acknowledge ?u e3)"
    using t3 by (simp add: sender_ok_def acknowledge_ok)
  have "(t', e') = tcp_output (t3, e3) \<or> (t', e') = tcp_output (?u, acknowledge ?u e3)"
    using p unfolding on_payload_def Let_def prod.case fp d fin tf by (auto split: if_splits)
  then show ?thesis
    using tcp_output_sender [OF t3] tcp_output_sender [OF u] by auto
qed

section \<open>A whole segment\<close>

lemma on_established_sender:
  assumes "iss": "t_iss t = b - 1" and st: "past_greeting t" and e: "sent_ok W b e"
    and t: "snd_ok W b t \<or> answered W b t \<and> seq_gt (sg_acknowledgement seg) (t_send_unacknowledged t) \<and>
      seq_le (sg_acknowledgement seg) (t_send_high t)"
    and p: "on_established seg dup woke (t, e) = (w, t', e')"
  shows "sender_ok W b (t', e')"
proof -
  let ?a = "sg_acknowledgement seg"
  let ?fresh = "seq_gt ?a (t_send_unacknowledged t) \<and> seq_le ?a (t_send_high t)"
  obtain t1 e1 where a1: "(if ?fresh then on_new_ack ?a (t, e) else (t, e)) = (t1, e1)" by force
  obtain t2 e2 where a2: "(if dup then on_duplicate_ack (t1, e1) else (t1, e1)) = (t2, e2)" by force
  let ?t3 = "update_send_window seg t2"
  obtain w4 t4 e4 where a4: "on_fin_acknowledged (?t3, e2) = (w4, t4, e4)" by (metis prod_cases3)
  obtain w5 t5 e5 where a5: "on_payload seg (t_receive_next t) (t4, e4) = (w5, t5, e5)" by (metis prod_cases3)
  have t1: "snd_ok W b t1" "sent_ok W b e1" "t_state t1 = t_state t"
  proof -
    have "snd_ok W b t1 \<and> sent_ok W b e1"
    proof (cases ?fresh)
      case True
      then show ?thesis
        using on_new_ack_ok [OF "iss" st _ e] t a1 by auto
    next
      case False
      then show ?thesis using t e a1 by auto
    qed
    then show "snd_ok W b t1" "sent_ok W b e1" by simp_all
    show "t_state t1 = t_state t"
      using a1 on_new_ack_rsame [of "(t, e)" ?a] by (auto split: if_splits simp: rsame_def)
  qed
  have "quiet W b t1 (t2, e2)"
  proof (cases dup)
    case True
    then show ?thesis using on_duplicate_ack_quiet [OF t1(1,2)] a2 by simp
  next
    case False
    then show ?thesis using a2 t1(2) by (auto simp: quiet_def)
  qed
  then have t2: "snd_ok W b t2" "sent_ok W b e2" "t_state t2 = t_state t"
    using quiet_snd_ok [OF _ t1(1)] t1(3) by (auto simp: quiet_def)
  have t3: "sender_ok W b (?t3, e2)" "t_state ?t3 = t_state t"
    using snd_ok_same [of t2 ?t3] t2 update_send_window_rsame [of t2 seg] by (simp_all add: sender_ok_def rsame_def)
  have st3: "past_greeting ?t3"
    using t3(2) st by simp
  have t4: "sender_ok W b (t4, e4)" "past_greeting t4"
    using on_fin_acknowledged_sender [OF t3(1) st3 a4] past_greeting_leads [OF st3 on_fin_acknowledged_leads [OF a4]] by simp_all
  have "t' = t5" "e' = e5"
    using p unfolding on_established_def Let_def prod.case a1 a2 a4 a5 by simp_all
  then show ?thesis
    using on_payload_sender [OF t4 a5] by simp
qed

lemma send_syn_ack_sender:
  assumes "sender_ok W b (t, e)" "psame t u" "t_state u = t_state t"
  shows "sender_ok W b (send_syn_ack (u, e))"
proof -
  have u: "snd_ok W b u" "sent_ok W b e"
    using assms snd_ok_same by (auto simp: sender_ok_def)
  then have "t_iss u = b - 1" by (simp add: snd_ok_def)
  then have "sent_ok W b (send_segment u (SYN OR ACK) (t_iss u) [] True e)"
    by (intro send_segment_ok [OF u(2)] payload_ok_empty) simp
  moreover have "snd_ok W b (arm_retransmit x u)" for x
    by (rule snd_ok_same [OF _ _ u(1)]) (simp_all add: arm_retransmit_def psame_def)
  ultimately show ?thesis
    by (simp add: send_syn_ack_def sender_ok_def Let_def)
qed

lemma on_reset_sender:
  assumes ok: "sender_ok W b (t, e)" and r: "on_reset seg (t, e) = (w, t', e')"
  shows "sender_ok W b (t', e')"
proof (cases "sg_sequence seg = t_receive_next t")
  case False
  then show ?thesis
    using r acknowledge_sender [OF ok] by (auto simp: on_reset_def)
next
  case True
  obtain u e1 where u: "drop_out_of_order (t\<lparr>t_state := Closed, t_retransmit_at := 0, t_pending := []\<rparr>, e) = (u, e1)"
    by force
  have "t' = (if t_error u = None then u\<lparr>t_error := Some ECONNRESET\<rparr> else u)" "e' = e1"
    using r True u by (simp_all add: on_reset_def)
  then show ?thesis
    using drop_out_of_order_keeps [OF u] drop_out_of_order_env [of "t\<lparr>t_state := Closed, t_retransmit_at := 0, t_pending := []\<rparr>" e] u
    by (intro sender_ok_cleared [OF ok]) simp_all
qed

lemma next_only:
  assumes "seq_lt x q" and "seq_le q (x + 1)"
  shows "q = x + 1"
proof -
  define d where "d = sint (q - x)"
  have range: "- (2 ^ 31) \<le> d" "d < 2 ^ 31"
    using sint_lt [of "q - x"] sint_ge [of "q - x"] by (simp_all add: d_def)
  have q: "q = seq_at x d" and x: "x = seq_at x 0" "x + 1 = seq_at x 1"
    by (simp_all add: seq_at_def d_def)
  have "d \<noteq> - (2 ^ 31)"
  proof
    assume "d = - (2 ^ 31)"
    then have eq: "q - (x + 1) = word_of_int (2 ^ 31 - 1)"
      unfolding q by (simp add: seq_at_def)
    have "sint (q - (x + 1)) = 2 ^ 31 - 1"
      unfolding eq by (rule sint_small) simp_all
    then show False
      using assms(2) unfolding seq_le_def by simp
  qed
  then have "0 < d"
    using assms(1) range unfolding q by (subst (asm) x(1), subst (asm) seq_cmp) auto
  moreover have "d \<le> 1"
    using assms(2) range \<open>0 < d\<close> unfolding q x(2) by (subst (asm) seq_cmp) auto
  ultimately have "d = 1" by simp
  then show ?thesis using q x(2) by simp
qed

lemma on_syn_sent_sender:
  assumes ok: "sender_ok W b (t, e)" and st: "t_state t = SynSent" and s: "on_syn_sent seg (t, e) = (w, t', e')"
  shows "sender_ok W b (t', e')"
proof -
  have g: "greeting W b t" and "iss": "t_iss t = b - 1" and e: "sent_ok W b e"
    using ok st by (auto simp: sender_ok_def snd_ok_def sending_def finished_def)
  let ?a = "sg_acknowledgement seg"
  define u where "u = (take_mss seg (t\<lparr>t_irs := sg_sequence seg, t_receive_next := sg_sequence seg + 1,
    t_receive_high := sg_sequence seg + 1 + word_of_nat RECEIVE_WINDOW\<rparr>))
    \<lparr>t_send_window := unat (sg_window seg), t_window_sequence := sg_sequence seg\<rparr>"
  have u: "psame t u" "t_state u = t_state t"
    by (simp_all add: u_def take_mss_def psame_def split: option.split)
  consider (bad_ack) "t' = t" "e' = e \<or> e' = send_segment t RST ?a [] False e"
    | (reset) "t' = t\<lparr>t_state := Closed, t_retransmit_at := 0, t_error := Some ECONNREFUSED\<rparr>" "e' = e"
    | (est) v where "seq_lt (t_iss t) ?a" "seq_le ?a (t_send_next t)"
        "v = u\<lparr>t_send_unacknowledged := ?a, t_window_ack := ?a, t_state := Established,
           t_retransmit_at := 0, t_retries := 0\<rparr>" "tcp_output (v, acknowledge v e) = (t', e')"
    | (both) "send_syn_ack (u\<lparr>t_state := SynReceived\<rparr>, e) = (t', e')"
    using s unfolding on_syn_sent_def Let_def prod.case u_def [symmetric]
    by (auto split: if_splits)
  then show ?thesis
  proof cases
    case bad_ack
    then show ?thesis
      using ok e send_segment_ok [OF e payload_ok_empty [of RST]] by (auto simp: sender_ok_def)
  next
    case reset
    then show ?thesis
      using g by (intro sender_ok_cleared [OF ok]) (simp_all add: greeting_def)
  next
    case (est v)
    have "?a = b"
      using next_only [of "b - 1" ?a] est(1,2) g "iss" by (simp add: greeting_def)
    then have "sending W b v"
      using g u est(3) by (intro sendingI [of 0 W v b 0 0]) (auto simp: greeting_def psame_def)
    then have "snd_ok W b v"
      using u "iss" est(3) by (simp add: snd_ok_def psame_def)
    then show ?thesis
      using tcp_output_sender [of W b v "acknowledge v e"] est(4) e by (simp add: sender_ok_def acknowledge_ok)
  next
    case both
    have "greeting W b (u\<lparr>t_state := SynReceived\<rparr>)"
      using g u by (simp add: greeting_def psame_def)
    then have "sender_ok W b (u\<lparr>t_state := SynReceived\<rparr>, e)"
      using u "iss" e by (simp add: sender_ok_def snd_ok_def psame_def)
    then show ?thesis
      using send_syn_ack_sender [of W b "u\<lparr>t_state := SynReceived\<rparr>" e "u\<lparr>t_state := SynReceived\<rparr>"] both by simp
  qed
qed

end
