(* ===== verification/Tcp_Writer.thy ===== *)
theory Tcp_Writer
  imports Tcp_Acks
begin

text \<open>
  The writer's side of a connection, concluded: everything that can happen to a connection keeps
  the invariant of \<open>Tcp_Sender\<close>.
\<close>

section \<open>Every operation\<close>

lemma sender_ok_same:
  "sender_ok W b (t, e) \<Longrightarrow> psame t u \<Longrightarrow> t_state u = t_state t \<Longrightarrow> te_sent e' = te_sent e \<Longrightarrow> sender_ok W b (u, e')"
  unfolding sender_ok_def fst_conv snd_conv using snd_ok_same sent_ok_cong by blast

lemma on_segment_sender:
  assumes ok: "sender_ok W b (t, e)" and s: "on_segment seg (t, e) = (w, t', e')"
  shows "sender_ok W b (t', e')"
proof -
  have "iss": "t_iss t = b - 1" and e: "sent_ok W b e" and snd: "snd_ok W b t"
    using ok by (simp_all add: sender_ok_def snd_ok_def)
  let ?a = "sg_acknowledgement seg"
  let ?u = "t\<lparr>t_state := Established, t_retransmit_at := 0, t_retries := 0\<rparr>"
  consider "t_state t = SynSent" "on_syn_sent seg (t, e) = (w, t', e')"
    | "(t', e') = (t, e) \<or> (t', e') = (t, acknowledge t e) \<or> (t', e') = (t, send_segment t RST ?a [] False e)"
    | "(t', e') = send_syn_ack (t\<lparr>t_timed := None\<rparr>, e)"
    | "on_reset seg (t, e) = (w, t', e')"
    | "t_state t = SynReceived" "seq_lt (t_send_unacknowledged t) ?a" "seq_le ?a (t_send_high t)"
      "on_established seg (is_duplicate_ack seg t) True (?u, e) = (w, t', e')"
    | "past_greeting t" "on_established seg (is_duplicate_ack seg t) False (t, e) = (w, t', e')"
    using s unfolding on_segment_def on_unacceptable_def Let_def prod.case
    by (auto split: if_splits)
  then show ?thesis
  proof cases
    case 1
    then show ?thesis using on_syn_sent_sender [OF ok] by simp
  next
    case 2
    then show ?thesis
      using ok acknowledge_sender [OF ok] send_segment_ok [OF e payload_ok_empty [of RST]]
      by (auto simp: sender_ok_def)
  next
    case 3
    then show ?thesis
      using send_syn_ack_sender [OF ok, of "t\<lparr>t_timed := None\<rparr>"] by (simp add: psame_def)
  next
    case 4
    then show ?thesis using on_reset_sender [OF ok] by simp
  next
    case 5
    then have g: "greeting W b t"
      using snd by (auto simp: snd_ok_def sending_def finished_def)
    then have "?a = b"
      using next_only [of "b - 1" ?a] 5(2,3) by (simp add: greeting_def)
    then have "answered W b ?u \<and> seq_gt ?a (t_send_unacknowledged ?u) \<and> seq_le ?a (t_send_high ?u)"
      using g by (simp add: greeting_def answered_def seq_gt_def seq_le_def)
    then show ?thesis
      using on_established_sender [OF _ _ e _ 5(4)] "iss" by simp
  next
    case 6
    then show ?thesis using on_established_sender [OF "iss" 6(1) e _ 6(2)] snd by simp
  qed
qed

lemma tcp_write_sender:
  assumes ok: "sender_ok W b (t, e)" and w: "tcp_write buf (t, e) = (res, t', e')"
  shows "sender_ok (W @ (case res of Inr n \<Rightarrow> take n buf | Inl _ \<Rightarrow> [])) b (t', e')"
proof (cases "t_state t \<in> {Established, CloseWait} \<and> \<not> t_fin_queued t \<and> length (t_pending t) < SEND_BUFFER")
  case False
  then have "res = Inl (case res of Inl x \<Rightarrow> x | Inr _ \<Rightarrow> EPIPE) \<and> psame t t' \<and> t_state t' = t_state t \<and> e' = e"
    using w by (auto simp: tcp_write_def psame_def Let_def split: if_splits)
  then show ?thesis
    using sender_ok_same [OF ok, of t' e'] by (cases res) auto
next
  case True
  define n where "n = min (SEND_BUFFER - length (t_pending t)) (length buf)"
  let ?V = "take n buf"
  let ?u = "t\<lparr>t_pending := t_pending t @ ?V\<rparr>"
  have out: "res = Inr n" "tcp_output (?u, e) = (t', e')"
    using w True by (auto simp: tcp_write_def Let_def n_def)
  have "sending W b t"
    using ok True by (auto simp: sender_ok_def snd_ok_def greeting_def finished_def)
  then obtain a k h where s: "a \<le> length W" "t_pending t = drop a W" "length W \<le> a + SEND_BUFFER"
    "t_send_unacknowledged t = seq_at b (int a)" "t_send_next t = seq_at b (int (a + k))"
    "a + k \<le> length W + of_bool (t_fin_sequence t \<noteq> None)" "t_send_high t = seq_at b (int (a + h))"
    "a + h \<le> length W + of_bool (t_fin_queued t)"
    "\<And>f. t_fin_sequence t = Some f \<Longrightarrow> t_fin_queued t"
    unfolding sending_def by blast
  have none: "t_fin_sequence t = None"
    using s(9) True by (cases "t_fin_sequence t") auto
  have "sending (W @ ?V) b ?u"
    by (rule sendingI [of a _ _ _ k h]) (use s none True in \<open>auto simp: n_def\<close>)
  then have "sender_ok (W @ ?V) b (?u, e)"
    using ok sent_ok_more by (simp add: sender_ok_def snd_ok_def)
  then show ?thesis
    using tcp_output_sender [of "W @ ?V" b ?u e] out by simp
qed

lemma shutdown_write_sender:
  assumes ok: "sender_ok W b (t, e)" and r: "shutdown_write (t, e) = (t', e')"
  shows "sender_ok W b (t', e')"
proof -
  have snd: "snd_ok W b t" and "iss": "t_iss t = b - 1" and e: "sent_ok W b e"
    using ok by (simp_all add: sender_ok_def snd_ok_def)
  have move: "sender_ok W b (t\<lparr>t_fin_queued := True, t_state := s\<rparr>, e)"
    if q: "\<not> t_fin_queued t" "t_state t \<in> {Established, SynReceived, CloseWait}" "s \<in> {FinWait1, LastAck}" for s
  proof -
    let ?u = "t\<lparr>t_fin_queued := True, t_state := s\<rparr>"
    consider "greeting W b t" | "sending W b t"
      using snd q by (auto simp: snd_ok_def finished_def)
    then have "finished ?u \<or> sending W b ?u"
    proof cases
      case 1
      then show ?thesis using q(3) by (auto simp: greeting_def finished_def)
    next
      case 2
      then obtain a k h where s: "a \<le> length W" "t_pending t = drop a W" "length W \<le> a + SEND_BUFFER"
        "t_send_unacknowledged t = seq_at b (int a)" "t_send_next t = seq_at b (int (a + k))"
        "a + k \<le> length W + of_bool (t_fin_sequence t \<noteq> None)" "t_send_high t = seq_at b (int (a + h))"
        "a + h \<le> length W + of_bool (t_fin_queued t)"
        "\<And>f. t_fin_sequence t = Some f \<Longrightarrow> t_fin_queued t"
        unfolding sending_def by blast
      have "sending W b ?u"
        by (rule sendingI [of a _ _ _ k h]) (use s q in auto)
      then show ?thesis ..
    qed
    then show ?thesis using "iss" e by (auto simp: sender_ok_def snd_ok_def)
  qed
  have closed: "sender_ok W b (t\<lparr>t_state := Closed, t_retransmit_at := 0\<rparr>, e)"
  proof (cases "past_greeting t")
    case True
    then show ?thesis
      using sender_ok_aside [OF ok, of "(t\<lparr>t_state := Closed, t_retransmit_at := 0\<rparr>, e)"]
      by (simp add: aside_def psame_def leads_to_closed)
  next
    case False
    then have "greeting W b t" using snd by (auto simp: snd_ok_def sending_def finished_def)
    then show ?thesis
      by (intro sender_ok_cleared [OF ok]) (auto simp: greeting_def)
  qed
  have "(t', e') = (t, e) \<or> (t', e') = (t\<lparr>t_state := Closed, t_retransmit_at := 0\<rparr>, e) \<or>
    \<not> t_fin_queued t \<and> t_state t \<in> {Established, SynReceived, CloseWait} \<and>
      (\<exists>s \<in> {FinWait1, LastAck}. (t', e') = tcp_output (t\<lparr>t_fin_queued := True, t_state := s\<rparr>, e))"
    using r unfolding shutdown_write_def Let_def prod.case by (auto split: if_splits)
  then show ?thesis
    using ok closed tcp_output_sender [OF move] by auto
qed

lemma tcp_abort_sender:
  assumes ok: "sender_ok W b (t, e)" and r: "tcp_abort (t, e) = (t', e')"
  shows "sender_ok W b (t', e')"
proof -
  let ?e = "if is_synchronised (t_state t) \<or> t_state t = SynReceived
    then send_segment t (RST OR ACK) (t_send_next t) [] False e else e"
  let ?u = "t\<lparr>t_state := Closed, t_retransmit_at := 0, t_pending := [], t_fin_queued := False\<rparr>"
  have e: "sent_ok W b ?e"
    using ok send_segment_ok [OF _ payload_ok_empty [of "RST OR ACK"]] by (simp add: sender_ok_def)
  have d: "drop_out_of_order (?u, ?e) = (t', e')"
    using r by (simp add: tcp_abort_def Let_def)
  have "sender_ok W b (t, ?e)"
    using ok e by (simp add: sender_ok_def)
  then show ?thesis
    using drop_out_of_order_keeps [OF d] drop_out_of_order_env [of ?u ?e] d
    by (elim sender_ok_cleared) simp_all
qed

lemma on_timeout_sender:
  assumes ok: "sender_ok W b (t, e)" and r: "on_timeout now (t, e) = (t', e')"
  shows "sender_ok W b (t', e')"
proof -
  define u where "u = t\<lparr>t_rto := min (t_rto t * 2) MAX_RTO, t_timed := None,
    t_retransmit_at := now + min (t_rto t * 2) MAX_RTO,
    t_slow_start_threshold := halved_flight t, t_congestion_window := MSS,
    t_recover := None, t_duplicate_acks := 0, t_timeouts := t_timeouts t + 1\<rparr>"
  define v where "v = u\<lparr>t_send_next := t_send_unacknowledged u, t_fin_sequence := None\<rparr>"
  have u: "sender_ok W b (u, e)"
    by (rule sender_ok_same [OF ok]) (simp_all add: u_def psame_def)
  have e: "sent_ok W b e" and "iss": "t_iss u = b - 1"
    using u by (simp_all add: sender_ok_def snd_ok_def)
  have r': "(t', e') = (if t_state u = SynSent then (u, send_segment u SYN (t_iss u) [] True e)
    else if t_state u = SynReceived then (u, send_segment u (SYN OR ACK) (t_iss u) [] True e)
    else if t_send_window v = 0 \<and> t_pending v \<noteq> []
    then (sent_through (t_send_next v + 1) v, send_segment v ACK (t_send_next v) [hd (t_pending v)] False e)
    else tcp_output (v, e))"
    using r unfolding on_timeout_def Let_def prod.case u_def [symmetric] v_def [symmetric] by simp
  show ?thesis
  proof (cases "past_greeting u")
    case False
    then show ?thesis
      using r' u "iss" send_segment_ok [OF e payload_ok_empty] by (auto simp: sender_ok_def)
  next
    case st: True
    have v_eq: "t_state v = t_state u" "t_pending v = t_pending u" "t_iss v = t_iss u"
      "t_send_next v = t_send_unacknowledged u" "t_send_unacknowledged v = t_send_unacknowledged u"
      "t_send_high v = t_send_high u" "t_fin_sequence v = None" "t_fin_queued v = t_fin_queued u"
      by (simp_all add: v_def)
    have sending_v: "sending W b v" if "sending W b u"
    proof -
      obtain a k h where "a \<le> length W" "t_pending u = drop a W" "length W \<le> a + SEND_BUFFER"
        "t_send_unacknowledged u = seq_at b (int a)" "t_send_high u = seq_at b (int (a + h))"
        "a + h \<le> length W + of_bool (t_fin_queued u)"
        using \<open>sending W b u\<close> unfolding sending_def by blast
      then show ?thesis
        using st by (intro sendingI [of a W v b 0 h]) (simp_all add: v_eq)
    qed
    have v: "sender_ok W b (v, e)"
      using u st sending_v v_eq by (auto simp: sender_ok_def snd_ok_def greeting_def finished_def)
    show ?thesis
    proof (cases "t_send_window v = 0 \<and> t_pending v \<noteq> []")
      case False
      then show ?thesis using r' st tcp_output_sender [OF v] by auto
    next
      case True
      then have "sending W b u"
        using u st v_eq by (auto simp: sender_ok_def snd_ok_def greeting_def finished_def)
      then obtain a h where s: "a \<le> length W" "t_pending v = drop a W" "length W \<le> a + SEND_BUFFER"
        "t_send_unacknowledged v = seq_at b (int a)" "t_send_high v = seq_at b (int (a + h))"
        "a + h \<le> length W + of_bool (t_fin_queued v)" "t_state v \<notin> {SynSent, SynReceived}"
        using sending_v unfolding sending_def by blast
      have aw: "a < length W" using True s(2) by simp
      have "payload_ok W b (t_send_next v) ACK [hd (t_pending v)]"
        unfolding payload_ok_def
        using aw s(2,4) v_eq by (auto intro!: exI [of _ a] simp: hd_drop_conv_nth take_Suc_conv_app_nth)
      then have sent: "sent_ok W b (send_segment v ACK (t_send_next v) [hd (t_pending v)] False e)"
        by (rule send_segment_ok [OF e])
      have nx: "t_send_next (sent_through (t_send_next v + 1) v) = seq_at b (int (a + 1))"
        using s(4) v_eq seq_at_add [of b "int a" 1] by (simp add: add.commute)
      have "sending W b (sent_through (t_send_next v + 1) v)"
        by (rule sending_advance [OF s machinery_simple(1) nx])
          (use sent_through_keeps [of "t_send_next v + 1" v] aw v_eq in auto)
      then show ?thesis
        using r' st True sent v machinery_keeps(4) [OF machinery_simple(1)] by (auto simp: sender_ok_def snd_ok_def)
    qed
  qed
qed

lemma on_timer_sender:
  assumes ok: "sender_ok W b (t, e)" and r: "on_timer now (t, e) = (w, t', e')"
  shows "sender_ok W b (t', e')"
proof -
  obtain u e1 where u: "(if t_reassembly_expire_at t \<noteq> 0 \<and> now \<ge> t_reassembly_expire_at t
      then drop_out_of_order (t, e) else (t, e)) = (u, e1)" by force
  have "psame t u \<and> t_state u = t_state t \<and> te_sent e1 = te_sent e"
    using u drop_out_of_order_keeps [of t e u e1] drop_out_of_order_env [of t e]
    by (auto split: if_splits simp: psame_def)
  then have ok_u: "sender_ok W b (u, e1)"
    using sender_ok_same [OF ok] by blast
  let ?v = "u\<lparr>t_retries := t_retries u + 1\<rparr>"
  have v: "sender_ok W b (?v, e1)"
    by (rule sender_ok_same [OF ok_u]) (simp_all add: psame_def)
  obtain t2 e2 where ab: "tcp_abort (?v, e1) = (t2, e2)" by force
  obtain t3 e3 where ot: "on_timeout now (?v, e1) = (t3, e3)" by force
  have aborted: "sender_ok W b (t2\<lparr>t_error := Some ETIMEDOUT\<rparr>, e2)"
    by (rule sender_ok_same [OF tcp_abort_sender [OF v ab]]) (simp_all add: psame_def)
  have expired: "sender_ok W b (u\<lparr>t_state := Closed, t_expire_at := 0, t_retransmit_at := 0, t_pending := []\<rparr>, e1)"
    by (rule sender_ok_cleared [OF ok_u]) simp_all
  have "(t', e') \<in> {(u, e1), (u\<lparr>t_state := Closed, t_expire_at := 0, t_retransmit_at := 0, t_pending := []\<rparr>, e1),
      (t2\<lparr>t_error := Some ETIMEDOUT\<rparr>, e2), (t3, e3)}"
    using r unfolding on_timer_def Let_def prod.case u ab ot by (auto split: if_splits)
  then show ?thesis
    using ok_u expired aborted on_timeout_sender [OF v ot] by auto
qed

lemma conn_do_sends:
  assumes ok: "sender_ok W b (t, e)" and r: "conn_do op (t, e) = (out, wrote, t', e')"
  shows "sender_ok (W @ wrote) b (t', e')"
proof (cases op)
  case (Arrive seg)
  obtain w t2 e2 where "on_segment seg (t, e) = (w, t2, e2)" by (metis prod_cases3)
  then show ?thesis using r Arrive on_segment_sender [OF ok] by auto
next
  case (Read len peek)
  have ow: "t_state (open_window x u) = t_state u" for x u
    using open_window_rsame [of u x] by (simp add: rsame_def)
  have drained: "sender_ok W b (open_window x (t\<lparr>t_received := d\<rparr>), e)" for x d
    by (rule sender_ok_same [OF ok psame_trans [of t "t\<lparr>t_received := d\<rparr>"]]) (simp_all add: psame_def [of t] ow)
  have "sender_ok W b (snd (tcp_read len peek (t, e)))"
  proof (cases "t_received t \<noteq> [] \<and> \<not> peek")
    case True
    let ?u = "open_window False (t\<lparr>t_received := drop (min len (length (t_received t))) (t_received t)\<rparr>)"
    have "snd (tcp_read len peek (t, e)) = (?u, e) \<or> snd (tcp_read len peek (t, e)) = (?u, acknowledge ?u e)"
      unfolding tcp_read_def Let_def prod.case using True by simp
    then show ?thesis
      using drained acknowledge_sender [OF drained] by auto
  next
    case False
    then have "snd (tcp_read len peek (t, e)) =
        (if t_received t = [] \<and> len \<noteq> 0 \<and> \<not> (t_fin_received t \<or> t_read_shutdown t) \<and> t_state t = Closed
         then (t\<lparr>t_error := None\<rparr>, e) else (t, e))"
      unfolding tcp_read_def Let_def prod.case by (cases "t_received t = []") simp_all
    then show ?thesis
      using ok sender_ok_same [OF ok, of "t\<lparr>t_error := None\<rparr>" e] by (simp add: psame_def)
  qed
  then show ?thesis
    using r Read by (auto split: sum.splits prod.splits)
next
  case (Write buf)
  obtain res t2 e2 where w: "tcp_write buf (t, e) = (res, t2, e2)" by (metis prod_cases3)
  then show ?thesis using r Write tcp_write_sender [OF ok w] by (auto split: sum.splits)
next
  case Shutdown_Read
  then show ?thesis using r sender_ok_same [OF ok, of t' e'] by (auto simp: psame_def)
next
  case Shutdown_Write
  then show ?thesis using r shutdown_write_sender [OF ok] by auto
next
  case Abort
  then show ?thesis using r tcp_abort_sender [OF ok] by auto
next
  case Abandon
  obtain u e1 where u: "drop_out_of_order (t\<lparr>t_abandoned := True\<rparr>, e) = (u, e1)" by force
  have "psame t t' \<and> t_state t' = t_state t \<and> te_sent e' = te_sent e"
    using r Abandon drop_out_of_order_keeps [OF u] drop_out_of_order_env [of "t\<lparr>t_abandoned := True\<rparr>" e] u
    by (auto simp: tcp_abandon_def psame_def split: if_splits)
  then show ?thesis using r Abandon sender_ok_same [OF ok] by auto
next
  case (Timer now)
  obtain w t2 e2 where "on_timer now (t, e) = (w, t2, e2)" by (metis prod_cases3)
  then show ?thesis using r Timer on_timer_sender [OF ok] by auto
next
  case (Surroundings e2)
  then show ?thesis using r sender_ok_same [OF ok, of t' e'] by auto
qed

end
