(* ===== verification/Tcp_Progress.thy ===== *)
theory Tcp_Progress
  imports Tcp_States
begin

text \<open>
  What \<open>kernel/src/net/tcp.rs\<close> does with a segment that carries the data wanted next: it is put
  where the reader will find it at once, with whatever had been held behind it.
\<close>

lemma deliver_runs_extends:
  "deliver_runs runs q received = (runs', q', received') \<Longrightarrow> \<exists>more. received' = received @ more"
proof (induction runs q received rule: deliver_runs.induct)
  case (2 r rs q received)
  then show ?case
    unfolding deliver_runs.simps Let_def by (simp split: if_splits) (metis append.assoc)+
qed simp

lemma deliver_held_extends:
  assumes "deliver_held (t, e) = (t', e')"
  shows "\<exists>more. t_received t' = t_received t @ more" and "t_abandoned t' = t_abandoned t" and "t_state t' = t_state t"
proof -
  obtain runs q received where d: "deliver_runs (t_out_of_order t) (t_receive_next t) (t_received t) =
    (runs, q, received)" by (metis prod_cases3)
  let ?u = "t\<lparr>t_out_of_order := runs, t_receive_next := q, t_received := received\<rparr>"
  obtain v e1 where v: "account (?u, e) = (v, e1)" by force
  have "rsame ?u v" using account_rsame [of "(?u, e)"] v by simp
  moreover have "rsame v t'"
    using assms unfolding deliver_held_def Let_def prod.case d v by (simp add: rsame_def arm_reassembly_def split: if_splits) auto
  ultimately have "rsame ?u t'" by (rule rsame_trans)
  then show "\<exists>more. t_received t' = t_received t @ more" "t_abandoned t' = t_abandoned t" "t_state t' = t_state t"
    using deliver_runs_extends [OF d] by (simp_all add: rsame_def)
qed

lemma enter_time_wait_received:
  assumes "\<not> t_abandoned t"
  shows "t_received (fst (enter_time_wait (t, e))) = t_received t"
proof -
  obtain u e1 where u: "drop_out_of_order (t\<lparr>t_state := TimeWait\<rparr>, e) = (u, e1)" by force
  show ?thesis
    using assms by (simp add: enter_time_wait_def Let_def u drop_out_of_order_keeps [OF u])
qed

lemma take_fin_received:
  assumes "\<not> t_abandoned t"
  shows "t_received (fst (snd (take_fin (t, e)))) = t_received t"
proof -
  define u where "u = (if t_out_of_order t = [] then t\<lparr>t_held_fin := None, t_reassembly_expire_at := 0\<rparr>
    else t\<lparr>t_held_fin := None\<rparr>)"
  have u: "t_received u = t_received t" "\<not> t_abandoned u"
    using assms by (simp_all add: u_def)
  have "take_fin (t, e) = (if t_fin_received u then (False, u, e)
      else (True, let v = u\<lparr>t_fin_received := True, t_receive_next := t_receive_next u + 1\<rparr> in
        if t_state v = Established then (v\<lparr>t_state := CloseWait\<rparr>, e)
        else if t_state v = FinWait1 then (v\<lparr>t_state := Closing\<rparr>, e)
        else if t_state v = FinWait2 then enter_time_wait (v, e) else (v, e)))"
    by (simp add: take_fin_def Let_def u_def)
  then show ?thesis
    using u enter_time_wait_received by (simp add: Let_def)
qed

text \<open>
  The room the window offers is never more than the room there is for the data, so a segment of
  that length is taken whole.
\<close>

definition takes_whole :: "segment \<Rightarrow> tcb \<Rightarrow> bool" where
  "takes_whole seg t \<longleftrightarrow> can_receive t \<and> sg_sequence seg = t_receive_next t \<and>
     length (t_received t) + length (sg_payload seg) \<le> RECEIVE_WINDOW"

lemma on_data_takes:
  assumes "can_receive t" and "length (t_received t) + length payload \<le> RECEIVE_WINDOW"
    and "on_data payload (t_receive_next t) (t, e) = (w, t', e')"
  shows "(\<exists>more. t_received t' = t_received t @ payload @ more) \<and> t_abandoned t' = t_abandoned t"
proof (cases "payload = []")
  case True
  then show ?thesis using assms(3) by (simp add: on_data_def)
next
  case False
  have "min (length payload) (RECEIVE_WINDOW - length (t_received t)) = length payload"
    using assms(2) by simp
  then have "deliver_held (t\<lparr>t_received := t_received t @ payload,
      t_receive_next := t_receive_next t + word_of_nat (length payload)\<rparr>, e) = (t', e')"
    using assms(1,3) False by (simp add: on_data_def Let_def)
  from deliver_held_extends [OF this] show ?thesis
    by simp
qed

lemma on_payload_takes:
  assumes ok: "takes_whole seg t" and p: "on_payload seg wanted (t, e) = (w, t', e')"
  shows "\<exists>more. t_received t' = t_received t @ sg_payload seg @ more"
proof -
  let ?q = "t_receive_next t"
  have fp: "fresh_payload seg t = (sg_payload seg, ?q)"
    using ok by (simp add: fresh_payload_def takes_whole_def seq_lt_def)
  obtain w1 t1 e1 where d: "on_data (sg_payload seg) ?q (t, e) = (w1, t1, e1)" by (metis prod_cases3)
  obtain t2 e2 where fin: "(if sg_flags seg AND FIN \<noteq> 0
      then on_finish (?q + word_of_nat (length (sg_payload seg))) (t1, e1) else (t1, e1)) = (t2, e2)" by force
  obtain w3 t3 e3 where tf: "(if t_held_fin t2 = Some (t_receive_next t2) then take_fin (t2, e2)
      else (False, t2, e2)) = (w3, t3, e3)" by (metis prod_cases3)
  have t1: "\<exists>more. t_received t1 = t_received t @ sg_payload seg @ more" "\<not> t_abandoned t1"
    using on_data_takes [OF _ _ d] ok by (auto simp: takes_whole_def can_receive_def)
  have "rsame t1 t2"
    using fin on_finish_rsame by (auto split: if_splits)
  then have t2: "t_received t2 = t_received t1" "\<not> t_abandoned t2"
    using t1(2) by (simp_all add: rsame_def)
  have "t_received t3 = t_received t2"
    using tf take_fin_received [OF t2(2), of e2] by (auto split: if_splits)
  moreover have "t_received t' = t_received t3"
  proof -
    have out: "t_received (fst (tcp_output (t4, e4))) = t_received t4" for t4 e4
      using rsame_machinery [OF tcp_output_machinery [of "(t4, e4)"]] by (simp add: rsame_def)
    have opened: "t_received (open_window x t3) = t_received t3" for x
      using open_window_rsame [of t3 x] by (simp add: rsame_def)
    have "(t', e') = (if (sg_payload seg \<noteq> [] \<or> sg_flags seg AND FIN \<noteq> 0) \<and> t_state t3 \<noteq> Closed
        then tcp_output (open_window (t_receive_next t3 \<noteq> wanted) t3,
               acknowledge (open_window (t_receive_next t3 \<noteq> wanted) t3) e3)
        else tcp_output (t3, e3))"
      using p unfolding on_payload_def Let_def prod.case fp d fin tf by (auto split: if_splits)
    then have "t_received t' = t_received (open_window (t_receive_next t3 \<noteq> wanted) t3) \<or> t_received t' = t_received t3"
      using out by (metis fst_conv)
    then show ?thesis using opened by simp
  qed
  ultimately show ?thesis using t1(1) t2(1) by simp
qed

lemma on_established_takes:
  assumes ok: "takes_whole seg t" and p: "on_established seg dup woke (t, e) = (w, t', e')"
  shows "\<exists>more. t_received t' = t_received t @ sg_payload seg @ more"
proof -
  let ?a = "sg_acknowledgement seg"
  let ?fresh = "seq_gt ?a (t_send_unacknowledged t) \<and> seq_le ?a (t_send_high t)"
  obtain t1 e1 where a1: "(if ?fresh then on_new_ack ?a (t, e) else (t, e)) = (t1, e1)" by force
  obtain t2 e2 where a2: "(if dup then on_duplicate_ack (t1, e1) else (t1, e1)) = (t2, e2)" by force
  let ?t3 = "update_send_window seg t2"
  obtain w4 t4 e4 where a4: "on_fin_acknowledged (?t3, e2) = (w4, t4, e4)" by (metis prod_cases3)
  obtain w5 t5 e5 where a5: "on_payload seg (t_receive_next t) (t4, e4) = (w5, t5, e5)" by (metis prod_cases3)
  have "rsame t t1"
    using a1 on_new_ack_rsame [of "(t, e)" ?a] by (auto split: if_splits)
  also have "rsame t1 t2"
    using a2 rsame_machinery [OF on_duplicate_ack_machinery [of "(t1, e1)"]] by (auto split: if_splits)
  also have "rsame t2 ?t3"
    by simp
  finally have same: "rsame t ?t3" .
  then have t3: "takes_whole seg ?t3" "t_received ?t3 = t_received t"
    using ok by (simp_all add: rsame_def takes_whole_def can_receive_def)
  have "t4 = ?t3 \<or> (t4, e4) = enter_fin_wait_2 (?t3, e2)"
    using a4 t3(1) by (auto simp: on_fin_acknowledged_def takes_whole_def can_receive_def split: if_splits)
  then have "takes_whole seg t4 \<and> t_received t4 = t_received t"
  proof
    assume "(t4, e4) = enter_fin_wait_2 (?t3, e2)"
    then show ?thesis
      using t3 by (auto simp: enter_fin_wait_2_def Let_def takes_whole_def can_receive_def split: if_splits)
  qed (use t3 in simp)
  moreover have "t' = t5"
    using p unfolding on_established_def Let_def prod.case a1 a2 a4 a5 by simp
  ultimately show ?thesis
    using on_payload_takes [OF _ a5] by simp
qed

text \<open>C34 (functional): a segment with the data wanted next, acceptable and no longer than the room there is, is
  taken whole: right behind what the reader has not fetched yet, before anything else.\<close>

theorem on_segment_takes_in_order:
  assumes "takes_whole seg t" and "acceptable t seg" and "sg_flags seg AND (RST OR SYN) = 0"
    and "sg_flags seg AND ACK \<noteq> 0"
  shows "\<exists>more. t_received (fst (snd (on_segment seg (t, e)))) = t_received t @ sg_payload seg @ more"
proof -
  have flags: "sg_flags seg AND RST = 0" "sg_flags seg AND SYN = 0"
  proof -
    have "sg_flags seg AND RST = (sg_flags seg AND (RST OR SYN)) AND RST"
      "sg_flags seg AND SYN = (sg_flags seg AND (RST OR SYN)) AND SYN"
      by (simp_all add: RST_def SYN_def and.assoc)
    then show "sg_flags seg AND RST = 0" "sg_flags seg AND SYN = 0"
      using assms(3) by simp_all
  qed
  obtain w t' e' where p: "on_established seg (is_duplicate_ack seg t) False (t, e) = (w, t', e')"
    by (metis prod_cases3)
  have "on_segment seg (t, e) = (w, t', e')"
    using assms flags p by (auto simp: on_segment_def takes_whole_def can_receive_def)
  then show ?thesis
    using on_established_takes [OF assms(1) p] by simp
qed

theorem on_segment_takes_in_order_witness:
  "let t = tcb_new\<lparr>t_state := Established, t_receive_next := 1, t_receive_high := 65536, t_received := [1]\<rparr>;
       seg = \<lparr>sg_source_port = 80, sg_destination_port = 40000, sg_sequence = 1, sg_acknowledgement = 0,
         sg_flags = ACK, sg_window = 1000, sg_mss = None, sg_payload = [2, 3]\<rparr>
   in takes_whole seg t \<and> acceptable t seg \<and>
      (\<forall>e. \<exists>more. t_received (fst (snd (on_segment seg (t, e)))) = [1] @ [2, 3] @ more)"
proof -
  let ?t = "tcb_new\<lparr>t_state := Established, t_receive_next := 1, t_receive_high := 65536, t_received := [1]\<rparr>"
  let ?seg = "\<lparr>sg_source_port = 80, sg_destination_port = 40000, sg_sequence = 1, sg_acknowledgement = 0,
    sg_flags = ACK, sg_window = 1000, sg_mss = None, sg_payload = [2, 3]\<rparr>"
  have t: "takes_whole ?seg ?t" "acceptable ?t ?seg"
    by (simp_all add: takes_whole_def can_receive_def tcb_new_def RECEIVE_WINDOW_def acceptable_def Let_def
        advertised_window_def segment_length_def seq_le_def seq_lt_def U16_MAX_def ACK_def SYN_def FIN_def)
  have "sg_flags ?seg AND (RST OR SYN) = 0" "sg_flags ?seg AND ACK \<noteq> 0"
    by (simp_all add: ACK_def RST_def SYN_def)
  from on_segment_takes_in_order [OF t this] show ?thesis
    using t by (simp add: Let_def)
qed

end
