(* ===== verification/Tcp_System.thy ===== *)
theory Tcp_System
  imports Tcp_Writer Tcp_Progress
begin

text \<open>
  Two ends of a connection and the network between them: what is read at one end is what was
  written at the other.  The network delivers any segment the client has sent, any number of
  times, in any order, or not at all; the server's segments to the client are not restricted
  in any way, and neither are the clocks, the configuration and the calls of the two users.
\<close>

section \<open>The system\<close>

record tcp_pair =
  pr_client :: "tcb \<times> tcp_env"
  pr_server :: "(tcb \<times> tcp_env) option"
  pr_written :: bytes
  pr_read :: bytes

definition fresh_tcb :: "endpoint \<Rightarrow> endpoint \<Rightarrow> tcb" where
  "fresh_tcb l r = tcb_new\<lparr>t_local := l, t_remote := r, t_bound := True\<rparr>"

definition on_wire :: "tcp_pair \<Rightarrow> segment \<Rightarrow> bool" where
  "on_wire s seg \<longleftrightarrow> (\<exists>(src, dst, p, bs) \<in> set (te_sent (snd (pr_client s))). segment_parse bs = Some seg)"

inductive tcp_run :: "tcp_pair \<Rightarrow> bool" where
  connect: "te_sent e = [] \<Longrightarrow> tcp_open (fresh_tcb l r, e) = te \<Longrightarrow>
    tcp_run \<lparr>pr_client = te, pr_server = None, pr_written = [], pr_read = []\<rparr>"
| client: "tcp_run s \<Longrightarrow> conn_do op (pr_client s) = (out, wrote, te) \<Longrightarrow>
    tcp_run (s\<lparr>pr_client := te, pr_written := pr_written s @ wrote\<rparr>)"
| accept: "tcp_run s \<Longrightarrow> pr_server s = None \<Longrightarrow> on_wire s seg \<Longrightarrow>
    sg_flags seg AND SYN \<noteq> 0 \<Longrightarrow> sg_flags seg AND (ACK OR RST) = 0 \<Longrightarrow>
    tcp_run (s\<lparr>pr_server := Some (send_syn_ack (accept_open seg (fresh_tcb l r, e)))\<rparr>)"
| server: "tcp_run s \<Longrightarrow> pr_server s = Some te \<Longrightarrow> (\<And>seg. op = Arrive seg \<Longrightarrow> on_wire s seg) \<Longrightarrow>
    conn_do op te = (out, wrote, te') \<Longrightarrow>
    tcp_run (s\<lparr>pr_server := Some te', pr_read := pr_read s @ out\<rparr>)"

section \<open>The two ends agree\<close>

definition agrees :: "stream \<Rightarrow> bytes \<Rightarrow> bool" where
  "agrees S W \<longleftrightarrow> (\<forall>i < length W. S i = W ! i)"

definition delivers :: "bytes \<Rightarrow> u32 \<Rightarrow> bytes \<Rightarrow> tcb \<Rightarrow> bool" where
  "delivers W b got t \<longleftrightarrow> t_state t \<noteq> SynSent \<and> (\<forall>S. agrees S W \<longrightarrow> rcv_ok S b got t)"

definition pair_ok :: "u32 \<Rightarrow> tcp_pair \<Rightarrow> bool" where
  "pair_ok b s \<longleftrightarrow> sender_ok (pr_written s) b (pr_client s) \<and>
     (case pr_server s of None \<Rightarrow> pr_read s = [] | Some te \<Rightarrow> delivers (pr_written s) b (pr_read s) (fst te))"

lemma agrees_shorter: "agrees S (W @ V) \<Longrightarrow> agrees S W"
  by (auto simp: agrees_def nth_append split: if_splits)

text \<open>
  Nothing past the end of what was written has been taken: a stream that agrees with it up to
  there may hold anything beyond.
\<close>

lemma delivers_prefix:
  assumes "delivers W b got t"
  shows "got @ t_received t = take (taken got t) W" and "taken got t \<le> length W"
proof -
  define S where "S x i = (if i < length W then W ! i else x)" for x :: u8 and i
  have "agrees (S x) W" for x by (simp add: agrees_def S_def)
  then have eq: "got @ t_received t = stretch (S x) 0 (taken got t)" for x
    using assms by (simp add: delivers_def rcv_ok_def)
  show le: "taken got t \<le> length W"
  proof (rule ccontr)
    assume "\<not> taken got t \<le> length W"
    then have "stretch (S x) 0 (taken got t) ! length W = x" for x
      by (simp add: stretch_def S_def)
    then have "(0 :: u8) = 1" using eq by metis
    then show False by simp
  qed
  show "got @ t_received t = take (taken got t) W"
  proof (rule nth_equalityI)
    show "length (got @ t_received t) = length (take (taken got t) W)"
      using le by (simp add: taken_def)
    fix i assume "i < length (got @ t_received t)"
    then have "i < taken got t" by (simp add: taken_def)
    then show "(got @ t_received t) ! i = take (taken got t) W ! i"
      using eq [of 0] le by (simp add: stretch_def S_def)
  qed
qed

lemma truthful_carries:
  assumes tr: "truthful W b bs" and p: "segment_parse bs = Some seg" and a: "agrees S W"
    and len: "length W < 2 ^ 31" "n \<le> length W"
  shows "carries S b n seg"
proof -
  obtain s d q ack f w mss c payload where bs: "bs = segment_bytes s d q ack f w mss c payload"
    and ok: "payload_ok W b q f payload"
    using tr unfolding truthful_def by blast
  have seg: "sg_sequence seg = q" "sg_payload seg = payload"
    using p unfolding bs segment_bytes_parse by auto
  show ?thesis
  proof (cases "payload = []")
    case True
    let ?x = "int n + sint (q - seq_at b (int n))"
    have "q = seq_at b ?x"
      by (simp add: seq_at_def)
    then show ?thesis
      unfolding carries_def seg using True sint_lt [of "q - seq_at b (int n)"] sint_ge [of "q - seq_at b (int n)"]
      by (intro exI [of _ ?x]) simp
  next
    case False
    then obtain x where x: "q = seq_at b (int x)" "x + length payload \<le> length W"
      "payload = take (length payload) (drop x W)"
      using ok unfolding payload_ok_def by blast
    have nth: "payload ! k = S (x + k)" if "k < length payload" for k
    proof -
      have "take (length payload) (drop x W) ! k = W ! (x + k)"
        using that x(2) by simp
      then show ?thesis
        using that x(2) a unfolding agrees_def x(3) [symmetric] by simp
    qed
    show ?thesis
      unfolding carries_def seg using x(1,2) len nth
      by (intro exI [of _ "int x"]) (auto simp: nat_add_distrib)
  qed
qed

lemma on_wire_truthful:
  assumes "pair_ok b s" and "on_wire s seg"
  obtains bs where "truthful (pr_written s) b bs" "segment_parse bs = Some seg"
  using assms unfolding pair_ok_def sender_ok_def sent_ok_def on_wire_def by fastforce

lemma delivers_step:
  assumes d: "delivers W b got t" and len: "length W < 2 ^ 31"
    and tr: "\<And>seg. op = Arrive seg \<Longrightarrow> \<exists>bs. truthful W b bs \<and> segment_parse bs = Some seg"
    and r: "conn_do op (t, e) = (out, wrote, t', e')"
  shows "delivers W b (got @ out) t'"
proof -
  have "rcv_ok S b (got @ out) t'" if a: "agrees S W" for S
  proof (rule conn_do_receives [OF _ _ _ r])
    show "rcv_ok S b got t" "t_state t \<noteq> SynSent"
      using d a by (simp_all add: delivers_def)
    fix seg assume "op = Arrive seg"
    then show "carries S b (taken got t) seg"
      using tr truthful_carries [OF _ _ a len delivers_prefix(2) [OF d]] by blast
  qed
  then show ?thesis
    using handshake_over [OF r] d by (simp add: delivers_def)
qed

section \<open>How the two ends start\<close>

lemma initial_sequence_sent:
  "initial_sequence l r e = (iss, e') \<Longrightarrow> te_sent e' = te_sent e"
  by (auto simp: initial_sequence_def isn_secret_def Let_def split: prod.splits if_splits)

lemma tcp_open_sender:
  assumes "te_sent e = []" and "tcp_open (fresh_tcb l r, e) = (t', e')"
  shows "sender_ok [] (t_iss t' + 1) (t', e')"
proof -
  obtain q e1 where q: "initial_sequence l r e = (q, e1)" by (metis surj_pair)
  define t where "t = (fresh_tcb l r)\<lparr>t_receive_high := word_of_nat RECEIVE_WINDOW, t_iss := q,
    t_send_unacknowledged := q, t_send_next := q, t_send_high := q, t_state := SynSent,
    t_congestion_window := MSS, t_rto := INITIAL_RTO, t_retries := 0\<rparr>"
  define e2 where "e2 = send_segment t SYN q [] True e1"
  have fresh: "t_local (fresh_tcb l r) = l" "t_remote (fresh_tcb l r) = r" "t_receive_next (fresh_tcb l r) = 0"
    by (simp_all add: fresh_tcb_def tcb_new_def)
  have eq: "t' = arm_retransmit e2 (time_segment e2 (q + 1) (sent_through (q + 1) t))" "e' = e2"
    using assms(2) by (auto simp: tcp_open_def Let_def q fresh t_def e2_def)
  have "seq_lt q (q + 1)"
    by (simp add: seq_lt_def)
  then have "greeting [] (q + 1) (sent_through (q + 1) t)"
    by (simp add: greeting_def sent_through_def t_def fresh_tcb_def tcb_new_def)
  then have "snd_ok [] (q + 1) (sent_through (q + 1) t)"
    by (simp add: snd_ok_def sent_through_def t_def Let_def)
  then have "snd_ok [] (q + 1) (time_segment e2 (q + 1) (sent_through (q + 1) t))"
    by (rule snd_ok_same [rotated 2]) (simp_all add: psame_def time_segment_def)
  then have snd: "snd_ok [] (q + 1) t'"
    unfolding eq by (rule snd_ok_same [rotated 2]) (simp_all add: psame_def arm_retransmit_def)
  have "sent_ok [] (q + 1) e1"
    using initial_sequence_sent [OF q] assms(1) by (simp add: sent_ok_def)
  then have "sent_ok [] (q + 1) e2"
    unfolding e2_def by (rule send_segment_ok) (simp add: payload_ok_def)
  moreover have "t_iss t' = q"
    using snd by (simp add: snd_ok_def)
  ultimately show ?thesis
    using snd eq(2) by (simp add: sender_ok_def)
qed

lemma accepted_ok:
  assumes "sg_sequence seg = b - 1"
  shows "delivers W b [] (fst (send_syn_ack (accept_open seg (fresh_tcb l r, e))))"
proof -
  obtain t1 e1 where t1: "accept_open seg (fresh_tcb l r, e) = (t1, e1)" by (metis surj_pair)
  then have "t_received t1 = [] \<and> t_out_of_order t1 = [] \<and> t_receive_next t1 = b \<and> t_state t1 = SynReceived"
    using assms
    by (auto simp: accept_open_def Let_def sent_through_def time_segment_def take_mss_def fresh_tcb_def
        tcb_new_def split: prod.splits option.splits if_splits)
  then show ?thesis
    by (simp add: t1 send_syn_ack_def Let_def arm_retransmit_def delivers_def rcv_ok_def taken_def stretch_def
        seq_at_def runs_ok_def)
qed

lemma wire_syn:
  assumes "pair_ok b s" and "on_wire s seg" and "sg_flags seg AND SYN \<noteq> 0"
  shows "sg_sequence seg = b - 1"
proof -
  obtain bs where bs: "truthful (pr_written s) b bs" "segment_parse bs = Some seg"
    using on_wire_truthful [OF assms(1,2)] .
  then obtain s' d q ack f w mss c payload where eq: "bs = segment_bytes s' d q ack f w mss c payload"
    and ok: "payload_ok (pr_written s) b q f payload"
    unfolding truthful_def by blast
  have "sg_sequence seg = q" "sg_flags seg = f"
    using bs(2) unfolding eq segment_bytes_parse by auto
  then show ?thesis
    using ok assms(3) by (simp add: payload_ok_def)
qed

lemma delivers_more: "delivers W b got t \<Longrightarrow> delivers (W @ V) b got t"
  using agrees_shorter unfolding delivers_def by blast

text \<open>The first sequence number of the data, past_greeting when the client opens.\<close>

lemma tcp_run_ok: "tcp_run s \<Longrightarrow> length (pr_written s) < 2 ^ 31 \<Longrightarrow> \<exists>b. pair_ok b s"
proof (induction rule: tcp_run.induct)
  case (connect e l r te)
  then show ?case
    using tcp_open_sender [of e l r "fst te" "snd te"] by (auto simp: pair_ok_def)
next
  case (client s op out wrote te)
  then obtain b where ok: "pair_ok b s" by auto
  then have "sender_ok (pr_written s @ wrote) b te"
    using conn_do_sends [of "pr_written s" b "fst (pr_client s)" "snd (pr_client s)" op out wrote "fst te" "snd te"]
      client.hyps(2) by (simp add: pair_ok_def)
  then show ?case
    using ok delivers_more by (intro exI [of _ b]) (auto simp: pair_ok_def split: option.splits)
next
  case (accept s seg l r e)
  then obtain b where ok: "pair_ok b s" by auto
  have "delivers (pr_written s) b [] (fst (send_syn_ack (accept_open seg (fresh_tcb l r, e))))"
    by (rule accepted_ok [OF wire_syn [OF ok accept.hyps(3,4)]])
  then show ?case
    using ok accept.hyps(2) by (intro exI [of _ b]) (simp add: pair_ok_def)
next
  case (server s te op out wrote te')
  then obtain b where ok: "pair_ok b s" by auto
  have "delivers (pr_written s) b (pr_read s @ out) (fst te')"
  proof (rule delivers_step)
    show "delivers (pr_written s) b (pr_read s) (fst te)"
      using ok server.hyps(2) by (simp add: pair_ok_def)
    show "length (pr_written s) < 2 ^ 31" using server.prems by simp
    show "conn_do op (fst te, snd te) = (out, wrote, fst te', snd te')" using server.hyps(4) by simp
    show "\<exists>bs. truthful (pr_written s) b bs \<and> segment_parse bs = Some seg" if "op = Arrive seg" for seg
      using on_wire_truthful [OF ok server.hyps(3) [OF that]] by blast
  qed
  then show ?case
    using ok server.hyps(2) by (intro exI [of _ b]) (simp add: pair_ok_def)
qed

text \<open>C1 (headline): whatever the network loses, repeats or reorders, and whatever the two ends, their
  clocks and the segments that come back do, the bytes the server's reader has been given are the
  first bytes the client wrote, in order, none missing and none repeated, and so are the bytes
  waiting to be read after them.  The stream is taken to be shorter than half the sequence space,
  since a segment delayed without bound could otherwise be taken for a later one.\<close>

theorem tcp_delivers_written:
  assumes "tcp_run s" and "length (pr_written s) < 2 ^ 31"
  shows "(\<exists>rest. pr_written s = pr_read s @ rest) \<and>
    (\<forall>t e. pr_server s = Some (t, e) \<longrightarrow> (\<exists>rest. pr_written s = pr_read s @ t_received t @ rest))"
proof -
  obtain b where ok: "pair_ok b s" using tcp_run_ok [OF assms] ..
  show ?thesis
  proof (cases "pr_server s")
    case None
    then show ?thesis using ok by (simp add: pair_ok_def)
  next
    case (Some te)
    then have "delivers (pr_written s) b (pr_read s) (fst te)"
      using ok by (simp add: pair_ok_def)
    from delivers_prefix(1) [OF this]
    have "pr_written s = (pr_read s @ t_received (fst te)) @ drop (taken (pr_read s) (fst te)) (pr_written s)"
      by (metis append_take_drop_id)
    then show ?thesis using Some by (metis append.assoc fst_conv option.inject)
  qed
qed

section \<open>A connection that carries a byte\<close>

text \<open>
  A run by computation: the client opens, is answered, and writes a byte; the server takes the
  SYN and the segment with the byte, and its reader gets it.  The clocks are such that both
  initial sequence numbers are zero.
\<close>

definition example_client :: endpoint where
  "example_client = \<lparr>ep_address = 0x0A000002, ep_port = 40000\<rparr>"

definition example_server :: endpoint where
  "example_server = \<lparr>ep_address = 0x0A000001, ep_port = 80\<rparr>"

definition example_env :: "nat \<Rightarrow> tcp_env" where
  "example_env ns = \<lparr>te_ticks = 0, te_monotonic_ns = ns, te_config = None, te_held_bytes = 0,
     te_isn_secret = 1, te_random = 0, te_sent = []\<rparr>"

definition example_segment :: "u32 \<Rightarrow> u32 \<Rightarrow> u8 \<Rightarrow> u16 option \<Rightarrow> bytes \<Rightarrow> ipv4_addr \<times> ipv4_addr \<times> u8 \<times> bytes" where
  "example_segment q a f mss payload = (0x0A000002, 0x0A000001, PROTO_TCP,
     segment_build example_client example_server q a f 65535 mss payload)"

abbreviation example_opening :: tcb where
  "example_opening \<equiv> (fresh_tcb example_client example_server)\<lparr>t_state := SynSent, t_send_next := 1,
     t_send_high := 1, t_receive_high := 65535, t_retransmit_at := 100, t_timed := Some 1,
     t_timed_at := 3157239576000\<rparr>"

abbreviation example_connected :: tcb where
  "example_connected \<equiv> example_opening\<lparr>t_state := Established, t_send_unacknowledged := 1,
     t_send_window := 1000, t_window_ack := 1, t_receive_next := 1, t_receive_high := 65536,
     t_retransmit_at := 0\<rparr>"

abbreviation example_accepted :: tcb where
  "example_accepted \<equiv> (fresh_tcb example_server example_client)\<lparr>t_state := SynReceived,
     t_send_window := 65535, t_send_next := 1, t_send_high := 1, t_receive_next := 1,
     t_receive_high := 65536, t_retransmit_at := 100, t_timed := Some 1, t_timed_at := 1435055548000\<rparr>"

lemmas example_simps = Let_def send_segment_def source_address_def is_unspecified_def endpoint_new_def
  sent_through_def time_segment_def arm_retransmit_def seq_lt_def seq_le_def seq_gt_def MSS_def INITIAL_RTO_def
  RECEIVE_WINDOW_def advertised_window_def U16_MAX_def SYN_def ACK_def FIN_def PSH_def RST_def tcb_new_def
  fresh_tcb_def example_env_def example_segment_def example_client_def example_server_def take_mss_def
  acknowledge_def tcp_output_def output_loop.simps output_round_def can_output_def effective_mss_def

lemma example_sequences:
  "initial_sequence example_client example_server (example_env 3157239576000) = (0, example_env 3157239576000)"
  "initial_sequence example_server example_client (example_env 1435055548000) = (0, example_env 1435055548000)"
  by (simp_all add: initial_sequence_def isn_secret_def isn_mix_def Let_def example_env_def example_client_def
      example_server_def)

lemma fresh_ends: "t_local (fresh_tcb l r) = l" "t_remote (fresh_tcb l r) = r"
  by (simp_all add: fresh_tcb_def)

lemma example_open:
  "tcp_open (fresh_tcb example_client example_server, example_env 3157239576000) =
     (example_opening, (example_env 3157239576000)\<lparr>te_sent := [example_segment 0 0 SYN (Some 1460) []]\<rparr>)"
  unfolding tcp_open_def by (simp add: example_sequences fresh_ends) (simp add: example_simps)

lemma example_answer:
  "conn_do (Arrive \<lparr>sg_source_port = 80, sg_destination_port = 40000, sg_sequence = 0, sg_acknowledgement = 1,
       sg_flags = SYN OR ACK, sg_window = 1000, sg_mss = None, sg_payload = []\<rparr>)
     (example_opening, (example_env 3157239576000)\<lparr>te_sent := [example_segment 0 0 SYN (Some 1460) []]\<rparr>) =
   ([], [], example_connected, (example_env 3157239576000)\<lparr>te_sent :=
       [example_segment 0 0 SYN (Some 1460) [], example_segment 1 1 ACK None []]\<rparr>)"
  by (simp add: on_segment_def on_syn_sent_def example_simps)

lemma example_write:
  "\<exists>te. conn_do (Write [65]) (example_connected, (example_env 3157239576000)\<lparr>te_sent :=
       [example_segment 0 0 SYN (Some 1460) [], example_segment 1 1 ACK None []]\<rparr>) = ([], [65], te) \<and>
     te_sent (snd te) = [example_segment 0 0 SYN (Some 1460) [], example_segment 1 1 ACK None [],
       example_segment 1 1 (ACK OR PSH) None [65]]"
  by (simp add: tcp_write_def SEND_BUFFER_def example_simps)

abbreviation example_syn :: segment where
  "example_syn \<equiv> \<lparr>sg_source_port = 40000, sg_destination_port = 80, sg_sequence = 0, sg_acknowledgement = 0,
     sg_flags = SYN, sg_window = 65535, sg_mss = Some 1460, sg_payload = []\<rparr>"

abbreviation example_data :: segment where
  "example_data \<equiv> \<lparr>sg_source_port = 40000, sg_destination_port = 80, sg_sequence = 1, sg_acknowledgement = 1,
     sg_flags = ACK OR PSH, sg_window = 65535, sg_mss = None, sg_payload = [65]\<rparr>"

lemma example_accept:
  "fst (send_syn_ack (accept_open example_syn (fresh_tcb example_server example_client, example_env 1435055548000))) =
     example_accepted"
  unfolding accept_open_def
  by (simp add: example_sequences fresh_ends take_mss_def) (simp add: example_simps send_syn_ack_def nat_clamp_def MIN_MSS_def)


lemma example_receive:
  "\<exists>te more. conn_do (Arrive example_data) (example_accepted, e) = ([], [], te) \<and> t_received (fst te) = 65 # more"
proof -
  let ?t = "example_accepted\<lparr>t_state := Established, t_retransmit_at := 0, t_retries := 0\<rparr>"
  let ?d = "is_duplicate_ack example_data example_accepted"
  have base: "t_receive_next (fresh_tcb l r) = 0" "t_received (fresh_tcb l r) = []" "t_read_shutdown (fresh_tcb l r) = False"
    "t_abandoned (fresh_tcb l r) = False" "t_send_unacknowledged (fresh_tcb l r) = 0" for l r
    by (simp_all add: fresh_tcb_def tcb_new_def)
  obtain w t' e' where p: "on_established example_data ?d True (?t, e) = (w, t', e')" by (metis prod_cases3)
  have "acceptable example_accepted example_data"
    by (simp add: acceptable_def segment_length_def example_simps)
  moreover have "on_segment example_data (example_accepted, e) = on_established example_data ?d True (?t, e)"
    if "acceptable example_accepted example_data"
    using that by (simp add: on_segment_def seq_lt_def seq_le_def ACK_def PSH_def RST_def SYN_def base)
  ultimately have "on_segment example_data (example_accepted, e) = (w, t', e')" using p by simp
  moreover have "takes_whole example_data ?t"
    by (simp add: takes_whole_def can_receive_def base RECEIVE_WINDOW_def)
  ultimately show ?thesis
    using on_established_takes [OF _ p] by (auto simp: base)
qed

lemma example_wire:
  "example_segment q a f mss payload = (s, d, p, bs) \<Longrightarrow>
     segment_parse bs = Some \<lparr>sg_source_port = 40000, sg_destination_port = 80, sg_sequence = q,
       sg_acknowledgement = a, sg_flags = f, sg_window = 65535, sg_mss = mss, sg_payload = payload\<rparr>"
  by (auto simp: example_segment_def segment_build_eq segment_bytes_parse example_client_def example_server_def)

lemma example_run:
  "\<exists>s. tcp_run s \<and> pr_written s = [65] \<and> pr_read s = [65]"
proof -
  let ?e = "example_env 3157239576000"
  obtain te where w: "conn_do (Write [65]) (example_connected, ?e\<lparr>te_sent :=
       [example_segment 0 0 SYN (Some 1460) [], example_segment 1 1 ACK None []]\<rparr>) = ([], [65], te)"
    and sent: "te_sent (snd te) = [example_segment 0 0 SYN (Some 1460) [], example_segment 1 1 ACK None [],
       example_segment 1 1 (ACK OR PSH) None [65]]"
    using example_write by blast
  let ?s = "\<lparr>pr_client = te, pr_server = None, pr_written = [65], pr_read = []\<rparr>"
  have "tcp_run \<lparr>pr_client = (example_opening, ?e\<lparr>te_sent := [example_segment 0 0 SYN (Some 1460) []]\<rparr>),
      pr_server = None, pr_written = [], pr_read = []\<rparr>"
    by (rule tcp_run.connect [OF _ example_open]) (simp add: example_env_def)
  from tcp_run.client [OF this, simplified, OF example_answer]
  have "tcp_run \<lparr>pr_client = (example_connected, ?e\<lparr>te_sent := [example_segment 0 0 SYN (Some 1460) [],
      example_segment 1 1 ACK None []]\<rparr>), pr_server = None, pr_written = [], pr_read = []\<rparr>"
    by simp
  from tcp_run.client [OF this, of "Write [65]" "[]" "[65]" te] w have run: "tcp_run ?s"
    by simp
  obtain x1 x2 x3 x4 where syn: "example_segment 0 0 SYN (Some 1460) [] = (x1, x2, x3, x4)" by (metis prod_cases4)
  obtain y1 y2 y3 y4 where data: "example_segment 1 1 (ACK OR PSH) None [65] = (y1, y2, y3, y4)" by (metis prod_cases4)
  have wire: "on_wire s example_syn \<and> on_wire s example_data" if "pr_client s = te" for s
    using that sent example_wire [OF syn] example_wire [OF data] by (simp add: on_wire_def syn data)
  obtain e where "send_syn_ack (accept_open example_syn (fresh_tcb example_server example_client,
      example_env 1435055548000)) = (example_accepted, e)"
    using example_accept by (metis prod.collapse)
  with tcp_run.accept [OF run, of example_syn example_server example_client "example_env 1435055548000"] wire
  have run: "tcp_run (?s\<lparr>pr_server := Some (example_accepted, e)\<rparr>)"
    by (simp add: SYN_def ACK_def RST_def)
  obtain u more where u: "conn_do (Arrive example_data) (example_accepted, e) = ([], [], u)" "t_received (fst u) = 65 # more"
    using example_receive by blast
  from tcp_run.server [OF run _ _ u(1)] wire have run: "tcp_run (?s\<lparr>pr_server := Some u\<rparr>)"
    by simp
  obtain v where v: "conn_do (Read 1 False) u = ([65], [], v)"
    using u(2) by (cases u) (simp add: tcp_read_def Let_def)
  from tcp_run.server [OF run _ _ v] have "tcp_run (?s\<lparr>pr_server := Some v, pr_read := [65]\<rparr>)"
    by simp
  then show ?thesis
    by (intro exI [of _ "?s\<lparr>pr_server := Some v, pr_read := [65]\<rparr>"]) simp
qed

theorem tcp_delivers_written_witness:
  "\<exists>s. tcp_run s \<and> length (pr_written s) < 2 ^ 31 \<and> pr_read s = [65] \<and> (\<exists>rest. pr_written s = [65] @ rest)"
proof -
  obtain s where s: "tcp_run s" "pr_written s = [65]" "pr_read s = [65]" using example_run by blast
  then have "length (pr_written s) < 2 ^ 31" by simp
  with tcp_delivers_written [OF s(1) this] s show ?thesis by metis
qed

end
