(* ===== verification/Tcp_Fin.thy ===== *)
theory Tcp_Fin
  imports Tcp_Control
begin

text \<open>
  The retransmission timer of \<open>kernel/src/net/tcp.rs\<close> forgets where the FIN was sent.  When more
  than a segment is still unacknowledged the FIN is not sent again at once, and an
  acknowledgement of the first FIN, already on its way, is then not recognised as one.
\<close>

definition closing_env :: tcp_env where
  "closing_env = \<lparr>te_ticks = 100, te_monotonic_ns = 0, te_config = None, te_held_bytes = 0,
     te_isn_secret = 1, te_random = 0, te_sent = []\<rparr>"

text \<open>2000 bytes and the FIN have been sent, from sequence number 1 to 2001, and nothing is acknowledged.\<close>

definition closing_tcb :: tcb where
  "closing_tcb = tcb_new\<lparr>t_state := FinWait1, t_local := endpoint_new 1 1, t_remote := endpoint_new 2 2,
     t_send_unacknowledged := 1, t_send_next := 2002, t_send_high := 2002, t_send_window := 65535,
     t_receive_next := 1, t_receive_high := 65536, t_pending := replicate 2000 0,
     t_fin_queued := True, t_fin_sequence := Some 2001, t_retransmit_at := 100\<rparr>"

definition closing_ack :: segment where
  "closing_ack = \<lparr>sg_source_port = 2, sg_destination_port = 1, sg_sequence = 1,
     sg_acknowledgement = 2002, sg_flags = ACK, sg_window = 65535, sg_mss = None, sg_payload = []\<rparr>"

lemmas closing_simps = Let_def send_segment_def source_address_def is_unspecified_def endpoint_new_def
  sent_through_def time_segment_def arm_retransmit_def seq_lt_def seq_le_def seq_gt_def MSS_def INITIAL_RTO_def
  RECEIVE_WINDOW_def advertised_window_def U16_MAX_def SYN_def ACK_def FIN_def PSH_def RST_def tcb_new_def
  acknowledge_def tcp_output_def output_loop.simps output_round_def can_output_def effective_mss_def
  closing_tcb_def closing_env_def

lemmas closing_ack_simps = closing_ack_def on_segment_def on_established_def on_new_ack_def fin_covered_def
  sample_round_trip_def grow_window_def update_send_window_def on_fin_acknowledged_def enter_fin_wait_2_def
  on_payload_def fresh_payload_def on_data_def acceptable_def is_duplicate_ack_def
  segment_length_def saturating_add_def U32_MAX_def

text \<open>Without the timer the acknowledgement ends the sender's half.\<close>

lemma closing_ack_in_time:
  "t_state (fst (snd (on_segment closing_ack (closing_tcb, closing_env)))) = FinWait2"
  by (simp add: closing_ack_simps closing_simps)





end
