(* ===== verification/Net_Link.thy ===== *)
theory Net_Link
  imports Tcp
begin

text \<open>
  The lower half of the stack: \<open>kernel/src/net/arp.rs\<close>, the card, the configuration and the loop-back
  queue of \<open>kernel/src/net/mod.rs\<close>, routing and receiving of \<open>kernel/src/net/ip.rs\<close>, and
  \<open>kernel/src/net/icmp.rs\<close>.  What these modules keep in statics are the fields of one record.
\<close>

section \<open>State\<close>

record arp_entry =
  ae_address :: ipv4_addr
  ae_mac :: "bytes option"
  ae_deadline :: nat
  ae_requests :: nat
  ae_queued :: "bytes list"

text \<open>
  A card is its hardware address and what its driver answers when given a frame, which may depend
  on every frame it was given before.
\<close>

record card =
  cd_mac :: bytes
  cd_answer :: "bytes list \<Rightarrow> bytes \<Rightarrow> errno option"

text \<open>
  \<open>lk_resolv\<close> lists the texts written to \<open>/etc/resolv.conf\<close>, \<open>lk_wire\<close> the frames the card took, and
  \<open>lk_ticks\<close> is what the tick counter reads.
\<close>

record link_state =
  lk_ticks :: nat
  lk_card :: "card option"
  lk_loss :: u32
  lk_sent :: u32
  lk_arrived :: u32
  lk_config :: "net_config option"
  lk_published :: "ipv4_addr list option"
  lk_resolv :: "string list"
  lk_arp :: "arp_entry list"
  lk_next_id :: u16
  lk_loopback :: "bytes list"
  lk_wire :: "bytes list"

section \<open>The card\<close>

text \<open>\<open>lost\<close>, for the counter of either direction: whether the frame goes missing, and the counter after.\<close>

definition lost :: "u32 \<Rightarrow> u32 \<Rightarrow> bool \<times> u32" where
  "lost one_in counter =
     (if one_in = 0 then (False, counter) else (counter mod one_in = one_in - 1, counter + 1))"

definition transmit :: "bytes \<Rightarrow> link_state \<Rightarrow> (errno + unit) \<times> link_state" where
  "transmit frame s =
     (let (gone, counter) = lost (lk_loss s) (lk_sent s);
          s = s\<lparr>lk_sent := counter\<rparr>
      in if gone then (Inr (), s)
         else case lk_card s of
                Some nic \<Rightarrow>
                  (case cd_answer nic (lk_wire s) frame of
                     Some err \<Rightarrow> (Inl err, s)
                   | None \<Rightarrow> (Inr (), s\<lparr>lk_wire := lk_wire s @ [frame]\<rparr>))
              | None \<Rightarrow> (Inl ENODEV, s))"

definition net_mac :: "link_state \<Rightarrow> bytes" where
  "net_mac s = (case lk_card s of Some nic \<Rightarrow> cd_mac nic | None \<Rightarrow> replicate 6 0)"

section \<open>Address resolution\<close>

definition PACKET_LEN :: nat where
  "PACKET_LEN = 28"

definition HARDWARE_ETHERNET :: u16 where
  "HARDWARE_ETHERNET = 1"

definition OP_REQUEST :: u16 where
  "OP_REQUEST = 1"

definition OP_REPLY :: u16 where
  "OP_REPLY = 2"

definition ENTRY_LIFETIME :: nat where
  "ENTRY_LIFETIME = 100 * 60"

definition REQUEST_INTERVAL :: nat where
  "REQUEST_INTERVAL = 100"

definition MAX_REQUESTS :: nat where
  "MAX_REQUESTS = 4"

definition MAX_QUEUED :: nat where
  "MAX_QUEUED = 4"

definition MAX_ENTRIES :: nat where
  "MAX_ENTRIES = 64"

fun find_entry :: "ipv4_addr \<Rightarrow> arp_entry list \<Rightarrow> arp_entry option" where
  "find_entry address [] = None"
| "find_entry address (en # es) = (if ae_address en = address then Some en else find_entry address es)"

definition arp_lookup :: "ipv4_addr \<Rightarrow> arp_entry list \<Rightarrow> bytes option" where
  "arp_lookup address cache = (case find_entry address cache of Some en \<Rightarrow> ae_mac en | None \<Rightarrow> None)"

text \<open>What the code does through the reference \<open>find\<close> gives it, to the first entry of an address.\<close>

fun change_entry :: "ipv4_addr \<Rightarrow> (arp_entry \<Rightarrow> arp_entry) \<Rightarrow> arp_entry list \<Rightarrow> arp_entry list" where
  "change_entry address f [] = []"
| "change_entry address f (en # es) =
     (if ae_address en = address then f en # es else en # change_entry address f es)"

fun oldest_from :: "arp_entry list \<Rightarrow> nat \<Rightarrow> (nat \<times> nat) option \<Rightarrow> nat option" where
  "oldest_from [] index best = map_option fst best"
| "oldest_from (en # es) index best =
     oldest_from es (index + 1)
       (if (case best of Some (_, deadline) \<Rightarrow> ae_deadline en < deadline | None \<Rightarrow> True)
        then Some (index, ae_deadline en) else best)"

definition oldest :: "arp_entry list \<Rightarrow> nat option" where
  "oldest cache = oldest_from cache 0 None"

definition make_room :: "arp_entry list \<Rightarrow> arp_entry list" where
  "make_room cache =
     (if length cache \<ge> MAX_ENTRIES
      then case oldest cache of Some index \<Rightarrow> take index cache @ drop (index + 1) cache | None \<Rightarrow> cache
      else cache)"

definition transmit_to :: "bytes \<Rightarrow> u16 \<Rightarrow> bytes \<Rightarrow> link_state \<Rightarrow> (errno + unit) \<times> link_state" where
  "transmit_to mac ethertype payload s = transmit (ether_build mac (net_mac s) ethertype payload) s"

text \<open>Frames sent one after the other, whatever the card answers.\<close>

fun transmit_all :: "bytes \<Rightarrow> bytes list \<Rightarrow> link_state \<Rightarrow> link_state" where
  "transmit_all mac [] s = s"
| "transmit_all mac (datagram # ds) s = transmit_all mac ds (snd (transmit_to mac ETHERTYPE_IPV4 datagram s))"

definition holds_address :: "ipv4_addr \<Rightarrow> link_state \<Rightarrow> bool" where
  "holds_address address s \<longleftrightarrow> (case lk_config s of Some c \<Rightarrow> cf_address c = address | None \<Rightarrow> False)"

definition learn :: "ipv4_addr \<Rightarrow> bytes \<Rightarrow> link_state \<Rightarrow> link_state" where
  "learn address mac s =
     (if is_unspecified address \<or> is_group mac then s
      else if holds_address address s then s
      else
        let now = lk_ticks s;
            cache = lk_arp s
        in case find_entry address cache of
             Some en \<Rightarrow>
               transmit_all mac (ae_queued en)
                 (s\<lparr>lk_arp := change_entry address
                      (\<lambda>en. en\<lparr>ae_mac := Some mac, ae_deadline := now + ENTRY_LIFETIME, ae_requests := 0,
                              ae_queued := []\<rparr>) cache\<rparr>)
           | None \<Rightarrow>
               s\<lparr>lk_arp := make_room cache @
                    [\<lparr>ae_address = address, ae_mac = Some mac, ae_deadline = now + ENTRY_LIFETIME,
                      ae_requests = 0, ae_queued = []\<rparr>]\<rparr>)"

definition arp_build :: "u16 \<Rightarrow> bytes \<Rightarrow> ipv4_addr \<Rightarrow> bytes \<Rightarrow> ipv4_addr \<Rightarrow> bytes" where
  "arp_build operation sender_mac sender_ip target_mac target_ip =
     be16 HARDWARE_ETHERNET @ be16 ETHERTYPE_IPV4 @ [6, 4] @ be16 operation @ sender_mac @
     be32 sender_ip @ target_mac @ be32 target_ip"

definition arp_request :: "ipv4_addr \<Rightarrow> link_state \<Rightarrow> (errno + unit) \<times> link_state" where
  "arp_request address s =
     (let sender = (case lk_config s of Some c \<Rightarrow> cf_address c | None \<Rightarrow> 0);
          packet = arp_build OP_REQUEST (net_mac s) sender (replicate 6 0) address
      in transmit_to MAC_BROADCAST ETHERTYPE_ARP packet s)"

definition send_datagram :: "ipv4_addr \<Rightarrow> bytes \<Rightarrow> link_state \<Rightarrow> (errno + unit) \<times> link_state" where
  "send_datagram hop datagram s =
     (if is_broadcast hop then transmit_to MAC_BROADCAST ETHERTYPE_IPV4 datagram s
      else if is_multicast hop then
        let bs = be32 hop
        in transmit_to [0x01, 0x00, 0x5E, bs ! 1 AND 0x7F, bs ! 2, bs ! 3] ETHERTYPE_IPV4 datagram s
      else case arp_lookup hop (lk_arp s) of
             Some mac \<Rightarrow> transmit_to mac ETHERTYPE_IPV4 datagram s
           | None \<Rightarrow>
               let now = lk_ticks s;
                   cache = (case find_entry hop (lk_arp s) of
                      Some en \<Rightarrow>
                        if length (ae_queued en) < MAX_QUEUED
                        then change_entry hop (\<lambda>en. en\<lparr>ae_queued := ae_queued en @ [datagram]\<rparr>) (lk_arp s)
                        else lk_arp s
                    | None \<Rightarrow>
                        make_room (lk_arp s) @
                          [\<lparr>ae_address = hop, ae_mac = None, ae_deadline = now + REQUEST_INTERVAL,
                            ae_requests = 1, ae_queued = [datagram]\<rparr>])
               in arp_request hop (s\<lparr>lk_arp := cache\<rparr>))"

definition arp_receive :: "bytes \<Rightarrow> link_state \<Rightarrow> link_state" where
  "arp_receive bs s =
     (if length bs < PACKET_LEN then s
      else if u16_from_be (bs ! 0) (bs ! 1) \<noteq> HARDWARE_ETHERNET then s
      else if u16_from_be (bs ! 2) (bs ! 3) \<noteq> ETHERTYPE_IPV4 then s
      else if bs ! 4 \<noteq> 6 \<or> bs ! 5 \<noteq> 4 then s
      else
        let operation = u16_from_be (bs ! 6) (bs ! 7);
            sender_mac = take 6 (drop 8 bs);
            sender_ip = u32_from_be (bs ! 14) (bs ! 15) (bs ! 16) (bs ! 17);
            target_ip = u32_from_be (bs ! 24) (bs ! 25) (bs ! 26) (bs ! 27);
            s = learn sender_ip sender_mac s
        in case lk_config s of
             None \<Rightarrow> s
           | Some c \<Rightarrow>
               if operation = OP_REQUEST \<and> target_ip = cf_address c then
                 let reply = arp_build OP_REPLY (net_mac s) (cf_address c) sender_mac sender_ip
                 in snd (transmit_to sender_mac ETHERTYPE_ARP reply s)
               else s)"

definition arp_next_deadline :: "link_state \<Rightarrow> nat" where
  "arp_next_deadline s = fold min (map ae_deadline (lk_arp s)) U64_MAX"

definition still_wanted :: "nat \<Rightarrow> arp_entry \<Rightarrow> bool" where
  "still_wanted now en \<longleftrightarrow> now < ae_deadline en \<or> ae_mac en = None \<and> ae_requests en < MAX_REQUESTS"

definition ask_again :: "nat \<Rightarrow> arp_entry \<Rightarrow> bool" where
  "ask_again now en \<longleftrightarrow> now \<ge> ae_deadline en \<and> ae_mac en = None"

fun request_all :: "ipv4_addr list \<Rightarrow> link_state \<Rightarrow> link_state" where
  "request_all [] s = s"
| "request_all (address # ask) s = request_all ask (snd (arp_request address s))"

definition arp_expire :: "link_state \<Rightarrow> link_state" where
  "arp_expire s =
     (let now = lk_ticks s;
          cache = filter (still_wanted now) (lk_arp s);
          ask = map ae_address (filter (ask_again now) cache);
          cache = map (\<lambda>en. if ask_again now en
                            then en\<lparr>ae_requests := ae_requests en + 1, ae_deadline := now + REQUEST_INTERVAL\<rparr>
                            else en) cache
      in request_all ask (s\<lparr>lk_arp := cache\<rparr>))"

section \<open>The configuration\<close>

definition resolv_text :: "ipv4_addr list \<Rightarrow> string" where
  "resolv_text servers =
     ''# Written by the kernel from its network configuration, and written'' @ [CHR 0x0A] @
     ''# again whenever that changes.'' @ [CHR 0x0A] @
     concat (map (\<lambda>server. ''nameserver '' @ display_address server @ [CHR 0x0A]) servers)"

definition publish_nameservers :: "link_state \<Rightarrow> link_state" where
  "publish_nameservers s =
     (case lk_config s of
        None \<Rightarrow> s
      | Some c \<Rightarrow>
          let servers = nameservers c in
          if lk_published s = Some servers then s
          else s\<lparr>lk_published := Some servers, lk_resolv := lk_resolv s @ [resolv_text servers]\<rparr>)"

definition configure :: "net_config option \<Rightarrow> link_state \<Rightarrow> link_state" where
  "configure config s =
     (let previous = lk_config s;
          s = s\<lparr>lk_config := config\<rparr>
      in if previous = config then s else publish_nameservers (s\<lparr>lk_arp := []\<rparr>))"

section \<open>Sending\<close>

definition LOOPBACK_LIMIT :: nat where
  "LOOPBACK_LIMIT = 256"

definition loop_back :: "bytes \<Rightarrow> link_state \<Rightarrow> link_state" where
  "loop_back datagram s =
     (let queue = (if length (lk_loopback s) \<ge> LOOPBACK_LIMIT then tl (lk_loopback s) else lk_loopback s)
      in s\<lparr>lk_loopback := queue @ [datagram]\<rparr>)"

text \<open>\<open>build\<close> with the identification \<open>NEXT_ID\<close> gives out.\<close>

definition ip_build_next :: "ipv4_addr \<Rightarrow> ipv4_addr \<Rightarrow> u8 \<Rightarrow> bytes \<Rightarrow> link_state \<Rightarrow> bytes \<times> link_state" where
  "ip_build_next source destination protocol payload s =
     (ip_build (lk_next_id s) source destination protocol payload, s\<lparr>lk_next_id := lk_next_id s + 1\<rparr>)"

definition send_from ::
  "ipv4_addr \<Rightarrow> ipv4_addr \<Rightarrow> u8 \<Rightarrow> bytes \<Rightarrow> link_state \<Rightarrow> (errno + unit) \<times> link_state" where
  "send_from source destination protocol payload s =
     (if IP_HEADER_LEN + length payload > MTU then (Inl EMSGSIZE, s)
      else if is_loopback destination \<or> holds_address destination s then
        let (datagram, s) = ip_build_next source destination protocol payload s
        in (Inr (), loop_back datagram s)
      else
        let routed = (case lk_config s of
               Some c \<Rightarrow>
                 if source \<noteq> cf_address c then Inl EADDRNOTAVAIL
                 else (case next_hop c destination of Some h \<Rightarrow> Inr h | None \<Rightarrow> Inl ENETUNREACH)
             | None \<Rightarrow>
                 if \<not> (is_unspecified source \<and> is_broadcast destination) then Inl ENETUNREACH
                 else Inr destination)
        in case routed of
             Inl err \<Rightarrow> (Inl err, s)
           | Inr hop \<Rightarrow>
               let (datagram, s) = ip_build_next source destination protocol payload s
               in send_datagram hop datagram s)"

definition ip_send :: "ipv4_addr \<Rightarrow> u8 \<Rightarrow> bytes \<Rightarrow> link_state \<Rightarrow> (errno + unit) \<times> link_state" where
  "ip_send destination protocol payload s =
     (case source_for (lk_config s) destination of
        Inl err \<Rightarrow> (Inl err, s)
      | Inr source \<Rightarrow> send_from source destination protocol payload s)"

section \<open>Receiving\<close>

definition icmp_receive :: "ipv4_addr \<Rightarrow> ipv4_addr \<Rightarrow> bytes \<Rightarrow> link_state \<Rightarrow> link_state" where
  "icmp_receive source destination message s =
     (if length message < ICMP_HEADER_LEN then s
      else if net_checksum message \<noteq> 0 then s
      else if message ! 0 \<noteq> TYPE_ECHO_REQUEST \<or> message ! 1 \<noteq> 0 then s
      else if \<not> (is_loopback destination \<or> holds_address destination s) then s
      else
        let rest = take 4 (drop 4 message);
            reply = icmp_build TYPE_ECHO_REPLY 0 rest (drop ICMP_HEADER_LEN message)
        in snd (send_from destination source PROTO_ICMP reply s))"

datatype origin = Card | Loopback

text \<open>What \<open>receive\<close> hands up to UDP or TCP: source, destination and payload.\<close>

datatype upcall =
    To_Udp ipv4_addr ipv4_addr bytes
  | To_Tcp ipv4_addr ipv4_addr bytes

text \<open>Whether a datagram is for this machine, which it is not where the code returns at once.\<close>

definition for_us :: "ip_header \<Rightarrow> origin \<Rightarrow> link_state \<Rightarrow> bool" where
  "for_us h origin s =
     (case origin of
        Card \<Rightarrow>
          \<not> (is_loopback (ih_source h) \<or> is_loopback (ih_destination h)) \<and>
          (case lk_config s of
             Some c \<Rightarrow>
               ih_source h \<noteq> cf_address c \<and>
               (ih_destination h = cf_address c \<or> is_broadcast (ih_destination h) \<or>
                ih_destination h = broadcast c)
           | None \<Rightarrow> is_broadcast (ih_destination h))
      | Loopback \<Rightarrow> is_loopback (ih_destination h) \<or> holds_address (ih_destination h) s)"

definition ip_receive :: "bytes \<Rightarrow> bytes \<Rightarrow> origin \<Rightarrow> link_state \<Rightarrow> upcall option \<times> link_state" where
  "ip_receive bs source_mac origin s =
     (case ip_parse bs of
        None \<Rightarrow> (None, s)
      | Some (h, payload) \<Rightarrow>
          if \<not> for_us h origin s then (None, s)
          else
            let s = (if origin = Card \<and> \<not> is_unspecified (ih_source h) \<and>
                        (case lk_config s of Some c \<Rightarrow> on_link c (ih_source h) | None \<Rightarrow> False)
                     then learn (ih_source h) source_mac s else s)
            in if is_fragment h then (None, s)
               else if ih_protocol h = PROTO_ICMP
               then (None, icmp_receive (ih_source h) (ih_destination h) payload s)
               else if ih_protocol h = PROTO_UDP
               then (Some (To_Udp (ih_source h) (ih_destination h) payload), s)
               else if ih_protocol h = PROTO_TCP
               then (Some (To_Tcp (ih_source h) (ih_destination h) payload), s)
               else (None, s))"

text \<open>
  \<open>receive\<close> of \<open>net/mod.rs\<close> up to the protocols: a frame that is not lost, parses and is for the card
  or a group.  The flag says whether the clock is looked at afterwards, which it is not after a
  frame that was not for this machine.
\<close>

definition frame_receive :: "bytes \<Rightarrow> link_state \<Rightarrow> upcall option \<times> bool \<times> link_state" where
  "frame_receive frame s =
     (let (gone, counter) = lost (lk_loss s) (lk_arrived s);
          s = s\<lparr>lk_arrived := counter\<rparr>
      in if gone then (None, True, s)
         else case ether_parse frame of
                None \<Rightarrow> (None, False, s)
              | Some parsed \<Rightarrow>
                  if fr_destination parsed \<noteq> net_mac s \<and> \<not> is_group (fr_destination parsed)
                  then (None, False, s)
                  else if fr_ethertype parsed = ETHERTYPE_ARP
                  then (None, True, arp_receive (fr_payload parsed) s)
                  else if fr_ethertype parsed = ETHERTYPE_IPV4
                  then let (up, s) = ip_receive (fr_payload parsed) (fr_source parsed) Card s in (up, True, s)
                  else (None, True, s))"

end
