(* ===== verification/Net_Socket.thy ===== *)
theory Net_Socket
  imports Net_Link Tcp_Control
begin

text \<open>
  The upper half of the stack: the datagram queue of \<open>kernel/src/net/udp.rs\<close>, the sockets and their
  table from \<open>kernel/src/net/socket.rs\<close>, and the functions of \<open>kernel/src/net/tcp.rs\<close>, \<open>udp.rs\<close> and
  \<open>mod.rs\<close> that find the socket a packet belongs to.  A socket is a number and an \<open>Arc\<close> is a copy of
  it.  A socket is never taken out of memory here, so the count of held bytes a connection gives
  back when it is dropped is not followed further.
\<close>

section \<open>Datagram sockets\<close>

definition QUEUE_LIMIT :: nat where
  "QUEUE_LIMIT = 64"

definition QUEUE_BYTES :: nat where
  "QUEUE_BYTES = 64 * 1024"

record udp_state =
  us_local :: endpoint
  us_remote :: "endpoint option"
  us_bound :: bool
  us_write_shutdown :: bool
  us_read_shutdown :: bool
  us_error :: "errno option"
  us_queue :: "(endpoint \<times> bytes) list"
  us_queued_bytes :: nat

text \<open>The bytes a receive took, the length of what they were taken from, and who sent it.\<close>

record received =
  rc_taken :: bytes
  rc_length :: nat
  rc_from :: "endpoint option"

definition udp_new :: udp_state where
  "udp_new = \<lparr>us_local = ENDPOINT_UNSPECIFIED, us_remote = None, us_bound = False, us_write_shutdown = False,
     us_read_shutdown = False, us_error = None, us_queue = [], us_queued_bytes = 0\<rparr>"

definition udp_shutdown_read :: "udp_state \<Rightarrow> udp_state" where
  "udp_shutdown_read u = u\<lparr>us_queue := [], us_queued_bytes := 0, us_read_shutdown := True\<rparr>"

fun drop_oldest :: "nat \<Rightarrow> (endpoint \<times> bytes) list \<Rightarrow> nat \<Rightarrow> (endpoint \<times> bytes) list \<times> nat" where
  "drop_oldest len [] queued = ([], queued)"
| "drop_oldest len ((sender, data) # queue) queued =
     (if length ((sender, data) # queue) \<ge> QUEUE_LIMIT \<or> queued + len > QUEUE_BYTES
      then drop_oldest len queue (queued - length data)
      else ((sender, data) # queue, queued))"

definition udp_enqueue :: "endpoint \<Rightarrow> bytes \<Rightarrow> udp_state \<Rightarrow> udp_state" where
  "udp_enqueue sender data u =
     (let (queue, queued) = drop_oldest (length data) (us_queue u) (us_queued_bytes u)
      in u\<lparr>us_queue := queue @ [(sender, data)], us_queued_bytes := queued + length data\<rparr>)"

definition udp_take :: "nat \<Rightarrow> bool \<Rightarrow> udp_state \<Rightarrow> (errno + received) \<times> udp_state" where
  "udp_take len peek u =
     (case us_queue u of
        [] \<Rightarrow>
          (if us_read_shutdown u then Inr \<lparr>rc_taken = [], rc_length = 0, rc_from = None\<rparr> else Inl EAGAIN, u)
      | (sender, data) # queue \<Rightarrow>
          (Inr \<lparr>rc_taken = take len data, rc_length = length data, rc_from = Some sender\<rparr>,
           if peek then u
           else u\<lparr>us_queue := queue, us_queued_bytes := us_queued_bytes u - length data\<rparr>))"

definition udp_send :: "bytes \<Rightarrow> endpoint option \<Rightarrow> udp_state \<Rightarrow> link_state \<Rightarrow> (errno + nat) \<times> link_state" where
  "udp_send buf to u l =
     (if us_write_shutdown u then (Inl EPIPE, l)
      else case (case to of Some d \<Rightarrow> Some d | None \<Rightarrow> us_remote u) of
             None \<Rightarrow> (Inl EDESTADDRREQ, l)
           | Some destination \<Rightarrow>
               if ep_port destination = 0 then (Inl EINVAL, l)
               else if UDP_HEADER_LEN + length buf + IP_HEADER_LEN > MTU then (Inl EMSGSIZE, l)
               else if ep_port (us_local u) = 0 then (Inl EINVAL, l)
               else
                 (case (if is_unspecified (ep_address (us_local u))
                        then source_for (lk_config l) (ep_address destination)
                        else Inr (ep_address (us_local u))) of
                    Inl err \<Rightarrow> (Inl err, l)
                  | Inr address \<Rightarrow>
                      let source = endpoint_new address (ep_port (us_local u));
                          datagram = udp_build source destination buf
                      in case send_from address (ep_address destination) PROTO_UDP datagram l of
                           (Inl err, l) \<Rightarrow> (Inl err, l)
                         | (Inr _, l) \<Rightarrow> (Inr (length buf), l)))"

section \<open>Sockets\<close>

datatype protocol = Tcp tcb | Udp udp_state

record inet_socket =
  sk_stream :: bool
  sk_inner :: protocol
  sk_detached :: bool

text \<open>
  \<open>nt_socket\<close> gives every socket made so far, \<open>nt_next\<close> the number of the next one, and \<open>nt_table\<close> is
  \<open>SOCKETS\<close>.  The clock and the random word a first connection would draw are inputs.
\<close>

record net_state =
  nt_link :: link_state
  nt_socket :: "nat \<Rightarrow> inet_socket"
  nt_next :: nat
  nt_table :: "nat list"
  nt_ephemeral :: u16
  nt_held_bytes :: nat
  nt_isn_secret :: u64
  nt_monotonic_ns :: nat
  nt_random :: u64

definition set_inner :: "nat \<Rightarrow> protocol \<Rightarrow> net_state \<Rightarrow> net_state" where
  "set_inner i p s = s\<lparr>nt_socket := (nt_socket s)(i := (nt_socket s i)\<lparr>sk_inner := p\<rparr>)\<rparr>"

text \<open>
  A connection runs in its surroundings; what it sent goes to \<open>ip::send_from\<close> in order, whose answer
  the connection does not look at.
\<close>

definition surroundings :: "net_state \<Rightarrow> tcp_env" where
  "surroundings s =
     \<lparr>te_ticks = lk_ticks (nt_link s), te_monotonic_ns = nt_monotonic_ns s, te_config = lk_config (nt_link s),
      te_held_bytes = nt_held_bytes s, te_isn_secret = nt_isn_secret s, te_random = nt_random s, te_sent = []\<rparr>"

fun send_all :: "(ipv4_addr \<times> ipv4_addr \<times> u8 \<times> bytes) list \<Rightarrow> link_state \<Rightarrow> link_state" where
  "send_all [] l = l"
| "send_all ((source, destination, protocol, payload) # rest) l =
     send_all rest (snd (send_from source destination protocol payload l))"

definition take_surroundings :: "tcp_env \<Rightarrow> net_state \<Rightarrow> net_state" where
  "take_surroundings e s =
     s\<lparr>nt_link := send_all (te_sent e) (nt_link s), nt_held_bytes := te_held_bytes e,
       nt_isn_secret := te_isn_secret e\<rparr>"

definition on_conn :: "nat \<Rightarrow> (tcb \<times> tcp_env \<Rightarrow> 'r \<times> tcb \<times> tcp_env) \<Rightarrow> net_state \<Rightarrow> 'r option \<times> net_state" where
  "on_conn i f s =
     (case sk_inner (nt_socket s i) of
        Udp _ \<Rightarrow> (None, s)
      | Tcp t \<Rightarrow>
          let (r, t', e) = f (t, surroundings s)
          in (Some r, take_surroundings e (set_inner i (Tcp t') s)))"

definition change_conn :: "nat \<Rightarrow> (tcb \<times> tcp_env \<Rightarrow> tcb \<times> tcp_env) \<Rightarrow> net_state \<Rightarrow> net_state" where
  "change_conn i f s = snd (on_conn i (\<lambda>te. ((), f te)) s)"

definition socket_new :: "bool \<Rightarrow> net_state \<Rightarrow> nat \<times> net_state" where
  "socket_new stream s =
     (let inner = (if stream then Tcp tcb_new else Udp udp_new)
      in (nt_next s, s\<lparr>nt_next := nt_next s + 1,
            nt_socket := (nt_socket s)(nt_next s := \<lparr>sk_stream = stream, sk_inner = inner, sk_detached = False\<rparr>)\<rparr>))"

definition local_endpoint :: "nat \<Rightarrow> net_state \<Rightarrow> endpoint" where
  "local_endpoint i s = (case sk_inner (nt_socket s i) of Tcp t \<Rightarrow> t_local t | Udp u \<Rightarrow> us_local u)"

definition peer_endpoint :: "nat \<Rightarrow> net_state \<Rightarrow> errno + endpoint" where
  "peer_endpoint i s =
     (case sk_inner (nt_socket s i) of
        Tcp t \<Rightarrow> if is_synchronised (t_state t) then Inr (t_remote t) else Inl ENOTCONN
      | Udp u \<Rightarrow> (case us_remote u of Some r \<Rightarrow> Inr r | None \<Rightarrow> Inl ENOTCONN))"

definition handshake_done :: "nat \<Rightarrow> net_state \<Rightarrow> bool" where
  "handshake_done i s = (case sk_inner (nt_socket s i) of Tcp t \<Rightarrow> is_synchronised (t_state t) | Udp _ \<Rightarrow> False)"

definition readable :: "nat \<Rightarrow> net_state \<Rightarrow> bool" where
  "readable i s =
     (case sk_inner (nt_socket s i) of
        Tcp t \<Rightarrow>
          if t_state t = Listen then \<exists>child \<in> set (t_children t). handshake_done child s
          else t_received t \<noteq> [] \<or> t_fin_received t \<or> t_error t \<noteq> None \<or> t_state t = Closed
      | Udp u \<Rightarrow> us_queue u \<noteq> [] \<or> us_read_shutdown u)"

definition writable :: "nat \<Rightarrow> net_state \<Rightarrow> bool" where
  "writable i s =
     (case sk_inner (nt_socket s i) of
        Tcp t \<Rightarrow>
          if t_state t = Established \<or> t_state t = CloseWait then length (t_pending t) < SEND_BUFFER
          else if t_state t = Closed then True
          else t_error t \<noteq> None
      | Udp _ \<Rightarrow> True)"

definition available :: "nat \<Rightarrow> net_state \<Rightarrow> nat" where
  "available i s =
     (case sk_inner (nt_socket s i) of
        Tcp t \<Rightarrow> length (t_received t)
      | Udp u \<Rightarrow> (case us_queue u of [] \<Rightarrow> 0 | (_, data) # _ \<Rightarrow> length data))"

definition hung_up :: "nat \<Rightarrow> net_state \<Rightarrow> bool" where
  "hung_up i s =
     (case sk_inner (nt_socket s i) of
        Tcp t \<Rightarrow> t_error t \<noteq> None \<or> t_state t = Closed \<or> t_state t = TimeWait \<or> t_state t = LastAck
      | Udp _ \<Rightarrow> False)"

definition is_listening :: "nat \<Rightarrow> net_state \<Rightarrow> bool" where
  "is_listening i s = (case sk_inner (nt_socket s i) of Tcp t \<Rightarrow> t_state t = Listen | Udp _ \<Rightarrow> False)"

definition take_error :: "nat \<Rightarrow> net_state \<Rightarrow> errno option \<times> net_state" where
  "take_error i s =
     (case sk_inner (nt_socket s i) of
        Tcp t \<Rightarrow> (t_error t, set_inner i (Tcp (t\<lparr>t_error := None\<rparr>)) s)
      | Udp u \<Rightarrow> (us_error u, set_inner i (Udp (u\<lparr>us_error := None\<rparr>)) s))"

section \<open>The table and the ports\<close>

definition socket_register :: "nat \<Rightarrow> net_state \<Rightarrow> net_state" where
  "socket_register i s = (if i \<in> set (nt_table s) then s else s\<lparr>nt_table := nt_table s @ [i]\<rparr>)"

definition socket_unregister :: "nat \<Rightarrow> net_state \<Rightarrow> net_state" where
  "socket_unregister i s = s\<lparr>nt_table := filter (\<lambda>j. j \<noteq> i) (nt_table s)\<rparr>"

definition matches_local :: "endpoint \<Rightarrow> endpoint \<Rightarrow> bool" where
  "matches_local bound at \<longleftrightarrow>
     ep_port bound = ep_port at \<and> (is_unspecified (ep_address bound) \<or> ep_address bound = ep_address at)"

definition stream_hit :: "endpoint \<Rightarrow> endpoint \<Rightarrow> inet_socket \<Rightarrow> bool" where
  "stream_hit at peer k \<longleftrightarrow> sk_stream k \<and>
     (case sk_inner k of
        Tcp t \<Rightarrow> t_state t \<noteq> Listen \<and> t_state t \<noteq> Closed \<and> t_remote t = peer \<and> matches_local (t_local t) at
      | Udp _ \<Rightarrow> False)"

definition lookup_stream :: "endpoint \<Rightarrow> endpoint \<Rightarrow> net_state \<Rightarrow> nat option" where
  "lookup_stream at peer s = List.find (\<lambda>i. stream_hit at peer (nt_socket s i)) (nt_table s)"

fun lookup_listener_from :: "endpoint \<Rightarrow> (nat \<Rightarrow> inet_socket) \<Rightarrow> nat list \<Rightarrow> nat option \<Rightarrow> nat option" where
  "lookup_listener_from at k [] best = best"
| "lookup_listener_from at k (i # is) best =
     (if \<not> sk_stream (k i) then lookup_listener_from at k is best
      else case sk_inner (k i) of
             Udp _ \<Rightarrow> lookup_listener_from at k is best
           | Tcp t \<Rightarrow>
               if t_state t \<noteq> Listen \<or> \<not> matches_local (t_local t) at then lookup_listener_from at k is best
               else if ep_address (t_local t) = ep_address at then Some i
               else lookup_listener_from at k is (if best = None then Some i else best))"

definition lookup_listener :: "endpoint \<Rightarrow> net_state \<Rightarrow> nat option" where
  "lookup_listener at s = lookup_listener_from at (nt_socket s) (nt_table s) None"

fun lookup_datagram_from ::
  "endpoint \<Rightarrow> endpoint \<Rightarrow> (nat \<Rightarrow> inet_socket) \<Rightarrow> nat list \<Rightarrow> nat option \<Rightarrow> nat option" where
  "lookup_datagram_from at peer k [] best = best"
| "lookup_datagram_from at peer k (i # is) best =
     (if sk_stream (k i) then lookup_datagram_from at peer k is best
      else case sk_inner (k i) of
             Tcp _ \<Rightarrow> lookup_datagram_from at peer k is best
           | Udp u \<Rightarrow>
               if \<not> us_bound u \<or> \<not> matches_local (us_local u) at then lookup_datagram_from at peer k is best
               else case us_remote u of
                      Some connected \<Rightarrow>
                        if connected \<noteq> peer then lookup_datagram_from at peer k is best else Some i
                    | None \<Rightarrow> lookup_datagram_from at peer k is (if best = None then Some i else best))"

definition lookup_datagram :: "endpoint \<Rightarrow> endpoint \<Rightarrow> net_state \<Rightarrow> nat option" where
  "lookup_datagram at peer s = lookup_datagram_from at peer (nt_socket s) (nt_table s) None"

definition EPHEMERAL_FIRST :: u16 where
  "EPHEMERAL_FIRST = 49152"

definition EPHEMERAL_LAST :: u16 where
  "EPHEMERAL_LAST = 65535"

definition holds_port :: "bool \<Rightarrow> u16 \<Rightarrow> inet_socket \<Rightarrow> bool" where
  "holds_port stream port k \<longleftrightarrow> sk_stream k = stream \<and> \<not> sk_detached k \<and>
     (case sk_inner k of
        Tcp t \<Rightarrow> t_bound t \<and> ep_port (t_local t) = port
      | Udp u \<Rightarrow> us_bound u \<and> ep_port (us_local u) = port)"

definition port_taken :: "bool \<Rightarrow> u16 \<Rightarrow> nat option \<Rightarrow> net_state \<Rightarrow> bool" where
  "port_taken stream port except s \<longleftrightarrow>
     (\<exists>i \<in> set (nt_table s). except \<noteq> Some i \<and> holds_port stream port (nt_socket s i))"

fun allocate_tries :: "nat \<Rightarrow> bool \<Rightarrow> net_state \<Rightarrow> (errno + u16) \<times> net_state" where
  "allocate_tries 0 stream s = (Inl EADDRINUSE, s)"
| "allocate_tries (Suc n) stream s =
     (let port = nt_ephemeral s;
          s = s\<lparr>nt_ephemeral := port + 1\<rparr>;
          (port, s) = (if port < EPHEMERAL_FIRST
                       then (EPHEMERAL_FIRST, s\<lparr>nt_ephemeral := EPHEMERAL_FIRST + 1\<rparr>) else (port, s))
      in if \<not> port_taken stream port None s then (Inr port, s) else allocate_tries n stream s)"

definition allocate_port :: "bool \<Rightarrow> net_state \<Rightarrow> (errno + u16) \<times> net_state" where
  "allocate_port stream s = allocate_tries (unat (EPHEMERAL_LAST - EPHEMERAL_FIRST)) stream s"

definition socket_bind :: "nat \<Rightarrow> endpoint \<Rightarrow> net_state \<Rightarrow> (errno + unit) \<times> net_state" where
  "socket_bind i requested s =
     (let a = ep_address requested in
      if \<not> (is_unspecified a \<or> is_broadcast a \<or> is_loopback a \<or> holds_address a (nt_link s))
      then (Inl EADDRNOTAVAIL, s)
      else
        let stream = sk_stream (nt_socket s i);
            (port, s) = (if ep_port requested = 0 then allocate_port stream s
                         else if port_taken stream (ep_port requested) (Some i) s then (Inl EADDRINUSE, s)
                         else (Inr (ep_port requested), s))
        in case port of
             Inl err \<Rightarrow> (Inl err, s)
           | Inr port \<Rightarrow>
               let at = endpoint_new a port in
               case sk_inner (nt_socket s i) of
                 Tcp t \<Rightarrow>
                   if t_state t \<noteq> Closed \<or> t_bound t then (Inl EINVAL, s)
                   else (Inr (), socket_register i (set_inner i (Tcp (t\<lparr>t_local := at, t_bound := True\<rparr>)) s))
               | Udp u \<Rightarrow>
                   if us_bound u then (Inl EINVAL, s)
                   else (Inr (), socket_register i (set_inner i (Udp (u\<lparr>us_local := at, us_bound := True\<rparr>)) s)))"

definition bind_ephemeral :: "nat \<Rightarrow> net_state \<Rightarrow> (errno + unit) \<times> net_state" where
  "bind_ephemeral i s =
     (if ep_port (local_endpoint i s) \<noteq> 0 then (Inr (), s) else socket_bind i ENDPOINT_UNSPECIFIED s)"

section \<open>Packets to sockets\<close>

definition udp_receive :: "ipv4_addr \<Rightarrow> ipv4_addr \<Rightarrow> bytes \<Rightarrow> net_state \<Rightarrow> net_state" where
  "udp_receive source destination datagram s =
     (case udp_accept source destination datagram of
        None \<Rightarrow> s
      | Some (sender, to, data) \<Rightarrow>
          (case lookup_datagram to sender s of
             None \<Rightarrow> s
           | Some i \<Rightarrow>
               (case sk_inner (nt_socket s i) of
                  Udp u \<Rightarrow> set_inner i (Udp (udp_enqueue sender data u)) s
                | Tcp _ \<Rightarrow> s)))"

definition send_reset :: "endpoint \<Rightarrow> endpoint \<Rightarrow> segment \<Rightarrow> link_state \<Rightarrow> link_state" where
  "send_reset at peer seg l =
     (let (sequence, acknowledgement, flags) =
            (if sg_flags seg AND ACK \<noteq> 0 then (sg_acknowledgement seg, 0, RST)
             else (0, sg_sequence seg + word_of_nat (segment_length seg), RST OR ACK))
      in case (if is_unspecified (ep_address at) then source_for (lk_config l) (ep_address peer)
               else Inr (ep_address at)) of
           Inl _ \<Rightarrow> l
         | Inr address \<Rightarrow>
             let source = endpoint_new address (ep_port at);
                 reply = segment_build source peer sequence acknowledgement flags 0 None []
             in snd (send_from (ep_address source) (ep_address peer) PROTO_TCP reply l))"

definition accept_connection :: "nat \<Rightarrow> endpoint \<Rightarrow> endpoint \<Rightarrow> segment \<Rightarrow> net_state \<Rightarrow> net_state" where
  "accept_connection listener at peer seg s =
     (let has_room = (case sk_inner (nt_socket s listener) of
            Tcp t \<Rightarrow> length (t_children t) < t_backlog t
          | Udp _ \<Rightarrow> False)
      in if \<not> has_room then s
         else
           let (child, s) = socket_new True s;
               s = change_conn child
                     (\<lambda>(t, e). accept_open seg (t\<lparr>t_local := at, t_remote := peer, t_bound := True\<rparr>, e)) s;
               s = socket_register child s;
               s = change_conn listener (\<lambda>(t, e). (t\<lparr>t_children := t_children t @ [child]\<rparr>, e)) s
           in change_conn child send_syn_ack s)"

definition tcp_receive :: "ipv4_addr \<Rightarrow> ipv4_addr \<Rightarrow> bytes \<Rightarrow> net_state \<Rightarrow> net_state" where
  "tcp_receive source destination bs s =
     (case segment_parse bs of
        None \<Rightarrow> s
      | Some seg \<Rightarrow>
          if net_fold (net_sum bs (pseudo_sum source destination PROTO_TCP (length bs))) \<noteq> 0 then s
          else if is_broadcast destination \<or> is_multicast destination \<or>
            (case lk_config (nt_link s) of Some c \<Rightarrow> destination = broadcast c | None \<Rightarrow> False) then s
          else
            let at = endpoint_new destination (sg_destination_port seg);
                peer = endpoint_new source (sg_source_port seg);
                refuse = (if sg_flags seg AND RST = 0
                          then s\<lparr>nt_link := send_reset at peer seg (nt_link s)\<rparr> else s)
            in case lookup_stream at peer s of
                 Some i \<Rightarrow> snd (on_conn i (on_segment seg) s)
               | None \<Rightarrow>
                   if sg_flags seg AND SYN \<noteq> 0 \<and> sg_flags seg AND (ACK OR RST) = 0 then
                     (case lookup_listener at s of
                        Some listener \<Rightarrow> accept_connection listener at peer seg s
                      | None \<Rightarrow> refuse)
                   else refuse)"

definition hand_up :: "upcall option \<Rightarrow> net_state \<Rightarrow> net_state" where
  "hand_up up s =
     (case up of
        None \<Rightarrow> s
      | Some (To_Udp source destination payload) \<Rightarrow> udp_receive source destination payload s
      | Some (To_Tcp source destination payload) \<Rightarrow> tcp_receive source destination payload s)"

fun deliver_tries :: "nat \<Rightarrow> net_state \<Rightarrow> net_state" where
  "deliver_tries 0 s = s"
| "deliver_tries (Suc n) s =
     (case lk_loopback (nt_link s) of
        [] \<Rightarrow> s
      | datagram # queue \<Rightarrow>
          let l = (nt_link s)\<lparr>lk_loopback := queue\<rparr>;
              (up, l) = ip_receive datagram (net_mac l) Loopback l
          in deliver_tries n (hand_up up (s\<lparr>nt_link := l\<rparr>)))"

definition deliver_loopback :: "net_state \<Rightarrow> net_state" where
  "deliver_loopback s = deliver_tries LOOPBACK_LIMIT s"

definition net_poll :: "net_state \<Rightarrow> net_state" where
  "net_poll s = (if lk_loopback (nt_link s) \<noteq> [] then deliver_loopback s else s)"

section \<open>Timers\<close>

definition tcp_next_deadline :: "net_state \<Rightarrow> nat" where
  "tcp_next_deadline s =
     fold (\<lambda>i earliest. if sk_stream (nt_socket s i)
                        then case sk_inner (nt_socket s i) of
                               Tcp t \<Rightarrow> min earliest (tcb_next_deadline t)
                             | Udp _ \<Rightarrow> earliest
                        else earliest)
       (nt_table s) U64_MAX"

fun tick_sockets :: "nat list \<Rightarrow> net_state \<Rightarrow> nat list \<Rightarrow> nat list \<times> net_state" where
  "tick_sockets [] s finished = (finished, s)"
| "tick_sockets (i # is) s finished =
     (if \<not> sk_stream (nt_socket s i) then tick_sockets is s finished
      else
        let s = snd (on_conn i (on_timer (lk_ticks (nt_link s))) s);
            over = (case sk_inner (nt_socket s i) of Tcp t \<Rightarrow> t_state t = Closed | Udp _ \<Rightarrow> False)
        in tick_sockets is s (if over \<and> sk_detached (nt_socket s i) then finished @ [i] else finished))"

definition tcp_on_tick :: "net_state \<Rightarrow> net_state" where
  "tcp_on_tick s =
     (let (finished, s) = tick_sockets (nt_table s) s [] in fold socket_unregister finished s)"

text \<open>
  \<open>tick\<close>, with the DHCP client and the remote console, which follow, as one function of the state,
  and \<open>receive\<close>.
\<close>

definition net_tick :: "(net_state \<Rightarrow> net_state) \<Rightarrow> net_state \<Rightarrow> net_state" where
  "net_tick clients s =
     (let s = deliver_loopback s;
          s = s\<lparr>nt_link := arp_expire (nt_link s)\<rparr>;
          s = tcp_on_tick s
      in clients s)"

definition net_receive :: "(net_state \<Rightarrow> net_state) \<Rightarrow> bytes \<Rightarrow> net_state \<Rightarrow> net_state" where
  "net_receive clients frame s =
     (let (up, looked, l) = frame_receive frame (nt_link s);
          s = hand_up up (s\<lparr>nt_link := l\<rparr>)
      in if looked then net_tick clients s else s)"

section \<open>What the system calls ask\<close>

definition socket_listen :: "nat \<Rightarrow> nat \<Rightarrow> net_state \<Rightarrow> (errno + unit) \<times> net_state" where
  "socket_listen i backlog s =
     (if \<not> sk_stream (nt_socket s i) then (Inl EOPNOTSUPP, s)
      else case bind_ephemeral i s of
             (Inl err, s) \<Rightarrow> (Inl err, s)
           | (Inr _, s) \<Rightarrow>
               (case sk_inner (nt_socket s i) of
                  Udp _ \<Rightarrow> (Inl EOPNOTSUPP, s)
                | Tcp t \<Rightarrow>
                    if t_state t \<noteq> Closed \<and> t_state t \<noteq> Listen then (Inl EINVAL, s)
                    else (Inr (), set_inner i (Tcp (t\<lparr>t_state := Listen, t_backlog := nat_clamp 1 128 backlog\<rparr>)) s)))"

text \<open>The children of a listener that are dead, and the first that is connected.\<close>

fun sort_children :: "(nat \<Rightarrow> inet_socket) \<Rightarrow> nat list \<Rightarrow> nat list \<Rightarrow> nat option \<Rightarrow> errno + (nat list \<times> nat option)" where
  "sort_children k [] dead ready = Inr (dead, ready)"
| "sort_children k (child # children) dead ready =
     (case sk_inner (k child) of
        Udp _ \<Rightarrow> Inl EOPNOTSUPP
      | Tcp t \<Rightarrow>
          if t_state t = Closed then sort_children k children (dead @ [child]) ready
          else if is_synchronised (t_state t) \<and> ready = None then sort_children k children dead (Some child)
          else sort_children k children dead ready)"

definition accept_ready :: "nat \<Rightarrow> net_state \<Rightarrow> (errno + nat option) \<times> net_state" where
  "accept_ready i s =
     (let s = net_poll s in
      case sk_inner (nt_socket s i) of
        Udp _ \<Rightarrow> (Inl EOPNOTSUPP, s)
      | Tcp t \<Rightarrow>
          if t_state t \<noteq> Listen then (Inl EINVAL, s)
          else case sort_children (nt_socket s) (t_children t) [] None of
                 Inl err \<Rightarrow> (Inl err, s)
               | Inr (dead, ready) \<Rightarrow>
                   let s = (if dead \<noteq> [] \<or> ready \<noteq> None
                            then set_inner i (Tcp (t\<lparr>t_children :=
                                   filter (\<lambda>c. c \<notin> set dead \<and> ready \<noteq> Some c) (t_children t)\<rparr>)) s
                            else s)
                   in (Inr ready, fold socket_unregister dead s))"

definition socket_connect :: "nat \<Rightarrow> endpoint \<Rightarrow> net_state \<Rightarrow> (errno + unit) \<times> net_state" where
  "socket_connect i peer s =
     (if ep_port peer = 0 \<or> is_unspecified (ep_address peer) then (Inl EINVAL, s)
      else if \<not> sk_stream (nt_socket s i) then
        case bind_ephemeral i s of
          (Inl err, s) \<Rightarrow> (Inl err, s)
        | (Inr _, s) \<Rightarrow>
            (case sk_inner (nt_socket s i) of
               Udp u \<Rightarrow> (Inr (), set_inner i (Udp (u\<lparr>us_remote := Some peer\<rparr>)) s)
             | Tcp _ \<Rightarrow> (Inr (), s))
      else if is_broadcast (ep_address peer) \<or> is_multicast (ep_address peer) then (Inl ENETUNREACH, s)
      else case source_for (lk_config (nt_link s)) (ep_address peer) of
             Inl err \<Rightarrow> (Inl err, s)
           | Inr source \<Rightarrow>
               (case bind_ephemeral i s of
                  (Inl err, s) \<Rightarrow> (Inl err, s)
                | (Inr _, s) \<Rightarrow>
                    (case sk_inner (nt_socket s i) of
                       Udp _ \<Rightarrow> (Inl EOPNOTSUPP, s)
                     | Tcp t \<Rightarrow>
                         if t_state t = SynSent then (Inl EALREADY, s)
                         else if t_state t = Listen then (Inl EINVAL, s)
                         else if t_state t \<noteq> Closed then (Inl EISCONN, s)
                         else
                           let port = ep_port (local_endpoint i s);
                               s = change_conn i
                                     (\<lambda>(t, e). tcp_open (t\<lparr>t_local := endpoint_new source port, t_remote := peer\<rparr>, e)) s
                           in (Inr (), net_poll s))))"

definition socket_send :: "nat \<Rightarrow> bytes \<Rightarrow> endpoint option \<Rightarrow> net_state \<Rightarrow> (errno + nat) \<times> net_state" where
  "socket_send i buf to s =
     (case sk_inner (nt_socket s i) of
        Tcp _ \<Rightarrow>
          (case on_conn i (tcp_write buf) s of
             (Some r, s) \<Rightarrow> (r, s)
           | (None, s) \<Rightarrow> (Inl EOPNOTSUPP, s))
      | Udp u \<Rightarrow> (let (r, l) = udp_send buf to u (nt_link s) in (r, s\<lparr>nt_link := l\<rparr>)))"

definition receive_into :: "nat \<Rightarrow> nat \<Rightarrow> bool \<Rightarrow> net_state \<Rightarrow> (errno + received) \<times> net_state" where
  "receive_into i len peek s =
     (case sk_inner (nt_socket s i) of
        Tcp _ \<Rightarrow>
          (case on_conn i (tcp_read len peek) s of
             (Some (Inr bs), s) \<Rightarrow> (Inr \<lparr>rc_taken = bs, rc_length = length bs, rc_from = None\<rparr>, s)
           | (Some (Inl err), s) \<Rightarrow> (Inl err, s)
           | (None, s) \<Rightarrow> (Inl EOPNOTSUPP, s))
      | Udp u \<Rightarrow> (let (r, u) = udp_take len peek u in (r, set_inner i (Udp u) s)))"

definition connecting :: "nat \<Rightarrow> net_state \<Rightarrow> bool" where
  "connecting i s =
     (case sk_inner (nt_socket s i) of
        Tcp t \<Rightarrow> t_state t = SynSent \<or> t_state t = SynReceived
      | Udp _ \<Rightarrow> False)"

definition connection_progress :: "nat \<Rightarrow> net_state \<Rightarrow> (errno + bool) \<times> net_state" where
  "connection_progress i s =
     (case sk_inner (nt_socket s i) of
        Tcp t \<Rightarrow>
          if t_state t = SynSent \<or> t_state t = SynReceived then (Inr False, s)
          else if t_state t = Closed
          then (Inl (case t_error t of Some err \<Rightarrow> err | None \<Rightarrow> ECONNREFUSED),
                set_inner i (Tcp (t\<lparr>t_error := None\<rparr>)) s)
          else if t_state t = Listen then (Inl EINVAL, s)
          else (Inr True, s)
      | Udp u \<Rightarrow> (Inr (us_remote u \<noteq> None), s))"

definition socket_abort :: "nat \<Rightarrow> net_state \<Rightarrow> net_state" where
  "socket_abort i s = change_conn i tcp_abort s"

definition socket_shutdown :: "nat \<Rightarrow> bool \<Rightarrow> bool \<Rightarrow> net_state \<Rightarrow> (errno + unit) \<times> net_state" where
  "socket_shutdown i reading writing s =
     (case sk_inner (nt_socket s i) of
        Tcp t \<Rightarrow>
          if \<not> is_synchronised (t_state t) \<and> t_state t \<noteq> SynSent then (Inl ENOTCONN, s)
          else
            let s = (if reading then set_inner i (Tcp (t\<lparr>t_read_shutdown := True\<rparr>)) s else s);
                s = (if writing then change_conn i shutdown_write s else s)
            in (Inr (), s)
      | Udp u \<Rightarrow>
          let u = (if reading then udp_shutdown_read u else u);
              u = (if writing then u\<lparr>us_write_shutdown := True\<rparr> else u)
          in (Inr (), set_inner i (Udp u) s))"

definition detach :: "nat \<Rightarrow> net_state \<Rightarrow> net_state" where
  "detach i s = s\<lparr>nt_socket := (nt_socket s)(i := (nt_socket s i)\<lparr>sk_detached := True\<rparr>)\<rparr>"

text \<open>What closing does to the connection itself; the children it had are the result.\<close>

definition close_conn :: "tcb \<times> tcp_env \<Rightarrow> nat list \<times> tcb \<times> tcp_env" where
  "close_conn te =
     (let (t, e) = te;
          children = t_children t;
          (t, e) = tcp_abandon (t\<lparr>t_children := []\<rparr>, e)
      in (children,
          if t_state t = Listen then (t\<lparr>t_state := Closed\<rparr>, e)
          else if t_received t \<noteq> [] then tcp_abort (t, e)
          else shutdown_write (t, e)))"

fun close_children :: "nat list \<Rightarrow> net_state \<Rightarrow> net_state" where
  "close_children [] s = s"
| "close_children (child # children) s =
     close_children children (socket_unregister child (change_conn child tcp_abort (detach child s)))"

definition socket_close :: "nat \<Rightarrow> net_state \<Rightarrow> net_state" where
  "socket_close i s =
     (let s = detach i s in
      if \<not> sk_stream (nt_socket s i) then socket_unregister i s
      else
        let (children, s) = on_conn i close_conn s;
            s = close_children (case children of Some cs \<Rightarrow> cs | None \<Rightarrow> []) s;
            finished = (case sk_inner (nt_socket s i) of Tcp t \<Rightarrow> t_state t = Closed | Udp _ \<Rightarrow> True);
            s = (if finished then socket_unregister i s else s)
        in net_poll s)"

end
