(* ===== verification/Net_Link_Correct.thy ===== *)
theory Net_Link_Correct
  imports Net_Link
begin

text \<open>
  The invariant of the address cache and what leaves by the card: every frame carries the address
  this machine holds at the moment it leaves, also a frame that waited for an answer.
\<close>

section \<open>What this machine may send\<close>

definition own_datagram :: "net_config option \<Rightarrow> bytes \<Rightarrow> bool" where
  "own_datagram cfg d \<longleftrightarrow>
     (\<exists>ident source destination protocol payload.
        d = ip_build ident source destination protocol payload \<and> 20 + length payload \<le> MTU \<and>
        (case cfg of
           Some c \<Rightarrow> source = cf_address c
         | None \<Rightarrow> is_unspecified source \<and> is_broadcast destination))"

definition own_frame :: "link_state \<Rightarrow> bytes \<Rightarrow> bool" where
  "own_frame s f \<longleftrightarrow>
     (\<exists>mac d. length mac = 6 \<and> f = ether_build mac (net_mac s) ETHERTYPE_IPV4 d \<and> own_datagram (lk_config s) d) \<or>
     (\<exists>mac operation target_mac target. length mac = 6 \<and> length target_mac = 6 \<and>
        f = ether_build mac (net_mac s) ETHERTYPE_ARP
          (arp_build operation (net_mac s) (case lk_config s of Some c \<Rightarrow> cf_address c | None \<Rightarrow> 0)
             target_mac target))"

text \<open>What sending changes: the counters, and the frames the card took, each of them own.\<close>

definition sends :: "link_state \<Rightarrow> link_state \<Rightarrow> bool" where
  "sends s s' \<longleftrightarrow> lk_config s' = lk_config s \<and> lk_card s' = lk_card s \<and>
     (\<exists>fs. lk_wire s' = lk_wire s @ fs \<and> (\<forall>f \<in> set fs. own_frame s f))"

lemma sends_refl [simp]: "sends s s"
  by (simp add: sends_def)

lemma own_frame_cong: "lk_config s' = lk_config s \<Longrightarrow> lk_card s' = lk_card s \<Longrightarrow> own_frame s' f = own_frame s f"
  by (simp add: own_frame_def net_mac_def)

lemma sends_trans [trans]:
  assumes "sends s t" and "sends t u"
  shows "sends s u"
proof -
  have "own_frame t f = own_frame s f" for f
    using assms(1) by (intro own_frame_cong) (simp_all add: sends_def)
  then show ?thesis
    using assms unfolding sends_def by (metis UnE append.assoc set_append)
qed

section \<open>The cache\<close>

definition entry_ok :: "net_config option \<Rightarrow> arp_entry \<Rightarrow> bool" where
  "entry_ok cfg en \<longleftrightarrow>
     (case ae_mac en of
        Some mac \<Rightarrow>
          length mac = 6 \<and> \<not> is_group mac \<and> \<not> is_unspecified (ae_address en) \<and> ae_queued en = [] \<and>
          (\<forall>c. cfg = Some c \<longrightarrow> ae_address en \<noteq> cf_address c)
      | None \<Rightarrow>
          1 \<le> ae_requests en \<and> ae_requests en \<le> MAX_REQUESTS \<and>
          ae_queued en \<noteq> [] \<and> length (ae_queued en) \<le> MAX_QUEUED \<and>
          (\<forall>d \<in> set (ae_queued en). own_datagram cfg d))"

definition arp_ok :: "net_config option \<Rightarrow> arp_entry list \<Rightarrow> bool" where
  "arp_ok cfg es \<longleftrightarrow> distinct (map ae_address es) \<and> length es \<le> MAX_ENTRIES \<and> (\<forall>en \<in> set es. entry_ok cfg en)"

definition link_ok :: "link_state \<Rightarrow> bool" where
  "link_ok s \<longleftrightarrow> arp_ok (lk_config s) (lk_arp s) \<and> length (lk_loopback s) \<le> LOOPBACK_LIMIT \<and>
     length (net_mac s) = 6"

lemma find_entry_some: "find_entry a es = Some en \<Longrightarrow> en \<in> set es \<and> ae_address en = a"
  by (induction es) (auto split: if_splits)

lemma find_entry_none: "find_entry a es = None \<longleftrightarrow> a \<notin> ae_address ` set es"
  by (induction es) (auto split: if_splits)

lemma change_entry_addresses:
  "(\<And>en. ae_address (f en) = ae_address en) \<Longrightarrow> map ae_address (change_entry a f es) = map ae_address es"
  by (induction es) auto

lemma change_entry_set:
  assumes "find_entry a es = Some en"
  shows "set (change_entry a f es) \<subseteq> insert (f en) (set es)"
  using assms by (induction es) (auto split: if_splits)

lemma change_entry_ok:
  assumes "arp_ok cfg es" and "find_entry a es = Some en" and "entry_ok cfg (f en)"
    and "\<And>en. ae_address (f en) = ae_address en"
  shows "arp_ok cfg (change_entry a f es)"
proof -
  have "map ae_address (change_entry a f es) = map ae_address es"
    by (rule change_entry_addresses [OF assms(4)])
  moreover from this have "length (change_entry a f es) = length es"
    by (metis length_map)
  ultimately show ?thesis
    using assms change_entry_set [OF assms(2), of f] by (auto simp: arp_ok_def)
qed

lemma oldest_from_bound:
  "oldest_from es i b = Some k \<Longrightarrow> (\<And>j d. b = Some (j, d) \<Longrightarrow> j < i) \<Longrightarrow> k < i + length es"
proof (induction es arbitrary: i b)
  case (Cons en es)
  let ?b = "if (case b of Some (_, deadline) \<Rightarrow> ae_deadline en < deadline | None \<Rightarrow> True)
    then Some (i, ae_deadline en) else b"
  have "j < Suc i" if "?b = Some (j, d)" for j d
    using that Cons.prems(2) by (cases "case b of Some (_, deadline) \<Rightarrow> ae_deadline en < deadline | None \<Rightarrow> True")
      (simp_all add: less_SucI)
  then have "k < Suc i + length es"
    using Cons.IH [of "Suc i" ?b] Cons.prems(1) by simp
  then show ?case by simp
qed auto

lemma oldest_some: "es \<noteq> [] \<Longrightarrow> \<exists>k < length es. oldest es = Some k"
proof -
  have some: "b \<noteq> None \<or> es \<noteq> [] \<Longrightarrow> oldest_from es i b \<noteq> None" for es i b
    by (induction es arbitrary: i b) (auto split: if_splits option.splits)
  assume "es \<noteq> []"
  then obtain k where "oldest es = Some k"
    using some [of None es 0] by (auto simp: oldest_def)
  then show ?thesis
    using oldest_from_bound [of es 0 None k] by (auto simp: oldest_def)
qed

lemma make_room_ok:
  assumes "arp_ok cfg es"
  shows "length (make_room es) < MAX_ENTRIES" and "set (make_room es) \<subseteq> set es"
    and "distinct (map ae_address (make_room es))"
proof -
  have "length (make_room es) < MAX_ENTRIES \<and> set (make_room es) \<subseteq> set es \<and> distinct (map ae_address (make_room es))"
  proof (cases "length es \<ge> MAX_ENTRIES")
    case True
    then have "es \<noteq> []" by (auto simp: MAX_ENTRIES_def)
    then obtain k where k: "k < length es" "oldest es = Some k" using oldest_some by blast
    have split: "es = take k es @ es ! k # drop (k + 1) es"
      using k(1) by (simp add: id_take_nth_drop)
    have "distinct (map ae_address (take k es @ es ! k # drop (k + 1) es))"
      using assms split by (metis arp_ok_def)
    then have "distinct (map ae_address (take k es @ drop (k + 1) es))"
      by auto
    moreover have "set (take k es @ drop (k + 1) es) \<subseteq> set es"
      using set_take_subset [of k es] set_drop_subset [of "k + 1" es] by auto
    ultimately show ?thesis
      using True k assms by (auto simp: make_room_def arp_ok_def)
  qed (use assms in \<open>auto simp: make_room_def arp_ok_def\<close>)
  then show "length (make_room es) < MAX_ENTRIES" "set (make_room es) \<subseteq> set es"
    "distinct (map ae_address (make_room es))" by simp_all
qed

lemma add_entry_ok:
  assumes "arp_ok cfg es" and "find_entry (ae_address en) es = None" and "entry_ok cfg en"
  shows "arp_ok cfg (make_room es @ [en])"
proof -
  note room = make_room_ok [OF assms(1)]
  have "ae_address en \<notin> ae_address ` set (make_room es)"
    using assms(2) room(2) by (auto simp: find_entry_none)
  then show ?thesis
    using assms room by (auto simp: arp_ok_def)
qed

section \<open>Sending\<close>

lemma transmit_sends:
  assumes "own_frame s f" and "transmit f s = (r, s')"
  shows "sends s s'" and "lk_arp s' = lk_arp s" and "lk_loopback s' = lk_loopback s"
proof -
  define t where "t = s\<lparr>lk_sent := snd (lost (lk_loss s) (lk_sent s))\<rparr>"
  have t: "lk_config t = lk_config s" "lk_card t = lk_card s" "lk_wire t = lk_wire s" "lk_arp t = lk_arp s"
    "lk_loopback t = lk_loopback s"
    by (simp_all add: t_def)
  have "s' = t \<or> s' = t\<lparr>lk_wire := lk_wire t @ [f]\<rparr>"
    using assms(2) unfolding t_def transmit_def Let_def
    by (auto split: prod.splits if_splits option.splits)
  then show "sends s s'" "lk_arp s' = lk_arp s" "lk_loopback s' = lk_loopback s"
    using assms(1) t by (auto simp: sends_def)
qed

lemma transmit_to_sends:
  assumes "length mac = 6" and "own_datagram (lk_config s) d" and "transmit_to mac ETHERTYPE_IPV4 d s = (r, s')"
  shows "sends s s'" and "lk_arp s' = lk_arp s" and "lk_loopback s' = lk_loopback s"
  using transmit_sends [of s] assms unfolding transmit_to_def own_frame_def by blast+

lemma net_mac_cong: "lk_card s' = lk_card s \<Longrightarrow> net_mac s' = net_mac s"
  by (simp add: net_mac_def)

lemma link_ok_sends:
  assumes "link_ok s" and "sends s s'" and "lk_arp s' = lk_arp s" and "lk_loopback s' = lk_loopback s"
  shows "link_ok s'"
  using assms net_mac_cong [of s' s] by (simp add: link_ok_def sends_def)

lemma transmit_all_sends:
  assumes "length mac = 6"
  shows "\<forall>d \<in> set ds. own_datagram (lk_config s) d \<Longrightarrow>
    sends s (transmit_all mac ds s) \<and> lk_arp (transmit_all mac ds s) = lk_arp s \<and>
    lk_loopback (transmit_all mac ds s) = lk_loopback s"
proof (induction ds arbitrary: s)
  case (Cons d ds)
  obtain r s1 where s1: "transmit_to mac ETHERTYPE_IPV4 d s = (r, s1)" by force
  have "sends s s1" "lk_arp s1 = lk_arp s" "lk_loopback s1 = lk_loopback s"
    using transmit_to_sends [OF assms _ s1] Cons.prems by simp_all
  then show ?case
    using Cons.IH [of s1] Cons.prems s1 sends_trans [of s s1] sends_def [of s s1] by auto
qed simp

lemma arp_request_sends:
  assumes "arp_request a s = (r, s')"
  shows "sends s s'" and "lk_arp s' = lk_arp s" and "lk_loopback s' = lk_loopback s"
proof -
  let ?p = "arp_build OP_REQUEST (net_mac s) (case lk_config s of Some c \<Rightarrow> cf_address c | None \<Rightarrow> 0) (replicate 6 0) a"
  have "own_frame s (ether_build MAC_BROADCAST (net_mac s) ETHERTYPE_ARP ?p)"
    unfolding own_frame_def by (intro disjI2 exI [of _ MAC_BROADCAST] exI conjI) (simp_all add: MAC_BROADCAST_def)
  then show "sends s s'" "lk_arp s' = lk_arp s" "lk_loopback s' = lk_loopback s"
    using transmit_sends [of s] assms unfolding arp_request_def Let_def transmit_to_def by blast+
qed

lemma learn_ok:
  assumes ok: "link_ok s" and mac: "length mac = 6"
  shows "link_ok (learn a mac s) \<and> sends s (learn a mac s)"
proof (cases "is_unspecified a \<or> is_group mac \<or> holds_address a s")
  case True
  then show ?thesis using ok by (auto simp: learn_def)
next
  case False
  let ?cfg = "lk_config s"
  have other: "a \<noteq> cf_address c" if "?cfg = Some c" for c
    using False that by (auto simp: holds_address_def)
  have arp: "arp_ok ?cfg (lk_arp s)" using ok by (simp add: link_ok_def)
  show ?thesis
  proof (cases "find_entry a (lk_arp s)")
    case None
    let ?en = "\<lparr>ae_address = a, ae_mac = Some mac, ae_deadline = lk_ticks s + ENTRY_LIFETIME,
      ae_requests = 0, ae_queued = []\<rparr>"
    have "arp_ok ?cfg (make_room (lk_arp s) @ [?en])"
      by (rule add_entry_ok [OF arp]) (use None False mac other in \<open>simp_all add: entry_ok_def\<close>)
    then show ?thesis
      using False None ok by (simp add: learn_def link_ok_def sends_def net_mac_def)
  next
    case (Some en)
    let ?f = "\<lambda>en. en\<lparr>ae_mac := Some mac, ae_deadline := lk_ticks s + ENTRY_LIFETIME, ae_requests := 0,
      ae_queued := []\<rparr>"
    let ?t = "s\<lparr>lk_arp := change_entry a ?f (lk_arp s)\<rparr>"
    have en: "en \<in> set (lk_arp s)" "ae_address en = a" using find_entry_some [OF Some] by simp_all
    have "arp_ok ?cfg (change_entry a ?f (lk_arp s))"
      by (rule change_entry_ok [OF arp Some]) (use False mac other en in \<open>simp_all add: entry_ok_def\<close>)
    then have t: "link_ok ?t" using ok by (simp add: link_ok_def net_mac_def)
    have st: "sends s ?t" by (simp add: sends_def)
    have "\<forall>d \<in> set (ae_queued en). own_datagram ?cfg d"
      using arp en(1) by (fastforce simp: arp_ok_def entry_ok_def split: option.splits)
    then have "sends ?t (transmit_all mac (ae_queued en) ?t) \<and>
        lk_arp (transmit_all mac (ae_queued en) ?t) = lk_arp ?t \<and>
        lk_loopback (transmit_all mac (ae_queued en) ?t) = lk_loopback ?t"
      using transmit_all_sends [OF mac, of "ae_queued en" ?t] by simp
    moreover have "learn a mac s = transmit_all mac (ae_queued en) ?t"
      using False Some by (simp add: learn_def)
    ultimately show ?thesis
      using link_ok_sends [OF t] sends_trans [OF st] by metis
  qed
qed

lemma send_datagram_ok:
  assumes ok: "link_ok s" and own: "own_datagram (lk_config s) d" and r: "send_datagram hop d s = (r, s')"
  shows "link_ok s' \<and> sends s s'"
proof -
  let ?cfg = "lk_config s"
  have arp: "arp_ok ?cfg (lk_arp s)" using ok by (simp add: link_ok_def)
  have direct: "link_ok s' \<and> sends s s'" if "transmit_to mac ETHERTYPE_IPV4 d s = (r, s')" "length mac = 6" for mac
    using transmit_to_sends [OF that(2) own that(1)] link_ok_sends [OF ok] by blast
  have asked: "link_ok s' \<and> sends s s'" if "arp_request hop (s\<lparr>lk_arp := cache\<rparr>) = (r, s')" "arp_ok ?cfg cache" for cache
  proof -
    have t: "link_ok (s\<lparr>lk_arp := cache\<rparr>)" "sends s (s\<lparr>lk_arp := cache\<rparr>)"
      using ok that(2) by (simp_all add: link_ok_def sends_def net_mac_def)
    then show ?thesis
      using arp_request_sends [OF that(1)] link_ok_sends [OF t(1)] sends_trans [OF t(2)] by blast
  qed
  consider (wide) "is_broadcast hop \<or> is_multicast hop"
    | (known) mac where "\<not> is_broadcast hop" "\<not> is_multicast hop" "arp_lookup hop (lk_arp s) = Some mac"
    | (waiting) en where "\<not> is_broadcast hop" "\<not> is_multicast hop" "arp_lookup hop (lk_arp s) = None"
        "find_entry hop (lk_arp s) = Some en"
    | (new) "\<not> is_broadcast hop" "\<not> is_multicast hop" "find_entry hop (lk_arp s) = None"
    by (cases "find_entry hop (lk_arp s)"; cases "arp_lookup hop (lk_arp s)") blast+
  then show ?thesis
  proof cases
    case wide
    then show ?thesis
      using r direct by (auto simp: send_datagram_def Let_def MAC_BROADCAST_def split: if_splits)
  next
    case (known mac)
    then obtain en where "en \<in> set (lk_arp s)" "ae_mac en = Some mac"
      using find_entry_some by (auto simp: arp_lookup_def split: option.splits)
    then have "length mac = 6" using arp by (auto simp: arp_ok_def entry_ok_def)
    then show ?thesis using r known direct by (simp add: send_datagram_def)
  next
    case (waiting en)
    have en: "en \<in> set (lk_arp s)" "ae_mac en = None"
      using waiting find_entry_some by (auto simp: arp_lookup_def)
    then have eok: "entry_ok ?cfg en" using arp by (simp add: arp_ok_def)
    have "arp_ok ?cfg (change_entry hop (\<lambda>en. en\<lparr>ae_queued := ae_queued en @ [d]\<rparr>) (lk_arp s))"
      if "length (ae_queued en) < MAX_QUEUED"
      by (rule change_entry_ok [OF arp waiting(4)])
        (use eok en(2) own that in \<open>auto simp: entry_ok_def\<close>)
    then show ?thesis
      using r waiting asked arp by (auto simp: send_datagram_def Let_def split: if_splits)
  next
    case new
    let ?en = "\<lparr>ae_address = hop, ae_mac = None, ae_deadline = lk_ticks s + REQUEST_INTERVAL,
      ae_requests = 1, ae_queued = [d]\<rparr>"
    have "arp_ok ?cfg (make_room (lk_arp s) @ [?en])"
      by (rule add_entry_ok [OF arp])
        (use new own in \<open>simp_all add: entry_ok_def MAX_REQUESTS_def MAX_QUEUED_def\<close>)
    then show ?thesis
      using r new asked by (simp add: send_datagram_def Let_def arp_lookup_def)
  qed
qed

lemma send_from_ok:
  assumes ok: "link_ok s" and r: "send_from source destination protocol payload s = (r, s')"
  shows "link_ok s' \<and> sends s s'"
proof -
  let ?d = "ip_build (lk_next_id s) source destination protocol payload"
  let ?t = "s\<lparr>lk_next_id := lk_next_id s + 1\<rparr>"
  have t: "link_ok ?t" "sends s ?t"
    using ok by (simp_all add: link_ok_def sends_def net_mac_def)
  have own: "own_datagram (lk_config s) ?d" if "20 + length payload \<le> MTU"
    "case lk_config s of Some c \<Rightarrow> source = cf_address c | None \<Rightarrow> is_unspecified source \<and> is_broadcast destination"
    using that unfolding own_datagram_def by blast
  consider (refused) "s' = s" | (looped) "s' = loop_back ?d ?t"
    | (sent) hop where "own_datagram (lk_config s) ?d" "send_datagram hop ?d ?t = (r, s')"
  proof (cases "IP_HEADER_LEN + length payload > MTU \<or> is_loopback destination \<or> holds_address destination s")
    case True
    then show ?thesis
      using r that(1,2) by (auto simp: send_from_def ip_build_next_def split: if_splits)
  next
    case False
    then show ?thesis
      using r that(1,3) own
      by (cases "lk_config s")
        (auto simp: send_from_def ip_build_next_def IP_HEADER_LEN_def split: if_splits option.splits)
  qed
  then show ?thesis
  proof cases
    case refused
    then show ?thesis using ok by simp
  next
    case looped
    then show ?thesis
      using ok by (auto simp: loop_back_def Let_def link_ok_def sends_def net_mac_def LOOPBACK_LIMIT_def)
  next
    case (sent hop)
    then show ?thesis
      using send_datagram_ok [OF t(1) _ sent(2)] sends_trans [OF t(2)] by simp
  qed
qed

section \<open>Receiving and the clock\<close>

lemma arp_receive_ok:
  assumes ok: "link_ok s"
  shows "link_ok (arp_receive bs s) \<and> sends s (arp_receive bs s)"
proof -
  define mac where "mac = take 6 (drop 8 bs)"
  define ip where "ip = u32_from_be (bs ! 14) (bs ! 15) (bs ! 16) (bs ! 17)"
  define t where "t = learn ip mac s"
  define wanted where "wanted c \<longleftrightarrow> u16_from_be (bs ! 6) (bs ! 7) = OP_REQUEST \<and>
    u32_from_be (bs ! 24) (bs ! 25) (bs ! 26) (bs ! 27) = cf_address c" for c :: net_config
  have "arp_receive bs s = s \<or> length mac = 6 \<and> arp_receive bs s = (case lk_config t of None \<Rightarrow> t | Some c \<Rightarrow>
      if wanted c then snd (transmit_to mac ETHERTYPE_ARP (arp_build OP_REPLY (net_mac t) (cf_address c) mac ip) t)
      else t)"
  proof (cases "length bs < PACKET_LEN \<or> u16_from_be (bs ! 0) (bs ! 1) \<noteq> HARDWARE_ETHERNET \<or>
      u16_from_be (bs ! 2) (bs ! 3) \<noteq> ETHERTYPE_IPV4 \<or> bs ! 4 \<noteq> 6 \<or> bs ! 5 \<noteq> 4")
    case True
    then show ?thesis by (simp only: arp_receive_def) presburger
  next
    case False
    then have "length mac = 6" by (auto simp: mac_def PACKET_LEN_def)
    moreover have "arp_receive bs s = (case lk_config t of None \<Rightarrow> t | Some c \<Rightarrow>
      if wanted c then snd (transmit_to mac ETHERTYPE_ARP (arp_build OP_REPLY (net_mac t) (cf_address c) mac ip) t)
      else t)"
      using False unfolding arp_receive_def Let_def t_def ip_def mac_def wanted_def by (simp only: if_False de_Morgan_disj not_not simp_thms)
    ultimately show ?thesis by simp
  qed
  then consider (dropped) "arp_receive bs s = s" | (learnt) "length mac = 6" "arp_receive bs s = t"
    | (asked) c where "length mac = 6" "lk_config t = Some c"
        "arp_receive bs s = snd (transmit_to mac ETHERTYPE_ARP (arp_build OP_REPLY (net_mac t) (cf_address c) mac ip) t)"
    by (cases "lk_config t") (auto split: if_splits)
  then show ?thesis
  proof cases
    case dropped
    then show ?thesis using ok by simp
  next
    case learnt
    then show ?thesis using learn_ok [OF ok] by (simp add: t_def)
  next
    case (asked c)
    have t: "link_ok t" "sends s t" using learn_ok [OF ok asked(1)] by (simp_all add: t_def)
    let ?f = "ether_build mac (net_mac t) ETHERTYPE_ARP (arp_build OP_REPLY (net_mac t) (cf_address c) mac ip)"
    obtain r u where u: "transmit ?f t = (r, u)" by force
    have "own_frame t ?f"
      unfolding own_frame_def using asked(1,2) by (intro disjI2 exI [of _ mac] exI conjI) simp_all
    from transmit_sends [OF this u] have "link_ok u" "sends s u"
      using link_ok_sends [OF t(1)] sends_trans [OF t(2)] by simp_all
    moreover have "arp_receive bs s = u" using asked(3) u by (simp add: transmit_to_def)
    ultimately show ?thesis by simp
  qed
qed

lemma request_all_sends:
  "sends s (request_all as s) \<and> lk_arp (request_all as s) = lk_arp s \<and> lk_loopback (request_all as s) = lk_loopback s"
proof (induction "as" arbitrary: s)
  case (Cons a "as")
  obtain r t where t: "arp_request a s = (r, t)" by force
  then show ?case
    using Cons.IH [of t] arp_request_sends [OF t] sends_trans [of s t] by simp
qed simp

lemma arp_expire_ok:
  assumes ok: "link_ok s"
  shows "link_ok (arp_expire s) \<and> sends s (arp_expire s)"
proof -
  define now where "now = lk_ticks s"
  define kept where "kept = filter (still_wanted now) (lk_arp s)"
  define f where "f = (\<lambda>en. if ask_again now en
    then en\<lparr>ae_requests := ae_requests en + 1, ae_deadline := now + REQUEST_INTERVAL\<rparr> else en)"
  define t where "t = s\<lparr>lk_arp := map f kept\<rparr>"
  have addresses: "map ae_address (map f kept) = map ae_address kept"
    by (simp add: f_def)
  have "distinct (map ae_address kept)" "length kept \<le> MAX_ENTRIES"
    using ok by (auto simp: kept_def link_ok_def arp_ok_def distinct_map_filter intro: le_trans [OF length_filter_le])
  moreover have "entry_ok (lk_config s) (f en)" if "en \<in> set kept" for en
  proof -
    have "entry_ok (lk_config s) en" "still_wanted now en"
      using that ok by (auto simp: kept_def link_ok_def arp_ok_def)
    then show ?thesis
      by (auto simp: f_def entry_ok_def ask_again_def still_wanted_def split: option.splits)
  qed
  ultimately have "arp_ok (lk_config s) (map f kept)"
    unfolding arp_ok_def addresses by simp
  then have t: "link_ok t" "sends s t"
    using ok by (simp_all add: t_def link_ok_def sends_def net_mac_def)
  have "arp_expire s = request_all (map ae_address (filter (ask_again now) kept)) t"
    unfolding arp_expire_def Let_def t_def f_def kept_def now_def by (rule refl)
  then show ?thesis
    using request_all_sends link_ok_sends [OF t(1)] sends_trans [OF t(2)] by metis
qed

lemma icmp_receive_ok:
  assumes ok: "link_ok s"
  shows "link_ok (icmp_receive a b m s) \<and> sends s (icmp_receive a b m s)"
  using ok send_from_ok [OF ok] by (auto simp: icmp_receive_def Let_def) (metis prod.collapse)+

lemma ip_receive_ok:
  assumes ok: "link_ok s" and mac: "length mac = 6"
  shows "link_ok (snd (ip_receive bs mac origin s)) \<and> sends s (snd (ip_receive bs mac origin s))"
proof (cases "ip_parse bs")
  case (Some x)
  obtain h payload where x: "ip_parse bs = Some (h, payload)" using Some by (cases x) simp
  define t where "t = (if origin = Card \<and> \<not> is_unspecified (ih_source h) \<and>
      (case lk_config s of Some c \<Rightarrow> on_link c (ih_source h) | None \<Rightarrow> False)
    then learn (ih_source h) mac s else s)"
  have t: "link_ok t" "sends s t" using ok learn_ok [OF ok mac] by (simp_all add: t_def)
  have "snd (ip_receive bs mac origin s) \<in> {s, t, icmp_receive (ih_source h) (ih_destination h) payload t}"
    unfolding ip_receive_def x option.case prod.case t_def [symmetric] Let_def by simp
  then show ?thesis
    using ok t icmp_receive_ok [OF t(1)] sends_trans [OF t(2)] by auto
qed (use ok in \<open>simp add: ip_receive_def\<close>)

lemma frame_receive_ok:
  assumes ok: "link_ok s"
  shows "link_ok (snd (snd (frame_receive f s))) \<and> sends s (snd (snd (frame_receive f s)))"
proof -
  define t where "t = s\<lparr>lk_arrived := snd (lost (lk_loss s) (lk_arrived s))\<rparr>"
  have t: "link_ok t" "sends s t" using ok by (simp_all add: t_def link_ok_def sends_def net_mac_def)
  have "snd (snd (frame_receive f s)) = t \<or>
    (\<exists>p. ether_parse f = Some p \<and> (snd (snd (frame_receive f s)) = arp_receive (fr_payload p) t \<or>
       snd (snd (frame_receive f s)) = snd (ip_receive (fr_payload p) (fr_source p) Card t)))"
    unfolding frame_receive_def Let_def t_def by (auto split: prod.splits option.splits)
  moreover have "length (fr_source p) = 6" if "ether_parse f = Some p" for p
    using that by (auto simp: ether_parse_def Let_def ETHER_HEADER_LEN_def split: if_splits)
  ultimately show ?thesis
    using t arp_receive_ok [OF t(1)] ip_receive_ok [OF t(1)] sends_trans [OF t(2)] by metis
qed

lemma configure_ok:
  assumes "link_ok s"
  shows "link_ok (configure cfg s)" and "lk_wire (configure cfg s) = lk_wire s"
  using assms
  by (auto simp: configure_def publish_nameservers_def Let_def link_ok_def net_mac_def arp_ok_def split: option.splits)

lemma own_frame_ipv4:
  assumes f: "own_frame s f" and mac: "length (net_mac s) = 6" and p: "ether_parse f = Some fr"
    and t: "fr_ethertype fr = ETHERTYPE_IPV4"
  shows "\<exists>h payload. ip_parse (fr_payload fr) = Some (h, payload) \<and>
    (case lk_config s of Some c \<Rightarrow> ih_source h = cf_address c
     | None \<Rightarrow> is_unspecified (ih_source h) \<and> is_broadcast (ih_destination h))"
proof -
  obtain m ty d where m: "length m = 6" and f': "f = ether_build m (net_mac s) ty d"
    and d: "ty = ETHERTYPE_IPV4 \<and> own_datagram (lk_config s) d \<or> ty = ETHERTYPE_ARP"
    using f unfolding own_frame_def by blast
  obtain padding where pad: "fr = \<lparr>fr_destination = m, fr_source = net_mac s, fr_ethertype = ty,
      fr_payload = d @ padding\<rparr>"
    using ether_roundtrip [OF m mac, of ty d] p f' by auto
  then have "own_datagram (lk_config s) d"
    using d t by (auto simp: ETHERTYPE_IPV4_def ETHERTYPE_ARP_def)
  then obtain i a b pr payload where "d = ip_build i a b pr payload" "20 + length payload \<le> MTU"
    and src: "case lk_config s of Some c \<Rightarrow> a = cf_address c | None \<Rightarrow> is_unspecified a \<and> is_broadcast b"
    unfolding own_datagram_def by blast
  then show ?thesis
    using ip_roundtrip [of payload i a b pr padding] pad by (auto simp: MTU_def split: option.splits)
qed

end
