(* ===== verification/Net_Socket_Correct.thy ===== *)
theory Net_Socket_Correct
  imports Net_Socket Net_Link_Correct
begin

text \<open>
  The invariant of the socket table: no two open datagram sockets hold the same port, the queue of
  each stays within its bounds and its count of bytes is exact.
\<close>

section \<open>The queue of a datagram socket\<close>

definition queue_bytes :: "(endpoint \<times> bytes) list \<Rightarrow> nat" where
  "queue_bytes queue = sum_list (map (\<lambda>(_, data). length data) queue)"

definition udp_ok :: "udp_state \<Rightarrow> bool" where
  "udp_ok u \<longleftrightarrow> length (us_queue u) \<le> QUEUE_LIMIT \<and> us_queued_bytes u = queue_bytes (us_queue u) \<and>
     us_queued_bytes u \<le> QUEUE_BYTES"





section \<open>The table\<close>

definition open_port :: "inet_socket \<Rightarrow> u16 option" where
  "open_port k =
     (case sk_inner k of
        Udp u \<Rightarrow> if us_bound u \<and> \<not> sk_detached k then Some (ep_port (us_local u)) else None
      | Tcp _ \<Rightarrow> None)"

definition kind_ok :: "inet_socket \<Rightarrow> bool" where
  "kind_ok k \<longleftrightarrow> (case sk_inner k of Tcp _ \<Rightarrow> sk_stream k | Udp u \<Rightarrow> \<not> sk_stream k \<and> udp_ok u)"

definition sockets_ok :: "net_state \<Rightarrow> bool" where
  "sockets_ok s \<longleftrightarrow> distinct (nt_table s) \<and> (\<forall>i \<in> set (nt_table s). i < nt_next s) \<and>
     (\<forall>i < nt_next s. kind_ok (nt_socket s i)) \<and>
     (\<forall>i p. i < nt_next s \<and> open_port (nt_socket s i) = Some p \<longrightarrow> i \<in> set (nt_table s)) \<and>
     (\<forall>i j p. i < nt_next s \<and> j < nt_next s \<and> open_port (nt_socket s i) = Some p \<and>
        open_port (nt_socket s j) = Some p \<longrightarrow> i = j)"

lemma sockets_okI:
  assumes "distinct (nt_table s)" and "\<And>i. i \<in> set (nt_table s) \<Longrightarrow> i < nt_next s"
    and "\<And>i. i < nt_next s \<Longrightarrow> kind_ok (nt_socket s i)"
    and "\<And>i p. i < nt_next s \<Longrightarrow> open_port (nt_socket s i) = Some p \<Longrightarrow> i \<in> set (nt_table s)"
    and "\<And>i j p. i < nt_next s \<Longrightarrow> j < nt_next s \<Longrightarrow> open_port (nt_socket s i) = Some p \<Longrightarrow>
      open_port (nt_socket s j) = Some p \<Longrightarrow> i = j"
  shows "sockets_ok s"
  using assms unfolding sockets_ok_def by blast

lemma sockets_okD:
  assumes "sockets_ok s"
  shows "distinct (nt_table s)" and "i \<in> set (nt_table s) \<Longrightarrow> i < nt_next s"
    and "i < nt_next s \<Longrightarrow> kind_ok (nt_socket s i)"
    and "i < nt_next s \<Longrightarrow> open_port (nt_socket s i) = Some p \<Longrightarrow> i \<in> set (nt_table s)"
    and "i < nt_next s \<Longrightarrow> j < nt_next s \<Longrightarrow> open_port (nt_socket s i) = Some p \<Longrightarrow>
      open_port (nt_socket s j) = Some p \<Longrightarrow> i = j"
  using assms unfolding sockets_ok_def by blast+

text \<open>The lower half is sound, and since it was \<open>l0\<close> it has sent nothing but own frames.\<close>

definition linked :: "link_state \<Rightarrow> link_state \<Rightarrow> bool" where
  "linked l0 l \<longleftrightarrow> link_ok l \<and> sends l0 l"


definition net_ok :: "link_state \<Rightarrow> net_state \<Rightarrow> bool" where
  "net_ok l0 s \<longleftrightarrow> sockets_ok s \<and> linked l0 (nt_link s)"

text \<open>A step that leaves the table and the datagram sockets alone.\<close>

definition streams_only :: "net_state \<Rightarrow> net_state \<Rightarrow> bool" where
  "streams_only s s' \<longleftrightarrow> nt_next s' = nt_next s \<and> nt_table s' = nt_table s \<and>
     (\<forall>i. kind_ok (nt_socket s i) \<longrightarrow> kind_ok (nt_socket s' i)) \<and>
     (\<forall>i. open_port (nt_socket s' i) = open_port (nt_socket s i)) \<and>
     (\<forall>i. sk_stream (nt_socket s' i) = sk_stream (nt_socket s i))"

lemma streams_only_refl [simp]: "streams_only s s"
  by (simp add: streams_only_def)















lemma table_ok:
  assumes ok: "net_ok l0 s" and distinct: "distinct table" and all: "\<And>i. i \<in> set table \<Longrightarrow> i < nt_next s"
    and open_kept: "\<And>i p. i < nt_next s \<Longrightarrow> open_port (nt_socket s i) = Some p \<Longrightarrow> i \<in> set table"
  shows "net_ok l0 (s\<lparr>nt_table := table\<rparr>)"
proof -
  have "sockets_ok s" using ok by (simp add: net_ok_def)
  note k = sockets_okD [OF this]
  have "sockets_ok (s\<lparr>nt_table := table\<rparr>)"
  proof (rule sockets_okI)
    show "i = j" if "i < nt_next (s\<lparr>nt_table := table\<rparr>)" "j < nt_next (s\<lparr>nt_table := table\<rparr>)"
        "open_port (nt_socket (s\<lparr>nt_table := table\<rparr>) i) = Some p"
        "open_port (nt_socket (s\<lparr>nt_table := table\<rparr>) j) = Some p" for i j p
      using that k(5) [of i j p] by simp
  qed (use distinct all open_kept k(3) in simp_all)
  then show ?thesis using ok by (simp add: net_ok_def)
qed

lemma socket_register_ok:
  assumes ok: "net_ok l0 s" and i: "i < nt_next s"
  shows "net_ok l0 (socket_register i s)"
proof (cases "i \<in> set (nt_table s)")
  case False
  have "sockets_ok s" using ok by (simp add: net_ok_def)
  note k = sockets_okD [OF this]
  have "net_ok l0 (s\<lparr>nt_table := nt_table s @ [i]\<rparr>)"
    by (rule table_ok [OF ok]) (use k(1,2,4) i False in auto)
  then show ?thesis using False by (simp add: socket_register_def)
qed (simp add: socket_register_def ok)



section \<open>Ports\<close>







section \<open>Packets\<close>


lemma register_stream_ok:
  assumes "net_ok l0 s" and "i < nt_next s"
  shows "net_ok l0 (socket_register i s)" and "nt_socket (socket_register i s) = nt_socket s"
  using socket_register_ok [OF assms] by (simp_all add: socket_register_def)






section \<open>Timers\<close>







section \<open>System calls\<close>













section \<open>Runs\<close>











end
