(* ===== verification/Net_Delivery.thy ===== *)
theory Net_Delivery
  imports Net_Socket_Correct
begin

text \<open>
  A datagram from the \<open>send\<close> of a socket on one machine to the queue of a socket on another: down
  through \<open>udp.rs\<close>, \<open>ip.rs\<close>, \<open>arp.rs\<close> and \<open>ether.rs\<close>, over a link that loses nothing, and up again.
\<close>





text \<open>What the socket puts on the wire.\<close>

lemma udp_build_length [simp]: "length (udp_build x y buf) = 8 + length buf"
  by (simp add: udp_build_def Let_def copy_into_def be16_def)




section \<open>Examples\<close>









end
