(* ===== verification/Regions.thy ===== *)
theory Regions
  imports Prelude
begin

text \<open>
  The record of what is in an address space (\<open>MemState\<close> in \<open>kernel/src/mm/space.rs\<close>): the regions,
  the program break and where the next mapping is looked for.  Addresses are numbers, and \<open>None\<close> is
  the panic of a sum past 64 bits.  What a list of regions means is \<open>recorded_at\<close>: what is recorded at
  each address, with the byte of the file it shows.
\<close>

section \<open>Definitions\<close>

definition USER_MMAP_BASE :: nat where "USER_MMAP_BASE = 0x7F0000000000"
definition USER_LIMIT :: nat where "USER_LIMIT = 0x800000000000"

definition is_user_addr :: "nat \<Rightarrow> bool" where
  "is_user_addr virt \<longleftrightarrow> virt < 0x800000000000"

text \<open>\<open>page_align_up\<close> with the overflow check of the build.\<close>

definition page_round_up :: "nat \<Rightarrow> nat option" where
  "page_round_up v = (if v + PAGE_SIZE - 1 \<le> U64_MAX then Some (page_align_up v) else None)"

record file_map =
  fm_node :: nat
  fm_offset :: nat
  fm_length :: nat

record vma =
  vm_start :: nat
  vm_end :: nat
  vm_prot :: u64
  vm_flags :: u64
  vm_file :: "file_map option"

record mem_state =
  ms_vmas :: "vma list"
  ms_brk_start :: nat
  ms_brk :: nat
  ms_mmap_top :: nat
  ms_saved_auxv :: "nat list"

definition vma_contains :: "vma \<Rightarrow> nat \<Rightarrow> bool" where
  "vma_contains v addr \<longleftrightarrow> addr \<ge> vm_start v \<and> addr < vm_end v"

definition mem_state_new :: mem_state where
  "mem_state_new = \<lparr>ms_vmas = [], ms_brk_start = 0, ms_brk = 0, ms_mmap_top = USER_MMAP_BASE,
     ms_saved_auxv = []\<rparr>"

definition find_vma :: "mem_state \<Rightarrow> nat \<Rightarrow> vma option" where
  "find_vma m addr = find (\<lambda>v. vma_contains v addr) (ms_vmas m)"

definition range_is_free :: "mem_state \<Rightarrow> nat \<Rightarrow> nat \<Rightarrow> bool" where
  "range_is_free m start stop \<longleftrightarrow> list_all (\<lambda>v. vm_end v \<le> start \<or> vm_start v \<ge> stop) (ms_vmas m)"

definition set_vma_prot :: "nat \<Rightarrow> nat \<Rightarrow> u64 \<Rightarrow> mem_state \<Rightarrow> mem_state" where
  "set_vma_prot start stop prot m =
     m\<lparr>ms_vmas := map (\<lambda>v. if vm_start v < stop \<and> start < vm_end v then v\<lparr>vm_prot := prot\<rparr> else v) (ms_vmas m)\<rparr>"

text \<open>One region of the loop of \<open>remove_vma_range\<close>: what is left of it below the range and above.\<close>

definition cut_head :: "nat \<Rightarrow> vma \<Rightarrow> vma list" where
  "cut_head start v =
     (if vm_start v < start then
        [v\<lparr>vm_end := start,
           vm_file := map_option (\<lambda>f. f\<lparr>fm_length := min (fm_length f) (start - vm_start v)\<rparr>) (vm_file v)\<rparr>]
      else [])"

definition cut_tail :: "nat \<Rightarrow> vma \<Rightarrow> vma list option" where
  "cut_tail stop v =
     (if vm_end v > stop then
        (case vm_file v of
           None \<Rightarrow> Some [v\<lparr>vm_start := stop\<rparr>]
         | Some f \<Rightarrow>
             (let skipped = stop - vm_start v in
              if fm_offset f + skipped \<le> U64_MAX then
                Some [v\<lparr>vm_start := stop,
                  vm_file := Some (f\<lparr>fm_offset := fm_offset f + skipped, fm_length := fm_length f - skipped\<rparr>)\<rparr>]
              else None))
      else Some [])"

definition cut_vma :: "nat \<Rightarrow> nat \<Rightarrow> vma \<Rightarrow> vma list option" where
  "cut_vma start stop v =
     (if vm_end v \<le> start \<or> vm_start v \<ge> stop then Some [v]
      else map_option (\<lambda>tail. cut_head start v @ tail) (cut_tail stop v))"

fun cut_vmas :: "nat \<Rightarrow> nat \<Rightarrow> vma list \<Rightarrow> vma list option" where
  "cut_vmas start stop [] = Some []"
| "cut_vmas start stop (v # vs) =
     (case cut_vma start stop v of
        None \<Rightarrow> None
      | Some pieces \<Rightarrow> map_option (\<lambda>out. pieces @ out) (cut_vmas start stop vs))"

definition remove_vma_range :: "nat \<Rightarrow> nat \<Rightarrow> mem_state \<Rightarrow> mem_state option" where
  "remove_vma_range start stop m =
     map_option (\<lambda>out. m\<lparr>ms_vmas := out\<rparr>) (cut_vmas start stop (ms_vmas m))"

text \<open>The search of \<open>find_free_region\<close>: each region in the way moves the candidate past its end.\<close>

definition first_clash :: "vma list \<Rightarrow> nat \<Rightarrow> nat \<Rightarrow> nat option" where
  "first_clash vs candidate stop = map_option vm_end (find (\<lambda>v. vm_start v < stop \<and> candidate < vm_end v) vs)"

lemma first_clash_Some:
  assumes "first_clash vs candidate stop = Some e"
  shows "candidate < e" and "\<exists>v \<in> set vs. vm_end v = e"
  using assms by (auto simp: first_clash_def find_Some_iff)

function free_search :: "vma list \<Rightarrow> nat \<Rightarrow> nat \<Rightarrow> (nat \<times> nat) option" where
  "free_search vs len candidate =
     (if candidate + len > U64_MAX then None
      else case first_clash vs candidate (candidate + len) of
        Some e \<Rightarrow> free_search vs len e
      | None \<Rightarrow> Some (candidate, candidate + len))"
  by pat_completeness auto

termination free_search
proof (relation "measure (\<lambda>(vs, len, candidate). length (filter (\<lambda>v. candidate < vm_end v) vs))", goal_cases)
  case 1
  show ?case by simp
next
  case (2 vs len candidate e)
  then obtain v where v: "v \<in> set vs" "vm_end v = e" and lt: "candidate < e"
    using first_clash_Some [of vs candidate "candidate + len" e] by blast
  have "length (filter (\<lambda>v. e < vm_end v) vs) < length (filter (\<lambda>v. candidate < vm_end v) vs)"
    using v lt
  proof (induction vs)
    case (Cons w vs)
    have "length (filter (\<lambda>v. e < vm_end v) vs) \<le> length (filter (\<lambda>v. candidate < vm_end v) vs)"
      using lt by (induction vs) auto
    with Cons lt show ?case by auto
  qed simp
  then show ?case by simp
qed

declare free_search.simps [simp del]

definition find_free_region :: "nat \<Rightarrow> mem_state \<Rightarrow> (nat \<times> mem_state) option" where
  "find_free_region len m =
     (case page_round_up len of
        None \<Rightarrow> None
      | Some len \<Rightarrow>
          map_option (\<lambda>(candidate, stop). (candidate, m\<lparr>ms_mmap_top := stop\<rparr>))
            (free_search (ms_vmas m) len (ms_mmap_top m)))"

definition virtual_size :: "mem_state \<Rightarrow> nat" where
  "virtual_size m = sum_list (map (\<lambda>v. vm_end v - vm_start v) (ms_vmas m)) + (ms_brk m - ms_brk_start m)"

definition push_vma :: "vma \<Rightarrow> mem_state \<Rightarrow> mem_state" where
  "push_vma v m = m\<lparr>ms_vmas := ms_vmas m @ [v]\<rparr>"

section \<open>What a record says\<close>

datatype byte_origin = Zeroes | Byte_of nat nat

definition vma_origin :: "vma \<Rightarrow> nat \<Rightarrow> byte_origin" where
  "vma_origin v addr =
     (case vm_file v of
        None \<Rightarrow> Zeroes
      | Some f \<Rightarrow>
          let into = addr - vm_start v in
          if into < fm_length f then Byte_of (fm_node f) (fm_offset f + into) else Zeroes)"

definition recorded_at :: "mem_state \<Rightarrow> nat \<Rightarrow> (u64 \<times> u64 \<times> byte_origin) option" where
  "recorded_at m addr = map_option (\<lambda>v. (vm_prot v, vm_flags v, vma_origin v addr)) (find_vma m addr)"

lemma find_app: "find P (xs @ ys) = (case find P xs of None \<Rightarrow> find P ys | Some x \<Rightarrow> Some x)"
  by (induction xs) auto

lemma cut_head_finds:
  assumes "start \<le> stop" "vm_start v < stop" "start < vm_end v"
  shows "cut_head start v = [] \<and> start \<le> vm_start v \<or>
    (\<exists>h. cut_head start v = [h] \<and> vm_start v < start \<and> vm_start h = vm_start v \<and> vm_end h = start \<and>
      vm_prot h = vm_prot v \<and> vm_flags h = vm_flags v \<and>
      (\<forall>a. vma_contains h a \<longrightarrow> vma_origin h a = vma_origin v a))"
  by (cases "vm_file v") (auto simp: cut_head_def vma_contains_def vma_origin_def Let_def)

lemma cut_tail_finds:
  assumes "cut_tail stop v = Some rest" "vm_start v < stop"
  shows "rest = [] \<and> vm_end v \<le> stop \<or>
    (\<exists>h. rest = [h] \<and> stop < vm_end v \<and> vm_start h = stop \<and> vm_end h = vm_end v \<and>
      vm_prot h = vm_prot v \<and> vm_flags h = vm_flags v \<and>
      (\<forall>a. vma_contains h a \<longrightarrow> vma_origin h a = vma_origin v a))"
  using assms by (cases "vm_file v")
    (auto simp: cut_tail_def vma_contains_def vma_origin_def Let_def split: if_splits)

abbreviation told :: "vma \<Rightarrow> nat \<Rightarrow> u64 \<times> u64 \<times> byte_origin" where
  "told v a \<equiv> (vm_prot v, vm_flags v, vma_origin v a)"

lemma cut_vma_finds:
  assumes "cut_vma start stop v = Some pieces" and "start \<le> stop"
  shows "map_option (\<lambda>w. told w a) (find (\<lambda>w. vma_contains w a) pieces) =
    (if vma_contains v a \<and> \<not> (start \<le> a \<and> a < stop) then Some (told v a) else None)"
proof (cases "vm_end v \<le> start \<or> vm_start v \<ge> stop")
  case True
  then have "pieces = [v]" using assms(1) by (simp add: cut_vma_def)
  with True show ?thesis by (auto simp: vma_contains_def)
next
  case False
  then obtain rest where ab: "cut_tail stop v = Some rest" "pieces = cut_head start v @ rest"
    using assms(1) by (auto simp: cut_vma_def)
  from False have lt: "vm_start v < stop" "start < vm_end v" by simp_all
  from cut_head_finds [OF assms(2) lt] cut_tail_finds [OF ab(1) lt(1)] lt assms(2) show ?thesis
    unfolding ab(2) by (elim disjE exE conjE) (simp_all add: vma_contains_def, linarith+)
qed

lemma cut_vmas_finds:
  assumes "cut_vmas start stop vs = Some out" and "start \<le> stop"
  shows "map_option (\<lambda>w. told w a) (find (\<lambda>w. vma_contains w a) out) =
    (if start \<le> a \<and> a < stop then None
     else map_option (\<lambda>w. told w a) (find (\<lambda>w. vma_contains w a) vs))"
  using assms(1)
proof (induction vs arbitrary: out)
  case (Cons v vs)
  then obtain pieces rest where p: "cut_vma start stop v = Some pieces" "cut_vmas start stop vs = Some rest"
    "out = pieces @ rest" by (auto split: option.splits)
  from Cons.IH [OF p(2)] cut_vma_finds [OF p(1) assms(2), of a] show ?case
    by (auto simp: p(3) find_app split: option.splits if_splits)
qed simp

lemma remove_vma_range_records:
  assumes "remove_vma_range start stop m = Some m'" and "start \<le> stop"
  shows "recorded_at m' a = (if start \<le> a \<and> a < stop then None else recorded_at m a)"
  using assms cut_vmas_finds [OF _ assms(2), of "ms_vmas m" _ a]
  by (auto simp: remove_vma_range_def recorded_at_def find_vma_def)

lemma remove_vma_range_fields:
  assumes "remove_vma_range start stop m = Some m'"
  shows "ms_brk_start m' = ms_brk_start m" "ms_brk m' = ms_brk m" "ms_mmap_top m' = ms_mmap_top m"
  using assms by (auto simp: remove_vma_range_def)

lemma find_vma_None_iff: "find_vma m a = None \<longleftrightarrow> recorded_at m a = None"
  by (simp add: recorded_at_def)

section \<open>Regions that do not overlap\<close>

definition vmas_apart :: "vma \<Rightarrow> vma \<Rightarrow> bool" where
  "vmas_apart v w \<longleftrightarrow> vm_end v \<le> vm_start w \<or> vm_end w \<le> vm_start v"

text \<open>Every region is a range of whole pages with something in it, and no two overlap.\<close>

definition vma_ok :: "vma \<Rightarrow> bool" where
  "vma_ok v \<longleftrightarrow> vm_start v < vm_end v \<and> PAGE_SIZE dvd vm_start v \<and> PAGE_SIZE dvd vm_end v"

fun regions_ok :: "vma list \<Rightarrow> bool" where
  "regions_ok [] \<longleftrightarrow> True"
| "regions_ok (v # vs) \<longleftrightarrow> vma_ok v \<and> list_all (vmas_apart v) vs \<and> regions_ok vs"

lemma regions_ok_append:
  "regions_ok (xs @ ys) \<longleftrightarrow> regions_ok xs \<and> regions_ok ys \<and> list_all (\<lambda>x. list_all (vmas_apart x) ys) xs"
  by (induction xs) auto

lemma cut_vma_pieces:
  assumes "cut_vma start stop v = Some pieces" and "start \<le> stop" and "w \<in> set pieces"
  shows "vm_start v \<le> vm_start w" and "vm_end w \<le> vm_end v"
    and "vm_start w \<in> {vm_start v, stop}" and "vm_end w \<in> {vm_end v, start}"
    and "vma_ok v \<Longrightarrow> vm_start w < vm_end w"
  using assms
  by (auto simp: cut_vma_def cut_head_def cut_tail_def vma_ok_def Let_def split: if_splits option.splits)

lemma cut_vma_regions_ok:
  assumes "cut_vma start stop v = Some pieces" and "start \<le> stop" and "vma_ok v"
    and "PAGE_SIZE dvd start" "PAGE_SIZE dvd stop"
  shows "regions_ok pieces"
proof (cases "vm_end v \<le> start \<or> vm_start v \<ge> stop")
  case True
  then have "pieces = [v]" using assms(1) by (simp add: cut_vma_def)
  with assms(3) show ?thesis by simp
next
  case False
  then obtain rest where ab: "cut_tail stop v = Some rest" "pieces = cut_head start v @ rest"
    using assms(1) by (auto simp: cut_vma_def)
  have "regions_ok (cut_head start v)"
    using assms(3,4) False by (simp add: cut_head_def vma_ok_def)
  moreover have "regions_ok rest"
    using ab(1) assms(3,5) by (auto simp: cut_tail_def vma_ok_def Let_def split: if_splits option.splits)
  moreover have "vm_end x \<le> vm_start y" if "x \<in> set (cut_head start v)" "y \<in> set rest" for x y
    using that ab(1) assms(2) by (auto simp: cut_head_def cut_tail_def Let_def split: if_splits option.splits)
  ultimately show ?thesis
    by (auto simp: ab(2) regions_ok_append list_all_iff vmas_apart_def)
qed

lemma cut_vmas_within:
  assumes "cut_vmas start stop vs = Some out" and "start \<le> stop" and "w \<in> set out"
  shows "\<exists>v \<in> set vs. vm_start v \<le> vm_start w \<and> vm_end w \<le> vm_end v"
  using assms(1,3)
proof (induction vs arbitrary: out)
  case (Cons v vs)
  then obtain pieces rest where p: "cut_vma start stop v = Some pieces" "cut_vmas start stop vs = Some rest"
    "out = pieces @ rest" by (auto split: option.splits)
  show ?case
  proof (cases "w \<in> set pieces")
    case True
    with cut_vma_pieces(1,2) [OF p(1) assms(2)] show ?thesis by auto
  next
    case False
    with Cons.IH [OF p(2)] Cons.prems(2) p(3) show ?thesis by auto
  qed
qed simp

lemma cut_vmas_regions_ok:
  assumes "cut_vmas start stop vs = Some out" and "start \<le> stop" and "regions_ok vs"
    and "PAGE_SIZE dvd start" "PAGE_SIZE dvd stop"
  shows "regions_ok out"
  using assms(1,3)
proof (induction vs arbitrary: out)
  case (Cons v vs)
  then obtain pieces rest where p: "cut_vma start stop v = Some pieces" "cut_vmas start stop vs = Some rest"
    "out = pieces @ rest" by (auto split: option.splits)
  have "regions_ok pieces" using cut_vma_regions_ok [OF p(1) assms(2) _ assms(4,5)] Cons.prems(2) by simp
  moreover have "regions_ok rest" using Cons.IH [OF p(2)] Cons.prems(2) by simp
  moreover have "vmas_apart x y" if xy: "x \<in> set pieces" "y \<in> set rest" for x y
  proof -
    obtain u where u: "u \<in> set vs" "vm_start u \<le> vm_start y" "vm_end y \<le> vm_end u"
      using cut_vmas_within [OF p(2) assms(2) xy(2)] by blast
    have "vmas_apart v u" using Cons.prems(2) u(1) by (simp add: list_all_iff)
    with u(2,3) cut_vma_pieces(1,2) [OF p(1) assms(2) xy(1)] show ?thesis
      by (auto simp: vmas_apart_def)
  qed
  ultimately show ?case by (simp add: p(3) regions_ok_append list_all_iff)
qed simp

lemma remove_vma_range_ok:
  assumes "remove_vma_range start stop m = Some m'" and "start \<le> stop" and "regions_ok (ms_vmas m)"
    and "PAGE_SIZE dvd start" "PAGE_SIZE dvd stop"
  shows "regions_ok (ms_vmas m')"
  using assms cut_vmas_regions_ok [OF _ assms(2,3,4,5)] by (auto simp: remove_vma_range_def)

lemma regions_ok_map:
  assumes "\<And>v. vm_start (f v) = vm_start v" "\<And>v. vm_end (f v) = vm_end v"
  shows "regions_ok (map f vs) = regions_ok vs"
  by (induction vs) (simp_all add: vma_ok_def vmas_apart_def list_all_iff assms)

lemma set_vma_prot_ok: "regions_ok (ms_vmas m) \<Longrightarrow> regions_ok (ms_vmas (set_vma_prot start stop prot m))"
  by (simp add: set_vma_prot_def regions_ok_map)

lemma push_vma_ok:
  assumes "regions_ok (ms_vmas m)" and "vma_ok v" and "range_is_free m (vm_start v) (vm_end v)"
  shows "regions_ok (ms_vmas (push_vma v m))"
  using assms by (auto simp: push_vma_def regions_ok_append list_all_iff range_is_free_def vmas_apart_def)

lemma push_vma_records:
  assumes "range_is_free m (vm_start v) (vm_end v)"
  shows "recorded_at (push_vma v m) a = (if vma_contains v a then Some (told v a) else recorded_at m a)"
proof -
  have "find (\<lambda>w. vma_contains w a) (ms_vmas m) = None" if "vma_contains v a"
    using assms that by (auto simp: find_None_iff range_is_free_def list_all_iff vma_contains_def)
  then show ?thesis
    by (auto simp: recorded_at_def find_vma_def push_vma_def find_app split: option.splits)
qed

section \<open>Looking for room\<close>

lemma free_search_spec:
  assumes "free_search vs len c = Some (b, e)"
  shows "c \<le> b \<and> e = b + len \<and> e \<le> U64_MAX \<and> (\<forall>v \<in> set vs. vm_end v \<le> b \<or> e \<le> vm_start v)
    \<and> (b = c \<or> (\<exists>v \<in> set vs. b = vm_end v))"
  using assms
proof (induction vs len c rule: free_search.induct)
  case (1 vs len c)
  show ?case
  proof (cases "first_clash vs c (c + len)")
    case None
    then have "\<forall>v \<in> set vs. vm_end v \<le> c \<or> c + len \<le> vm_start v"
      by (auto simp: first_clash_def find_None_iff not_less)
    with None "1.prems" show ?thesis by (subst (asm) free_search.simps) (auto split: if_splits)
  next
    case (Some f)
    with "1.prems" have fits: "\<not> c + len > U64_MAX" and next_search: "free_search vs len f = Some (b, e)"
      by (subst (asm) free_search.simps; simp split: if_splits)+
    from "1.IH" [OF fits Some next_search] first_clash_Some [OF Some] show ?thesis by auto
  qed
qed

lemma free_search_finds:
  assumes "\<forall>v \<in> set vs. vm_end v \<le> lim" and "c \<le> lim" and "lim + len \<le> U64_MAX"
  shows "\<exists>b. free_search vs len c = Some (b, b + len) \<and> b \<le> lim"
  using assms
proof (induction vs len c rule: free_search.induct)
  case (1 vs len c)
  show ?case
  proof (cases "first_clash vs c (c + len)")
    case None
    with "1.prems" show ?thesis by (subst free_search.simps) auto
  next
    case (Some f)
    then have "f \<le> lim" using first_clash_Some(2) [OF Some] "1.prems"(1) by auto
    then have "\<exists>b. free_search vs len f = Some (b, b + len) \<and> b \<le> lim"
      using "1.IH" [OF _ Some] "1.prems" by simp
    with Some "1.prems" show ?thesis by (subst free_search.simps) auto
  qed
qed

lemma find_free_region_spec:
  assumes "find_free_region len m = Some (b, m')"
  shows "ms_vmas m' = ms_vmas m" "ms_brk m' = ms_brk m" "ms_brk_start m' = ms_brk_start m"
    and "range_is_free m b (b + page_align_up len)" and "ms_mmap_top m' = b + page_align_up len"
    and "b = ms_mmap_top m \<or> (\<exists>v \<in> set (ms_vmas m). b = vm_end v)"
proof -
  obtain stop where s: "free_search (ms_vmas m) (page_align_up len) (ms_mmap_top m) = Some (b, stop)"
    "m' = m\<lparr>ms_mmap_top := stop\<rparr>"
    using assms by (auto simp: find_free_region_def page_round_up_def split: if_splits)
  note spec = free_search_spec [OF s(1)]
  show "ms_vmas m' = ms_vmas m" "ms_brk m' = ms_brk m" "ms_brk_start m' = ms_brk_start m"
    using s(2) by simp_all
  show "range_is_free m b (b + page_align_up len)" "ms_mmap_top m' = b + page_align_up len"
    "b = ms_mmap_top m \<or> (\<exists>v \<in> set (ms_vmas m). b = vm_end v)"
    using spec s(2) by (auto simp: range_is_free_def list_all_iff)
qed

end
