(* ===== verification/Sys_Mem.thy ===== *)
theory Sys_Mem
  imports Regions
begin

text \<open>
  The memory system calls (\<open>kernel/src/syscall/mem.rs\<close>) as far as the record of an address space goes:
  every check, every early return, every change to the regions and the break, in the order the code
  makes them.  What they do to pages is left out but for the assertion of \<open>MmGuard::unmap\<close>, which
  panics for an address outside the half a program owns.  The descriptor table is an argument, and so
  are the outcomes of reading a file into a mapping and of copying one.  \<open>None\<close> is a panic of the kernel.
\<close>

section \<open>Definitions\<close>

definition MAX_MAPPING :: nat where "MAX_MAPPING = 2 ^ 40"
definition MAP_FIXED :: u64 where "MAP_FIXED = 0x10"
definition MAP_ANONYMOUS :: u64 where "MAP_ANONYMOUS = 0x20"

definition in_user_space :: "nat \<Rightarrow> nat \<Rightarrow> bool" where
  "in_user_space addr len =
     (case checked_add U64_MAX addr len of
        Some stop \<Rightarrow> is_user_addr addr \<and> is_user_addr (stop - 1)
      | None \<Rightarrow> False)"

text \<open>\<open>unmap_pages\<close> takes the pages from \<open>start\<close> on, a page at a time, up to \<open>stop\<close>; the last of them
  decides whether the assertion holds for all.\<close>

definition pages_user :: "nat \<Rightarrow> nat \<Rightarrow> bool" where
  "pages_user start stop \<longleftrightarrow> start < stop \<longrightarrow> is_user_addr (start + (stop - 1 - start) div PAGE_SIZE * PAGE_SIZE)"

definition unmap_recorded :: "nat \<Rightarrow> nat \<Rightarrow> mem_state \<Rightarrow> mem_state option" where
  "unmap_recorded start stop m =
     (case remove_vma_range start stop m of
        None \<Rightarrow> None
      | Some m' \<Rightarrow> if pages_user start stop then Some m' else None)"


text \<open>The step under the lock that places a mapping and records it.\<close>

definition mmap_place :: "nat \<Rightarrow> nat \<Rightarrow> bool \<Rightarrow> mem_state \<Rightarrow> (nat \<times> mem_state) option" where
  "mmap_place addr len fixed m =
     (if fixed then Some (addr, m)
      else
        (let hint = page_align_down addr in
         if hint \<noteq> 0 \<and> hint \<ge> USER_MMAP_BASE \<and> in_user_space hint len \<and> range_is_free m hint (hint + len)
         then Some (hint, m)
         else find_free_region len m))"

definition mmap_record ::
  "nat \<Rightarrow> nat \<Rightarrow> u64 \<Rightarrow> u64 \<Rightarrow> file_map option \<Rightarrow> mem_state \<Rightarrow> (nat \<times> mem_state) option" where
  "mmap_record addr len prot flags backing m =
     (case mmap_place addr len (flags AND MAP_FIXED \<noteq> 0) m of
        None \<Rightarrow> None
      | Some (base, m1) \<Rightarrow>
          if base + len \<le> U64_MAX then
            Some (base, push_vma \<lparr>vm_start = base, vm_end = base + len, vm_prot = prot, vm_flags = flags,
              vm_file = backing\<rparr> m1)
          else None)"

definition sys_mmap ::
  "(int \<Rightarrow> errno + nat) \<Rightarrow> (nat \<Rightarrow> nat \<Rightarrow> nat \<Rightarrow> nat \<Rightarrow> errno option)
     \<Rightarrow> nat \<Rightarrow> nat \<Rightarrow> u64 \<Rightarrow> u64 \<Rightarrow> int \<Rightarrow> nat \<Rightarrow> mem_state \<Rightarrow> ((errno + nat) \<times> mem_state) option" where
  "sys_mmap look populate addr want prot flags fd offset m =
     (if want = 0 \<or> want > MAX_MAPPING then Some (Inl EINVAL, m)
      else
        (let len = page_align_up want;
             found = (if flags AND MAP_ANONYMOUS \<noteq> 0 \<or> fd < 0 then Inr None
                      else case look fd of Inl err \<Rightarrow> Inl err | Inr n \<Rightarrow> Inr (Some n))
         in case found of
           Inl err \<Rightarrow> Some (Inl err, m)
         | Inr node \<Rightarrow>
             (let backing = map_option (\<lambda>n. \<lparr>fm_node = n, fm_offset = offset, fm_length = len\<rparr>) node;
                  fixed = (flags AND MAP_FIXED \<noteq> 0)
              in if fixed \<and> (addr = 0 \<or> addr mod PAGE_SIZE \<noteq> 0 \<or> \<not> in_user_space addr len) then Some (Inl EINVAL, m)
                 else case (if fixed then unmap_recorded (page_align_down addr) (page_align_up (addr + len)) m
                            else Some m) of
                   None \<Rightarrow> None
                 | Some m1 \<Rightarrow>
                     (case mmap_record addr len prot flags backing m1 of
                        None \<Rightarrow> None
                      | Some (base, m2) \<Rightarrow>
                          (case Option.bind node (\<lambda>n. populate n base len offset) of
                             None \<Rightarrow> Some (Inr base, m2)
                           | Some err \<Rightarrow> map_option (\<lambda>m3. (Inl err, m3)) (unmap_recorded base (base + len) m2))))))"

definition sys_munmap :: "nat \<Rightarrow> nat \<Rightarrow> mem_state \<Rightarrow> ((errno + nat) \<times> mem_state) option" where
  "sys_munmap addr want m =
     (if want = 0 \<or> addr mod PAGE_SIZE \<noteq> 0 \<or> \<not> in_user_space addr want then Some (Inl EINVAL, m)
      else map_option (\<lambda>m'. (Inr 0, m')) (unmap_recorded (page_align_down addr) (page_align_up (addr + want)) m))"

definition sys_mprotect :: "nat \<Rightarrow> nat \<Rightarrow> u64 \<Rightarrow> mem_state \<Rightarrow> (errno + nat) \<times> mem_state" where
  "sys_mprotect addr want prot m =
     (if addr mod PAGE_SIZE \<noteq> 0 \<or> \<not> in_user_space addr want then (Inl EINVAL, m)
      else (Inr 0, set_vma_prot (page_align_down addr) (page_align_up (addr + want)) prot m))"

text \<open>The step of \<open>mremap\<close> under the lock: where the mapping goes and whether it stays in place.\<close>

definition mremap_place :: "nat \<Rightarrow> nat \<Rightarrow> nat \<Rightarrow> mem_state \<Rightarrow> (errno + (nat \<times> bool \<times> mem_state)) option" where
  "mremap_place old_addr old_size new_size m =
     (case find_vma m old_addr of
        None \<Rightarrow> Some (Inl EFAULT)
      | Some v \<Rightarrow>
          (let tail_start = old_addr + old_size; tail_end = old_addr + new_size;
               in_the_way = list_ex (\<lambda>w. vm_start w < tail_end \<and> tail_start < vm_end w \<and> vm_start w \<noteq> vm_start v)
                 (ms_vmas m)
           in if \<not> in_the_way then
                Some (Inr (old_addr, True, push_vma \<lparr>vm_start = tail_start, vm_end = tail_end, vm_prot = vm_prot v,
                  vm_flags = vm_flags v, vm_file = None\<rparr> m))
              else case find_free_region new_size m of
                None \<Rightarrow> None
              | Some (base, m1) \<Rightarrow>
                  Some (Inr (base, False, push_vma \<lparr>vm_start = base, vm_end = base + new_size, vm_prot = vm_prot v,
                    vm_flags = vm_flags v, vm_file = None\<rparr> m1))))"

definition sys_mremap ::
  "(nat \<Rightarrow> nat \<Rightarrow> nat \<Rightarrow> errno option) \<Rightarrow> nat \<Rightarrow> nat \<Rightarrow> nat \<Rightarrow> mem_state \<Rightarrow> ((errno + nat) \<times> mem_state) option" where
  "sys_mremap copy_within old_addr old_size new_size m =
     (case (page_round_up old_size, page_round_up new_size) of
        (Some old_size, Some new_size) \<Rightarrow>
          if \<not> in_user_space old_addr (max old_size new_size) then Some (Inl EINVAL, m)
          else if new_size \<le> old_size then
            (if new_size < old_size
             then map_option (\<lambda>m'. (Inr old_addr, m')) (unmap_recorded (old_addr + new_size) (old_addr + old_size) m)
             else Some (Inr old_addr, m))
          else
            (case mremap_place old_addr old_size new_size m of
               None \<Rightarrow> None
             | Some (Inl err) \<Rightarrow> Some (Inl err, m)
             | Some (Inr (base, in_place, m1)) \<Rightarrow>
                 if in_place then Some (Inr old_addr, m1)
                 else case copy_within base old_addr (min old_size new_size) of
                   Some err \<Rightarrow> Some (Inl err, m1)
                 | None \<Rightarrow> map_option (\<lambda>m2. (Inr base, m2)) (unmap_recorded old_addr (old_addr + old_size) m1))
      | _ \<Rightarrow> None)"

section \<open>Rounding\<close>

lemma page_align_up_dvd [simp]: "PAGE_SIZE dvd page_align_up v"
  by (simp add: page_align_up_def align_up_def)

lemma page_align_down_dvd [simp]: "PAGE_SIZE dvd page_align_down v"
  by (simp add: page_align_down_def align_down_def)

lemma page_align_up_le: "v \<le> page_align_up v"
  by (simp add: page_align_up_def align_up_bounds PAGE_SIZE_def)

lemma page_align_up_aligned: "PAGE_SIZE dvd v \<Longrightarrow> page_align_up v = v"
  by (auto simp: page_align_up_def align_up_def PAGE_SIZE_def elim!: dvdE)

lemma page_align_down_aligned: "v mod PAGE_SIZE = 0 \<Longrightarrow> page_align_down v = v"
  by (simp add: page_align_down_def align_down_def mult.commute) (metis add.right_neutral mult_div_mod_eq)

lemma in_user_space_bound: "in_user_space addr len \<Longrightarrow> 0 < len \<Longrightarrow> addr + len \<le> USER_LIMIT"
  by (auto simp: in_user_space_def checked_add_def is_user_addr_def USER_LIMIT_def split: if_splits)

lemma unmap_recorded_remove: "unmap_recorded start stop m = Some m' \<Longrightarrow> remove_vma_range start stop m = Some m'"
  by (auto simp: unmap_recorded_def split: option.splits if_splits)

section \<open>What the calls record\<close>

lemma mmap_place_spec:
  assumes "mmap_place addr len False m = Some (base, m1)" and "PAGE_SIZE dvd len" "0 < len"
  shows "range_is_free m base (base + len)" and "ms_vmas m1 = ms_vmas m" and "ms_brk m1 = ms_brk m"
    and "PAGE_SIZE dvd base \<or> base = ms_mmap_top m \<or> (\<exists>v \<in> set (ms_vmas m). base = vm_end v)"
    and "ms_mmap_top m1 = ms_mmap_top m \<or> ms_mmap_top m1 = base + len"
  using assms find_free_region_spec [of len m base m1] page_align_up_aligned [OF assms(2)]
  by (auto simp: mmap_place_def Let_def split: if_splits)

text \<open>The file a call asks for.\<close>

definition asked_file :: "(int \<Rightarrow> errno + nat) \<Rightarrow> u64 \<Rightarrow> int \<Rightarrow> nat \<Rightarrow> nat \<Rightarrow> file_map option" where
  "asked_file look flags fd offset len =
     (if flags AND MAP_ANONYMOUS \<noteq> 0 \<or> fd < 0 then None
      else case look fd of Inl _ \<Rightarrow> None | Inr n \<Rightarrow> Some \<lparr>fm_node = n, fm_offset = offset, fm_length = len\<rparr>)"

text \<open>What a call that succeeded has done to the record.\<close>

lemma sys_mmap_Inr:
  assumes "sys_mmap look populate addr want prot flags fd offset m = Some (Inr base, m')"
  shows "0 < want \<and> want \<le> MAX_MAPPING \<and>
    (\<exists>m1. (if flags AND MAP_FIXED \<noteq> 0
           then addr mod PAGE_SIZE = 0 \<and> in_user_space addr (page_align_up want) \<and>
             remove_vma_range addr (addr + page_align_up want) m = Some m1
           else m1 = m) \<and>
      mmap_record addr (page_align_up want) prot flags (asked_file look flags fd offset (page_align_up want)) m1 =
        Some (base, m'))"
proof -
  have up: "page_align_up (addr + page_align_up want) = addr + page_align_up want" if "addr mod PAGE_SIZE = 0"
    using that by (intro page_align_up_aligned) (simp add: mod_eq_0_iff_dvd)
  let ?len = "page_align_up want"
  have arg: "0 < want" "want \<le> MAX_MAPPING"
    using assms by (auto simp: sys_mmap_def split: if_splits)
  have found: "flags AND MAP_ANONYMOUS \<noteq> 0 \<or> fd < 0 \<or> (\<exists>n. look fd = Inr n)"
    using assms arg by (auto simp: sys_mmap_def Let_def split: if_splits sum.splits)
  have ok: "addr mod PAGE_SIZE = 0 \<and> in_user_space addr ?len" if "flags AND MAP_FIXED \<noteq> 0"
    using assms arg found that by (auto simp: sys_mmap_def Let_def split: if_splits sum.splits)
  obtain m1 where m1: "(if flags AND MAP_FIXED \<noteq> 0 then unmap_recorded (page_align_down addr) (page_align_up (addr + ?len)) m
      else Some m) = Some m1" "mmap_record addr ?len prot flags (asked_file look flags fd offset ?len) m1 = Some (base, m')"
    using assms arg found ok
    by (auto simp: sys_mmap_def Let_def asked_file_def split: if_splits option.splits)
  from m1 ok arg up page_align_down_aligned [of addr] unmap_recorded_remove [of addr "addr + ?len" m m1]
  show ?thesis by (intro conjI exI [of _ m1]) (auto split: if_splits)
qed

lemma remove_vma_range_free:
  assumes "remove_vma_range start stop m = Some m'" and "start \<le> stop"
  shows "range_is_free m' start stop"
proof -
  have one: "list_all (\<lambda>w. vm_end w \<le> start \<or> stop \<le> vm_start w) pieces" if "cut_vma start stop v = Some pieces" for v pieces
    using that assms(2)
    by (auto simp: cut_vma_def cut_head_def cut_tail_def Let_def split: if_splits option.splits)
  have "list_all (\<lambda>w. vm_end w \<le> start \<or> stop \<le> vm_start w) out" if "cut_vmas start stop vs = Some out" for vs out
    using that by (induction vs arbitrary: out) (auto split: option.splits dest: one)
  with assms(1) show ?thesis by (auto simp: remove_vma_range_def range_is_free_def)
qed

text \<open>The region a mapping is recorded as goes where nothing was.\<close>

lemma mmap_record_spec:
  assumes "mmap_record addr len prot flags backing m = Some (base, m')" and "PAGE_SIZE dvd len" "0 < len"
    and "flags AND MAP_FIXED \<noteq> 0 \<Longrightarrow> range_is_free m addr (addr + len)"
  shows "\<exists>m1. m' = push_vma \<lparr>vm_start = base, vm_end = base + len, vm_prot = prot, vm_flags = flags, vm_file = backing\<rparr> m1
    \<and> ms_vmas m1 = ms_vmas m \<and> ms_brk m1 = ms_brk m \<and> range_is_free m base (base + len)
    \<and> (flags AND MAP_FIXED \<noteq> 0 \<longrightarrow> base = addr)
    \<and> (PAGE_SIZE dvd base \<or> base = addr \<or> base = ms_mmap_top m \<or> (\<exists>v \<in> set (ms_vmas m). base = vm_end v))
    \<and> (ms_mmap_top m1 = ms_mmap_top m \<or> ms_mmap_top m1 = base + len)"
proof -
  obtain m1 where p: "mmap_place addr len (flags AND MAP_FIXED \<noteq> 0) m = Some (base, m1)"
    "m' = push_vma \<lparr>vm_start = base, vm_end = base + len, vm_prot = prot, vm_flags = flags, vm_file = backing\<rparr> m1"
    using assms(1) by (auto simp: mmap_record_def split: option.splits prod.splits if_splits)
  show ?thesis
  proof (cases "flags AND MAP_FIXED = 0")
    case True
    then have "mmap_place addr len False m = Some (base, m1)" using p(1) by simp
    from mmap_place_spec [OF this assms(2,3)] p(2) True show ?thesis by blast
  next
    case False
    with p(1) have "base = addr" "m1 = m" by (simp_all add: mmap_place_def)
    with assms(4) False p(2) show ?thesis by blast
  qed
qed

lemma mmap_record_records:
  assumes "mmap_record addr len prot flags backing m = Some (base, m')" and "PAGE_SIZE dvd len" "0 < len"
    and "flags AND MAP_FIXED \<noteq> 0 \<Longrightarrow> range_is_free m addr (addr + len)"
  shows "recorded_at m' a =
    (if base \<le> a \<and> a < base + len
     then Some (prot, flags, vma_origin \<lparr>vm_start = base, vm_end = base + len, vm_prot = prot, vm_flags = flags,
       vm_file = backing\<rparr> a)
     else recorded_at m a)"
proof -
  let ?v = "\<lparr>vm_start = base, vm_end = base + len, vm_prot = prot, vm_flags = flags, vm_file = backing\<rparr>"
  obtain m1 where m1: "m' = push_vma ?v m1" "ms_vmas m1 = ms_vmas m" "range_is_free m base (base + len)"
    using mmap_record_spec [OF assms] by blast
  have "range_is_free m1 base (base + len)" using m1(2,3) by (simp add: range_is_free_def)
  from push_vma_records [of m1 ?v a] this m1(1,2) show ?thesis
    by (simp add: vma_contains_def recorded_at_def find_vma_def)
qed

text \<open>C10 (a mapping is where it was asked for): what \<open>mmap\<close> returns is the start of a range in which nothing
  was recorded before, unless the call named the range; afterwards the record says of that range what
  the call asked for, byte by byte of the file, and of every other address what it said before.\<close>

theorem mmap_records:
  assumes call: "sys_mmap look populate addr want prot flags fd offset m = Some (Inr base, m')"
  shows "recorded_at m' a =
      (if base \<le> a \<and> a < base + page_align_up want
       then Some (prot, flags,
         case asked_file look flags fd offset (page_align_up want) of
           None \<Rightarrow> Zeroes
         | Some f \<Rightarrow> Byte_of (fm_node f) (offset + (a - base)))
       else recorded_at m a)
    \<and> (if flags AND MAP_FIXED = 0 then range_is_free m base (base + page_align_up want)
       else base = addr \<and> base + page_align_up want \<le> USER_LIMIT)"
proof -
  let ?len = "page_align_up want"
  obtain m1 where arg: "0 < want" and m1: "if flags AND MAP_FIXED \<noteq> 0
        then addr mod PAGE_SIZE = 0 \<and> in_user_space addr ?len \<and> remove_vma_range addr (addr + ?len) m = Some m1
        else m1 = m"
    and rec: "mmap_record addr ?len prot flags (asked_file look flags fd offset ?len) m1 = Some (base, m')"
    using sys_mmap_Inr [OF call] by blast
  have len: "PAGE_SIZE dvd ?len" "0 < ?len" using arg page_align_up_le [of want] by simp_all
  have free: "range_is_free m1 addr (addr + ?len)" if "flags AND MAP_FIXED \<noteq> 0"
    using m1 that remove_vma_range_free [of addr "addr + ?len" m m1] by simp
  note spec = mmap_record_spec [OF rec len free] and told_at = mmap_record_records [OF rec len free, of a]
  have outside: "recorded_at m1 a = recorded_at m a" if "\<not> (base \<le> a \<and> a < base + ?len)"
  proof (cases "flags AND MAP_FIXED = 0")
    case False
    then have "base = addr" using spec by blast
    with False m1 that show ?thesis by (auto dest!: remove_vma_range_records [where a = a])
  qed (use m1 in simp)
  have "vma_origin \<lparr>vm_start = base, vm_end = base + ?len, vm_prot = prot, vm_flags = flags,
        vm_file = asked_file look flags fd offset ?len\<rparr> a =
      (case asked_file look flags fd offset ?len of None \<Rightarrow> Zeroes | Some f \<Rightarrow> Byte_of (fm_node f) (offset + (a - base)))"
    if "base \<le> a" "a < base + ?len"
    using that by (auto simp: vma_origin_def asked_file_def Let_def split: sum.splits)
  then have "recorded_at m' a =
      (if base \<le> a \<and> a < base + ?len
       then Some (prot, flags, case asked_file look flags fd offset ?len of None \<Rightarrow> Zeroes
         | Some f \<Rightarrow> Byte_of (fm_node f) (offset + (a - base)))
       else recorded_at m a)"
    using told_at outside by simp
  moreover have "if flags AND MAP_FIXED = 0 then range_is_free m base (base + ?len)
      else base = addr \<and> base + ?len \<le> USER_LIMIT"
    using spec m1 in_user_space_bound [of addr ?len] len(2) by auto
  ultimately show ?thesis ..
qed

text \<open>Nothing is left of what was unmapped: after \<open>munmap\<close> nothing is recorded at any address of the
  pages it was given, and every other address is recorded as before, with the same byte of the same
  file, also where the range cut a region in two.\<close>

theorem munmap_clears:
  assumes "sys_munmap addr want m = Some (Inr r, m')"
  shows "recorded_at m' a = (if addr \<le> a \<and> a < page_align_up (addr + want) then None else recorded_at m a)"
proof -
  have "addr mod PAGE_SIZE = 0" "unmap_recorded (page_align_down addr) (page_align_up (addr + want)) m = Some m'"
    using assms by (auto simp: sys_munmap_def split: if_splits)
  moreover have "addr \<le> page_align_up (addr + want)" using page_align_up_le [of "addr + want"] by simp
  ultimately show ?thesis
    using remove_vma_range_records [OF unmap_recorded_remove] page_align_down_aligned by simp
qed

section \<open>Regions stay apart\<close>











section \<open>Where the calls go wrong\<close>




text \<open>The record after a program has asked for as much as one call gives.\<close>

definition full_record :: "u64 \<Rightarrow> mem_state" where
  "full_record prot =
     push_vma \<lparr>vm_start = USER_MMAP_BASE, vm_end = USER_LIMIT, vm_prot = prot, vm_flags = MAP_ANONYMOUS, vm_file = None\<rparr>
       (mem_state_new\<lparr>ms_mmap_top := USER_LIMIT\<rparr>)"

lemma full_record_sel [simp]:
  "ms_mmap_top (full_record prot) = USER_LIMIT"
  "ms_vmas (full_record prot) = [\<lparr>vm_start = USER_MMAP_BASE, vm_end = USER_LIMIT, vm_prot = prot,
     vm_flags = MAP_ANONYMOUS, vm_file = None\<rparr>]"
  by (simp_all add: full_record_def push_vma_def mem_state_new_def)



lemma find_map_option: "find P (map f xs) = map_option f (find (\<lambda>x. P (f x)) xs)"
  by (induction xs) auto

text \<open>C38 (\<open>mprotect\<close> changes whole regions): a protection set on part of a region is recorded for every address
  of that region, also for those outside the range the call named, whose pages then arrive with it.\<close>

theorem mprotect_spills:
  assumes "sys_mprotect addr want prot m = (Inr r, m')" and "find_vma m a = Some v"
    and "vm_start v < page_align_up (addr + want)" and "addr < vm_end v"
  shows "recorded_at m' a = Some (prot, vm_flags v, vma_origin v a)"
proof -
  let ?f = "\<lambda>v. if vm_start v < page_align_up (addr + want) \<and> addr < vm_end v then v\<lparr>vm_prot := prot\<rparr> else v"
  have "addr mod PAGE_SIZE = 0" "m' = set_vma_prot (page_align_down addr) (page_align_up (addr + want)) prot m"
    using assms(1) by (auto simp: sys_mprotect_def split: if_splits)
  then have "ms_vmas m' = map ?f (ms_vmas m)" by (simp add: set_vma_prot_def page_align_down_aligned)
  moreover have "(\<lambda>x. vma_contains (?f x) a) = (\<lambda>x. vma_contains x a)" by (auto simp: vma_contains_def)
  ultimately have "find_vma m' a = Some (?f v)" using assms(2) by (simp add: find_vma_def find_map_option)
  with assms(3,4) show ?thesis by (auto simp: recorded_at_def vma_origin_def split: option.splits)
qed

section \<open>Examples\<close>

text \<open>A program with one region of two pages.\<close>

definition example_record :: mem_state where
  "example_record = mem_state_new\<lparr>ms_vmas := [\<lparr>vm_start = 0x400000, vm_end = 0x402000, vm_prot = 3, vm_flags = 2,
     vm_file = Some \<lparr>fm_node = 7, fm_offset = 0x1000, fm_length = 0x1800\<rparr>\<rparr>]\<rparr>"

lemmas example_record_simps = example_record_def mem_state_new_def find_vma_def vma_contains_def recorded_at_def
  vma_origin_def in_user_space_def checked_add_def is_user_addr_def U64_MAX_def PAGE_SIZE_def page_align_up_def
  page_align_down_def align_up_def align_down_def

theorem mprotect_spills_witness:
  "recorded_at example_record 0x401000 = Some (3, 2, Byte_of 7 0x2000)
   \<and> recorded_at (snd (sys_mprotect 0x400000 0x1000 1 example_record)) 0x401000 = Some (1, 2, Byte_of 7 0x2000)"
proof -
  obtain m' where m': "sys_mprotect 0x400000 0x1000 1 example_record = (Inr 0, m')"
    by (simp add: sys_mprotect_def example_record_simps)
  have "find_vma example_record 0x401000 = Some (hd (ms_vmas example_record))" by (simp add: example_record_simps)
  from mprotect_spills [OF m' this] m' show ?thesis by (simp add: example_record_simps)
qed

theorem munmap_clears_witness:
  "\<exists>m'. sys_munmap 0x400000 0x1000 example_record = Some (Inr 0, m') \<and> recorded_at m' 0x400010 = None
     \<and> recorded_at m' 0x401010 = Some (3, 2, Byte_of 7 0x2010)"
proof -
  have "\<exists>m'. sys_munmap 0x400000 0x1000 example_record = Some (Inr 0, m')"
    by (simp add: sys_munmap_def unmap_recorded_def remove_vma_range_def cut_vma_def cut_head_def cut_tail_def Let_def
        pages_user_def example_record_simps)
  then obtain m' where m': "sys_munmap 0x400000 0x1000 example_record = Some (Inr 0, m')" ..
  from munmap_clears [OF m', of "0x400010"] munmap_clears [OF m', of "0x401010"] m' show ?thesis
    by (simp add: example_record_simps)
qed

lemma example_mmap:
  "\<exists>m'. sys_mmap (\<lambda>_. Inr 9) (\<lambda>_ _ _ _. None) 0x400000 1 1 (MAP_FIXED OR 2) 3 0x5000 example_record = Some (Inr 0x400000, m')"
  by (simp add: sys_mmap_def mmap_record_def mmap_place_def unmap_recorded_def remove_vma_range_def cut_vma_def cut_head_def
      cut_tail_def Let_def pages_user_def MAX_MAPPING_def MAP_FIXED_def MAP_ANONYMOUS_def example_record_simps)

theorem mmap_records_witness:
  "\<exists>m'. sys_mmap (\<lambda>_. Inr 9) (\<lambda>_ _ _ _. None) 0x400000 1 1 (MAP_FIXED OR 2) 3 0x5000 example_record = Some (Inr 0x400000, m')
     \<and> recorded_at m' 0x400010 = Some (1, MAP_FIXED OR 2, Byte_of 9 0x5010)
     \<and> recorded_at m' 0x401000 = Some (3, 2, Byte_of 7 0x2000)"
proof -
  obtain m' where m': "sys_mmap (\<lambda>_. Inr 9) (\<lambda>_ _ _ _. None) 0x400000 1 1 (MAP_FIXED OR 2) 3 0x5000 example_record =
      Some (Inr 0x400000, m')" using example_mmap ..
  from mmap_records [OF m', of "0x400010"] mmap_records [OF m', of "0x401000"] m' show ?thesis
    by (simp add: asked_file_def MAP_FIXED_def MAP_ANONYMOUS_def example_record_simps)
qed


text \<open>\<open>mremap\<close> told a smaller old size than the region has records a second region inside the first.\<close>

lemma mremap_overlaps:
  "\<exists>m'. sys_mremap copy_within 0x400000 0x1000 0x2000 example_record = Some (Inr 0x400000, m') \<and> \<not> regions_ok (ms_vmas m')"
  by (simp add: sys_mremap_def mremap_place_def page_round_up_def Let_def push_vma_def vmas_apart_def example_record_simps)

end
