(* ===== verification/Pipe.thy ===== *)
theory Pipe
  imports Prelude
begin

text \<open>
  Pipes (\<open>kernel/src/fs/pipe.rs\<close>): the buffer two ends share, the turns a reader and a writer take until
  they are served, and the registry in which the two ends of a named pipe meet.  A section of the
  buffer's lock is one function; what a call reads of the counts outside it is another, since another
  task can run between the two.  A call that has to wait is \<open>Waits\<close>, and it takes its turn again when
  the condition it waits for holds.
\<close>

section \<open>Definitions\<close>

definition PIPE_CAPACITY :: nat where "PIPE_CAPACITY = 64 * 1024"

datatype pipe_end = Read_end | Write_end | Both_ends

definition end_reads :: "pipe_end \<Rightarrow> bool" where
  "end_reads e \<longleftrightarrow> e = Read_end \<or> e = Both_ends"

definition end_writes :: "pipe_end \<Rightarrow> bool" where
  "end_writes e \<longleftrightarrow> e = Write_end \<or> e = Both_ends"

record pipe =
  pp_data :: bytes
  pp_head :: nat
  pp_readers :: nat
  pp_writers :: nat
  pp_reader_opens :: nat
  pp_writer_opens :: nat
  pp_fifo :: "nat option"

definition pipe_make :: "nat option \<Rightarrow> pipe" where
  "pipe_make fifo = \<lparr>pp_data = [], pp_head = 0, pp_readers = 0, pp_writers = 0, pp_reader_opens = 0,
     pp_writer_opens = 0, pp_fifo = fifo\<rparr>"

definition pipe_available :: "pipe \<Rightarrow> nat" where
  "pipe_available p = length (pp_data p) - pp_head p"

definition writable_now :: "pipe \<Rightarrow> bool" where
  "writable_now p \<longleftrightarrow> length (pp_data p) - pp_head p < PIPE_CAPACITY"

datatype 'a turn = Finished "errno + 'a" | Waits

text \<open>The section of \<open>read\<close> that holds the buffer, and what follows when it was empty.\<close>

definition read_section :: "nat \<Rightarrow> pipe \<Rightarrow> (bytes \<times> pipe) option" where
  "read_section want p =
     (let available = length (pp_data p) - pp_head p in
      if available > 0 then
        (let n = min available want; h = pp_head p + n; taken = take n (drop (pp_head p) (pp_data p)) in
         Some (taken, if h = length (pp_data p) then p\<lparr>pp_data := [], pp_head := 0\<rparr> else p\<lparr>pp_head := h\<rparr>))
      else None)"

definition read_empty :: "bool \<Rightarrow> bool \<Rightarrow> pipe \<Rightarrow> bytes turn" where
  "read_empty nonblock signal p =
     (if pp_writers p = 0 then Finished (Inr [])
      else if nonblock then Finished (Inl EAGAIN)
      else if signal then Finished (Inl EINTR)
      else Waits)"

definition pipe_read :: "nat \<Rightarrow> bool \<Rightarrow> bool \<Rightarrow> pipe \<Rightarrow> bytes turn \<times> pipe" where
  "pipe_read want nonblock signal p =
     (if want = 0 then (Finished (Inr []), p)
      else case read_section want p of
        Some (taken, p') \<Rightarrow> (Finished (Inr taken), p')
      | None \<Rightarrow> (read_empty nonblock signal p, p))"

definition read_wakes :: "bool \<Rightarrow> pipe \<Rightarrow> bool" where
  "read_wakes signal p \<longleftrightarrow> length (pp_data p) > pp_head p \<or> pp_writers p = 0 \<or> signal"

definition write_section :: "bytes \<Rightarrow> pipe \<Rightarrow> (nat \<times> pipe) option" where
  "write_section buf p =
     (let used = length (pp_data p) - pp_head p in
      if used < PIPE_CAPACITY then
        (let n = min (length buf) (PIPE_CAPACITY - used) in Some (n, p\<lparr>pp_data := pp_data p @ take n buf\<rparr>))
      else None)"

text \<open>The flag says whether the writer is sent \<open>SIGPIPE\<close>.\<close>

definition pipe_write :: "bytes \<Rightarrow> bool \<Rightarrow> bool \<Rightarrow> pipe \<Rightarrow> nat turn \<times> bool \<times> pipe" where
  "pipe_write buf nonblock signal p =
     (if buf = [] then (Finished (Inr 0), False, p)
      else if pp_readers p = 0 then (Finished (Inl EPIPE), True, p)
      else case write_section buf p of
        Some (n, p') \<Rightarrow> (Finished (Inr n), False, p')
      | None \<Rightarrow>
          (if nonblock then Finished (Inl EAGAIN) else if signal then Finished (Inl EINTR) else Waits, False, p))"

definition write_wakes :: "bool \<Rightarrow> pipe \<Rightarrow> bool" where
  "write_wakes signal p \<longleftrightarrow> length (pp_data p) - pp_head p < PIPE_CAPACITY \<or> pp_readers p = 0 \<or> signal"

subsection \<open>The registry of named pipes\<close>

text \<open>The pipes made so far, by number, and the one each inode's descriptors meet at.\<close>

record pipe_world =
  pw_pipes :: "nat \<Rightarrow> pipe"
  pw_next :: nat
  pw_fifos :: "nat \<Rightarrow> nat option"

definition set_pipe :: "nat \<Rightarrow> pipe \<Rightarrow> pipe_world \<Rightarrow> pipe_world" where
  "set_pipe i p w = w\<lparr>pw_pipes := (pw_pipes w)(i := p)\<rparr>"

definition count_on :: "pipe_end \<Rightarrow> pipe \<Rightarrow> pipe" where
  "count_on e p =
     (let p1 = (if end_reads e then p\<lparr>pp_readers := pp_readers p + 1, pp_reader_opens := pp_reader_opens p + 1\<rparr> else p)
      in if end_writes e then p1\<lparr>pp_writers := pp_writers p1 + 1, pp_writer_opens := pp_writer_opens p1 + 1\<rparr> else p1)"

definition fifo_join :: "nat \<Rightarrow> pipe_end \<Rightarrow> bool \<Rightarrow> pipe_world \<Rightarrow> (errno + (nat \<times> nat)) \<times> pipe_world" where
  "fifo_join ino e nonblock w =
     (let existing = pw_fifos w ino in
      if e = Write_end \<and> nonblock \<and> (case existing of None \<Rightarrow> 0 | Some i \<Rightarrow> pp_readers (pw_pipes w i)) = 0
      then (Inl ENXIO, w)
      else
        (let (i, w1) = (case existing of
                 Some i \<Rightarrow> (i, w)
               | None \<Rightarrow> (pw_next w, w\<lparr>pw_pipes := (pw_pipes w)(pw_next w := pipe_make (Some ino)),
                   pw_next := pw_next w + 1, pw_fifos := (pw_fifos w)(ino := Some (pw_next w))\<rparr>));
             p = pw_pipes w1 i;
             seen = (if e = Write_end then pp_reader_opens p else pp_writer_opens p)
         in (Inr (i, seen), set_pipe i (count_on e p) w1)))"

definition pipe_give_back :: "pipe_end \<Rightarrow> pipe \<Rightarrow> pipe" where
  "pipe_give_back e p =
     (let p1 = (if end_reads e then p\<lparr>pp_readers := pp_readers p - 1\<rparr> else p)
      in if end_writes e then p1\<lparr>pp_writers := pp_writers p1 - 1\<rparr> else p1)"

definition leave :: "nat \<Rightarrow> pipe_end \<Rightarrow> pipe_world \<Rightarrow> pipe_world" where
  "leave i e w =
     (let p = pipe_give_back e (pw_pipes w i); w1 = set_pipe i p w in
      case pp_fifo p of
        None \<Rightarrow> w1
      | Some ino \<Rightarrow>
          if pp_readers p = 0 \<and> pp_writers p = 0 then w1\<lparr>pw_fifos := (pw_fifos w1)(ino := None)\<rparr> else w1)"

definition create_pair :: "pipe_world \<Rightarrow> (nat \<times> pipe_end) list \<times> pipe_world" where
  "create_pair w =
     (let i = pw_next w; p = (pipe_make None)\<lparr>pp_readers := 1, pp_writers := 1\<rparr> in
      ([(i, Read_end), (i, Write_end)], w\<lparr>pw_pipes := (pw_pipes w)(i := p), pw_next := i + 1\<rparr>))"

text \<open>The condition an open of a named pipe waits for.\<close>

definition fifo_arrived :: "pipe_end \<Rightarrow> nat \<Rightarrow> pipe \<Rightarrow> bool" where
  "fifo_arrived e seen p \<longleftrightarrow>
     (if e = Write_end then pp_readers p > 0 \<or> pp_reader_opens p \<noteq> seen
      else pp_writers p > 0 \<or> pp_writer_opens p \<noteq> seen)"

section \<open>The bytes of a pipe\<close>

definition pipe_bytes :: "pipe \<Rightarrow> bytes" where
  "pipe_bytes p = drop (pp_head p) (pp_data p)"

definition pipe_ok :: "pipe \<Rightarrow> bool" where
  "pipe_ok p \<longleftrightarrow> pp_head p \<le> length (pp_data p) \<and> length (pipe_bytes p) \<le> PIPE_CAPACITY"

lemma read_section_Some:
  assumes "read_section want p = Some (taken, p')" and "pipe_ok p"
  shows "pipe_bytes p = taken @ pipe_bytes p'" and "pipe_ok p'" and "length taken = min (length (pipe_bytes p)) want"
proof -
  have "drop h xs = take n (drop h xs) @ drop (h + n) xs" for h n and xs :: bytes
    using append_take_drop_id [of n "drop h xs"] by (simp add: add.commute)
  with assms show "pipe_bytes p = taken @ pipe_bytes p'"
    by (auto simp: read_section_def pipe_bytes_def pipe_ok_def Let_def split: if_splits)
  show "pipe_ok p'" "length taken = min (length (pipe_bytes p)) want"
    using assms by (auto simp: read_section_def pipe_bytes_def pipe_ok_def Let_def split: if_splits)
qed

lemma write_section_Some:
  assumes "write_section buf p = Some (n, p')" and "pipe_ok p"
  shows "pipe_bytes p' = pipe_bytes p @ take n buf" and "pipe_ok p'" and "n \<le> length buf"
    and "n = min (length buf) (PIPE_CAPACITY - length (pipe_bytes p))"
  using assms by (auto simp: write_section_def pipe_bytes_def pipe_ok_def Let_def split: if_splits)

text \<open>A task that is woken is served at its next turn.\<close>

lemma wake_is_enough:
  "read_wakes signal p \<Longrightarrow> fst (pipe_read want False signal p) \<noteq> Waits"
  "write_wakes signal p \<Longrightarrow> fst (pipe_write buf False signal p) \<noteq> Waits"
  by (auto simp: pipe_read_def read_section_def read_empty_def read_wakes_def pipe_write_def write_section_def
      write_wakes_def Let_def split: option.splits)

text \<open>
  Whatever order the tasks at the two ends run in.  The second and third list are all the bytes written
  and read so far; the flag says that the reader has found the buffer empty and goes on from there.
\<close>

inductive pipe_run :: "pipe \<Rightarrow> bytes \<Rightarrow> bytes \<Rightarrow> bool \<Rightarrow> bool" where
  created: "pipe_run ((pipe_make fifo)\<lparr>pp_readers := r, pp_writers := w\<rparr>) [] [] False"
| writes: "pipe_run p ws rs saw \<Longrightarrow> write_section buf p = Some (n, p') \<Longrightarrow> pipe_run p' (ws @ take n buf) rs saw"
| reads: "pipe_run p ws rs saw \<Longrightarrow> read_section want p = Some (taken, p') \<Longrightarrow> pipe_run p' ws (rs @ taken) False"
| finds_empty: "pipe_run p ws rs saw \<Longrightarrow> read_section want p = None \<Longrightarrow> pipe_run p ws rs True"
| opens: "pipe_run p ws rs saw \<Longrightarrow> pipe_run (count_on e p) ws rs saw"
| closes: "pipe_run p ws rs saw \<Longrightarrow> pipe_run (pipe_give_back e p) ws rs saw"

lemma count_on_sel [simp]:
  "pp_data (count_on e p) = pp_data p" "pp_head (count_on e p) = pp_head p" "pp_fifo (count_on e p) = pp_fifo p"
  "pp_readers (count_on e p) = pp_readers p + (if end_reads e then 1 else 0)"
  "pp_writers (count_on e p) = pp_writers p + (if end_writes e then 1 else 0)"
  by (simp_all add: count_on_def Let_def)

lemma pipe_give_back_sel [simp]:
  "pp_data (pipe_give_back e p) = pp_data p" "pp_head (pipe_give_back e p) = pp_head p" "pp_fifo (pipe_give_back e p) = pp_fifo p"
  "pp_readers (pipe_give_back e p) = pp_readers p - (if end_reads e then 1 else 0)"
  "pp_writers (pipe_give_back e p) = pp_writers p - (if end_writes e then 1 else 0)"
  by (simp_all add: pipe_give_back_def Let_def)

text \<open>C11 (a pipe is a queue): whatever the interleaving of the tasks at its ends, the bytes read so far
  followed by those in the buffer are the bytes written so far, in order, and the buffer holds no more
  than its capacity.\<close>

theorem pipe_is_queue:
  assumes "pipe_run p ws rs saw"
  shows "ws = rs @ pipe_bytes p \<and> length (pipe_bytes p) \<le> PIPE_CAPACITY"
proof -
  from assms have "ws = rs @ pipe_bytes p \<and> pipe_ok p"
  proof (induction rule: pipe_run.induct)
    case (created fifo r w)
    show ?case by (simp add: pipe_make_def pipe_bytes_def pipe_ok_def)
  next
    case (writes p ws rs saw buf n p')
    with write_section_Some [OF writes(2)] show ?case by simp
  next
    case (reads p ws rs saw want taken p')
    with read_section_Some [OF reads(2)] show ?case by simp
  qed (simp_all add: pipe_bytes_def pipe_ok_def)
  then show ?thesis by (simp add: pipe_ok_def)
qed

text \<open>C40 (an end of file too early): the writers are counted after the buffer's lock was let go.  A writer
  that puts its bytes in and closes between the two leaves the reader with an end of file while the
  bytes are in the buffer.\<close>

theorem end_of_file_too_early:
  "\<exists>p ws rs. pipe_run p ws rs True \<and> read_empty nonblock signal p = Finished (Inr []) \<and> pipe_bytes p \<noteq> []
     \<and> length rs < length ws"
proof -
  let ?p = "(pipe_make None)\<lparr>pp_readers := 1, pp_writers := 1\<rparr>"
  let ?q = "?p\<lparr>pp_data := [7]\<rparr>"
  have "pipe_run ?p [] [] True"
    by (rule finds_empty [OF created, of 1]) (simp add: read_section_def pipe_make_def)
  moreover have "write_section [7] ?p = Some (1, ?q)"
    by (simp add: write_section_def pipe_make_def PIPE_CAPACITY_def Let_def)
  ultimately have "pipe_run ?q ([] @ take 1 [7]) [] True" by (rule writes)
  then have "pipe_run (pipe_give_back Write_end ?q) [7] [] True" using closes by simp
  then show ?thesis
    by (intro exI [of _ "pipe_give_back Write_end ?q"] exI [of _ "[7]"] exI [of _ "[]"])
      (simp add: read_empty_def pipe_bytes_def pipe_make_def end_writes_def)
qed

section \<open>Where two ends meet\<close>

text \<open>A run of opens, closes and uses, with the descriptors open.\<close>

inductive fifo_run :: "pipe_world \<Rightarrow> (nat \<times> pipe_end) list \<Rightarrow> bool" where
  boot: "fifo_run \<lparr>pw_pipes = ps, pw_next = 0, pw_fifos = (\<lambda>_. None)\<rparr> []"
| join: "fifo_run w hs \<Longrightarrow> fifo_join ino e nonblock w = (Inr (i, seen), w') \<Longrightarrow> fifo_run w' ((i, e) # hs)"
| refused: "fifo_run w hs \<Longrightarrow> fifo_join ino e nonblock w = (Inl err, w') \<Longrightarrow> fifo_run w' hs"
| pair: "fifo_run w hs \<Longrightarrow> create_pair w = (new, w') \<Longrightarrow> fifo_run w' (new @ hs)"
| close: "fifo_run w hs \<Longrightarrow> (i, e) \<in> set hs \<Longrightarrow> fifo_run (leave i e w) (remove1 (i, e) hs)"
| use: "fifo_run w hs \<Longrightarrow> fifo_run (set_pipe i ((pw_pipes w i)\<lparr>pp_data := d, pp_head := h\<rparr>) w) hs"

definition open_for :: "(pipe_end \<Rightarrow> bool) \<Rightarrow> nat \<Rightarrow> (nat \<times> pipe_end) list \<Rightarrow> nat" where
  "open_for side i hs = length (filter (\<lambda>(j, e). j = i \<and> side e) hs)"

lemma open_for_simps [simp]:
  "open_for side i [] = 0"
  "open_for side i ((j, e) # hs) = (if j = i \<and> side e then 1 else 0) + open_for side i hs"
  by (simp_all add: open_for_def)

lemma open_for_remove1:
  "(j, e) \<in> set hs \<Longrightarrow> open_for side i (remove1 (j, e) hs) = open_for side i hs - (if j = i \<and> side e then 1 else 0)"
proof (induction hs)
  case (Cons h hs)
  have pos: "0 < open_for side i hs" if "(j, e) \<in> set hs" "j = i \<and> side e"
    using that by (auto simp: open_for_def filter_empty_conv)
  obtain k f where h: "h = (k, f)" by (cases h)
  show ?case using Cons pos by (auto simp: h)
qed simp

lemma open_for_none:
  "open_for end_reads i hs = 0 \<Longrightarrow> open_for end_writes i hs = 0 \<Longrightarrow> (i, e) \<notin> set hs"
  by (cases e) (auto simp: open_for_def filter_empty_conv end_reads_def end_writes_def)

definition fifo_inv :: "pipe_world \<Rightarrow> (nat \<times> pipe_end) list \<Rightarrow> bool" where
  "fifo_inv w hs \<longleftrightarrow>
     (\<forall>i < pw_next w. pp_readers (pw_pipes w i) = open_for end_reads i hs \<and>
        pp_writers (pw_pipes w i) = open_for end_writes i hs) \<and>
     (\<forall>i e. (i, e) \<in> set hs \<longrightarrow> i < pw_next w \<and>
        (\<forall>ino. pp_fifo (pw_pipes w i) = Some ino \<longrightarrow> pw_fifos w ino = Some i)) \<and>
     (\<forall>ino i. pw_fifos w ino = Some i \<longrightarrow> i < pw_next w \<and> pp_fifo (pw_pipes w i) = Some ino \<and> (\<exists>e. (i, e) \<in> set hs))"

lemma fifo_invD:
  assumes "fifo_inv w hs"
  shows "i < pw_next w \<Longrightarrow> pp_readers (pw_pipes w i) = open_for end_reads i hs"
    and "i < pw_next w \<Longrightarrow> pp_writers (pw_pipes w i) = open_for end_writes i hs"
    and "(i, e) \<in> set hs \<Longrightarrow> i < pw_next w"
    and "(i, e) \<in> set hs \<Longrightarrow> pp_fifo (pw_pipes w i) = Some ino \<Longrightarrow> pw_fifos w ino = Some i"
    and "pw_fifos w ino = Some i \<Longrightarrow> i < pw_next w \<and> pp_fifo (pw_pipes w i) = Some ino \<and> (\<exists>e. (i, e) \<in> set hs)"
  using assms unfolding fifo_inv_def by blast+

lemma fifo_invI:
  assumes "\<And>i. i < pw_next w \<Longrightarrow> pp_readers (pw_pipes w i) = open_for end_reads i hs"
    and "\<And>i. i < pw_next w \<Longrightarrow> pp_writers (pw_pipes w i) = open_for end_writes i hs"
    and "\<And>i e. (i, e) \<in> set hs \<Longrightarrow> i < pw_next w"
    and "\<And>i e ino. (i, e) \<in> set hs \<Longrightarrow> pp_fifo (pw_pipes w i) = Some ino \<Longrightarrow> pw_fifos w ino = Some i"
    and "\<And>ino i. pw_fifos w ino = Some i \<Longrightarrow> i < pw_next w \<and> pp_fifo (pw_pipes w i) = Some ino"
    and "\<And>ino i. pw_fifos w ino = Some i \<Longrightarrow> \<exists>e. (i, e) \<in> set hs"
  shows "fifo_inv w hs"
  unfolding fifo_inv_def using assms by blast

lemma fifo_inv_count_on:
  assumes inv: "fifo_inv w hs" and at: "pw_fifos w ino = Some i"
  shows "fifo_inv (set_pipe i (count_on e (pw_pipes w i)) w) ((i, e) # hs)"
proof -
  note D = fifo_invD [OF inv]
  have i: "i < pw_next w" "pp_fifo (pw_pipes w i) = Some ino" using D(5) [OF at] by simp_all
  show ?thesis
  proof (rule fifo_invI, goal_cases)
    case (3 j f) then show ?case using i D(3) by (auto simp: set_pipe_def)
  next
    case (4 j f x) then show ?case using i at D(4) [of j f x] by (auto simp: set_pipe_def split: if_splits)
  next
    case (5 x j) then show ?case using D(5) [of x j] by (auto simp: set_pipe_def)
  next
    case (6 x j) then show ?case using D(5) [of x j] by (auto simp: set_pipe_def)
  qed (use i D(1,2) in \<open>auto simp: set_pipe_def\<close>)
qed

lemma fifo_inv_fresh:
  assumes "fifo_inv w hs"
  shows "(pw_next w, f) \<notin> set hs" and "open_for side (pw_next w) hs = 0"
  using fifo_invD(3) [OF assms, of "pw_next w"] by (auto simp: open_for_def filter_empty_conv)

lemma fifo_inv_new:
  assumes inv: "fifo_inv w hs" and none: "pw_fifos w ino = None" and i: "i = pw_next w"
  shows "fifo_inv (set_pipe i (count_on e (pipe_make (Some ino)))
    (w\<lparr>pw_pipes := (pw_pipes w)(i := pipe_make (Some ino)), pw_next := i + 1, pw_fifos := (pw_fifos w)(ino := Some i)\<rparr>))
    ((i, e) # hs)"
proof -
  note D = fifo_invD [OF inv] and fresh = fifo_inv_fresh [OF inv, folded i]
  have below: "j < i" "j \<noteq> i" if "(j, f) \<in> set hs" for j f using D(3) [OF that] i by simp_all
  have other: "pp_fifo (pw_pipes w j) \<noteq> Some ino" if "(j, f) \<in> set hs" for j f
    using D(4) [OF that, of ino] none by auto
  show ?thesis
  proof (rule fifo_invI, goal_cases)
    case (1 j) then show ?case using D(1) [of j] fresh(2) i by (auto simp: set_pipe_def pipe_make_def less_Suc_eq)
  next
    case (2 j) then show ?case using D(2) [of j] fresh(2) i by (auto simp: set_pipe_def pipe_make_def less_Suc_eq)
  next
    case (3 j f) then show ?case using below(1) [of j f] by (auto simp: set_pipe_def)
  next
    case (4 j f x) then show ?case using below [of j f] other [of j f] D(4) [of j f x]
      by (auto simp: set_pipe_def pipe_make_def split: if_splits)
  next
    case (5 x j) then show ?case using D(5) [of x j] i by (auto simp: set_pipe_def pipe_make_def split: if_splits)
  next
    case (6 x j) then show ?case using D(5) [of x j] by (auto simp: set_pipe_def split: if_splits)
  qed
qed

lemma fifo_inv_pair:
  assumes inv: "fifo_inv w hs" and new: "create_pair w = (new, w')"
  shows "fifo_inv w' (new @ hs)"
proof -
  note D = fifo_invD [OF inv] and fresh = fifo_inv_fresh [OF inv]
  have w': "new = [(pw_next w, Read_end), (pw_next w, Write_end)]" "pw_next w' = pw_next w + 1"
    "pw_fifos w' = pw_fifos w" "pw_pipes w' = (pw_pipes w)(pw_next w := (pipe_make None)\<lparr>pp_readers := 1, pp_writers := 1\<rparr>)"
    using new by (auto simp: create_pair_def Let_def)
  have below: "j \<noteq> pw_next w" "j < pw_next w" if "(j, f) \<in> set hs" for j f using D(3) [OF that] by simp_all
  show ?thesis
  proof (rule fifo_invI, goal_cases)
    case (1 j) then show ?case using D(1) [of j] fresh(2) by (auto simp: w' pipe_make_def less_Suc_eq end_reads_def)
  next
    case (2 j) then show ?case using D(2) [of j] fresh(2) by (auto simp: w' pipe_make_def less_Suc_eq end_writes_def)
  next
    case (3 j f) then show ?case using below(2) [of j f] by (auto simp: w')
  next
    case (4 j f x) then show ?case using below [of j f] D(4) [of j f x]
      by (auto simp: w' pipe_make_def split: if_splits)
  next
    case (5 x j) then show ?case using D(5) [of x j] by (auto simp: w')
  next
    case (6 x j) then show ?case using D(5) [of x j] by (auto simp: w')
  qed
qed

text \<open>What closing a descriptor leaves, before the registry is looked at.\<close>

lemma pipe_give_back_keeps:
  assumes inv: "fifo_inv w hs" and h: "(i, e) \<in> set hs"
  defines "v \<equiv> set_pipe i (pipe_give_back e (pw_pipes w i)) w" and "rest \<equiv> remove1 (i, e) hs"
  shows "j < pw_next w \<Longrightarrow> pp_readers (pw_pipes v j) = open_for end_reads j rest"
    and "j < pw_next w \<Longrightarrow> pp_writers (pw_pipes v j) = open_for end_writes j rest"
    and "pp_fifo (pw_pipes v j) = pp_fifo (pw_pipes w j)"
    and "(j, f) \<in> set rest \<Longrightarrow> (j, f) \<in> set hs"
    and "(j, f) \<in> set hs \<Longrightarrow> j \<noteq> i \<Longrightarrow> (j, f) \<in> set rest"
proof -
  note D = fifo_invD [OF inv]
  show "j < pw_next w \<Longrightarrow> pp_readers (pw_pipes v j) = open_for end_reads j rest"
    using D(1) [of j] by (auto simp: v_def rest_def set_pipe_def open_for_remove1 [OF h])
  show "j < pw_next w \<Longrightarrow> pp_writers (pw_pipes v j) = open_for end_writes j rest"
    using D(2) [of j] by (auto simp: v_def rest_def set_pipe_def open_for_remove1 [OF h])
  show "pp_fifo (pw_pipes v j) = pp_fifo (pw_pipes w j)" by (simp add: v_def set_pipe_def)
  show "(j, f) \<in> set rest \<Longrightarrow> (j, f) \<in> set hs"
    unfolding rest_def using set_remove1_subset by fastforce
  show "(j, f) \<in> set hs \<Longrightarrow> j \<noteq> i \<Longrightarrow> (j, f) \<in> set rest" by (simp add: rest_def in_set_remove1)
qed

lemma fifo_inv_leave:
  assumes inv: "fifo_inv w hs" and h: "(i, e) \<in> set hs"
  shows "fifo_inv (leave i e w) (remove1 (i, e) hs)"
proof -
  let ?v = "set_pipe i (pipe_give_back e (pw_pipes w i)) w" and ?hs = "remove1 (i, e) hs"
  note D = fifo_invD [OF inv] and keeps = pipe_give_back_keeps [OF inv h]
  have i: "i < pw_next w" using D(3) [OF h] .
  have same: "pw_next ?v = pw_next w" "pw_fifos ?v = pw_fifos w" by (simp_all add: set_pipe_def)
  show ?thesis
  proof (cases "pp_readers (pw_pipes ?v i) = 0 \<and> pp_writers (pw_pipes ?v i) = 0 \<and> pp_fifo (pw_pipes w i) \<noteq> None")
    case True
    then obtain ino where ino: "pp_fifo (pw_pipes w i) = Some ino" by blast
    with True have w': "leave i e w = ?v\<lparr>pw_fifos := (pw_fifos w)(ino := None)\<rparr>"
      by (simp add: leave_def Let_def set_pipe_def)
    have gone: "(i, f) \<notin> set ?hs" for f
      using True open_for_none [of i ?hs f] keeps(1,2) [OF i] by simp
    have at: "pw_fifos w ino = Some i" using D(4) [OF h ino] .
    have not_i: "j \<noteq> i" if "pw_fifos w x = Some j" "x \<noteq> ino" for j x using D(5) [OF that(1)] that(2) ino by auto
    show ?thesis unfolding w'
    proof (rule fifo_invI, goal_cases)
      case (4 j f x)
      then have "pw_fifos w x = Some j" "j \<noteq> i" using D(4) [OF keeps(4)] keeps(3) gone by auto
      with at show ?case by auto
    next
      case (5 x j) then show ?case using D(5) [of x j] keeps(3) by (auto simp: same split: if_splits)
    next
      case (6 x j) then show ?case using D(5) [of x j] not_i [of x j] keeps(5) by (auto split: if_splits)
    qed (use keeps(1,2) D(3) [OF keeps(4)] in \<open>auto simp: same\<close>)
  next
    case False
    then have w': "leave i e w = ?v" by (auto simp: leave_def Let_def set_pipe_def split: option.splits)
    have left: "\<exists>f. (i, f) \<in> set ?hs" if "pp_fifo (pw_pipes w i) \<noteq> None"
      using False that keeps(1,2) [OF i] by (auto simp: open_for_def filter_empty_conv)
    show ?thesis unfolding w'
    proof (rule fifo_invI, goal_cases)
      case (4 j f x) then show ?case using D(4) [OF keeps(4)] keeps(3) by (simp add: same)
    next
      case (5 x j) then show ?case using D(5) [of x j] keeps(3) by (simp add: same)
    next
      case (6 x j) then show ?case using D(5) [of x j] keeps(5) left by (cases "j = i") (auto simp: same)
    qed (use keeps(1,2) D(3) [OF keeps(4)] in \<open>auto simp: same\<close>)
  qed
qed

lemma fifo_run_inv: "fifo_run w hs \<Longrightarrow> fifo_inv w hs"
proof (induction rule: fifo_run.induct)
  case (boot ps)
  show ?case by (simp add: fifo_inv_def)
next
  case (join w hs ino e nonblock i seen w')
  show ?case
  proof (cases "pw_fifos w ino")
    case None
    then have "i = pw_next w" "w' = set_pipe i (count_on e (pipe_make (Some ino)))
        (w\<lparr>pw_pipes := (pw_pipes w)(i := pipe_make (Some ino)), pw_next := i + 1, pw_fifos := (pw_fifos w)(ino := Some i)\<rparr>)"
      using join(2) by (auto simp: fifo_join_def Let_def split: if_splits)
    with fifo_inv_new [OF join(3) None] show ?thesis by simp
  next
    case (Some j)
    then have "i = j" "w' = set_pipe i (count_on e (pw_pipes w i)) w"
      using join(2) by (auto simp: fifo_join_def Let_def split: if_splits)
    with fifo_inv_count_on [OF join(3) Some] show ?thesis by simp
  qed
next
  case (refused w hs ino e nonblock err w')
  then have "w' = w" by (auto simp: fifo_join_def Let_def split: if_splits prod.splits)
  with refused show ?case by simp
next
  case (pair w hs new w')
  then show ?case by (intro fifo_inv_pair)
next
  case (close w hs i e)
  then show ?case by (intro fifo_inv_leave)
next
  case (use w hs i d h)
  note D = fifo_invD [OF use.IH]
  show ?case
  proof (rule fifo_invI, goal_cases)
    case (4 j f x) then show ?case using D(4) [of j f x] by (auto simp: set_pipe_def split: if_splits)
  next
    case (5 x j) then show ?case using D(5) [of x j] by (auto simp: set_pipe_def)
  next
    case (6 x j) then show ?case using D(5) [of x j] by (auto simp: set_pipe_def)
  qed (use D(1,2,3) in \<open>auto simp: set_pipe_def\<close>)
qed

text \<open>C39 (ends of a named pipe meet): in every run of opens and closes the counts of a pipe are the numbers of
  descriptors open on its sides, an inode has an entry in the registry exactly while a descriptor is
  open on it, and every such descriptor is on the pipe of that entry, so all of them share one buffer.\<close>

theorem fifo_ends_meet:
  assumes "fifo_run w hs"
  shows "(\<forall>i < pw_next w. pp_readers (pw_pipes w i) = open_for end_reads i hs \<and> pp_writers (pw_pipes w i) = open_for end_writes i hs)
    \<and> (pw_fifos w ino = Some i \<longleftrightarrow> pp_fifo (pw_pipes w i) = Some ino \<and> (\<exists>e. (i, e) \<in> set hs))"
  using fifo_run_inv [OF assms] unfolding fifo_inv_def by blast

section \<open>Examples\<close>

lemma example_pipe_run:
  "\<exists>p. pipe_run p [1, 2, 3] [1, 2] False \<and> pipe_bytes p = [3]"
proof -
  let ?p = "(pipe_make None)\<lparr>pp_readers := 1, pp_writers := 1\<rparr>"
  have "write_section [1, 2, 3] ?p = Some (3, ?p\<lparr>pp_data := [1, 2, 3]\<rparr>)"
    by (simp add: write_section_def pipe_make_def PIPE_CAPACITY_def Let_def)
  from writes [OF created this] have "pipe_run (?p\<lparr>pp_data := [1, 2, 3]\<rparr>) [1, 2, 3] [] False" by simp
  moreover have "read_section 2 (?p\<lparr>pp_data := [1, 2, 3]\<rparr>) = Some ([1, 2], ?p\<lparr>pp_data := [1, 2, 3], pp_head := 2\<rparr>)"
    by (simp add: read_section_def pipe_make_def Let_def)
  ultimately have "pipe_run (?p\<lparr>pp_data := [1, 2, 3], pp_head := 2\<rparr>) [1, 2, 3] ([] @ [1, 2]) False" by (rule reads)
  then show ?thesis by (intro exI [of _ "?p\<lparr>pp_data := [1, 2, 3], pp_head := 2\<rparr>"]) (simp add: pipe_bytes_def)
qed

theorem pipe_is_queue_witness:
  "\<exists>p. pipe_run p [1, 2, 3] [1, 2] False \<and> [1, 2, 3] = [1, 2] @ pipe_bytes p \<and> length (pipe_bytes p) \<le> PIPE_CAPACITY"
  using example_pipe_run pipe_is_queue by blast

theorem fifo_ends_meet_witness:
  "\<exists>w i. fifo_run w [(i, Write_end), (i, Read_end)] \<and> pp_readers (pw_pipes w i) = 1 \<and> pp_writers (pw_pipes w i) = 1
     \<and> pw_fifos w 5 = Some i"
proof -
  let ?w0 = "\<lparr>pw_pipes = (\<lambda>_. pipe_make None), pw_next = 0, pw_fifos = (\<lambda>_. None)\<rparr>"
  obtain s1 w1 where w1: "fifo_join 5 Read_end False ?w0 = (Inr (0, s1), w1)" by (simp add: fifo_join_def Let_def)
  then have r1: "fifo_run w1 [(0, Read_end)]" using join [OF boot] by blast
  have "pw_fifos w1 5 = Some 0" using w1 by (auto simp: fifo_join_def Let_def set_pipe_def)
  then obtain s2 w2 where w2: "fifo_join 5 Write_end False w1 = (Inr (0, s2), w2)" by (simp add: fifo_join_def Let_def)
  then have r2: "fifo_run w2 [(0, Write_end), (0, Read_end)]" using join [OF r1] by blast
  have "pw_next w2 = 1" "pp_fifo (pw_pipes w2 0) = Some 5"
    using w1 w2 by (auto simp: fifo_join_def Let_def set_pipe_def pipe_make_def)
  with fifo_ends_meet [OF r2, of 5 0] r2 show ?thesis
    by (intro exI [of _ w2] exI [of _ 0]) (auto simp: end_reads_def end_writes_def)
qed

end
