(* ===== verification/Spec2Isabelle.thy ===== *)
theory Spec2Isabelle
  imports Prelude Boot Frame_Pool Frame_Build Kernel_Heap Paging Fat_Time Fat_Path Tcp_System Tcp_Fin Net_Delivery
    Sys_Mem Pipe
begin

text \<open>
  A verification library for claudeos, a kernel in Rust that runs Linux programs on x86-64 and on
  AArch64.  It models the parts that decide who owns memory, where bytes go on a card and what reaches
  the other end of a connection: the tables the boot loader fills, the allocator of physical frames,
  the kernel heap, the walk of the translation tables, the whole FAT32 file system, from the block
  cache to files by path, the network stack, from frames on the wire to sockets, the record of the
  regions of a program with the system calls that change it, and pipes.

  \<^bold>\<open>How the parts fit.\<close>  The boot code of each machine fills a \<open>BootInfo\<close> (kernel/src/boot.rs).  From it
  the frame allocator builds its bitmap and counts (kernel/src/mm/frame.rs); the heap
  (kernel/src/mm/heap.rs) and the translation tables (kernel/src/mm/walk.rs, over the descriptors of
  kernel/src/arch/*/paging.rs) take their memory from it.  The file system (kernel/src/storage/fat/)
  is a stack: a block device, the write-back cache over it, the boot sector and FSInfo, the file
  allocation table, names, directories, and the volume, which is what the kernel calls.  The network
  stack (kernel/src/net/) is a stack too: Ethernet frames, address resolution, IPv4 with ICMP, then UDP
  and TCP, and the sockets of a process over them; \<open>net_receive\<close> takes a frame up and \<open>net_tick\<close> lets time
  pass.  Beside the tables of a program stands a record of its regions (kernel/src/mm/space.rs), which
  the memory calls change (kernel/src/syscall/mem.rs); tasks meet at pipes (kernel/src/fs/pipe.rs).

  \<^bold>\<open>Theories and sources.\<close>  Records are the structs of the source and datatypes its enums; an operation
  that changes a struct is a function that returns it changed; a result that may be an error is a sum
  with the error on the left.  Loops are recursive functions with a termination proof, named after
  the function they are part of.

  \<^item> \<open>Prelude\<close>: arithmetic at the width of the machine (saturating and checked sums, alignment from
    kernel/src/mm/mod.rs), list lemmas the others share.
  \<^item> \<open>Boot\<close>: \<open>BootInfo\<close> with \<open>add_region\<close>, \<open>add_module\<close>, \<open>reserve\<close> and \<open>set_cmdline\<close>.
  \<^item> \<open>Frame\<close>, \<open>Frame_Pool\<close>, \<open>Frame_Build\<close>: \<open>BitmapAllocator\<close>, its operations and invariant, the
    handles over it, and \<open>build\<close> and \<open>init\<close> from a memory map.  Sixteen-bit counts saturate as the
    code's do.
  \<^item> \<open>Kernel_Heap\<close>: \<open>HoleList\<close>, an address-ordered list of holes in memory, and the locked allocator
    over it, with allocation and growing as separate sections of the lock.
  \<^item> \<open>Page_Walk\<close>, \<open>Page_Change\<close>, \<open>Paging\<close>: the walk over four levels of tables in a store of frames,
    publishing, unmapping, protecting and sharing pages, for both machines through one interface of
    descriptors.
  \<^item> \<open>Fat_Bytes\<close>, \<open>Fat_Time\<close>: little-endian fields, errors, joined paths; FAT time stamps.
  \<^item> \<open>Fat_Cache\<close>, \<open>Fat_Cache_Correct\<close>, \<open>Fat_Cache_Live\<close>: cache.rs, over any device that keeps the
    contract of \<open>Blocks\<close>; the devices in memory of tools/fatdisk/src/image.rs keep it.
  \<^item> \<open>Fat_Boot\<close>: boot.rs.  \<open>Fat_Table\<close>, \<open>Fat_Table_Correct\<close>: table.rs.  \<open>Fat_Name\<close>: name.rs.
    \<open>Fat_Dir\<close>, \<open>Fat_Dir_Correct\<close>: dir.rs.
  \<^item> \<open>Fat_Volume\<close>: every operation of volume.rs, in the monad of a volume that may fail.
  \<^item> \<open>Fat_Frame\<close>: what every operation keeps, on a device that fails as it pleases.
  \<^item> \<open>Fat_File\<close>, \<open>Fat_Write\<close>, \<open>Fat_Link\<close>, \<open>Fat_Fill\<close>, \<open>Fat_Store\<close>, \<open>Fat_Path\<close>: files as lists of bytes.
  \<^item> \<open>Net_Wire\<close>: the formats of ether.rs, arp.rs, ip.rs, icmp.rs, udp.rs and tcp.rs, and the checksum.
    \<open>Net_Config\<close>: addresses and the configuration of an interface (net/mod.rs).
  \<^item> \<open>Tcp\<close>, \<open>Tcp_Control\<close>: tcp.rs, the state of a connection and everything done to it; sequence numbers
    are 32-bit words.  \<open>Tcp_Machinery\<close>, \<open>Tcp_Reassembly\<close>, \<open>Tcp_Stream\<close>, \<open>Tcp_Sender\<close>, \<open>Tcp_Acks\<close>,
    \<open>Tcp_Writer\<close>: what each side keeps.  \<open>Tcp_States\<close>: the state diagram.  \<open>Tcp_Progress\<close>: data in order is
    taken.  \<open>Tcp_System\<close>: two ends and a network between them as a step relation.  \<open>Tcp_Fin\<close>: a FIN lost.
  \<^item> \<open>Net_Link\<close>, \<open>Net_Link_Correct\<close>: the card, the address cache, sending and taking in datagrams
    (net/mod.rs, arp.rs, ip.rs, icmp.rs).  \<open>Net_Socket\<close>, \<open>Net_Socket_Correct\<close>: socket.rs and udp.rs, the
    table of sockets and the whole stack as a step relation.  \<open>Net_Delivery\<close>: a datagram end to end.
  \<^item> \<open>Regions\<close>: \<open>MemState\<close> of space.rs, with what it records at each address.  \<open>Sys_Mem\<close>: \<open>brk\<close>, \<open>mmap\<close>,
    \<open>munmap\<close>, \<open>mprotect\<close> and \<open>mremap\<close> on it; a panic of the kernel is \<open>None\<close>.
  \<^item> \<open>Pipe\<close>: pipe.rs, a section of the lock per function, and the registry of named pipes.

  \<^bold>\<open>Interfaces.\<close>  The locale \<open>block_device\<close> states what the cache relies on: a command that succeeds moves
  the sectors asked for, one that fails may have moved some of those and no others.  Its extension
  \<open>answering_device\<close> adds that commands within the device succeed.  Everything about the file system is
  proved in one of the two and reaches the model through the interpretations \<open>recorder\<close> (a device that
  fails any chosen commands) and \<open>memory\<close> (a device that answers).  The locale \<open>paging_machine\<close> is what
  the walk relies on of the descriptors of a machine, interpreted for both machines.

  \<^bold>\<open>What is shown.\<close>  Memory: the allocator's bitmap, counts and totals agree after every operation, a
  frame with a live handle is never handed out again, the memory map is offered without anything
  held back, allocations of the heap never overlap and restore what they took, a page is mapped,
  unmapped or shared without touching any other page.  File system: reads through the cache give the
  contents, writes change exactly the bytes given, flushes put them on the card; a parsed boot sector
  keeps every cluster and table entry inside the volume; chains are walked to their end or found
  damaged; entries written for a name are read back under that name; from mounting on, after every
  operation, also one that failed, nothing unwritten is left behind; a file read by its path gives
  the bytes of its chain; and what is written to a file is what is read from it afterwards.
  Network: over a network that loses, repeats and reorders segments as it pleases, what the reader of
  a TCP connection has been given is a prefix of what the writer at the other end wrote; a connection
  moves along the edges of the state diagram only; the data wanted next is taken when it fits; a
  datagram with a changed header is refused; an accepted configuration names only next hops on the
  link; in every run of the stack no two datagram sockets share a port, queues stay within their
  bounds, and each frame carries the address of its sender; a datagram sent arrives whole in the queue
  of the socket it names.  One theorem shows a fault: after its timer has run out with more than a
  segment outstanding, a connection does not see that its FIN was acknowledged.
  Programs: a mapping is recorded where nothing was and shows the bytes of its file, cutting a range out
  leaves every other address as it was, and regions never overlap, whatever calls are made; the bytes
  read from a pipe are those written, in order, and the ends of a named pipe meet at one buffer.  Faults
  are shown as theorems too: arguments of \<open>brk\<close>, \<open>mremap\<close> and \<open>mmap\<close> that panic the kernel, a protection that
  spreads over a region, and an end of file read while bytes are in the pipe.

  \<^bold>\<open>Bounds and termination.\<close>  No definition uses fuel.  Machine integers are words, or natural numbers
  with the bound written out where the code checks or saturates; sizes and offsets on a volume are
  natural numbers, which agree with the code because \<open>parse\<close> bounds a layout to less than two to the
  power 32 sectors.  Where the code's loop ends only because a division by zero would stop it, the
  model returns the error \<open>Corrupt\<close> instead, a case the layout excludes.  The theorem on TCP is for
  streams of less than two to the power 31 bytes, within which sequence numbers do not repeat.

  \<^bold>\<open>Parameters.\<close>  The clock of a volume is a value each operation is given.  Unicode case mapping is not
  used by the source, which folds ASCII only.  A spinlock is one atomic step per critical section.
  The card of the network answers as a function of what it was given before; the clock, the timer ticks
  and the random secret of sequence numbers are values of the state that a step of the surroundings
  may change; the DHCP client and the remote console, which the stack calls in a tick, are one function
  on its state.  Where the source sorts unstably the model sorts stably.  The descriptor table and the
  outcomes of reading a file into a mapping and of copying one are arguments of the memory calls.

  \<^bold>\<open>Not modelled.\<close>  Device drivers, the wireless chip, the assembly and registers of both machines, and
  the serial line: they are sequences of device accesses.  Of the network, the DHCP client and the
  calls that block a task on a socket.  Of an address space, its page tables under the lock: faults,
  copies on write and forks.  Scheduling, the other system calls, the file tree in memory,
  the loader and the card's mount table.  Userland programs, tools and tests are outside the kernel.
\<close>

end
